(* ===== verification/Prelude.thy ===== *)
theory Prelude
  imports Main "HOL-Library.Word"
begin

unbundle bit_operations_syntax

text \<open>
  Shared vocabulary of the development: the machine types of the C sources, the conversions
  between bytes, words and numbers, and the list lemmas the component theories rely on.
  A C byte is a \<open>char\<close> (so that a C string literal is an Isabelle string literal); an
  \<open>unsigned\<close> is a \<open>32 word\<close>.
\<close>

named_theorems wf_intro \<open>preservation of the well-formedness predicates\<close>
named_theorems code_eqs \<open>defining equations of the modelled operations\<close>

type_synonym byte = char
type_synonym u16 = "16 word"
type_synonym u32 = "32 word"
type_synonym u64 = "64 word"

subsection \<open>Bytes and words\<close>

text \<open>The cast \<open>(uint8_t) w\<close> keeps the low eight bits.\<close>

definition byte_of_word :: "'a::len word \<Rightarrow> byte" where
  "byte_of_word w = char_of (uint w)"

definition word_of_byte :: "byte \<Rightarrow> 'a::len word" where
  "word_of_byte b = of_char b"

abbreviation byte_val :: "byte \<Rightarrow> nat" where
  "byte_val b \<equiv> of_char b"

lemma byte_val_less [simp]: "byte_val b < 256"
  using of_char_mod_256 [of b] by (metis mod_less_divisor zero_less_numeral)

lemma byte_val_of_word: "byte_val (byte_of_word w) = unat w mod 256"
proof -
  have "int (byte_val (byte_of_word w)) = uint w mod 256"
    by (simp add: byte_of_word_def of_nat_of_char)
  also have "\<dots> = int (unat w mod 256)"
    by (simp add: of_nat_mod)
  finally show ?thesis by simp
qed

lemma word_of_byte_nat: "word_of_byte b = of_nat (byte_val b)"
  by (simp add: word_of_byte_def of_nat_of_char)

lemma unat_word_of_byte:
  assumes "8 \<le> LENGTH('a)"
  shows "unat (word_of_byte b :: 'a::len word) = byte_val b"
proof -
  have "(2::nat) ^ 8 \<le> 2 ^ LENGTH('a)"
    using assms by (intro power_increasing) auto
  then have "byte_val b < 2 ^ LENGTH('a)"
    using order.strict_trans2 [OF byte_val_less [of b]] by simp
  then show ?thesis
    by (simp add: word_of_byte_nat unat_of_nat take_bit_eq_mod)
qed

lemma unat_word_of_byte32 [simp]: "unat (word_of_byte b :: u32) = byte_val b"
  by (rule unat_word_of_byte) simp

lemma sint_u32: "sint (w :: u32) = int (unat w) - 2 ^ 32 * of_bool (bit w 31)"
  using uint_lt2p [of w]
  by (simp add: sint_uint signed_take_bit_eq_take_bit_minus take_bit_int_eq_self bit_uint_iff)

lemma sint_nonneg: "0 \<le> sint (w :: u32) \<Longrightarrow> sint w = int (unat w)"
  using uint_lt2p [of w] by (auto simp: sint_u32 split: if_splits)

text \<open>Rotation of a 32-bit word, as \<open>rol\<close> of sha.c writes it.\<close>

definition rol :: "nat \<Rightarrow> u32 \<Rightarrow> u32" where
  "rol bits value = push_bit bits value OR drop_bit (32 - bits) value"

subsection \<open>Words in memory, least significant byte first\<close>

definition le32 :: "u32 \<Rightarrow> byte list" where
  "le32 w = [byte_of_word w, byte_of_word (drop_bit 8 w), byte_of_word (drop_bit 16 w),
             byte_of_word (drop_bit 24 w)]"

lemma length_le32 [simp]: "length (le32 w) = 4"
  by (simp add: le32_def)

definition un_le32 :: "byte list \<Rightarrow> u32" where
  "un_le32 bs = word_of_byte (bs ! 0) OR push_bit 8 (word_of_byte (bs ! 1))
     OR push_bit 16 (word_of_byte (bs ! 2)) OR push_bit 24 (word_of_byte (bs ! 3))"

lemma word_of_byte_of_word: "word_of_byte (byte_of_word w) = (take_bit 8 w :: 'a::len word)"
proof -
  have "unat (take_bit 8 w) = take_bit 8 (unat w)" by (rule unsigned_take_bit_eq)
  also have "\<dots> = unat w mod 256" by (simp add: take_bit_eq_mod)
  finally have "unat (take_bit 8 w) = unat w mod 256" .
  then have "of_nat (unat w mod 256) = (take_bit 8 w :: 'a word)"
    by (metis of_nat_unat ucast_id)
  then show ?thesis by (simp add: word_of_byte_nat byte_val_of_word)
qed

lemma un_le32_le32 [simp]: "un_le32 (le32 w) = w"
proof -
  have "un_le32 (le32 w) = take_bit 8 w OR push_bit 8 (take_bit 8 (drop_bit 8 w))
     OR push_bit 16 (take_bit 8 (drop_bit 16 w)) OR push_bit 24 (take_bit 8 (drop_bit 24 w))"
    by (simp add: un_le32_def le32_def word_of_byte_of_word)
  also have "\<dots> = w"
  proof (rule bit_word_eqI)
    fix n assume "n < LENGTH(32)"
    then consider "n < 8" | "8 \<le> n" "n < 16" | "16 \<le> n" "n < 24" | "24 \<le> n" "n < 32"
      by simp linarith
    then show "bit (take_bit 8 w OR push_bit 8 (take_bit 8 (drop_bit 8 w))
      OR push_bit 16 (take_bit 8 (drop_bit 16 w)) OR push_bit 24 (take_bit 8 (drop_bit 24 w))) n = bit w n"
      by cases (auto simp: bit_simps)
  qed
  finally show ?thesis .
qed

subsection \<open>Cutting a list into blocks\<close>

text \<open>The complete blocks of length \<open>n\<close> at the front of a list.\<close>

function blocks :: "nat \<Rightarrow> 'a list \<Rightarrow> 'a list list" where
  "blocks n xs = (if n = 0 \<or> length xs < n then [] else take n xs # blocks n (drop n xs))"
  by pat_completeness auto
termination
  by (relation "measure (\<lambda>(n, xs). length xs)") auto

declare blocks.simps [simp del]

lemma blocks_short [simp]: "length xs < n \<Longrightarrow> blocks n xs = []"
  by (simp add: blocks.simps)

lemma blocks_append_exact:
  "length b = n \<Longrightarrow> 0 < n \<Longrightarrow> blocks n (b @ xs) = b # blocks n xs"
  by (subst blocks.simps) simp

lemma blocks_append:
  "length xs mod n = 0 \<Longrightarrow> 0 < n \<Longrightarrow> blocks n (xs @ ys) = blocks n xs @ blocks n ys"
proof (induction n xs rule: blocks.induct)
  case (1 n xs)
  show ?case
  proof (cases "length xs < n")
    case True
    with "1.prems" have "xs = []" by simp
    with \<open>0 < n\<close> show ?thesis by simp
  next
    case False
    then have "length (drop n xs) mod n = 0"
      using "1.prems" by (simp add: le_mod_geq)
    with "1.IH" "1.prems" False
    have "blocks n (drop n xs @ ys) = blocks n (drop n xs) @ blocks n ys" by simp
    with False \<open>0 < n\<close> show ?thesis
      by (simp add: blocks.simps [of n xs] blocks.simps [of n "xs @ ys"])
  qed
qed

lemma blocks_lengths: "b \<in> set (blocks n xs) \<Longrightarrow> length b = n"
proof (induction n xs rule: blocks.induct)
  case (1 n xs)
  then show ?case
    by (auto simp: blocks.simps [of n xs] split: if_splits)
qed

lemma take_Suc_nth_eq: "i < length xs \<Longrightarrow> take (Suc i) (xs[i := x]) = take i xs @ [x]"
  by (simp add: take_Suc_conv_app_nth)

subsection \<open>The first index with a property\<close>

fun first_index :: "('a \<Rightarrow> bool) \<Rightarrow> 'a list \<Rightarrow> nat option" where
  "first_index P [] = None"
| "first_index P (x # xs) = (if P x then Some 0 else map_option Suc (first_index P xs))"

lemma first_index_SomeD:
  "first_index P xs = Some i \<Longrightarrow> i < length xs \<and> P (xs ! i) \<and> (\<forall>j < i. \<not> P (xs ! j))"
proof (induction xs arbitrary: i)
  case (Cons x xs)
  then show ?case
    by (cases i) (auto split: if_splits simp: less_Suc_eq_0_disj)
qed simp

lemma first_index_None: "first_index P xs = None \<longleftrightarrow> (\<forall>x \<in> set xs. \<not> P x)"
  by (induction xs) auto

subsection \<open>Results that may be errors\<close>

definition andthen :: "'e + 'a \<Rightarrow> ('a \<Rightarrow> 'e + 'b) \<Rightarrow> 'e + 'b" where
  "andthen m k = (case m of Inl e \<Rightarrow> Inl e | Inr x \<Rightarrow> k x)"

lemma andthen_simps [simp]: "andthen (Inl e) k = Inl e" "andthen (Inr x) k = k x"
  by (simp_all add: andthen_def)

lemma andthen_assoc: "andthen (andthen m k) l = andthen m (\<lambda>x. andthen (k x) l)"
  by (cases m) simp_all

lemma andthen_Inr [simp]: "andthen m Inr = m"
  by (cases m) simp_all

lemma andthen_eq_Inr: "andthen m k = Inr y \<longleftrightarrow> (\<exists>x. m = Inr x \<and> k x = Inr y)"
  by (cases m) auto

lemma option_case_Inr: "(case m of None \<Rightarrow> Inl e | Some x \<Rightarrow> f x) = Inr y \<longleftrightarrow> (\<exists>x. m = Some x \<and> f x = Inr y)"
  by (cases m) auto

lemma and_not_mask: "w AND NOT (mask j) = w - take_bit j w" for w :: u32
proof -
  have "w AND NOT (mask j) = push_bit j (drop_bit j w)"
    by (rule bit_word_eqI) (auto simp: bit_simps)
  then show ?thesis using bits_ident [of j w] by (simp add: algebra_simps)
qed

end
