(* ===== verification/Sha.thy ===== *)
theory Sha
  imports Prelude
begin

text \<open>
  The SHA-1 of the boot image tool (src/tools/mkbootimg/sha.c): the context, the block
  transform, the streaming update, the finalisation with its padding loop, and the one-shot
  \<open>SHA\<close>. The reference definition \<open>sha1_spec\<close> is the standard's: pad, cut into
  64-byte blocks, compress each block with the functions Ch, Parity and Maj. The main result is
  that the streaming code computes it, however the data was split over the updates.
\<close>

subsection \<open>The code\<close>

record SHA_CTX =
  sha_count :: u64
  sha_buf :: "byte list"
  sha_state :: "u32 list"

text \<open>The sixteen words read from the buffer, most significant byte first.\<close>

definition load_word :: "byte list \<Rightarrow> nat \<Rightarrow> u32" where
  "load_word buf t =
     ((push_bit 24 (word_of_byte (buf ! (4 * t)))
       OR push_bit 16 (word_of_byte (buf ! (4 * t + 1))))
       OR push_bit 8 (word_of_byte (buf ! (4 * t + 2))))
       OR word_of_byte (buf ! (4 * t + 3))"

text \<open>The loop \<open>for(; t < 80; t++)\<close>: each step appends \<open>W[t]\<close>, \<open>t\<close> being the current length.\<close>

primrec expand_W :: "nat \<Rightarrow> u32 list \<Rightarrow> u32 list" where
  "expand_W 0 W = W"
| "expand_W (Suc n) W =
     (let t = length W
      in expand_W n
           (W @ [rol 1 (W ! (t - 3) XOR W ! (t - 8) XOR W ! (t - 14) XOR W ! (t - 16))]))"

type_synonym regs = "u32 \<times> u32 \<times> u32 \<times> u32 \<times> u32"

fun sha_round :: "u32 list \<Rightarrow> regs \<Rightarrow> nat \<Rightarrow> regs" where
  "sha_round W (A, B, C, D, E) t =
     (let tmp = rol 5 A + E + W ! t;
          tmp = (if t < 20 then tmp + ((D XOR (B AND (C XOR D))) + 0x5A827999)
                 else if t < 40 then tmp + ((B XOR C XOR D) + 0x6ED9EBA1)
                 else if t < 60 then tmp + (((B AND C) OR (D AND (B OR C))) + 0x8F1BBCDC)
                 else tmp + ((B XOR C XOR D) + 0xCA62C1D6))
      in (tmp, A, rol 30 B, C, D))"

definition SHA1_transform :: "SHA_CTX \<Rightarrow> SHA_CTX" where
  "SHA1_transform ctx =
     (let W = expand_W 64 (map (load_word (sha_buf ctx)) [0..<16]);
          s = sha_state ctx;
          (A, B, C, D, E) =
            foldl (sha_round W) (s ! 0, s ! 1, s ! 2, s ! 3, s ! 4) [0..<80]
      in ctx\<lparr>sha_state := [s ! 0 + A, s ! 1 + B, s ! 2 + C, s ! 3 + D, s ! 4 + E]\<rparr>)"

text \<open>\<open>SHA_init\<close> leaves the buffer as it is; a fresh context on the stack has arbitrary bytes.\<close>

definition SHA_init :: "SHA_CTX \<Rightarrow> SHA_CTX" where
  "SHA_init ctx =
     ctx\<lparr>sha_state := [0x67452301, 0xEFCDAB89, 0x98BADCFE, 0x10325476, 0xC3D2E1F0],
         sha_count := 0\<rparr>"

primrec update_loop :: "nat \<Rightarrow> byte list \<Rightarrow> SHA_CTX \<Rightarrow> SHA_CTX" where
  "update_loop i [] ctx = ctx"
| "update_loop i (b # p) ctx =
     (let ctx = ctx\<lparr>sha_buf := (sha_buf ctx)[i := b]\<rparr>; i = Suc i
      in if i = 64 then update_loop 0 p (SHA1_transform ctx)
         else update_loop i p ctx)"

definition SHA_update :: "SHA_CTX \<Rightarrow> byte list \<Rightarrow> SHA_CTX" where
  "SHA_update ctx data =
     (let i = unat (sha_count ctx) mod 64;
          ctx = ctx\<lparr>sha_count := sha_count ctx + of_nat (length data)\<rparr>
      in update_loop i data ctx)"

lemma SHA1_transform_count [simp]: "sha_count (SHA1_transform ctx) = sha_count ctx"
  by (simp add: SHA1_transform_def Let_def split: prod.split)

lemma update_loop_count [simp]: "sha_count (update_loop i p ctx) = sha_count ctx"
  by (induction p arbitrary: i ctx) (auto simp: Let_def)

lemma SHA_update_count [simp]:
  "sha_count (SHA_update ctx data) = sha_count ctx + of_nat (length data)"
  by (simp add: SHA_update_def Let_def)

lemma unat_count_mod_64: "unat (c + 1 :: u64) mod 64 = (unat c + 1) mod 64"
proof -
  have "unat (c + 1) mod 64 = (unat c + 1) mod 2 ^ 64 mod 64"
    by (simp add: unat_word_ariths)
  also have "\<dots> = (unat c + 1) mod 64"
    by (rule mod_mod_cancel) simp
  finally show ?thesis .
qed

text \<open>How many zero bytes the padding loop still writes, from the used part of the block.\<close>

definition pad_distance :: "nat \<Rightarrow> nat" where
  "pad_distance r = (if r \<le> 56 then 56 - r else 120 - r)"

lemma pad_distance_decr:
  "l mod 64 \<noteq> 56 \<Longrightarrow> pad_distance ((l + 1) mod 64) < pad_distance (l mod 64)"
proof -
  assume l: "l mod 64 \<noteq> 56"
  have "pad_distance (if r = 63 then 0 else r + 1) < pad_distance r" if "r < 64" "r \<noteq> 56" for r
    using that by (auto simp: pad_distance_def)
  from this [of "l mod 64"] l show ?thesis
    by (auto simp: mod_Suc split: if_splits)
qed

text \<open>The padding loop of \<open>SHA_final\<close>: zero bytes until 56 bytes of the block are used.\<close>

function pad_loop :: "SHA_CTX \<Rightarrow> SHA_CTX" where
  "pad_loop ctx =
     (if unat (sha_count ctx) mod 64 \<noteq> 56 then pad_loop (SHA_update ctx [CHR 0x00]) else ctx)"
  by pat_completeness auto
termination
proof (relation "measure (\<lambda>ctx. pad_distance (unat (sha_count ctx) mod 64))", goal_cases)
  case (2 ctx)
  then have "pad_distance ((unat (sha_count ctx) + 1) mod 64) < pad_distance (unat (sha_count ctx) mod 64)"
    by (intro pad_distance_decr) auto
  then show ?case
    by (simp add: unat_count_mod_64)
qed simp

declare pad_loop.simps [simp del]

definition be32 :: "u32 \<Rightarrow> byte list" where
  "be32 w = [byte_of_word (drop_bit 24 w), byte_of_word (drop_bit 16 w),
             byte_of_word (drop_bit 8 w), byte_of_word w]"

definition SHA_final :: "SHA_CTX \<Rightarrow> SHA_CTX" where
  "SHA_final ctx =
     (let cnt = sha_count ctx * 8;
          ctx = SHA_update ctx [CHR 0x80];
          ctx = pad_loop ctx;
          ctx = foldl (\<lambda>c i. SHA_update c [byte_of_word (drop_bit ((7 - i) * 8) cnt)]) ctx [0..<8]
      in ctx\<lparr>sha_buf := concat (map (\<lambda>i. be32 (sha_state ctx ! i)) [0..<5]) @ drop 20 (sha_buf ctx)\<rparr>)"

definition SHA :: "SHA_CTX \<Rightarrow> byte list \<Rightarrow> byte list" where
  "SHA ctx data =
     (let ctx = SHA_final (SHA_update (SHA_init ctx) data)
      in map (\<lambda>i. sha_buf ctx ! i) [0..<20])"

subsection \<open>The reference definition\<close>

function fips_W :: "byte list \<Rightarrow> nat \<Rightarrow> u32" where
  "fips_W b t =
     (if t < 16 then load_word b t
      else rol 1 (fips_W b (t - 3) XOR fips_W b (t - 8) XOR fips_W b (t - 14) XOR fips_W b (t - 16)))"
  by pat_completeness auto
termination
  by (relation "measure snd") auto

declare fips_W.simps [simp del]

definition fips_f :: "nat \<Rightarrow> u32 \<Rightarrow> u32 \<Rightarrow> u32 \<Rightarrow> u32" where
  "fips_f t x y z =
     (if t < 20 then (x AND y) XOR (NOT x AND z)
      else if t < 40 then x XOR y XOR z
      else if t < 60 then (x AND y) XOR (x AND z) XOR (y AND z)
      else x XOR y XOR z)"

definition fips_K :: "nat \<Rightarrow> u32" where
  "fips_K t = (if t < 20 then 0x5A827999 else if t < 40 then 0x6ED9EBA1
               else if t < 60 then 0x8F1BBCDC else 0xCA62C1D6)"

fun fips_step :: "byte list \<Rightarrow> regs \<Rightarrow> nat \<Rightarrow> regs" where
  "fips_step M (a, b, c, d, e) t =
     (rol 5 a + fips_f t b c d + e + fips_K t + fips_W M t, a, rol 30 b, c, d)"

fun fips_compress :: "regs \<Rightarrow> byte list \<Rightarrow> regs" where
  "fips_compress (h0, h1, h2, h3, h4) M =
     (case foldl (fips_step M) (h0, h1, h2, h3, h4) [0..<80] of
        (a, b, c, d, e) \<Rightarrow> (h0 + a, h1 + b, h2 + c, h3 + d, h4 + e))"

definition fips_H0 :: regs where
  "fips_H0 = (0x67452301, 0xEFCDAB89, 0x98BADCFE, 0x10325476, 0xC3D2E1F0)"

text \<open>The least number of zero bytes that leaves eight bytes of the last block for the length.\<close>

definition zero_pad :: "nat \<Rightarrow> nat" where
  "zero_pad l = (if l mod 64 \<le> 55 then 55 - l mod 64 else 119 - l mod 64)"

definition sha_pad :: "byte list \<Rightarrow> byte list" where
  "sha_pad m = m @ [CHR 0x80] @ replicate (zero_pad (length m)) (CHR 0x00)
     @ map (\<lambda>i. byte_of_word (drop_bit ((7 - i) * 8) (of_nat (length m) * 8 :: u64))) [0..<8]"

fun digest_of :: "regs \<Rightarrow> byte list" where
  "digest_of (a, b, c, d, e) = be32 a @ be32 b @ be32 c @ be32 d @ be32 e"

definition sha1_spec :: "byte list \<Rightarrow> byte list" where
  "sha1_spec m = digest_of (foldl fips_compress fips_H0 (blocks 64 (sha_pad m)))"

subsection \<open>The transform computes the reference compression\<close>

lemma expand_W_fips:
  "16 \<le> length W \<Longrightarrow> (\<And>t. t < length W \<Longrightarrow> W ! t = fips_W b t) \<Longrightarrow>
   t < length W + n \<Longrightarrow> expand_W n W ! t = fips_W b t"
proof (induction n arbitrary: W)
  case 0
  then show ?case by simp
next
  case (Suc n)
  let ?l = "length W"
  let ?W = "W @ [rol 1 (W ! (?l - 3) XOR W ! (?l - 8) XOR W ! (?l - 14) XOR W ! (?l - 16))]"
  have "?W ! t = fips_W b t" if "t < length ?W" for t
  proof (cases "t < ?l")
    case True
    then show ?thesis using Suc.prems by (simp add: nth_append)
  next
    case False
    with that have "t = ?l" by simp
    then show ?thesis
      using Suc.prems by (simp add: fips_W.simps [of b ?l])
  qed
  then have "expand_W n ?W ! t = fips_W b t"
    using Suc.prems by (intro Suc.IH) auto
  then show ?case by (simp add: Let_def)
qed

lemma Ch_opt: "d XOR (b AND (c XOR d)) = (b AND c) XOR (NOT b AND d)" for b c d :: u32
  by (rule bit_word_eqI) (auto simp: bit_simps)

lemma Maj_opt: "(b AND c) OR (d AND (b OR c)) = (b AND c) XOR (b AND d) XOR (c AND d)" for b c d :: u32
  by (rule bit_word_eqI) (auto simp: bit_simps)

lemma sha_round_fips:
  assumes "W ! t = fips_W M t"
  shows "sha_round W r t = fips_step M r t"
  using assms
  by (cases r) (simp add: Let_def fips_f_def fips_K_def Ch_opt Maj_opt add.commute add.left_commute)

lemma sha_rounds_fips:
  assumes "\<And>t. t < 80 \<Longrightarrow> W ! t = fips_W M t"
  shows "foldl (sha_round W) r [0..<80] = foldl (fips_step M) r [0..<80]"
  by (rule foldl_cong) (auto intro!: sha_round_fips assms)

fun regs_list :: "regs \<Rightarrow> u32 list" where
  "regs_list (a, b, c, d, e) = [a, b, c, d, e]"

lemma length_regs_list [simp]: "length (regs_list r) = 5"
  by (cases r) simp

lemma SHA1_transform_fips:
  assumes "sha_state ctx = regs_list h"
  shows "SHA1_transform ctx = ctx\<lparr>sha_state := regs_list (fips_compress h (sha_buf ctx))\<rparr>"
proof -
  let ?W = "expand_W 64 (map (load_word (sha_buf ctx)) [0..<16])"
  have "?W ! t = fips_W (sha_buf ctx) t" if "t < 80" for t
    using that by (intro expand_W_fips) (auto simp: fips_W.simps)
  then have "foldl (sha_round ?W) r [0..<80] = foldl (fips_step (sha_buf ctx)) r [0..<80]" for r
    by (rule sha_rounds_fips)
  with assms show ?thesis
    by (cases h) (simp add: SHA1_transform_def Let_def split: prod.split)
qed

subsection \<open>What a context has absorbed\<close>

text \<open>
  \<open>absorbing ctx m\<close>: the state is the compression of the complete blocks of \<open>m\<close>, and the
  buffer starts with the incomplete rest of \<open>m\<close>. The counter is stated apart, because
  \<open>SHA_update\<close> advances it before it copies.
\<close>

definition absorbing :: "SHA_CTX \<Rightarrow> byte list \<Rightarrow> bool" where
  "absorbing ctx m \<longleftrightarrow>
     length (sha_buf ctx) = 64 \<and>
     sha_state ctx = regs_list (foldl fips_compress fips_H0 (blocks 64 m)) \<and>
     take (length m mod 64) (sha_buf ctx) = drop (64 * (length m div 64)) m"

definition absorbed :: "SHA_CTX \<Rightarrow> byte list \<Rightarrow> bool" where
  "absorbed ctx m \<longleftrightarrow> absorbing ctx m \<and> sha_count ctx = of_nat (length m)"

lemma blocks_snoc:
  fixes m :: "byte list"
  defines "r \<equiv> drop (64 * (length m div 64)) m"
  shows "blocks 64 (m @ [b]) = blocks 64 m @ (if length m mod 64 = 63 then [r @ [b]] else [])"
proof -
  let ?f = "take (64 * (length m div 64)) m"
  have lr: "length r = length m mod 64"
    by (simp add: r_def minus_mult_div_eq_mod)
  have split: "m = ?f @ r" by (simp add: r_def)
  have "length ?f = 64 * (length m div 64)"
    using times_div_less_eq_dividend [of 64 "length m"] by simp
  then have lf: "length ?f mod 64 = 0" by simp
  have bm: "blocks 64 (?f @ r @ ys) = blocks 64 ?f @ blocks 64 (r @ ys)" for ys
    using lf by (rule blocks_append) simp
  have r0: "blocks 64 r = []" using lr by simp
  have rb: "blocks 64 (r @ [b]) = (if length m mod 64 = 63 then [r @ [b]] else [])"
  proof (cases "length m mod 64 = 63")
    case True
    with lr have "length (r @ [b]) = 64" by simp
    then have "blocks 64 ((r @ [b]) @ []) = [r @ [b]]"
      by (subst blocks_append_exact) auto
    with True show ?thesis by simp
  next
    case False
    moreover have "length m mod 64 < 64" by simp
    ultimately have "length (r @ [b]) < 64" using lr by simp
    with False show ?thesis by simp
  qed
  have "blocks 64 (m @ [b]) = blocks 64 (?f @ r @ [b])"
    using split by (metis append_assoc)
  moreover have "blocks 64 m = blocks 64 (?f @ r @ [])"
    using split by simp
  ultimately show ?thesis
    using bm [of "[]"] bm [of "[b]"] r0 rb by simp
qed

lemma absorb_byte:
  fixes b :: byte
  assumes "absorbing ctx m"
  defines "i \<equiv> length m mod 64"
  defines "c \<equiv> ctx\<lparr>sha_buf := (sha_buf ctx)[i := b]\<rparr>"
  shows "absorbing (if Suc i = 64 then SHA1_transform c else c) (m @ [b])"
proof -
  have i: "i < 64" by (simp add: i_def)
  have buf: "take (Suc i) (sha_buf c) = drop (64 * (length m div 64)) m @ [b]"
    using assms i by (simp add: absorbing_def c_def take_Suc_nth_eq)
  show ?thesis
  proof (cases "Suc i = 64")
    case True
    then have m63: "length m mod 64 = 63" by (simp add: i_def)
    then have "length (m @ [b]) mod 64 = 0" by (simp add: mod_Suc)
    moreover have "sha_buf c = drop (64 * (length m div 64)) m @ [b]"
      using buf True assms by (simp add: absorbing_def c_def)
    moreover have "length (m @ [b]) = 64 * (length (m @ [b]) div 64)"
      using calculation(1) by auto
    ultimately show ?thesis
      using True assms m63
      by (simp add: absorbing_def c_def SHA1_transform_fips blocks_snoc minus_mult_div_eq_mod)
  next
    case False
    then have m63: "length m mod 64 \<noteq> 63" by (simp add: i_def)
    then have "length (m @ [b]) mod 64 = Suc i" "length (m @ [b]) div 64 = length m div 64"
      by (simp_all add: mod_Suc i_def div_Suc)
    with False buf assms m63 show ?thesis
      by (simp add: absorbing_def c_def blocks_snoc)
  qed
qed

lemma update_loop_absorbing:
  "absorbing ctx m \<Longrightarrow> absorbing (update_loop (length m mod 64) p ctx) (m @ p)"
proof (induction p arbitrary: ctx m)
  case Nil
  then show ?case by simp
next
  case (Cons b p)
  let ?i = "length m mod 64"
  let ?c = "ctx\<lparr>sha_buf := (sha_buf ctx)[?i := b]\<rparr>"
  let ?c' = "if Suc ?i = 64 then SHA1_transform ?c else ?c"
  have "absorbing ?c' (m @ [b])" using Cons.prems by (rule absorb_byte)
  from Cons.IH [OF this]
  have "absorbing (update_loop (length (m @ [b]) mod 64) p ?c') (m @ b # p)" by simp
  moreover have "length (m @ [b]) mod 64 = (if Suc ?i = 64 then 0 else Suc ?i)"
    by (simp add: mod_Suc)
  ultimately show ?case
    by (simp add: Let_def split: if_splits)
qed

lemma unat_of_nat_mod_64 [simp]: "unat (of_nat n :: u64) mod 64 = n mod 64"
proof -
  have "unat (of_nat n :: u64) mod 64 = n mod 2 ^ 64 mod 64"
    by (simp add: unat_of_nat take_bit_eq_mod)
  also have "\<dots> = n mod 64" by (rule mod_mod_cancel) simp
  finally show ?thesis .
qed

lemma absorbing_count [simp]: "absorbing (ctx\<lparr>sha_count := n\<rparr>) m = absorbing ctx m"
  by (simp add: absorbing_def)

lemma SHA_update_absorbed:
  "absorbed ctx m \<Longrightarrow> absorbed (SHA_update ctx p) (m @ p)"
  by (auto simp: absorbed_def SHA_update_def Let_def intro!: update_loop_absorbing)

lemma SHA_init_absorbed: "length (sha_buf ctx) = 64 \<Longrightarrow> absorbed (SHA_init ctx) []"
  by (simp add: absorbed_def absorbing_def SHA_init_def fips_H0_def)

lemma foldl_append_concat:
  assumes "\<And>c m p. P c m \<Longrightarrow> P (f c p) (m @ g p)" and "P c m"
  shows "P (foldl f c ps) (m @ concat (map g ps))"
  using assms(2)
proof (induction ps arbitrary: c m)
  case (Cons p ps)
  then show ?case using assms(1) [OF Cons.prems] Cons.IH by fastforce
qed simp

lemma foldl_SHA_update_absorbed:
  "absorbed ctx m \<Longrightarrow> absorbed (foldl SHA_update ctx ps) (m @ concat ps)"
  using foldl_append_concat [where P = absorbed and g = "\<lambda>p. p", OF SHA_update_absorbed] by simp

lemma pad_loop_absorbed:
  "absorbed ctx m \<Longrightarrow>
   absorbed (pad_loop ctx) (m @ replicate (pad_distance (length m mod 64)) (CHR 0x00))"
proof (induction ctx arbitrary: m rule: pad_loop.induct)
  case (1 ctx)
  have cnt: "unat (sha_count ctx) mod 64 = length m mod 64"
    using "1.prems" by (simp add: absorbed_def)
  show ?case
  proof (cases "length m mod 64 = 56")
    case True
    with "1.prems" cnt show ?thesis
      by (simp add: pad_loop.simps [of ctx] pad_distance_def)
  next
    case False
    have "absorbed (SHA_update ctx [CHR 0x00]) (m @ [CHR 0x00])"
      using "1.prems" by (rule SHA_update_absorbed)
    then have "absorbed (pad_loop (SHA_update ctx [CHR 0x00]))
        ((m @ [CHR 0x00]) @ replicate (pad_distance (length (m @ [CHR 0x00]) mod 64)) (CHR 0x00))"
      using False cnt by (intro "1.IH") auto
    then have "absorbed (pad_loop ctx)
        ((m @ [CHR 0x00]) @ replicate (pad_distance (length (m @ [CHR 0x00]) mod 64)) (CHR 0x00))"
      using False cnt by (simp add: pad_loop.simps [of ctx])
    moreover have "pad_distance (length m mod 64) = Suc (pad_distance ((length m + 1) mod 64))"
      using False by (auto simp: pad_distance_def mod_Suc)
    ultimately show ?thesis by simp
  qed
qed

lemma zero_pad_distance: "zero_pad l = pad_distance (Suc l mod 64)"
  by (auto simp: zero_pad_def pad_distance_def mod_Suc)

lemma SHA_final_absorbed:
  assumes "absorbed ctx m"
  shows "take 20 (sha_buf (SHA_final ctx)) = sha1_spec m"
proof -
  let ?cnt = "of_nat (length m) * 8 :: u64"
  let ?c1 = "SHA_update ctx [CHR 0x80]"
  let ?c2 = "pad_loop ?c1"
  let ?c3 = "foldl (\<lambda>c i. SHA_update c [byte_of_word (drop_bit ((7 - i) * 8) ?cnt)]) ?c2 [0..<8]"
  have "absorbed ?c1 (m @ [CHR 0x80])"
    using assms by (rule SHA_update_absorbed)
  then have "absorbed ?c2 ((m @ [CHR 0x80])
      @ replicate (pad_distance (length (m @ [CHR 0x80]) mod 64)) (CHR 0x00))"
    by (rule pad_loop_absorbed)
  then have "absorbed ?c3 (((m @ [CHR 0x80])
      @ replicate (pad_distance (length (m @ [CHR 0x80]) mod 64)) (CHR 0x00))
      @ concat (map (\<lambda>i. [byte_of_word (drop_bit ((7 - i) * 8) ?cnt)]) [0..<8]))"
    by (rule foldl_append_concat [rotated]) (rule SHA_update_absorbed)
  then have "absorbed ?c3 (sha_pad m)"
    by (simp add: sha_pad_def zero_pad_distance)
  then have st: "sha_state ?c3 = regs_list (foldl fips_compress fips_H0 (blocks 64 (sha_pad m)))"
    by (simp add: absorbed_def absorbing_def)
  have fin: "SHA_final ctx =
      ?c3\<lparr>sha_buf := concat (map (\<lambda>i. be32 (sha_state ?c3 ! i)) [0..<5]) @ drop 20 (sha_buf ?c3)\<rparr>"
    using assms by (simp add: SHA_final_def Let_def absorbed_def)
  obtain a b c d e where regs:
    "foldl fips_compress fips_H0 (blocks 64 (sha_pad m)) = (a, b, c, d, e)"
    by (cases "foldl fips_compress fips_H0 (blocks 64 (sha_pad m))") auto
  show ?thesis
    unfolding fin sha1_spec_def st regs
    by (simp add: upt_rec be32_def)
qed

text \<open>C1: hashing a message in any number of updates gives the digest of the standard.\<close>

theorem SHA_streaming_correct:
  assumes "length (sha_buf ctx) = 64"
  shows "take 20 (sha_buf (SHA_final (foldl SHA_update (SHA_init ctx) chunks)))
         = sha1_spec (concat chunks)"
proof -
  have "absorbed (foldl SHA_update (SHA_init ctx) chunks) ([] @ concat chunks)"
    using assms by (intro foldl_SHA_update_absorbed SHA_init_absorbed)
  then show ?thesis by (simp add: SHA_final_absorbed)
qed

theorem SHA_streaming_correct_witness:
  "take 20 (sha_buf (SHA_final (foldl SHA_update
      (SHA_init \<lparr>sha_count = 7, sha_buf = replicate 64 (CHR ''x''), sha_state = []\<rparr>)
      [''ab'', [], ''c''])))
   = sha1_spec ''abc''"
proof -
  let ?ctx = "\<lparr>sha_count = 7, sha_buf = replicate 64 (CHR ''x''), sha_state = []\<rparr>"
  have "length (sha_buf ?ctx) = 64" by simp
  from SHA_streaming_correct [OF this, of "[''ab'', [], ''c'']"] show ?thesis by simp
qed

end
