(* ===== verification/Rsa.thy ===== *)
theory Rsa
  imports Sha
begin

text \<open>
  The RSA signature check of the boot tool (src/tools/mkbootimg/rsa.c): multi-word subtraction
  and comparison with the modulus, Montgomery multiplication, the public exponentiation with
  exponent three, and \<open>RSA_verify\<close>. Arrays of \<open>uint32_t\<close> are lists of \<open>32 word\<close>, the
  accumulators \<open>A\<close> and \<open>B\<close> are \<open>64 word\<close>; the results show that none of them
  overflows and that the code computes \<open>m\<^sup>3 mod n\<close>.
\<close>

subsection \<open>The code\<close>

record RSAPublicKey =
  key_len :: int
  key_n0inv :: u32
  key_n :: "u32 list"
  key_rr :: "u32 list"

abbreviation klen :: "RSAPublicKey \<Rightarrow> nat" where
  "klen key \<equiv> nat (key_len key)"

text \<open>\<open>a[] -= mod\<close>: \<open>A\<close> is the signed 64-bit carry, \<open>A >>= 32\<close> an arithmetic shift.\<close>

fun subM_loop :: "u64 \<Rightarrow> u32 list \<Rightarrow> u32 list \<Rightarrow> u32 list" where
  "subM_loop A (a # as) (n # ns) =
     (let A = A + (ucast a - ucast n)
      in ucast A # subM_loop (signed_drop_bit 32 A) as ns)"
| "subM_loop A as [] = as"
| "subM_loop A [] ns = []"

definition subM :: "RSAPublicKey \<Rightarrow> u32 list \<Rightarrow> u32 list" where
  "subM key a = subM_loop 0 (take (klen key) a) (take (klen key) (key_n key)) @ drop (klen key) a"

text \<open>\<open>a[] >= mod\<close>, from the most significant word down.\<close>

fun geM_loop :: "(u32 \<times> u32) list \<Rightarrow> bool" where
  "geM_loop [] = True"
| "geM_loop ((a, n) # ps) = (if a < n then False else if n < a then True else geM_loop ps)"

definition geM :: "RSAPublicKey \<Rightarrow> u32 list \<Rightarrow> bool" where
  "geM key a = geM_loop (rev (zip (take (klen key) a) (take (klen key) (key_n key))))"

fun montMulAdd_loop ::
  "u32 \<Rightarrow> u32 \<Rightarrow> u64 \<Rightarrow> u64 \<Rightarrow> u32 list \<Rightarrow> u32 list \<Rightarrow> u32 list \<Rightarrow> u32 list \<times> u64" where
  "montMulAdd_loop a d0 A B (b # bs) (n # ns) (c # cs) =
     (let A = drop_bit 32 A + ucast a * ucast b + ucast c;
          B = drop_bit 32 B + ucast d0 * ucast n + ucast (ucast A :: u32);
          (ws, r) = montMulAdd_loop a d0 A B bs ns cs
      in (ucast B # ws, r))"
| "montMulAdd_loop a d0 A B bs ns cs = ([], drop_bit 32 A + drop_bit 32 B)"

definition montMulAdd :: "RSAPublicKey \<Rightarrow> u32 list \<Rightarrow> u32 \<Rightarrow> u32 list \<Rightarrow> u32 list" where
  "montMulAdd key c a b =
     (let A = ucast a * ucast (b ! 0) + ucast (c ! 0) :: u64;
          d0 = ucast A * key_n0inv key :: u32;
          B = ucast d0 * ucast (key_n key ! 0) + ucast (ucast A :: u32) :: u64;
          tail = (\<lambda>xs. drop 1 (take (klen key) xs));
          (ws, A) = montMulAdd_loop a d0 A B (tail b) (tail (key_n key)) (tail c);
          c = ws @ [ucast A] @ drop (Suc (length ws)) c
      in if drop_bit 32 A \<noteq> 0 then subM key c else c)"

definition montMul :: "RSAPublicKey \<Rightarrow> u32 list \<Rightarrow> u32 list \<Rightarrow> u32 list \<Rightarrow> u32 list" where
  "montMul key c a b =
     foldl (\<lambda>c i. montMulAdd key c (a ! i) b)
       (replicate (klen key) 0 @ drop (klen key) c) [0..<klen key]"

text \<open>\<open>aaa\<close> re-uses the storage of \<open>aR\<close>; \<open>stack\<close> is the uninitialised content of the local arrays.\<close>

definition modpow3 :: "u32 list \<Rightarrow> RSAPublicKey \<Rightarrow> byte list \<Rightarrow> byte list" where
  "modpow3 stack key inout =
     (let a = map (\<lambda>i. load_word inout (klen key - 1 - i)) [0..<klen key];
          aR = montMul key stack a (key_rr key);
          aaR = montMul key stack aR aR;
          aaa = montMul key aR aaR a;
          aaa = (if geM key aaa then subM key aaa else aaa)
      in concat (map (\<lambda>i. be32 (aaa ! i)) (rev [0..<klen key])) @ drop (4 * klen key) inout)"

definition padding :: "byte list" where
  "padding = [CHR 0x00, CHR 0x01] @ replicate 218 (CHR 0xff) @
     [CHR 0x00, CHR 0x30, CHR 0x21, CHR 0x30, CHR 0x09, CHR 0x06, CHR 0x05, CHR 0x2b,
      CHR 0x0e, CHR 0x03, CHR 0x02, CHR 0x1a, CHR 0x05, CHR 0x00, CHR 0x04, CHR 0x14]"

fun bytes_match :: "byte list \<Rightarrow> byte list \<Rightarrow> bool" where
  "bytes_match (x # xs) (y # ys) = (if x \<noteq> y then False else bytes_match xs ys)"
| "bytes_match _ _ = True"

definition RSA_verify :: "u32 list \<Rightarrow> RSAPublicKey \<Rightarrow> byte list \<Rightarrow> int \<Rightarrow> byte list \<Rightarrow> int" where
  "RSA_verify stack key signature len sha =
     (if key_len key \<noteq> 64 then 0
      else if len \<noteq> 256 then 0
      else let buf = modpow3 stack key (take (nat len) signature)
           in if \<not> bytes_match (take 236 buf) padding then 0
              else if \<not> bytes_match (drop 236 buf) sha then 0
              else 1)"

subsection \<open>Numbers as word arrays and byte strings\<close>

abbreviation W :: nat where "W \<equiv> 4294967296"

fun num :: "u32 list \<Rightarrow> nat" where
  "num [] = 0"
| "num (x # xs) = unat x + W * num xs"

definition be_num :: "byte list \<Rightarrow> nat" where
  "be_num bs = foldl (\<lambda>v b. v * 256 + byte_val b) 0 bs"

lemma unat_less_W [simp]: "unat (x :: u32) < W"
proof -
  have "unat x < 2 ^ LENGTH(32)" by (rule unsigned_less)
  then show ?thesis by simp
qed

lemma num_less: "num xs < W ^ length xs"
proof (induction xs)
  case (Cons x xs)
  then have "num xs + 1 \<le> W ^ length xs" by simp
  then have "W * (num xs + 1) \<le> W ^ length (x # xs)"
    by (metis length_Cons mult_le_mono2 power_Suc)
  moreover have "unat x < W" by (rule unat_less_W)
  ultimately show ?case by (simp only: num.simps distrib_left)
qed simp

lemma num_append: "num (xs @ ys) = num xs + W ^ length xs * num ys"
  by (induction xs) (auto simp: algebra_simps)

lemma num_replicate_0 [simp]: "num (replicate k 0) = 0"
  by (induction k) auto

lemma foldl_be: "foldl (\<lambda>v b. v * 256 + byte_val b) v bs = v * 256 ^ length bs + be_num bs"
proof (induction bs arbitrary: v)
  case (Cons b bs)
  show ?case
    using Cons [of "v * 256 + byte_val b"] Cons [of "byte_val b"]
    by (simp add: be_num_def algebra_simps)
qed (simp add: be_num_def)

lemma be_num_append: "be_num (xs @ ys) = be_num xs * 256 ^ length ys + be_num ys"
  by (simp add: be_num_def) (simp add: foldl_be flip: be_num_def)

lemma be_num_Nil [simp]: "be_num [] = 0"
  by (simp add: be_num_def)

lemma be_num_Cons: "be_num (x # xs) = byte_val x * 256 ^ length xs + be_num xs"
  using be_num_append [of "[x]" xs] by (simp add: be_num_def)

lemma be_num_less: "be_num xs < 256 ^ length xs"
proof (induction xs)
  case (Cons x xs)
  have "byte_val x + 1 \<le> 256" using byte_val_less [of x] by linarith
  then have "(byte_val x + 1) * 256 ^ length xs \<le> 256 * 256 ^ length xs"
    by (rule mult_right_mono) simp
  with Cons show ?case by (simp only: be_num_Cons distrib_right length_Cons power_Suc)
qed simp

lemma digit_unique:
  fixes m :: nat
  assumes "a * m + r = b * m + s" "r < m" "s < m"
  shows "a = b \<and> r = s"
proof -
  have "a = (a * m + r) div m" "b = (b * m + s) div m"
    using assms(2,3) by simp_all
  then have "a = b" by (simp only: assms(1))
  with assms(1) show ?thesis by simp
qed

lemma be_num_inj: "length xs = length ys \<Longrightarrow> be_num xs = be_num ys \<Longrightarrow> xs = ys"
proof (induction xs ys rule: list_induct2)
  case (Cons x xs y ys)
  let ?m = "256 ^ length xs"
  have "byte_val x * ?m + be_num xs = byte_val y * ?m + be_num ys"
    using Cons by (simp add: be_num_Cons)
  moreover have "be_num xs < ?m" "be_num ys < ?m"
    using be_num_less [of xs] be_num_less [of ys] Cons.hyps by simp_all
  ultimately have "byte_val x = byte_val y \<and> be_num xs = be_num ys"
    by (rule digit_unique)
  with Cons.IH show ?case by simp
qed simp

subsection \<open>Word-level arithmetic without overflow\<close>

lemma unat_up [simp]: "unat (ucast (a :: u32) :: u64) = unat a"
  using order.strict_trans [OF unat_less_W [of a], of "2 ^ 64"]
  by (simp add: unsigned_ucast_eq take_bit_nat_eq_self_iff)

lemma unat_low [simp]: "unat (ucast (A :: u64) :: u32) = unat A mod W"
  by (simp add: unsigned_ucast_eq take_bit_eq_mod)

lemma unat_high [simp]: "unat (drop_bit 32 (A :: u64)) = unat A div W"
  by (subst unat_drop_bit_eq) (simp add: drop_bit_eq_div)

lemma unat_add64: "unat x + unat y < W * W \<Longrightarrow> unat (x + y :: u64) = unat x + unat y"
  by (simp add: unat_word_ariths)

lemma unat_mult64: "unat x * unat y < W * W \<Longrightarrow> unat (x * y :: u64) = unat x * unat y"
  by (simp add: unat_word_ariths)

lemma prod_le: "unat (a :: u32) * unat (b :: u32) \<le> (W - 1) * (W - 1)"
  using unat_less_W [of a] unat_less_W [of b] by (intro mult_le_mono) linarith+

lemma unat_mac:
  assumes "k < W"
  shows "unat (of_nat k + ucast a * ucast b + ucast c :: u64) = k + unat (a :: u32) * unat (b :: u32) + unat (c :: u32)"
proof -
  have p: "unat (ucast a * ucast b :: u64) = unat a * unat b"
    using prod_le [of a b] by (simp add: unat_mult64)
  have k: "unat (of_nat k :: u64) = k"
    using assms by (simp add: unat_of_nat take_bit_nat_eq_self_iff)
  have c: "unat c \<le> W - 1" using unat_less_W [of c] by linarith
  have kp: "unat (of_nat k + ucast a * ucast b :: u64) = k + unat a * unat b"
    using p k assms prod_le [of a b] by (subst unat_add64) auto
  show ?thesis
    using kp c assms prod_le [of a b] by (subst unat_add64) auto
qed

lemma high_of_nat: "drop_bit 32 (A :: u64) = of_nat (unat A div W)"
proof -
  have "unat A < 2 ^ LENGTH(64)" by (rule unsigned_less)
  then have "unat A div W < W" by (simp add: less_mult_imp_div_less)
  then have "unat (of_nat (unat A div W) :: u64) = unat A div W"
    by (simp add: unat_of_nat take_bit_nat_eq_self_iff)
  then show ?thesis by (metis unat_high word_unat_eq_iff)
qed

lemma high_less: "unat (A :: u64) div W < W"
proof -
  have "unat A < 2 ^ LENGTH(64)" by (rule unsigned_less)
  then show ?thesis by (simp add: less_mult_imp_div_less)
qed

lemma unat_macc:
  "unat (drop_bit 32 A + ucast a * ucast b + ucast c :: u64)
   = unat A div W + unat (a :: u32) * unat (b :: u32) + unat (c :: u32)"
  by (simp add: high_of_nat unat_mac high_less)

lemma unat_high_sum:
  "unat (drop_bit 32 A + drop_bit 32 B :: u64) = unat A div W + unat B div W"
  using high_less [of A] high_less [of B] by (subst unat_add64) auto

subsection \<open>One Montgomery step\<close>

lemma montMulAdd_loop_num:
  "length bs = length ns \<Longrightarrow> length bs = length cs \<Longrightarrow>
   montMulAdd_loop a d0 A B bs ns cs = (ws, r) \<Longrightarrow>
   length ws = length bs \<and>
   num ws + W ^ length bs * unat r
     = unat A div W + unat B div W + unat a * num bs + unat d0 * num ns + num cs"
proof (induction a d0 A B bs ns cs arbitrary: ws rule: montMulAdd_loop.induct)
  case (1 a d0 A B b bs n ns c cs)
  define A' where "A' = drop_bit 32 A + ucast a * ucast b + ucast c"
  define B' where "B' = drop_bit 32 B + ucast d0 * ucast n + ucast (ucast A' :: u32)"
  obtain ws' where ws: "ws = ucast B' # ws'"
    and rec: "montMulAdd_loop a d0 A' B' bs ns cs = (ws', r)"
    using "1.prems"(3) by (auto simp: A'_def B'_def Let_def split: prod.splits)
  have uA: "unat A' = unat A div W + unat a * unat b + unat c"
    unfolding A'_def by (rule unat_macc)
  have uB: "unat B' = unat B div W + unat d0 * unat n + unat A' mod W"
    unfolding B'_def by (subst unat_macc) simp
  have IH: "length ws' = length bs \<and>
     num ws' + W ^ length bs * unat r
       = unat A' div W + unat B' div W + unat a * num bs + unat d0 * num ns + num cs"
    using "1.prems" by (intro "1.IH" [OF A'_def B'_def _ _ rec]) simp_all
  have "unat B' + W * (unat A' div W) = unat B div W + unat d0 * unat n + (unat A' mod W + W * (unat A' div W))"
    using uB by linarith
  then have BA: "unat B' + W * (unat A' div W)
      = unat B div W + unat d0 * unat n + (unat A div W + unat a * unat b + unat c)"
    by (simp only: mod_mult_div_eq uA)
  have "num ws + W ^ length (b # bs) * unat r
      = unat B' mod W + W * (num ws' + W ^ length bs * unat r)"
    by (simp add: ws algebra_simps)
  also have "\<dots> = (unat B' mod W + W * (unat B' div W)) + W * (unat A' div W)
      + W * (unat a * num bs + unat d0 * num ns + num cs)"
    using IH by (simp only: distrib_left)
  also have "\<dots> = unat B' + W * (unat A' div W) + W * (unat a * num bs + unat d0 * num ns + num cs)"
    by (simp only: mod_mult_div_eq)
  also have "\<dots> = unat A div W + unat B div W + unat a * num (b # bs) + unat d0 * num (n # ns) + num (c # cs)"
    by (simp add: BA algebra_simps)
  finally show ?case
    using IH by (simp add: ws)
qed (auto simp: unat_high_sum)

subsection \<open>Subtraction and comparison\<close>

abbreviation WI :: int where "WI \<equiv> 4294967296"

lemma borrow_step:
  fixes A :: u64 and a n :: u32
  defines "v \<equiv> sint A + int (unat a) - int (unat n)"
  assumes A: "sint A = 0 \<or> sint A = - 1"
  shows "int (unat (ucast (A + (ucast a - ucast n)) :: u32)) = v mod WI"
    and "sint (signed_drop_bit 32 (A + (ucast a - ucast n))) = v div WI"
    and "v div WI = 0 \<or> v div WI = - 1"
proof -
  have v: "- WI \<le> v" "v < WI"
    using A unat_less_W [of a] unat_less_W [of n] unfolding v_def by linarith+
  have up: "ucast x = (word_of_int (int (unat x)) :: u64)" for x :: u32
    by (subst ucast_eq) (simp only: of_nat_unat)
  have "A + (ucast a - ucast n)
      = word_of_int (sint A) + (word_of_int (int (unat a)) - word_of_int (int (unat n)))"
    by (simp only: up of_int_sint scast_id)
  then have eq: "A + (ucast a - ucast n) = word_of_int v"
    unfolding v_def by (simp only: of_int_add of_int_diff add_diff_eq)
  have "int (unat (ucast (word_of_int v :: u64) :: u32)) = int (unat (word_of_int v :: u64)) mod WI"
    by (simp add: of_nat_mod)
  also have "\<dots> = v mod 2 ^ 64 mod WI"
    by (simp add: unsigned_of_int take_bit_eq_mod)
  also have "\<dots> = v mod WI"
    by (rule mod_mod_cancel) simp
  finally show "int (unat (ucast (A + (ucast a - ucast n)) :: u32)) = v mod WI"
    by (simp only: eq)
  have "sint (word_of_int v :: u64) = v"
    using v by (simp add: signed_of_int signed_take_bit_int_eq_self)
  then show "sint (signed_drop_bit 32 (A + (ucast a - ucast n))) = v div WI"
    by (simp add: eq sint_signed_drop_bit_eq drop_bit_eq_div)
  show "v div WI = 0 \<or> v div WI = - 1"
  proof (cases "0 \<le> v")
    case True
    with v have "v div WI = 0" by (intro div_pos_pos_trivial)
    then show ?thesis ..
  next
    case False
    with v have "v div WI = - 1"
      by (intro int_div_pos_eq [where r = "v + WI"]) auto
    then show ?thesis ..
  qed
qed

lemma subM_loop_num:
  "length as = length ns \<Longrightarrow> sint A = 0 \<or> sint A = - 1 \<Longrightarrow>
   length (subM_loop A as ns) = length as \<and>
   int (num (subM_loop A as ns)) = (sint A + int (num as) - int (num ns)) mod WI ^ length as"
proof (induction A as ns rule: subM_loop.induct)
  case (1 A a as n ns)
  define v where "v = sint A + int (unat a) - int (unat n)"
  define A' where "A' = A + (ucast a - ucast n)"
  note step = borrow_step [OF "1.prems"(2), of a n, folded v_def, folded A'_def]
  let ?x = "v div WI + int (num as) - int (num ns)" and ?M = "WI ^ length as"
  have IH: "length (subM_loop (signed_drop_bit 32 A') as ns) = length as \<and>
     int (num (subM_loop (signed_drop_bit 32 A') as ns)) = ?x mod ?M"
    using "1.IH" [OF A'_def] "1.prems" step by simp
  have tot: "sint A + int (num (a # as)) - int (num (n # ns)) = WI * ?x + v mod WI"
    by (simp add: v_def algebra_simps)
  have "(WI * ?x + v mod WI) mod (WI * ?M) = WI * ((WI * ?x + v mod WI) div WI mod ?M) + (WI * ?x + v mod WI) mod WI"
    by (rule zmod_zmult2_eq) simp
  also have "(WI * y + v mod WI) div WI = y" for y by simp
  also have "(WI * y + v mod WI) mod WI = v mod WI" for y by simp
  finally show ?case
    using IH step(1) unfolding tot
    by (simp add: Let_def del: unat_low flip: A'_def)
qed auto

lemma geM_loop_num:
  "length as = length ns \<Longrightarrow> geM_loop (rev (zip as ns)) = (num ns \<le> num as)"
proof (induction as ns rule: rev_induct2)
  case (4 a as n ns)
  then have l: "length as = length ns" by simp
  have ge: "num (xs @ [x]) > num (ys @ [y])" if "length xs = length ys" "y < x" for xs ys x y
  proof -
    have "W ^ length ys * (unat y + 1) \<le> W ^ length xs * unat x"
      using that by (intro mult_le_mono) (auto simp: word_less_nat_alt)
    with num_less [of ys] show ?thesis by (simp add: num_append)
  qed
  show ?case
  proof (cases "a < n \<or> n < a")
    case True
    then show ?thesis
      using ge [OF l, of n a] ge [OF l [symmetric], of a n] l by auto
  next
    case False
    then have "a = n" by auto
    with 4 l show ?thesis by (simp add: num_append)
  qed
qed auto

subsection \<open>Montgomery multiplication\<close>

text \<open>
  What a key must satisfy: the array lengths, \<open>n0inv = -1 / n[0] mod 2\<^sup>32\<close> and
  \<open>rr = R\<^sup>2\<close> modulo \<open>n\<close>, as the comments of rsa.h state, with \<open>R = 2\<^sup>32\<^sup>k\<close>.
\<close>

definition key_ok :: "RSAPublicKey \<Rightarrow> bool" where
  "key_ok key \<longleftrightarrow>
     0 < key_len key \<and> length (key_n key) = klen key \<and> length (key_rr key) = klen key \<and>
     key_n0inv key * key_n key ! 0 = - 1 \<and>
     num (key_rr key) mod num (key_n key) = (W ^ klen key)\<^sup>2 mod num (key_n key)"

abbreviation modulus :: "RSAPublicKey \<Rightarrow> nat" where
  "modulus key \<equiv> num (key_n key)"

lemma key_ok_tl:
  assumes "key_ok key" "length xs = klen key"
  shows "xs = xs ! 0 # drop 1 (take (klen key) xs)"
  using assms by (cases xs) (auto simp: key_ok_def)

lemma minus_one_cancels:
  fixes A inv n :: u32
  assumes "inv * n = - 1"
  shows "(unat (A * inv) * unat n + unat A) mod W = 0"
proof -
  have "(unat x * unat n + unat A) mod W = 0" if "x * n + A = 0" for x
  proof -
    have "unat (x * n + A) = 0" using that by simp
    then show ?thesis by (simp add: unat_word_ariths mod_simps)
  qed
  moreover have "A * inv * n + A = 0"
    using assms by (simp add: mult.assoc)
  ultimately show ?thesis by blast
qed

text \<open>The value before the final correction: an exact division by \<open>2\<^sup>32\<close>.\<close>

lemma montMulAdd_pre:
  assumes key: "key_ok key" and len: "length c = klen key" "length b = klen key"
  obtains d T ws A where "d < W" and "W * T = num c + unat a * num b + d * modulus key"
    and "length ws + 1 = klen key" and "T = num ws + W ^ length ws * unat (A :: u64)"
    and "montMulAdd key c a b =
      (if drop_bit 32 A \<noteq> 0 then subM key (ws @ [ucast A]) else ws @ [ucast A])"
proof -
  let ?n = "key_n key" and ?tl = "\<lambda>xs. drop 1 (take (klen key) xs)"
  define A0 where "A0 = (ucast a * ucast (b ! 0) + ucast (c ! 0) :: u64)"
  define d where "d = (ucast A0 * key_n0inv key :: u32)"
  define B0 where "B0 = (ucast d * ucast (?n ! 0) + ucast (ucast A0 :: u32) :: u64)"
  obtain ws A where loop: "montMulAdd_loop a d A0 B0 (?tl b) (?tl ?n) (?tl c) = (ws, A)"
    by fastforce
  have lens: "length (?tl b) = length (?tl ?n)" "length (?tl b) = length (?tl c)"
    using key len by (auto simp: key_ok_def)
  note L = montMulAdd_loop_num [OF lens loop]
  have cons: "b = b ! 0 # ?tl b" "c = c ! 0 # ?tl c" "?n = ?n ! 0 # ?tl ?n"
    using key by (auto intro!: key_ok_tl [OF key] len simp only: key_ok_def)
  have uA: "unat A0 = unat a * unat (b ! 0) + unat (c ! 0)"
    using unat_mac [of 0 a "b ! 0" "c ! 0"] by (simp add: A0_def)
  have uB: "unat B0 = unat d * unat (?n ! 0) + unat A0 mod W"
    using unat_mac [of 0 d "?n ! 0" "ucast A0"] by (simp add: B0_def)
  have "key_n0inv key * ?n ! 0 = - 1" using key by (simp add: key_ok_def)
  from minus_one_cancels [OF this, of "ucast A0"]
  have B0: "unat B0 = W * (unat B0 div W)"
    using uB by (metis d_def mult_div_mod_eq add.right_neutral unat_low)
  define T where "T = num ws + W ^ length ws * unat A"
  have T: "T = unat A0 div W + unat B0 div W + unat a * num (?tl b) + unat d * num (?tl ?n) + num (?tl c)"
    using L by (simp add: T_def)
  have "W * T = W * (unat A0 div W) + unat B0 + W * (unat a * num (?tl b) + unat d * num (?tl ?n) + num (?tl c))"
    using B0 unfolding T distrib_left by linarith
  also have "\<dots> = (W * (unat A0 div W) + unat A0 mod W) + unat d * unat (?n ! 0)
      + W * (unat a * num (?tl b) + unat d * num (?tl ?n) + num (?tl c))"
    using uB by linarith
  also have "\<dots> = unat a * unat (b ! 0) + unat (c ! 0) + unat d * unat (?n ! 0)
      + W * (unat a * num (?tl b) + unat d * num (?tl ?n) + num (?tl c))"
    by (simp only: mult_div_mod_eq uA)
  also have "\<dots> = num (c ! 0 # ?tl c) + unat a * num (b ! 0 # ?tl b) + unat d * num (?n ! 0 # ?tl ?n)"
    by (simp add: algebra_simps)
  finally have "W * T = num c + unat a * num b + unat d * modulus key"
    by (simp only: cons [symmetric])
  moreover have lw: "length ws + 1 = klen key"
    using L len key by (auto simp: key_ok_def)
  moreover have "montMulAdd key c a b =
      (if drop_bit 32 A \<noteq> 0 then subM key (ws @ [ucast A]) else ws @ [ucast A])"
    using loop lw len
    by (simp add: montMulAdd_def Let_def A0_def B0_def d_def)
  ultimately show ?thesis
    using that [of "unat d" T ws A] by (simp add: T_def)
qed

lemma subM_num:
  assumes "length a = klen key" "length (key_n key) = klen key"
  shows "length (subM key a) = klen key"
    and "int (num (subM key a)) = (int (num a) - int (modulus key)) mod WI ^ klen key"
  using subM_loop_num [of a "key_n key" 0] assms by (simp_all add: subM_def)

lemma montMulAdd_num:
  fixes a :: u32
  assumes key: "key_ok key" and len: "length c = klen key" "length b = klen key"
  defines "c' \<equiv> montMulAdd key c a b"
  shows "length c' = klen key"
    and "W * num c' mod modulus key = (num c + unat a * num b) mod modulus key"
    and "num c < num b + modulus key \<Longrightarrow> num c' < num b + modulus key"
proof -
  obtain d T ws A where d: "d < W" and T: "W * T = num c + unat a * num b + d * modulus key"
    and lw: "length ws + 1 = klen key" and TA: "T = num ws + W ^ length ws * unat (A :: u64)"
    and c': "c' = (if drop_bit 32 A \<noteq> 0 then subM key (ws @ [ucast A]) else ws @ [ucast A])"
    using montMulAdd_pre [OF key len, of a] unfolding c'_def by blast
  let ?R = "W ^ klen key" and ?n = "modulus key" and ?w = "ws @ [ucast A] :: u32 list"
  have ln: "length (key_n key) = klen key" using key by (simp add: key_ok_def)
  have R: "?R = W ^ length ws * W" using lw by (metis Suc_eq_plus1 power_Suc2)
  have numw: "T = num ?w + ?R * (unat A div W)"
  proof -
    have split: "M * q = M * (q mod W) + M * W * (q div W)" for M q :: nat
      using arg_cong [OF mod_mult_div_eq [of q W], of "(*) M"] by (simp only: distrib_left mult.assoc)
    show ?thesis
      unfolding TA R using split [of "W ^ length ws" "unat A"] by (simp add: num_append)
  qed
  have nR: "?n < ?R" using num_less [of "key_n key"] ln by simp
  have cR: "num c < ?R" using num_less [of c] len by simp
  have bR: "num b < ?R" using num_less [of b] len by simp
  have ab: "unat a * num b \<le> 4294967295 * num b" "d * ?n \<le> 4294967295 * ?n"
    using unat_less_W [of a] d by (intro mult_le_mono1; linarith)+
  have Tn: "T < ?R + ?n"
  proof -
    have "W * T < W * (?R + ?n)" using T ab cR bR unfolding distrib_left by linarith
    then show ?thesis by simp
  qed
  have res: "length c' = klen key \<and> (num c' = T \<or> num c' + ?n = T)"
  proof (cases "drop_bit 32 A = 0")
    case True
    then have "unat A div W = 0" by (metis unat_high unat_0)
    with True c' numw lw show ?thesis by simp
  next
    case False
    then have "unat A div W \<noteq> 0" by (metis unat_high unat_eq_zero)
    moreover have "unat A div W < 2"
    proof (rule ccontr)
      assume "\<not> unat A div W < 2"
      then have "?R * 2 \<le> ?R * (unat A div W)" by (intro mult_le_mono2) simp
      with numw Tn nR show False by linarith
    qed
    ultimately have "unat A div W = 1" by linarith
    with numw have eT: "T = num ?w + ?R" by simp
    have lw': "length ?w = klen key" using lw by simp
    have "int (num c') = (int (num ?w) - int ?n) mod WI ^ klen key"
      using False c' subM_num(2) [OF lw' ln] by simp
    also have "\<dots> = (int T - int ?n) mod int ?R"
    proof -
      have "int T - int ?n = (int (num ?w) - int ?n) + int ?R" using eT by simp
      then show ?thesis by (simp only: mod_add_self2) simp
    qed
    also have "\<dots> = int T - int ?n"
      using Tn eT nR by (intro mod_pos_pos_trivial) linarith+
    finally have "num c' + ?n = T" by linarith
    with False c' subM_num(1) [OF lw' ln] show ?thesis by simp
  qed
  then show "length c' = klen key" by simp
  have "(num c + unat a * num b + d * ?n) mod ?n = (num c + unat a * num b) mod ?n" by simp
  moreover have "W * T mod ?n = W * num c' mod ?n"
    using res by (metis distrib_left mod_mult_self1 mult.commute)
  ultimately show "W * num c' mod ?n = (num c + unat a * num b) mod ?n"
    using T by simp
  show "num c' < num b + ?n" if "num c < num b + ?n"
  proof -
    have "W * T < W * (num b + ?n)" using T ab that unfolding distrib_left by linarith
    then show ?thesis using res by auto
  qed
qed

lemma odd_modulus: "key_ok key \<Longrightarrow> odd (modulus key)"
proof -
  assume key: "key_ok key"
  then have "unat (key_n0inv key * key_n key ! 0) = unat (- 1 :: u32)"
    by (simp add: key_ok_def)
  then have "unat (key_n0inv key) * unat (key_n key ! 0) mod W = 4294967295"
    by (simp add: unat_word_ariths unsigned_minus_1_eq_mask mask_eq_exp_minus_1)
  then have "odd (unat (key_n key ! 0))"
    by (metis dvd_mod_iff dvd_mult odd_numeral even_numeral)
  moreover obtain x xs where "key_n key = x # xs"
    using key by (cases "key_n key") (auto simp: key_ok_def)
  ultimately show ?thesis by simp
qed

lemma mod_cancel_R:
  assumes "key_ok key" and "W ^ k * x mod modulus key = W ^ k * y mod modulus key"
  shows "x mod modulus key = y mod modulus key"
proof -
  have "coprime (2 ^ (32 * k)) (modulus key)"
    using odd_modulus [OF assms(1)] by simp
  then have "coprime (W ^ k) (modulus key)"
    by (simp add: power_mult)
  then have cop: "coprime (int (modulus key)) (int (W ^ k))"
    by (simp only: coprime_int_iff coprime_commute)
  have "int (W ^ k) * int x mod int (modulus key) = int (W ^ k) * int y mod int (modulus key)"
    using assms(2) by (metis of_nat_mod of_nat_mult)
  then have "int (modulus key) dvd int (W ^ k) * (int x - int y)"
    by (simp only: mod_eq_dvd_iff right_diff_distrib)
  then have "int (modulus key) dvd int x - int y"
    using cop by (simp only: coprime_dvd_mult_right_iff)
  then have "int x mod int (modulus key) = int y mod int (modulus key)"
    by (simp only: mod_eq_dvd_iff)
  then show ?thesis by (simp flip: of_nat_mod)
qed

lemma montMul_num:
  assumes key: "key_ok key" and len: "length c = klen key" "length a = klen key" "length b = klen key"
  defines "r \<equiv> montMul key c a b"
  shows "length r = klen key"
    and "W ^ klen key * num r mod modulus key = num a * num b mod modulus key"
    and "num r < num b + modulus key"
proof -
  let ?n = "modulus key"
  define step where "step i = foldl (\<lambda>c i. montMulAdd key c (a ! i) b) (replicate (klen key) 0) [0..<i]" for i
  have "i \<le> klen key \<Longrightarrow> length (step i) = klen key
      \<and> W ^ i * num (step i) mod ?n = num (take i a) * num b mod ?n
      \<and> num (step i) < num b + ?n" for i
  proof (induction i)
    case 0
    have "0 < ?n" using odd_modulus [OF key] by (rule odd_pos)
    then show ?case by (simp add: step_def)
  next
    case (Suc i)
    let ?c = "step i"
    have c': "step (Suc i) = montMulAdd key ?c (a ! i) b" by (simp add: step_def)
    have lc: "length ?c = klen key" using Suc by simp
    note M = montMulAdd_num [OF key lc len(3), of "a ! i", folded c']
    have "W ^ Suc i * num (step (Suc i)) mod ?n = W ^ i * (W * num (step (Suc i)) mod ?n) mod ?n"
      by (simp add: mod_simps mult.assoc mult.left_commute)
    also have "\<dots> = (W ^ i * num ?c mod ?n + W ^ i * (unat (a ! i) * num b)) mod ?n"
      by (simp add: M(2) mod_simps distrib_left)
    also have "\<dots> = (num (take i a) * num b mod ?n + W ^ i * (unat (a ! i) * num b)) mod ?n"
      using Suc by simp
    also have "\<dots> = num (take (Suc i) a) * num b mod ?n"
      using Suc.prems len(2) by (simp add: take_Suc_conv_app_nth num_append mod_simps algebra_simps)
    finally show ?case using M(1,3) Suc by simp
  qed
  from this [of "klen key"] show "length r = klen key"
    and "W ^ klen key * num r mod ?n = num a * num b mod ?n" and "num r < num b + ?n"
    using len by (simp_all add: r_def montMul_def step_def)
qed

subsection \<open>Bytes to words and back\<close>

lemma or_add: "x AND y = 0 \<Longrightarrow> x OR y = x + y" for x y :: u32
  using word_plus_and_or [of x y] by simp

lemma bit_byte_word: "bit (word_of_byte b :: u32) i \<Longrightarrow> i < 8"
proof -
  assume "bit (word_of_byte b :: u32) i"
  then have "bit (unat (word_of_byte b :: u32)) i"
    by (simp only: bit_unsigned_iff) (simp add: bit_imp_le_length)
  moreover have "take_bit 8 (byte_val b) = byte_val b"
    by (simp add: take_bit_eq_mod)
  ultimately have "bit (take_bit 8 (byte_val b)) i" by simp
  then show "i < 8" by (simp only: bit_take_bit_iff)
qed

lemma unat_shift_byte:
  "i \<le> 24 \<Longrightarrow> unat (push_bit i (word_of_byte b) :: u32) = byte_val b * 2 ^ i"
proof -
  assume "i \<le> 24"
  then have "(2::nat) ^ i \<le> 2 ^ 24" by (intro power_increasing) auto
  then have "byte_val b * 2 ^ i \<le> byte_val b * 2 ^ 24" by simp
  also have "\<dots> < 2 ^ 32" using byte_val_less [of b] by simp
  finally show ?thesis
    by (subst unsigned_push_bit_eq) (simp add: push_bit_eq_mult take_bit_nat_eq_self_iff)
qed

lemma unat_load_word:
  "unat (load_word buf t) = be_num [buf ! (4 * t), buf ! (4 * t + 1), buf ! (4 * t + 2), buf ! (4 * t + 3)]"
proof -
  let ?b = "\<lambda>i. word_of_byte (buf ! (4 * t + i)) :: u32"
  let ?w = "\<lambda>i n. push_bit n (?b i)"
  have d1: "?w 0 24 AND ?w 1 16 = 0"
    and d2: "(?w 0 24 OR ?w 1 16) AND ?w 2 8 = 0"
    and d3: "((?w 0 24 OR ?w 1 16) OR ?w 2 8) AND ?b 3 = 0"
    by (rule bit_word_eqI; auto simp: bit_simps dest!: bit_byte_word)+
  have "load_word buf t = ?w 0 24 + ?w 1 16 + ?w 2 8 + ?b 3"
    using or_add [OF d1] or_add [OF d2] or_add [OF d3]
    by (simp add: load_word_def)
  moreover have "be_num [w, x, y, z] mod W = be_num [w, x, y, z]" for w x y z
    using be_num_less [of "[w, x, y, z]"] by (intro mod_less) simp
  then have "(byte_val w * 16777216 + byte_val x * 65536 + byte_val y * 256 + byte_val z) mod W
      = be_num [w, x, y, z]" for w x y z
    by (simp add: be_num_Cons add.assoc)
  ultimately show ?thesis
    by (simp add: unat_word_ariths unat_shift_byte mod_simps)
qed

lemma be_num_words:
  "length inout = 4 * k \<Longrightarrow> num (map (\<lambda>i. load_word inout (k - 1 - i)) [0..<k]) = be_num inout"
proof (induction k arbitrary: inout)
  case (Suc k)
  define xs where "xs = take (4 * k) inout"
  define ys where "ys = drop (4 * k) inout"
  have inout: "inout = xs @ ys" and lx: "length xs = 4 * k" and ly: "length ys = 4"
    using Suc.prems by (simp_all add: xs_def ys_def)
  obtain w x y z where ys: "ys = [w, x, y, z]"
    using ly by (auto simp: eval_nat_numeral length_Suc_conv)
  have hd: "unat (load_word inout k) = be_num ys"
    by (simp add: unat_load_word inout ys nth_append lx)
  have "map (\<lambda>i. load_word inout (Suc k - 1 - i)) [0..<Suc k]
      = load_word inout k # map (\<lambda>i. load_word inout (k - 1 - i)) [0..<k]"
    by (subst upt_conv_Cons) (simp_all add: map_Suc_upt [symmetric] del: upt_Suc)
  also have "map (\<lambda>i. load_word inout (k - 1 - i)) [0..<k] = map (\<lambda>i. load_word xs (k - 1 - i)) [0..<k]"
    by (rule map_cong) (auto simp: load_word_def inout nth_append lx)
  finally show ?case
    using Suc.IH [OF lx] hd ly by (simp add: inout be_num_append)
qed simp

lemma be_num_be32: "be_num (be32 w) = unat w"
proof -
  have digits: "v div 16777216 * 16777216 + (v div 65536 mod 256 * 65536
      + (v div 256 mod 256 * 256 + v mod 256)) = v" if "v < W" for v :: nat
  proof -
    have d: "v div 65536 = v div 256 div 256" "v div 16777216 = v div 256 div 256 div 256"
      by (simp_all add: div_mult2_eq [symmetric])
    show ?thesis unfolding d
      using mod_mult_div_eq [of v 256] mod_mult_div_eq [of "v div 256" 256]
        mod_mult_div_eq [of "v div 256 div 256" 256] by linarith
  qed
  have top: "unat w div 16777216 mod 256 = unat w div 16777216"
    by (rule mod_less, rule less_mult_imp_div_less) simp
  have sh: "unat (drop_bit n w) = unat w div 2 ^ n" for n
    by (subst unat_drop_bit_eq) (simp add: drop_bit_eq_div)
  show ?thesis
    using digits [OF unat_less_W [of w]] top
    by (simp add: be32_def be_num_Cons byte_val_of_word sh)
qed

lemma length_be32 [simp]: "length (be32 w) = 4"
  by (simp add: be32_def)

lemma be_num_of_words: "be_num (concat (map be32 (rev ws))) = num ws"
  by (induction ws) (simp_all add: be_num_append be_num_be32)

lemma length_concat_be32 [simp]: "length (concat (map be32 ws)) = 4 * length ws"
  by (induction ws) simp_all

subsection \<open>The exponentiation and the signature check\<close>

lemma words_out: "length ws = k \<Longrightarrow> concat (map (\<lambda>i. be32 (ws ! i)) (rev [0..<k])) = concat (map be32 (rev ws))"
proof -
  assume "length ws = k"
  then have "ws = map (\<lambda>i. ws ! i) [0..<k]" by (simp add: list_eq_iff_nth_eq)
  then have "rev ws = map (\<lambda>i. ws ! i) (rev [0..<k])" by (metis rev_map)
  then show ?thesis by (simp add: comp_def)
qed

lemma cube_chain:
  assumes key: "key_ok key"
    and aR: "W ^ k * x mod modulus key = a * rr mod modulus key"
    and rr: "rr mod modulus key = (W ^ k)\<^sup>2 mod modulus key"
    and aaR: "W ^ k * y mod modulus key = x * x mod modulus key"
    and aaa: "W ^ k * z mod modulus key = y * a mod modulus key"
  shows "z mod modulus key = a ^ 3 mod modulus key"
proof -
  let ?n = "modulus key" and ?R = "W ^ k"
  have "?R * x mod ?n = ?R * (a * ?R) mod ?n"
  proof -
    have "a * rr mod ?n = a * (?R * ?R) mod ?n"
      using mod_mult_cong [OF refl rr, of a] by (simp only: power2_eq_square)
    then show ?thesis unfolding aR by (simp only: ac_simps)
  qed
  then have x: "x mod ?n = a * ?R mod ?n" by (rule mod_cancel_R [OF key])
  have "?R * y mod ?n = (a * ?R) * (a * ?R) mod ?n"
    unfolding aaR by (rule mod_mult_cong [OF x x])
  then have "?R * y mod ?n = ?R * (a * a * ?R) mod ?n"
    by (simp only: ac_simps)
  then have y: "y mod ?n = a * a * ?R mod ?n" by (rule mod_cancel_R [OF key])
  have "?R * z mod ?n = a * a * ?R * a mod ?n"
    unfolding aaa by (rule mod_mult_cong [OF y refl])
  then have "?R * z mod ?n = ?R * (a ^ 3) mod ?n"
    by (simp only: power3_eq_cube ac_simps)
  then show ?thesis by (rule mod_cancel_R [OF key])
qed

lemma reduce_once:
  assumes key: "key_ok key" and len: "length z = klen key" and small: "num z < 2 * modulus key"
  defines "r \<equiv> if geM key z then subM key z else z"
  shows "length r = klen key" and "num r = num z mod modulus key"
proof -
  have ln: "length (key_n key) = klen key" using key by (simp add: key_ok_def)
  have ge: "geM key z \<longleftrightarrow> modulus key \<le> num z"
    using geM_loop_num [of z "key_n key"] len ln by (simp add: geM_def)
  have "int (num (subM key z)) = int (num z) - int (modulus key)" if "modulus key \<le> num z"
  proof -
    have "int (num z) < int (W ^ klen key)"
      using num_less [of z] len by (simp only: of_nat_less_iff)
    moreover have "int (W ^ klen key) = WI ^ klen key" by simp
    ultimately have "int (num z) - int (modulus key) < WI ^ klen key" by linarith
    then show ?thesis using subM_num(2) [OF len ln] that by (simp add: mod_pos_pos_trivial)
  qed
  then show "length r = klen key" and "num r = num z mod modulus key"
    using ge subM_num(1) [OF len ln] len small by (auto simp: r_def le_mod_geq)
qed

lemma modpow3_num:
  assumes key: "key_ok key" and len: "length inout = 4 * klen key" "length stack = klen key"
    and range: "be_num inout < modulus key \<or> W ^ klen key \<le> 2 * modulus key"
  shows "length (modpow3 stack key inout) = 4 * klen key"
    and "be_num (modpow3 stack key inout) = be_num inout ^ 3 mod modulus key"
proof -
  let ?n = "modulus key"
  define a where "a = map (\<lambda>i. load_word inout (klen key - 1 - i)) [0..<klen key]"
  define aR where "aR = montMul key stack a (key_rr key)"
  define aaR where "aaR = montMul key stack aR aR"
  define aaa where "aaa = montMul key aR aaR a"
  define r where "r = (if geM key aaa then subM key aaa else aaa)"
  have a: "num a = be_num inout" "length a = klen key"
    using be_num_words [OF len(1)] by (simp_all add: a_def)
  have lrr: "length (key_rr key) = klen key" using key by (simp add: key_ok_def)
  note M1 = montMul_num [OF key len(2) a(2) lrr, folded aR_def]
  note M2 = montMul_num [OF key len(2) M1(1) M1(1), folded aaR_def]
  note M3 = montMul_num [OF key M1(1) M2(1) a(2), folded aaa_def]
  have "num aaa mod ?n = num a ^ 3 mod ?n"
    using key by (intro cube_chain [OF key M1(2) _ M2(2) M3(2)]) (simp add: key_ok_def)
  moreover have "num aaa < 2 * ?n"
    using range M3(3) num_less [of aaa] M3(1) a(1) by auto
  note R = reduce_once [OF key M3(1) this, folded r_def]
  have out: "modpow3 stack key inout = concat (map be32 (rev r))"
  proof -
    have "modpow3 stack key inout
        = concat (map (\<lambda>i. be32 (r ! i)) (rev [0..<klen key])) @ drop (4 * klen key) inout"
      unfolding modpow3_def Let_def r_def aaa_def aaR_def aR_def a_def by (rule refl)
    then show ?thesis using words_out [OF R(1)] len(1) by simp
  qed
  show "length (modpow3 stack key inout) = 4 * klen key"
    using R(1) by (simp add: out)
  show "be_num (modpow3 stack key inout) = be_num inout ^ 3 mod ?n"
    using R(2) calculation a(1) by (simp add: out be_num_of_words)
qed

text \<open>
  the public exponentiation: for a key whose constants are as the header says, the in-place
  result is the cube of the input modulo \<open>n\<close>, as a big-endian number of the same length. The
  input is either already reduced or the modulus uses its full width, which is when one
  final subtraction is enough.
\<close>

theorem modpow3_correct:
  assumes "key_ok key" and "length inout = 4 * klen key" and "length stack = klen key"
    and "be_num inout < modulus key \<or> W ^ klen key \<le> 2 * modulus key"
  shows "length (modpow3 stack key inout) = length inout
    \<and> be_num (modpow3 stack key inout) = be_num inout ^ 3 mod modulus key"
  using modpow3_num [OF assms] assms(2) by simp

definition toy_key :: RSAPublicKey where
  "toy_key = \<lparr>key_len = 1, key_n0inv = 0x55555555, key_n = [3], key_rr = [1]\<rparr>"

theorem modpow3_correct_witness:
  "length (modpow3 [7] toy_key [CHR 0x00, CHR 0x00, CHR 0x00, CHR 0x02]) = 4
   \<and> be_num (modpow3 [7] toy_key [CHR 0x00, CHR 0x00, CHR 0x00, CHR 0x02]) = 2"
proof -
  have key: "key_ok toy_key" by (simp add: key_ok_def toy_key_def)
  let ?m = "[CHR 0x00, CHR 0x00, CHR 0x00, CHR 0x02]"
  have "be_num ?m = 2" by (simp add: be_num_def)
  then show ?thesis
    using modpow3_correct [OF key, of ?m "[7]"] by (simp add: toy_key_def)
qed

lemma bytes_match_eq: "length xs = length ys \<Longrightarrow> bytes_match xs ys = (xs = ys)"
  by (induction xs ys rule: list_induct2) auto

lemma length_padding [simp]: "length padding = 236"
  by (simp add: padding_def)

text \<open>
  C2: the signature check accepts exactly when the cube of the signature modulo \<open>n\<close> is the
  PKCS#1 v1.5 block: the fixed padding followed by the expected SHA-1 digest.
\<close>

theorem RSA_verify_correct:
  assumes key: "key_ok key" "key_len key = 64" and len: "length signature = 256" "length sha = 20"
    and stack: "length stack = 64"
    and range: "be_num signature < modulus key \<or> W ^ 64 \<le> 2 * modulus key"
  shows "RSA_verify stack key signature 256 sha = 1
    \<longleftrightarrow> be_num signature ^ 3 mod modulus key = be_num (padding @ sha)"
proof -
  let ?buf = "modpow3 stack key signature"
  have B: "length ?buf = 256" "be_num ?buf = be_num signature ^ 3 mod modulus key"
    using modpow3_num [OF key(1), of signature stack] assms by simp_all
  have "RSA_verify stack key signature 256 sha = 1
      \<longleftrightarrow> take 236 ?buf = padding \<and> drop 236 ?buf = sha"
    using key(2) len B(1) by (simp add: RSA_verify_def Let_def bytes_match_eq)
  also have "\<dots> \<longleftrightarrow> ?buf = padding @ sha"
    by (metis append_eq_conv_conj append_take_drop_id length_padding)
  also have "\<dots> \<longleftrightarrow> be_num ?buf = be_num (padding @ sha)"
    using be_num_inj [of ?buf "padding @ sha"] B(1) len(2) by auto
  finally show ?thesis using B(2) by simp
qed

definition all_ones_key :: RSAPublicKey where
  "all_ones_key = \<lparr>key_len = 64, key_n0inv = 1, key_n = replicate 64 (- 1),
     key_rr = 1 # replicate 63 0\<rparr>"

lemma num_all_ones: "num (replicate k (- 1)) + 1 = W ^ k"
  by (induction k) (simp_all add: unsigned_minus_1_eq_mask mask_eq_exp_minus_1)

lemma all_ones_key_ok: "key_ok all_ones_key"
proof -
  let ?n = "num (replicate 64 (- 1))"
  have "((?n + 1)\<^sup>2) mod ?n = 1 mod ?n"
    by (metis mod_add_self1 power_mod power_one)
  then have "(W ^ 64)\<^sup>2 mod ?n = 1 mod ?n"
    by (simp only: num_all_ones)
  then show ?thesis
    by (simp only: key_ok_def all_ones_key_def RSAPublicKey.simps) simp
qed

theorem RSA_verify_correct_witness:
  "RSA_verify (replicate 64 0) all_ones_key (replicate 256 (CHR 0x00)) 256 (replicate 20 (CHR 0x07)) = 1
   \<longleftrightarrow> be_num (replicate 256 (CHR 0x00)) ^ 3 mod modulus all_ones_key
       = be_num (padding @ replicate 20 (CHR 0x07))"
proof (rule RSA_verify_correct [OF all_ones_key_ok])
  have "num (replicate 64 (- 1)) + 1 = W ^ 64" by (rule num_all_ones)
  moreover have "2 \<le> W ^ 64" by simp
  ultimately show "be_num (replicate 256 (CHR 0x00)) < modulus all_ones_key
      \<or> W ^ 64 \<le> 2 * modulus all_ones_key"
    by (simp only: all_ones_key_def RSAPublicKey.simps) linarith
qed (simp_all add: all_ones_key_def)

end
