(* ===== verification/Clib.thy ===== *)
theory Clib
  imports Prelude
begin

text \<open>
  The part of the C library the tools use on strings: character classes, searching, prefix
  tests (\<open>strncmp\<close> against a literal of that length), number parsing (\<open>strtoul\<close>,
  \<open>atoi\<close>) and the conversions \<open>%d\<close>, \<open>%x\<close>, \<open>%0nx\<close> of the \<open>printf\<close> family.
  A C string is the list of its bytes before the terminating zero. An \<open>unsigned long\<close> has 64
  bits, an \<open>int\<close> has 32.
\<close>

subsection \<open>Searching and comparing\<close>

definition isspace :: "char \<Rightarrow> bool" where
  "isspace c \<longleftrightarrow> c \<in> {CHR '' '', CHR 0x09, CHR 0x0a, CHR 0x0b, CHR 0x0c, CHR 0x0d}"

text \<open>\<open>!strncmp(s, lit, strlen(lit))\<close>\<close>

definition starts_with :: "string \<Rightarrow> string \<Rightarrow> bool" where
  "starts_with lit s \<longleftrightarrow> take (length lit) s = lit"

lemma starts_with_append [simp]: "starts_with lit (lit @ s)"
  by (simp add: starts_with_def)

lemma starts_with_conv: "starts_with lit s \<longleftrightarrow> (\<exists>r. s = lit @ r)"
  unfolding starts_with_def by (metis append_eq_conv_conj append_take_drop_id)

text \<open>\<open>strchr(s, c)\<close> as the split of \<open>s\<close> around the first \<open>c\<close>, \<open>strrchr\<close> around the last.\<close>

fun strchr :: "char \<Rightarrow> string \<Rightarrow> (string \<times> string) option" where
  "strchr c [] = None"
| "strchr c (x # xs) =
     (if x = c then Some ([], xs)
      else case strchr c xs of None \<Rightarrow> None | Some (p, q) \<Rightarrow> Some (x # p, q))"

definition strrchr :: "char \<Rightarrow> string \<Rightarrow> (string \<times> string) option" where
  "strrchr c s = map_option (\<lambda>(p, q). (rev q, rev p)) (strchr c (rev s))"

lemma strchr_append: "c \<notin> set p \<Longrightarrow> strchr c (p @ c # q) = Some (p, q)"
  by (induction p) auto

lemma strchr_SomeD: "strchr c s = Some (p, q) \<Longrightarrow> s = p @ c # q \<and> c \<notin> set p"
  by (induction s arbitrary: p) (auto split: if_splits option.splits)

lemma strchr_Some: "strchr c s = Some (p, q) \<longleftrightarrow> s = p @ c # q \<and> c \<notin> set p"
  using strchr_append strchr_SomeD by blast

lemma strchr_None: "strchr c s = None \<longleftrightarrow> c \<notin> set s"
  by (induction s) (auto split: option.splits)

lemma strrchr_Some: "strrchr c s = Some (p, q) \<longleftrightarrow> s = p @ c # q \<and> c \<notin> set q"
proof -
  have "strrchr c s = Some (p, q) \<longleftrightarrow> strchr c (rev s) = Some (rev q, rev p)"
    by (auto simp: strrchr_def)
  also have "\<dots> \<longleftrightarrow> s = p @ c # q \<and> c \<notin> set q"
    by (simp add: strchr_Some rev_swap)
  finally show ?thesis .
qed

text \<open>The string that starts a buffer.\<close>

definition cstr :: "char list \<Rightarrow> string" where
  "cstr bs = takeWhile (\<lambda>c. c \<noteq> CHR 0x00) bs"

subsection \<open>Parsing numbers\<close>

definition digit_val :: "char \<Rightarrow> nat option" where
  "digit_val c =
     (let n = byte_val c in
      if 48 \<le> n \<and> n \<le> 57 then Some (n - 48)
      else if 97 \<le> n \<and> n \<le> 122 then Some (n - 87)
      else if 65 \<le> n \<and> n \<le> 90 then Some (n - 55)
      else None)"

definition is_digit_in :: "nat \<Rightarrow> char \<Rightarrow> bool" where
  "is_digit_in base c \<longleftrightarrow> (case digit_val c of None \<Rightarrow> False | Some d \<Rightarrow> d < base)"

definition digits_value :: "nat \<Rightarrow> string \<Rightarrow> int" where
  "digits_value base ds = foldl (\<lambda>v c. v * int base + int (the (digit_val c))) 0 ds"

fun hex_prefix :: "string \<Rightarrow> bool" where
  "hex_prefix (z # x # d # s) \<longleftrightarrow>
     z = CHR ''0'' \<and> (x = CHR ''x'' \<or> x = CHR ''X'') \<and> is_digit_in 16 d"
| "hex_prefix _ \<longleftrightarrow> False"

text \<open>The base that a number is read in and the text of its digits; base 0 looks at the prefix.\<close>

definition number_base :: "nat \<Rightarrow> string \<Rightarrow> nat \<times> string" where
  "number_base base s =
     (if (base = 0 \<or> base = 16) \<and> hex_prefix s then (16, drop 2 s)
      else if base = 0 then (if starts_with ''0'' s then (8, s) else (10, s))
      else (base, s))"

definition sign_split :: "string \<Rightarrow> bool \<times> string" where
  "sign_split s =
     (case dropWhile isspace s of
        CHR ''-'' # r \<Rightarrow> (True, r)
      | CHR ''+'' # r \<Rightarrow> (False, r)
      | r \<Rightarrow> (False, r))"

definition strtoul :: "nat \<Rightarrow> string \<Rightarrow> u64" where
  "strtoul base s =
     (let (neg, s) = sign_split s;
          (base, s) = number_base base s;
          v = digits_value base (takeWhile (is_digit_in base) s)
      in if 2 ^ 64 \<le> v then - 1 else if neg then - of_int v else of_int v)"

text \<open>Where \<open>strtoul\<close> stops (\<open>endptr\<close>): at the start when there is no digit.\<close>

definition strtoul_end :: "nat \<Rightarrow> string \<Rightarrow> string" where
  "strtoul_end base s =
     (let (_, t) = sign_split s;
          (base, t) = number_base base t
      in if takeWhile (is_digit_in base) t = [] then s else dropWhile (is_digit_in base) t)"

definition strtol :: "nat \<Rightarrow> string \<Rightarrow> int" where
  "strtol base s =
     (let (neg, s) = sign_split s;
          (base, s) = number_base base s;
          v = digits_value base (takeWhile (is_digit_in base) s);
          v = (if neg then - v else v)
      in max (- (2 ^ 63)) (min (2 ^ 63 - 1) v))"

text \<open>The conversion of a \<open>long\<close> to an \<open>int\<close> keeps the low 32 bits.\<close>

definition to_int32 :: "int \<Rightarrow> int" where
  "to_int32 v = (v + 2 ^ 31) mod 2 ^ 32 - 2 ^ 31"

definition atoi :: "string \<Rightarrow> int" where
  "atoi s = to_int32 (strtol 10 s)"

subsection \<open>Printing numbers\<close>

definition digit_char :: "nat \<Rightarrow> char" where
  "digit_char d = char_of (if d < 10 then 48 + d else 87 + d)"

fun show_nat :: "nat \<Rightarrow> nat \<Rightarrow> string" where
  "show_nat base n =
     (if base < 2 \<or> n < base then [digit_char n]
      else show_nat base (n div base) @ [digit_char (n mod base)])"

declare show_nat.simps [simp del]

definition fmt_x :: "nat \<Rightarrow> nat \<Rightarrow> string" where
  "fmt_x width n = (let h = show_nat 16 n in replicate (width - length h) (CHR ''0'') @ h)"

definition fmt_d :: "int \<Rightarrow> string" where
  "fmt_d i = (if i < 0 then CHR ''-'' # show_nat 10 (nat (- i)) else show_nat 10 (nat i))"

text \<open>\<open>snprintf\<close> into a buffer of \<open>n\<close> bytes keeps at most \<open>n - 1\<close> characters.\<close>

definition snprintf :: "nat \<Rightarrow> string \<Rightarrow> string" where
  "snprintf n s = take (n - 1) s"

subsection \<open>Printing and parsing agree\<close>

lemma digit_val_char: "d < 36 \<Longrightarrow> digit_val (digit_char d) = Some d"
  by (auto simp: digit_val_def digit_char_def Let_def)

lemma digits_value_snoc:
  "digits_value base (ds @ [c]) = digits_value base ds * int base + int (the (digit_val c))"
  by (simp add: digits_value_def)

lemma digits_value_zeros: "digits_value base (replicate k (CHR ''0'') @ ds) = digits_value base ds"
  by (induction k) (simp_all add: digits_value_def digit_val_def Let_def)

lemma show_nat_value: "2 \<le> base \<Longrightarrow> base \<le> 36 \<Longrightarrow> digits_value base (show_nat base n) = int n"
proof (induction base n rule: show_nat.induct)
  case (1 base n)
  show ?case
  proof (cases "n < base")
    case True
    with 1 show ?thesis
      by (simp add: show_nat.simps [of base n] digits_value_def digit_val_char)
  next
    case False
    with 1 have "digits_value base (show_nat base (n div base)) = int (n div base)" by simp
    moreover have "n mod base < 36"
      using 1 mod_less_divisor [of base n] by linarith
    ultimately show ?thesis
      using False 1
      by (simp add: show_nat.simps [of base n] digits_value_snoc digit_val_char flip: of_nat_mult of_nat_add)
  qed
qed

lemma show_nat_digits: "2 \<le> base \<Longrightarrow> base \<le> 36 \<Longrightarrow> c \<in> set (show_nat base n) \<Longrightarrow> is_digit_in base c"
proof (induction base n rule: show_nat.induct)
  case (1 base n)
  have "is_digit_in base (digit_char d)" if "d < base" for d
    using that 1 by (simp add: is_digit_in_def digit_val_char)
  with 1 show ?case
    by (cases "n < base") (auto simp: show_nat.simps [of base n])
qed

lemma show_nat_nonempty [simp]: "show_nat base n \<noteq> []"
  by (simp add: show_nat.simps)

lemma show_nat_length: "2 \<le> base \<Longrightarrow> n < base ^ k \<Longrightarrow> 0 < k \<Longrightarrow> length (show_nat base n) \<le> k"
proof (induction base n arbitrary: k rule: show_nat.induct)
  case (1 base n)
  show ?case
  proof (cases "n < base")
    case True
    with 1 show ?thesis by (simp add: show_nat.simps [of base n])
  next
    case False
    with "1.prems" obtain j where k: "k = Suc j" "0 < j"
      by (cases k; cases "k - 1") auto
    then have "n div base < base ^ j"
      using "1.prems" by (simp add: less_mult_imp_div_less mult.commute)
    with "1.IH" "1.prems" False k show ?thesis
      by (simp add: show_nat.simps [of base n])
  qed
qed

lemma fmt_x_value: "digits_value 16 (fmt_x w n) = int n"
  by (simp add: fmt_x_def Let_def digits_value_zeros show_nat_value)

lemma fmt_x_digits: "c \<in> set (fmt_x w n) \<Longrightarrow> is_digit_in 16 c"
  by (auto simp: fmt_x_def Let_def dest: show_nat_digits [rotated 2]
      simp: is_digit_in_def digit_val_def split: if_splits)

lemma fmt_x_length: "0 < w \<Longrightarrow> n < 16 ^ w \<Longrightarrow> length (fmt_x w n) = w"
  using show_nat_length [of 16 n w] by (simp add: fmt_x_def Let_def)


lemma is_digit_in_16D:
  "is_digit_in 16 c \<Longrightarrow> \<not> isspace c \<and> c \<noteq> CHR ''-'' \<and> c \<noteq> CHR ''+'' \<and> c \<noteq> CHR ''x'' \<and> c \<noteq> CHR ''X'' \<and> c \<noteq> CHR 0x00"
  by (auto simp: is_digit_in_def digit_val_def isspace_def Let_def)

lemma strtoul_hex:
  assumes "ds \<noteq> []" "\<And>c. c \<in> set ds \<Longrightarrow> is_digit_in 16 c" "digits_value 16 ds < 2 ^ 64"
  shows "strtoul 16 ds = of_int (digits_value 16 ds)"
proof -
  obtain d r where ds: "ds = d # r" using assms(1) by (cases ds) auto
  have d: "is_digit_in 16 d" using assms(2) ds by simp
  have "sign_split ds = (False, ds)"
    using is_digit_in_16D [OF d] by (auto simp: sign_split_def ds split: char.splits bool.splits)
  moreover have "\<not> hex_prefix ds"
    using ds assms(2) is_digit_in_16D by (cases "(ds)" rule: hex_prefix.cases) auto
  then have "number_base 16 ds = (16, ds)"
    by (simp add: number_base_def)
  moreover have tw: "takeWhile (is_digit_in 16) ds = ds"
    using assms(2) by (simp add: takeWhile_eq_all_conv)
  ultimately show ?thesis
    using assms(3) by (simp add: strtoul_def tw Let_def)
qed

lemma fmt_x_nonempty: "fmt_x w n \<noteq> []"
  by (simp add: fmt_x_def Let_def)

lemma strtoul_fmt_x: "n < 2 ^ 64 \<Longrightarrow> strtoul 16 (fmt_x w n) = of_nat n"
  using strtoul_hex [of "fmt_x w n"] fmt_x_digits fmt_x_value by (simp add: fmt_x_nonempty)

text \<open>Decimal numbers, as \<open>%d\<close> prints them, in a base that is found from the text.\<close>

lemma show_nat_first: "2 \<le> base \<Longrightarrow> base \<le> 36 \<Longrightarrow> 0 < n \<Longrightarrow> hd (show_nat base n) \<noteq> CHR ''0''"
proof (induction base n rule: show_nat.induct)
  case (1 base n)
  show ?case
  proof (cases "n < base")
    case True
    then have "digit_val (digit_char n) = Some n" using 1 by (intro digit_val_char) simp
    moreover have "digit_val (CHR ''0'') = Some 0" by (simp add: digit_val_def)
    ultimately have "digit_char n \<noteq> CHR ''0''" using 1 by auto
    with True show ?thesis by (simp add: show_nat.simps [of base n])
  next
    case False
    with 1 have "0 < n div base" by (simp add: div_greater_zero_iff)
    with 1 False show ?thesis by (simp add: show_nat.simps [of base n])
  qed
qed

lemma is_digit_in_10_16: "is_digit_in 10 c \<Longrightarrow> is_digit_in 16 c"
  by (auto simp: is_digit_in_def split: option.splits)

lemma show_nat_zero: "show_nat 10 0 = ''0''"
  by code_simp

lemma number_split_dec:
  "sign_split (show_nat 10 n) = (False, show_nat 10 n)"
  "number_base 0 (show_nat 10 n) = (if n = 0 then 8 else 10, show_nat 10 n)"
  "takeWhile (is_digit_in (if n = 0 then 8 else 10)) (show_nat 10 n) = show_nat 10 n"
proof -
  obtain d r where ds: "show_nat 10 n = d # r" using show_nat_nonempty [of 10 n] by (cases "show_nat 10 n") auto
  have dig: "is_digit_in 10 c" if "c \<in> set (show_nat 10 n)" for c using show_nat_digits [OF _ _ that] by simp
  then have d16: "is_digit_in 16 c" if "c \<in> set (show_nat 10 n)" for c using that is_digit_in_10_16 by blast
  have d: "is_digit_in 16 d" using d16 ds by simp
  show "sign_split (show_nat 10 n) = (False, show_nat 10 n)"
    using is_digit_in_16D [OF d] by (auto simp: sign_split_def ds split: char.splits bool.splits)
  have "\<not> hex_prefix (show_nat 10 n)"
    using d16 is_digit_in_16D by (cases "show_nat 10 n" rule: hex_prefix.cases) auto
  moreover note zero = show_nat_zero
  moreover have "\<not> starts_with ''0'' (show_nat 10 n)" if "0 < n"
    using show_nat_first [of 10 n] that ds by (simp add: starts_with_def)
  ultimately show "number_base 0 (show_nat 10 n) = (if n = 0 then 8 else 10, show_nat 10 n)"
    by (cases "n = 0") (simp_all add: number_base_def starts_with_def)
  have "is_digit_in 8 (CHR ''0'')" by (simp add: is_digit_in_def digit_val_def)
  then show "takeWhile (is_digit_in (if n = 0 then 8 else 10)) (show_nat 10 n) = show_nat 10 n"
    using zero dig by (cases "n = 0") (simp_all add: takeWhile_eq_all_conv)
qed

lemma digits_value_dec: "digits_value (if n = 0 then 8 else 10) (show_nat 10 n) = int n"
proof (cases "n = 0")
  case True
  then show ?thesis by (simp add: show_nat_zero digits_value_def digit_val_def)
qed (simp add: show_nat_value)

lemma strtoul_dec: "n < 2 ^ 64 \<Longrightarrow> strtoul 0 (fmt_d (int n)) = of_nat n"
  by (simp add: strtoul_def fmt_d_def number_split_dec digits_value_dec Let_def split del: if_split)

end
