(* ===== verification/FbProtocol.thy ===== *)
theory FbProtocol
  imports Clib
begin

text \<open>
  The fastboot wire protocol (src/tools/fastboot/protocol.c): one command packet to the
  bootloader, its status packets back, the data phase. The USB handle is what the protocol sees of
  it: the packets that reads will return, the counts that writes will report, and what has been
  written, one element per \<open>usb_write\<close>. A read or write on a closed handle fails.
\<close>

subsection \<open>The USB handle\<close>

datatype fb_error =
    StatusReadFailed
  | StatusMalformed nat
  | RemoteError string
  | RemoteFailure
  | DataSizeTooLarge
  | UnknownStatusCode
  | CommandTooLarge
  | CommandWriteFailed
  | DataTransferFailure
  | ShortTransfer

record usb_handle =
  u_in :: "byte list option list"
  u_wr :: "nat option list"
  u_out :: "byte list list"
  u_closed :: bool
  u_info :: "string list"
  u_error :: "fb_error option"

definition usb_read :: "nat \<Rightarrow> usb_handle \<Rightarrow> byte list option \<times> usb_handle" where
  "usb_read n u =
     (if u_closed u then (None, u)
      else case u_in u of
             [] \<Rightarrow> (None, u)
           | r # rest \<Rightarrow> (map_option (take n) r, u\<lparr>u_in := rest\<rparr>))"

definition usb_write :: "byte list \<Rightarrow> usb_handle \<Rightarrow> nat option \<times> usb_handle" where
  "usb_write bs u =
     (if u_closed u then (None, u)
      else case u_wr u of
             [] \<Rightarrow> (Some (length bs), u\<lparr>u_out := u_out u @ [bs]\<rparr>)
           | None # rest \<Rightarrow> (None, u\<lparr>u_wr := rest\<rparr>)
           | Some n # rest \<Rightarrow>
               (Some (min n (length bs)), u\<lparr>u_wr := rest, u_out := u_out u @ [take n bs]\<rparr>))"

definition usb_close :: "usb_handle \<Rightarrow> usb_handle" where
  "usb_close u = u\<lparr>u_closed := True\<rparr>"

definition set_error :: "fb_error \<Rightarrow> usb_handle \<Rightarrow> usb_handle" where
  "set_error e u = u\<lparr>u_error := Some e\<rparr>"

subsection \<open>Status packets\<close>

text \<open>
  \<open>check_response\<close> returns the \<open>int\<close> of the code and the text copied to \<open>response\<close>. The
  announced size is an \<open>unsigned\<close>, returned through the \<open>int\<close>.
\<close>

function check_response :: "u32 \<Rightarrow> bool \<Rightarrow> usb_handle \<Rightarrow> int \<times> string option \<times> usb_handle" where
  "check_response sz data_okay u =
     (case usb_read 64 u of
        (None, u) \<Rightarrow> (-1, None, usb_close (set_error StatusReadFailed u))
      | (Some status, u) \<Rightarrow>
          if length status < 4
          then (-1, None, usb_close (set_error (StatusMalformed (length status)) u))
          else if take 4 status = ''INFO''
          then check_response sz data_okay (u\<lparr>u_info := u_info u @ [cstr (drop 4 status)]\<rparr>)
          else if take 4 status = ''OKAY'' then (0, Some (cstr (drop 4 status)), u)
          else if take 4 status = ''FAIL''
          then (-1, None, set_error (if 4 < length status then RemoteError (cstr (drop 4 status))
                                     else RemoteFailure) u)
          else if take 4 status = ''DATA'' \<and> data_okay
          then let dsize = ucast (strtoul 16 (cstr (drop 4 status))) :: u32 in
               if sz < dsize then (-1, None, usb_close (set_error DataSizeTooLarge u))
               else (sint dsize, None, u)
          else (-1, None, usb_close (set_error UnknownStatusCode u)))"
  by pat_completeness auto
termination
  by (relation "measure (\<lambda>(sz, data_okay, u). length (u_in u))")
    (auto simp: usb_read_def split: if_splits list.splits)

declare check_response.simps [simp del]

subsection \<open>Commands\<close>

text \<open>
  \<open>_command_send\<close>; the first component of the result is the returned \<open>int\<close>, the second the
  contents of \<open>response\<close> (empty unless an OKAY fills it).
\<close>

definition command_send ::
  "string \<Rightarrow> byte list option \<Rightarrow> u32 \<Rightarrow> usb_handle \<Rightarrow> int \<times> string \<times> usb_handle" where
  "command_send cmd data sz u =
     (if 64 < length cmd then (-1, [], set_error CommandTooLarge u)
      else
        case usb_write cmd u of (w, u) \<Rightarrow>
        if w \<noteq> Some (length cmd) then (-1, [], usb_close (set_error CommandWriteFailed u))
        else
          case data of
            None \<Rightarrow>
              (case check_response sz False u of
                 (r, resp, u) \<Rightarrow> (r, case resp of None \<Rightarrow> [] | Some s \<Rightarrow> s, u))
          | Some bs \<Rightarrow>
              (case check_response sz True u of (r, _, u) \<Rightarrow>
               if r < 0 then (-1, [], u)
               else
                 case (if r = 0 then (True, u)
                       else case usb_write (take (nat r) bs) u of
                              (None, u) \<Rightarrow> (False, usb_close (set_error DataTransferFailure u))
                            | (Some n, u) \<Rightarrow>
                                if int n \<noteq> r then (False, usb_close (set_error ShortTransfer u))
                                else (True, u)) of
                   (False, u) \<Rightarrow> (-1, [], u)
                 | (True, u) \<Rightarrow>
                     (case check_response 0 False u of (r2, _, u) \<Rightarrow>
                      if r2 < 0 then (-1, [], u) else (r, [], u))))"

definition fb_command :: "string \<Rightarrow> usb_handle \<Rightarrow> int \<times> usb_handle" where
  "fb_command cmd u = (case command_send cmd None 0 u of (r, _, u) \<Rightarrow> (r, u))"

definition fb_command_response :: "string \<Rightarrow> usb_handle \<Rightarrow> int \<times> string \<times> usb_handle" where
  "fb_command_response cmd u = command_send cmd None 0 u"

definition fb_download_data :: "byte list \<Rightarrow> u32 \<Rightarrow> usb_handle \<Rightarrow> int \<times> usb_handle" where
  "fb_download_data data sz u =
     (case command_send (''download:'' @ fmt_x 8 (unat sz)) (Some data) sz u of
        (r, _, u) \<Rightarrow> (if r < 0 then -1 else 0, u))"

text \<open>The text of the last error, as \<open>fb_get_error\<close> returns it (without \<open>strerror\<close>'s words).\<close>

definition fb_get_error :: "usb_handle \<Rightarrow> string" where
  "fb_get_error u =
     (case u_error u of
        None \<Rightarrow> []
      | Some StatusReadFailed \<Rightarrow> ''status read failed''
      | Some (StatusMalformed n) \<Rightarrow> ''status malformed ('' @ show_nat 10 n @ '' bytes)''
      | Some (RemoteError s) \<Rightarrow> ''remote: '' @ s
      | Some RemoteFailure \<Rightarrow> ''remote failure''
      | Some DataSizeTooLarge \<Rightarrow> ''data size too large''
      | Some UnknownStatusCode \<Rightarrow> ''unknown status code''
      | Some CommandTooLarge \<Rightarrow> ''command too large''
      | Some CommandWriteFailed \<Rightarrow> ''command write failed''
      | Some DataTransferFailure \<Rightarrow> ''data transfer failure''
      | Some ShortTransfer \<Rightarrow> ''data transfer failure (short transfer)'')"

subsection \<open>What a response loop does\<close>

lemma usb_write_frame:
  assumes "usb_write bs u = (w, u')"
  shows "u_in u' = u_in u" "u_closed u' = u_closed u" "u_info u' = u_info u" "u_error u' = u_error u"
    and "w = Some (length bs) \<Longrightarrow> u_out u' = u_out u @ [bs]"
  using assms
  by (auto simp: usb_write_def min_def split: if_splits list.splits option.splits)

lemma usb_write_closed: "usb_write bs u = (Some n, u') \<Longrightarrow> \<not> u_closed u"
  by (auto simp: usb_write_def split: if_splits)

lemma check_response_out: "check_response sz d u = (r, s, u') \<Longrightarrow> u_out u' = u_out u \<and> u_wr u' = u_wr u"
proof (induction sz d u arbitrary: r s u' rule: check_response.induct)
  case (1 sz d u)
  obtain st u1 where rd: "usb_read 64 u = (st, u1)" by fastforce
  have o: "u_out u1 = u_out u" "u_wr u1 = u_wr u"
    using rd by (auto simp: usb_read_def split: if_splits list.splits)
  show ?case
  proof (cases st)
    case None
    with 1(2) rd o show ?thesis
      by (auto simp: check_response.simps [of sz d u] usb_close_def set_error_def)
  next
    case (Some status)
    show ?thesis
    proof (cases "4 \<le> length status \<and> take 4 status = ''INFO''")
      case True
      with 1(1) [OF rd [symmetric] Some] 1(2) rd Some o show ?thesis
        by (auto simp: check_response.simps [of sz d u])
    next
      case False
      with 1(2) rd Some o show ?thesis
        by (auto simp: check_response.simps [of sz d u] usb_close_def set_error_def Let_def
            split: if_splits)
    qed
  qed
qed


definition is_info :: "byte list \<Rightarrow> bool" where
  "is_info p \<longleftrightarrow> 4 \<le> length p \<and> length p \<le> 64 \<and> take 4 p = ''INFO''"

text \<open>INFO packets are shown and skipped.\<close>

lemma check_response_infos:
  "\<not> u_closed u \<Longrightarrow> list_all is_info ps \<Longrightarrow> u_in u = map Some ps @ rest \<Longrightarrow>
   check_response sz d u =
     check_response sz d (u\<lparr>u_in := rest, u_info := u_info u @ map (\<lambda>p. cstr (drop 4 p)) ps\<rparr>)"
proof (induction ps arbitrary: u)
  case Nil
  then have "u\<lparr>u_in := rest, u_info := u_info u @ []\<rparr> = u" by (cases u) simp
  then show ?case by simp
next
  case (Cons p ps)
  let ?u = "u\<lparr>u_in := map Some ps @ rest, u_info := u_info u @ [cstr (drop 4 p)]\<rparr>"
  have "usb_read 64 u = (Some p, u\<lparr>u_in := map Some ps @ rest\<rparr>)"
    using Cons.prems by (simp add: usb_read_def is_info_def)
  then have "check_response sz d u = check_response sz d ?u"
    using Cons.prems by (simp add: check_response.simps [of sz d u] is_info_def)
  also have "\<dots> = check_response sz d (?u\<lparr>u_in := rest, u_info := u_info ?u @ map (\<lambda>p. cstr (drop 4 p)) ps\<rparr>)"
    using Cons.prems by (intro Cons.IH) auto
  finally show ?case by simp
qed

lemma check_response_okay:
  assumes "\<not> u_closed u" "u_in u = Some p # rest" "length p \<le> 64" "take 4 p = ''OKAY''"
  shows "check_response sz d u = (0, Some (cstr (drop 4 p)), u\<lparr>u_in := rest\<rparr>)"
proof -
  have "4 \<le> length p" using arg_cong [OF assms(4), of length] by simp
  with assms show ?thesis by (simp add: check_response.simps [of sz d u] usb_read_def)
qed

lemma check_response_infos_okay:
  assumes "\<not> u_closed u" "u_in u = map Some ps @ Some p # rest" "list_all is_info ps"
    and "length p \<le> 64" "take 4 p = ''OKAY''"
  shows "check_response sz d u = (0, Some (cstr (drop 4 p)),
    u\<lparr>u_in := rest, u_info := u_info u @ map (\<lambda>p. cstr (drop 4 p)) ps\<rparr>)"
  unfolding check_response_infos [OF assms(1,3,2)]
  by (subst check_response_okay [of _ p rest]) (use assms in auto)

lemma cstr_fmt_x: "cstr (fmt_x w n) = fmt_x w n"
  using is_digit_in_16D fmt_x_digits by (auto simp: cstr_def takeWhile_eq_all_conv)

lemma check_response_data:
  assumes "\<not> u_closed u" "u_in u = Some (''DATA'' @ fmt_x 8 n) # rest" "n < 2 ^ 31" "n \<le> unat sz"
  shows "check_response sz True u = (int n, None, u\<lparr>u_in := rest\<rparr>)"
proof -
  have "length (fmt_x 8 n) = 8" using assms(3) by (intro fmt_x_length) auto
  then have rd: "usb_read 64 u = (Some (''DATA'' @ fmt_x 8 n), u\<lparr>u_in := rest\<rparr>)"
    using assms by (simp add: usb_read_def)
  have "ucast (strtoul 16 (fmt_x 8 n)) = (of_nat n :: u32)"
    using assms(3) by (simp add: strtoul_fmt_x unsigned_of_nat take_bit_nat_eq_self)
  moreover have "unat (of_nat n :: u32) = n"
    using assms(3) by (simp add: unat_of_nat take_bit_eq_mod)
  moreover have "sint (of_nat n :: u32) = int n"
    using assms(3) by (simp add: signed_of_nat signed_take_bit_int_eq_self)
  ultimately show ?thesis
    using rd assms(4)
    by (simp add: check_response.simps [of sz True u] cstr_fmt_x Let_def word_less_nat_alt)
qed

text \<open>
  The data phase: when the bootloader announces the size it was told and confirms the transfer,
  with any informational packets in between, and the writes go through, the download succeeds and
  the bytes on the wire are the \<open>download:\<close> command followed by exactly the data.
\<close>

theorem download_handshake:
  assumes "\<not> u_closed u" "u_wr u = []" "length data < 2 ^ 31"
    and "list_all is_info infosa" "list_all is_info infosb" "length ok \<le> 64" "take 4 ok = ''OKAY''"
    and "u_in u = map Some infosa @ Some (''DATA'' @ fmt_x 8 (length data)) # map Some infosb @ Some ok # rest"
  shows "\<exists>u'. fb_download_data data (of_nat (length data)) u = (0, u')
    \<and> u_out u' = u_out u @ (''download:'' @ fmt_x 8 (length data)) # (if data = [] then [] else [data])
    \<and> u_in u' = rest \<and> \<not> u_closed u'
    \<and> u_info u' = u_info u @ map (\<lambda>p. cstr (drop 4 p)) (infosa @ infosb)"
proof -
  let ?n = "length data" and ?I = "map (\<lambda>p. cstr (drop 4 p))"
  let ?cmd = "''download:'' @ fmt_x 8 ?n"
  have un: "unat (of_nat ?n :: u32) = ?n"
    using assms(3) by (simp add: unat_of_nat take_bit_eq_mod)
  have lc: "length ?cmd \<le> 64"
    using fmt_x_length [of 8 ?n] assms(3) by simp
  let ?u1 = "u\<lparr>u_out := u_out u @ [?cmd]\<rparr>"
  let ?u2 = "?u1\<lparr>u_in := map Some infosb @ Some ok # rest, u_info := u_info u @ ?I infosa\<rparr>"
  have w1: "usb_write ?cmd u = (Some (length ?cmd), ?u1)"
    using assms(1,2) by (simp add: usb_write_def)
  have c1: "check_response (of_nat ?n) True ?u1 = (int ?n, None, ?u2)"
    using check_response_infos [of ?u1 infosa "Some (''DATA'' @ fmt_x 8 ?n) # map Some infosb @ Some ok # rest"]
      check_response_data [of "?u1\<lparr>u_in := Some (''DATA'' @ fmt_x 8 ?n) # map Some infosb @ Some ok # rest,
          u_info := u_info u @ ?I infosa\<rparr>" ?n "map Some infosb @ Some ok # rest" "of_nat ?n"] assms un
    by simp
  let ?u3 = "if data = [] then ?u2 else ?u2\<lparr>u_out := u_out ?u2 @ [data]\<rparr>"
  let ?u4 = "?u3\<lparr>u_in := rest, u_info := u_info ?u2 @ ?I infosb\<rparr>"
  have c2: "check_response 0 False ?u3 = (0, Some (cstr (drop 4 ok)), ?u4)"
    by (subst check_response_infos_okay [of _ infosb ok rest]) (use assms in auto)
  have "command_send ?cmd (Some data) (of_nat ?n) u = (int ?n, [], ?u4)"
    unfolding command_send_def w1 using lc c1 c2 assms(1,2)
    by (cases "data = []") (simp_all add: usb_write_def)
  then show ?thesis using assms(1) by (simp add: fb_download_data_def un)
qed

theorem download_handshake_witness:
  "\<exists>u'. fb_download_data ''ab'' (of_nat (length ''ab''))
      \<lparr>u_in = [Some ''INFOwait'', Some ''DATA00000002'', Some ''OKAY''], u_wr = [], u_out = [],
       u_closed = False, u_info = [], u_error = None\<rparr> = (0, u')
    \<and> u_out u' = [''download:00000002'', ''ab''] \<and> u_info u' = [''wait'']"
proof -
  have f: "fmt_x 8 (length ''ab'') = ''00000002''"
    by code_simp
  show ?thesis
    using download_handshake [where data = "''ab''" and infosa = "[''INFOwait'']" and infosb = "[]"
        and ok = "''OKAY''" and rest = "[]"
        and u = "\<lparr>u_in = [Some ''INFOwait'', Some ''DATA00000002'', Some ''OKAY''], u_wr = [], u_out = [],
          u_closed = False, u_info = [], u_error = None\<rparr>", unfolded f]
    by (simp add: is_info_def cstr_def) blast
qed

subsection \<open>What a success means\<close>

text \<open>
  The number of bytes a status packet asks for (only the first 64 bytes of a packet are read), and the
  status packet that ends a response loop with a result of zero or more.
\<close>

definition announced :: "byte list \<Rightarrow> nat" where
  "announced p = (if take 4 p = ''DATA'' then unat (ucast (strtoul 16 (cstr (drop 4 (take 64 p)))) :: u32) else 0)"

definition only_infos :: "byte list option list \<Rightarrow> bool" where
  "only_infos ps \<longleftrightarrow> list_all (\<lambda>q. \<exists>i. q = Some i \<and> take 4 i = ''INFO'') ps"

lemma check_response_nonneg:
  "check_response sz d u = (r, s, u') \<Longrightarrow> 0 \<le> r \<Longrightarrow>
   \<not> u_closed u \<and> \<not> u_closed u' \<and>
   (\<exists>pre p. u_in u = pre @ Some p # u_in u' \<and> only_infos pre \<and> r = int (announced p) \<and>
     (take 4 p = ''OKAY'' \<or> d \<and> take 4 p = ''DATA'' \<and> announced p \<le> unat sz))"
proof (induction sz d u arbitrary: r s u' rule: check_response.induct)
  case (1 sz d u)
  obtain st u1 where rd: "usb_read 64 u = (st, u1)" by fastforce
  with "1.prems" obtain status where st: "st = Some status"
    by (cases st) (auto simp: check_response.simps [of sz d u])
  then obtain full where full: "u_in u = Some full # u_in u1" "status = take 64 full"
    "\<not> u_closed u" "u_closed u1 = u_closed u"
    using rd by (auto simp: usb_read_def split: if_splits list.splits)
  then have t4: "take 4 status = take 4 full" by (simp add: min_def)
  show ?case
  proof (cases "4 \<le> length status \<and> take 4 status = ''INFO''")
    case True
    let ?u2 = "u1\<lparr>u_info := u_info u1 @ [cstr (drop 4 status)]\<rparr>"
    have "check_response sz d ?u2 = (r, s, u')"
      using "1.prems"(1) rd st True by (simp add: check_response.simps [of sz d u])
    then obtain pre p where "\<not> u_closed u'" "u_in u1 = pre @ Some p # u_in u'"
      "only_infos pre" "r = int (announced p)" "take 4 p = ''OKAY'' \<or> d \<and> take 4 p = ''DATA'' \<and> announced p \<le> unat sz"
      using "1.IH" [OF rd [symmetric] st _ _ _ "1.prems"(2)] True by auto
    then show ?thesis
      using full t4 True by (intro conjI exI [of _ "Some full # pre"] exI [of _ p]) (auto simp: only_infos_def)
  next
    case False
    have "r = int (announced full) \<and> announced full \<le> unat sz" if "take 4 status = ''DATA''" "d"
    proof -
      have "4 \<le> length status"
        using "1.prems" rd st by (auto simp: check_response.simps [of sz d u] split: if_splits)
      then have r: "r = sint (ucast (strtoul 16 (cstr (drop 4 status))) :: u32)"
        "\<not> sz < (ucast (strtoul 16 (cstr (drop 4 status))) :: u32)"
        using "1.prems" rd st that
        by (auto simp: check_response.simps [of sz True u] Let_def split: if_splits)
      then have "r = int (unat (ucast (strtoul 16 (cstr (drop 4 status))) :: u32))"
        using "1.prems"(2) by (simp add: sint_nonneg)
      moreover have "announced full = unat (ucast (strtoul 16 (cstr (drop 4 status))) :: u32)"
        using that t4 full(2) by (simp add: announced_def)
      ultimately show ?thesis using r(2) by (simp add: word_less_nat_alt)
    qed
    moreover have "u' = u1 \<and> (take 4 status = ''OKAY'' \<and> r = 0 \<or> d \<and> take 4 status = ''DATA'')"
      using "1.prems" rd st False
      by (auto simp: check_response.simps [of sz d u] Let_def split: if_splits)
    moreover have "announced full = 0" if "take 4 status = ''OKAY''" using that t4 by (simp add: announced_def)
    ultimately show ?thesis
      using full t4 by (intro conjI exI [of _ "[]"] exI [of _ full]) (auto simp: only_infos_def)
  qed
qed

text \<open>
  A command with data that succeeds: the first status packet asks for a number of bytes, exactly those are
  written, and the next status packet is OKAY.
\<close>

lemma command_send_data:
  assumes "command_send cmd (Some bs) sz u = (r, s, u')" "0 \<le> r"
  shows "length cmd \<le> 64 \<and> \<not> u_closed u'
    \<and> (\<exists>pre1 p1 pre2 p2. u_in u = pre1 @ Some p1 # pre2 @ Some p2 # u_in u' \<and> only_infos pre1 \<and> only_infos pre2
        \<and> (take 4 p1 = ''DATA'' \<or> take 4 p1 = ''OKAY'') \<and> take 4 p2 = ''OKAY'' \<and> announced p1 \<le> unat sz
        \<and> r = int (announced p1)
        \<and> u_out u' = u_out u @ cmd # (if announced p1 = 0 then [] else [take (announced p1) bs]))"
proof -
  have len: "length cmd \<le> 64" using assms by (auto simp: command_send_def split: if_splits)
  obtain w u1 where w: "usb_write cmd u = (w, u1)" by fastforce
  with assms len have wn: "w = Some (length cmd)" by (auto simp: command_send_def split: if_splits)
  note f = usb_write_frame [OF w] note o1 = f(5) [OF wn]
  obtain r1 s1 u2 where c1: "check_response sz True u1 = (r1, s1, u2)" using prod_cases3 by blast
  have r1: "0 \<le> r1" using assms len w wn c1 by (auto simp: command_send_def split: if_splits)
  obtain pre1 p1 where n1: "u_in u1 = pre1 @ Some p1 # u_in u2" "only_infos pre1" "r1 = int (announced p1)"
    "take 4 p1 = ''OKAY'' \<or> take 4 p1 = ''DATA'' \<and> announced p1 \<le> unat sz"
    using check_response_nonneg [OF c1 r1] by blast
  have a0: "take 4 p1 = ''OKAY'' \<Longrightarrow> announced p1 = 0" by (simp add: announced_def)
  obtain u3 where u3: "r1 = 0 \<and> u3 = u2 \<or> r1 \<noteq> 0 \<and> usb_write (take (nat r1) bs) u2 = (Some (nat r1), u3)"
    and c2: "case check_response 0 False u3 of (r2, s2, u4) \<Rightarrow> 0 \<le> r2 \<and> u4 = u' \<and> r = r1"
    using assms len w wn c1 r1
    by (auto simp: command_send_def split: prod.splits if_splits option.splits)
  obtain r2 s2 where c3: "check_response 0 False u3 = (r2, s2, u')" "0 \<le> r2" "r = r1" using c2 by auto
  obtain pre2 p2 where n2: "\<not> u_closed u'" "u_in u3 = pre2 @ Some p2 # u_in u'" "only_infos pre2" "take 4 p2 = ''OKAY''"
    using check_response_nonneg [OF c3(1,2)] by blast
  have io: "u_in u3 = u_in u2 \<and> u_out u3 = u_out u2 @ (if r1 = 0 then [] else [take (nat r1) bs])"
    using u3 usb_write_frame(1,5) [of "take (nat r1) bs" u2 "Some (nat r1)" u3] r1
    by (auto simp: usb_write_def split: if_splits list.splits option.splits)
  have "u_in u = pre1 @ Some p1 # pre2 @ Some p2 # u_in u'" using n1(1) n2(2) io f(1) by simp
  moreover have "u_out u' = u_out u @ cmd # (if announced p1 = 0 then [] else [take (announced p1) bs])"
    using check_response_out [OF c1] check_response_out [OF c3(1)] io o1 n1(3) by auto
  ultimately show ?thesis
    using len n1(2,3,4) n2 c3(3) a0
    by (intro conjI exI [of _ pre1] exI [of _ p1] exI [of _ pre2] exI [of _ p2]) auto
qed

lemma command_send_nonneg:
  assumes "command_send cmd data sz u = (r, s, u')" "0 \<le> r"
  shows "length cmd \<le> 64 \<and> \<not> u_closed u'
    \<and> (\<exists>pre p. u_in u = pre @ Some p # u_in u' \<and> take 4 p = ''OKAY'')
    \<and> (\<exists>n. n \<le> unat sz
          \<and> u_out u' = u_out u @ cmd # (if n = 0 \<or> data = None then [] else [take n (the data)]))
    \<and> (data = None \<longrightarrow> r = 0)"
proof -
  have len: "length cmd \<le> 64" using assms by (auto simp: command_send_def split: if_splits)
  obtain w u1 where w: "usb_write cmd u = (w, u1)" by fastforce
  with assms len have wn: "w = Some (length cmd)" by (auto simp: command_send_def split: if_splits)
  note f = usb_write_frame [OF w] note o1 = f(5) [OF wn]
  show ?thesis
  proof (cases data)
    case None
    obtain s2 where c: "check_response sz False u1 = (r, s2, u')"
      using assms len w wn None by (auto simp: command_send_def split: prod.splits)
    obtain pre p where "u_in u1 = pre @ Some p # u_in u'" "take 4 p = ''OKAY''" "r = int (announced p)" "\<not> u_closed u'"
      using check_response_nonneg [OF c assms(2)] by blast
    then show ?thesis
      using check_response_out [OF c] f o1 len None
      by (intro conjI) (auto simp: announced_def intro: exI [of _ 0])
  next
    case (Some bs)
    obtain pre1 p1 pre2 p2 where d: "length cmd \<le> 64" "\<not> u_closed u'"
      "u_in u = (pre1 @ Some p1 # pre2) @ Some p2 # u_in u'" "take 4 p2 = ''OKAY''" "announced p1 \<le> unat sz"
      "u_out u' = u_out u @ cmd # (if announced p1 = 0 then [] else [take (announced p1) bs])"
      using command_send_data [of cmd bs sz u r s u'] assms Some by auto
    then show ?thesis using Some by (intro conjI exI [of _ "announced p1"]) (blast, auto)
  qed
qed

text \<open>
  C21: A download that reports success went through its data phase: after the command the bootloader
  answered, informational packets apart, with DATA and a number of bytes no larger than the size (or with
  OKAY, which asks for none), exactly that many bytes of the data were written, all of them, and the status
  packet after that was OKAY.
\<close>

theorem download_success_means:
  assumes "fb_download_data data sz u = (0, u')"
  shows "\<exists>pre1 p1 pre2 p2. u_in u = pre1 @ Some p1 # pre2 @ Some p2 # u_in u' \<and> only_infos pre1 \<and> only_infos pre2
    \<and> (take 4 p1 = ''DATA'' \<or> take 4 p1 = ''OKAY'') \<and> take 4 p2 = ''OKAY'' \<and> announced p1 \<le> unat sz
    \<and> u_out u' = u_out u @ (''download:'' @ fmt_x 8 (unat sz)) # (if announced p1 = 0 then [] else [take (announced p1) data])"
proof -
  obtain r s u2 where c: "command_send (''download:'' @ fmt_x 8 (unat sz)) (Some data) sz u = (r, s, u2)"
    using prod_cases3 by blast
  with assms have "0 \<le> r" "u2 = u'" by (auto simp: fb_download_data_def split: if_splits)
  with command_send_data [OF c] show ?thesis by blast
qed

definition usb_sample :: usb_handle where
  "usb_sample = \<lparr>u_in = [Some ''INFOx'', Some ''DATA00000002'', Some ''OKAY''], u_wr = [], u_out = [],
     u_closed = False, u_info = [], u_error = None\<rparr>"

theorem download_success_means_witness:
  "fst (fb_download_data ''abc'' 3 usb_sample) = 0
   \<and> (\<exists>pre1 p1 pre2 p2. u_in usb_sample = pre1 @ Some p1 # pre2 @ Some p2 # u_in (snd (fb_download_data ''abc'' 3 usb_sample))
     \<and> only_infos pre1 \<and> only_infos pre2 \<and> take 4 p2 = ''OKAY'' \<and> announced p1 \<le> unat (3 :: u32)
     \<and> u_out (snd (fb_download_data ''abc'' 3 usb_sample))
       = (''download:'' @ fmt_x 8 (unat (3 :: u32))) # (if announced p1 = 0 then [] else [take (announced p1) ''abc'']))"
proof -
  have r: "fst (fb_download_data ''abc'' 3 usb_sample) = 0" by code_simp
  then have "fb_download_data ''abc'' 3 usb_sample = (0, snd (fb_download_data ''abc'' 3 usb_sample))"
    by (metis prod.collapse)
  from download_success_means [OF this] have
    "\<exists>pre1 p1 pre2 p2. u_in usb_sample = pre1 @ Some p1 # pre2 @ Some p2 # u_in (snd (fb_download_data ''abc'' 3 usb_sample))
     \<and> only_infos pre1 \<and> only_infos pre2 \<and> take 4 p2 = ''OKAY'' \<and> announced p1 \<le> unat (3 :: u32)
     \<and> u_out (snd (fb_download_data ''abc'' 3 usb_sample))
       = u_out usb_sample @ (''download:'' @ fmt_x 8 (unat (3 :: u32))) # (if announced p1 = 0 then [] else [take (announced p1) ''abc''])"
    by blast
  moreover have "u_out usb_sample = []" by (simp add: usb_sample_def)
  ultimately show ?thesis using r by simp
qed

end
