(* ===== verification/FbEngine.thy ===== *)
theory FbEngine
  imports FbProtocol
begin

text \<open>
  The command queue of fastboot (src/tools/fastboot/engine.c): actions are queued while the command
  line is read and run in order until one fails. The linked list \<open>action_list\<close>/\<open>action_last\<close> is
  the list of its nodes; time stamps, which are only printed, are left out. What the program prints
  is the list of its lines. Undefined behaviour of the queueing functions is a fault: a command
  that does not fit the 64 bytes of \<open>Action.cmd\<close>, and a command with a percent sign given to
  \<open>fb_queue_command\<close>, which uses it as a format string.
\<close>

subsection \<open>Actions and the queue\<close>

datatype fb_op = OP_DOWNLOAD | OP_COMMAND | OP_QUERY | OP_NOTICE

datatype fb_callback = CbDefault | CbRequire | CbReject | CbDisplay | CbDoNothing

datatype fb_data = NoData | Bytes "byte list" | Values "string list" | Text string

record action =
  act_op :: fb_op
  act_cmd :: string
  act_data :: fb_data
  act_size :: u32
  act_msg :: "string option"
  act_func :: fb_callback

datatype fb_fault = CmdOverrun | MemOverrun | FormatString | Die string | UsageExit | Exit nat

type_synonym 'a outcome = "fb_fault + 'a"

text \<open>\<open>queue_action\<close> returns the new node; the callers fill it in before it is used.\<close>

definition queue_action :: "fb_op \<Rightarrow> string \<Rightarrow> (action \<Rightarrow> action) \<Rightarrow> action list \<Rightarrow> action list outcome" where
  "queue_action op cmd fill q =
     (if 64 \<le> length cmd then Inl CmdOverrun
      else Inr (q @ [fill \<lparr>act_op = op, act_cmd = cmd, act_data = NoData, act_size = 0,
                           act_msg = None, act_func = CbDefault\<rparr>]))"

definition quoted :: "string \<Rightarrow> string" where
  "quoted s = [CHR 0x27] @ s @ [CHR 0x27]"

definition fb_queue_erase :: "string \<Rightarrow> action list \<Rightarrow> action list outcome" where
  "fb_queue_erase ptn q =
     queue_action OP_COMMAND (''erase:'' @ ptn)
       (\<lambda>a. a\<lparr>act_msg := Some (''erasing '' @ quoted ptn)\<rparr>) q"

definition fb_queue_flash :: "string \<Rightarrow> byte list \<Rightarrow> u32 \<Rightarrow> action list \<Rightarrow> action list outcome" where
  "fb_queue_flash ptn data sz q =
     andthen (queue_action OP_DOWNLOAD []
        (\<lambda>a. a\<lparr>act_data := Bytes data, act_size := sz,
              act_msg := Some (''sending '' @ quoted ptn @ '' (''
                               @ fmt_d (sint (sz div 1024)) @ '' KB)'')\<rparr>) q)
       (\<lambda>q. queue_action OP_COMMAND (''flash:'' @ ptn)
               (\<lambda>a. a\<lparr>act_msg := Some (''writing '' @ quoted ptn)\<rparr>) q)"

fun match :: "string \<Rightarrow> string list \<Rightarrow> bool" where
  "match str [] = False"
| "match str (val # vals) =
     (let len = length val;
          m = (if 1 < len \<and> last val = CHR ''*'' then take (len - 1) val = take (len - 1) str
               else val = str)
      in if m then True else match str vals)"

definition fb_queue_require :: "string \<Rightarrow> bool \<Rightarrow> string list \<Rightarrow> action list \<Rightarrow> action list outcome" where
  "fb_queue_require var invert values q =
     queue_action OP_QUERY (''getvar:'' @ var)
       (\<lambda>a. a\<lparr>act_data := Values values, act_size := of_nat (length values),
             act_msg := Some (''checking '' @ var),
             act_func := (if invert then CbReject else CbRequire)\<rparr>) q"

definition fb_queue_display :: "string \<Rightarrow> string \<Rightarrow> action list \<Rightarrow> action list outcome" where
  "fb_queue_display var prettyname q =
     queue_action OP_QUERY (''getvar:'' @ var)
       (\<lambda>a. a\<lparr>act_data := Text prettyname, act_func := CbDisplay\<rparr>) q"

definition fb_queue_reboot :: "action list \<Rightarrow> action list outcome" where
  "fb_queue_reboot q =
     queue_action OP_COMMAND ''reboot''
       (\<lambda>a. a\<lparr>act_func := CbDoNothing, act_msg := Some ''rebooting''\<rparr>) q"

definition fb_queue_command :: "string \<Rightarrow> string \<Rightarrow> action list \<Rightarrow> action list outcome" where
  "fb_queue_command cmd msg q =
     (if CHR ''%'' \<in> set cmd then Inl FormatString
      else queue_action OP_COMMAND cmd (\<lambda>a. a\<lparr>act_msg := Some msg\<rparr>) q)"

definition fb_queue_download :: "string \<Rightarrow> byte list \<Rightarrow> u32 \<Rightarrow> action list \<Rightarrow> action list outcome" where
  "fb_queue_download name data sz q =
     queue_action OP_DOWNLOAD []
       (\<lambda>a. a\<lparr>act_data := Bytes data, act_size := sz,
             act_msg := Some (''downloading '' @ quoted name)\<rparr>) q"

definition fb_queue_notice :: "string \<Rightarrow> action list \<Rightarrow> action list outcome" where
  "fb_queue_notice notice q = queue_action OP_NOTICE [] (\<lambda>a. a\<lparr>act_data := Text notice\<rparr>) q"

subsection \<open>Callbacks and execution\<close>

definition failed_line :: "string \<Rightarrow> string" where
  "failed_line resp = ''FAILED ('' @ resp @ '')''"

definition data_bytes :: "action \<Rightarrow> byte list" where
  "data_bytes a = (case act_data a of Bytes bs \<Rightarrow> bs | _ \<Rightarrow> [])"

definition data_values :: "action \<Rightarrow> string list" where
  "data_values a = (case act_data a of Values vs \<Rightarrow> vs | _ \<Rightarrow> [])"

definition data_text :: "action \<Rightarrow> string" where
  "data_text a = (case act_data a of Text s \<Rightarrow> s | _ \<Rightarrow> [])"

definition cb_default :: "action \<Rightarrow> int \<Rightarrow> string \<Rightarrow> int \<times> string list" where
  "cb_default a status resp =
     (status, if status \<noteq> 0 then [failed_line resp] else [''OKAY''])"

definition cb_check :: "action \<Rightarrow> int \<Rightarrow> string \<Rightarrow> bool \<Rightarrow> int \<times> string list" where
  "cb_check a status resp invert =
     (if status \<noteq> 0 then (status, [failed_line resp])
      else
        let yes = match resp (data_values a);
            yes = (if invert then \<not> yes else yes)
        in if yes then (0, [''OKAY''])
           else (-1, [''FAILED'', ''Device '' @ drop 7 (act_cmd a) @ '' is '' @ quoted resp @ ''.'',
                      ''Update '' @ (if invert then ''rejects '' else ''requires '')
                        @ (case data_values a of
                             [] \<Rightarrow> []
                           | v # vs \<Rightarrow> quoted v @ concat (map (\<lambda>v. '' or '' @ quoted v) vs)) @ ''.'']))"

definition cb_display :: "action \<Rightarrow> int \<Rightarrow> string \<Rightarrow> int \<times> string list" where
  "cb_display a status resp =
     (if status \<noteq> 0 then (status, [act_cmd a @ '' '' @ failed_line resp])
      else (0, [data_text a @ '': '' @ resp]))"

definition cb_do_nothing :: "action \<Rightarrow> int \<Rightarrow> string \<Rightarrow> int \<times> string list" where
  "cb_do_nothing a status resp = (0, [[]])"

definition act_callback :: "action \<Rightarrow> int \<Rightarrow> string \<Rightarrow> int \<times> string list" where
  "act_callback a status resp =
     (case act_func a of
        CbDefault \<Rightarrow> cb_default a status resp
      | CbRequire \<Rightarrow> cb_check a status resp False
      | CbReject \<Rightarrow> cb_check a status resp True
      | CbDisplay \<Rightarrow> cb_display a status resp
      | CbDoNothing \<Rightarrow> cb_do_nothing a status resp)"

text \<open>The body of the loop of \<open>fb_execute_queue\<close>: the status that decides about \<open>break\<close>.\<close>

definition run_action :: "action \<Rightarrow> usb_handle \<Rightarrow> int \<times> string list \<times> usb_handle" where
  "run_action a u =
     (let head = (case act_msg a of None \<Rightarrow> [] | Some m \<Rightarrow> [m @ ''...'']) in
      case act_op a of
        OP_DOWNLOAD \<Rightarrow>
          (case fb_download_data (data_bytes a) (act_size a) u of (status, u) \<Rightarrow>
           case act_callback a status (if status \<noteq> 0 then fb_get_error u else []) of
             (status, out) \<Rightarrow> (status, head @ out, u))
      | OP_COMMAND \<Rightarrow>
          (case fb_command (act_cmd a) u of (status, u) \<Rightarrow>
           case act_callback a status (if status \<noteq> 0 then fb_get_error u else []) of
             (status, out) \<Rightarrow> (status, head @ out, u))
      | OP_QUERY \<Rightarrow>
          (case fb_command_response (act_cmd a) u of (status, resp, u) \<Rightarrow>
           case act_callback a status (if status \<noteq> 0 then fb_get_error u else resp) of
             (status, out) \<Rightarrow> (status, head @ out, u))
      | OP_NOTICE \<Rightarrow> (0, head @ [data_text a], u))"

fun execute_loop :: "action list \<Rightarrow> usb_handle \<Rightarrow> string list \<times> usb_handle" where
  "execute_loop [] u = ([], u)"
| "execute_loop (a # q) u =
     (case run_action a u of (status, out, u) \<Rightarrow>
      if status \<noteq> 0 then (out, u)
      else case execute_loop q u of (out2, u) \<Rightarrow> (out @ out2, u))"

definition fb_execute_queue :: "action list \<Rightarrow> usb_handle \<Rightarrow> string list \<times> usb_handle" where
  "fb_execute_queue q u = (case execute_loop q u of (out, u) \<Rightarrow> (out @ [''finished.''], u))"


subsection \<open>Matching\<close>

lemma match_Cons:
  "match str (val # vals) \<longleftrightarrow>
     val = str \<or> (\<exists>p. p \<noteq> [] \<and> val = p @ ''*'' \<and> (\<exists>r. str = p @ r)) \<or> match str vals"
proof (cases "1 < length val \<and> last val = CHR ''*''")
  case True
  then obtain p where p: "val = p @ ''*''" "p \<noteq> []"
    by (cases val rule: rev_cases) auto
  then show ?thesis
    by (auto simp: Let_def) (metis append_take_drop_id)
next
  case False
  then have "\<not> (\<exists>p. p \<noteq> [] \<and> val = p @ ''*'')" by (auto simp: neq_Nil_conv)
  with False show ?thesis by (auto simp: Let_def)
qed

text \<open>
  A device variable matches a list of allowed values exactly when it equals one of them or
  starts with the non-empty text before the star of one that ends in a star.
\<close>

theorem match_correct:
  "match str vals \<longleftrightarrow>
     (\<exists>v \<in> set vals. v = str \<or> (\<exists>p. p \<noteq> [] \<and> v = p @ ''*'' \<and> (\<exists>r. str = p @ r)))"
proof (induction vals)
  case (Cons v vals)
  then show ?case unfolding match_Cons by auto
qed simp

subsection \<open>Running the queue\<close>

text \<open>The run of actions that all succeed.\<close>

fun run_ok :: "action list \<Rightarrow> usb_handle \<Rightarrow> (string list \<times> usb_handle) option" where
  "run_ok [] u = Some ([], u)"
| "run_ok (a # q) u =
     (case run_action a u of (status, out, u) \<Rightarrow>
      if status \<noteq> 0 then None
      else case run_ok q u of None \<Rightarrow> None | Some (out2, u) \<Rightarrow> Some (out @ out2, u))"

lemma execute_loop_ok:
  "run_ok q1 u = Some (o1, u1) \<Longrightarrow>
   execute_loop (q1 @ q2) u = (case execute_loop q2 u1 of (o2, u2) \<Rightarrow> (o1 @ o2, u2))"
  by (induction q1 arbitrary: u o1)
    (auto split: prod.splits if_splits option.splits)

lemma execute_loop_failing:
  "run_ok q1 u = Some (o1, u1) \<Longrightarrow> run_action a u1 = (st, out, u2) \<Longrightarrow> st \<noteq> 0 \<Longrightarrow>
   execute_loop (q1 @ a # q2) u = (o1 @ out, u2)"
  by (simp add: execute_loop_ok)

text \<open>Either every action succeeds, or there is a first one that fails.\<close>

lemma execute_loop_cases:
  obtains (all_ok) o1 u1 where "run_ok q u = Some (o1, u1)" "execute_loop q u = (o1, u1)"
  | (fails) q1 a q2 o1 u1 st out u2 where "q = q1 @ a # q2" "run_ok q1 u = Some (o1, u1)"
      "run_action a u1 = (st, out, u2)" "st \<noteq> 0" "execute_loop q u = (o1 @ out, u2)"
proof -
  have "(\<exists>o1 u1. run_ok q u = Some (o1, u1) \<and> execute_loop q u = (o1, u1)) \<or>
    (\<exists>q1 a q2 o1 u1 st out u2. q = q1 @ a # q2 \<and> run_ok q1 u = Some (o1, u1) \<and>
      run_action a u1 = (st, out, u2) \<and> st \<noteq> 0)"
  proof (induction q arbitrary: u)
    case (Cons a q)
    obtain st out u' where r: "run_action a u = (st, out, u')" using prod_cases3 by blast
    show ?case
    proof (cases "st = 0")
      case False
      with r show ?thesis by (intro disjI2 exI [of _ "[]"]) auto
    next
      case True
      from Cons [of u'] show ?thesis
      proof (elim disjE exE conjE)
        fix q1 b q2 o1 u1 st2 out2 u2
        assume "q = q1 @ b # q2" "run_ok q1 u' = Some (o1, u1)" "run_action b u1 = (st2, out2, u2)" "st2 \<noteq> 0"
        with True r show ?thesis
          by (intro disjI2 exI [of _ "a # q1"]) auto
      qed (use True r in auto)
    qed
  qed simp
  then show ?thesis
    using all_ok fails execute_loop_failing by blast
qed

text \<open>
  The first action whose status is not zero ends the queue: what follows it is never run, so it
  neither prints nor sends anything.
\<close>

theorem queue_stops_at_failure:
  assumes "run_ok qa u = Some (oa, ua)" "run_action a ua = (st, out, ub)" "st \<noteq> 0"
  shows "fb_execute_queue (qa @ a # qb) u = (oa @ out @ [''finished.''], ub)"
  by (simp add: fb_execute_queue_def execute_loop_failing [OF assms])

theorem queue_stops_at_failure_witness:
  "u_out (snd (fb_execute_queue
      (\<lparr>act_op = OP_COMMAND, act_cmd = ''erase:boot'', act_data = NoData, act_size = 0,
        act_msg = None, act_func = CbDefault\<rparr>
       # [\<lparr>act_op = OP_COMMAND, act_cmd = ''reboot'', act_data = NoData, act_size = 0,
        act_msg = None, act_func = CbDefault\<rparr>])
      \<lparr>u_in = [Some ''FAILno''], u_wr = [], u_out = [], u_closed = False, u_info = [], u_error = None\<rparr>))
   = [''erase:boot'']"
proof -
  let ?a = "\<lparr>act_op = OP_COMMAND, act_cmd = ''erase:boot'', act_data = NoData, act_size = 0,
        act_msg = None, act_func = CbDefault\<rparr>"
  let ?u = "\<lparr>u_in = [Some ''FAILno''], u_wr = [], u_out = [], u_closed = False, u_info = [], u_error = None\<rparr>"
  have "run_action ?a ?u = (-1, [''FAILED (remote: no)''],
      \<lparr>u_in = [], u_wr = [], u_out = [''erase:boot''], u_closed = False, u_info = [],
       u_error = Some (RemoteError ''no'')\<rparr>)"
    by code_simp
  from queue_stops_at_failure [where qa = "[]", OF _ this] show ?thesis by simp
qed


subsection \<open>What reaches the wire\<close>

text \<open>The packets of an action that was carried out; a download may be cut by the bootloader.\<close>

definition wire_of :: "action \<Rightarrow> byte list list \<Rightarrow> bool" where
  "wire_of a outs \<longleftrightarrow>
     (case act_op a of
        OP_NOTICE \<Rightarrow> outs = []
      | OP_DOWNLOAD \<Rightarrow> (\<exists>n \<le> unat (act_size a). outs =
          (''download:'' @ fmt_x 8 (unat (act_size a))) # (if n = 0 then [] else [take n (data_bytes a)]))
      | _ \<Rightarrow> outs = [act_cmd a])"

lemma command_send_out:
  assumes "command_send cmd data sz u = (r, s, u')"
  shows "\<exists>more. u_out u' = u_out u @ more \<and> length more \<le> 2"
proof -
  have w: "\<exists>x. u_out b = u_out a @ x \<and> length x \<le> 1" if "usb_write bs a = (n, b)" for bs a b n
    using that by (auto simp: usb_write_def split: if_splits list.splits option.splits)
  obtain n u1 where w1: "usb_write cmd u = (n, u1)" by fastforce
  obtain x where x: "u_out u1 = u_out u @ x" "length x \<le> 1" using w [OF w1] by blast
  obtain r1 s1 u2 where c1: "check_response sz True u1 = (r1, s1, u2)" using prod_cases3 by blast
  obtain r0 s0 u0 where c0: "check_response sz False u1 = (r0, s0, u0)" using prod_cases3 by blast
  obtain m u3 where w2: "usb_write (take (nat r1) (the data)) u2 = (m, u3)" by fastforce
  obtain y where y: "u_out u3 = u_out u2 @ y" "length y \<le> 1" using w [OF w2] by blast
  have c: "u_out d = u_out a" if "check_response k False a = (e, f, d)" for k a e f d
    using check_response_out [OF that] by simp
  have cs: "u_out (usb_close a) = u_out a" "u_out (set_error e a) = u_out a" for a e
    by (simp_all add: usb_close_def set_error_def)
  have "u_out u' = u_out u \<or> u_out u' = u_out u1 \<or> u_out u' = u_out u3"
    using assms w1 w2 c1 c0 check_response_out [OF c1] check_response_out [OF c0]
    by (auto simp: command_send_def cs dest!: c split: if_splits option.splits prod.splits)
  then show ?thesis
    using x y check_response_out [OF c1] by (elim disjE) auto
qed

lemma run_action_out:
  assumes "run_action a u = (st, out, u')"
  shows "\<exists>more. u_out u' = u_out u @ more \<and> length more \<le> 2"
  using assms
  by (cases "act_op a")
    (auto simp: run_action_def fb_download_data_def fb_command_def fb_command_response_def Let_def
      dest!: command_send_out split: prod.splits)

lemma act_callback_zero:
  assumes "act_callback a status resp = (0, out)" "act_func a \<noteq> CbDoNothing"
  shows "status = 0"
  using assms
  by (cases "act_func a")
    (auto simp: act_callback_def cb_default_def cb_check_def cb_display_def Let_def split: if_splits)

lemma run_action_wire:
  assumes "run_action a u = (0, out, u')" "act_func a \<noteq> CbDoNothing"
  shows "\<exists>outs. wire_of a outs \<and> u_out u' = u_out u @ outs"
proof (cases "act_op a")
  case OP_DOWNLOAD
  obtain st u2 where d: "fb_download_data (data_bytes a) (act_size a) u = (st, u2)" by fastforce
  with assms OP_DOWNLOAD have "st = 0" "u2 = u'"
    by (auto simp: run_action_def Let_def split: prod.splits dest!: act_callback_zero)
  with d obtain r s where "command_send (''download:'' @ fmt_x 8 (unat (act_size a)))
      (Some (data_bytes a)) (act_size a) u = (r, s, u')" "0 \<le> r"
    by (auto simp: fb_download_data_def split: prod.splits if_splits)
  from command_send_nonneg [OF this] OP_DOWNLOAD show ?thesis
    by (auto simp: wire_of_def)
next
  case OP_NOTICE
  with assms show ?thesis by (simp add: run_action_def wire_of_def)
next
  case OP_COMMAND
  with assms obtain r s where c: "command_send (act_cmd a) None 0 u = (r, s, u')" "r = 0"
    by (auto simp: run_action_def Let_def fb_command_def split: prod.splits dest!: act_callback_zero)
  with command_send_nonneg [OF c(1)] OP_COMMAND show ?thesis by (auto simp: wire_of_def)
next
  case OP_QUERY
  with assms obtain r s where c: "command_send (act_cmd a) None 0 u = (r, s, u')" "r = 0"
    by (auto simp: run_action_def Let_def fb_command_response_def split: prod.splits dest!: act_callback_zero)
  with command_send_nonneg [OF c(1)] OP_QUERY show ?thesis by (auto simp: wire_of_def)
qed

lemma run_ok_wire:
  "run_ok q u = Some (o1, u') \<Longrightarrow> list_all (\<lambda>a. act_func a \<noteq> CbDoNothing) q \<Longrightarrow>
   \<exists>outs. list_all2 wire_of q outs \<and> u_out u' = u_out u @ concat outs"
proof (induction q arbitrary: u o1)
  case (Cons a q)
  then obtain out u1 o2 where r: "run_action a u = (0, out, u1)" "run_ok q u1 = Some (o2, u')"
    by (auto split: prod.splits if_splits option.splits)
  obtain x where "wire_of a x" "u_out u1 = u_out u @ x"
    using run_action_wire [OF r(1)] Cons.prems by auto
  moreover obtain outs where "list_all2 wire_of q outs" "u_out u' = u_out u1 @ concat outs"
    using Cons.IH [OF r(2)] Cons.prems by auto
  ultimately show ?case by (intro exI [of _ "x # outs"]) simp
qed simp

text \<open>
  The queue is first-in first-out: for some number of actions that were carried out, the wire
  shows their packets in queue order; after them at most the two packets of the action that failed,
  and nothing at all when every action was carried out. (Only the final reboot ignores its status.)
\<close>

theorem queue_is_fifo:
  assumes "list_all (\<lambda>a. act_func a \<noteq> CbDoNothing) q"
  shows "\<exists>k outs rest. k \<le> length q \<and> list_all2 wire_of (take k q) outs
    \<and> u_out (snd (fb_execute_queue q u)) = u_out u @ concat outs @ rest
    \<and> length rest \<le> 2 \<and> (k = length q \<longrightarrow> rest = [])"
proof (cases rule: execute_loop_cases [of q u])
  case (all_ok o1 u1)
  with run_ok_wire [OF all_ok(1) assms] show ?thesis
    by (auto simp: fb_execute_queue_def intro!: exI [of _ "length q"])
next
  case (fails q1 a q2 o1 u1 st out u2)
  obtain outs where "list_all2 wire_of q1 outs" "u_out u1 = u_out u @ concat outs"
    using run_ok_wire [OF fails(2)] assms fails(1) by auto
  moreover obtain more where "u_out u2 = u_out u1 @ more" "length more \<le> 2"
    using run_action_out [OF fails(3)] by blast
  ultimately show ?thesis
    using fails by (intro exI [of _ "length q1"] exI [of _ outs] exI [of _ more])
      (auto simp: fb_execute_queue_def)
qed

definition erase_action :: "string \<Rightarrow> action" where
  "erase_action ptn = \<lparr>act_op = OP_COMMAND, act_cmd = ''erase:'' @ ptn, act_data = NoData, act_size = 0,
     act_msg = None, act_func = CbDefault\<rparr>"

theorem queue_is_fifo_witness:
  "\<exists>k outs rest. k \<le> length [erase_action ''boot'', erase_action ''cache'']
    \<and> list_all2 wire_of (take k [erase_action ''boot'', erase_action ''cache'']) outs
    \<and> u_out (snd (fb_execute_queue [erase_action ''boot'', erase_action ''cache'']
         \<lparr>u_in = [Some ''OKAY'', Some ''FAIL''], u_wr = [], u_out = [], u_closed = False,
          u_info = [], u_error = None\<rparr>)) = concat outs @ rest
    \<and> length rest \<le> 2 \<and> (k = length [erase_action ''boot'', erase_action ''cache''] \<longrightarrow> rest = [])"
proof -
  have "list_all (\<lambda>a. act_func a \<noteq> CbDoNothing) [erase_action ''boot'', erase_action ''cache'']"
    by (simp add: erase_action_def)
  from queue_is_fifo [OF this, of "\<lparr>u_in = [Some ''OKAY'', Some ''FAIL''], u_wr = [], u_out = [],
      u_closed = False, u_info = [], u_error = None\<rparr>"]
  show ?thesis unfolding usb_handle.simps append_Nil .
qed

text \<open>
  C20: An unmet requirement protects the device: when the answer to the \<open>getvar\<close> of a requirement is
  not acceptable (no value matches, or for a rejection one does), nothing queued after it is sent.
\<close>

theorem unmet_requirement_stops:
  assumes "fb_queue_require var invert vals qa = Inr (qa @ [a])"
    and "run_ok qa u = Some (oa, ua)"
    and "fb_command_response (''getvar:'' @ var) ua = (0, resp, ub)"
    and "match resp vals = invert"
  shows "snd (fb_execute_queue (qa @ a # qb) u) = ub
    \<and> u_out ub = u_out ua @ [''getvar:'' @ var]"
proof -
  have a: "act_op a = OP_QUERY" "act_cmd a = ''getvar:'' @ var" "data_values a = vals"
    "act_func a = (if invert then CbReject else CbRequire)"
    using assms(1) by (auto simp: fb_queue_require_def queue_action_def data_values_def split: if_splits)
  obtain out where "run_action a ua = (-1, out, ub)"
    using a assms(3,4)
    by (auto simp: run_action_def act_callback_def cb_check_def Let_def)
  from execute_loop_failing [OF assms(2) this]
  have "snd (fb_execute_queue (qa @ a # qb) u) = ub"
    by (simp add: fb_execute_queue_def)
  then show ?thesis
    using command_send_nonneg [of "''getvar:'' @ var" None 0 ua 0 resp ub] assms(3)
    by (simp add: fb_command_response_def)
qed

theorem unmet_requirement_stops_witness:
  "\<exists>a. fb_queue_require ''product'' False [''mahimahi'', ''passion*''] [] = Inr [a]
    \<and> u_out (snd (fb_execute_queue [a, erase_action ''boot'']
         \<lparr>u_in = [Some ''OKAYdream'', Some ''OKAY''], u_wr = [], u_out = [], u_closed = False,
          u_info = [], u_error = None\<rparr>)) = [''getvar:product'']"
proof -
  let ?u = "\<lparr>u_in = [Some ''OKAYdream'', Some ''OKAY''], u_wr = [], u_out = [], u_closed = False,
          u_info = [], u_error = None\<rparr>"
  have q: "\<exists>a. fb_queue_require ''product'' False [''mahimahi'', ''passion*''] [] = Inr ([] @ [a])"
    by (simp add: fb_queue_require_def queue_action_def)
  then obtain a where a: "fb_queue_require ''product'' False [''mahimahi'', ''passion*''] [] = Inr ([] @ [a])"
    by blast
  have r: "fb_command_response (''getvar:'' @ ''product'') ?u =
      (0, ''dream'', \<lparr>u_in = [Some ''OKAY''], u_wr = [], u_out = [''getvar:product''], u_closed = False,
          u_info = [], u_error = None\<rparr>)"
    by code_simp
  have m: "match ''dream'' [''mahimahi'', ''passion*''] = False" by code_simp
  show ?thesis
    using unmet_requirement_stops [OF a _ r m, of ?u "[]" "[erase_action ''boot'']"] a by auto
qed

end
