(* ===== verification/Cio.thy ===== *)
theory Cio
  imports Prelude
begin

text \<open>
  File descriptors as the programs see them, and the loops \<open>readx\<close>, \<open>writex\<close>
  (src/tools/adb/transport.c) that turn partial reads and writes into exact ones.
  What the kernel does is a script: for reads a list of chunks and errors that later
  \<open>read\<close> calls meet, for writes a list of accepted counts and errors. The loops are shown to
  depend only on the byte stream, never on how it is cut into chunks or interrupted.
\<close>

subsection \<open>The descriptor and its system calls\<close>

datatype errno = EINTR | EAGAIN | EIO | ENOENT | EEXIST | EACCES | ENOSPC | ELOOP

record fdesc =
  fd_in :: "(errno + byte list) list"
  fd_wr :: "(errno + nat) list"
  fd_out :: "byte list"

text \<open>
  \<open>read(fd, p, n)\<close>: the next event of the script. A chunk longer than the request is delivered
  in parts; an empty chunk and the end of the script are the end of the file.
\<close>

definition sys_read :: "nat \<Rightarrow> fdesc \<Rightarrow> (errno + byte list) \<times> fdesc" where
  "sys_read n f =
     (case fd_in f of
        [] \<Rightarrow> (Inr [], f)
      | Inl e # sc \<Rightarrow> (Inl e, f\<lparr>fd_in := sc\<rparr>)
      | Inr bs # sc \<Rightarrow>
          (Inr (take n bs),
           f\<lparr>fd_in := (if n < length bs then Inr (drop n bs) # sc else sc)\<rparr>))"

text \<open>\<open>write(fd, p, n)\<close>: past the end of the script everything is accepted.\<close>

definition sys_write :: "byte list \<Rightarrow> fdesc \<Rightarrow> (errno + nat) \<times> fdesc" where
  "sys_write bs f =
     (case fd_wr f of
        [] \<Rightarrow> (Inr (length bs), f\<lparr>fd_out := fd_out f @ bs\<rparr>)
      | Inl e # sc \<Rightarrow> (Inl e, f\<lparr>fd_wr := sc\<rparr>)
      | Inr k # sc \<Rightarrow>
          (Inr (min k (length bs)), f\<lparr>fd_wr := sc, fd_out := fd_out f @ take k bs\<rparr>))"

subsection \<open>Exact reads and writes\<close>

lemma sys_read_progress:
  assumes "sys_read n f = (r, f')" "0 < n"
  shows "case r of
           Inl e \<Rightarrow> length (fd_in f') < length (fd_in f)
         | Inr bs \<Rightarrow> length bs \<le> n \<and> (bs \<noteq> [] \<longrightarrow> length (fd_in f') \<le> length (fd_in f))"
  using assms by (auto simp: sys_read_def split: list.splits sum.splits if_splits)

lemma sys_write_progress:
  assumes "sys_write bs f = (r, f')"
  shows "length (fd_wr f') < length (fd_wr f) \<or> r = Inr (length bs) \<and> fd_wr f' = fd_wr f"
  using assms by (auto simp: sys_write_def split: list.splits sum.splits)

function readx :: "nat \<Rightarrow> fdesc \<Rightarrow> byte list option \<times> fdesc" where
  "readx len f =
     (if len = 0 then (Some [], f)
      else case sys_read len f of
             (Inr bs, f') \<Rightarrow>
               if bs = [] then (None, f')
               else (case readx (len - length bs) f' of
                       (Some r, f'') \<Rightarrow> (Some (bs @ r), f'')
                     | (None, f'') \<Rightarrow> (None, f''))
           | (Inl e, f') \<Rightarrow> if e = EINTR then readx len f' else (None, f'))"
  by pat_completeness auto
termination
proof (relation "measure (\<lambda>(len, f). len + length (fd_in f))", goal_cases)
  case (3 len f r f' bs)
  then show ?case using sys_read_progress [of len f "Inr bs" f'] by (cases bs) auto
next
  case (2 len f r f' e)
  then show ?case using sys_read_progress [of len f "Inl e" f'] by auto
qed simp

declare readx.simps [simp del]

function writex :: "byte list \<Rightarrow> fdesc \<Rightarrow> bool \<times> fdesc" where
  "writex bs f =
     (if bs = [] then (True, f)
      else case sys_write bs f of
             (Inr k, f') \<Rightarrow> if 0 < k then writex (drop k bs) f' else (False, f')
           | (Inl e, f') \<Rightarrow> if e = EINTR then writex bs f' else (False, f'))"
  by pat_completeness auto
termination
proof (relation "measure (\<lambda>(bs, f). length (fd_wr f) + length bs)", goal_cases)
  case (3 bs f r f' k)
  then show ?case using sys_write_progress [of bs f "Inr k" f'] by auto
next
  case (2 bs f r f' e)
  then show ?case using sys_write_progress [of bs f "Inl e" f'] by auto
qed simp

declare writex.simps [simp del]

subsection \<open>The byte stream behind a script\<close>

text \<open>The bytes that reads deliver before the first end of file or error other than \<open>EINTR\<close>.\<close>

fun avail :: "(errno + byte list) list \<Rightarrow> byte list" where
  "avail [] = []"
| "avail (Inl e # sc) = (if e = EINTR then avail sc else [])"
| "avail (Inr bs # sc) = (if bs = [] then [] else bs @ avail sc)"

definition pending_in :: "fdesc \<Rightarrow> byte list" where
  "pending_in f = avail (fd_in f)"

lemma sys_read_data:
  assumes "sys_read n f = (Inr bs, f')" "0 < n"
  shows "pending_in f = bs @ (if bs = [] then [] else pending_in f')"
    and "fd_out f' = fd_out f" "fd_wr f' = fd_wr f" "length bs \<le> n"
  using assms
  by (auto simp: sys_read_def pending_in_def split: list.splits sum.splits if_splits)

lemma sys_read_error:
  assumes "sys_read n f = (Inl e, f')"
  shows "pending_in f = (if e = EINTR then pending_in f' else [])"
    and "fd_out f' = fd_out f" "fd_wr f' = fd_wr f"
  using assms by (auto simp: sys_read_def pending_in_def split: list.splits sum.splits if_splits)

lemma readx_stream:
  "n \<le> length (pending_in f) \<Longrightarrow>
   \<exists>f'. readx n f = (Some (take n (pending_in f)), f') \<and> pending_in f' = drop n (pending_in f)
        \<and> fd_out f' = fd_out f \<and> fd_wr f' = fd_wr f"
proof (induction n f rule: readx.induct)
  case (1 n f)
  show ?case
  proof (cases "n = 0")
    case True
    then show ?thesis by (simp add: readx.simps)
  next
    case False
    obtain r f1 where rd: "sys_read n f = (r, f1)" by fastforce
    show ?thesis
    proof (cases r)
      case (Inl e)
      note er = sys_read_error [OF rd [unfolded Inl]]
      have "e = EINTR" using er(1) "1.prems" False by (auto split: if_splits)
      with "1.IH"(1) [OF False rd [symmetric] Inl] "1.prems" er show ?thesis
        using rd Inl False by (auto simp: readx.simps [of n f])
    next
      case (Inr bs)
      note da = sys_read_data [OF rd [unfolded Inr] ]
      have ne: "bs \<noteq> []" using da "1.prems" False by auto
      have len: "n - length bs \<le> length (pending_in f1)"
        using da(1) "1.prems" False ne by auto
      obtain f2 where "readx (n - length bs) f1 = (Some (take (n - length bs) (pending_in f1)), f2)"
        "pending_in f2 = drop (n - length bs) (pending_in f1)"
        "fd_out f2 = fd_out f1" "fd_wr f2 = fd_wr f1"
        using "1.IH"(2) [OF False rd [symmetric] Inr ne] len by blast
      with da False ne rd Inr show ?thesis
        by (auto simp: readx.simps [of n f])
    qed
  qed
qed

lemma readx_short: "length (pending_in f) < n \<Longrightarrow> fst (readx n f) = None"
proof (induction n f rule: readx.induct)
  case (1 n f)
  then have n: "n \<noteq> 0" by auto
  obtain r f1 where rd: "sys_read n f = (r, f1)" by fastforce
  show ?case
  proof (cases r)
    case (Inl e)
    with "1.IH"(1) [OF n rd [symmetric] Inl] "1.prems" sys_read_error(1) [OF rd [unfolded Inl]] n rd
    show ?thesis by (auto simp: readx.simps [of n f] split: if_splits)
  next
    case (Inr bs)
    have "length (pending_in f1) < n - length bs" if "bs \<noteq> []"
      using that "1.prems" sys_read_data(1) [OF rd [unfolded Inr]] n by auto
    then have "fst (readx (n - length bs) f1) = None" if "bs \<noteq> []"
      using "1.IH"(2) [OF n rd [symmetric] Inr that] that by blast
    then show ?thesis
      using Inr n rd
      by (cases "bs = []") (auto simp: readx.simps [of n f] split: if_splits option.splits prod.splits)
  qed
qed

lemma readx_io: "readx n f = (r, f') \<Longrightarrow> fd_out f' = fd_out f \<and> fd_wr f' = fd_wr f"
proof (induction n f arbitrary: r f' rule: readx.induct)
  case (1 n f)
  obtain q f1 where rd: "sys_read n f = (q, f1)" by fastforce
  show ?case
  proof (cases "n = 0")
    case True
    with "1.prems" show ?thesis by (simp add: readx.simps)
  next
    case n: False
    show ?thesis
    proof (cases q)
      case (Inl e)
      then show ?thesis
        using "1.IH"(1) [OF n rd [symmetric] Inl] "1.prems" sys_read_error(2,3) [OF rd [unfolded Inl]] n rd
        by (auto simp: readx.simps [of n f] split: if_splits)
    next
      case (Inr bs)
      then show ?thesis
        using "1.IH"(2) [OF n rd [symmetric] Inr] "1.prems" sys_read_data(2,3) [OF rd [unfolded Inr]] n rd
        by (auto simp: readx.simps [of n f] split: if_splits option.splits prod.splits)
    qed
  qed
qed

subsection \<open>Writing\<close>

fun write_ok :: "errno + nat \<Rightarrow> bool" where
  "write_ok (Inl e) \<longleftrightarrow> e = EINTR"
| "write_ok (Inr k) \<longleftrightarrow> 0 < k"

lemma writex_out:
  "\<exists>p q. bs = p @ q \<and> fd_out (snd (writex bs f)) = fd_out f @ p
        \<and> (fst (writex bs f) \<longleftrightarrow> q = []) \<and> fd_in (snd (writex bs f)) = fd_in f"
proof (induction bs f rule: writex.induct)
  case (1 bs f)
  obtain r f1 where w: "sys_write bs f = (r, f1)" by fastforce
  show ?case
  proof (cases "bs = []")
    case True
    then show ?thesis by (simp add: writex.simps)
  next
    case ne: False
    show ?thesis
    proof (cases r)
      case (Inl e)
      have "fd_out f1 = fd_out f" "fd_in f1 = fd_in f"
        using w Inl by (auto simp: sys_write_def split: list.splits sum.splits)
      then show ?thesis
        using "1.IH"(1) [OF ne w [symmetric] Inl] ne w Inl by (auto simp: writex.simps [of bs f])
    next
      case (Inr k)
      have o: "fd_out f1 = fd_out f @ take k bs" "fd_in f1 = fd_in f" "k \<le> length bs"
        using w Inr by (auto simp: sys_write_def min_def split: list.splits sum.splits)
      show ?thesis
      proof (cases "0 < k")
        case True
        then obtain p q where pq: "drop k bs = p @ q"
          "fd_out (snd (writex (drop k bs) f1)) = fd_out f1 @ p"
          "fst (writex (drop k bs) f1) \<longleftrightarrow> q = []" "fd_in (snd (writex (drop k bs) f1)) = fd_in f1"
          using "1.IH"(2) [OF ne w [symmetric] Inr] by blast
        have "bs = take k bs @ drop k bs" by simp
        then have "bs = (take k bs @ p) @ q" using pq(1) by simp
        moreover have "writex bs f = writex (drop k bs) f1"
          using True ne w Inr by (simp add: writex.simps [of bs f])
        ultimately show ?thesis
          using o pq by (intro exI [of _ "take k bs @ p"] exI [of _ q]) simp
      next
        case False
        then show ?thesis using ne w Inr o by (auto simp: writex.simps [of bs f])
      qed
    qed
  qed
qed

lemma writex_succeeds: "list_all write_ok (fd_wr f) \<Longrightarrow> fst (writex bs f) \<and> list_all write_ok (fd_wr (snd (writex bs f)))"
proof (induction bs f rule: writex.induct)
  case (1 bs f)
  obtain r f1 where w: "sys_write bs f = (r, f1)" by fastforce
  show ?case
  proof (cases "bs = []")
    case True
    with 1 show ?thesis by (simp add: writex.simps)
  next
    case ne: False
    have "list_all write_ok (fd_wr f1) \<and> write_ok r"
      using w "1.prems" ne by (auto simp: sys_write_def split: list.splits sum.splits)
    with "1.IH" [OF ne w [symmetric]] w ne show ?thesis
      by (cases r) (auto simp: writex.simps [of bs f])
  qed
qed

lemma writex_True: "writex bs f = (True, f') \<Longrightarrow> fd_out f' = fd_out f @ bs \<and> fd_in f' = fd_in f"
  using writex_out [of bs f] by auto

end
