(* ===== verification/Bootimg.thy ===== *)
theory Bootimg
  imports Sha Clib Cio "HOL-Library.Monad_Syntax"
begin

text \<open>
  The boot image builders: the command-line tool src/tools/mkbootimg/mkbootimg.c, which writes
  the header, kernel, ramdisk and second stage to a file, and the in-memory builder
  src/tools/fastboot/bootimg.c that \<open>fastboot boot\<close> uses. Both share the header of bootimg.h.
  The build is the one of the Makefile (GENERIC is not defined, so the load addresses come from
  include/boot/boardconfig.h); the host is little-endian.
\<close>

subsection \<open>The header\<close>

abbreviation BOOT_MAGIC :: string where "BOOT_MAGIC \<equiv> ''ANDROID!''"
abbreviation BOOT_NAME_SIZE :: nat where "BOOT_NAME_SIZE \<equiv> 16"
abbreviation BOOT_ARGS_SIZE :: nat where "BOOT_ARGS_SIZE \<equiv> 512"

text \<open>The array \<open>id\<close> of eight words is only filled as bytes, so it is kept as its 32 bytes.\<close>

record boot_img_hdr =
  magic :: "byte list"
  kernel_size :: u32
  kernel_addr :: u32
  ramdisk_size :: u32
  ramdisk_addr :: u32
  second_size :: u32
  second_addr :: u32
  tags_addr :: u32
  page_size :: u32
  hdr_unused :: "u32 list"
  hdr_name :: "byte list"
  hdr_cmdline :: "byte list"
  hdr_id :: "byte list"

definition zeros :: "nat \<Rightarrow> byte list" where
  "zeros n = replicate n (CHR 0x00)"

lemma length_zeros [simp]: "length (zeros n) = n"
  by (simp add: zeros_def)

lemma zeros_0 [simp]: "zeros 0 = []"
  by (simp add: zeros_def)

lemma zeros_add: "zeros m @ zeros n = zeros (m + n)"
  by (simp add: zeros_def replicate_add)

text \<open>The header after \<open>memset(&hdr, 0, sizeof(hdr))\<close>, and its bytes in memory.\<close>

definition zero_hdr :: boot_img_hdr where
  "zero_hdr = \<lparr>magic = zeros 8, kernel_size = 0, kernel_addr = 0, ramdisk_size = 0,
     ramdisk_addr = 0, second_size = 0, second_addr = 0, tags_addr = 0, page_size = 0,
     hdr_unused = [0, 0], hdr_name = zeros BOOT_NAME_SIZE, hdr_cmdline = zeros BOOT_ARGS_SIZE,
     hdr_id = zeros 32\<rparr>"

definition hdr_bytes :: "boot_img_hdr \<Rightarrow> byte list" where
  "hdr_bytes h = magic h @ le32 (kernel_size h) @ le32 (kernel_addr h)
     @ le32 (ramdisk_size h) @ le32 (ramdisk_addr h) @ le32 (second_size h) @ le32 (second_addr h)
     @ le32 (tags_addr h) @ le32 (page_size h) @ concat (map le32 (hdr_unused h))
     @ hdr_name h @ hdr_cmdline h @ hdr_id h"

definition hdr_wf :: "boot_img_hdr \<Rightarrow> bool" where
  "hdr_wf h \<longleftrightarrow> length (magic h) = 8 \<and> length (hdr_unused h) = 2
     \<and> length (hdr_name h) = BOOT_NAME_SIZE \<and> length (hdr_cmdline h) = BOOT_ARGS_SIZE
     \<and> length (hdr_id h) = 32"

lemma length_hdr_bytes [simp]: "hdr_wf h \<Longrightarrow> length (hdr_bytes h) = 608"
  by (auto simp: hdr_bytes_def hdr_wf_def length_concat comp_def sum_list_triv)

text \<open>\<open>memcpy\<close>/\<open>strcpy\<close> to the start of a field of fixed size.\<close>

definition overwrite :: "byte list \<Rightarrow> byte list \<Rightarrow> byte list" where
  "overwrite field bs = bs @ drop (length bs) field"

lemma length_overwrite [simp]: "length bs \<le> length field \<Longrightarrow> length (overwrite field bs) = length field"
  by (simp add: overwrite_def)

subsection \<open>mkbootimg: loading files, padding\<close>

text \<open>What the calls of \<open>load_file\<close> return for a file: \<open>open\<close>, the two \<open>lseek\<close>, \<open>malloc\<close>, \<open>read\<close>.\<close>

record file_env =
  fe_open :: bool
  fe_end :: int
  fe_rewind :: int
  fe_malloc :: "nat \<Rightarrow> bool"
  fe_read :: "nat \<Rightarrow> byte list option"

definition load_file :: "file_env \<Rightarrow> byte list option" where
  "load_file fe =
     (if \<not> fe_open fe then None
      else let sz = to_int32 (fe_end fe) in
           if sz < 0 then None
           else if fe_rewind fe \<noteq> 0 then None
           else if \<not> fe_malloc fe (nat sz) then None
           else case fe_read fe (nat sz) of
                  None \<Rightarrow> None
                | Some bs \<Rightarrow> if int (length bs) = sz then Some bs else None)"

text \<open>\<open>write(fd, p, n) != n\<close> is failure; \<open>Inl\<close> holds the descriptor as the failure left it.\<close>

definition write_exact :: "byte list \<Rightarrow> fdesc \<Rightarrow> fdesc + fdesc" where
  "write_exact bs f =
     (case sys_write bs f of
        (Inr n, f') \<Rightarrow> if n = length bs then Inr f' else Inl f'
      | (Inl _, f') \<Rightarrow> Inl f')"

definition mk_padding :: "byte list" where
  "mk_padding = zeros 8192"

text \<open>
  A count beyond the array \<open>padding\<close> would read past it; the model lets that write fail, and
  the image property below shows that it never happens.
\<close>

definition write_padding :: "u32 \<Rightarrow> u32 \<Rightarrow> fdesc \<Rightarrow> fdesc + fdesc" where
  "write_padding pagesize itemsize f =
     (let pagemask = pagesize - 1 in
      if itemsize AND pagemask = 0 then Inr f
      else let count = pagesize - (itemsize AND pagemask) in
           if 8192 < count then Inl f else write_exact (take (unat count) mk_padding) f)"

definition write_page_padding :: "u32 \<Rightarrow> u32 \<Rightarrow> fdesc \<Rightarrow> fdesc + fdesc" where
  "write_page_padding pagesize itemsize f =
     (let pagecount = itemsize div pagesize;
          pagecount = (if itemsize mod pagesize \<noteq> 0 then pagecount + 1 else pagecount)
      in if pagecount mod 2 = 0 then Inr f
         else if 8192 < pagesize then Inl f
         else write_exact (take (unat pagesize) mk_padding) f)"

subsection \<open>mkbootimg: the command line\<close>

record mk_args =
  a_bootimg :: "string option"
  a_kernel :: "string option"
  a_ramdisk :: "string option"
  a_second :: "string option"
  a_cmdline :: string
  a_board :: string
  a_hdr :: boot_img_hdr

definition mk_pagesize :: u32 where
  "mk_pagesize = 2048"

definition default_args :: mk_args where
  "default_args = \<lparr>a_bootimg = None, a_kernel = None, a_ramdisk = None, a_second = None,
     a_cmdline = [], a_board = [],
     a_hdr = zero_hdr\<lparr>kernel_addr := 0x10008000, ramdisk_addr := 0x11000000,
       second_addr := 0x10F00000, tags_addr := 0x10000100, page_size := mk_pagesize\<rparr>\<rparr>"

fun parse_args :: "string list \<Rightarrow> mk_args \<Rightarrow> mk_args option" where
  "parse_args [] a = Some a"
| "parse_args [arg] a = None"
| "parse_args (arg # val # rest) a =
     (if arg = ''--output'' \<or> arg = ''-o'' then parse_args rest (a\<lparr>a_bootimg := Some val\<rparr>)
      else if arg = ''--kernel'' then parse_args rest (a\<lparr>a_kernel := Some val\<rparr>)
      else if arg = ''--ramdisk'' then parse_args rest (a\<lparr>a_ramdisk := Some val\<rparr>)
      else if arg = ''--second'' then parse_args rest (a\<lparr>a_second := Some val\<rparr>)
      else if arg = ''--cmdline'' then parse_args rest (a\<lparr>a_cmdline := val\<rparr>)
      else if arg = ''--base'' then
        (let base = ucast (strtoul 16 val) in
         parse_args rest
           (a\<lparr>a_hdr := (a_hdr a)\<lparr>kernel_addr := base + 0x00008000,
               ramdisk_addr := base + 0x01000000, second_addr := base + 0x00F00000,
               tags_addr := base + 0x00000100\<rparr>\<rparr>))
      else if arg = ''--board'' then parse_args rest (a\<lparr>a_board := val\<rparr>)
      else None)"

subsection \<open>mkbootimg: building the image\<close>

text \<open>
  The environment: the files by name, the three bytes of state a fresh hash context has, whether
  the output can be created, the script of its writes and whether it can be unlinked after a failed
  one. The result is how \<open>main\<close> ends and the output file it leaves (None: not created, or removed).
\<close>

record mk_env =
  me_files :: "string \<Rightarrow> file_env"
  me_ctx :: SHA_CTX
  me_create :: bool
  me_writes :: "(errno + nat) list"
  me_unlink :: bool

datatype mk_exit = Usage string | Failed string | Done

definition board_addrs :: "boot_img_hdr \<Rightarrow> boot_img_hdr" where
  "board_addrs h = h\<lparr>kernel_addr := 0x00200000 + 0x00008000,
     ramdisk_addr := 0x00200000 + 0x01000000, second_addr := 0x00200000 + 0x00F00000,
     tags_addr := 0x00200000 + 0x00000100, page_size := mk_pagesize\<rparr>"

definition image_id :: "SHA_CTX \<Rightarrow> byte list \<Rightarrow> byte list \<Rightarrow> byte list \<Rightarrow> boot_img_hdr \<Rightarrow> byte list" where
  "image_id ctx kdata ramdisk second h =
     (let ctx = SHA_init ctx;
          ctx = SHA_update ctx kdata;
          ctx = SHA_update ctx (le32 (kernel_size h));
          ctx = SHA_update ctx ramdisk;
          ctx = SHA_update ctx (le32 (ramdisk_size h));
          ctx = SHA_update ctx second;
          ctx = SHA_update ctx (le32 (second_size h))
      in take 20 (sha_buf (SHA_final ctx)))"

definition write_image ::
  "boot_img_hdr \<Rightarrow> byte list \<Rightarrow> byte list \<Rightarrow> byte list option \<Rightarrow> fdesc \<Rightarrow> fdesc + fdesc" where
  "write_image h kdata ramdisk second f =
     andthen (write_exact (hdr_bytes h) f) (\<lambda>f.
     andthen (write_padding mk_pagesize 608 f) (\<lambda>f.
     andthen (write_page_padding mk_pagesize 608 f) (\<lambda>f.
     andthen (write_exact kdata f) (\<lambda>f.
     andthen (write_padding mk_pagesize (kernel_size h) f) (\<lambda>f.
     andthen (write_page_padding mk_pagesize (kernel_size h) f) (\<lambda>f.
     andthen (write_exact ramdisk f) (\<lambda>f.
     andthen (write_padding mk_pagesize (ramdisk_size h) f) (\<lambda>f.
     andthen (write_page_padding mk_pagesize (ramdisk_size h) f) (\<lambda>f.
     case second of
       None \<Rightarrow> Inr f
     | Some data \<Rightarrow>
         andthen (write_exact data f) (\<lambda>f.
         andthen (write_padding mk_pagesize (ramdisk_size h) f) (\<lambda>f.
         write_page_padding mk_pagesize (ramdisk_size h) f)))))))))))"

text \<open>The header before the files are loaded, and with their sizes and hash.\<close>

definition prepare_hdr :: "mk_args \<Rightarrow> boot_img_hdr" where
  "prepare_hdr a =
     (let h = a_hdr a;
          h = h\<lparr>hdr_name := overwrite (hdr_name h) (a_board a @ [CHR 0x00])\<rparr>;
          h = board_addrs h;
          h = h\<lparr>magic := BOOT_MAGIC\<rparr>
      in h\<lparr>hdr_cmdline := overwrite (hdr_cmdline h) (a_cmdline a @ [CHR 0x00])\<rparr>)"

definition finish_hdr :: "SHA_CTX \<Rightarrow> byte list \<Rightarrow> byte list \<Rightarrow> byte list \<Rightarrow> boot_img_hdr \<Rightarrow> boot_img_hdr" where
  "finish_hdr ctx kdata ramdisk second h =
     (let h = h\<lparr>kernel_size := of_nat (length kdata), ramdisk_size := of_nat (length ramdisk),
                second_size := of_nat (length second)\<rparr>
      in h\<lparr>hdr_id := overwrite (hdr_id h) (image_id ctx kdata ramdisk second h)\<rparr>)"

definition build_image :: "mk_env \<Rightarrow> string \<Rightarrow> string \<Rightarrow> mk_args \<Rightarrow> mk_exit \<times> byte list option" where
  "build_image env kernel_fn ramdisk_fn a =
     (if BOOT_ARGS_SIZE - 1 < length (a_cmdline a)
      then (Failed ''error: kernel commandline too large'', None)
      else
        case load_file (me_files env kernel_fn) of
          None \<Rightarrow> (Failed ''error: could not load kernel'', None)
        | Some kdata \<Rightarrow>
          (case (if ramdisk_fn = ''NONE'' then Some [] else load_file (me_files env ramdisk_fn)) of
             None \<Rightarrow> (Failed ''error: could not load ramdisk'', None)
           | Some ramdisk \<Rightarrow>
             (case (case a_second a of
                      None \<Rightarrow> Some None
                    | Some fn \<Rightarrow> map_option Some (load_file (me_files env fn))) of
                None \<Rightarrow> (Failed ''error: could not load secondstage'', None)
              | Some second \<Rightarrow>
                let second_data = (case second of None \<Rightarrow> [] | Some d \<Rightarrow> d);
                    h = finish_hdr (me_ctx env) kdata ramdisk second_data (prepare_hdr a)
                in if \<not> me_create env then (Failed ''error: could not create'', None)
                   else case write_image h kdata ramdisk second
                               \<lparr>fd_in = [], fd_wr = me_writes env, fd_out = []\<rparr> of
                          Inl f \<Rightarrow> (Failed ''error: failed writing'', if me_unlink env then None else Some (fd_out f))
                        | Inr f \<Rightarrow> (Done, Some (fd_out f)))))"

definition mkbootimg_main :: "mk_env \<Rightarrow> string list \<Rightarrow> mk_exit \<times> byte list option" where
  "mkbootimg_main env argv =
     (case parse_args argv default_args of
        None \<Rightarrow> (Usage [], None)
      | Some a \<Rightarrow>
          if a_bootimg a = None then (Usage ''error: no output filename specified'', None)
          else (case a_kernel a of
                  None \<Rightarrow> (Usage ''error: no kernel image specified'', None)
                | Some kernel_fn \<Rightarrow>
                  (case a_ramdisk a of
                     None \<Rightarrow> (Usage ''error: no ramdisk image specified'', None)
                   | Some ramdisk_fn \<Rightarrow>
                       if BOOT_NAME_SIZE \<le> length (a_board a)
                       then (Usage ''error: board name too large'', None)
                       else build_image env kernel_fn ramdisk_fn a)))"

subsection \<open>fastboot: the image in memory\<close>

text \<open>
  \<open>memcpy\<close> into the allocated block: a copy that does not fit is a buffer overrun. The block
  starts with the header, whose fields are the writes below it.
\<close>

datatype 'a mem = NoMemory | Overrun | Mem 'a

definition memcpy_at :: "nat \<Rightarrow> byte list \<Rightarrow> byte list \<Rightarrow> byte list option" where
  "memcpy_at off src buf =
     (if off + length src \<le> length buf
      then Some (take off buf @ src @ drop (off + length src) buf) else None)"

definition page_round :: "u32 \<Rightarrow> u32 \<Rightarrow> u32" where
  "page_round pg sz = (let page_mask = pg - 1 in (sz + page_mask) AND NOT page_mask)"

definition fb_header :: "byte list \<Rightarrow> byte list \<Rightarrow> byte list \<Rightarrow> u32 \<Rightarrow> u32 \<Rightarrow> boot_img_hdr" where
  "fb_header kdata ramdisk second pg base =
     zero_hdr\<lparr>magic := BOOT_MAGIC, kernel_size := of_nat (length kdata),
       ramdisk_size := of_nat (length ramdisk), second_size := of_nat (length second),
       kernel_addr := base + 0x00008000, ramdisk_addr := base + 0x01000000,
       second_addr := base + 0x00F00000, tags_addr := base + 0x00000100, page_size := pg\<rparr>"

text \<open>
  The header stores end at byte 40 (\<open>page_size\<close> is the last field written). The parameter
  \<open>calloc_ok\<close> says whether the allocation of that many bytes succeeds.
\<close>

definition fb_mkbootimg ::
  "(u32 \<Rightarrow> bool) \<Rightarrow> byte list \<Rightarrow> byte list \<Rightarrow> byte list \<Rightarrow> u32 \<Rightarrow> u32 \<Rightarrow> byte list mem \<times> u32" where
  "fb_mkbootimg calloc_ok kdata ramdisk second pg base =
     (let kernel_actual = page_round pg (of_nat (length kdata));
          ramdisk_actual = page_round pg (of_nat (length ramdisk));
          second_actual = page_round pg (of_nat (length second));
          bootimg_size = pg + kernel_actual + ramdisk_actual + second_actual
      in if \<not> calloc_ok bootimg_size then (NoMemory, bootimg_size)
         else case do {
                buf \<leftarrow> memcpy_at 0 (take 40 (hdr_bytes (fb_header kdata ramdisk second pg base)))
                              (zeros (unat bootimg_size));
                buf \<leftarrow> memcpy_at (unat pg) kdata buf;
                buf \<leftarrow> memcpy_at (unat pg + unat kernel_actual) ramdisk buf;
                memcpy_at (unat pg + unat kernel_actual + unat ramdisk_actual) second buf } of
              None \<Rightarrow> (Overrun, bootimg_size)
            | Some buf \<Rightarrow> (Mem buf, bootimg_size))"

text \<open>\<open>bootimg_set_cmdline\<close> is a \<open>strcpy\<close> into the field at byte 64 of the block.\<close>

definition bootimg_set_cmdline :: "string \<Rightarrow> byte list \<Rightarrow> byte list option" where
  "bootimg_set_cmdline cmdline buf = memcpy_at 64 (cmdline @ [CHR 0x00]) buf"


subsection \<open>What the writes append\<close>

lemma write_exact_out: "write_exact bs f = Inr f' \<Longrightarrow> fd_out f' = fd_out f @ bs"
  by (auto simp: write_exact_def sys_write_def min_def split: list.splits sum.splits if_splits)

lemma write_exact_unlimited:
  "fd_wr f = [] \<Longrightarrow> write_exact bs f = Inr (f\<lparr>fd_out := fd_out f @ bs\<rparr>)"
  by (simp add: write_exact_def sys_write_def)

lemma unat_and_2047: "unat (w AND 2047 :: u32) = unat w mod 2048"
proof -
  have "w AND 2047 = take_bit 11 w"
    by (simp add: take_bit_eq_mask mask_eq_exp_minus_1)
  then have "unat (w AND 2047) = take_bit 11 (unat w)" by (simp only: unsigned_take_bit_eq)
  then show ?thesis by (simp add: take_bit_eq_mod)
qed

lemma div_round_up: "0 < m \<Longrightarrow> (n + (m - 1)) div m = n div m + (if n mod m = 0 then 0 else 1)"
  for m n :: nat
proof -
  assume m: "0 < m"
  have "(n + (m - 1)) div m = (n mod m + (m - 1) + m * (n div m)) div m"
    by (simp add: algebra_simps)
  also have "\<dots> = n div m + (n mod m + (m - 1)) div m"
    using m by (subst div_mult_self2) auto
  also have "(n mod m + (m - 1)) div m = (if n mod m = 0 then 0 else 1)"
    using m mod_less_divisor [OF m, of n] by (auto intro!: div_nat_eqI)
  finally show ?thesis .
qed

lemma fill_up: "0 < m \<Longrightarrow> (n + (m - n mod m) mod m) mod m = 0" for m n :: nat
proof -
  assume m: "0 < m"
  have "(n + (m - n mod m) mod m) mod m = (n mod m + (m - n mod m)) mod m"
    by (simp add: mod_simps)
  also have "\<dots> = 0" using mod_less_divisor [OF m, of n] by simp
  finally show ?thesis .
qed

lemma write_padding_2048:
  "write_padding 2048 w f =
     (if unat w mod 2048 = 0 then Inr f else write_exact (zeros (2048 - unat w mod 2048)) f)"
proof -
  have m: "unat (2048 - (w AND 2047) :: u32) = 2048 - unat w mod 2048"
    using mod_less_divisor [of 2048 "unat w"]
    by (subst unat_sub) (auto simp: word_le_nat_alt unat_and_2047 intro: less_imp_le)
  then have "\<not> 8192 < (2048 - (w AND 2047) :: u32)"
    by (simp add: word_less_nat_alt)
  moreover have "w AND 2047 = 0 \<longleftrightarrow> unat w mod 2048 = 0"
    by (simp add: unat_and_2047 [symmetric] unat_eq_0)
  moreover have "take (2048 - unat w mod 2048) mk_padding = zeros (2048 - unat w mod 2048)"
    by (simp add: mk_padding_def zeros_def)
  ultimately show ?thesis
    using m by (simp add: write_padding_def Let_def)
qed

lemma write_page_padding_2048:
  "write_page_padding 2048 w f =
     (if even ((unat w + 2047) div 2048) then Inr f else write_exact (zeros 2048) f)"
proof -
  define c where "c = w div 2048 + (if w mod 2048 \<noteq> 0 then 1 else 0 :: u32)"
  have d: "unat (w div 2048) = unat w div 2048" "unat (w mod 2048) = unat w mod 2048"
    by (simp_all add: unat_div unat_mod)
  have small: "unat w div 2048 < 2 ^ 21"
    using unsigned_less [of w, where 'a = nat] by (simp add: less_mult_imp_div_less)
  have "unat c = unat w div 2048 + (if unat w mod 2048 \<noteq> 0 then 1 else 0)"
    using small unfolding c_def
    by (subst unat_add_lem [THEN iffD1]) (auto simp: d unat_eq_0 [symmetric])
  also have "\<dots> = (unat w + 2047) div 2048"
    by (simp add: div_round_up [of 2048, simplified])
  finally have uc: "unat c = (unat w + 2047) div 2048" .
  have "c mod 2 = 0 \<longleftrightarrow> even (unat c)"
    by (simp add: unat_eq_0 [symmetric] unat_mod even_iff_mod_2_eq_zero)
  moreover have "take 2048 mk_padding = zeros 2048"
    by (simp add: mk_padding_def zeros_def)
  moreover have "write_page_padding 2048 w f =
      (if c mod 2 = 0 then Inr f else write_exact (take 2048 mk_padding) f)"
    by (simp add: write_page_padding_def c_def Let_def)
  ultimately show ?thesis
    by (simp only: uc)
qed

text \<open>The fill to the next pair of 2048-byte pages.\<close>

definition pair_pad :: "nat \<Rightarrow> nat" where
  "pair_pad n = (4096 - n mod 4096) mod 4096"

definition pad4k :: "byte list \<Rightarrow> byte list" where
  "pad4k bs = bs @ zeros (pair_pad (length bs))"

lemma pair_pad_split:
  "pair_pad n = (if n mod 2048 = 0 then 0 else 2048 - n mod 2048)
     + (if even ((n + 2047) div 2048) then 0 else 2048)"
proof -
  define q s where "q = n div 2048" and "s = n mod 2048"
  have s: "s < 2048" by (simp add: s_def)
  have "n mod (2048 * 2) = 2048 * (q mod 2) + s"
    unfolding q_def s_def by (rule mod_mult2_eq)
  moreover have "(n + 2047) div 2048 = q + (if s = 0 then 0 else 1)"
    using div_round_up [of 2048 n] by (simp add: q_def s_def)
  ultimately show ?thesis
    using s unfolding pair_pad_def s_def [symmetric]
    by (cases "even q") (auto simp: odd_iff_mod_2_eq_one)
qed

lemma pad4k_length: "length (pad4k bs) mod 4096 = 0"
proof -
  have "(n + pair_pad n) mod 4096 = 0" for n
    unfolding pair_pad_def by (metis fill_up zero_less_numeral)
  then show ?thesis by (simp add: pad4k_def)
qed

definition write_pads :: "u32 \<Rightarrow> fdesc \<Rightarrow> fdesc + fdesc" where
  "write_pads w f = andthen (write_padding 2048 w f) (write_page_padding 2048 w)"

lemma write_pads_unlimited:
  "fd_wr f = [] \<Longrightarrow> write_pads w f = Inr (f\<lparr>fd_out := fd_out f @ zeros (pair_pad (unat w))\<rparr>)"
  by (auto simp: write_pads_def write_padding_2048 write_page_padding_2048 pair_pad_split
      zeros_add [symmetric] write_exact_unlimited)

definition boot_image :: "boot_img_hdr \<Rightarrow> byte list \<Rightarrow> byte list \<Rightarrow> byte list option \<Rightarrow> byte list" where
  "boot_image h kdata ramdisk second =
     pad4k (hdr_bytes h) @ pad4k kdata @ pad4k ramdisk
     @ (case second of None \<Rightarrow> [] | Some d \<Rightarrow> d @ zeros (pair_pad (length ramdisk)))"

lemma write_image_pads:
  "write_image h kdata ramdisk second f =
     andthen (write_exact (hdr_bytes h) f) (\<lambda>f. andthen (write_pads 608 f) (\<lambda>f.
     andthen (write_exact kdata f) (\<lambda>f. andthen (write_pads (kernel_size h) f) (\<lambda>f.
     andthen (write_exact ramdisk f) (\<lambda>f. andthen (write_pads (ramdisk_size h) f) (\<lambda>f.
     case second of None \<Rightarrow> Inr f
     | Some d \<Rightarrow> andthen (write_exact d f) (write_pads (ramdisk_size h))))))))"
  by (cases second) (simp_all add: write_image_def write_pads_def [abs_def] mk_pagesize_def andthen_assoc)

text \<open>
  A writer that has appended exactly these bytes when it succeeds, and a part of them from the front when
  it fails.
\<close>

definition appends :: "byte list \<Rightarrow> (fdesc \<Rightarrow> fdesc + fdesc) \<Rightarrow> bool" where
  "appends bs g \<longleftrightarrow> (\<forall>f. case g f of Inr f' \<Rightarrow> fd_out f' = fd_out f @ bs
     | Inl f' \<Rightarrow> \<exists>n. fd_out f' = fd_out f @ take n bs)"

lemma appendsD:
  assumes "appends bs g"
  shows "g f = Inr f' \<Longrightarrow> fd_out f' = fd_out f @ bs" "g f = Inl f' \<Longrightarrow> \<exists>n. fd_out f' = fd_out f @ take n bs"
  using assms [unfolded appends_def, rule_format, of f] by simp_all

lemma appends_exact [wf_intro]: "appends bs (write_exact bs)"
  unfolding appends_def
proof
  fix f
  show "case write_exact bs f of Inr f' \<Rightarrow> fd_out f' = fd_out f @ bs | Inl f' \<Rightarrow> \<exists>n. fd_out f' = fd_out f @ take n bs"
    by (auto simp: write_exact_def sys_write_def min_def intro: exI [of _ 0] split: list.splits sum.splits)
qed

lemma appends_none [wf_intro]: "appends [] Inr"
  by (simp add: appends_def)

lemma appends_then [wf_intro]:
  assumes "appends bs g" "appends cs h"
  shows "appends (bs @ cs) (\<lambda>f. andthen (g f) h)"
  unfolding appends_def
proof
  fix f
  show "case andthen (g f) h of Inr f' \<Rightarrow> fd_out f' = fd_out f @ bs @ cs | Inl f' \<Rightarrow> \<exists>n. fd_out f' = fd_out f @ take n (bs @ cs)"
  proof (cases "g f")
    case (Inl f1)
    then obtain n where "fd_out f1 = fd_out f @ take n bs" using assms(1) [unfolded appends_def, rule_format, of f] by auto
    then have "fd_out f1 = fd_out f @ take (min n (length bs)) (bs @ cs)" by (simp add: min_def)
    then show ?thesis unfolding Inl andthen_simps sum.case by (rule exI)
  next
    case (Inr f1)
    have f1: "fd_out f1 = fd_out f @ bs" using assms(1) [unfolded appends_def, rule_format, of f] Inr by simp
    show ?thesis
    proof (cases "h f1")
      case (Inl f2)
      then obtain n where "fd_out f2 = fd_out f1 @ take n cs" using assms(2) [unfolded appends_def, rule_format, of f1] by auto
      then have "fd_out f2 = fd_out f @ take (length bs + n) (bs @ cs)" using f1 by simp
      then show ?thesis unfolding Inr Inl andthen_simps sum.case by (rule exI)
    next
      case (Inr f2)
      then show ?thesis using assms(2) [unfolded appends_def, rule_format, of f1] f1 \<open>g f = Inr f1\<close> by simp
    qed
  qed
qed

lemma appends_if [wf_intro]:
  "(P \<Longrightarrow> appends bs g) \<Longrightarrow> (\<not> P \<Longrightarrow> appends cs h) \<Longrightarrow> appends (if P then bs else cs) (\<lambda>f. if P then g f else h f)"
  by auto

lemma appends_pads [wf_intro]: "appends (zeros (pair_pad (unat w))) (write_pads w)"
proof -
  have "appends ((if unat w mod 2048 = 0 then [] else zeros (2048 - unat w mod 2048)) @
      (if even ((unat w + 2047) div 2048) then [] else zeros 2048)) (write_pads w)"
    unfolding write_pads_def [abs_def] write_padding_2048 write_page_padding_2048 [abs_def]
    by (intro appends_then appends_if appends_none appends_exact)
  then show ?thesis by (simp add: pair_pad_split zeros_add [symmetric] split: if_splits)
qed

lemma appends_second [wf_intro]:
  "appends (case second of None \<Rightarrow> [] | Some d \<Rightarrow> d @ zeros (pair_pad (unat w)))
     (\<lambda>f. case second of None \<Rightarrow> Inr f | Some d \<Rightarrow> andthen (write_exact d f) (write_pads w))"
  by (cases second) (auto intro: appends_none appends_then appends_exact appends_pads)

lemma write_image_appends:
  assumes "hdr_wf h" "kernel_size h = of_nat (length kdata)" "ramdisk_size h = of_nat (length ramdisk)"
    and "length kdata < 2 ^ 32" "length ramdisk < 2 ^ 32"
  shows "appends (boot_image h kdata ramdisk second) (write_image h kdata ramdisk second)"
proof -
  have u: "unat (of_nat n :: u32) = n" if "n < 2 ^ 32" for n
    using that by (simp add: unat_of_nat take_bit_eq_mod)
  have "appends (hdr_bytes h @ zeros (pair_pad (unat (608 :: u32))) @ kdata
      @ zeros (pair_pad (unat (kernel_size h))) @ ramdisk @ zeros (pair_pad (unat (ramdisk_size h)))
      @ (case second of None \<Rightarrow> [] | Some d \<Rightarrow> d @ zeros (pair_pad (unat (ramdisk_size h)))))
    (write_image h kdata ramdisk second)"
    unfolding write_image_pads [abs_def]
    by (intro appends_then appends_exact appends_pads appends_second)
  then show ?thesis
    using assms by (simp add: boot_image_def pad4k_def u cong: option.case_cong)
qed

lemma write_image_unlimited:
  "fd_wr f = [] \<Longrightarrow> \<exists>f'. write_image h kdata ramdisk second f = Inr f'"
  by (cases second) (simp_all add: write_image_pads write_exact_unlimited write_pads_unlimited)

subsection \<open>The header that is written\<close>

text \<open>The bytes whose SHA-1 is the image identifier.\<close>

definition id_input :: "byte list \<Rightarrow> byte list \<Rightarrow> byte list \<Rightarrow> byte list" where
  "id_input k r d = k @ le32 (of_nat (length k)) @ r @ le32 (of_nat (length r)) @ d @ le32 (of_nat (length d))"

definition image_header :: "string \<Rightarrow> string \<Rightarrow> byte list \<Rightarrow> byte list \<Rightarrow> byte list \<Rightarrow> boot_img_hdr" where
  "image_header board cmdline k r d =
     \<lparr>magic = BOOT_MAGIC, kernel_size = of_nat (length k), kernel_addr = 0x208000,
      ramdisk_size = of_nat (length r), ramdisk_addr = 0x1200000,
      second_size = of_nat (length d), second_addr = 0x1100000,
      tags_addr = 0x200100, page_size = 2048, hdr_unused = [0, 0],
      hdr_name = board @ zeros (16 - length board),
      hdr_cmdline = cmdline @ zeros (512 - length cmdline),
      hdr_id = sha1_spec (id_input k r d) @ zeros 12\<rparr>"

lemma length_sha1_spec [simp]: "length (sha1_spec m) = 20"
  by (cases "foldl fips_compress fips_H0 (blocks 64 (sha_pad m))") (simp add: sha1_spec_def be32_def)

lemma image_header_wf:
  "length board < 16 \<Longrightarrow> length cmdline < 512 \<Longrightarrow> hdr_wf (image_header board cmdline k r d)"
  by (simp add: hdr_wf_def image_header_def)

lemma image_id_sha1:
  assumes "length (sha_buf ctx) = 64"
  shows "image_id ctx k r d h = sha1_spec (k @ le32 (kernel_size h) @ r @ le32 (ramdisk_size h) @ d @ le32 (second_size h))"
proof -
  let ?ps = "[k, le32 (kernel_size h), r, le32 (ramdisk_size h), d, le32 (second_size h)]"
  have "image_id ctx k r d h = take 20 (sha_buf (SHA_final (foldl SHA_update (SHA_init ctx) ?ps)))"
    by (simp add: image_id_def Let_def)
  also have "\<dots> = sha1_spec (concat ?ps)"
    using foldl_SHA_update_absorbed [OF SHA_init_absorbed [OF assms], of ?ps]
    by (simp add: SHA_final_absorbed)
  finally show ?thesis by simp
qed

lemma overwrite_cstring:
  "length s < n \<Longrightarrow> overwrite (zeros n) (s @ [CHR 0x00]) = s @ zeros (n - length s)"
  by (simp add: overwrite_def zeros_def Suc_diff_Suc flip: replicate_Suc)

text \<open>Parsing changes the load addresses at most, and these are replaced afterwards.\<close>

lemma parse_args_hdr:
  "parse_args argv a = Some b \<Longrightarrow> board_addrs (a_hdr b) = board_addrs (a_hdr a)"
  by (induction argv a rule: parse_args.induct)
    (auto simp: board_addrs_def Let_def split: if_splits)

lemma default_hdr: "board_addrs (a_hdr default_args) = board_addrs zero_hdr"
  by (simp add: default_args_def board_addrs_def)


lemma header_written:
  assumes "parse_args argv default_args = Some a" "length (a_board a) < 16" "length (a_cmdline a) < 512"
    and "length (sha_buf ctx) = 64"
  shows "finish_hdr ctx k r d (prepare_hdr a) = image_header (a_board a) (a_cmdline a) k r d"
proof -
  have b: "board_addrs (a_hdr a) = board_addrs zero_hdr"
    using parse_args_hdr [OF assms(1)] default_hdr by simp
  have f: "hdr_name (a_hdr a) = zeros 16" "hdr_cmdline (a_hdr a) = zeros 512"
    "hdr_id (a_hdr a) = zeros 32" "hdr_unused (a_hdr a) = [0, 0]"
    using arg_cong [OF b, of hdr_name] arg_cong [OF b, of hdr_cmdline]
      arg_cong [OF b, of hdr_id] arg_cong [OF b, of hdr_unused]
    by (simp_all add: board_addrs_def zero_hdr_def)
  show ?thesis
    using assms(2-4) f
    by (auto intro!: boot_img_hdr.equality simp: finish_hdr_def prepare_hdr_def image_header_def Let_def
        board_addrs_def mk_pagesize_def overwrite_cstring image_id_sha1 id_input_def)
      (simp add: overwrite_def zeros_def)
qed

text \<open>The data a run of the tool works on: arguments, kernel, ramdisk and second stage.\<close>

definition mk_inputs ::
  "mk_env \<Rightarrow> string list \<Rightarrow> mk_args \<Rightarrow> byte list \<Rightarrow> byte list \<Rightarrow> byte list option \<Rightarrow> bool" where
  "mk_inputs env argv a k r second \<longleftrightarrow>
     parse_args argv default_args = Some a \<and> a_bootimg a \<noteq> None
     \<and> length (a_board a) < 16 \<and> length (a_cmdline a) < 512
     \<and> (\<exists>fn. a_kernel a = Some fn \<and> load_file (me_files env fn) = Some k)
     \<and> (\<exists>fn. a_ramdisk a = Some fn
          \<and> (if fn = ''NONE'' then r = [] else load_file (me_files env fn) = Some r))
     \<and> (case a_second a of None \<Rightarrow> second = None
        | Some fn \<Rightarrow> (\<exists>d. load_file (me_files env fn) = Some d \<and> second = Some d))"

lemma load_file_length: "load_file fe = Some bs \<Longrightarrow> length bs < 2 ^ 31"
proof -
  have "to_int32 z < 2 ^ 31" for z
    using pos_mod_bound [of "2 ^ 32" "z + 2 ^ 31"] unfolding to_int32_def by simp
  moreover assume "load_file fe = Some bs"
  moreover from this have "int (length bs) = to_int32 (fe_end fe)"
    by (auto simp: load_file_def Let_def split: if_splits option.splits)
  ultimately have "int (length bs) < 2 ^ 31" by metis
  then show ?thesis by simp
qed

lemma mk_inputs_length:
  "mk_inputs env argv a k r second \<Longrightarrow> length k < 2 ^ 32 \<and> length r < 2 ^ 32"
  by (force simp: mk_inputs_def dest: load_file_length split: if_splits)

lemma main_with_inputs:
  assumes "mk_inputs env argv a k r second" "length (sha_buf (me_ctx env)) = 64"
  shows "mkbootimg_main env argv =
    (let h = image_header (a_board a) (a_cmdline a) k r (case second of None \<Rightarrow> [] | Some d \<Rightarrow> d) in
     if \<not> me_create env then (Failed ''error: could not create'', None)
     else case write_image h k r second \<lparr>fd_in = [], fd_wr = me_writes env, fd_out = []\<rparr> of
            Inl f \<Rightarrow> (Failed ''error: failed writing'', if me_unlink env then None else Some (fd_out f))
          | Inr f \<Rightarrow> (Done, Some (boot_image h k r second)))"
    and "appends (boot_image (image_header (a_board a) (a_cmdline a) k r (case second of None \<Rightarrow> [] | Some d \<Rightarrow> d)) k r second)
      (write_image (image_header (a_board a) (a_cmdline a) k r (case second of None \<Rightarrow> [] | Some d \<Rightarrow> d)) k r second)"
proof -
  let ?d = "case second of None \<Rightarrow> [] | Some d \<Rightarrow> d"
  let ?h = "image_header (a_board a) (a_cmdline a) k r ?d"
  have i: "parse_args argv default_args = Some a" "length (a_board a) < 16" "length (a_cmdline a) < 512"
    using assms(1) by (auto simp: mk_inputs_def)
  note hw = header_written [OF i assms(2), of k r ?d]
  show app: "appends (boot_image ?h k r second) (write_image ?h k r second)"
    using write_image_appends [of ?h k r second] mk_inputs_length [OF assms(1)] image_header_wf [OF i(2,3)]
    by (auto simp: image_header_def)
  have out: "fd_out f = boot_image ?h k r second"
    if "write_image ?h k r second \<lparr>fd_in = [], fd_wr = me_writes env, fd_out = []\<rparr> = Inr f" for f
    using appendsD(1) [OF app that] by simp
  have "mkbootimg_main env argv =
     (if \<not> me_create env then (Failed ''error: could not create'', None)
     else case write_image ?h k r second \<lparr>fd_in = [], fd_wr = me_writes env, fd_out = []\<rparr> of
            Inl f \<Rightarrow> (Failed ''error: failed writing'', if me_unlink env then None else Some (fd_out f))
          | Inr f \<Rightarrow> (Done, Some (fd_out f)))"
    using assms(1) hw
    by (cases second) (auto simp: mk_inputs_def mkbootimg_main_def build_image_def Let_def split: if_splits option.splits)
  with out show "mkbootimg_main env argv =
    (let h = ?h in
     if \<not> me_create env then (Failed ''error: could not create'', None)
     else case write_image h k r second \<lparr>fd_in = [], fd_wr = me_writes env, fd_out = []\<rparr> of
            Inl f \<Rightarrow> (Failed ''error: failed writing'', if me_unlink env then None else Some (fd_out f))
          | Inr f \<Rightarrow> (Done, Some (boot_image h k r second)))"
    by (simp add: Let_def split: sum.splits)
qed


lemma main_Done:
  assumes "mkbootimg_main env argv = (e, out)" "e = Done \<or> out \<noteq> None"
  shows "\<exists>a k r second. mk_inputs env argv a k r second \<and> me_create env"
  using assms
  by (auto simp: mkbootimg_main_def build_image_def mk_inputs_def Let_def
      split: option.splits if_splits)

subsection \<open>Properties of mkbootimg\<close>

definition pages4k :: "byte list \<Rightarrow> nat" where
  "pages4k bs = 4096 * ((length bs + 4095) div 4096)"

lemma length_pad4k: "length (pad4k bs) = pages4k bs"
proof -
  define q s where "q = length bs div 4096" and "s = length bs mod 4096"
  have s: "s < 4096" by (simp add: s_def)
  have n: "length bs = 4096 * q + s" by (simp add: q_def s_def)
  have "(length bs + 4095) div 4096 = q + (if s = 0 then 0 else 1)"
    using div_round_up [of 4096 "length bs"] by (simp add: q_def s_def)
  then show ?thesis
    using s by (auto simp: pad4k_def pages4k_def pair_pad_def s_def [symmetric] n)
qed

lemma take_pad4k: "take (length bs) (pad4k bs @ rest) = bs"
  by (simp add: pad4k_def)

lemma drop_pad4k: "drop (pages4k bs + n) (pad4k bs @ rest) = drop n rest"
  by (simp add: length_pad4k [symmetric])

text \<open>A small run: every file holds three bytes, there is no ramdisk, there is a second stage.\<close>

definition sample_env :: mk_env where
  "sample_env = \<lparr>me_files = (\<lambda>fn. \<lparr>fe_open = True, fe_end = 3, fe_rewind = 0, fe_malloc = (\<lambda>_. True),
                        fe_read = (\<lambda>n. Some (take n ''zImage''))\<rparr>),
        me_ctx = \<lparr>sha_count = 0, sha_buf = zeros 64, sha_state = []\<rparr>,
        me_create = True, me_writes = [], me_unlink = True\<rparr>"

definition sample_argv :: "string list" where
  "sample_argv = [''--kernel'', ''k'', ''--ramdisk'', ''NONE'', ''--second'', ''s'', ''-o'', ''boot.img'']"

lemma sample_inputs:
  "mk_inputs sample_env sample_argv
     (default_args\<lparr>a_kernel := Some ''k'', a_ramdisk := Some ''NONE'', a_second := Some ''s'',
        a_bootimg := Some ''boot.img''\<rparr>) ''zIm'' [] (Some ''zIm'')"
  by (simp add: mk_inputs_def default_args_def load_file_def to_int32_def sample_env_def sample_argv_def)

lemma sample_run:
  "mkbootimg_main sample_env sample_argv =
     (Done, Some (boot_image (image_header [] [] ''zIm'' [] ''zIm'') ''zIm'' [] (Some ''zIm'')))"
  using main_with_inputs(1) [OF sample_inputs]
    write_image_unlimited [of "\<lparr>fd_in = [], fd_wr = [], fd_out = []\<rparr>"
      "image_header [] [] ''zIm'' [] ''zIm''" "''zIm''" "[]" "Some ''zIm''"]
  by (auto simp: sample_env_def default_args_def)

text \<open>
  C3: With its inputs loaded and every write accepted, mkbootimg writes an image that starts with
  the header (sizes, the board's load addresses, name and command line, SHA-1 of the contents and
  their sizes); the kernel follows at byte 4096, the ramdisk and then the second stage at the next
  multiple of 4096 (two pages), each exactly as loaded.
\<close>

theorem mkbootimg_layout:
  assumes "mk_inputs env argv a k r second" "length (sha_buf (me_ctx env)) = 64"
    and "me_create env" "me_writes env = []"
  shows "\<exists>img. mkbootimg_main env argv = (Done, Some img)
    \<and> take 608 img = hdr_bytes (image_header (a_board a) (a_cmdline a) k r
                                (case second of None \<Rightarrow> [] | Some d \<Rightarrow> d))
    \<and> take (length k) (drop 4096 img) = k
    \<and> take (length r) (drop (4096 + pages4k k) img) = r
    \<and> (case second of None \<Rightarrow> length img = 4096 + pages4k k + pages4k r
       | Some d \<Rightarrow> take (length d) (drop (4096 + pages4k k + pages4k r) img) = d)"
proof -
  let ?h = "image_header (a_board a) (a_cmdline a) k r (case second of None \<Rightarrow> [] | Some d \<Rightarrow> d)"
  let ?b = "hdr_bytes ?h"
  have wf: "length ?b = 608"
    using assms(1) by (intro length_hdr_bytes image_header_wf) (auto simp: mk_inputs_def)
  then have p: "pages4k ?b = 4096" by (simp add: pages4k_def)
  let ?img = "boot_image ?h k r second"
  let ?t = "case second of None \<Rightarrow> [] | Some d \<Rightarrow> d @ zeros (pair_pad (length r))"
  have main: "mkbootimg_main env argv = (Done, Some ?img)"
    using main_with_inputs(1) [OF assms(1,2)] assms(3,4)
      write_image_unlimited [of "\<lparr>fd_in = [], fd_wr = [], fd_out = []\<rparr>" ?h k r second]
    by (auto simp: Let_def)
  have "drop (4096 + 0) ?img = drop 0 (pad4k k @ pad4k r @ ?t)"
    unfolding boot_image_def by (rule drop_pad4k [of ?b, unfolded p])
  then have d0: "drop 4096 ?img = pad4k k @ pad4k r @ ?t"
    by (simp only: add_0_right drop_0)
  then have dk: "drop (4096 + pages4k k) ?img = pad4k r @ ?t"
    using drop_pad4k [of k 0 "pad4k r @ ?t"] by (simp only: drop_drop [symmetric] add.commute [of 4096] add_0_right drop_0)
  then have dr: "drop (4096 + pages4k k + pages4k r) ?img = ?t"
    using drop_pad4k [of r 0 ?t]
    by (simp only: drop_drop [symmetric] add.commute [of "4096 + pages4k k"] add_0_right drop_0)
  have "take 608 ?img = ?b"
    using take_pad4k [of ?b] unfolding boot_image_def wf by blast
  moreover have "take (length k) (drop 4096 ?img) = k"
    unfolding d0 by (rule take_pad4k)
  moreover have "take (length r) (drop (4096 + pages4k k) ?img) = r"
    unfolding dk by (rule take_pad4k)
  moreover have "case second of None \<Rightarrow> length ?img = 4096 + pages4k k + pages4k r
      | Some d \<Rightarrow> take (length d) (drop (4096 + pages4k k + pages4k r) ?img) = d"
    unfolding dr using p by (cases second) (simp_all add: boot_image_def length_pad4k)
  ultimately show ?thesis
    using main by blast
qed

theorem mkbootimg_layout_witness:
  "\<exists>img. mkbootimg_main sample_env sample_argv = (Done, Some img)
    \<and> take 608 img = hdr_bytes (image_header [] [] ''zIm'' [] ''zIm'')
    \<and> take (length ''zIm'') (drop 4096 img) = ''zIm''
    \<and> take (length ''zIm'') (drop 8192 img) = ''zIm''"
  using mkbootimg_layout [OF sample_inputs]
  by (simp add: pages4k_def default_args_def sample_env_def)

text \<open>
  C4: Whatever open, write and unlink return, mkbootimg leaves the complete image of its inputs when it
  exits successfully. Otherwise it leaves no file, except that after a failed or short write a file
  that cannot be unlinked stays behind, with a part of the image from its start.
\<close>

theorem mkbootimg_all_or_nothing:
  assumes "length (sha_buf (me_ctx env)) = 64" "mkbootimg_main env argv = (e, out)"
  shows "case out of
      None \<Rightarrow> e \<noteq> Done
    | Some img \<Rightarrow> \<exists>a k r second n. mk_inputs env argv a k r second
        \<and> (let full = boot_image (image_header (a_board a) (a_cmdline a) k r
                          (case second of None \<Rightarrow> [] | Some d \<Rightarrow> d)) k r second
            in if e = Done then img = full else \<not> me_unlink env \<and> img = take n full)"
proof (cases "e = Done \<or> out \<noteq> None")
  case False
  then show ?thesis by simp
next
  case True
  obtain a k r second where i: "mk_inputs env argv a k r second" "me_create env"
    using main_Done [OF assms(2) True] by blast
  define full where "full = boot_image (image_header (a_board a) (a_cmdline a) k r (case second of None \<Rightarrow> [] | Some d \<Rightarrow> d)) k r second"
  define w where "w = write_image (image_header (a_board a) (a_cmdline a) k r (case second of None \<Rightarrow> [] | Some d \<Rightarrow> d)) k r second
    \<lparr>fd_in = [], fd_wr = me_writes env, fd_out = []\<rparr>"
  have m: "(e, out) = (case w of Inl f \<Rightarrow> (Failed ''error: failed writing'', if me_unlink env then None else Some (fd_out f))
          | Inr f \<Rightarrow> (Done, Some full))"
    using main_with_inputs(1) [OF i(1) assms(1)] assms(2) i(2) unfolding full_def w_def by (simp add: Let_def)
  have left: "\<exists>n. fd_out f = take n full" if "w = Inl f" for f
    using appendsD(2) [OF main_with_inputs(2) [OF i(1) assms(1)] that [unfolded w_def]] by (simp add: full_def)
  show ?thesis
  proof (cases w)
    case (Inl f)
    then obtain n where "me_unlink env \<and> out = None \<or> \<not> me_unlink env \<and> out = Some (take n full)" "e \<noteq> Done"
      using m left [OF Inl] by (auto split: if_splits)
    then consider "out = None" "e \<noteq> Done" | "out = Some (take n full)" "\<not> me_unlink env" "e \<noteq> Done" by blast
    then show ?thesis
    proof cases
      case 2
      then show ?thesis using i(1)
        by (simp only: option.case) (intro exI [of _ a] exI [of _ k] exI [of _ r] exI [of _ second] exI [of _ n],
            simp add: Let_def full_def)
    qed simp
  next
    case (Inr f)
    then show ?thesis using m i(1) unfolding Let_def full_def by auto
  qed
qed

text \<open>The second write takes only 5 bytes, and the unlink fails.\<close>

theorem mkbootimg_all_or_nothing_witness:
  "\<exists>a k r second n. mk_inputs (sample_env\<lparr>me_writes := [Inr 608, Inr 5], me_unlink := False\<rparr>) sample_argv a k r second
     \<and> mkbootimg_main (sample_env\<lparr>me_writes := [Inr 608, Inr 5], me_unlink := False\<rparr>) sample_argv
       = (Failed ''error: failed writing'', Some (take n (boot_image (image_header (a_board a) (a_cmdline a) k r
                          (case second of None \<Rightarrow> [] | Some d \<Rightarrow> d)) k r second)))"
proof -
  let ?env = "sample_env\<lparr>me_writes := [Inr 608, Inr 5], me_unlink := False\<rparr>"
  have i: "mk_inputs ?env sample_argv
     (default_args\<lparr>a_kernel := Some ''k'', a_ramdisk := Some ''NONE'', a_second := Some ''s'',
        a_bootimg := Some ''boot.img''\<rparr>) ''zIm'' [] (Some ''zIm'')"
    using sample_inputs by (simp add: mk_inputs_def sample_env_def)
  have h: "length (hdr_bytes (image_header [] [] ''zIm'' [] ''zIm'')) = 608"
    by (intro length_hdr_bytes image_header_wf) auto
  have "\<exists>img. mkbootimg_main ?env sample_argv = (Failed ''error: failed writing'', Some img)"
    using main_with_inputs(1) [OF i] h
    by (simp add: default_args_def sample_env_def Let_def write_image_def write_exact_def sys_write_def
        write_padding_2048 mk_pagesize_def)
  then obtain img where r: "mkbootimg_main ?env sample_argv = (Failed ''error: failed writing'', Some img)" by blast
  have "length (sha_buf (me_ctx ?env)) = 64" by (simp add: sample_env_def)
  from mkbootimg_all_or_nothing [OF this r] show ?thesis using r by (auto simp: Let_def)
qed

text \<open>
  The fill after the second stage is computed from the ramdisk's size: the sample image ends in
  the middle of a page.
\<close>

theorem second_stage_not_padded:
  "\<exists>img. mkbootimg_main sample_env sample_argv = (Done, Some img) \<and> length img mod 2048 = 3"
proof -
  have "length (hdr_bytes (image_header [] [] ''zIm'' [] ''zIm'')) = 608"
    by (intro length_hdr_bytes image_header_wf) auto
  then show ?thesis
    unfolding sample_run by (simp add: boot_image_def length_pad4k pages4k_def pair_pad_def)
qed

lemma parse_args_append:
  "even (length xs) \<Longrightarrow> parse_args (xs @ ys) a = parse_args xs a \<bind> parse_args ys"
  by (induction xs a rule: parse_args.induct) (auto simp: Let_def)

definition norm_args :: "mk_args \<Rightarrow> mk_args" where
  "norm_args a = a\<lparr>a_hdr := board_addrs (a_hdr a)\<rparr>"

lemma parse_args_norm:
  "map_option norm_args (parse_args ys a) = map_option norm_args (parse_args ys b)"
  if "norm_args a = norm_args b" for a b
  using that
proof (induction ys arbitrary: a b rule: induct_list012)
  case (3 arg val rest)
  have n: "norm_args (a\<lparr>a_bootimg := x\<rparr>) = norm_args (b\<lparr>a_bootimg := x\<rparr>)"
    "norm_args (a\<lparr>a_kernel := x\<rparr>) = norm_args (b\<lparr>a_kernel := x\<rparr>)"
    "norm_args (a\<lparr>a_ramdisk := x\<rparr>) = norm_args (b\<lparr>a_ramdisk := x\<rparr>)"
    "norm_args (a\<lparr>a_second := x\<rparr>) = norm_args (b\<lparr>a_second := x\<rparr>)"
    "norm_args (a\<lparr>a_cmdline := v\<rparr>) = norm_args (b\<lparr>a_cmdline := v\<rparr>)"
    "norm_args (a\<lparr>a_board := v\<rparr>) = norm_args (b\<lparr>a_board := v\<rparr>)"
    "norm_args (a\<lparr>a_hdr := (a_hdr a)\<lparr>kernel_addr := w1, ramdisk_addr := w2, second_addr := w3, tags_addr := w4\<rparr>\<rparr>)
     = norm_args (b\<lparr>a_hdr := (a_hdr b)\<lparr>kernel_addr := w1, ramdisk_addr := w2, second_addr := w3, tags_addr := w4\<rparr>\<rparr>)"
    for x v w1 w2 w3 w4
    using "3.prems" by (cases a, cases b, simp add: norm_args_def board_addrs_def)+
  show ?case
    by (auto simp: Let_def intro!: "3.IH"(1) n)
qed auto

lemma board_addrs_idem: "board_addrs (board_addrs h) = board_addrs h"
  by (simp add: board_addrs_def)

lemma board_addrs_name: "board_addrs (h\<lparr>hdr_name := x\<rparr>) = board_addrs h\<lparr>hdr_name := x\<rparr>"
  by (simp add: board_addrs_def)

lemma prepare_hdr_norm: "prepare_hdr (norm_args a) = prepare_hdr a"
  by (simp add: prepare_hdr_def norm_args_def Let_def board_addrs_idem board_addrs_name)
    (simp add: board_addrs_def)

lemma norm_args_fields [simp]:
  "a_bootimg (norm_args a) = a_bootimg a" "a_kernel (norm_args a) = a_kernel a"
  "a_ramdisk (norm_args a) = a_ramdisk a" "a_second (norm_args a) = a_second a"
  "a_cmdline (norm_args a) = a_cmdline a" "a_board (norm_args a) = a_board a"
  by (simp_all add: norm_args_def)

lemma build_image_norm: "build_image env kf rf (norm_args a) = build_image env kf rf a"
  unfolding build_image_def prepare_hdr_norm norm_args_fields by (rule refl)

lemma main_norm:
  "map_option norm_args (parse_args xs default_args) = map_option norm_args (parse_args ys default_args)
   \<Longrightarrow> mkbootimg_main env xs = mkbootimg_main env ys"
proof -
  define K where "K = (\<lambda>a. if a_bootimg a = None then (Usage ''error: no output filename specified'', None)
          else (case a_kernel a of
                  None \<Rightarrow> (Usage ''error: no kernel image specified'', None)
                | Some kernel_fn \<Rightarrow>
                  (case a_ramdisk a of
                     None \<Rightarrow> (Usage ''error: no ramdisk image specified'', None)
                   | Some ramdisk_fn \<Rightarrow>
                       if BOOT_NAME_SIZE \<le> length (a_board a)
                       then (Usage ''error: board name too large'', None)
                       else build_image env kernel_fn ramdisk_fn a)))"
  have K: "K (norm_args a) = K a" for a
    unfolding K_def build_image_norm norm_args_fields by (rule refl)
  have main: "mkbootimg_main env zs = (case map_option norm_args (parse_args zs default_args) of
      None \<Rightarrow> (Usage [], None) | Some a \<Rightarrow> K a)" for zs
    unfolding mkbootimg_main_def K_def [symmetric] by (cases "parse_args zs default_args") (simp_all add: K)
  assume "map_option norm_args (parse_args xs default_args) = map_option norm_args (parse_args ys default_args)"
  then show ?thesis by (simp add: main)
qed

text \<open>
  The option \<open>--base\<close> has no effect in this build: removing it with its value, wherever it stands
  among the options, gives the same run.
\<close>

theorem base_option_ignored:
  assumes "even (length xs)"
  shows "mkbootimg_main env (xs @ [''--base'', v] @ ys) = mkbootimg_main env (xs @ ys)"
proof (rule main_norm)
  show "map_option norm_args (parse_args (xs @ [''--base'', v] @ ys) default_args)
      = map_option norm_args (parse_args (xs @ ys) default_args)"
  proof (cases "parse_args xs default_args")
    case None
    then show ?thesis using assms by (simp add: parse_args_append)
  next
    case (Some a)
    have "norm_args (a\<lparr>a_hdr := (a_hdr a)\<lparr>kernel_addr := w1, ramdisk_addr := w2, second_addr := w3, tags_addr := w4\<rparr>\<rparr>)
      = norm_args a" for w1 w2 w3 w4
      by (simp add: norm_args_def board_addrs_def)
    with Some assms show ?thesis
      by (auto simp: parse_args_append Let_def intro!: parse_args_norm)
  qed
qed

theorem base_option_ignored_witness:
  "mkbootimg_main sample_env ([''--kernel'', ''k''] @ [''--base'', ''0x10000000''] @ [''-o'', ''b''])
   = mkbootimg_main sample_env ([''--kernel'', ''k''] @ [''-o'', ''b''])"
  by (rule base_option_ignored) simp

subsection \<open>The image fastboot builds\<close>

lemma memcpy_at_Some:
  assumes "off + length src \<le> length buf"
  obtains b where "memcpy_at off src buf = Some b" "length b = length buf"
    "take (length src) (drop off b) = src"
proof
  let ?b = "take off buf @ src @ drop (off + length src) buf"
  show "memcpy_at off src buf = Some ?b" using assms by (simp add: memcpy_at_def)
  show "length ?b = length buf" "take (length src) (drop off ?b) = src" using assms by simp_all
qed

lemma memcpy_at_before:
  assumes "memcpy_at off src buf = Some b" "o2 + n \<le> off"
  shows "take n (drop o2 b) = take n (drop o2 buf)"
proof -
  have a: "off + length src \<le> length buf" and b: "b = take off buf @ src @ drop (off + length src) buf"
    using assms(1) by (auto simp: memcpy_at_def split: if_splits)
  have "drop o2 b = drop o2 (take off buf) @ src @ drop (off + length src) buf"
    using assms(2) a b by simp
  moreover have "n \<le> length (drop o2 (take off buf))" using assms(2) a by simp
  ultimately have "take n (drop o2 b) = take n (drop o2 (take off buf))" by simp
  also have "\<dots> = take n (drop o2 buf)" using assms(2) by (simp add: drop_take min_def)
  finally show ?thesis .
qed

lemma page_round_up:
  assumes "unat pg = 2 ^ j" "n + (2 ^ j - 1) < 2 ^ 32"
  shows "unat (page_round pg (of_nat n)) = 2 ^ j * ((n + (2 ^ j - 1)) div 2 ^ j)"
proof -
  have pg: "pg = 2 ^ j"
    using arg_cong [OF assms(1), of "of_nat :: nat \<Rightarrow> u32"] by simp
  then have m: "pg - 1 = mask j" by (simp add: mask_eq_exp_minus_1)
  let ?w = "of_nat n + mask j :: u32"
  have "(of_nat (2 ^ j - 1) :: u32) = mask j"
    by (simp add: mask_eq_exp_minus_1 of_nat_diff)
  then have "?w = of_nat (n + (2 ^ j - 1))" by (simp only: of_nat_add)
  then have w: "unat ?w = n + (2 ^ j - 1)"
    using assms(2) by (simp add: unat_of_nat take_bit_eq_mod del: of_nat_add)
  have "unat (take_bit j ?w) = take_bit j (unat ?w)" by (rule unsigned_take_bit_eq)
  then have t: "unat (take_bit j ?w) = unat ?w mod 2 ^ j" by (simp only: take_bit_eq_mod)
  then have "take_bit j ?w \<le> ?w" by (simp only: word_le_nat_alt mod_less_eq_dividend)
  then have "unat (?w - take_bit j ?w) = unat ?w - unat ?w mod 2 ^ j"
    by (simp only: unat_sub t)
  then show ?thesis
    unfolding page_round_def Let_def m and_not_mask w by (simp only: minus_mod_eq_mult_div)
qed

definition pages_of :: "nat \<Rightarrow> byte list \<Rightarrow> nat" where
  "pages_of pg bs = pg * ((length bs + (pg - 1)) div pg)"

lemma pages_of_ge: "0 < pg \<Longrightarrow> length bs \<le> pages_of pg bs"
proof -
  assume pg: "0 < pg"
  have n: "length bs = pg * (length bs div pg) + length bs mod pg" by simp
  also have "pg * q + s \<le> pg * (q + (if s = 0 then 0 else 1))" if "s < pg" for q s
    using that by simp
  from this [OF mod_less_divisor [OF pg]]
  have "pg * (length bs div pg) + length bs mod pg
      \<le> pg * (length bs div pg + (if length bs mod pg = 0 then 0 else 1))" .
  also have "\<dots> = pages_of pg bs"
    unfolding pages_of_def div_round_up [OF pg] ..
  finally show ?thesis .
qed

text \<open>
  C22: For a page size that is a power of two, and sections whose total stays below 4 GiB, the image
  builder of fastboot writes within the block it allocated: the header is on the first page, and
  kernel, ramdisk and second stage stand unchanged at the next page boundaries.
\<close>

theorem fb_mkbootimg_layout:
  assumes "unat pg = 2 ^ j" "40 \<le> unat pg"
    and total: "unat pg + pages_of (unat pg) k + pages_of (unat pg) r + pages_of (unat pg) s < 2 ^ 32"
    and calloc: "calloc_ok (of_nat (unat pg + pages_of (unat pg) k + pages_of (unat pg) r + pages_of (unat pg) s))"
  shows "\<exists>buf. fb_mkbootimg calloc_ok k r s pg base = (Mem buf, of_nat (length buf))
    \<and> length buf = unat pg + pages_of (unat pg) k + pages_of (unat pg) r + pages_of (unat pg) s
    \<and> take 40 buf = take 40 (hdr_bytes (fb_header k r s pg base))
    \<and> take (length k) (drop (unat pg) buf) = k
    \<and> take (length r) (drop (unat pg + pages_of (unat pg) k) buf) = r
    \<and> take (length s) (drop (unat pg + pages_of (unat pg) k + pages_of (unat pg) r) buf) = s"
proof -
  let ?p = "unat pg" let ?K = "pages_of ?p k" let ?R = "pages_of ?p r" let ?S = "pages_of ?p s"
  let ?n = "?p + ?K + ?R + ?S"
  let ?h = "take 40 (hdr_bytes (fb_header k r s pg base))"
  have p: "0 < ?p" using assms(2) by simp
  note ge = pages_of_ge [OF p, of k] pages_of_ge [OF p, of r] pages_of_ge [OF p, of s]
  have pr: "unat (page_round pg (of_nat (length bs))) = pages_of ?p bs"
    if "?p + pages_of ?p bs < 2 ^ 32" for bs
    using that pages_of_ge [OF p, of bs] assms(1)
    by (subst page_round_up [OF assms(1)]) (auto simp: pages_of_def)
  have a: "unat (page_round pg (of_nat (length k))) = ?K" "unat (page_round pg (of_nat (length r))) = ?R"
    "unat (page_round pg (of_nat (length s))) = ?S"
    using total by (intro pr; linarith)+
  let ?sz = "pg + page_round pg (of_nat (length k)) + page_round pg (of_nat (length r)) + page_round pg (of_nat (length s))"
  have "?sz = of_nat ?n"
    by (simp add: a [symmetric])
  moreover have un: "unat (of_nat ?n :: u32) = ?n"
    using total by (simp add: unat_of_nat take_bit_eq_mod del: of_nat_add)
  ultimately have sz: "?sz = of_nat ?n" "unat ?sz = ?n" by (simp_all only:)
  have lh: "length ?h = 40"
    by (subst length_take) (simp add: length_hdr_bytes hdr_wf_def fb_header_def zero_hdr_def)
  obtain b1 where b1: "memcpy_at 0 ?h (zeros ?n) = Some b1" "length b1 = ?n" "take 40 (drop 0 b1) = ?h"
    using memcpy_at_Some [of 0 ?h "zeros ?n"] assms(2) lh by auto
  obtain b2 where b2: "memcpy_at ?p k b1 = Some b2" "length b2 = ?n" "take (length k) (drop ?p b2) = k"
    using memcpy_at_Some [of ?p k b1] ge b1(2) by auto
  obtain b3 where b3: "memcpy_at (?p + ?K) r b2 = Some b3" "length b3 = ?n"
    "take (length r) (drop (?p + ?K) b3) = r"
    using memcpy_at_Some [of "?p + ?K" r b2] ge b2(2) by auto
  obtain b4 where b4: "memcpy_at (?p + ?K + ?R) s b3 = Some b4" "length b4 = ?n"
    "take (length s) (drop (?p + ?K + ?R) b4) = s"
    using memcpy_at_Some [of "?p + ?K + ?R" s b3] ge b3(2) by auto
  note k4 = memcpy_at_before [OF b4(1)] and k3 = memcpy_at_before [OF b3(1)] and k2 = memcpy_at_before [OF b2(1)]
  have "take 40 (drop 0 b4) = ?h"
    using k4 [of 0 40] k3 [of 0 40] k2 [of 0 40] b1(3) assms(2) by simp
  moreover have "take (length k) (drop ?p b4) = k"
    using k4 [of ?p "length k"] k3 [of ?p "length k"] b2(3) ge by simp
  moreover have "take (length r) (drop (?p + ?K) b4) = r"
    using k4 [of "?p + ?K" "length r"] b3(3) ge by simp
  moreover have "fb_mkbootimg calloc_ok k r s pg base = (Mem b4, of_nat ?n)"
    unfolding fb_mkbootimg_def Let_def sz(1) un a
    using calloc b1(1) b2(1) b3(1) b4(1) by (simp del: of_nat_add)
  ultimately show ?thesis using b4 by (intro exI [of _ b4]) simp
qed

theorem fb_mkbootimg_layout_witness:
  "\<exists>buf. fb_mkbootimg (\<lambda>_. True) ''kernel'' ''rd'' [] 2048 0x10000000 = (Mem buf, of_nat (length buf))
    \<and> length buf = 6144 \<and> take (length ''kernel'') (drop 2048 buf) = ''kernel''
    \<and> take (length ''rd'') (drop 4096 buf) = ''rd''"
  using fb_mkbootimg_layout [where pg = 2048 and j = 11 and k = "''kernel''" and r = "''rd''" and s = "[]"
      and calloc_ok = "\<lambda>_. True" and base = "0x10000000"]
  by (simp add: pages_of_def) blast

end
