(* ===== verification/FbMain.thy ===== *)
theory FbMain
  imports FbEngine Bootimg
begin

text \<open>
  The fastboot command line (src/tools/fastboot/fastboot.c): finding and loading the images,
  the requirement file of an update, the composite commands \<open>update\<close> and \<open>flashall\<close>, the device
  filter, and \<open>main\<close>, which turns its arguments into a queue and runs it. The zip library and the
  directory of the executable are not part of the repository; they are the fields of the
  environment. Allocations of a few bytes are taken to succeed.
\<close>

subsection \<open>Environment and state\<close>

text \<open>
  \<open>z_datasz\<close> is the buffer size \<open>*sz * 1.001\<close> (computed in floating point), \<open>z_malloc\<close> whether that
  buffer is available, \<open>z_unpack\<close> what \<open>decompress_zipentry\<close> leaves in it.
\<close>

record fb_env =
  e_files :: "string \<Rightarrow> file_env"
  e_my_path :: string
  e_product_out :: "string option"
  e_calloc :: "u32 \<Rightarrow> bool"
  z_init :: "byte list \<Rightarrow> bool"
  z_lookup :: "byte list \<Rightarrow> string \<Rightarrow> u32 option"
  z_datasz :: "u32 \<Rightarrow> u32"
  z_malloc :: "u32 \<Rightarrow> bool"
  z_unpack :: "byte list \<Rightarrow> string \<Rightarrow> u32 \<Rightarrow> byte list option"

record fb_globals =
  g_queue :: "action list"
  g_serial :: "string option"
  g_product :: "string option"
  g_cmdline :: "string option"
  g_vendor :: u16
  g_base :: u32
  g_page_size :: u32
  g_wipe :: bool
  g_reboot :: bool
  g_reboot_bootloader :: bool

definition queue_step :: "(action list \<Rightarrow> action list outcome) \<Rightarrow> fb_globals \<Rightarrow> fb_globals outcome" where
  "queue_step f g = andthen (f (g_queue g)) (\<lambda>q. Inr (g\<lparr>g_queue := q\<rparr>))"

subsection \<open>Finding and loading images\<close>

definition find_item :: "fb_env \<Rightarrow> string \<Rightarrow> string option \<Rightarrow> string option outcome" where
  "find_item env item product =
     (case (if item = ''boot'' then Some ''boot.img''
            else if item = ''recovery'' then Some ''recovery.img''
            else if item = ''system'' then Some ''system.img''
            else if item = ''userdata'' then Some ''userdata.img''
            else if item = ''info'' then Some ''android-info.txt''
            else None) of
        None \<Rightarrow> Inr None
      | Some fn \<Rightarrow>
          (case product of
             Some p \<Rightarrow> Inr (Some (e_my_path env @ ''../../../target/product/'' @ p @ ''/'' @ fn))
           | None \<Rightarrow>
               (case e_product_out env of
                  None \<Rightarrow> Inl (Die ''neither -p product specified nor ANDROID_PRODUCT_OUT set'')
                | Some dir \<Rightarrow>
                    if dir = [] then Inl (Die ''neither -p product specified nor ANDROID_PRODUCT_OUT set'')
                    else Inr (Some (dir @ ''/'' @ fn)))))"

definition load_named :: "fb_env \<Rightarrow> string \<Rightarrow> byte list option" where
  "load_named env fn = load_file (e_files env fn)"

definition size_of :: "byte list \<Rightarrow> u32" where
  "size_of bs = of_nat (length bs)"

text \<open>
  \<open>load_bootable_image\<close>: None is the null pointer. The comparison with the magic looks at the
  bytes the file has.
\<close>

definition load_bootable_image ::
  "fb_env \<Rightarrow> u32 \<Rightarrow> u32 \<Rightarrow> string option \<Rightarrow> string option \<Rightarrow> string option \<Rightarrow> byte list option outcome" where
  "load_bootable_image env base pg kname ramdisk cmdline =
     (case kname of
        None \<Rightarrow> Inr None
      | Some kfile \<Rightarrow>
        (case load_named env kfile of
           None \<Rightarrow> Inr None
         | Some kdata \<Rightarrow>
           let with_cmdline = (\<lambda>buf. case cmdline of
                                 None \<Rightarrow> Inr buf
                               | Some c \<Rightarrow> (case bootimg_set_cmdline c buf of
                                              None \<Rightarrow> Inl MemOverrun
                                            | Some buf \<Rightarrow> Inr buf))
           in if take 8 kdata = BOOT_MAGIC then
                andthen (with_cmdline kdata)
                  (\<lambda>kdata. if ramdisk \<noteq> None then Inr None else Inr (Some kdata))
              else
                case (case ramdisk of None \<Rightarrow> Some [] | Some rfile \<Rightarrow> load_named env rfile) of
                  None \<Rightarrow> Inr None
                | Some rdata \<Rightarrow>
                    (case fst (fb_mkbootimg (e_calloc env) kdata rdata [] pg base) of
                       NoMemory \<Rightarrow> Inr None
                     | Overrun \<Rightarrow> Inl MemOverrun
                     | Mem bdata \<Rightarrow> andthen (with_cmdline bdata) (\<lambda>b. Inr (Some b)))))"

text \<open>\<open>unzip_file\<close> returns the data and its size as the archive states it.\<close>

definition unzip_file :: "fb_env \<Rightarrow> byte list \<Rightarrow> string \<Rightarrow> (byte list \<times> u32) option" where
  "unzip_file env zipf name =
     (case z_lookup env zipf name of
        None \<Rightarrow> None
      | Some sz \<Rightarrow>
          let datasz = z_datasz env sz in
          if \<not> z_malloc env datasz then None
          else map_option (\<lambda>d. (d, sz)) (z_unpack env zipf name datasz))"

subsection \<open>Requirements\<close>

definition strip :: "string \<Rightarrow> string" where
  "strip s = rev (dropWhile isspace (rev (dropWhile isspace s)))"

abbreviation MAX_OPTIONS :: nat where "MAX_OPTIONS \<equiv> 32"

text \<open>The loop that cuts the values at the bars; \<open>n\<close> is the number of further slots.\<close>

fun split_options :: "nat \<Rightarrow> string \<Rightarrow> string list" where
  "split_options 0 s = [s]"
| "split_options (Suc n) s =
     (case strchr (CHR ''|'') s of None \<Rightarrow> [s] | Some (v, rest) \<Rightarrow> v # split_options n rest)"

definition setup_requirement_line :: "string \<Rightarrow> action list \<Rightarrow> action list outcome" where
  "setup_requirement_line name q =
     (let (invert, name) =
            (if starts_with ''reject '' name then (True, drop 7 name)
             else if starts_with ''require '' name then (False, drop 8 name)
             else (False, name))
      in case strchr (CHR ''='') name of
           None \<Rightarrow> Inr q
         | Some (name, rest) \<Rightarrow>
             let vals = map strip (split_options (MAX_OPTIONS - 1) rest);
                 name = strip (strip name);
                 name = (if name = ''board'' then ''product'' else name)
             in fb_queue_require name invert (map strip vals) q)"

text \<open>The loop over the bytes of the file: a line is handled when its newline is met.\<close>

fun requirement_lines :: "string \<Rightarrow> string \<Rightarrow> action list \<Rightarrow> action list outcome" where
  "requirement_lines line [] q = Inr q"
| "requirement_lines line (c # s) q =
     (if c = CHR 0x0a
      then andthen (setup_requirement_line (cstr line) q) (requirement_lines [] s)
      else requirement_lines (line @ [c]) s q)"

definition setup_requirements :: "byte list \<Rightarrow> action list \<Rightarrow> action list outcome" where
  "setup_requirements data q = requirement_lines [] data q"

subsection \<open>Composite commands\<close>

definition queue_info_dump :: "action list \<Rightarrow> action list outcome" where
  "queue_info_dump q =
     andthen (fb_queue_notice ''--------------------------------------------'' q) (\<lambda>q.
     andthen (fb_queue_display ''version-bootloader'' ''Bootloader Version...'' q) (\<lambda>q.
     andthen (fb_queue_display ''version-baseband'' ''Baseband Version.....'' q) (\<lambda>q.
     andthen (fb_queue_display ''serialno'' ''Serial Number........'' q) (\<lambda>q.
     fb_queue_notice ''--------------------------------------------'' q))))"

definition queue_signature :: "byte list \<Rightarrow> u32 \<Rightarrow> action list \<Rightarrow> action list outcome" where
  "queue_signature data sz q =
     andthen (fb_queue_download ''signature'' data sz q) (\<lambda>q.
     fb_queue_command ''signature'' ''installing signature'' q)"

definition do_update_signature :: "fb_env \<Rightarrow> byte list \<Rightarrow> string \<Rightarrow> action list \<Rightarrow> action list outcome" where
  "do_update_signature env zipf fn q =
     (case unzip_file env zipf fn of None \<Rightarrow> Inr q | Some (data, sz) \<Rightarrow> queue_signature data sz q)"

text \<open>The requirement text of an update package, with the fallback for older packages.\<close>

definition update_info :: "fb_env \<Rightarrow> byte list \<Rightarrow> byte list outcome" where
  "update_info env zipf =
     (case unzip_file env zipf ''android-info.txt'' of
        Some (data, sz) \<Rightarrow> Inr (take (unat sz) data)
      | None \<Rightarrow>
          (case unzip_file env zipf ''android-product.txt'' of
             None \<Rightarrow> Inl (Die ''update package has no android-info.txt or android-product.txt'')
           | Some (data, sz) \<Rightarrow>
               if sz < 1
               then Inl (Die ''update package has no android-info.txt or android-product.txt'')
               else Inr (''board='' @ cstr data @ ''version-baseband=0.66.04.19'' @ [CHR 0x0a])))"

definition update_images :: "fb_env \<Rightarrow> byte list \<Rightarrow> action list \<Rightarrow> action list outcome" where
  "update_images env zipf q =
     (case unzip_file env zipf ''boot.img'' of
        None \<Rightarrow> Inl (Die ''update package missing boot.img'')
      | Some (boot, bsz) \<Rightarrow>
     andthen (do_update_signature env zipf ''boot.sig'' q) (\<lambda>q.
     andthen (fb_queue_flash ''boot'' boot bsz q) (\<lambda>q.
     andthen (case unzip_file env zipf ''recovery.img'' of
                None \<Rightarrow> Inr q
              | Some (rec, rsz) \<Rightarrow>
                  andthen (do_update_signature env zipf ''recovery.sig'' q) (\<lambda>q.
                  fb_queue_flash ''recovery'' rec rsz q)) (\<lambda>q.
     case unzip_file env zipf ''system.img'' of
       None \<Rightarrow> Inl (Die ''update package missing system.img'')
     | Some (system, ssz) \<Rightarrow>
     andthen (do_update_signature env zipf ''system.sig'' q) (\<lambda>q.
     fb_queue_flash ''system'' system ssz q)))))"

definition do_update :: "fb_env \<Rightarrow> string \<Rightarrow> action list \<Rightarrow> action list outcome" where
  "do_update env fn q =
     andthen (queue_info_dump q) (\<lambda>q.
     case load_named env fn of
       None \<Rightarrow> Inl (Die ''failed to load'')
     | Some zipf \<Rightarrow>
       if \<not> z_init env zipf then Inl (Die ''failed to access zipdata'')
       else andthen (update_info env zipf) (\<lambda>info.
            andthen (setup_requirements info q) (update_images env zipf)))"

definition do_send_signature :: "fb_env \<Rightarrow> string \<Rightarrow> action list \<Rightarrow> action list outcome" where
  "do_send_signature env fn q =
     (case strrchr (CHR ''.'') fn of
        None \<Rightarrow> Inr q
      | Some (stem, xtn) \<Rightarrow>
          if xtn \<noteq> ''img'' then Inr q
          else case load_named env (stem @ ''.sig'') of
                 None \<Rightarrow> Inr q
               | Some data \<Rightarrow> queue_signature data (size_of data) q)"

text \<open>\<open>find_item\<close> of a known partition, then the image with its signature.\<close>

definition flash_item ::
  "fb_env \<Rightarrow> string option \<Rightarrow> string \<Rightarrow> string option \<Rightarrow> action list \<Rightarrow> action list outcome" where
  "flash_item env product item missing q =
     andthen (find_item env item product) (\<lambda>fname.
     case (case fname of None \<Rightarrow> None | Some fn \<Rightarrow> load_named env fn) of
       None \<Rightarrow> (case missing of None \<Rightarrow> Inr q | Some msg \<Rightarrow> Inl (Die msg))
     | Some data \<Rightarrow>
         andthen (do_send_signature env (the fname) q) (\<lambda>q.
         fb_queue_flash item data (size_of data) q))"

definition flashall_images :: "fb_env \<Rightarrow> string option \<Rightarrow> action list \<Rightarrow> action list outcome" where
  "flashall_images env product q =
     andthen (flash_item env product ''boot'' (Some ''could not load boot.img'') q) (\<lambda>q.
     andthen (flash_item env product ''recovery'' None q) (\<lambda>q.
     flash_item env product ''system'' (Some ''could not load system.img'') q))"

definition do_flashall :: "fb_env \<Rightarrow> string option \<Rightarrow> action list \<Rightarrow> action list outcome" where
  "do_flashall env product q =
     andthen (queue_info_dump q) (\<lambda>q.
     andthen (find_item env ''info'' product) (\<lambda>fname.
     case fname of
       None \<Rightarrow> Inl (Die ''cannot find android-info.txt'')
     | Some fn \<Rightarrow>
     (case load_named env fn of
        None \<Rightarrow> Inl (Die ''could not load android-info.txt'')
      | Some info \<Rightarrow>
     andthen (setup_requirements info q) (flashall_images env product))))"

fun join_args :: "string list \<Rightarrow> string" where
  "join_args [] = []"
| "join_args [a] = a"
| "join_args (a # as) = a @ '' '' @ join_args as"

definition do_oem_command :: "string list \<Rightarrow> action list \<Rightarrow> action list outcome" where
  "do_oem_command argv q =
     (if length argv \<le> 1 then Inr q
      else let command = join_args argv in
           if 256 \<le> length command then Inl MemOverrun else fb_queue_command command [] q)"


subsection \<open>Devices\<close>

record usb_ifc_info =
  dev_vendor :: u16
  dev_product :: u16
  dev_class :: "8 word"
  dev_subclass :: "8 word"
  dev_protocol :: "8 word"
  ifc_class :: "8 word"
  ifc_subclass :: "8 word"
  ifc_protocol :: "8 word"
  has_bulk_in :: bool
  has_bulk_out :: bool
  ifc_writable :: bool
  serial_number :: string

definition match_fastboot :: "u16 \<Rightarrow> string option \<Rightarrow> usb_ifc_info \<Rightarrow> int" where
  "match_fastboot vendor_id serial info =
     (if \<not> (vendor_id \<noteq> 0 \<and> dev_vendor info = vendor_id)
         \<and> dev_vendor info \<noteq> 0x18d1 \<and> dev_vendor info \<noteq> 0x0451 \<and> dev_vendor info \<noteq> 0x0502
         \<and> dev_vendor info \<noteq> 0x0fce \<and> dev_vendor info \<noteq> 0x05c6 \<and> dev_vendor info \<noteq> 0x22b8
         \<and> dev_vendor info \<noteq> 0x0955 \<and> dev_vendor info \<noteq> 0x413c \<and> dev_vendor info \<noteq> 0x0408
         \<and> dev_vendor info \<noteq> 0x0bb4
      then -1
      else if ifc_class info \<noteq> 0xff then -1
      else if ifc_subclass info \<noteq> 0x42 then -1
      else if ifc_protocol info \<noteq> 0x03 then -1
      else if serial \<noteq> None \<and> serial \<noteq> Some (serial_number info) then -1
      else 0)"

definition list_devices_callback :: "u16 \<Rightarrow> string option \<Rightarrow> usb_ifc_info \<Rightarrow> string list" where
  "list_devices_callback vendor_id serial info =
     (if match_fastboot vendor_id serial info = 0 then
        let s = (if \<not> ifc_writable info then ''no permissions'' else serial_number info);
            s = (if s = [] then ''????????????'' else s)
        in [s @ [CHR 0x09] @ ''fastboot'']
      else [])"

definition list_devices :: "u16 \<Rightarrow> string option \<Rightarrow> usb_ifc_info list \<Rightarrow> string list" where
  "list_devices vendor_id serial infos = concat (map (list_devices_callback vendor_id serial) infos)"

subsection \<open>The command line\<close>

text \<open>One turn of the loop of \<open>main\<close>: the remaining arguments and the state.\<close>

definition main_step :: "fb_env \<Rightarrow> string list \<Rightarrow> fb_globals \<Rightarrow> (string list \<times> fb_globals) outcome" where
  "main_step env argv g =
     (let arg = hd argv; argc = length argv;
          go = (\<lambda>n m. andthen m (\<lambda>g. Inr (drop n argv, g)))
      in
      if arg = ''-w'' then Inr (drop 1 argv, g\<lparr>g_wipe := True\<rparr>)
      else if arg = ''-b'' then
        (if argc < 2 then Inl UsageExit
         else Inr (drop 2 argv, g\<lparr>g_base := ucast (strtoul 16 (argv ! 1))\<rparr>))
      else if arg = ''-n'' then
        (if argc < 2 then Inl UsageExit
         else let page_size = ucast (strtoul 0 (argv ! 1)) in
              if page_size = 0 then Inl (Die ''invalid page size'')
              else Inr (drop 2 argv, g\<lparr>g_page_size := page_size\<rparr>))
      else if arg = ''-s'' then
        (if argc < 2 then Inl UsageExit else Inr (drop 2 argv, g\<lparr>g_serial := Some (argv ! 1)\<rparr>))
      else if arg = ''-p'' then
        (if argc < 2 then Inl UsageExit else Inr (drop 2 argv, g\<lparr>g_product := Some (argv ! 1)\<rparr>))
      else if arg = ''-c'' then
        (if argc < 2 then Inl UsageExit else Inr (drop 2 argv, g\<lparr>g_cmdline := Some (argv ! 1)\<rparr>))
      else if arg = ''-i'' then
        (if argc < 2 then Inl UsageExit
         else let val = strtoul 0 (argv ! 1) in
              if strtoul_end 0 (argv ! 1) \<noteq> [] \<or> val AND NOT 0xffff \<noteq> 0
              then Inl (Die ''invalid vendor id'')
              else Inr (drop 2 argv, g\<lparr>g_vendor := ucast val\<rparr>))
      else if arg = ''getvar'' then
        (if argc < 2 then Inl UsageExit
         else go 2 (queue_step (fb_queue_display (argv ! 1) (argv ! 1)) g))
      else if arg = ''erase'' then
        (if argc < 2 then Inl UsageExit else go 2 (queue_step (fb_queue_erase (argv ! 1)) g))
      else if arg = ''signature'' then
        (if argc < 2 then Inl UsageExit
         else case load_named env (argv ! 1) of
                None \<Rightarrow> Inl (Die ''could not load'')
              | Some data \<Rightarrow>
                  if size_of data \<noteq> 256 then Inl (Die ''signature must be 256 bytes'')
                  else go 2 (queue_step (queue_signature data (size_of data)) g))
      else if arg = ''reboot'' then Inr (drop 1 argv, g\<lparr>g_reboot := True\<rparr>)
      else if arg = ''reboot-bootloader'' then Inr (drop 1 argv, g\<lparr>g_reboot_bootloader := True\<rparr>)
      else if arg = ''continue'' then
        go 1 (queue_step (fb_queue_command ''continue'' ''resuming boot'') g)
      else if arg = ''boot'' then
        (let kname = (if 1 < argc then Some (argv ! 1) else None);
             rname = (if 2 < argc then Some (argv ! 2) else None)
         in andthen (load_bootable_image env (g_base g) (g_page_size g) kname rname (g_cmdline g)) (\<lambda>data.
            case data of
              None \<Rightarrow> Inl (Exit 1)
            | Some d \<Rightarrow>
                go 3 (queue_step (\<lambda>q. andthen (fb_queue_download ''boot.img'' d (size_of d) q)
                                        (fb_queue_command ''boot'' ''booting'')) g)))
      else if arg = ''flash'' then
        (if argc < 2 then Inl UsageExit
         else let pname = argv ! 1 in
              andthen (if 2 < argc then Inr (Some (argv ! 2)) else find_item env pname (g_product g)) (\<lambda>fname.
              case fname of
                None \<Rightarrow> Inl (Die ''cannot determine image filename'')
              | Some fn \<Rightarrow>
                  (case load_named env fn of
                     None \<Rightarrow> Inl (Die ''cannot load'')
                   | Some data \<Rightarrow> go 3 (queue_step (fb_queue_flash pname data (size_of data)) g))))
      else if arg = ''flash:raw'' then
        (if argc < 3 then Inl UsageExit
         else let rname = (if 3 < argc then Some (argv ! 3) else None) in
              andthen (load_bootable_image env (g_base g) (g_page_size g) (Some (argv ! 2)) rname (g_cmdline g)) (\<lambda>data.
              case data of
                None \<Rightarrow> Inl (Die ''cannot load bootable image'')
              | Some d \<Rightarrow> go 4 (queue_step (fb_queue_flash (argv ! 1) d (size_of d)) g)))
      else if arg = ''flashall'' then
        go 1 (queue_step (do_flashall env (g_product g)) (g\<lparr>g_reboot := True\<rparr>))
      else if arg = ''update'' then
        go 2 (queue_step (do_update env (if 1 < argc then argv ! 1 else ''update.zip'')) (g\<lparr>g_reboot := True\<rparr>))
      else if arg = ''oem'' then andthen (queue_step (do_oem_command argv) g) (\<lambda>g. Inr ([], g))
      else Inl UsageExit)"

text \<open>Every turn consumes an argument, so the loop ends.\<close>

lemma main_step_shrinks:
  "argv \<noteq> [] \<Longrightarrow> main_step env argv g = Inr (argv', g') \<Longrightarrow> length argv' < length argv"
  unfolding main_step_def Let_def
  by (auto simp: andthen_eq_Inr split: if_splits option.splits)

function main_loop :: "fb_env \<Rightarrow> string list \<Rightarrow> fb_globals \<Rightarrow> fb_globals outcome" where
  "main_loop env argv g =
     (if argv = [] then Inr g
      else case main_step env argv g of Inl e \<Rightarrow> Inl e | Inr (argv, g) \<Rightarrow> main_loop env argv g)"
  by pat_completeness auto
termination
  by (relation "measure (\<lambda>(env, argv, g). length argv)") (auto dest: main_step_shrinks)

declare main_loop.simps [simp del]

definition initial_globals :: "string option \<Rightarrow> fb_globals" where
  "initial_globals env_serial =
     \<lparr>g_queue = [], g_serial = env_serial, g_product = None, g_cmdline = None, g_vendor = 0,
      g_base = 0x10000000, g_page_size = 2048, g_wipe = False, g_reboot = False,
      g_reboot_bootloader = False\<rparr>"

definition finish_queue :: "fb_globals \<Rightarrow> action list outcome" where
  "finish_queue g =
     andthen (if g_wipe g then andthen (fb_queue_erase ''userdata'' (g_queue g)) (fb_queue_erase ''cache'')
              else Inr (g_queue g)) (\<lambda>q.
     if g_reboot g then fb_queue_reboot q
     else if g_reboot_bootloader g
     then fb_queue_command ''reboot-bootloader'' ''rebooting into bootloader'' q
     else Inr q)"

definition build_queue :: "fb_env \<Rightarrow> string option \<Rightarrow> string list \<Rightarrow> action list outcome" where
  "build_queue env env_serial argv =
     andthen (main_loop env argv (initial_globals env_serial)) finish_queue"

text \<open>
  \<open>main\<close> for a queue of commands, once \<open>open_device\<close> has returned the handle \<open>u\<close>; \<open>infos\<close> are the
  interfaces that \<open>usb_open\<close> enumerates for the command \<open>devices\<close>.
\<close>

definition fastboot_main ::
  "fb_env \<Rightarrow> string option \<Rightarrow> usb_ifc_info list \<Rightarrow> string list \<Rightarrow> usb_handle \<Rightarrow> (string list \<times> usb_handle) outcome" where
  "fastboot_main env env_serial infos argv u =
     (if argv = [] then Inl UsageExit
      else if hd argv = ''devices'' then Inr (list_devices 0 None infos, u)
      else andthen (build_queue env env_serial argv) (\<lambda>q. Inr (fb_execute_queue q u)))"

subsection \<open>Reading the requirement file\<close>

fun join_bar :: "string list \<Rightarrow> string" where
  "join_bar [] = []"
| "join_bar [v] = v"
| "join_bar (v # vs) = v @ ''|'' @ join_bar vs"

lemma split_options_join:
  "vals \<noteq> [] \<Longrightarrow> length vals \<le> Suc n \<Longrightarrow> list_all (\<lambda>v. CHR ''|'' \<notin> set v) vals \<Longrightarrow>
   split_options n (join_bar vals) = vals"
proof (induction vals arbitrary: n rule: join_bar.induct)
  case (2 v)
  then show ?case by (cases n) (auto simp: strchr_None [THEN iffD2])
next
  case (3 v w vs)
  then obtain m where "n = Suc m" by (cases n) auto
  with 3 show ?case by (simp add: strchr_append)
qed simp

definition stripped :: "string \<Rightarrow> bool" where
  "stripped s \<longleftrightarrow> s = [] \<or> \<not> isspace (hd s) \<and> \<not> isspace (last s)"

lemma strip_stripped [simp]: "stripped s \<Longrightarrow> strip s = s"
proof (cases "s = []")
  case False
  assume "stripped s"
  with False have "dropWhile isspace s = s" "dropWhile isspace (rev s) = rev s"
    by (auto simp: stripped_def dropWhile_eq_self_iff hd_rev)
  then show ?thesis by (simp add: strip_def)
qed (simp add: strip_def)

text \<open>
  A line \<open>require NAME=V1|...|Vn\<close> or \<open>reject NAME=V1|...|Vn\<close> of the requirement file, with at most
  32 values, queues exactly one check of that variable against these values (\<open>board\<close> is asked as
  \<open>product\<close>).
\<close>

theorem requirement_line_parsed:
  assumes "CHR ''='' \<notin> set name" "stripped name"
    and "vals \<noteq> []" "length vals \<le> 32" "list_all (\<lambda>v. CHR ''|'' \<notin> set v \<and> stripped v) vals"
  shows "setup_requirement_line ((if invert then ''reject '' else ''require '') @ name @ ''='' @ join_bar vals) q
    = fb_queue_require (if name = ''board'' then ''product'' else name) invert vals q"
proof -
  have "split_options 31 (join_bar vals) = vals"
    using assms(3-5) by (intro split_options_join) (auto simp: list_all_iff)
  moreover have "map strip vals = vals"
    using assms(5) by (intro map_idI) (auto simp: list_all_iff)
  ultimately show ?thesis
    using assms(1,2)
    by (auto simp: setup_requirement_line_def starts_with_def strchr_append Let_def simp del: map_map)
qed

theorem requirement_line_parsed_witness:
  "setup_requirement_line ''require board=mahimahi|passion'' []
    = fb_queue_require ''product'' False [''mahimahi'', ''passion''] []"
  using requirement_line_parsed [where name = "''board''" and vals = "[''mahimahi'', ''passion'']"
      and invert = False and q = "[]"]
  by (simp add: stripped_def isspace_def)

text \<open>A last line without a newline is dropped: its requirement is never checked.\<close>

theorem unterminated_line_ignored:
  "setup_requirements ''require board=mahimahi'' [] = Inr []"
  by (simp add: setup_requirements_def)

subsection \<open>The order of an update\<close>

text \<open>A queueing step that only appends actions with a property.\<close>

definition adds :: "(action \<Rightarrow> bool) \<Rightarrow> (action list \<Rightarrow> action list outcome) \<Rightarrow> bool" where
  "adds P f \<longleftrightarrow> (\<forall>q q'. f q = Inr q' \<longrightarrow> (\<exists>x. q' = q @ x \<and> list_all P x))"

lemma addsD: "adds P f \<Longrightarrow> f q = Inr q' \<Longrightarrow> \<exists>x. q' = q @ x \<and> list_all P x"
  by (simp add: adds_def)

lemma adds_Inr [wf_intro]: "adds P Inr"
  by (simp add: adds_def)

lemma adds_Inl [wf_intro]: "adds P (\<lambda>q. Inl e)"
  by (simp add: adds_def)

lemma adds_andthen [wf_intro]: "adds P f \<Longrightarrow> adds P g \<Longrightarrow> adds P (\<lambda>q. andthen (f q) g)"
  by (auto simp: adds_def andthen_eq_Inr) (metis append_assoc list_all_append)

lemma adds_const [wf_intro]: "(\<And>x. adds P (\<lambda>q. f x q)) \<Longrightarrow> adds P (\<lambda>q. andthen m (\<lambda>x. f x q))"
  by (cases m) (simp_all add: adds_Inl)

lemma adds_if [wf_intro]: "adds P f \<Longrightarrow> adds P g \<Longrightarrow> adds P (\<lambda>q. if b then f q else g q)"
  by (cases b) simp_all

lemma adds_option [wf_intro]:
  "adds P f \<Longrightarrow> (\<And>x. adds P (\<lambda>q. g x q)) \<Longrightarrow> adds P (\<lambda>q. case m of None \<Rightarrow> f q | Some x \<Rightarrow> g x q)"
  by (cases m) simp_all

lemma adds_prod [wf_intro]: "(\<And>x y. adds P (\<lambda>q. g x y q)) \<Longrightarrow> adds P (\<lambda>q. case m of (x, y) \<Rightarrow> g x y q)"
  by (cases m) simp

definition is_check :: "action \<Rightarrow> bool" where
  "is_check a \<longleftrightarrow> (act_op a = OP_QUERY \<or> act_op a = OP_NOTICE) \<and> length (act_cmd a) < 64"

definition is_write :: "action \<Rightarrow> bool" where
  "is_write a \<longleftrightarrow> (act_op a = OP_COMMAND \<or> act_op a = OP_DOWNLOAD) \<and> length (act_cmd a) < 64"

lemma adds_queue:
  "adds is_check (fb_queue_notice s)" "adds is_check (fb_queue_display v p)"
  "adds is_check (fb_queue_require v i vs)"
  "adds is_write (fb_queue_erase p)" "adds is_write (fb_queue_flash p d sz)"
  "adds is_write (fb_queue_command c m)" "adds is_write (fb_queue_download n d sz)"
  "adds is_write fb_queue_reboot"
  by (auto simp: adds_def fb_queue_notice_def fb_queue_display_def fb_queue_require_def
      fb_queue_erase_def fb_queue_flash_def fb_queue_command_def fb_queue_download_def
      fb_queue_reboot_def queue_action_def is_check_def is_write_def split: if_splits)

lemmas adds_rules = wf_intro adds_queue

lemma adds_requirement_line: "adds is_check (setup_requirement_line line)"
  unfolding setup_requirement_line_def Let_def by (intro adds_rules)

lemma adds_requirement_lines: "adds is_check (requirement_lines line s)"
proof (induction s arbitrary: line)
  case Nil
  have "requirement_lines line [] = Inr" by (rule ext) simp
  then show ?case by (simp add: adds_Inr)
next
  case (Cons c s)
  have "requirement_lines line (c # s) =
      (\<lambda>q. if c = CHR 0x0a then andthen (setup_requirement_line (cstr line) q) (requirement_lines [] s)
           else requirement_lines (line @ [c]) s q)"
    by (rule ext) simp
  then show ?case
    using Cons by (simp only:) (intro adds_rules adds_requirement_line)
qed

lemma adds_setup_requirements: "adds is_check (setup_requirements data)"
  unfolding setup_requirements_def by (rule adds_requirement_lines)

lemma adds_info_dump: "adds is_check queue_info_dump"
  unfolding queue_info_dump_def by (intro adds_rules)

lemma adds_signatures:
  "adds is_write (queue_signature d sz)" "adds is_write (do_update_signature env z fn)"
  "adds is_write (do_send_signature env fn)"
  unfolding queue_signature_def do_update_signature_def do_send_signature_def
  by (intro adds_rules)+

lemma adds_flash_item: "adds is_write (flash_item env product item missing)"
  unfolding flash_item_def by (intro adds_rules adds_signatures)


lemma adds_update_images: "adds is_write (update_images env zipf)"
  unfolding update_images_def by (intro adds_rules adds_signatures)

lemma split_of_update:
  assumes "do_update env fn q = Inr q'"
  shows "\<exists>checks writes. q' = q @ checks @ writes \<and> list_all is_check checks \<and> list_all is_write writes"
proof -
  obtain q1 zipf info q2 where "queue_info_dump q = Inr q1" "setup_requirements info q1 = Inr q2"
    "update_images env zipf q2 = Inr q'"
    using assms by (auto simp: do_update_def andthen_eq_Inr split: option.splits if_splits)
  then obtain x y w where "q1 = q @ x" "q2 = q1 @ y" "q' = q2 @ w"
    "list_all is_check x" "list_all is_check y" "list_all is_write w"
    using addsD [OF adds_info_dump] addsD [OF adds_setup_requirements] addsD [OF adds_update_images] by meson
  then show ?thesis by (intro exI [of _ "x @ y"] exI [of _ w]) simp
qed

lemma adds_flashall_images: "adds is_write (flashall_images env product)"
  unfolding flashall_images_def by (intro adds_rules adds_flash_item)

lemma split_of_flashall:
  assumes "do_flashall env product q = Inr q'"
  shows "\<exists>checks writes. q' = q @ checks @ writes \<and> list_all is_check checks \<and> list_all is_write writes"
proof -
  obtain q1 fname where 1: "queue_info_dump q = Inr q1" and fn: "(case fname of
       None \<Rightarrow> Inl (Die ''cannot find android-info.txt'')
     | Some fn \<Rightarrow> (case load_named env fn of
        None \<Rightarrow> Inl (Die ''could not load android-info.txt'')
      | Some info \<Rightarrow> andthen (setup_requirements info q1) (flashall_images env product))) = Inr q'"
    using assms unfolding do_flashall_def andthen_eq_Inr by blast
  obtain info q2 where "setup_requirements info q1 = Inr q2" "flashall_images env product q2 = Inr q'"
    using fn by (cases fname; cases "load_named env (the fname)") (auto simp: andthen_eq_Inr)
  with 1 obtain x y w where "q1 = q @ x" "q2 = q1 @ y" "q' = q2 @ w"
    "list_all is_check x" "list_all is_check y" "list_all is_write w"
    using addsD [OF adds_info_dump] addsD [OF adds_setup_requirements] addsD [OF adds_flashall_images] by meson
  then show ?thesis by (intro exI [of _ "x @ y"] exI [of _ w]) simp
qed

lemma run_ok_None:
  "run_ok q1 u = None \<Longrightarrow> execute_loop (q1 @ q2) u = execute_loop q1 u"
proof (cases rule: execute_loop_cases [of q1 u])
  case (fails qa a qb o1 u1 st out u2)
  with execute_loop_failing [OF fails(2,3,4), of "qb @ q2"]
    execute_loop_failing [OF fails(2,3,4), of qb] show ?thesis by simp
qed simp

text \<open>
  C19: An update, by package or by \<open>flashall\<close>, first asks for everything it wants to know and only then
  writes: the queue is a part of queries and notices followed by a part of downloads and commands,
  and unless every query of the first part succeeds, running the queue with anything behind it is
  the same as running the first part alone, so that no image is downloaded or flashed.
\<close>

theorem update_checks_first:
  assumes "do_update env fn [] = Inr q \<or> do_flashall env product [] = Inr q"
  shows "\<exists>checks writes. q = checks @ writes \<and> list_all is_check checks \<and> list_all is_write writes
    \<and> (\<forall>u tail. run_ok checks u = None \<longrightarrow> fb_execute_queue (q @ tail) u = fb_execute_queue checks u)"
proof -
  obtain checks writes where q: "q = checks @ writes" "list_all is_check checks" "list_all is_write writes"
    using assms split_of_update [of env fn "[]" q] split_of_flashall [of env product "[]" q] by auto
  have "fb_execute_queue (q @ tail) u = fb_execute_queue checks u" if "run_ok checks u = None" for u tail
    using run_ok_None [OF that, of "writes @ tail"] q(1) by (simp add: fb_execute_queue_def)
  with q show ?thesis by blast
qed

text \<open>An archive with every entry a newline.\<close>

definition sample_fb_env :: fb_env where
  "sample_fb_env =
     \<lparr>e_files = (\<lambda>fn. \<lparr>fe_open = True, fe_end = 1, fe_rewind = 0, fe_malloc = (\<lambda>_. True),
                     fe_read = (\<lambda>n. Some [CHR 0x0a])\<rparr>),
      e_my_path = ''/out/'', e_product_out = None, e_calloc = (\<lambda>_. True),
      z_init = (\<lambda>_. True), z_lookup = (\<lambda>_ _. Some 1), z_datasz = (\<lambda>n. n), z_malloc = (\<lambda>_. True),
      z_unpack = (\<lambda>_ _ _. Some [CHR 0x0a])\<rparr>"

theorem update_checks_first_witness:
  "\<exists>q. do_update sample_fb_env ''update.zip'' [] = Inr q
    \<and> (\<exists>checks writes. q = checks @ writes \<and> list_all is_check checks \<and> list_all is_write writes)"
proof -
  have "\<not> isl (do_update sample_fb_env ''update.zip'' [])" by code_simp
  then obtain q where "do_update sample_fb_env ''update.zip'' [] = Inr q"
    by (cases "do_update sample_fb_env ''update.zip'' []") auto
  with update_checks_first [of sample_fb_env "''update.zip''" q None] show ?thesis by blast
qed

subsection \<open>Queued commands fit the wire\<close>

definition fits :: "action \<Rightarrow> bool" where
  "fits a \<longleftrightarrow> length (act_cmd a) < 64"

lemma adds_mono: "adds P f \<Longrightarrow> (\<And>a. P a \<Longrightarrow> Q a) \<Longrightarrow> adds Q f"
  by (auto simp: adds_def list_all_iff) blast

lemma adds_fits:
  "adds is_check f \<Longrightarrow> adds fits f" "adds is_write f \<Longrightarrow> adds fits f"
  by (auto elim!: adds_mono simp: is_check_def is_write_def fits_def)

lemma split_fits:
  assumes "\<And>q q'. f q = Inr q' \<Longrightarrow>
    \<exists>checks writes. q' = q @ checks @ writes \<and> list_all is_check checks \<and> list_all is_write writes"
  shows "adds fits f"
  unfolding adds_def
proof (intro allI impI)
  fix q q' assume "f q = Inr q'"
  then obtain x y where "q' = q @ x @ y" "list_all is_check x" "list_all is_write y"
    using assms by blast
  then show "\<exists>x. q' = q @ x \<and> list_all fits x"
    by (intro exI [of _ "x @ y"]) (auto simp: list_all_iff is_check_def is_write_def fits_def)
qed

lemma adds_fits_all:
  "adds fits (fb_queue_display v p)" "adds fits (fb_queue_erase p)" "adds fits (fb_queue_flash p d sz)"
  "adds fits (fb_queue_command c m)" "adds fits (fb_queue_download n d sz)" "adds fits fb_queue_reboot"
  "adds fits (queue_signature d sz)" "adds fits (do_update env fn)" "adds fits (do_flashall env product)"
  using split_fits [OF split_of_update] split_fits [OF split_of_flashall]
  by (simp_all add: adds_fits adds_queue adds_signatures)

lemma adds_fits_oem: "adds fits (do_oem_command argv)"
  unfolding do_oem_command_def Let_def by (intro adds_rules adds_fits_all)

lemma queue_step_grows:
  "queue_step f g = Inr g' \<Longrightarrow> adds fits f \<Longrightarrow> list_all fits (g_queue g) \<Longrightarrow> list_all fits (g_queue g')"
  by (auto simp: queue_step_def andthen_eq_Inr dest!: addsD)

lemma adds_boot: "adds fits (\<lambda>q. andthen (fb_queue_download n d sz q) (fb_queue_command c m))"
  by (intro adds_rules adds_fits_all)

lemma main_step_fits:
  assumes "main_step env argv g = Inr (argv', g')" "list_all fits (g_queue g)"
  shows "list_all fits (g_queue g')"
  using assms unfolding main_step_def Let_def
  by (auto simp: andthen_eq_Inr option_case_Inr split: if_split_asm
      intro: queue_step_grows adds_fits_all adds_fits_oem adds_boot)

lemma main_loop_fits:
  "main_loop env argv g = Inr g' \<Longrightarrow> list_all fits (g_queue g) \<Longrightarrow> list_all fits (g_queue g')"
proof (induction env argv g rule: main_loop.induct)
  case (1 env argv g)
  from "1.prems" show ?case
    unfolding main_loop.simps [of env argv g]
    by (auto split: if_splits sum.splits dest: main_step_fits intro: "1.IH")
qed

text \<open>
  Every command that the command line queues fits the 64-byte command packet of the protocol, so
  that no queued command is refused as too large.
\<close>

theorem queued_commands_fit:
  assumes "build_queue env env_serial argv = Inr q" "a \<in> set q"
  shows "length (act_cmd a) < 64 \<and> u_error (snd (snd (command_send (act_cmd a) None 0
    \<lparr>u_in = [], u_wr = [], u_out = [], u_closed = False, u_info = [], u_error = None\<rparr>))) \<noteq> Some CommandTooLarge"
proof -
  obtain g where g: "main_loop env argv (initial_globals env_serial) = Inr g" "finish_queue g = Inr q"
    using assms(1) by (auto simp: build_queue_def andthen_eq_Inr)
  then have "list_all fits (g_queue g)"
    by (auto intro: main_loop_fits simp: initial_globals_def)
  moreover have "adds fits (\<lambda>q. finish_queue (g\<lparr>g_queue := q\<rparr>))"
    unfolding finish_queue_def
    by (cases g) (simp only: fb_globals.simps, intro adds_rules adds_fits_all)
  from addsD [OF this, of "g_queue g" q] g(2)
  obtain x where "q = g_queue g @ x" "list_all fits x" by auto
  ultimately have l: "length (act_cmd a) < 64"
    using assms(2) by (auto simp: list_all_iff fits_def)
  then show ?thesis
    by (simp add: command_send_def usb_write_def check_response.simps usb_read_def usb_close_def set_error_def)
qed

theorem queued_commands_fit_witness:
  "\<exists>q a. build_queue sample_fb_env None [''erase'', ''boot''] = Inr q \<and> a \<in> set q
    \<and> length (act_cmd a) < 64"
proof -
  have "\<not> isl (build_queue sample_fb_env None [''erase'', ''boot''])
      \<and> projr (build_queue sample_fb_env None [''erase'', ''boot'']) \<noteq> []" by code_simp
  then obtain a q where "build_queue sample_fb_env None [''erase'', ''boot''] = Inr (a # q)"
    by (cases "build_queue sample_fb_env None [''erase'', ''boot'']") (auto simp: neq_Nil_conv)
  with queued_commands_fit [OF this, of a] show ?thesis by auto
qed

end
