(* ===== verification/AdbPacket.thy ===== *)
theory AdbPacket
  imports Cio
begin

text \<open>
  Packets of the debug bridge (src/tools/adb/adb.h) and how a transport moves them: the checks of
  a received header and payload (\<open>check_header\<close>, \<open>check_data\<close> of transport.c), the fields that
  \<open>send_packet\<close> fills in, and the two pairs \<open>remote_read\<close>/\<open>remote_write\<close>, over TCP
  (transport_local.c, on top of \<open>readx\<close>/\<open>writex\<close>) and over the USB device node
  (transport_usb.c with usb_linux_client.c). The host is little-endian, so \<open>fix_endians\<close> is empty.
  A locale states what a byte source promises; both transports are instances.
\<close>

subsection \<open>Messages\<close>

abbreviation MAX_PAYLOAD :: nat where "MAX_PAYLOAD \<equiv> 4096"

definition A_SYNC :: u32 where "A_SYNC = 0x434e5953"
definition A_CNXN :: u32 where "A_CNXN = 0x4e584e43"
definition A_OPEN :: u32 where "A_OPEN = 0x4e45504f"
definition A_OKAY :: u32 where "A_OKAY = 0x59414b4f"
definition A_CLSE :: u32 where "A_CLSE = 0x45534c43"
definition A_WRTE :: u32 where "A_WRTE = 0x45545257"
definition A_VERSION :: u32 where "A_VERSION = 0x01000000"

lemmas commands = A_SYNC_def A_CNXN_def A_OPEN_def A_OKAY_def A_CLSE_def A_WRTE_def

record amessage =
  command :: u32
  arg0 :: u32
  arg1 :: u32
  data_length :: u32
  data_check :: u32
  m_magic :: u32

text \<open>
  A packet with its buffer of \<open>MAX_PAYLOAD\<close> bytes; \<open>p_ptr\<close> and \<open>p_len\<close> are the part of the buffer
  that a local socket still has to write.
\<close>

record apacket =
  p_len :: nat
  p_ptr :: nat
  p_msg :: amessage
  p_data :: "byte list"

definition zero_msg :: amessage where
  "zero_msg = \<lparr>command = 0, arg0 = 0, arg1 = 0, data_length = 0, data_check = 0, m_magic = 0\<rparr>"

text \<open>\<open>get_apacket\<close> clears everything but the data; \<open>junk\<close> is what \<open>malloc\<close> left there.\<close>

definition get_apacket :: "byte list \<Rightarrow> apacket" where
  "get_apacket junk = \<lparr>p_len = 0, p_ptr = 0, p_msg = zero_msg, p_data = junk\<rparr>"

definition payload :: "apacket \<Rightarrow> byte list" where
  "payload p = take (unat (data_length (p_msg p))) (p_data p)"

subsection \<open>Checks\<close>

definition check_header :: "apacket \<Rightarrow> int" where
  "check_header p =
     (if m_magic (p_msg p) \<noteq> command (p_msg p) XOR 0xffffffff then -1
      else if 4096 < data_length (p_msg p) then -1
      else 0)"

text \<open>The loops that sum the payload bytes count down from \<open>data_length\<close>.\<close>

fun sum_bytes :: "nat \<Rightarrow> byte list \<Rightarrow> u32 \<Rightarrow> u32" where
  "sum_bytes (Suc count) (x # xs) acc = sum_bytes count xs (acc + word_of_byte x)"
| "sum_bytes _ _ acc = acc"

definition check_data :: "apacket \<Rightarrow> int" where
  "check_data p =
     (if sum_bytes (unat (data_length (p_msg p))) (p_data p) 0 \<noteq> data_check (p_msg p) then -1 else 0)"

text \<open>What \<open>send_packet\<close> fills in before it queues the packet.\<close>

definition seal_packet :: "apacket \<Rightarrow> apacket" where
  "seal_packet p =
     (let m = (p_msg p)\<lparr>m_magic := command (p_msg p) XOR 0xffffffff\<rparr>;
          acc = sum_bytes (unat (data_length m)) (p_data p) 0
      in p\<lparr>p_msg := m\<lparr>data_check := acc\<rparr>\<rparr>)"

subsection \<open>The message in memory\<close>

definition msg_bytes :: "amessage \<Rightarrow> byte list" where
  "msg_bytes m = le32 (command m) @ le32 (arg0 m) @ le32 (arg1 m) @ le32 (data_length m)
     @ le32 (data_check m) @ le32 (m_magic m)"

definition msg_of_bytes :: "byte list \<Rightarrow> amessage" where
  "msg_of_bytes bs =
     \<lparr>command = un_le32 bs, arg0 = un_le32 (drop 4 bs), arg1 = un_le32 (drop 8 bs),
      data_length = un_le32 (drop 12 bs), data_check = un_le32 (drop 16 bs), m_magic = un_le32 (drop 20 bs)\<rparr>"

lemma un_le32_append [simp]: "un_le32 (le32 w @ bs) = w"
proof -
  have "un_le32 (le32 w @ bs) = un_le32 (le32 w)"
    by (simp add: un_le32_def le32_def)
  then show ?thesis by simp
qed

lemma length_msg_bytes [simp]: "length (msg_bytes m) = 24"
  by (simp add: msg_bytes_def)

lemma msg_of_bytes_bytes [simp]: "msg_of_bytes (msg_bytes m) = m"
  by (cases m) (simp add: msg_of_bytes_def msg_bytes_def)

subsection \<open>Over TCP\<close>

definition local_remote_read :: "apacket \<Rightarrow> fdesc \<Rightarrow> int \<times> apacket \<times> fdesc" where
  "local_remote_read p f =
     (case readx 24 f of
        (None, f) \<Rightarrow> (-1, p, f)
      | (Some h, f) \<Rightarrow>
          let p = p\<lparr>p_msg := msg_of_bytes h\<rparr> in
          if check_header p \<noteq> 0 then (-1, p, f)
          else case readx (unat (data_length (p_msg p))) f of
                 (None, f) \<Rightarrow> (-1, p, f)
               | (Some d, f) \<Rightarrow>
                   let p = p\<lparr>p_data := d @ drop (length d) (p_data p)\<rparr> in
                   if check_data p \<noteq> 0 then (-1, p, f) else (0, p, f))"

definition local_remote_write :: "apacket \<Rightarrow> fdesc \<Rightarrow> int \<times> fdesc" where
  "local_remote_write p f =
     (case writex (msg_bytes (p_msg p) @ payload p) f of (ok, f) \<Rightarrow> (if ok then 0 else -1, f))"

subsection \<open>Over the USB device node\<close>

definition adb_usb_write :: "byte list \<Rightarrow> fdesc \<Rightarrow> int \<times> fdesc" where
  "adb_usb_write data f =
     (case sys_write data f of
        (Inr n, f) \<Rightarrow> (if n \<noteq> length data then -1 else 0, f)
      | (Inl _, f) \<Rightarrow> (-1, f))"

definition adb_usb_read :: "nat \<Rightarrow> fdesc \<Rightarrow> byte list option \<times> fdesc" where
  "adb_usb_read len f =
     (case sys_read len f of
        (Inr bs, f) \<Rightarrow> (if length bs \<noteq> len then None else Some bs, f)
      | (Inl _, f) \<Rightarrow> (None, f))"

definition usb_remote_read :: "apacket \<Rightarrow> fdesc \<Rightarrow> int \<times> apacket \<times> fdesc" where
  "usb_remote_read p f =
     (case adb_usb_read 24 f of
        (None, f) \<Rightarrow> (-1, p, f)
      | (Some h, f) \<Rightarrow>
          let p = p\<lparr>p_msg := msg_of_bytes h\<rparr> in
          if check_header p \<noteq> 0 then (-1, p, f)
          else case (if data_length (p_msg p) \<noteq> 0 then adb_usb_read (unat (data_length (p_msg p))) f
                     else (Some [], f)) of
                 (None, f) \<Rightarrow> (-1, p, f)
               | (Some d, f) \<Rightarrow>
                   let p = p\<lparr>p_data := d @ drop (length d) (p_data p)\<rparr> in
                   if check_data p \<noteq> 0 then (-1, p, f) else (0, p, f))"

definition usb_remote_write :: "apacket \<Rightarrow> fdesc \<Rightarrow> int \<times> fdesc" where
  "usb_remote_write p f =
     (case adb_usb_write (msg_bytes (p_msg p)) f of (r, f) \<Rightarrow>
      if r \<noteq> 0 then (-1, f)
      else if data_length (p_msg p) = 0 then (0, f)
      else case adb_usb_write (payload p) f of (r, f) \<Rightarrow> if r \<noteq> 0 then (-1, f) else (0, f))"

subsection \<open>Sums\<close>

lemma sum_bytes_take: "sum_bytes n (take n xs @ ys) s = sum_bytes n xs s" if "n \<le> length xs"
  using that by (induction n xs s rule: sum_bytes.induct) auto

lemma sum_bytes_prefix: "length d = n \<Longrightarrow> sum_bytes n (d @ ys) s = sum_bytes n d s"
  by (induction n d s rule: sum_bytes.induct) auto

lemma sum_bytes_sum: "sum_bytes n xs s = s + sum_list (map word_of_byte (take n xs))"
  by (induction n xs s rule: sum_bytes.induct) (simp_all add: add.assoc)

lemma seal_packet_fields [simp]:
  "command (p_msg (seal_packet p)) = command (p_msg p)" "arg0 (p_msg (seal_packet p)) = arg0 (p_msg p)"
  "arg1 (p_msg (seal_packet p)) = arg1 (p_msg p)" "data_length (p_msg (seal_packet p)) = data_length (p_msg p)"
  "p_data (seal_packet p) = p_data p" "p_len (seal_packet p) = p_len p" "p_ptr (seal_packet p) = p_ptr p"
  "payload (seal_packet p) = payload p"
  by (simp_all add: seal_packet_def payload_def Let_def)

subsection \<open>What a byte source promises\<close>

text \<open>
  A receive function that, when it succeeds, has taken exactly the requested number of bytes from
  the front of the stream; a stream source also succeeds whenever the bytes are there.
\<close>

locale byte_source =
  fixes recv :: "nat \<Rightarrow> 's \<Rightarrow> byte list option \<times> 's"
    and pending :: "'s \<Rightarrow> byte list"
  assumes recv_sound: "recv n s = (Some bs, s') \<Longrightarrow> length bs = n \<and> pending s = bs @ pending s'"

locale stream_source = byte_source +
  assumes recv_complete: "n \<le> length (pending s) \<Longrightarrow> \<exists>bs s'. recv n s = (Some bs, s')"

text \<open>Receiving a packet from any source.\<close>

definition recv_packet ::
  "(nat \<Rightarrow> 's \<Rightarrow> byte list option \<times> 's) \<Rightarrow> apacket \<Rightarrow> 's \<Rightarrow> int \<times> apacket \<times> 's" where
  "recv_packet recv p s =
     (case recv 24 s of
        (None, s) \<Rightarrow> (-1, p, s)
      | (Some h, s) \<Rightarrow>
          let p = p\<lparr>p_msg := msg_of_bytes h\<rparr> in
          if check_header p \<noteq> 0 then (-1, p, s)
          else case recv (unat (data_length (p_msg p))) s of
                 (None, s) \<Rightarrow> (-1, p, s)
               | (Some d, s) \<Rightarrow>
                   let p = p\<lparr>p_data := d @ drop (length d) (p_data p)\<rparr> in
                   if check_data p \<noteq> 0 then (-1, p, s) else (0, p, s))"

lemma check_header_ok:
  "check_header p = 0 \<longleftrightarrow>
     m_magic (p_msg p) = command (p_msg p) XOR 0xffffffff \<and> unat (data_length (p_msg p)) \<le> MAX_PAYLOAD"
  by (auto simp: check_header_def word_less_nat_alt not_less)

context byte_source
begin

text \<open>An accepted packet is well-formed, and it is what the stream had next.\<close>

lemma recv_packet_sound:
  assumes "recv_packet recv p s = (0, p', s')"
  shows "check_header p' = 0 \<and> check_data p' = 0
    \<and> p_msg p' = msg_of_bytes (take 24 (pending s))
    \<and> length (payload p') = unat (data_length (p_msg p'))
    \<and> drop 24 (pending s) = payload p' @ pending s'"
proof -
  obtain h s1 where h: "recv 24 s = (Some h, s1)"
    using assms by (auto simp: recv_packet_def split: prod.splits option.splits)
  let ?p = "p\<lparr>p_msg := msg_of_bytes h\<rparr>"
  have c: "check_header ?p = 0"
    using assms h by (auto simp: recv_packet_def Let_def split: if_splits)
  obtain d where d: "recv (unat (data_length (p_msg ?p))) s1 = (Some d, s')"
    "p' = ?p\<lparr>p_data := d @ drop (length d) (p_data p)\<rparr>" "check_data p' = 0"
    using assms h c by (auto simp: recv_packet_def Let_def split: prod.splits option.splits if_splits)
  show ?thesis
    using recv_sound [OF h] recv_sound [OF d(1)] d c
    by (auto simp: payload_def check_header_ok)
qed

end

context stream_source
begin

text \<open>A packet that was written comes back.\<close>

lemma recv_packet_complete:
  assumes "check_header q = 0" "check_data q = 0" "length (p_data q) = MAX_PAYLOAD"
    and "pending s = msg_bytes (p_msg q) @ payload q @ rest"
  shows "\<exists>p' s'. recv_packet recv p s = (0, p', s') \<and> p_msg p' = p_msg q \<and> payload p' = payload q
    \<and> pending s' = rest"
proof -
  let ?n = "unat (data_length (p_msg q))"
  obtain h s1 where h: "recv 24 s = (Some h, s1)"
    using recv_complete [of 24 s] assms(4) by auto
  from recv_sound [OF h] assms(4)
  have hm: "h = msg_bytes (p_msg q)" "pending s1 = payload q @ rest"
    using append_eq_append_conv [of "msg_bytes (p_msg q)" h "payload q @ rest" "pending s1"] by auto
  have n: "length (payload q) = ?n"
    using assms(1,3) by (simp add: payload_def check_header_ok)
  then obtain d s2 where d: "recv ?n s1 = (Some d, s2)"
    using recv_complete [of ?n s1] hm(2) by auto
  from recv_sound [OF d] n hm(2) have dm: "d = payload q" "pending s2 = rest"
    using append_eq_append_conv [of "payload q" d rest "pending s2"] by auto
  let ?p = "p\<lparr>p_msg := p_msg q, p_data := payload q @ drop ?n (p_data p)\<rparr>"
  have "sum_bytes ?n (payload q @ drop ?n (p_data p)) 0 = sum_bytes ?n (p_data q) 0"
    using assms(1,3) unfolding payload_def by (intro sum_bytes_take) (simp add: check_header_ok)
  then have "check_data ?p = 0"
    using assms(2) by (simp add: check_data_def)
  moreover have "check_header (p\<lparr>p_msg := p_msg q\<rparr>) = 0"
    using assms(1) by (simp add: check_header_ok)
  ultimately have "recv_packet recv p s = (0, ?p, s2)"
    using h d hm(1) dm(1) n by (simp add: recv_packet_def)
  then show ?thesis
    using dm(2) n by (auto simp: payload_def)
qed

end

subsection \<open>The two transports as sources\<close>

interpretation tcp: stream_source readx pending_in
proof
  fix n s bs s'
  assume r: "readx n s = (Some bs, s')"
  have le: "n \<le> length (pending_in s)"
    using readx_short [of s n] r by (cases "n \<le> length (pending_in s)") auto
  from readx_stream [OF this] r
  have "bs = take n (pending_in s)" "pending_in s' = drop n (pending_in s)" by auto
  with le show "length bs = n \<and> pending_in s = bs @ pending_in s'" by simp
next
  fix n s assume "n \<le> length (pending_in s)"
  from readx_stream [OF this] show "\<exists>bs s'. readx n s = (Some bs, s')" by blast
qed

text \<open>The device node is read with one call per part, and not at all for an empty payload.\<close>

definition usb_recv :: "nat \<Rightarrow> fdesc \<Rightarrow> byte list option \<times> fdesc" where
  "usb_recv n f = (if n = 0 then (Some [], f) else adb_usb_read n f)"

interpretation usb: byte_source usb_recv pending_in
proof
  fix n s bs s'
  assume r: "usb_recv n s = (Some bs, s')"
  show "length bs = n \<and> pending_in s = bs @ pending_in s'"
  proof (cases "n = 0")
    case True
    with r show ?thesis by (simp add: usb_recv_def)
  next
    case False
    then have "sys_read n s = (Inr bs, s')" "length bs = n"
      using r by (auto simp: usb_recv_def adb_usb_read_def split: prod.splits sum.splits if_splits)
    with sys_read_data(1) [of n s bs s'] False show ?thesis by (cases "bs = []") auto
  qed
qed

lemma local_remote_read_recv: "local_remote_read p f = recv_packet readx p f"
  by (simp add: local_remote_read_def recv_packet_def)

lemma usb_remote_read_recv: "usb_remote_read p f = recv_packet usb_recv p f"
  by (auto simp: usb_remote_read_def recv_packet_def usb_recv_def unat_eq_0 Let_def
      split: prod.split option.split)

definition sample_packet :: apacket where
  "sample_packet = \<lparr>p_len = 0, p_ptr = 0, p_msg = zero_msg\<lparr>command := A_WRTE, data_length := 2\<rparr>,
     p_data = ''hi'' @ replicate 4094 (CHR 0x00)\<rparr>"

lemma sample_packet_ok:
  "check_header (seal_packet sample_packet) = 0" "check_data (seal_packet sample_packet) = 0"
  "length (p_data (seal_packet sample_packet)) = MAX_PAYLOAD"
  by (simp_all add: check_header_ok check_data_def sample_packet_def)
    (simp_all add: seal_packet_def Let_def)

text \<open>The packet on a descriptor, interrupted once before it arrives.\<close>

definition sample_input :: fdesc where
  "sample_input = \<lparr>fd_in = [Inl EINTR, Inr (msg_bytes (p_msg (seal_packet sample_packet)) @ ''hi'')],
     fd_wr = [], fd_out = []\<rparr>"

lemma sample_input_read:
  "\<exists>q f'. local_remote_read (get_apacket []) sample_input = (0, q, f') \<and> payload q = ''hi''"
proof -
  have "pending_in sample_input = msg_bytes (p_msg (seal_packet sample_packet)) @ ''hi''"
    by (simp add: sample_input_def pending_in_def)
  moreover have h: "payload (seal_packet sample_packet) = ''hi''"
    by (simp add: payload_def sample_packet_def)
  ultimately show ?thesis
    using tcp.recv_packet_complete [OF sample_packet_ok, of sample_input "[]" "get_apacket []"]
    unfolding local_remote_read_recv by auto
qed

text \<open>
  C23: A packet accepted from the wire, over TCP or USB, however the bytes arrived, has the magic of its
  command, a payload of at most 4096 bytes (so it fits the packet's buffer) whose bytes add up to the
  checksum of the header, and consists of exactly the bytes the stream had next. The checksum is this
  sum modulo 2^32 and not the CRC-32 that the description of the protocol names.
\<close>

theorem remote_read_sound:
  assumes "local_remote_read p f = (0, q, f') \<or> usb_remote_read p f = (0, q, f')"
  shows "m_magic (p_msg q) = command (p_msg q) XOR 0xffffffff
    \<and> length (payload q) = unat (data_length (p_msg q)) \<and> length (payload q) \<le> MAX_PAYLOAD
    \<and> data_check (p_msg q) = sum_list (map word_of_byte (payload q))
    \<and> p_msg q = msg_of_bytes (take 24 (pending_in f))
    \<and> drop 24 (pending_in f) = payload q @ pending_in f'"
proof -
  have "check_header q = 0 \<and> check_data q = 0 \<and> p_msg q = msg_of_bytes (take 24 (pending_in f))
    \<and> length (payload q) = unat (data_length (p_msg q)) \<and> drop 24 (pending_in f) = payload q @ pending_in f'"
    using assms tcp.recv_packet_sound usb.recv_packet_sound
    unfolding local_remote_read_recv usb_remote_read_recv by blast
  moreover have "sum_bytes (unat (data_length (p_msg q))) (p_data q) 0 = sum_list (map word_of_byte (payload q))"
    by (simp add: sum_bytes_sum payload_def)
  ultimately show ?thesis
    by (auto simp: check_header_ok check_data_def split: if_splits)
qed

theorem remote_read_sound_witness:
  "\<exists>q f'. local_remote_read (get_apacket []) sample_input = (0, q, f')
    \<and> m_magic (p_msg q) = command (p_msg q) XOR 0xffffffff
    \<and> data_check (p_msg q) = sum_list (map word_of_byte ''hi'')"
proof -
  obtain q f' where r: "local_remote_read (get_apacket []) sample_input = (0, q, f')" "payload q = ''hi''"
    using sample_input_read by blast
  from remote_read_sound [OF disjI1 [OF r(1)]] show ?thesis
    using r(1) unfolding r(2) by blast
qed

text \<open>
  C24: Round trip: a packet prepared by \<open>send_packet\<close> and written to a TCP transport is read back by the
  other side with the same message and payload, for every way the kernel cuts and interrupts the
  writes and reads.
\<close>

theorem packet_roundtrip:
  assumes "unat (data_length (p_msg p)) \<le> MAX_PAYLOAD" "length (p_data p) = MAX_PAYLOAD"
    and "list_all write_ok (fd_wr out)" "fd_out out = []"
    and "pending_in inp = fd_out (snd (local_remote_write (seal_packet p) out)) @ rest"
  shows "fst (local_remote_write (seal_packet p) out) = 0
    \<and> (\<exists>q inp'. local_remote_read fresh inp = (0, q, inp') \<and> p_msg q = p_msg (seal_packet p)
         \<and> payload q = payload p \<and> pending_in inp' = rest)"
proof -
  let ?q = "seal_packet p"
  obtain out' where w: "writex (msg_bytes (p_msg ?q) @ payload ?q) out = (True, out')"
    using writex_succeeds [OF assms(3)] by (metis prod.collapse)
  then have o: "fd_out out' = msg_bytes (p_msg ?q) @ payload ?q"
    using writex_True [OF w] assms(4) by simp
  have "check_header ?q = 0"
    using assms(1) by (simp add: check_header_ok) (simp add: seal_packet_def Let_def)
  moreover have "check_data ?q = 0"
    by (simp add: check_data_def) (simp add: seal_packet_def Let_def)
  ultimately have "\<exists>q inp'. local_remote_read fresh inp = (0, q, inp') \<and> p_msg q = p_msg ?q
         \<and> payload q = payload ?q \<and> pending_in inp' = rest"
    unfolding local_remote_read_recv using assms(2,5) w o
    by (intro tcp.recv_packet_complete) (auto simp: local_remote_write_def)
  with w show ?thesis by (simp add: local_remote_write_def)
qed

theorem packet_roundtrip_witness:
  "let out = \<lparr>fd_in = [], fd_wr = [Inr 5, Inl EINTR], fd_out = []\<rparr>;
       bytes = fd_out (snd (local_remote_write (seal_packet sample_packet) out));
       inp = \<lparr>fd_in = [Inl EINTR, Inr bytes], fd_wr = [], fd_out = []\<rparr>
   in \<exists>q inp'. local_remote_read (get_apacket []) inp = (0, q, inp') \<and> payload q = payload sample_packet"
proof -
  let ?out = "\<lparr>fd_in = [], fd_wr = [Inr 5, Inl EINTR], fd_out = []\<rparr>"
  let ?bytes = "fd_out (snd (local_remote_write (seal_packet sample_packet) ?out))"
  let ?inp = "\<lparr>fd_in = [Inl EINTR, Inr ?bytes], fd_wr = [], fd_out = []\<rparr>"
  have "unat (data_length (p_msg sample_packet)) \<le> MAX_PAYLOAD" "length (p_data sample_packet) = MAX_PAYLOAD"
    by (simp_all add: sample_packet_def)
  moreover have "pending_in ?inp = ?bytes @ []" by (simp add: pending_in_def)
  ultimately show ?thesis
    using packet_roundtrip [of sample_packet ?out ?inp "[]" "get_apacket []"] by (simp add: Let_def) blast
qed

end
