(* ===== verification/Dlink.thy ===== *)
theory Dlink
  imports Prelude
begin

text \<open>
  The circular doubly linked lists of the debug bridge. Sockets (\<open>insert_local_socket\<close>,
  \<open>remove_socket\<close> of sockets.c), transports and their disconnect callbacks (transport.c),
  listeners (adb.c) and file events (fdevent.c) are all chained through \<open>next\<close>/\<open>prev\<close> pointers
  around a list head that is part of the ring. The pointer updates are modelled on a pair of maps
  from addresses to addresses, and are shown to be the list operations that the other theories use.
\<close>

subsection \<open>The pointer operations\<close>

record links =
  nx :: "nat \<Rightarrow> nat"
  pv :: "nat \<Rightarrow> nat"

text \<open>A head that points to itself is an empty list.\<close>

definition ring_init :: "nat \<Rightarrow> links \<Rightarrow> links" where
  "ring_init h L = L\<lparr>nx := (nx L)(h := h), pv := (pv L)(h := h)\<rparr>"

text \<open>
  \<open>s->next = list; s->prev = s->next->prev; s->prev->next = s; s->next->prev = s;\<close>
\<close>

definition ring_insert :: "nat \<Rightarrow> nat \<Rightarrow> links \<Rightarrow> links" where
  "ring_insert h s L =
     (let L = L\<lparr>nx := (nx L)(s := h)\<rparr>;
          L = L\<lparr>pv := (pv L)(s := pv L (nx L s))\<rparr>;
          L = L\<lparr>nx := (nx L)(pv L s := s)\<rparr>
      in L\<lparr>pv := (pv L)(nx L s := s)\<rparr>)"

text \<open>\<open>s->prev->next = s->next; s->next->prev = s->prev;\<close> the links of \<open>s\<close> itself stay.\<close>

definition ring_unlink :: "nat \<Rightarrow> links \<Rightarrow> links" where
  "ring_unlink s L =
     (let L = L\<lparr>nx := (nx L)(pv L s := nx L s)\<rparr>
      in L\<lparr>pv := (pv L)(nx L s := pv L s)\<rparr>)"

text \<open>The traversal \<open>for(s = list.next; s != &list; s = s->next)\<close>, with a bound on its length.\<close>

fun ring_walk :: "nat \<Rightarrow> nat \<Rightarrow> nat \<Rightarrow> links \<Rightarrow> nat list" where
  "ring_walk 0 h s L = []"
| "ring_walk (Suc n) h s L = (if s = h then [] else s # ring_walk n h (nx L s) L)"

subsection \<open>Rings\<close>

fun path :: "links \<Rightarrow> nat \<Rightarrow> nat list \<Rightarrow> nat \<Rightarrow> bool" where
  "path L a [] b \<longleftrightarrow> nx L a = b \<and> pv L b = a"
| "path L a (x # xs) b \<longleftrightarrow> nx L a = x \<and> pv L x = a \<and> path L x xs b"

definition ring :: "nat \<Rightarrow> nat list \<Rightarrow> links \<Rightarrow> bool" where
  "ring h xs L \<longleftrightarrow> distinct (h # xs) \<and> path L h xs h"

lemma path_append [simp]: "path L a (xs @ x # ys) b \<longleftrightarrow> path L a xs x \<and> path L x ys b"
  by (induction xs arbitrary: a) auto

lemma path_cong:
  "path L a xs b \<Longrightarrow> (\<And>k. k \<in> set (a # xs) \<Longrightarrow> nx L' k = nx L k) \<Longrightarrow>
   (\<And>k. k \<in> set (xs @ [b]) \<Longrightarrow> pv L' k = pv L k) \<Longrightarrow> path L' a xs b"
  by (induction xs arbitrary: a) auto

lemma ring_init_empty: "ring h [] (ring_init h L)"
  by (simp add: ring_def ring_init_def)

lemma ring_insert_nx_pv:
  assumes "s \<noteq> h" "pv L h \<noteq> s"
  shows "ring_insert h s L = L\<lparr>nx := (nx L)(s := h, pv L h := s), pv := (pv L)(s := pv L h, h := s)\<rparr>"
  using assms by (simp add: ring_insert_def Let_def)

lemma ring_insert_refines:
  assumes "ring h xs L" "s \<notin> set (h # xs)"
  shows "ring h (xs @ [s]) (ring_insert h s L)"
proof (cases xs rule: rev_cases)
  case Nil
  with assms show ?thesis by (simp add: ring_def ring_insert_nx_pv)
next
  case (snoc ys y)
  have p: "pv L h = y" using assms snoc by (simp add: ring_def)
  then have i: "ring_insert h s L = L\<lparr>nx := (nx L)(s := h, y := s), pv := (pv L)(s := y, h := s)\<rparr>"
    using assms snoc by (subst ring_insert_nx_pv) auto
  have "path L h ys y" using assms snoc by (simp add: ring_def)
  then have "path (ring_insert h s L) h ys y"
    using assms snoc unfolding i by (rule_tac path_cong) (auto simp: ring_def)
  with assms snoc show ?thesis
    unfolding ring_def by (auto simp: i)
qed

lemma ring_unlink_refines:
  assumes "ring h (xs @ s # ys) L"
  shows "ring h (xs @ ys) (ring_unlink s L)"
proof -
  let ?p = "last (h # xs)" and ?n = "hd (ys @ [h])"
  have d: "distinct (h # xs @ s # ys)" and px: "path L h xs s" and py: "path L s ys h"
    using assms by (auto simp: ring_def)
  have p: "pv L s = ?p" using px by (cases xs rule: rev_cases) auto
  have n: "nx L s = ?n" using py by (cases ys) auto
  have ps: "?p \<noteq> s" using d by (cases xs rule: rev_cases) auto
  have u: "ring_unlink s L = L\<lparr>nx := (nx L)(?p := ?n), pv := (pv L)(?n := ?p)\<rparr>"
    using p n ps by (simp add: ring_unlink_def Let_def)
  have "path (ring_unlink s L) h (xs @ ys) h"
  proof (cases xs rule: rev_cases)
    case Nil
    then show ?thesis
    proof (cases ys)
      case (Cons z zs)
      have "path L z zs h" using py Cons by simp
      then have "path (ring_unlink s L) z zs h"
        using d Cons Nil unfolding u by (rule_tac path_cong) auto
      with Nil Cons show ?thesis by (simp add: u)
    qed (simp add: u)
  next
    case (snoc ws w)
    have pw: "path (ring_unlink s L) h ws w"
    proof (rule path_cong)
      show "path L h ws w" using px snoc by simp
    qed (use d snoc in \<open>auto simp: u hd_append split: list.splits\<close>)
    show ?thesis
    proof (cases ys)
      case Nil
      with pw snoc show ?thesis by (simp add: u)
    next
      case (Cons z zs)
      have "path (ring_unlink s L) z zs h"
      proof (rule path_cong)
        show "path L z zs h" using py Cons by simp
      qed (use d snoc Cons in \<open>auto simp: u\<close>)
      with pw snoc Cons show ?thesis by (simp add: u)
    qed
  qed
  with d show ?thesis by (simp add: ring_def)
qed

lemma ring_walk_path:
  "path L a xs h \<Longrightarrow> h \<notin> set xs \<Longrightarrow> length xs < n \<Longrightarrow> ring_walk n h (nx L a) L = xs"
proof (induction xs arbitrary: a n)
  case Nil
  then show ?case by (cases n) auto
next
  case (Cons x xs)
  then obtain m where "n = Suc m" by (cases n) auto
  with Cons show ?case by auto
qed

lemma ring_walk_ring: "ring h xs L \<Longrightarrow> length xs < n \<Longrightarrow> ring_walk n h (nx L h) L = xs"
  by (simp add: ring_def ring_walk_path)

text \<open>
  C25: The pointer operations on the circular lists are the operations on sequences that the rest of the
  development uses: insertion appends, unlinking removes one element and leaves the order of the
  others, and the traversal visits exactly the elements of the list.
\<close>

theorem ring_operations:
  assumes "ring h (xs @ s # ys) L" "t \<notin> set (h # xs @ s # ys)"
  shows "ring h (xs @ s # ys @ [t]) (ring_insert h t L)
    \<and> ring h (xs @ ys) (ring_unlink s L)
    \<and> ring_walk (length (xs @ s # ys) + 1) h (nx L h) L = xs @ s # ys"
  using ring_insert_refines [OF assms] ring_unlink_refines [OF assms(1)]
    ring_walk_ring [OF assms(1), of "length (xs @ s # ys) + 1"]
  by (simp del: ring_walk.simps)

text \<open>
  Unlinking a node a second time is not harmless: its own links still name the old neighbours, and a
  node inserted at the end in between is lost.
\<close>

lemma double_unlink:
  assumes "ring h (xs @ [s]) L" "t \<notin> set (h # xs @ [s])"
  shows "ring h xs (ring_unlink s (ring_insert h t (ring_unlink s L)))"
proof -
  define p where "p = last (h # xs)"
  define M where "M = ring_unlink s L"
  have d: "distinct (h # xs @ [s])" and px: "path L h xs s" and sn: "nx L s = h"
    using assms(1) by (auto simp: ring_def)
  have sp: "pv L s = p" using px unfolding p_def by (cases xs rule: rev_cases) auto
  have ps: "p \<noteq> s" "p \<noteq> t" using d assms(2) unfolding p_def by (cases xs rule: rev_cases; auto)+
  have st: "s \<noteq> t" "s \<noteq> h" "t \<noteq> h" using d assms(2) by auto
  have r1: "ring h xs M" using ring_unlink_refines [of h xs s "[]" L] assms(1) by (simp add: M_def)
  have u1: "M = L\<lparr>nx := (nx L)(p := h), pv := (pv L)(h := p)\<rparr>"
    unfolding M_def using sp sn ps by (simp add: ring_unlink_def Let_def)
  have m: "nx M s = h" "pv M s = p" "pv M h = p" "nx M p = h"
    using sn sp ps st by (simp_all add: u1)
  have i: "ring_insert h t M = M\<lparr>nx := (nx M)(t := h, p := t), pv := (pv M)(t := p, h := t)\<rparr>"
    using m ps st by (subst ring_insert_nx_pv) auto
  have "ring_unlink s (ring_insert h t M) = M\<lparr>nx := (nx M)(t := h, p := h), pv := (pv M)(t := p, h := p)\<rparr>"
    unfolding i ring_unlink_def Let_def using m ps st by simp
  moreover have "path (M\<lparr>nx := (nx M)(t := h, p := h), pv := (pv M)(t := p, h := p)\<rparr>) h xs h"
  proof (rule path_cong)
    show "path M h xs h" using r1 by (simp add: ring_def)
  qed (use assms(2) m in auto)
  ultimately show ?thesis using d by (simp add: ring_def M_def)
qed

theorem ring_operations_witness:
  "let L = ring_insert 0 1 (ring_init 0 \<lparr>nx = (\<lambda>_. 7), pv = (\<lambda>_. 7)\<rparr>)
   in ring 0 [1, 2] (ring_insert 0 2 L) \<and> ring 0 [] (ring_unlink 1 L) \<and> ring_walk 2 0 (nx L 0) L = [1]"
proof -
  let ?L = "ring_insert 0 1 (ring_init 0 \<lparr>nx = (\<lambda>_. 7), pv = (\<lambda>_. 7)\<rparr>)"
  have "ring 0 ([] @ 1 # []) ?L"
    using ring_insert_refines [OF ring_init_empty, of 1 0] by simp
  from ring_operations [OF this, of 2] show ?thesis
    by (simp add: numeral_2_eq_2 del: ring_walk.simps)
qed

end
