(* ===== verification/AdbTransport.thy ===== *)
theory AdbTransport
  imports AdbPacket Dlink Clib
begin

text \<open>
  Transports of the debug bridge: the registry of src/tools/adb/transport.c (the list of transports,
  reference counts, kicking, lookup and listing), the table of emulator transports of
  transport_local.c, and the two pump threads of a transport with their SYNC handshake. The
  transport list keeps its \<open>next\<close>/\<open>prev\<close> pointers, because a transport can be unlinked twice. The
  list head is address 0. What the transports do to the outside (kick, close, messages to the
  registration socket) is recorded in the order it happens.
\<close>

subsection \<open>State\<close>

datatype transport_type = kTransportUsb | kTransportLocal | kTransportAny | kTransportHost

datatype conn_state = CS_ANY | CS_OFFLINE | CS_BOOTLOADER | CS_DEVICE | CS_HOST | CS_RECOVERY | CS_NOPERM

text \<open>Who is to be told when a transport goes away: a remote socket or a listener, by address.\<close>

datatype adisconnect = Dis_socket nat | Dis_listener nat

record atransport =
  t_state :: conn_state
  t_type :: transport_type
  t_serial :: "string option"
  t_product :: "string option"
  t_adb_port :: int
  t_ref_count :: int
  t_sync_token :: u32
  t_sfd :: int
  t_usb :: "nat option"
  t_kicked :: bool
  t_sent :: "apacket list"
  t_disconnects :: "adisconnect list"

datatype tevent =
    Kick nat
  | Close_transport nat
  | Shutdown_fd int
  | Tmsg nat int
  | Disconnect adisconnect nat
  | Update_transports string

abbreviation ADB_LOCAL_TRANSPORT_MAX :: nat where "ADB_LOCAL_TRANSPORT_MAX \<equiv> 16"

record registry =
  r_heap :: "nat \<Rightarrow> atransport option"
  r_links :: links
  r_next :: nat
  r_local :: "nat option list"
  r_events :: "tevent list"

definition upd_transport :: "nat \<Rightarrow> (atransport \<Rightarrow> atransport) \<Rightarrow> 'a registry_scheme \<Rightarrow> 'a registry_scheme" where
  "upd_transport t f r = r\<lparr>r_heap := (r_heap r)(t := map_option f (r_heap r t))\<rparr>"

definition log_event :: "tevent \<Rightarrow> 'a registry_scheme \<Rightarrow> 'a registry_scheme" where
  "log_event e r = r\<lparr>r_events := r_events r @ [e]\<rparr>"

text \<open>The transports on the list, in list order.\<close>

definition transport_nodes :: "'a registry_scheme \<Rightarrow> nat list" where
  "transport_nodes r = ring_walk (r_next r) 0 (nx (r_links r) 0) (r_links r)"

definition transports :: "'a registry_scheme \<Rightarrow> (nat \<times> atransport) list" where
  "transports r =
     List.map_filter (\<lambda>t. map_option (Pair t) (r_heap r t)) (transport_nodes r)"

subsection \<open>Kicking, reference counts, registration messages\<close>

text \<open>
  The \<open>kick\<close> of a TCP transport shuts its socket down and leaves the table of emulators; that of a USB
  transport only stops the device.
\<close>

definition local_remote_kick :: "nat \<Rightarrow> 'a registry_scheme \<Rightarrow> 'a registry_scheme" where
  "local_remote_kick t r =
     (let fd = (case r_heap r t of None \<Rightarrow> -1 | Some x \<Rightarrow> t_sfd x);
          r = upd_transport t (\<lambda>x. x\<lparr>t_sfd := -1\<rparr>) r;
          r = log_event (Shutdown_fd fd) r
      in case first_index (\<lambda>e. e = Some t) (r_local r) of
           None \<Rightarrow> r
         | Some nn \<Rightarrow> r\<lparr>r_local := (r_local r)[nn := None]\<rparr>)"


definition run_kick :: "nat \<Rightarrow> 'a registry_scheme \<Rightarrow> 'a registry_scheme" where
  "run_kick t r =
     (case r_heap r t of
        None \<Rightarrow> r
      | Some x \<Rightarrow>
          let r = log_event (Kick t) r in
          if t_type x = kTransportLocal then local_remote_kick t r else r)"

definition kick_transport :: "nat \<Rightarrow> 'a registry_scheme \<Rightarrow> 'a registry_scheme" where
  "kick_transport t r =
     (case r_heap r t of
        None \<Rightarrow> r
      | Some x \<Rightarrow>
          if \<not> t_kicked x then run_kick t (upd_transport t (\<lambda>x. x\<lparr>t_kicked := True\<rparr>) r) else r)"

definition register_transport :: "nat \<Rightarrow> 'a registry_scheme \<Rightarrow> 'a registry_scheme" where
  "register_transport t r = log_event (Tmsg t 1) r"

definition remove_transport :: "nat \<Rightarrow> 'a registry_scheme \<Rightarrow> 'a registry_scheme" where
  "remove_transport t r = log_event (Tmsg t 0) r"

definition transport_unref :: "nat \<Rightarrow> 'a registry_scheme \<Rightarrow> 'a registry_scheme" where
  "transport_unref t r =
     (case r_heap r t of
        None \<Rightarrow> r
      | Some x \<Rightarrow>
          let r = upd_transport t (\<lambda>x. x\<lparr>t_ref_count := t_ref_count x - 1\<rparr>) r in
          if t_ref_count x - 1 = 0 then
            let r = (if \<not> t_kicked x
                     then run_kick t (upd_transport t (\<lambda>x. x\<lparr>t_kicked := True\<rparr>) r) else r);
                r = log_event (Close_transport t) r
            in remove_transport t r
          else r)"

subsection \<open>Creating and removing transports\<close>

definition new_transport :: atransport where
  "new_transport = \<lparr>t_state = CS_OFFLINE, t_type = kTransportLocal, t_serial = None, t_product = None,
     t_adb_port = 0, t_ref_count = 0, t_sync_token = 0, t_sfd = 0, t_usb = None, t_kicked = False,
     t_sent = [], t_disconnects = []\<rparr>"

definition calloc_transport :: "'a registry_scheme \<Rightarrow> nat \<times> 'a registry_scheme" where
  "calloc_transport r =
     (r_next r, r\<lparr>r_heap := (r_heap r)(r_next r \<mapsto> new_transport), r_next := r_next r + 1\<rparr>)"

definition find_emulator_transport_by_adb_port :: "int \<Rightarrow> 'a registry_scheme \<Rightarrow> nat option" where
  "find_emulator_transport_by_adb_port port r =
     (case first_index (\<lambda>e. case e of None \<Rightarrow> False
                        | Some t \<Rightarrow> (case r_heap r t of None \<Rightarrow> False | Some x \<Rightarrow> t_adb_port x = port))
           (r_local r) of
        None \<Rightarrow> None
      | Some i \<Rightarrow> r_local r ! i)"

definition get_available_local_transport_index :: "'a registry_scheme \<Rightarrow> int" where
  "get_available_local_transport_index r =
     (case first_index (\<lambda>e. e = None) (r_local r) of None \<Rightarrow> -1 | Some i \<Rightarrow> int i)"

definition init_socket_transport ::
  "nat \<Rightarrow> int \<Rightarrow> int \<Rightarrow> bool \<Rightarrow> 'a registry_scheme \<Rightarrow> int \<times> 'a registry_scheme" where
  "init_socket_transport t s adb_port local r =
     (let r = upd_transport t (\<lambda>x. x\<lparr>t_sfd := s, t_sync_token := 1, t_state := CS_OFFLINE,
                                    t_type := kTransportLocal, t_adb_port := 0\<rparr>) r
      in if local then
           let r = upd_transport t (\<lambda>x. x\<lparr>t_adb_port := adb_port\<rparr>) r;
               existing = find_emulator_transport_by_adb_port adb_port r;
               index = get_available_local_transport_index r
           in if existing \<noteq> None then (-1, r)
              else if index < 0 then (-1, r)
              else (0, r\<lparr>r_local := (r_local r)[nat index := Some t]\<rparr>)
         else (0, r))"

definition register_socket_transport ::
  "int \<Rightarrow> string option \<Rightarrow> int \<Rightarrow> bool \<Rightarrow> 'a registry_scheme \<Rightarrow> 'a registry_scheme" where
  "register_socket_transport s serial port local r =
     (case calloc_transport r of (t, r) \<Rightarrow>
      case init_socket_transport t s port local r of (rc, r) \<Rightarrow>
      if rc < 0 then log_event (Shutdown_fd s) (r\<lparr>r_heap := (r_heap r)(t := None)\<rparr>)
      else register_transport t (upd_transport t (\<lambda>x. x\<lparr>t_serial := serial\<rparr>) r))"

definition init_usb_transport :: "nat \<Rightarrow> nat \<Rightarrow> conn_state \<Rightarrow> 'a registry_scheme \<Rightarrow> 'a registry_scheme" where
  "init_usb_transport t h state r =
     upd_transport t (\<lambda>x. x\<lparr>t_sync_token := 1, t_state := state, t_type := kTransportUsb, t_usb := Some h\<rparr>) r"

definition register_usb_transport ::
  "nat \<Rightarrow> string option \<Rightarrow> bool \<Rightarrow> 'a registry_scheme \<Rightarrow> 'a registry_scheme" where
  "register_usb_transport usb serial writeable r =
     (case calloc_transport r of (t, r) \<Rightarrow>
      let r = init_usb_transport t usb (if writeable then CS_OFFLINE else CS_NOPERM) r
      in register_transport t (upd_transport t (\<lambda>x. x\<lparr>t_serial := serial\<rparr>) r))"

definition unlink_transport :: "nat \<Rightarrow> 'a registry_scheme \<Rightarrow> 'a registry_scheme" where
  "unlink_transport t r = r\<lparr>r_links := ring_unlink t (r_links r)\<rparr>"

definition unregister_transport :: "nat \<Rightarrow> 'a registry_scheme \<Rightarrow> 'a registry_scheme" where
  "unregister_transport t r = transport_unref t (kick_transport t (unlink_transport t r))"

text \<open>
  The loops over the list fetch \<open>next\<close> before they unlink, so they visit the transports that were on
  the list at the start.
\<close>

definition unregister_all_tcp_transports :: "'a registry_scheme \<Rightarrow> 'a registry_scheme" where
  "unregister_all_tcp_transports r =
     foldl (\<lambda>r t. case r_heap r t of
                    None \<Rightarrow> r
                  | Some x \<Rightarrow>
                      if t_type x = kTransportLocal \<and> t_adb_port x = 0
                      then transport_unref t (kick_transport t (unlink_transport t r)) else r)
       r (transport_nodes r)"

definition unregister_usb_transport :: "nat \<Rightarrow> 'a registry_scheme \<Rightarrow> 'a registry_scheme" where
  "unregister_usb_transport usb r =
     (case find (\<lambda>(t, x). t_usb x = Some usb \<and> t_state x = CS_NOPERM) (transports r) of
        None \<Rightarrow> r
      | Some (t, x) \<Rightarrow> unlink_transport t r)"

definition close_usb_devices :: "'a registry_scheme \<Rightarrow> 'a registry_scheme" where
  "close_usb_devices r = foldl (\<lambda>r t. kick_transport t r) r (transport_nodes r)"

definition add_transport_disconnect :: "nat \<Rightarrow> adisconnect \<Rightarrow> 'a registry_scheme \<Rightarrow> 'a registry_scheme" where
  "add_transport_disconnect t dis r =
     upd_transport t (\<lambda>x. x\<lparr>t_disconnects := t_disconnects x @ [dis]\<rparr>) r"

definition remove_transport_disconnect :: "nat \<Rightarrow> adisconnect \<Rightarrow> 'a registry_scheme \<Rightarrow> 'a registry_scheme" where
  "remove_transport_disconnect t dis r =
     upd_transport t (\<lambda>x. x\<lparr>t_disconnects := filter (\<lambda>d. d \<noteq> dis) (t_disconnects x)\<rparr>) r"

definition run_transport_disconnects :: "nat \<Rightarrow> 'a registry_scheme \<Rightarrow> 'a registry_scheme" where
  "run_transport_disconnects t r =
     (case r_heap r t of
        None \<Rightarrow> r
      | Some x \<Rightarrow> foldl (\<lambda>r dis. log_event (Disconnect dis t) r) r (t_disconnects x))"

subsection \<open>Finding a transport\<close>

definition find_transport :: "string \<Rightarrow> 'a registry_scheme \<Rightarrow> nat option" where
  "find_transport serial r =
     map_option fst (find (\<lambda>(t, x). t_serial x = Some serial) (transports r))"

text \<open>The scan of \<open>acquire_one_transport\<close>: the result so far, whether it is ambiguous, the error text.\<close>

fun acquire_scan ::
  "transport_type \<Rightarrow> string option \<Rightarrow> (nat \<times> atransport) list \<Rightarrow> nat option \<Rightarrow> string
   \<Rightarrow> nat option \<times> bool \<times> string" where
  "acquire_scan ttype serial [] result err = (result, False, err)"
| "acquire_scan ttype serial ((t, x) # ts) result err =
     (if t_state x = CS_NOPERM
      then acquire_scan ttype serial ts result ''insufficient permissions for device''
      else case serial of
             Some s \<Rightarrow> if t_serial x = Some s then (Some t, False, err)
                       else acquire_scan ttype serial ts result err
           | None \<Rightarrow>
               if ttype = kTransportUsb \<and> t_type x = kTransportUsb then
                 (if result \<noteq> None then (None, True, ''more than one device'')
                  else acquire_scan ttype serial ts (Some t) err)
               else if ttype = kTransportLocal \<and> t_type x = kTransportLocal then
                 (if result \<noteq> None then (None, True, ''more than one emulator'')
                  else acquire_scan ttype serial ts (Some t) err)
               else if ttype = kTransportAny then
                 (if result \<noteq> None then (None, True, ''more than one device and emulator'')
                  else acquire_scan ttype serial ts (Some t) err)
               else acquire_scan ttype serial ts result err)"

text \<open>One attempt: the transport or None, and whether the caller is to wait and try again.\<close>

definition acquire_pass ::
  "conn_state \<Rightarrow> transport_type \<Rightarrow> string option \<Rightarrow> 'a registry_scheme \<Rightarrow> nat option \<times> string \<times> bool" where
  "acquire_pass state ttype serial r =
     (case acquire_scan ttype serial (transports r) None ''device not found'' of (result, ambiguous, err) \<Rightarrow>
      let st = (case result of None \<Rightarrow> CS_ANY
                | Some t \<Rightarrow> (case r_heap r t of None \<Rightarrow> CS_ANY | Some x \<Rightarrow> t_state x));
          (result, err) =
            (if result \<noteq> None \<and> st = CS_OFFLINE then (None, ''device offline'') else (result, err));
          (result, err) =
            (if result \<noteq> None \<and> state \<noteq> CS_ANY \<and> st \<noteq> state then (None, ''invalid device state'')
             else (result, err))
      in if result \<noteq> None then (result, [], False)
         else (None, err, state \<noteq> CS_ANY \<and> (serial \<noteq> None \<or> \<not> ambiguous)))"

text \<open>The attempts see the registry as it is each time; None when all of them asked to wait.\<close>

fun acquire_one_transport ::
  "conn_state \<Rightarrow> transport_type \<Rightarrow> string option \<Rightarrow> 'a registry_scheme list \<Rightarrow> (nat option \<times> string) option" where
  "acquire_one_transport state ttype serial [] = None"
| "acquire_one_transport state ttype serial (r # rs) =
     (case acquire_pass state ttype serial r of (result, err, again) \<Rightarrow>
      if again then acquire_one_transport state ttype serial rs else Some (result, err))"

subsection \<open>Listing\<close>

definition statename :: "atransport \<Rightarrow> string" where
  "statename x =
     (case t_state x of
        CS_OFFLINE \<Rightarrow> ''offline'' | CS_BOOTLOADER \<Rightarrow> ''bootloader'' | CS_DEVICE \<Rightarrow> ''device''
      | CS_HOST \<Rightarrow> ''host'' | CS_RECOVERY \<Rightarrow> ''recovery'' | CS_NOPERM \<Rightarrow> ''no permissions''
      | CS_ANY \<Rightarrow> ''unknown'')"

definition transport_line :: "atransport \<Rightarrow> string" where
  "transport_line x =
     (let serial = (case t_serial x of None \<Rightarrow> [] | Some s \<Rightarrow> s);
          serial = (if serial = [] then ''????????????'' else serial)
      in serial @ [CHR 0x09] @ statename x @ [CHR 0x0a])"

text \<open>The loop over the list; \<open>room\<close> is \<open>end - p\<close>.\<close>

fun list_lines :: "nat \<Rightarrow> atransport list \<Rightarrow> string" where
  "list_lines room [] = []"
| "list_lines room (x # xs) =
     (let line = transport_line x in
      if room \<le> length line then [] else line @ list_lines (room - length line) xs)"

definition list_transports :: "nat \<Rightarrow> 'a registry_scheme \<Rightarrow> string" where
  "list_transports bufsize r = list_lines bufsize (map snd (transports r))"

definition list_transports_msg :: "nat \<Rightarrow> 'a registry_scheme \<Rightarrow> string" where
  "list_transports_msg bufferlen r =
     (let body = list_transports (bufferlen - 4) r in fmt_x 4 (length body) @ body)"

subsection \<open>The registration socket\<close>

text \<open>
  \<open>update_transports\<close> sends the device list, cut to its buffer of 1024 bytes, to every tracker; here
  the list that is sent is recorded.
\<close>

definition update_transports :: "'a registry_scheme \<Rightarrow> 'a registry_scheme" where
  "update_transports r = log_event (Update_transports (list_transports_msg 1024 r)) r"

text \<open>
  The two halves of \<open>transport_registration_func\<close>. A removal unlinks the transport, runs its
  disconnect functions and frees it; a registration starts the threads (two references) unless the
  device is not accessible, and appends to the list.
\<close>

definition registration_remove :: "nat \<Rightarrow> 'a registry_scheme \<Rightarrow> 'a registry_scheme" where
  "registration_remove t r =
     (let r = unlink_transport t r;
          r = run_transport_disconnects t r;
          r = r\<lparr>r_heap := (r_heap r)(t := None)\<rparr>
      in update_transports r)"

definition registration_add :: "nat \<Rightarrow> 'a registry_scheme \<Rightarrow> 'a registry_scheme" where
  "registration_add t r =
     (let r = (case r_heap r t of
                 None \<Rightarrow> r
               | Some x \<Rightarrow> if t_state x \<noteq> CS_NOPERM
                           then upd_transport t (\<lambda>x. x\<lparr>t_ref_count := 2\<rparr>) r else r);
          r = r\<lparr>r_links := ring_insert 0 t (r_links r)\<rparr>;
          r = upd_transport t (\<lambda>x. x\<lparr>t_disconnects := []\<rparr>) r
      in update_transports r)"

definition transport_registration_func :: "nat \<Rightarrow> int \<Rightarrow> 'a registry_scheme \<Rightarrow> 'a registry_scheme" where
  "transport_registration_func t action r =
     (if action = 0 then registration_remove t r else registration_add t r)"

subsection \<open>Addresses through the socket pairs\<close>

text \<open>
  The threads hand packets and transports to each other by writing their addresses (32 bits on the
  hosts of this tree) to a socket pair. A registration message is an address and an action.
\<close>

definition read_packet :: "fdesc \<Rightarrow> u32 option \<times> fdesc" where
  "read_packet f = (case readx 4 f of (None, f) \<Rightarrow> (None, f) | (Some bs, f) \<Rightarrow> (Some (un_le32 bs), f))"

definition write_packet :: "u32 \<Rightarrow> fdesc \<Rightarrow> bool \<times> fdesc" where
  "write_packet p f = writex (le32 p) f"

record tmsg =
  tm_transport :: u32
  tm_action :: u32

definition transport_read_action :: "fdesc \<Rightarrow> tmsg option \<times> fdesc" where
  "transport_read_action f =
     (case readx 8 f of
        (None, f) \<Rightarrow> (None, f)
      | (Some bs, f) \<Rightarrow> (Some \<lparr>tm_transport = un_le32 bs, tm_action = un_le32 (drop 4 bs)\<rparr>, f))"

definition transport_write_action :: "tmsg \<Rightarrow> fdesc \<Rightarrow> bool \<times> fdesc" where
  "transport_write_action m f = writex (le32 (tm_transport m) @ le32 (tm_action m)) f"

fun write_all :: "('m \<Rightarrow> fdesc \<Rightarrow> bool \<times> fdesc) \<Rightarrow> 'm list \<Rightarrow> fdesc \<Rightarrow> bool \<times> fdesc" where
  "write_all put [] f = (True, f)"
| "write_all put (m # ms) f = (case put m f of (ok, f) \<Rightarrow> if ok then write_all put ms f else (False, f))"

fun read_all :: "(fdesc \<Rightarrow> 'm option \<times> fdesc) \<Rightarrow> nat \<Rightarrow> fdesc \<Rightarrow> 'm list" where
  "read_all get 0 f = []"
| "read_all get (Suc n) f = (case get f of (None, f) \<Rightarrow> [] | (Some m, f) \<Rightarrow> m # read_all get n f)"

subsection \<open>The pump threads\<close>

definition sync_packet :: "u32 \<Rightarrow> u32 \<Rightarrow> apacket" where
  "sync_packet a b =
     \<lparr>p_len = 0, p_ptr = 0,
      p_msg = zero_msg\<lparr>command := A_SYNC, arg0 := a, arg1 := b, m_magic := A_SYNC XOR 0xffffffff\<rparr>,
      p_data = []\<rparr>"

text \<open>
  \<open>output_thread\<close>: \<open>reads\<close> are the packets that \<open>read_from_remote\<close> returns before it fails,
  \<open>accepts\<close> whether each \<open>write_packet\<close> succeeds (all, when the list is used up). The result is what
  is written to the transport socket.
\<close>

fun pump_out :: "apacket list \<Rightarrow> bool list \<Rightarrow> apacket list" where
  "pump_out ps (False # _) = []"
| "pump_out [] acc = [sync_packet 0 0]"
| "pump_out (p # ps) acc = p # pump_out ps (tl acc)"

definition output_thread :: "u32 \<Rightarrow> apacket list \<Rightarrow> bool list \<Rightarrow> apacket list" where
  "output_thread sync_token reads accepts =
     (case accepts of
        False # _ \<Rightarrow> []
      | _ \<Rightarrow> sync_packet 1 (sync_token + 1) # pump_out reads (tl accepts))"

text \<open>
  \<open>input_thread\<close>: the packets from the transport socket that are written to the remote side. The
  token is compared at the time of each packet; it does not change while the thread runs.
\<close>

fun input_pump :: "u32 \<Rightarrow> bool \<Rightarrow> apacket list \<Rightarrow> apacket list" where
  "input_pump token active [] = []"
| "input_pump token active (p # ps) =
     (if command (p_msg p) = A_SYNC then
        (if arg0 (p_msg p) = 0 then []
         else input_pump token (if arg1 (p_msg p) = token then True else active) ps)
      else if active then p # input_pump token active ps
      else input_pump token active ps)"

definition input_thread :: "u32 \<Rightarrow> apacket list \<Rightarrow> apacket list" where
  "input_thread token ps = input_pump token False ps"

subsection \<open>Message channels\<close>

text \<open>
  A channel writes and reads messages of one size. Both users of the socket pairs are channels, so
  what is proved of a channel holds for packets and for registration messages.
\<close>

locale message_channel =
  fixes put :: "'m \<Rightarrow> fdesc \<Rightarrow> bool \<times> fdesc"
    and get :: "fdesc \<Rightarrow> 'm option \<times> fdesc"
    and enc :: "'m \<Rightarrow> byte list"
  assumes put_law: "list_all write_ok (fd_wr f) \<Longrightarrow>
      \<exists>f'. put m f = (True, f') \<and> fd_out f' = fd_out f @ enc m \<and> list_all write_ok (fd_wr f')"
    and get_law: "pending_in f = enc m @ rest \<Longrightarrow> \<exists>f'. get f = (Some m, f') \<and> pending_in f' = rest"
begin

lemma write_all_out:
  "list_all write_ok (fd_wr f) \<Longrightarrow>
   \<exists>f'. write_all put ms f = (True, f') \<and> fd_out f' = fd_out f @ concat (map enc ms)"
proof (induction ms arbitrary: f)
  case (Cons m ms)
  obtain f1 where f1: "put m f = (True, f1)" "fd_out f1 = fd_out f @ enc m" "list_all write_ok (fd_wr f1)"
    using put_law [OF Cons.prems, of m] by blast
  with Cons.IH [OF f1(3)] show ?case by auto
qed simp

lemma read_all_in: "pending_in f = concat (map enc ms) @ rest \<Longrightarrow> read_all get (length ms) f = ms"
proof (induction ms arbitrary: f)
  case (Cons m ms)
  obtain f1 where "get f = (Some m, f1)" "pending_in f1 = concat (map enc ms) @ rest"
    using get_law [of f m "concat (map enc ms) @ rest"] Cons.prems by auto
  with Cons.IH show ?case by simp
qed simp

lemma in_order:
  assumes "list_all write_ok (fd_wr out)" "fd_out out = []"
    and "pending_in inp = fd_out (snd (write_all put ms out)) @ rest"
  shows "fst (write_all put ms out) \<and> read_all get (length ms) inp = ms"
proof -
  obtain out' where o: "write_all put ms out = (True, out')" "fd_out out' = concat (map enc ms)"
    using write_all_out [OF assms(1), of ms] assms(2) by auto
  with read_all_in [of inp ms rest] assms(3) show ?thesis by simp
qed

end

lemma writex_put:
  "list_all write_ok (fd_wr f) \<Longrightarrow>
   \<exists>f'. writex bs f = (True, f') \<and> fd_out f' = fd_out f @ bs \<and> list_all write_ok (fd_wr f')"
  using writex_succeeds [of f bs] writex_True [of bs f] by (cases "writex bs f") auto

lemma readx_get:
  assumes "pending_in f = bs @ rest" "length bs = n"
  shows "\<exists>f'. readx n f = (Some bs, f') \<and> pending_in f' = rest"
  using readx_stream [of n f] assms by auto

interpretation packets: message_channel write_packet read_packet le32
proof
  fix f :: fdesc and p
  assume "list_all write_ok (fd_wr f)"
  from writex_put [OF this] show "\<exists>f'. write_packet p f = (True, f') \<and> fd_out f' = fd_out f @ le32 p
      \<and> list_all write_ok (fd_wr f')"
    by (simp add: write_packet_def)
next
  fix f :: fdesc and p rest
  assume "pending_in f = le32 p @ rest"
  from readx_get [OF this, of 4] show "\<exists>f'. read_packet f = (Some p, f') \<and> pending_in f' = rest"
    by (auto simp: read_packet_def)
qed

interpretation tmsgs: message_channel transport_write_action transport_read_action
  "\<lambda>m. le32 (tm_transport m) @ le32 (tm_action m)"
proof
  fix f :: fdesc and m
  assume "list_all write_ok (fd_wr f)"
  from writex_put [OF this] show "\<exists>f'. transport_write_action m f = (True, f')
      \<and> fd_out f' = fd_out f @ (le32 (tm_transport m) @ le32 (tm_action m)) \<and> list_all write_ok (fd_wr f')"
    by (simp add: transport_write_action_def)
next
  fix f :: fdesc and rest and m :: tmsg
  assume "pending_in f = (le32 (tm_transport m) @ le32 (tm_action m)) @ rest"
  from readx_get [OF this, of 8] show "\<exists>f'. transport_read_action f = (Some m, f') \<and> pending_in f' = rest"
    by (auto simp: transport_read_action_def)
qed

text \<open>
  C28: The hand-over between threads keeps order and loses nothing: the packets and the registration
  messages written to a socket pair are read from its other end in the same order, however the
  kernel cuts and interrupts the transfers.
\<close>

theorem handover_in_order:
  assumes "list_all write_ok (fd_wr out)" "fd_out out = []"
    and "pending_in inp = fd_out (snd (write_all write_packet ps out)) @ rest"
    and "pending_in inp' = fd_out (snd (write_all transport_write_action ms out)) @ rest'"
  shows "read_all read_packet (length ps) inp = ps \<and> read_all transport_read_action (length ms) inp' = ms"
  using packets.in_order [OF assms(1-3)] tmsgs.in_order [OF assms(1,2,4)] by simp

theorem handover_in_order_witness:
  "let out = \<lparr>fd_in = [], fd_wr = [Inr 1, Inl EINTR, Inr 2], fd_out = []\<rparr>;
       m = [\<lparr>tm_transport = 77, tm_action = 1\<rparr>];
       inp = \<lparr>fd_in = [Inr (fd_out (snd (write_all write_packet [5, 6] out)))], fd_wr = [], fd_out = []\<rparr>;
       inp' = \<lparr>fd_in = [Inl EINTR, Inr (fd_out (snd (write_all transport_write_action m out)))], fd_wr = [], fd_out = []\<rparr>
   in read_all read_packet 2 inp = [5, 6] \<and> read_all transport_read_action 1 inp' = m"
proof -
  let ?out = "\<lparr>fd_in = [], fd_wr = [Inr 1, Inl EINTR, Inr 2], fd_out = []\<rparr>"
  let ?m = "[\<lparr>tm_transport = 77, tm_action = 1\<rparr>]"
  let ?inp = "\<lparr>fd_in = [Inr (fd_out (snd (write_all write_packet [5, 6] ?out)))], fd_wr = [], fd_out = []\<rparr>"
  let ?inp' = "\<lparr>fd_in = [Inl EINTR, Inr (fd_out (snd (write_all transport_write_action ?m ?out)))],
    fd_wr = [], fd_out = []\<rparr>"
  have "list_all write_ok (fd_wr ?out)" "fd_out ?out = []" by simp_all
  moreover have "pending_in ?inp = fd_out (snd (write_all write_packet [5, 6] ?out)) @ []"
    "pending_in ?inp' = fd_out (snd (write_all transport_write_action ?m ?out)) @ []"
    by (simp_all add: pending_in_def del: write_all.simps)
  ultimately have "read_all read_packet (length [5, 6 :: u32]) ?inp = [5, 6]
      \<and> read_all transport_read_action (length ?m) ?inp' = ?m"
    by (rule handover_in_order)
  then show ?thesis unfolding Let_def by (simp add: numeral_2_eq_2 del: write_all.simps read_all.simps)
qed

subsection \<open>Choosing a transport\<close>

text \<open>The transports that a request without a serial number may mean.\<close>

definition candidate :: "transport_type \<Rightarrow> atransport \<Rightarrow> bool" where
  "candidate ttype x \<longleftrightarrow> t_state x \<noteq> CS_NOPERM
     \<and> (ttype = kTransportUsb \<and> t_type x = kTransportUsb
        \<or> ttype = kTransportLocal \<and> t_type x = kTransportLocal \<or> ttype = kTransportAny)"

lemma acquire_scan_any:
  "acquire_scan ttype None ts result err = (Some t, amb, err') \<Longrightarrow>
   result = Some t \<and> filter (candidate ttype \<circ> snd) ts = [] \<or>
   result = None \<and> (\<exists>x. filter (candidate ttype \<circ> snd) ts = [(t, x)])"
  by (induction ttype "None :: string option" ts result err rule: acquire_scan.induct)
    (auto simp: candidate_def split: if_splits)

lemma acquire_scan_serial:
  "acquire_scan ttype (Some s) ts None err = (Some t, amb, err') \<Longrightarrow>
   \<exists>x. (t, x) \<in> set ts \<and> t_serial x = Some s \<and> t_state x \<noteq> CS_NOPERM"
  by (induction ttype "Some s" ts "None :: nat option" err rule: acquire_scan.induct)
    (auto split: if_splits)

lemma transports_heap: "(t, x) \<in> set (transports r) \<Longrightarrow> r_heap r t = Some x"
  by (auto simp: transports_def map_filter_def)

text \<open>
  C27: A request for a device gets a transport only when there is no doubt which one: without a serial
  number it is the only candidate of the requested kind on the list, with one it carries that serial
  number; in both cases it is accessible, not offline, and in the requested state.
\<close>

theorem acquire_is_unambiguous:
  assumes "acquire_pass state ttype serial r = (Some t, err, again)"
  shows "\<exists>x. (t, x) \<in> set (transports r) \<and> t_state x \<noteq> CS_NOPERM \<and> t_state x \<noteq> CS_OFFLINE
    \<and> (state = CS_ANY \<or> t_state x = state) \<and> \<not> again
    \<and> (case serial of None \<Rightarrow> filter (candidate ttype \<circ> snd) (transports r) = [(t, x)]
       | Some s \<Rightarrow> t_serial x = Some s)"
proof -
  obtain t0 amb e where scan: "acquire_scan ttype serial (transports r) None ''device not found'' = (t0, amb, e)"
    using prod_cases3 by blast
  have t0: "t0 = Some t" and na: "\<not> again"
    using assms scan by (auto simp: acquire_pass_def Let_def split: if_splits)
  obtain x where x: "(t, x) \<in> set (transports r)" "t_state x \<noteq> CS_NOPERM"
    and c: "case serial of None \<Rightarrow> filter (candidate ttype \<circ> snd) (transports r) = [(t, x)]
       | Some s \<Rightarrow> t_serial x = Some s"
  proof (cases serial)
    case None
    then obtain x where f: "filter (candidate ttype \<circ> snd) (transports r) = [(t, x)]"
      using acquire_scan_any [of ttype "transports r" None _ t amb e] scan t0 by auto
    have "(t, x) \<in> {y \<in> set (transports r). (candidate ttype \<circ> snd) y}"
      unfolding set_filter [symmetric] f by simp
    then show ?thesis using that f None by (auto simp: candidate_def)
  next
    case (Some s)
    then show ?thesis
      using acquire_scan_serial [of ttype s "transports r" _ t amb e] scan t0 that by auto
  qed
  have "r_heap r t = Some x" using transports_heap [OF x(1)] .
  then have "t_state x \<noteq> CS_OFFLINE \<and> (state = CS_ANY \<or> t_state x = state)"
    using assms scan t0 by (auto simp: acquire_pass_def Let_def split: if_splits)
  with x c na show ?thesis by blast
qed

subsection \<open>Listing\<close>

lemma list_lines_prefix:
  "\<exists>k. list_lines n xs = concat (map transport_line (take k xs)) \<and>
     (0 < n \<longrightarrow> length (list_lines n xs) < n) \<and>
     (length (concat (map transport_line xs)) < n \<longrightarrow> list_lines n xs = concat (map transport_line xs))"
proof (induction n xs rule: list_lines.induct)
  case (2 room x xs)
  show ?case
  proof (cases "room \<le> length (transport_line x)")
    case True
    then show ?thesis by (auto intro!: exI [of _ 0])
  next
    case False
    then obtain k where k: "list_lines (room - length (transport_line x)) xs = concat (map transport_line (take k xs))"
      "length (list_lines (room - length (transport_line x)) xs) < room - length (transport_line x)"
      "length (concat (map transport_line xs)) < room - length (transport_line x) \<longrightarrow>
        list_lines (room - length (transport_line x)) xs = concat (map transport_line xs)"
      using "2" [OF refl False] by auto
    with False show ?thesis by (intro exI [of _ "Suc k"]) (auto simp: Let_def)
  qed
qed auto

text \<open>
  The device list fits its buffer: it is made of whole lines for a prefix of the transport list, is
  shorter than the buffer, and is complete whenever the complete list is.
\<close>

theorem list_transports_fits:
  "\<exists>k. list_transports n r = concat (map transport_line (take k (map snd (transports r)))) \<and>
     (0 < n \<longrightarrow> length (list_transports n r) < n) \<and>
     (length (concat (map transport_line (map snd (transports r)))) < n \<longrightarrow>
        list_transports n r = concat (map transport_line (map snd (transports r))))"
  unfolding list_transports_def by (rule list_lines_prefix)

definition sample_registry :: registry where
  "sample_registry =
     \<lparr>r_heap = [1 \<mapsto> new_transport\<lparr>t_state := CS_DEVICE, t_serial := Some ''A''\<rparr>,
                2 \<mapsto> new_transport\<lparr>t_type := kTransportUsb, t_state := CS_NOPERM\<rparr>],
      r_links = ring_insert 0 2 (ring_insert 0 1 (ring_init 0 \<lparr>nx = (\<lambda>_. 0), pv = (\<lambda>_. 0)\<rparr>)),
      r_next = 3, r_local = replicate 16 None, r_events = []\<rparr>"

theorem list_transports_fits_witness:
  "list_transports 100 sample_registry
     = concat (map transport_line (map snd (transports sample_registry)))"
proof -
  have "length (concat (map transport_line (map snd (transports sample_registry)))) < 100" by code_simp
  with list_transports_fits [of 100 sample_registry] show ?thesis by blast
qed

theorem acquire_is_unambiguous_witness:
  "\<exists>x. (1, x) \<in> set (transports sample_registry) \<and> t_state x \<noteq> CS_OFFLINE
    \<and> filter (candidate kTransportAny \<circ> snd) (transports sample_registry) = [(1, x)]"
proof -
  have "acquire_pass CS_DEVICE kTransportAny None sample_registry = (Some 1, [], False)"
    by code_simp
  from acquire_is_unambiguous [OF this] show ?thesis by auto
qed

subsection \<open>Kicked at most once\<close>

text \<open>The operations on the registry as steps, in any order the threads may call them.\<close>

inductive reg_step :: "registry \<Rightarrow> registry \<Rightarrow> bool" where
  kick: "reg_step r (kick_transport t r)"
| unref: "reg_step r (transport_unref t r)"
| unregister: "reg_step r (unregister_transport t r)"
| unregister_tcp: "reg_step r (unregister_all_tcp_transports r)"
| unregister_usb: "reg_step r (unregister_usb_transport u r)"
| close_usb: "reg_step r (close_usb_devices r)"
| register_socket: "reg_step r (register_socket_transport s sn port local r)"
| register_usb: "reg_step r (register_usb_transport u sn wr r)"
| registration: "reg_step r (transport_registration_func t action r)"
| add_disconnect: "reg_step r (add_transport_disconnect t d r)"
| remove_disconnect: "reg_step r (remove_transport_disconnect t d r)"

inductive reg_reachable :: "registry \<Rightarrow> bool" where
  init: "r_heap r = (\<lambda>_. None) \<Longrightarrow> r_events r = [] \<Longrightarrow> r_local r = replicate 16 None \<Longrightarrow> reg_reachable r"
| step: "reg_reachable r \<Longrightarrow> reg_step r r' \<Longrightarrow> reg_reachable r'"

text \<open>
  How often a transport has been kicked is decided by its flag; addresses that were never allocated
  have no events.
\<close>

definition kicks_ok :: "'a registry_scheme \<Rightarrow> bool" where
  "kicks_ok r \<longleftrightarrow>
     (\<forall>t. count_list (r_events r) (Kick t) \<le> (case r_heap r t of None \<Rightarrow> 1 | Some x \<Rightarrow> of_bool (t_kicked x)))
     \<and> (\<forall>t \<ge> r_next r. r_heap r t = None \<and> count_list (r_events r) (Kick t) = 0)"

lemma kicks_ok_le_1: "kicks_ok r \<Longrightarrow> count_list (r_events r) (Kick t) \<le> 1"
proof -
  assume "kicks_ok r"
  then have "count_list (r_events r) (Kick t) \<le> (case r_heap r t of None \<Rightarrow> 1 | Some x \<Rightarrow> of_bool (t_kicked x))"
    by (simp add: kicks_ok_def)
  also have "\<dots> \<le> 1" by (simp split: option.split)
  finally show ?thesis .
qed

lemma kicks_ok_0: "kicks_ok r \<Longrightarrow> r_heap r t = Some x \<Longrightarrow> \<not> t_kicked x \<Longrightarrow> count_list (r_events r) (Kick t) = 0"
  by (auto simp: kicks_ok_def dest: spec [of _ t])

lemma kicks_ok_upd [wf_intro]:
  assumes "kicks_ok r" "\<And>x. t_kicked x \<Longrightarrow> t_kicked (f x)"
  shows "kicks_ok (upd_transport t f r)"
proof -
  have "count_list (r_events r) (Kick u) \<le>
      (case ((r_heap r)(t := map_option f (r_heap r t))) u of None \<Rightarrow> 1 | Some x \<Rightarrow> of_bool (t_kicked x))" for u
  proof (cases "u = t \<and> r_heap r t \<noteq> None")
    case True
    then obtain x where x: "u = t" "r_heap r t = Some x" by auto
    show ?thesis
      using kicks_ok_0 [OF assms(1) x(2)] kicks_ok_le_1 [OF assms(1), of t] assms(2) [of x] x
      by (cases "t_kicked x") auto
  next
    case False
    then show ?thesis
      using assms(1) kicks_ok_le_1 [OF assms(1), of t] by (cases "u = t") (auto simp: kicks_ok_def)
  qed
  with assms(1) show ?thesis by (simp add: kicks_ok_def upd_transport_def)
qed

lemma kicks_ok_log [wf_intro]: "kicks_ok r \<Longrightarrow> (\<And>t. e \<noteq> Kick t) \<Longrightarrow> kicks_ok (log_event e r)"
  by (auto simp: kicks_ok_def log_event_def)

lemma kicks_ok_links [wf_intro]: "kicks_ok r \<Longrightarrow> kicks_ok (r\<lparr>r_links := L\<rparr>)"
  by (simp add: kicks_ok_def)

lemma kicks_ok_local [wf_intro]: "kicks_ok r \<Longrightarrow> kicks_ok (r\<lparr>r_local := L\<rparr>)"
  by (simp add: kicks_ok_def)

lemma kicks_ok_local_kick: "kicks_ok r \<Longrightarrow> kicks_ok (local_remote_kick t r)"
  unfolding local_remote_kick_def Let_def
  by (cases "first_index (\<lambda>e. e = Some t) (r_local (log_event (Shutdown_fd (case r_heap r t of None \<Rightarrow> -1 | Some x \<Rightarrow> t_sfd x)) (upd_transport t (\<lambda>x. x\<lparr>t_sfd := -1\<rparr>) r)))")
    (auto intro!: wf_intro)

text \<open>Setting the flag of a transport that was not kicked, then kicking it.\<close>

lemma kicks_ok_kick:
  assumes "kicks_ok r" "r_heap r t = Some x" "\<not> t_kicked x"
  shows "kicks_ok (run_kick t (upd_transport t (\<lambda>x. x\<lparr>t_kicked := True\<rparr>) r))"
proof -
  let ?r = "upd_transport t (\<lambda>x. x\<lparr>t_kicked := True\<rparr>) r"
  have h: "r_heap ?r t = Some (x\<lparr>t_kicked := True\<rparr>)"
    using assms(2) by (simp add: upd_transport_def)
  have "kicks_ok (log_event (Kick t) ?r)"
    using assms kicks_ok_0 [OF assms] by (auto simp: kicks_ok_def log_event_def upd_transport_def)
  then show ?thesis
    by (auto simp: run_kick_def h Let_def intro: kicks_ok_local_kick)
qed

lemma kicks_ok_kick_transport: "kicks_ok r \<Longrightarrow> kicks_ok (kick_transport t r)"
  unfolding kick_transport_def by (auto split: option.split intro: kicks_ok_kick)

lemma kicks_ok_unref:
  assumes "kicks_ok r"
  shows "kicks_ok (transport_unref t r)"
proof (cases "r_heap r t")
  case None
  with assms show ?thesis by (simp add: transport_unref_def)
next
  case (Some x)
  let ?r = "upd_transport t (\<lambda>x. x\<lparr>t_ref_count := t_ref_count x - 1\<rparr>) r"
  have r: "kicks_ok ?r" using assms by (intro wf_intro) auto
  have h: "r_heap ?r t = Some (x\<lparr>t_ref_count := t_ref_count x - 1\<rparr>)"
    using Some by (simp add: upd_transport_def)
  have "kicks_ok (if \<not> t_kicked x then run_kick t (upd_transport t (\<lambda>x. x\<lparr>t_kicked := True\<rparr>) ?r) else ?r)"
    using kicks_ok_kick [OF r h] r by simp
  with r show ?thesis
    unfolding transport_unref_def remove_transport_def Some option.case Let_def
    by (auto intro!: kicks_ok_log)
qed

lemma kicks_ok_unlink: "kicks_ok r \<Longrightarrow> kicks_ok (unlink_transport t r)"
  unfolding unlink_transport_def by (rule kicks_ok_links)

lemma kicks_ok_foldl: "kicks_ok r \<Longrightarrow> (\<And>r t. kicks_ok r \<Longrightarrow> kicks_ok (f r t)) \<Longrightarrow> kicks_ok (foldl f r ts)"
  by (induction ts arbitrary: r) auto

lemma kicks_ok_calloc: "kicks_ok r \<Longrightarrow> calloc_transport r = (t, r') \<Longrightarrow>
   kicks_ok r' \<and> r_heap r' t = Some new_transport \<and> count_list (r_events r') (Kick t) = 0"
  by (auto simp: kicks_ok_def calloc_transport_def)

lemma kicks_ok_init_socket:
  "kicks_ok r \<Longrightarrow> init_socket_transport t s port l r = (rc, r') \<Longrightarrow>
   kicks_ok r' \<and> r_events r' = r_events r"
  unfolding init_socket_transport_def Let_def
  by (auto split: if_splits intro!: wf_intro) (simp_all add: upd_transport_def)

lemma kicks_ok_free: "kicks_ok r \<Longrightarrow> kicks_ok (r\<lparr>r_heap := (r_heap r)(t := None)\<rparr>)"
  using kicks_ok_le_1 [of r t] by (auto simp: kicks_ok_def)

lemma kicks_ok_register_socket:
  assumes "kicks_ok r"
  shows "kicks_ok (register_socket_transport s sn port l r)"
proof -
  obtain t r1 where c: "calloc_transport r = (t, r1)" by fastforce
  obtain rc r2 where i: "init_socket_transport t s port l r1 = (rc, r2)" by fastforce
  have "kicks_ok r2" using kicks_ok_calloc [OF assms c] kicks_ok_init_socket [OF _ i] by blast
  then show ?thesis
    unfolding register_socket_transport_def register_transport_def c i prod.case
    by (auto intro!: kicks_ok_log kicks_ok_free kicks_ok_upd)
qed

lemma kicks_ok_disconnects: "kicks_ok r \<Longrightarrow> kicks_ok (run_transport_disconnects t r)"
  unfolding run_transport_disconnects_def
  by (auto split: option.split intro!: kicks_ok_foldl kicks_ok_log)

lemma kicks_ok_registration: "kicks_ok r \<Longrightarrow> kicks_ok (transport_registration_func t action r)"
  unfolding transport_registration_func_def registration_remove_def registration_add_def
    update_transports_def Let_def
  by (auto split: option.split
      intro!: kicks_ok_log kicks_ok_free kicks_ok_disconnects kicks_ok_unlink kicks_ok_upd kicks_ok_links)

lemma reg_step_kicks_ok: "reg_step r r' \<Longrightarrow> kicks_ok r \<Longrightarrow> kicks_ok r'"
proof (induction rule: reg_step.induct)
  case (unregister r t)
  then show ?case
    unfolding unregister_transport_def by (intro kicks_ok_unref kicks_ok_kick_transport kicks_ok_unlink)
next
  case (unregister_tcp r)
  then show ?case
    unfolding unregister_all_tcp_transports_def
    by (intro kicks_ok_foldl)
      (auto split: option.split intro: kicks_ok_unref kicks_ok_kick_transport kicks_ok_unlink)
next
  case (unregister_usb r u)
  then show ?case
    unfolding unregister_usb_transport_def by (auto split: option.split intro: kicks_ok_unlink)
next
  case (close_usb r)
  then show ?case
    unfolding close_usb_devices_def by (intro kicks_ok_foldl kicks_ok_kick_transport)
next
  case (register_usb r u sn wr)
  then show ?case
    unfolding register_usb_transport_def register_transport_def init_usb_transport_def Let_def
    by (auto split: prod.split intro!: wf_intro dest: kicks_ok_calloc)
qed (auto simp: add_transport_disconnect_def remove_transport_disconnect_def
    intro: kicks_ok_kick_transport kicks_ok_unref kicks_ok_register_socket kicks_ok_registration kicks_ok_upd)

text \<open>
  C26: Whatever the threads do with the registry, and in whatever order, no transport is kicked twice.
\<close>

theorem kicked_at_most_once:
  assumes "reg_reachable r"
  shows "count_list (r_events r) (Kick t) \<le> 1"
proof -
  have "kicks_ok r"
    using assms
  proof (induction rule: reg_reachable.induct)
    case (init r)
    then show ?case by (simp add: kicks_ok_def)
  qed (rule reg_step_kicks_ok)
  then show ?thesis by (rule kicks_ok_le_1)
qed

theorem kicked_at_most_once_witness:
  "count_list (r_events (unregister_transport 1 (kick_transport 1 (register_usb_transport 0 None True
     \<lparr>r_heap = (\<lambda>_. None), r_links = ring_init 0 \<lparr>nx = (\<lambda>_. 0), pv = (\<lambda>_. 0)\<rparr>, r_next = 1,
      r_local = replicate 16 None, r_events = []\<rparr>)))) (Kick 1) \<le> 1"
proof -
  have "reg_reachable \<lparr>r_heap = (\<lambda>_. None), r_links = ring_init 0 \<lparr>nx = (\<lambda>_. 0), pv = (\<lambda>_. 0)\<rparr>,
      r_next = 1, r_local = replicate 16 None, r_events = []\<rparr>"
    by (rule reg_reachable.init) simp_all
  from reg_reachable.step [OF reg_reachable.step [OF reg_reachable.step [OF this
        reg_step.register_usb] reg_step.kick] reg_step.unregister]
  show ?thesis by (rule kicked_at_most_once)
qed

subsection \<open>The table of emulators\<close>

definition port_of :: "'a registry_scheme \<Rightarrow> nat option \<Rightarrow> int option" where
  "port_of r e = (case e of None \<Rightarrow> None | Some t \<Rightarrow> map_option t_adb_port (r_heap r t))"

definition table_ok :: "'a registry_scheme \<Rightarrow> bool" where
  "table_ok r \<longleftrightarrow> length (r_local r) = ADB_LOCAL_TRANSPORT_MAX
     \<and> (\<forall>t. Some t \<in> set (r_local r) \<longrightarrow> r_heap r t \<noteq> None)
     \<and> (\<forall>i j. i < j \<longrightarrow> j < length (r_local r) \<longrightarrow> r_local r ! i \<noteq> None \<longrightarrow> r_local r ! j \<noteq> None
          \<longrightarrow> port_of r (r_local r ! i) \<noteq> port_of r (r_local r ! j))"

lemma find_emulator_None:
  "find_emulator_transport_by_adb_port port r = None \<longleftrightarrow> (\<forall>e \<in> set (r_local r). port_of r e \<noteq> Some port)"
proof -
  define P where "P = (\<lambda>e. case e of None \<Rightarrow> False
                        | Some t \<Rightarrow> (case r_heap r t of None \<Rightarrow> False | Some x \<Rightarrow> t_adb_port x = port))"
  have P: "P e \<longleftrightarrow> port_of r e = Some port" for e
    by (auto simp: P_def port_of_def split: option.splits)
  have f: "find_emulator_transport_by_adb_port port r
      = (case first_index P (r_local r) of None \<Rightarrow> None | Some i \<Rightarrow> r_local r ! i)"
    by (simp add: find_emulator_transport_by_adb_port_def P_def)
  show ?thesis
  proof (cases "first_index P (r_local r)")
    case None
    then have "\<forall>e \<in> set (r_local r). \<not> P e" by (simp add: first_index_None)
    with None show ?thesis by (simp add: f P)
  next
    case (Some i)
    then have i: "i < length (r_local r)" "P (r_local r ! i)" by (auto dest: first_index_SomeD)
    then have "r_local r ! i \<noteq> None" by (auto simp: P_def split: option.splits)
    moreover have "port_of r (r_local r ! i) = Some port" "r_local r ! i \<in> set (r_local r)"
      using i P by auto
    ultimately show ?thesis using Some by (auto simp: f)
  qed
qed

lemma port_of_other: "Some t \<noteq> e \<Longrightarrow> port_of (upd_transport t f r) e = port_of r e"
  by (cases e) (auto simp: port_of_def upd_transport_def)

text \<open>
  The emulator table keeps at most one transport per port: a TCP transport for a local port is
  entered exactly when no entry has that port and a slot is free; otherwise the table is unchanged
  and the caller is told.
\<close>

theorem emulator_table_unique:
  assumes "table_ok r" "r_heap r t = Some x" "Some t \<notin> set (r_local r)"
    and "init_socket_transport t s port True r = (rc, r')"
  shows "table_ok r' \<and> (rc = 0 \<longleftrightarrow> (\<forall>e \<in> set (r_local r). port_of r e \<noteq> Some port) \<and> None \<in> set (r_local r))
    \<and> (rc = 0 \<longrightarrow> Some t \<in> set (r_local r')) \<and> (rc \<noteq> 0 \<longrightarrow> r_local r' = r_local r)"
proof -
  define r1 where "r1 = upd_transport t (\<lambda>x. x\<lparr>t_adb_port := port\<rparr>) (upd_transport t (\<lambda>x. x\<lparr>t_sfd := s,
     t_sync_token := 1, t_state := CS_OFFLINE, t_type := kTransportLocal, t_adb_port := 0\<rparr>) r)"
  have l: "r_local r1 = r_local r" by (simp add: r1_def upd_transport_def)
  have p: "port_of r1 e = port_of r e" if "e \<in> set (r_local r)" for e
    using that assms(3) unfolding r1_def by (metis port_of_other)
  have pt: "port_of r1 (Some t) = Some port"
    using assms(2) by (simp add: r1_def port_of_def upd_transport_def)
  have h: "r_heap r1 u \<noteq> None \<longleftrightarrow> r_heap r u \<noteq> None" for u
    by (simp add: r1_def upd_transport_def)
  have ok: "table_ok r1"
    using assms(1) h by (auto simp: table_ok_def l p)
  have new: "(\<exists>u. find_emulator_transport_by_adb_port port r1 = Some u) \<longleftrightarrow>
      \<not> (\<forall>e \<in> set (r_local r). port_of r e \<noteq> Some port)"
    using find_emulator_None [of port r1] l p by (metis not_None_eq)
  show ?thesis
  proof (cases "first_index (\<lambda>e. e = None) (r_local r)")
    case None
    then have "None \<notin> set (r_local r)" by (force simp: first_index_None)
    then show ?thesis
      using assms(4) None ok l
      by (auto simp: init_socket_transport_def Let_def r1_def [symmetric] get_available_local_transport_index_def
          split: if_splits)
  next
    case (Some i)
    then have i: "i < length (r_local r)" "r_local r ! i = None" using first_index_SomeD by blast+
    then have n: "None \<in> set (r_local r)" by (metis nth_mem)
    show ?thesis
    proof (cases "find_emulator_transport_by_adb_port port r1")
      case None
      with assms(4) Some l have r': "rc = 0" "r' = r1\<lparr>r_local := (r_local r)[i := Some t]\<rparr>"
        by (auto simp: init_socket_transport_def Let_def r1_def [symmetric]
            get_available_local_transport_index_def split: if_splits)
      have np: "\<forall>e \<in> set (r_local r). port_of r1 e \<noteq> Some port" using None new p by auto
      have pr: "port_of r' e = port_of r1 e" for e by (simp add: r'(2) port_of_def split: option.split)
      have "table_ok r'"
        using ok i np pt assms(2) l h unfolding table_ok_def pr
        by (auto simp: r'(2) nth_list_update dest!: set_update_subset_insert [THEN subsetD])
          (metis nth_mem order.strict_trans)+
      then show ?thesis
        using r' n np p i by (auto simp: set_update_memI)
    next
      case (Some u)
      with assms(4) ok l new n show ?thesis
        by (auto simp: init_socket_transport_def Let_def r1_def [symmetric] split: if_splits)
    qed
  qed
qed

theorem emulator_table_unique_witness:
  "let r = sample_registry\<lparr>r_local := Some 2 # replicate 15 None\<rparr> in
   \<exists>rc r'. init_socket_transport 1 7 5555 True r = (rc, r') \<and> rc = 0 \<and> table_ok r'"
proof -
  let ?r = "sample_registry\<lparr>r_local := Some 2 # replicate 15 None\<rparr>"
  obtain rc r' where i: "init_socket_transport 1 7 5555 True ?r = (rc, r')" by fastforce
  have "table_ok ?r"
    by (auto simp: table_ok_def sample_registry_def nth_Cons split: nat.splits)
  moreover have "r_heap ?r 1 = Some (new_transport\<lparr>t_state := CS_DEVICE, t_serial := Some ''A''\<rparr>)"
    "Some 1 \<notin> set (r_local ?r)"
    by (simp_all add: sample_registry_def)
  ultimately have "table_ok r' \<and> (rc = 0 \<longleftrightarrow> (\<forall>e \<in> set (r_local ?r). port_of ?r e \<noteq> Some 5555) \<and> None \<in> set (r_local ?r))"
    using emulator_table_unique [OF _ _ _ i] by blast
  moreover have "(\<forall>e \<in> set (r_local ?r). port_of ?r e \<noteq> Some 5555) \<and> None \<in> set (r_local ?r)"
    by (auto simp: port_of_def sample_registry_def new_transport_def)
  ultimately show ?thesis using i by auto
qed

subsection \<open>The pump threads\<close>

definition is_sync :: "apacket \<Rightarrow> bool" where
  "is_sync p \<longleftrightarrow> command (p_msg p) = A_SYNC"

definition online_sync :: "u32 \<Rightarrow> apacket \<Rightarrow> bool" where
  "online_sync token p \<longleftrightarrow> is_sync p \<and> arg0 (p_msg p) \<noteq> 0 \<and> arg1 (p_msg p) = token"

definition offline_sync :: "apacket \<Rightarrow> bool" where
  "offline_sync p \<longleftrightarrow> is_sync p \<and> arg0 (p_msg p) = 0"

lemma input_pump_inactive:
  "list_all (\<lambda>p. \<not> online_sync token p \<and> \<not> offline_sync p) ps \<Longrightarrow>
   input_pump token False (ps @ qs) = input_pump token False qs"
  by (induction ps) (auto simp: online_sync_def offline_sync_def is_sync_def)

lemma input_pump_active:
  "list_all (\<lambda>p. \<not> offline_sync p) ps \<Longrightarrow>
   input_pump token True (ps @ qs) = filter (\<lambda>p. \<not> is_sync p) ps @ input_pump token True qs"
  by (induction ps) (auto simp: offline_sync_def is_sync_def)

text \<open>
  The input thread of a transport is a gate: nothing reaches the device before the SYNC with the
  current token, everything but SYNC packets passes in order from then on, and nothing after the
  SYNC that announces the end. Fed by the transport's own output thread (whose SYNC packets come
  back through the main loop) it opens and closes exactly around the packets of that connection.
\<close>

theorem input_thread_gate:
  assumes "list_all (\<lambda>p. \<not> online_sync token p \<and> \<not> offline_sync p) before"
    and "list_all (\<lambda>p. \<not> offline_sync p) during"
  shows "input_thread token (before @ sync_packet 1 token # during @ sync_packet 0 0 # after)
    = filter (\<lambda>p. \<not> is_sync p) during"
  using assms
  by (simp add: input_thread_def input_pump_inactive input_pump_active)
    (simp add: sync_packet_def input_pump_active)

theorem input_thread_gate_witness:
  "input_thread 2 ([sample_packet, sync_packet 1 1] @ sync_packet 1 2 # [sample_packet] @ sync_packet 0 0 # [sample_packet])
   = filter (\<lambda>p. \<not> is_sync p) [sample_packet]"
  by (rule input_thread_gate)
    (simp_all add: online_sync_def offline_sync_def is_sync_def sample_packet_def sync_packet_def
      zero_msg_def commands)

lemma pump_out_all: "list_all id acc \<Longrightarrow> pump_out ps acc = ps @ [sync_packet 0 0]"
proof (induction ps arbitrary: acc)
  case Nil
  then show ?case by (cases acc) auto
next
  case (Cons p ps)
  then show ?case by (cases acc) auto
qed

lemma output_thread_all:
  "list_all id acc \<Longrightarrow> output_thread token ps acc = sync_packet 1 (token + 1) # ps @ [sync_packet 0 0]"
  by (cases acc) (auto simp: output_thread_def pump_out_all split: list.split bool.split)

subsection \<open>Removing a transport twice\<close>

text \<open>
  Unregistering a transport unlinks it, and its final removal unlinks it again with the links of
  that time: if the transport was the last one and another was registered in between, the new
  transport disappears from the list.
\<close>

theorem unregister_loses_later_transport:
  assumes "ring 0 (xs @ [t]) (r_links r)" "n \<notin> set (0 # xs @ [t])"
  shows "ring 0 xs (r_links (registration_remove t (registration_add n (unregister_transport t r))))"
proof -
  have k: "r_links (run_kick t r) = r_links r" for t and r :: "'a registry_scheme"
    by (auto simp: run_kick_def local_remote_kick_def log_event_def upd_transport_def Let_def split: option.split)
  have k2: "r_links (kick_transport t r) = r_links r" for t and r :: "'a registry_scheme"
    by (auto simp: kick_transport_def k upd_transport_def split: option.split)
  have u: "r_links (transport_unref t r) = r_links r" for t and r :: "'a registry_scheme"
    by (auto simp: transport_unref_def k upd_transport_def log_event_def remove_transport_def Let_def split: option.split)
  have l: "r_links (log_event e r) = r_links r" for e and r :: "'a registry_scheme"
    by (simp add: log_event_def)
  have "r_links (foldl (\<lambda>r dis. log_event (Disconnect dis t) r) r ds) = r_links r"
    for t ds and r :: "'a registry_scheme"
    by (induction ds arbitrary: r) (simp_all add: l)
  then have d: "r_links (run_transport_disconnects t r) = r_links r" for t and r :: "'a registry_scheme"
    by (auto simp: run_transport_disconnects_def split: option.split)
  have "r_links (registration_add n r) = ring_insert 0 n (r_links r)" for r :: "'a registry_scheme"
    by (auto simp: registration_add_def update_transports_def l upd_transport_def Let_def split: option.split)
  then have "r_links (registration_remove t (registration_add n (unregister_transport t r)))
      = ring_unlink t (ring_insert 0 n (ring_unlink t (r_links r)))"
    by (simp add: registration_remove_def update_transports_def l d Let_def unregister_transport_def unlink_transport_def u k2)
  with double_unlink [OF assms] show ?thesis by simp
qed

theorem unregister_loses_later_transport_witness:
  "ring 0 [1] (r_links (registration_remove 2 (registration_add 3 (unregister_transport 2 sample_registry))))"
proof -
  have "ring 0 ([1] @ [2]) (r_links sample_registry)"
    using ring_insert_refines [OF ring_insert_refines [OF ring_init_empty, of 1 0], of 2]
    by (simp add: sample_registry_def)
  from unregister_loses_later_transport [OF this, of 3] show ?thesis by simp
qed

end
