(* ===== verification/AdbSocket.thy ===== *)
theory AdbSocket
  imports AdbTransport
begin

text \<open>
  Sockets of the debug bridge (src/tools/adb/sockets.c and the device trackers of transport.c): the
  halves of a connection, which point to each other as peers and call each other through the
  function pointers \<open>enqueue\<close>, \<open>ready\<close> and \<open>close\<close>. The state keeps an explicit store of sockets, so
  that a use of a socket that was freed, of a null peer, a second lock of \<open>socket_list_lock\<close> and a
  call of \<open>fatal\<close> are faults of the model. Closing recurses through the peers; it is given fuel and
  shown to need five levels at most. The lists of sockets are the lists that theory Dlink justifies.
\<close>

subsection \<open>State\<close>

datatype fault = Dangling | Null_deref | Deadlock | Undefined | Fatal string | Server_exit | Out_of_fuel

datatype enqueue_fn = LS_enqueue | RS_enqueue | SS_enqueue | DT_enqueue
datatype ready_fn = LS_ready | LS_ready_notify | RS_ready | SS_ready | DT_ready
datatype close_fn = LS_close | LS_close_notify | RS_close | SS_close | DT_close

record asocket =
  s_id :: u32
  s_closing :: bool
  s_peer :: "nat option"
  s_fd :: int
  s_want_read :: bool
  s_want_write :: bool
  s_pkts :: "apacket list"
  s_enqueue :: enqueue_fn
  s_ready :: ready_fn
  s_close :: close_fn
  s_transport :: "nat option"
  s_update_needed :: bool

record alistener =
  l_fd :: int
  l_local_name :: string
  l_connect_to :: string
  l_transport :: "nat option"

text \<open>
  The calls into the operating system that return a new descriptor: sockets, and a socket pair with
  a thread for a service. The answers are an oracle in the state; the calls are recorded.
\<close>

datatype os_call =
    Loopback_client int
  | Network_client string int
  | Local_client string nat
  | Loopback_server int
  | Local_server string nat
  | Service_thread string string
  | Subprocess string string string

text \<open>
  The server: the registry of transports, the store of sockets with the lists of live and closing
  local sockets, the device trackers, the listeners, and the descriptors. \<open>a_host\<close> is the variable
  \<open>HOST\<close>, \<open>a_adbhost\<close> the environment variable \<open>ADBHOST\<close>. The answers of the system to the writes on
  the socket pairs of the transports are an oracle too: \<open>a_full w t n\<close> says that \<open>write_packet\<close> fails
  for the packet that follows \<open>n\<close> others on transport \<open>t\<close>. The descriptor does not block, so this
  happens whenever the thread of the transport lags behind and the pair is full.
\<close>

record adb = registry +
  a_sock :: "nat \<Rightarrow> asocket option"
  a_snext :: nat
  a_live :: "nat list"
  a_clsd :: "nat list"
  a_next_id :: u32
  a_trackers :: "nat list"
  a_fds :: "int \<Rightarrow> fdesc"
  a_closed :: "int list"
  a_host :: bool
  a_listeners :: "(nat \<times> alistener) list"
  a_lnext :: nat
  a_os :: "nat \<Rightarrow> os_call \<Rightarrow> int"
  a_calls :: "os_call list"
  a_adbhost :: "string option"
  a_full :: "nat \<Rightarrow> nat \<Rightarrow> bool"

type_synonym 'a res = "fault + 'a"

definition get_sock :: "nat \<Rightarrow> adb \<Rightarrow> asocket res" where
  "get_sock s w = (case a_sock w s of None \<Rightarrow> Inl Dangling | Some x \<Rightarrow> Inr x)"

definition put_sock :: "nat \<Rightarrow> asocket \<Rightarrow> adb \<Rightarrow> adb" where
  "put_sock s x w = w\<lparr>a_sock := (a_sock w)(s \<mapsto> x)\<rparr>"

definition set_sock :: "nat \<Rightarrow> (asocket \<Rightarrow> asocket) \<Rightarrow> adb \<Rightarrow> adb res" where
  "set_sock s f w = (case a_sock w s of None \<Rightarrow> Inl Dangling | Some x \<Rightarrow> Inr (put_sock s (f x) w))"

definition free_sock :: "nat \<Rightarrow> adb \<Rightarrow> adb" where
  "free_sock s w = w\<lparr>a_sock := (a_sock w)(s := None)\<rparr>"

definition put_fd :: "int \<Rightarrow> fdesc \<Rightarrow> adb \<Rightarrow> adb" where
  "put_fd fd f w = w\<lparr>a_fds := (a_fds w)(fd := f)\<rparr>"

definition os_open :: "os_call \<Rightarrow> adb \<Rightarrow> int \<times> adb" where
  "os_open c w = (a_os w (length (a_calls w)) c, w\<lparr>a_calls := a_calls w @ [c]\<rparr>)"

definition zero_socket :: asocket where
  "zero_socket = \<lparr>s_id = 0, s_closing = False, s_peer = None, s_fd = 0, s_want_read = False,
     s_want_write = False, s_pkts = [], s_enqueue = LS_enqueue, s_ready = LS_ready,
     s_close = LS_close, s_transport = None, s_update_needed = False\<rparr>"

definition calloc_socket :: "asocket \<Rightarrow> adb \<Rightarrow> nat \<times> adb" where
  "calloc_socket x w = (a_snext w, (put_sock (a_snext w) x w)\<lparr>a_snext := a_snext w + 1\<rparr>)"

subsection \<open>Sending\<close>

text \<open>
  \<open>send_packet\<close>: the transport gets the sealed packet through its socket pair; if the write fails the
  server exits.
\<close>

abbreviation enqueue_failed :: fault where
  "enqueue_failed \<equiv> Fatal ''cannot enqueue packet on transport socket''"

definition send_packet :: "apacket \<Rightarrow> nat option \<Rightarrow> adb \<Rightarrow> adb res" where
  "send_packet p tr w =
     (case tr of
        None \<Rightarrow> Inl (Fatal ''Transport is null'')
      | Some t \<Rightarrow>
          (case r_heap w t of
             None \<Rightarrow> Inl Dangling
           | Some tx \<Rightarrow>
               if a_full w t (length (t_sent tx)) then Inl enqueue_failed
               else Inr (upd_transport t (\<lambda>x. x\<lparr>t_sent := t_sent x @ [seal_packet p]\<rparr>) w)))"

text \<open>A packet with no payload; what \<open>malloc\<close> left in its buffer does not matter.\<close>

definition command_packet :: "u32 \<Rightarrow> u32 \<Rightarrow> u32 \<Rightarrow> apacket" where
  "command_packet cmd a b =
     (let p = get_apacket [] in p\<lparr>p_msg := (p_msg p)\<lparr>command := cmd, arg0 := a, arg1 := b\<rparr>\<rparr>)"

definition adb_write :: "int \<Rightarrow> byte list \<Rightarrow> adb \<Rightarrow> adb" where
  "adb_write fd bs w = put_fd fd (snd (sys_write bs (a_fds w fd))) w"

definition fd_writex :: "int \<Rightarrow> byte list \<Rightarrow> adb \<Rightarrow> bool \<times> adb" where
  "fd_writex fd bs w = (case writex bs (a_fds w fd) of (ok, f) \<Rightarrow> (ok, put_fd fd f w))"

definition sendfailmsg :: "int \<Rightarrow> string \<Rightarrow> adb \<Rightarrow> int \<times> adb" where
  "sendfailmsg fd reason w =
     (let len = length reason;
          len = (if len > 0xffff then 0xffff else len)
      in case fd_writex fd (''FAIL'' @ fmt_x 4 len) w of (ok, w) \<Rightarrow>
         if \<not> ok then (-1, w)
         else case fd_writex fd (take len reason) w of (ok, w) \<Rightarrow> (if ok then 0 else -1, w))"

subsection \<open>The lists of local sockets\<close>

definition find_local_socket :: "u32 \<Rightarrow> adb \<Rightarrow> nat option" where
  "find_local_socket sid w =
     find (\<lambda>s. case a_sock w s of None \<Rightarrow> False | Some x \<Rightarrow> s_id x = sid) (a_live w)"

definition install_local_socket :: "nat \<Rightarrow> adb \<Rightarrow> adb res" where
  "install_local_socket s w =
     andthen (set_sock s (\<lambda>x. x\<lparr>s_id := a_next_id w\<rparr>) w) (\<lambda>w.
     Inr (w\<lparr>a_next_id := a_next_id w + 1, a_live := a_live w @ [s]\<rparr>))"

definition remove_socket :: "nat \<Rightarrow> adb \<Rightarrow> adb res" where
  "remove_socket s w =
     (if s \<in> set (a_live w) \<union> set (a_clsd w) then
        andthen (set_sock s (\<lambda>x. x\<lparr>s_id := 0\<rparr>) w) (\<lambda>w.
        Inr (w\<lparr>a_live := remove1 s (a_live w), a_clsd := remove1 s (a_clsd w)\<rparr>))
      else Inr w)"

definition create_local_socket :: "int \<Rightarrow> adb \<Rightarrow> (nat \<times> adb) res" where
  "create_local_socket fd w =
     (case calloc_socket zero_socket w of (s, w) \<Rightarrow>
      andthen (install_local_socket s w) (\<lambda>w.
      andthen (set_sock s (\<lambda>x. x\<lparr>s_fd := fd, s_enqueue := LS_enqueue, s_ready := LS_ready,
                                s_close := LS_close\<rparr>) w) (\<lambda>w.
      Inr (s, w))))"

definition create_remote_socket :: "u32 \<Rightarrow> nat \<Rightarrow> adb \<Rightarrow> (nat \<times> adb) res" where
  "create_remote_socket sid t w =
     (case r_heap w t of
        None \<Rightarrow> Inl Dangling
      | Some _ \<Rightarrow>
          (case calloc_socket (zero_socket\<lparr>s_id := sid, s_enqueue := RS_enqueue, s_ready := RS_ready,
                   s_close := RS_close, s_transport := Some t\<rparr>) w of (s, w) \<Rightarrow>
           Inr (s, add_transport_disconnect t (Dis_socket s) w)))"

definition create_smart_socket :: "adb \<Rightarrow> nat \<times> adb" where
  "create_smart_socket w =
     calloc_socket (zero_socket\<lparr>s_id := 0, s_enqueue := SS_enqueue, s_ready := SS_ready,
       s_close := SS_close\<rparr>) w"

definition create_device_tracker :: "adb \<Rightarrow> nat \<times> adb" where
  "create_device_tracker w =
     (case calloc_socket (zero_socket\<lparr>s_enqueue := DT_enqueue, s_ready := DT_ready, s_close := DT_close,
             s_update_needed := True\<rparr>) w of (s, w) \<Rightarrow>
      (s, w\<lparr>a_trackers := s # a_trackers w\<rparr>))"

definition device_tracker_remove :: "nat \<Rightarrow> adb \<Rightarrow> adb" where
  "device_tracker_remove s w = w\<lparr>a_trackers := remove1 s (a_trackers w)\<rparr>"

subsection \<open>Closing\<close>

text \<open>\<open>fdevent_remove\<close> closes the descriptor of the socket.\<close>

definition local_socket_destroy :: "nat \<Rightarrow> adb \<Rightarrow> adb res" where
  "local_socket_destroy s w =
     andthen (get_sock s w) (\<lambda>x.
     andthen (remove_socket s (w\<lparr>a_closed := s_fd x # a_closed w\<rparr>)) (\<lambda>w.
     Inr (free_sock s w)))"

text \<open>\<open>free\<close> of a remote socket, after its entry among the disconnect functions is removed.\<close>

definition remote_socket_free :: "nat \<Rightarrow> adb \<Rightarrow> adb res" where
  "remote_socket_free s w =
     andthen (get_sock s w) (\<lambda>x.
     case s_transport x of
       None \<Rightarrow> Inl Null_deref
     | Some t \<Rightarrow>
         (case r_heap w t of
            None \<Rightarrow> Inl Dangling
          | Some _ \<Rightarrow> Inr (free_sock s (remove_transport_disconnect t (Dis_socket s) w))))"

text \<open>\<open>s->peer->peer = 0\<close>, then the peer's close through \<open>close\<close>.\<close>

definition close_peer :: "(nat \<Rightarrow> adb \<Rightarrow> adb res) \<Rightarrow> asocket \<Rightarrow> adb \<Rightarrow> adb res" where
  "close_peer close x w =
     (case s_peer x of
        None \<Rightarrow> Inr w
      | Some q \<Rightarrow> andthen (set_sock q (\<lambda>y. y\<lparr>s_peer := None\<rparr>) w) (\<lambda>w. close q w))"

text \<open>
  The close functions of the other kinds of sockets; \<open>close\<close> is the call through the pointer of
  another socket, or of the same one after \<open>local_socket_close_notify\<close> has reset it.
\<close>

definition remote_socket_close :: "(nat \<Rightarrow> adb \<Rightarrow> adb res) \<Rightarrow> nat \<Rightarrow> adb \<Rightarrow> adb res" where
  "remote_socket_close close s w =
     andthen (get_sock s w) (\<lambda>x.
     andthen (case s_peer x of None \<Rightarrow> Inr 0 | Some q \<Rightarrow> andthen (get_sock q w) (\<lambda>y. Inr (s_id y))) (\<lambda>pid.
     andthen (close_peer close x w) (\<lambda>w.
     andthen (send_packet (command_packet A_CLSE pid (s_id x)) (s_transport x) w) (\<lambda>w.
     remote_socket_free s w))))"

definition smart_socket_close :: "(nat \<Rightarrow> adb \<Rightarrow> adb res) \<Rightarrow> nat \<Rightarrow> adb \<Rightarrow> adb res" where
  "smart_socket_close close s w =
     andthen (get_sock s w) (\<lambda>x.
     andthen (close_peer close x w) (\<lambda>w.
     Inr (free_sock s w)))"

definition device_tracker_close :: "(nat \<Rightarrow> adb \<Rightarrow> adb res) \<Rightarrow> nat \<Rightarrow> adb \<Rightarrow> adb res" where
  "device_tracker_close close s w =
     andthen (get_sock s w) (\<lambda>x.
     andthen (close_peer close x w) (\<lambda>w.
     Inr (free_sock s (device_tracker_remove s w))))"

definition local_socket_close_notify :: "(nat \<Rightarrow> adb \<Rightarrow> adb res) \<Rightarrow> nat \<Rightarrow> adb \<Rightarrow> adb res" where
  "local_socket_close_notify close s w =
     andthen (get_sock s w) (\<lambda>x.
     andthen (set_sock s (\<lambda>x. x\<lparr>s_ready := LS_ready, s_close := LS_close\<rparr>) w) (\<lambda>w.
     close s (snd (sendfailmsg (s_fd x) ''closed'' w))))"

lemmas close_defs = remote_socket_close_def smart_socket_close_def device_tracker_close_def
  local_socket_close_notify_def

text \<open>
  \<open>local_socket_close_locked\<close> (called with \<open>socket_list_lock\<close> held) and the call \<open>s->close(s)\<close>;
  the flag says whether the lock is held, and taking it twice is a deadlock. The packets a socket
  discards are not tracked further.
\<close>

fun local_socket_close_locked :: "nat \<Rightarrow> nat \<Rightarrow> adb \<Rightarrow> adb res"
  and sock_close :: "nat \<Rightarrow> bool \<Rightarrow> nat \<Rightarrow> adb \<Rightarrow> adb res" where
  "local_socket_close_locked 0 s w = Inl Out_of_fuel"
| "local_socket_close_locked (Suc n) s w =
     andthen (get_sock s w) (\<lambda>x.
     andthen (if s_peer x \<noteq> None then
                andthen (close_peer (\<lambda>q w. andthen (get_sock q w) (\<lambda>y.
                   if s_close y = LS_close then local_socket_close_locked n q w
                   else sock_close n True q w)) x w) (\<lambda>w.
                set_sock s (\<lambda>x. x\<lparr>s_peer := None\<rparr>) w)
              else Inr w) (\<lambda>w.
     andthen (get_sock s w) (\<lambda>x.
     if s_closing x \<or> s_pkts x = [] then local_socket_destroy s w
     else
       andthen (set_sock s (\<lambda>x. x\<lparr>s_closing := True, s_want_read := False\<rparr>) w) (\<lambda>w.
       andthen (remove_socket s w) (\<lambda>w.
       Inr (w\<lparr>a_clsd := a_clsd w @ [s]\<rparr>))))))"
| "sock_close 0 locked s w = Inl Out_of_fuel"
| "sock_close (Suc n) locked s w =
     andthen (get_sock s w) (\<lambda>x.
     case s_close x of
       LS_close \<Rightarrow> if locked then Inl Deadlock else local_socket_close_locked n s w
     | LS_close_notify \<Rightarrow> local_socket_close_notify (sock_close n locked) s w
     | RS_close \<Rightarrow> remote_socket_close (sock_close n locked) s w
     | SS_close \<Rightarrow> smart_socket_close (sock_close n locked) s w
     | DT_close \<Rightarrow> device_tracker_close (sock_close n locked) s w)"

text \<open>The depth of the calls is bounded (shown below), so the fuel is a constant.\<close>

definition close_sock :: "nat \<Rightarrow> adb \<Rightarrow> adb res" where
  "close_sock s w = sock_close 5 False s w"

definition remote_socket_disconnect :: "nat \<Rightarrow> adb \<Rightarrow> adb res" where
  "remote_socket_disconnect s w =
     andthen (get_sock s w) (\<lambda>x.
     andthen (close_peer close_sock x w) (\<lambda>w.
     remote_socket_free s w))"

text \<open>
  \<open>close_all_sockets\<close> starts over after each socket it closes; the fuel is the number of live
  sockets.
\<close>

definition bound_to :: "nat \<Rightarrow> adb \<Rightarrow> nat \<Rightarrow> bool res" where
  "bound_to t w s =
     andthen (get_sock s w) (\<lambda>x.
     if s_transport x = Some t then Inr True
     else case s_peer x of
            None \<Rightarrow> Inr False
          | Some q \<Rightarrow> andthen (get_sock q w) (\<lambda>y. Inr (s_transport y = Some t)))"

fun first_bound :: "nat \<Rightarrow> adb \<Rightarrow> nat list \<Rightarrow> nat option res" where
  "first_bound t w [] = Inr None"
| "first_bound t w (s # ss) =
     andthen (bound_to t w s) (\<lambda>b. if b then Inr (Some s) else first_bound t w ss)"

fun close_all_loop :: "nat \<Rightarrow> nat \<Rightarrow> adb \<Rightarrow> adb res" where
  "close_all_loop 0 t w = Inl Out_of_fuel"
| "close_all_loop (Suc n) t w =
     andthen (first_bound t w (a_live w)) (\<lambda>r.
     case r of
       None \<Rightarrow> Inr w
     | Some s \<Rightarrow> andthen (local_socket_close_locked 5 s w) (\<lambda>w. close_all_loop n t w))"

definition close_all_sockets :: "nat \<Rightarrow> adb \<Rightarrow> adb res" where
  "close_all_sockets t w = close_all_loop (Suc (length (a_live w))) t w"

subsection \<open>Well-formed states\<close>

text \<open>
  A live or closing local socket is on exactly the list its flag says; a socket that is rigged to
  report a failure has no peer; a remote socket hangs on a transport that exists and that knows it;
  peers point at each other and one of the two is local. Sockets outside \<open>H\<close> that are not local
  have a peer.
\<close>

definition attached :: "adb \<Rightarrow> nat \<Rightarrow> asocket \<Rightarrow> bool" where
  "attached w s x \<longleftrightarrow> (case s_transport x of None \<Rightarrow> False
     | Some t \<Rightarrow> (case r_heap w t of None \<Rightarrow> False | Some tx \<Rightarrow> Dis_socket s \<in> set (t_disconnects tx)))"

definition kind_ok :: "adb \<Rightarrow> nat \<Rightarrow> asocket \<Rightarrow> bool" where
  "kind_ok w s x \<longleftrightarrow>
     (case s_enqueue x of
        LS_enqueue \<Rightarrow>
          (s_close x = LS_close \<and> s_ready x = LS_ready
           \<or> s_close x = LS_close_notify \<and> s_ready x = LS_ready_notify \<and> s_peer x = None)
          \<and> (s \<in> set (a_live w) \<longleftrightarrow> \<not> s_closing x) \<and> (s \<in> set (a_clsd w) \<longleftrightarrow> s_closing x)
          \<and> (s_closing x \<longrightarrow> s_peer x = None)
      | RS_enqueue \<Rightarrow> s_close x = RS_close \<and> s_ready x = RS_ready \<and> attached w s x
      | SS_enqueue \<Rightarrow> s_close x = SS_close \<and> s_ready x = SS_ready
          \<and> (\<forall>t. s_transport x = Some t \<longrightarrow> r_heap w t \<noteq> None)
      | DT_enqueue \<Rightarrow> s_close x = DT_close \<and> s_ready x = DT_ready \<and> s \<in> set (a_trackers w))"

definition peer_ok :: "adb \<Rightarrow> nat \<Rightarrow> asocket \<Rightarrow> bool" where
  "peer_ok w s x \<longleftrightarrow>
     (case s_peer x of None \<Rightarrow> True
      | Some q \<Rightarrow> q \<noteq> s \<and> (case a_sock w q of None \<Rightarrow> False
          | Some y \<Rightarrow> s_peer y = Some s \<and> (s_enqueue x = LS_enqueue \<or> s_enqueue y = LS_enqueue)))"

definition sock_ok :: "nat set \<Rightarrow> adb \<Rightarrow> nat \<Rightarrow> asocket \<Rightarrow> bool" where
  "sock_ok H w s x \<longleftrightarrow> s < a_snext w \<and> kind_ok w s x \<and> peer_ok w s x
     \<and> (s_enqueue x \<noteq> LS_enqueue \<longrightarrow> s \<notin> set (a_live w) \<and> s \<notin> set (a_clsd w))
     \<and> (s_enqueue x \<noteq> DT_enqueue \<longrightarrow> s \<notin> set (a_trackers w))
     \<and> (s_enqueue x \<noteq> LS_enqueue \<longrightarrow> s \<notin> H \<longrightarrow> s_peer x \<noteq> None)"

definition dis_ok :: "adb \<Rightarrow> bool" where
  "dis_ok w \<longleftrightarrow> (\<forall>t tx s. r_heap w t = Some tx \<longrightarrow> Dis_socket s \<in> set (t_disconnects tx) \<longrightarrow>
     (\<exists>x. a_sock w s = Some x \<and> s_enqueue x = RS_enqueue \<and> s_transport x = Some t))
     \<and> (\<forall>t tx. r_heap w t = Some tx \<longrightarrow> distinct (t_disconnects tx))"

definition lists_ok :: "adb \<Rightarrow> bool" where
  "lists_ok w \<longleftrightarrow> distinct (a_live w) \<and> distinct (a_clsd w) \<and> distinct (a_trackers w)
     \<and> (\<forall>s \<in> set (a_live w) \<union> set (a_clsd w) \<union> set (a_trackers w). a_sock w s \<noteq> None)"

definition sockets_ok :: "nat set \<Rightarrow> adb \<Rightarrow> bool" where
  "sockets_ok H w \<longleftrightarrow> lists_ok w \<and> dis_ok w \<and> (\<forall>s x. a_sock w s = Some x \<longrightarrow> sock_ok H w s x)"

lemma sockets_okD: "sockets_ok H w \<Longrightarrow> a_sock w s = Some x \<Longrightarrow> sock_ok H w s x"
  by (simp add: sockets_ok_def)

lemma sockets_ok_mono: "sockets_ok H w \<Longrightarrow> H \<subseteq> H' \<Longrightarrow> sockets_ok H' w"
  by (auto simp: sockets_ok_def sock_ok_def)

subsection \<open>Closing a socket without a peer\<close>

lemma put_sock_simps [simp]:
  "a_sock (put_sock s x w) = (a_sock w)(s \<mapsto> x)" "a_live (put_sock s x w) = a_live w"
  "a_clsd (put_sock s x w) = a_clsd w" "a_trackers (put_sock s x w) = a_trackers w"
  "r_heap (put_sock s x w) = r_heap w" "a_fds (put_sock s x w) = a_fds w" "a_snext (put_sock s x w) = a_snext w"
  "a_next_id (put_sock s x w) = a_next_id w" "a_full (put_sock s x w) = a_full w"
  by (simp_all add: put_sock_def)

lemma put_fd_simps [simp]:
  "a_sock (put_fd fd f w) = a_sock w" "a_live (put_fd fd f w) = a_live w"
  "a_clsd (put_fd fd f w) = a_clsd w" "a_trackers (put_fd fd f w) = a_trackers w"
  "r_heap (put_fd fd f w) = r_heap w" "a_snext (put_fd fd f w) = a_snext w"
  "a_next_id (put_fd fd f w) = a_next_id w" "a_fds (put_fd fd f w) = (a_fds w)(fd := f)"
  "a_full (put_fd fd f w) = a_full w"
  by (simp_all add: put_fd_def)

lemma free_sock_simps [simp]:
  "a_sock (free_sock s w) = (a_sock w)(s := None)" "a_live (free_sock s w) = a_live w"
  "a_clsd (free_sock s w) = a_clsd w" "a_trackers (free_sock s w) = a_trackers w"
  "r_heap (free_sock s w) = r_heap w" "a_fds (free_sock s w) = a_fds w" "a_snext (free_sock s w) = a_snext w"
  "free_sock s (put_sock s x w) = free_sock s w" "a_next_id (free_sock s w) = a_next_id w"
  "a_full (free_sock s w) = a_full w"
  by (simp_all add: free_sock_def put_sock_def)

lemma upd_transport_adb [simp]:
  "a_sock (upd_transport t f w) = a_sock w" "a_live (upd_transport t f w) = a_live w"
  "a_clsd (upd_transport t f w) = a_clsd w" "a_trackers (upd_transport t f w) = a_trackers w"
  "a_fds (upd_transport t f w) = a_fds w" "a_snext (upd_transport t f w) = a_snext w"
  "a_next_id (upd_transport t f w) = a_next_id w" "a_full (upd_transport t f w) = a_full w"
  "r_heap (upd_transport t f w) = (r_heap w)(t := map_option f (r_heap w t))"
  by (simp_all add: upd_transport_def)

lemma put_sock_twice [simp]: "put_sock s x (put_sock s y w) = put_sock s x w"
  by (simp add: put_sock_def)

lemma put_sock_commute: "s \<noteq> q \<Longrightarrow> put_sock s x (put_sock q y w) = put_sock q y (put_sock s x w)"
  by (simp add: put_sock_def fun_upd_twist)

lemma put_sock_frame [simp]:
  "(put_sock s x w)\<lparr>a_live := L\<rparr> = put_sock s x (w\<lparr>a_live := L\<rparr>)"
  "(put_sock s x w)\<lparr>a_clsd := L\<rparr> = put_sock s x (w\<lparr>a_clsd := L\<rparr>)"
  "(put_sock s x w)\<lparr>a_trackers := L\<rparr> = put_sock s x (w\<lparr>a_trackers := L\<rparr>)"
  "(put_sock s x w)\<lparr>a_closed := C\<rparr> = put_sock s x (w\<lparr>a_closed := C\<rparr>)"
  "a_closed (put_sock s x w) = a_closed w"
  "upd_transport t f (put_sock s x w) = put_sock s x (upd_transport t f w)"
  "put_fd fd g (put_sock s x w) = put_sock s x (put_fd fd g w)"
  by (simp_all add: put_sock_def upd_transport_def put_fd_def)

lemma free_sock_commute: "s \<noteq> q \<Longrightarrow> free_sock q (put_sock s x w) = put_sock s x (free_sock q w)"
  by (simp add: put_sock_def free_sock_def fun_upd_twist)

lemma put_fd_twice [simp]: "put_fd fd f (put_fd fd g w) = put_fd fd f w"
  by (simp add: put_fd_def)

text \<open>What a failure message does to its descriptor.\<close>

definition fail_fd :: "string \<Rightarrow> fdesc \<Rightarrow> fdesc" where
  "fail_fd r f =
     (case writex (''FAIL'' @ fmt_x 4 (min 0xffff (length r))) f of (ok, f) \<Rightarrow>
      if ok then snd (writex (take 0xffff r) f) else f)"

lemma sendfailmsg_eq: "snd (sendfailmsg fd r w) = put_fd fd (fail_fd r (a_fds w fd)) w"
proof -
  have "(if 0xffff < length r then 0xffff else length r) = min 0xffff (length r)" by simp
  moreover have "take (min 0xffff (length r)) r = take 0xffff r" by (simp add: min_def)
  ultimately show ?thesis
    unfolding sendfailmsg_def fail_fd_def Let_def
    by (auto simp: fd_writex_def split: prod.split)
qed

text \<open>
  The effect on a local socket; with \<open>ntf\<close> the failure message of \<open>local_socket_close_notify\<close> is
  sent first.
\<close>

definition shut_local :: "bool \<Rightarrow> nat \<Rightarrow> asocket \<Rightarrow> adb \<Rightarrow> adb" where
  "shut_local ntf q x w =
     (let w = (if ntf then put_fd (s_fd x) (fail_fd ''closed'' (a_fds w (s_fd x))) w else w);
          x = (if ntf then x\<lparr>s_ready := LS_ready, s_close := LS_close\<rparr> else x)
      in if s_closing x \<or> s_pkts x = []
         then free_sock q (w\<lparr>a_closed := s_fd x # a_closed w, a_live := remove1 q (a_live w),
                             a_clsd := remove1 q (a_clsd w)\<rparr>)
         else put_sock q (x\<lparr>s_closing := True, s_want_read := False, s_id := 0\<rparr>)
                (w\<lparr>a_live := remove1 q (a_live w), a_clsd := remove1 q (a_clsd w) @ [q]\<rparr>))"

definition shut :: "u32 \<Rightarrow> nat \<Rightarrow> asocket \<Rightarrow> adb \<Rightarrow> adb" where
  "shut pid q x w =
     (case s_enqueue x of
        LS_enqueue \<Rightarrow> shut_local (s_close x = LS_close_notify) q x w
      | RS_enqueue \<Rightarrow>
          free_sock q (remove_transport_disconnect (the (s_transport x)) (Dis_socket q)
            (upd_transport (the (s_transport x))
              (\<lambda>y. y\<lparr>t_sent := t_sent y @ [seal_packet (command_packet A_CLSE pid (s_id x))]\<rparr>) w))
      | SS_enqueue \<Rightarrow> free_sock q w
      | DT_enqueue \<Rightarrow> free_sock q (device_tracker_remove q w))"

lemma shut_put: "s \<noteq> q \<Longrightarrow> shut pid q x (put_sock s y w) = put_sock s y (shut pid q x w)"
  by (auto simp: shut_def shut_local_def Let_def free_sock_commute put_sock_commute
      remove_transport_disconnect_def device_tracker_remove_def split: enqueue_fn.split)

lemma close_locked_solo:
  assumes "a_sock w q = Some x" "s_peer x = None" "s_enqueue x = LS_enqueue" "kind_ok w q x"
  shows "local_socket_close_locked (Suc n) q w = Inr (shut_local False q x w)"
  using assms
  by (cases "s_closing x \<or> s_pkts x = []")
    (auto simp: get_sock_def set_sock_def remove_socket_def local_socket_destroy_def
      shut_local_def kind_ok_def)

lemma shut_plain: "s_enqueue x = LS_enqueue \<Longrightarrow> s_close x = LS_close \<Longrightarrow> shut pid q x w = shut_local False q x w"
  by (simp add: shut_def)

lemma kind_ok_simps:
  "s_enqueue x = LS_enqueue \<Longrightarrow> kind_ok w s x \<longleftrightarrow>
     (s_close x = LS_close \<and> s_ready x = LS_ready
      \<or> s_close x = LS_close_notify \<and> s_ready x = LS_ready_notify \<and> s_peer x = None)
     \<and> (s \<in> set (a_live w) \<longleftrightarrow> \<not> s_closing x) \<and> (s \<in> set (a_clsd w) \<longleftrightarrow> s_closing x)
     \<and> (s_closing x \<longrightarrow> s_peer x = None)"
  "s_enqueue x = RS_enqueue \<Longrightarrow> kind_ok w s x \<longleftrightarrow> s_close x = RS_close \<and> s_ready x = RS_ready \<and> attached w s x"
  "s_enqueue x = SS_enqueue \<Longrightarrow> kind_ok w s x \<longleftrightarrow> s_close x = SS_close \<and> s_ready x = SS_ready
     \<and> (\<forall>t. s_transport x = Some t \<longrightarrow> r_heap w t \<noteq> None)"
  "s_enqueue x = DT_enqueue \<Longrightarrow> kind_ok w s x \<longleftrightarrow> s_close x = DT_close \<and> s_ready x = DT_ready \<and> s \<in> set (a_trackers w)"
  by (simp_all add: kind_ok_def)

text \<open>
  A remote socket tells the other side that it closes; the close is stuck when the transport cannot
  take that packet.
\<close>

definition stuck :: "adb \<Rightarrow> asocket \<Rightarrow> bool" where
  "stuck w x \<longleftrightarrow> s_enqueue x = RS_enqueue
     \<and> (case s_transport x of None \<Rightarrow> False
        | Some t \<Rightarrow> (case r_heap w t of None \<Rightarrow> False | Some tx \<Rightarrow> a_full w t (length (t_sent tx))))"

lemma stuck_simps [simp]:
  "stuck (put_sock s y w) x = stuck w x" "stuck w (x\<lparr>s_peer := q\<rparr>) = stuck w x"
  "s_enqueue x \<noteq> RS_enqueue \<Longrightarrow> \<not> stuck w x"
  by (auto simp: stuck_def split: option.splits)

lemma stuck_full: "stuck w x \<Longrightarrow> \<exists>t n. a_full w t n"
  by (auto simp: stuck_def split: option.splits)

lemma sock_close_solo:
  assumes "a_sock w q = Some x" "s_peer x = None" "kind_ok w q x" "locked \<longrightarrow> s_enqueue x \<noteq> LS_enqueue"
  shows "sock_close (Suc (Suc (Suc n))) locked q w = (if stuck w x then Inl enqueue_failed else Inr (shut 0 q x w))"
proof (cases "s_enqueue x")
  case LS_enqueue
  then consider "s_close x = LS_close" | "s_close x = LS_close_notify" "s_peer x = None"
    using assms(3) by (auto simp: kind_ok_simps)
  then show ?thesis
  proof cases
    case 1
    with close_locked_solo [OF assms(1,2) LS_enqueue assms(3)] LS_enqueue assms show ?thesis
      by (simp add: close_defs get_sock_def shut_plain)
  next
    case 2
    let ?x = "x\<lparr>s_ready := LS_ready, s_close := LS_close\<rparr>"
    let ?w = "put_sock q ?x (put_fd (s_fd x) (fail_fd ''closed'' (a_fds w (s_fd x))) w)"
    have "local_socket_close_locked (Suc n) q ?w = Inr (shut_local False q ?x ?w)"
      using LS_enqueue assms 2 by (intro close_locked_solo) (auto simp: kind_ok_simps)
    moreover have "shut_local False q ?x ?w = shut 0 q x w"
      using 2 LS_enqueue by (simp add: shut_def shut_local_def Let_def)
    ultimately show ?thesis
      using assms LS_enqueue 2 by (simp add: close_defs get_sock_def set_sock_def sendfailmsg_eq)
  qed
next
  case RS_enqueue
  then obtain t tx where "s_transport x = Some t" "r_heap w t = Some tx" "s_close x = RS_close"
    using assms(3) by (auto simp: kind_ok_simps attached_def split: option.splits)
  with assms RS_enqueue show ?thesis
    by (simp add: close_defs get_sock_def close_peer_def send_packet_def remote_socket_free_def shut_def stuck_def)
qed (use assms in \<open>simp_all add: close_defs get_sock_def close_peer_def shut_def kind_ok_simps\<close>)

subsection \<open>Closing keeps states well-formed\<close>

lemma sockets_okE:
  assumes "sockets_ok H w" "a_sock w s = Some x"
  shows "s < a_snext w" "kind_ok w s x" "peer_ok w s x"
    "s_enqueue x \<noteq> LS_enqueue \<Longrightarrow> s \<notin> set (a_live w) \<and> s \<notin> set (a_clsd w)"
    "s_enqueue x \<noteq> DT_enqueue \<Longrightarrow> s \<notin> set (a_trackers w)"
    "s_enqueue x \<noteq> LS_enqueue \<Longrightarrow> s \<notin> H \<Longrightarrow> s_peer x \<noteq> None"
  using sockets_okD [OF assms] by (simp_all add: sock_ok_def)

lemma peerE:
  assumes "sockets_ok H w" "a_sock w s = Some x" "s_peer x = Some q"
  obtains y where "a_sock w q = Some y" "q \<noteq> s" "s_peer y = Some s" "s_enqueue x = LS_enqueue \<or> s_enqueue y = LS_enqueue"
  using sockets_okE(3) [OF assms(1,2)] assms(3) that
  by (auto simp: peer_ok_def split: option.splits)

lemma attached_disconnects:
  "attached w s x = (case s_transport x of None \<Rightarrow> False
     | Some t \<Rightarrow> (case map_option t_disconnects (r_heap w t) of None \<Rightarrow> False | Some ds \<Rightarrow> Dis_socket s \<in> set ds))"
  by (auto simp: attached_def split: option.split)

text \<open>Updates that touch nothing the invariant looks at.\<close>

lemma sockets_ok_cong:
  assumes "sockets_ok H w" "a_sock w' = a_sock w" "a_live w' = a_live w" "a_clsd w' = a_clsd w"
    "a_trackers w' = a_trackers w" "a_snext w' = a_snext w"
    "\<And>t. map_option t_disconnects (r_heap w' t) = map_option t_disconnects (r_heap w t)"
  shows "sockets_ok H w'"
proof -
  have n: "r_heap w' t = None \<longleftrightarrow> r_heap w t = None" for t
    using assms(7) [of t] by (cases "r_heap w t"; cases "r_heap w' t") auto
  have d: "t_disconnects tx' = t_disconnects tx" if "r_heap w' t = Some tx'" "r_heap w t = Some tx" for t tx tx'
    using assms(7) [of t] that by simp
  have a: "attached w' s x = attached w s x" for s x
    unfolding attached_disconnects assms(7) by (rule refl)
  have k: "kind_ok w' s x = kind_ok w s x" for s x
    unfolding kind_ok_def assms(2-5) a n by (rule refl)
  have o: "sock_ok H w' s x = sock_ok H w s x" for s x
    unfolding sock_ok_def k peer_ok_def assms(2-6) by (rule refl)
  have "dis_ok w'"
    using assms(1) d n unfolding dis_ok_def sockets_ok_def assms(2) by (metis option.exhaust)
  with assms(1) show ?thesis
    by (simp add: sockets_ok_def o assms(2) lists_ok_def assms(3-5))
qed

lemma sockets_ok_unlink:
  assumes "sockets_ok H w" "a_sock w s = Some x" "s_peer x = Some q" "a_sock w q = Some y"
  shows "sockets_ok (insert s (insert q H)) (put_sock s (x\<lparr>s_peer := None\<rparr>) (put_sock q (y\<lparr>s_peer := None\<rparr>) w))"
    (is "sockets_ok ?H ?w")
proof -
  note ok = sockets_okE [OF assms(1)]
  have qs: "q \<noteq> s" "s_peer y = Some s" using peerE [OF assms(1-3)] assms(4) by auto
  have "lists_ok ?w" using assms(1) by (auto simp: sockets_ok_def lists_ok_def)
  moreover have "dis_ok ?w"
    using assms qs unfolding sockets_ok_def dis_ok_def by (auto; force)
  moreover have "sock_ok ?H ?w r z" if z: "a_sock ?w r = Some z" for r z
  proof -
    consider "r = s" "z = x\<lparr>s_peer := None\<rparr>" | "r = q" "z = y\<lparr>s_peer := None\<rparr>" | "r \<noteq> s" "r \<noteq> q" "a_sock w r = Some z"
      using z by (auto split: if_splits)
    then show ?thesis
    proof cases
      case 1
      with ok [OF assms(2)] show ?thesis
        by (auto simp: sock_ok_def kind_ok_def peer_ok_def attached_def split: enqueue_fn.splits option.splits)
    next
      case 2
      with ok [OF assms(4)] show ?thesis
        by (auto simp: sock_ok_def kind_ok_def peer_ok_def attached_def split: enqueue_fn.splits option.splits)
    next
      case 3
      have "s_peer z \<noteq> Some s" "s_peer z \<noteq> Some q"
        using peerE [OF assms(1) 3(3)] 3 assms qs by (metis option.inject)+
      with 3 ok [OF 3(3)] show ?thesis
        by (auto simp: sock_ok_def kind_ok_def peer_ok_def attached_def split: enqueue_fn.splits option.splits)
    qed
  qed
  ultimately show ?thesis by (simp add: sockets_ok_def)
qed

lemma shut_frame [simp]:
  "s \<noteq> q \<Longrightarrow> a_sock (shut pid q x w) s = a_sock w s" "a_snext (shut pid q x w) = a_snext w"
  "a_next_id (shut pid q x w) = a_next_id w"
  by (simp_all add: shut_def shut_local_def Let_def device_tracker_remove_def remove_transport_disconnect_def
      split: enqueue_fn.split)

lemma shut_live [simp]: "set (a_live (shut pid q x w)) \<subseteq> set (a_live w)"
  by (auto simp: shut_def shut_local_def Let_def device_tracker_remove_def remove_transport_disconnect_def
      split: enqueue_fn.split dest: subsetD [OF set_remove1_subset])

text \<open>Taking a peerless socket out of the store and out of all lists.\<close>

lemma sockets_ok_free:
  assumes "sockets_ok H w" "a_sock w q = Some x" "s_peer x = None"
    and "a_sock w' = (a_sock w)(q := None)" "a_live w' = remove1 q (a_live w)" "a_clsd w' = remove1 q (a_clsd w)"
      "a_trackers w' = remove1 q (a_trackers w)" "a_snext w' = a_snext w"
      "\<And>t. map_option t_disconnects (r_heap w' t) = map_option (\<lambda>tx. filter (\<lambda>d. d \<noteq> Dis_socket q) (t_disconnects tx)) (r_heap w t)"
  shows "sockets_ok (H - {q}) w'"
proof -
  note ok = sockets_okE [OF assms(1)]
  have L: "distinct (a_live w)" "distinct (a_clsd w)" "distinct (a_trackers w)"
    using assms(1) by (auto simp: sockets_ok_def lists_ok_def)
  have n: "r_heap w' t = None \<longleftrightarrow> r_heap w t = None" for t
    using assms(9) [of t] by (cases "r_heap w t"; cases "r_heap w' t") auto
  have d: "t_disconnects tx' = filter (\<lambda>d. d \<noteq> Dis_socket q) (t_disconnects tx)"
    if "r_heap w' t = Some tx'" "r_heap w t = Some tx" for t tx tx'
    using assms(9) [of t] that by simp
  have a: "attached w' s z = attached w s z" if "s \<noteq> q" for s z
    using that unfolding attached_disconnects assms(9) by (auto split: option.split)
  have "lists_ok w'"
    using assms(1) L by (auto simp: lists_ok_def sockets_ok_def assms(4-7))
  moreover have "dis_ok w'"
    unfolding dis_ok_def
  proof (intro conjI allI impI)
    fix t tx s
    assume t: "r_heap w' t = Some tx" "Dis_socket s \<in> set (t_disconnects tx)"
    then obtain tx0 where t0: "r_heap w t = Some tx0" using n by (metis not_Some_eq)
    with t d have "s \<noteq> q" "Dis_socket s \<in> set (t_disconnects tx0)" by auto
    with t0 assms(1) show "\<exists>z. a_sock w' s = Some z \<and> s_enqueue z = RS_enqueue \<and> s_transport z = Some t"
      by (auto simp: sockets_ok_def dis_ok_def assms(4))
  next
    fix t tx
    assume t: "r_heap w' t = Some tx"
    then obtain tx0 where t0: "r_heap w t = Some tx0" using n by (metis not_Some_eq)
    with t d [OF t t0] assms(1) show "distinct (t_disconnects tx)" by (auto simp: sockets_ok_def dis_ok_def)
  qed
  moreover have "sock_ok (H - {q}) w' r z" if z: "a_sock w' r = Some z" for r z
  proof -
    have r: "r \<noteq> q" "a_sock w r = Some z" using z by (auto simp: assms(4) split: if_splits)
    have "s_peer z \<noteq> Some q" using peerE [OF assms(1) r(2)] assms(2,3) by fastforce
    with ok [OF r(2)] r show ?thesis
      by (auto simp: sock_ok_def kind_ok_def peer_ok_def assms(4-8) a n split: enqueue_fn.splits option.splits)
  qed
  ultimately show ?thesis by (simp add: sockets_ok_def)
qed

text \<open>A disconnect list without the socket is not changed by removing it.\<close>

lemma disconnects_other:
  assumes "sockets_ok H w" "a_sock w q = Some x" "s_enqueue x \<noteq> RS_enqueue \<or> s_transport x \<noteq> Some t"
    and "r_heap w t = Some tx"
  shows "filter (\<lambda>d. d \<noteq> Dis_socket q) (t_disconnects tx) = t_disconnects tx"
proof -
  have "Dis_socket q \<notin> set (t_disconnects tx)"
    using assms unfolding sockets_ok_def dis_ok_def by fastforce
  then show ?thesis by (auto intro: filter_True)
qed

lemma disconnects_not_remote:
  assumes "sockets_ok H w" "a_sock w q = Some x" "s_enqueue x \<noteq> RS_enqueue"
  shows "map_option t_disconnects (r_heap w t)
    = map_option (\<lambda>tx. filter (\<lambda>d. d \<noteq> Dis_socket q) (t_disconnects tx)) (r_heap w t)"
  using disconnects_other [OF assms(1,2)] assms(3) by (cases "r_heap w t") auto

lemma sockets_ok_shut_local:
  assumes "sockets_ok H w" "a_sock w q = Some x" "s_peer x = None" "s_enqueue x = LS_enqueue"
  shows "sockets_ok (H - {q}) (shut_local ntf q x w)"
proof -
  note ok = sockets_okE [OF assms(1,2)]
  have rem: "q \<notin> set xs \<Longrightarrow> remove1 q xs = xs" for xs :: "nat list" by (simp add: remove1_idem)
  show ?thesis
  proof (cases "s_closing x \<or> s_pkts x = []")
    case True
    with assms(4) ok disconnects_not_remote [OF assms(1,2)] show ?thesis
      by (intro sockets_ok_free [OF assms(1-3)]) (auto simp: shut_local_def Let_def rem)
  next
    case False
    define f where "f = (if ntf then put_fd (s_fd x) (fail_fd ''closed'' (a_fds w (s_fd x))) w else w)"
    define y where "y = (if ntf then x\<lparr>s_ready := LS_ready, s_close := LS_close\<rparr> else x)
      \<lparr>s_closing := True, s_want_read := False, s_id := 0\<rparr>"
    let ?w = "shut_local ntf q x w"
    have sh: "?w = put_sock q y (f\<lparr>a_live := remove1 q (a_live w), a_clsd := remove1 q (a_clsd w) @ [q]\<rparr>)"
      using False by (auto simp: shut_local_def f_def y_def Let_def)
    have y: "s_enqueue y = LS_enqueue" "s_peer y = None" "s_closing y"
      "s_close y = LS_close \<and> s_ready y = LS_ready \<or> s_close y = LS_close_notify \<and> s_ready y = LS_ready_notify"
      using assms(3,4) ok(2) by (auto simp: y_def kind_ok_simps)
    have f: "a_sock f = a_sock w" "r_heap f = r_heap w" "a_trackers f = a_trackers w" "a_snext f = a_snext w"
      by (simp_all add: f_def)
    have q: "q \<in> set (a_live w)" "q \<notin> set (a_clsd w)" "q \<notin> set (a_trackers w)"
      using ok False assms(4) by (auto simp: kind_ok_simps)
    have L: "distinct (a_live w)" "distinct (a_clsd w)"
      using assms(1) by (auto simp: sockets_ok_def lists_ok_def)
    have "lists_ok ?w"
      using assms(1) L q by (auto simp: lists_ok_def sockets_ok_def sh f remove1_idem)
    moreover have "dis_ok ?w"
      using assms(1,2,4) unfolding sockets_ok_def dis_ok_def sh by (auto simp: f; force)
    moreover have "sock_ok (H - {q}) ?w r z" if z: "a_sock ?w r = Some z" for r z
    proof (cases "r = q")
      case True
      then have "z = y" using z by (simp add: sh)
      with True y ok(1) L q show ?thesis
        by (auto simp: sock_ok_def peer_ok_def kind_ok_simps sh f)
    next
      case False
      then have r: "a_sock w r = Some z" using z by (simp add: sh f)
      have "s_peer z \<noteq> Some q" using peerE [OF assms(1) r] assms(2,3) by fastforce
      with sockets_okE [OF assms(1) r] r False L show ?thesis
        by (auto simp: sock_ok_def kind_ok_def peer_ok_def attached_def sh f split: enqueue_fn.splits option.splits)
    qed
    ultimately show ?thesis by (simp add: sockets_ok_def)
  qed
qed

lemma sockets_ok_shut:
  assumes "sockets_ok H w" "a_sock w q = Some x" "s_peer x = None"
  shows "sockets_ok (H - {q}) (shut pid q x w)"
proof -
  note ok = sockets_okE [OF assms(1,2)]
  note nodis = disconnects_not_remote [OF assms(1,2)]
  have rem: "q \<notin> set xs \<Longrightarrow> remove1 q xs = xs" for xs :: "nat list" by (simp add: remove1_idem)
  show ?thesis
  proof (cases "s_enqueue x")
    case LS_enqueue
    with sockets_ok_shut_local [OF assms] show ?thesis by (simp add: shut_def)
  next
    case RS_enqueue
    then obtain t tx where t: "s_transport x = Some t" "r_heap w t = Some tx"
      using ok(2) by (auto simp: kind_ok_simps attached_def split: option.splits)
    have "t_disconnects z = filter (\<lambda>d. d \<noteq> Dis_socket q) (t_disconnects z)" if "u \<noteq> t" "r_heap w u = Some z" for u z
      using disconnects_other [OF assms(1,2) _ that(2)] t that(1) by simp
    with t RS_enqueue ok show ?thesis
      by (intro sockets_ok_free [OF assms])
        (auto simp: shut_def remove_transport_disconnect_def rem option.map_comp comp_def intro!: option.map_cong)
  next
    case SS_enqueue
    with ok nodis show ?thesis
      by (intro sockets_ok_free [OF assms]) (auto simp: shut_def rem)
  next
    case DT_enqueue
    with ok nodis show ?thesis
      by (intro sockets_ok_free [OF assms]) (auto simp: shut_def device_tracker_remove_def rem)
  qed
qed

text \<open>The state in which both ends have forgotten each other.\<close>

definition unlinked :: "nat \<Rightarrow> asocket \<Rightarrow> nat \<Rightarrow> asocket \<Rightarrow> adb \<Rightarrow> adb" where
  "unlinked s x q y w = put_sock s (x\<lparr>s_peer := None\<rparr>) (put_sock q (y\<lparr>s_peer := None\<rparr>) w)"

definition shut_pair :: "u32 \<Rightarrow> nat \<Rightarrow> asocket \<Rightarrow> nat \<Rightarrow> asocket \<Rightarrow> adb \<Rightarrow> adb" where
  "shut_pair pid s x q y w =
     shut pid s (x\<lparr>s_peer := None\<rparr>) (shut 0 q (y\<lparr>s_peer := None\<rparr>) (unlinked s x q y w))"

lemma sockets_ok_shut_pair:
  assumes "sockets_ok H w" "a_sock w s = Some x" "s_peer x = Some q" "a_sock w q = Some y"
  shows "sockets_ok (insert s H) (shut 0 q (y\<lparr>s_peer := None\<rparr>) (unlinked s x q y w))"
    and "sockets_ok H (shut_pair pid s x q y w)"
proof -
  have qs: "q \<noteq> s" using peerE [OF assms(1-3)] by auto
  let ?w = "unlinked s x q y w"
  have "sockets_ok (insert s (insert q H)) ?w"
    unfolding unlinked_def by (rule sockets_ok_unlink [OF assms])
  then have "sockets_ok (insert s (insert q H) - {q}) (shut 0 q (y\<lparr>s_peer := None\<rparr>) ?w)"
    using qs by (intro sockets_ok_shut) (auto simp: unlinked_def)
  then show s1: "sockets_ok (insert s H) (shut 0 q (y\<lparr>s_peer := None\<rparr>) ?w)"
    by (rule sockets_ok_mono) auto
  then have "sockets_ok (insert s H - {s}) (shut_pair pid s x q y w)"
    unfolding shut_pair_def using qs by (intro sockets_ok_shut) (auto simp: unlinked_def)
  then show "sockets_ok H (shut_pair pid s x q y w)" by (rule sockets_ok_mono) auto
qed

text \<open>The peer's half of a close, with the lock held or not.\<close>

lemma close_peer_pair:
  assumes "sockets_ok H w" "a_sock w s = Some x" "s_peer x = Some q" "a_sock w q = Some y"
  shows "close_peer (sock_close (Suc (Suc (Suc n))) False) x w
      = (if stuck w y then Inl enqueue_failed
         else Inr (shut 0 q (y\<lparr>s_peer := None\<rparr>) (put_sock q (y\<lparr>s_peer := None\<rparr>) w)))"
    and "close_peer (\<lambda>q w. andthen (get_sock q w) (\<lambda>y. if s_close y = LS_close
             then local_socket_close_locked (Suc (Suc (Suc n))) q w
             else sock_close (Suc (Suc (Suc n))) True q w)) x w
      = (if stuck w y then Inl enqueue_failed
         else Inr (shut 0 q (y\<lparr>s_peer := None\<rparr>) (put_sock q (y\<lparr>s_peer := None\<rparr>) w)))"
proof -
  let ?y = "y\<lparr>s_peer := None\<rparr>" and ?w = "put_sock q (y\<lparr>s_peer := None\<rparr>) w"
  have sy: "s_peer y = Some s" using peerE [OF assms(1-3)] assms(4) by auto
  have k: "kind_ok ?w q ?y"
    using sockets_okE(2) [OF assms(1,4)]
    by (auto simp: kind_ok_def attached_def split: enqueue_fn.splits option.splits)
  have y: "a_sock ?w q = Some ?y" "s_peer ?y = None" by simp_all
  have c: "s_enqueue y = LS_enqueue \<longleftrightarrow> s_close y = LS_close"
    using sockets_okE(2) [OF assms(1,4)] sy by (cases "s_enqueue y") (auto simp: kind_ok_simps)
  show "close_peer (sock_close (Suc (Suc (Suc n))) False) x w
      = (if stuck w y then Inl enqueue_failed else Inr (shut 0 q ?y ?w))"
    using assms sock_close_solo [OF y k, of False n] by (simp add: close_peer_def set_sock_def)
  show "close_peer (\<lambda>q w. andthen (get_sock q w) (\<lambda>y. if s_close y = LS_close
             then local_socket_close_locked (Suc (Suc (Suc n))) q w
             else sock_close (Suc (Suc (Suc n))) True q w)) x w
      = (if stuck w y then Inl enqueue_failed else Inr (shut 0 q ?y ?w))"
    using assms sock_close_solo [OF y k, of True n] close_locked_solo [OF y _ k, of "Suc (Suc n)"] c
    by (auto simp: shut_plain close_peer_def set_sock_def get_sock_def simp del: sock_close.simps local_socket_close_locked.simps)
qed

lemma unlinked_shut:
  "s \<noteq> q \<Longrightarrow> shut 0 q y' (unlinked s x q y w)
    = put_sock s (x\<lparr>s_peer := None\<rparr>) (shut 0 q y' (put_sock q (y\<lparr>s_peer := None\<rparr>) w))"
  by (simp add: unlinked_def shut_put)

lemma close_locked_pair:
  assumes "sockets_ok H w" "a_sock w s = Some x" "s_peer x = Some q" "a_sock w q = Some y"
    and "s_enqueue x = LS_enqueue"
  shows "local_socket_close_locked (Suc (Suc (Suc (Suc n)))) s w
    = (if stuck w y then Inl enqueue_failed else Inr (shut_pair pid s x q y w))"
proof -
  let ?y = "y\<lparr>s_peer := None\<rparr>" and ?x = "x\<lparr>s_peer := None\<rparr>"
  let ?w = "shut 0 q ?y (put_sock q ?y w)"
  have qs: "s \<noteq> q" using peerE [OF assms(1-3)] by auto
  have u: "shut 0 q ?y (unlinked s x q y w) = put_sock s ?x ?w" using unlinked_shut [OF qs] .
  have x: "a_sock ?w s = Some x" using qs assms(2) by simp
  have c: "s_close x = LS_close"
    using sockets_okE(2) [OF assms(1,2)] assms(3,5) by (auto simp: kind_ok_simps)
  have k: "kind_ok (put_sock s ?x ?w) s ?x"
    using sockets_okE(2) [OF sockets_ok_shut_pair(1) [OF assms(1-4)], of s ?x] qs u by simp
  have tail: "local_socket_close_locked (Suc (Suc (Suc (Suc n)))) s (put_sock s ?x ?w) = Inr (shut_pair pid s x q y w)"
    unfolding shut_pair_def u using assms(5) c k
    by (subst close_locked_solo [of _ _ ?x]) (simp_all add: shut_plain)
  show ?thesis
    using assms(2,3) x close_peer_pair(2) [OF assms(1-4), of n] tail
    by (simp only: local_socket_close_locked.simps(2)) (simp add: get_sock_def set_sock_def)
qed

lemma sock_close_pair:
  assumes "sockets_ok H w" "a_sock w s = Some x" "s_peer x = Some q" "a_sock w q = Some y"
  shows "sock_close (Suc (Suc (Suc (Suc (Suc n))))) False s w
    = (if stuck w y \<or> stuck w x then Inl enqueue_failed else Inr (shut_pair (s_id y) s x q y w))"
proof -
  let ?y = "y\<lparr>s_peer := None\<rparr>" and ?x = "x\<lparr>s_peer := None\<rparr>"
  let ?w = "shut 0 q ?y (put_sock q ?y w)"
  have qs: "s \<noteq> q" using peerE [OF assms(1-3)] by auto
  have u: "shut 0 q ?y (unlinked s x q y w) = put_sock s ?x ?w" using unlinked_shut [OF qs] .
  have x: "a_sock ?w s = Some x" using qs assms(2) by simp
  have k: "kind_ok (put_sock s ?x ?w) s ?x"
    using sockets_okE(2) [OF sockets_ok_shut_pair(1) [OF assms], of s ?x] qs u by simp
  have kx: "kind_ok w s x" by (rule sockets_okE(2) [OF assms(1,2)])
  have one: "s_enqueue x = LS_enqueue \<or> s_enqueue y = LS_enqueue" using peerE [OF assms(1-3)] assms(4) by auto
  note cp = close_peer_pair(1) [OF assms, of "Suc n"]
  show ?thesis
  proof (cases "s_enqueue x")
    case LS_enqueue
    with kx assms(3) have "s_close x = LS_close" by (auto simp: kind_ok_simps)
    with close_locked_pair [OF assms LS_enqueue, of n "s_id y"] assms(2) LS_enqueue show ?thesis
      by (subst sock_close.simps) (simp add: close_defs get_sock_def del: local_socket_close_locked.simps)
  next
    case RS_enqueue
    then obtain t tx where t: "s_transport x = Some t" "r_heap ?w t = Some tx" "s_close x = RS_close"
      using k kx by (auto simp: kind_ok_simps attached_def split: option.splits)
    have y: "s_enqueue y = LS_enqueue" using one RS_enqueue by simp
    then have "r_heap ?w = r_heap w" "a_full ?w = a_full w" by (simp_all add: shut_def shut_local_def Let_def)
    then have "stuck w x \<longleftrightarrow> a_full ?w t (length (t_sent tx))"
      using RS_enqueue t by (simp add: stuck_def)
    with RS_enqueue cp assms x t y show ?thesis
      unfolding shut_pair_def u
      by (subst sock_close.simps)
        (simp add: close_defs get_sock_def send_packet_def remote_socket_free_def shut_def remove_transport_disconnect_def
          del: sock_close.simps)
  next
    case SS_enqueue
    with cp assms kx show ?thesis
      unfolding shut_pair_def u
      by (subst sock_close.simps) (simp add: close_defs get_sock_def shut_def kind_ok_simps del: sock_close.simps)
  next
    case DT_enqueue
    with cp assms kx show ?thesis
      unfolding shut_pair_def u
      by (subst sock_close.simps)
        (simp add: close_defs get_sock_def shut_def device_tracker_remove_def kind_ok_simps del: sock_close.simps)
  qed
qed

subsection \<open>Closing is safe\<close>

lemma shut_self:
  "a_sock (shut pid q x w) q = None \<or> (\<exists>y. a_sock (shut pid q x w) q = Some y \<and> s_closing y \<and> s_enqueue x = LS_enqueue)"
  by (auto simp: shut_def shut_local_def Let_def split: enqueue_fn.split)

lemma shut_not_live: "distinct (a_live w) \<Longrightarrow> s_enqueue x = LS_enqueue \<Longrightarrow> q \<notin> set (a_live (shut pid q x w))"
  by (simp add: shut_def shut_local_def Let_def)

text \<open>
  Nothing happens to the listeners, and the transports stay the same up to what they have sent and
  which sockets hang on them.
\<close>

fun is_listener :: "adisconnect \<Rightarrow> bool" where
  "is_listener (Dis_listener l) = True"
| "is_listener (Dis_socket s) = False"

definition tview :: "adb \<Rightarrow> nat \<Rightarrow> (conn_state \<times> adisconnect list) option" where
  "tview w t = map_option (\<lambda>x. (t_state x, filter is_listener (t_disconnects x))) (r_heap w t)"

definition steady :: "adb \<Rightarrow> adb \<Rightarrow> bool" where
  "steady w w' \<longleftrightarrow> a_listeners w' = a_listeners w \<and> a_host w' = a_host w \<and> tview w' = tview w
     \<and> a_full w' = a_full w"

lemma steady_refl [simp]: "steady w w"
  by (simp add: steady_def)

lemma steady_trans: "steady u v \<Longrightarrow> steady v w \<Longrightarrow> steady u w"
  by (simp add: steady_def)

lemma steady_put_sock [simp]: "steady w (put_sock s x v) = steady w v"
  by (simp add: steady_def put_sock_def tview_def fun_eq_iff)

lemma steady_put_fd [simp]: "steady w (put_fd fd f v) = steady w v"
  by (simp add: steady_def put_fd_def tview_def fun_eq_iff)

lemma listener_not_socket [simp]: "(d \<noteq> Dis_socket q \<and> is_listener d) = is_listener d"
  by (cases d) auto

lemma steady_put_fd_left [simp]: "steady (put_fd fd f w) v = steady w v"
  by (simp add: steady_def put_fd_def tview_def fun_eq_iff)

lemma steady_put_sock_left [simp]: "steady (put_sock s x w) v = steady w v"
  by (simp add: steady_def put_sock_def tview_def fun_eq_iff)

lemma shut_steady: "steady w (shut pid q x w)"
  by (auto simp: steady_def tview_def shut_def shut_local_def Let_def put_fd_def put_sock_def free_sock_def
      upd_transport_def remove_transport_disconnect_def device_tracker_remove_def option.map_comp comp_def
      fun_eq_iff split: enqueue_fn.split)

lemma shut_local_steady: "steady w (shut_local ntf q x w)"
  by (auto simp: steady_def tview_def shut_local_def Let_def put_fd_def put_sock_def free_sock_def fun_eq_iff)

text \<open>What a close leaves behind, for callers.\<close>

definition closed_state :: "nat set \<Rightarrow> nat \<Rightarrow> asocket \<Rightarrow> adb \<Rightarrow> adb \<Rightarrow> bool" where
  "closed_state H s x w w' \<longleftrightarrow> sockets_ok H w' \<and> s \<notin> set (a_live w') \<and> set (a_live w') \<subseteq> set (a_live w)
     \<and> (a_sock w' s = None \<or> (\<exists>x'. a_sock w' s = Some x' \<and> s_closing x' \<and> s_enqueue x = LS_enqueue))
     \<and> (\<forall>r. r \<noteq> s \<longrightarrow> s_peer x \<noteq> Some r \<longrightarrow> a_sock w' r = a_sock w r)
     \<and> (\<forall>r. s_peer x = Some r \<longrightarrow> r \<notin> set (a_live w'))
     \<and> a_snext w' = a_snext w \<and> a_next_id w' = a_next_id w
     \<and> steady w w'"

lemma live_sockets:
  assumes "sockets_ok H w" "s \<in> set (a_live w)"
  obtains x where "a_sock w s = Some x" "s_enqueue x = LS_enqueue" "\<not> s_closing x"
proof -
  have "a_sock w s \<noteq> None" using assms by (simp add: sockets_ok_def lists_ok_def)
  then obtain x where x: "a_sock w s = Some x" by blast
  have e: "s_enqueue x = LS_enqueue" using sockets_okE(4) [OF assms(1) x] assms(2) by blast
  then have "\<not> s_closing x" using sockets_okE(2) [OF assms(1) x] assms(2) by (simp add: kind_ok_simps)
  with x e show ?thesis by (rule that)
qed

lemma not_live:
  assumes "sockets_ok H w" "a_sock w s = None \<or> (\<exists>x'. a_sock w s = Some x' \<and> s_closing x')"
  shows "s \<notin> set (a_live w)"
  using assms(2) by (auto elim: live_sockets [OF assms(1)])

lemma closed_state_shut:
  assumes "sockets_ok H w" "a_sock w s = Some x" "s_peer x = None"
  shows "closed_state H s x w (shut pid s x w)"
proof -
  have ok: "sockets_ok H (shut pid s x w)"
    by (rule sockets_ok_mono [OF sockets_ok_shut [OF assms]]) auto
  moreover have "s \<notin> set (a_live (shut pid s x w))"
    by (rule not_live [OF ok]) (use shut_self [of pid s x w] in auto)
  ultimately show ?thesis
    using assms shut_self [of pid s x w] by (auto simp: closed_state_def shut_steady dest: subsetD [OF shut_live])
qed

lemma closed_state_shut_local:
  assumes "sockets_ok H w" "a_sock w s = Some x" "s_peer x = None" "s_enqueue x = LS_enqueue"
  shows "closed_state H s x w (shut_local ntf s x w)"
proof -
  have ok: "sockets_ok H (shut_local ntf s x w)"
    by (rule sockets_ok_mono [OF sockets_ok_shut_local [OF assms]]) auto
  have self: "a_sock (shut_local ntf s x w) s = None \<or> (\<exists>z. a_sock (shut_local ntf s x w) s = Some z \<and> s_closing z)"
    by (auto simp: shut_local_def Let_def)
  show ?thesis
    using not_live [OF ok self] ok self assms(3,4)
    shut_local_steady [of w ntf s x]
    by (auto simp: closed_state_def shut_local_def Let_def dest: subsetD [OF set_remove1_subset] split: if_splits)
qed

lemma closed_state_pair:
  assumes "sockets_ok H w" "a_sock w s = Some x" "s_peer x = Some q" "a_sock w q = Some y"
  shows "closed_state H s x w (shut_pair pid s x q y w)"
proof -
  let ?y = "y\<lparr>s_peer := None\<rparr>" and ?x = "x\<lparr>s_peer := None\<rparr>" and ?u = "unlinked s x q y w"
  let ?v = "shut 0 q ?y ?u" and ?w = "shut_pair pid s x q y w"
  have qs: "s \<noteq> q" using peerE [OF assms(1-3)] by auto
  have ok: "sockets_ok (insert s H) ?v" "sockets_ok H ?w"
    using sockets_ok_shut_pair [OF assms] by auto
  have q: "a_sock ?v q = None \<or> (\<exists>z. a_sock ?v q = Some z \<and> s_closing z)"
    using shut_self [of 0 q ?y ?u] by auto
  have s: "a_sock ?w s = None \<or> (\<exists>z. a_sock ?w s = Some z \<and> s_closing z \<and> s_enqueue x = LS_enqueue)"
    unfolding shut_pair_def using shut_self [of pid s ?x ?v] by simp
  have fr: "a_sock ?w r = a_sock w r" if "r \<noteq> s" "r \<noteq> q" for r
    using that by (simp add: shut_pair_def unlinked_def)
  have wq: "a_sock ?w q = a_sock ?v q" using qs by (simp add: shut_pair_def)
  have "s \<notin> set (a_live ?w)" "q \<notin> set (a_live ?w)"
    using not_live [OF ok(2), of s] not_live [OF ok(2), of q] s q wq by auto
  moreover have "set (a_live ?w) \<subseteq> set (a_live w)"
    using subset_trans [OF shut_live [of pid s ?x ?v] shut_live [of 0 q ?y ?u]]
    by (simp add: shut_pair_def unlinked_def)
  moreover have "steady w ?w"
    unfolding shut_pair_def
    by (rule steady_trans [OF _ shut_steady], rule steady_trans [OF _ shut_steady]) (simp add: unlinked_def)
  ultimately show ?thesis
    using ok(2) s fr assms(3) by (auto simp: closed_state_def shut_pair_def unlinked_def)
qed

text \<open>The close of a socket ends the server exactly when it or its peer is remote and stuck.\<close>

definition close_stuck :: "adb \<Rightarrow> asocket \<Rightarrow> bool" where
  "close_stuck w x \<longleftrightarrow> stuck w x
     \<or> (case s_peer x of None \<Rightarrow> False
        | Some q \<Rightarrow> (case a_sock w q of None \<Rightarrow> False | Some y \<Rightarrow> stuck w y))"

lemma close_stuck_full: "close_stuck w x \<Longrightarrow> \<exists>t n. a_full w t n"
  by (auto simp: close_stuck_def dest: stuck_full split: option.splits)

lemma close_sock_cases:
  assumes "sockets_ok H w" "a_sock w s = Some x"
  shows "if close_stuck w x then close_sock s w = Inl enqueue_failed
    else \<exists>w'. close_sock s w = Inr w' \<and> closed_state H s x w w'"
proof -
  have five: "(5::nat) = Suc (Suc (Suc (Suc (Suc 0))))" by simp
  show ?thesis
  proof (cases "s_peer x")
    case None
    then show ?thesis
      using sock_close_solo [OF assms(2) None sockets_okE(2) [OF assms], of False "Suc (Suc 0)"]
        closed_state_shut [OF assms None] unfolding close_sock_def five by (simp add: close_stuck_def)
  next
    case (Some q)
    then obtain y where y: "a_sock w q = Some y" using peerE [OF assms] by blast
    show ?thesis
      using sock_close_pair [OF assms Some y, of 0] closed_state_pair [OF assms Some y]
      unfolding close_sock_def five close_stuck_def Some option.case y by (simp only: split: if_split) blast
  qed
qed

text \<open>
  What the operations of the server do that may send packets: they return with a result, or the
  server exits because a transport did not take a packet.
\<close>

definition settles :: "adb \<Rightarrow> 'a res \<Rightarrow> ('a \<Rightarrow> bool) \<Rightarrow> bool" where
  "settles w r P \<longleftrightarrow> (case r of Inl e \<Rightarrow> e = enqueue_failed \<and> (\<exists>t n. a_full w t n) | Inr v \<Rightarrow> P v)"

lemma settles_simps [simp]:
  "settles w (Inr v) P = P v" "settles w (Inl e) P \<longleftrightarrow> e = enqueue_failed \<and> (\<exists>t n. a_full w t n)"
  by (simp_all add: settles_def)

lemma settles_mono: "settles w r P \<Longrightarrow> (\<And>v. P v \<Longrightarrow> Q v) \<Longrightarrow> settles w r Q"
  by (cases r) simp_all

lemma settles_bind: "settles w r P \<Longrightarrow> (\<And>v. P v \<Longrightarrow> settles w (k v) Q) \<Longrightarrow> settles w (andthen r k) Q"
  by (cases r) simp_all

lemma settles_full: "a_full w' = a_full w \<Longrightarrow> settles w' r P = settles w r P"
  by (cases r) simp_all

lemma close_sock_settles:
  assumes "sockets_ok H w" "a_sock w s = Some x"
  shows "settles w (close_sock s w) (closed_state H s x w)"
  using close_sock_cases [OF assms] close_stuck_full by (auto split: if_splits)

lemma close_locked_settles:
  assumes "sockets_ok H w" "a_sock w s = Some x" "s \<in> set (a_live w)"
  shows "settles w (local_socket_close_locked 5 s w) (closed_state H s x w)"
proof -
  have e: "s_enqueue x = LS_enqueue" using sockets_okE(4) [OF assms(1,2)] assms(3) by blast
  have five: "(5::nat) = Suc (Suc (Suc (Suc (Suc 0))))" by simp
  show ?thesis
  proof (cases "s_peer x")
    case None
    with close_locked_solo [OF assms(2) None e sockets_okE(2) [OF assms(1,2)], of 4]
      closed_state_shut_local [OF assms(1,2) None e, of False] show ?thesis by simp
  next
    case (Some q)
    then obtain y where y: "a_sock w q = Some y" using peerE [OF assms(1,2)] by blast
    show ?thesis
      using closed_state_pair [OF assms(1,2) Some y, of 0] stuck_full [of w y]
      unfolding five close_locked_pair [OF assms(1,2) Some y e, of "Suc 0" 0] by simp
  qed
qed

subsection \<open>Closing all sockets of a transport\<close>

lemma bound_to_defined:
  assumes "sockets_ok H w" "s \<in> set (a_live w)"
  shows "\<exists>b. bound_to t w s = Inr b"
proof -
  obtain x where x: "a_sock w s = Some x" using live_sockets [OF assms] by blast
  show ?thesis
    using x peerE [OF assms(1) x] by (cases "s_peer x") (auto simp: bound_to_def get_sock_def, fastforce)
qed

lemma first_bound_defined:
  assumes "sockets_ok H w" "set ss \<subseteq> set (a_live w)"
  shows "(first_bound t w ss = Inr None \<and> (\<forall>s \<in> set ss. bound_to t w s = Inr False))
    \<or> (\<exists>s \<in> set ss. first_bound t w ss = Inr (Some s))"
  using assms(2)
proof (induction ss)
  case (Cons s ss)
  obtain b where "bound_to t w s = Inr b" using bound_to_defined [OF assms(1), of s] Cons.prems by auto
  with Cons show ?case by (cases b) auto
qed simp

lemma closed_state_shorter:
  assumes "sockets_ok H w" "s \<in> set (a_live w)" "closed_state H' s x w w'"
  shows "length (a_live w') < length (a_live w)"
proof -
  have "set (a_live w') \<subset> set (a_live w)" using assms by (auto simp: closed_state_def)
  then have "card (set (a_live w')) < card (set (a_live w))" by (intro psubset_card_mono) auto
  then show ?thesis
    using assms by (simp add: closed_state_def sockets_ok_def lists_ok_def distinct_card)
qed

lemma first_bound_True: "first_bound t w ss = Inr (Some s) \<Longrightarrow> bound_to t w s = Inr True"
  by (induction ss) (auto simp: andthen_eq_Inr split: if_splits)

text \<open>A socket that does not belong to the transport is not touched when one that does is closed.\<close>

lemma unbound_kept:
  assumes ok: "sockets_ok H w" and x: "a_sock w q = Some x" "bound_to t w q = Inr True" "closed_state H q x w w'"
    and s: "s \<in> set (a_live w)" "bound_to t w s = Inr False"
  shows "s \<in> set (a_live w')" "a_sock w' s = a_sock w s" "bound_to t w' s = Inr False"
proof -
  obtain z where z: "a_sock w s = Some z" "s_enqueue z = LS_enqueue" "\<not> s_closing z" using live_sockets [OF ok s(1)] .
  have qs: "q \<noteq> s" using x(2) s(2) by auto
  have np: "s_peer x \<noteq> Some s"
  proof
    assume p: "s_peer x = Some s"
    then have "s_peer z = Some q" using peerE [OF ok x(1) p] z(1) by auto
    with p x(1,2) s(2) z(1) show False by (auto simp: bound_to_def get_sock_def split: if_splits)
  qed
  have fr: "a_sock w' r = a_sock w r" if "r \<noteq> q" "s_peer x \<noteq> Some r" for r
    using x(3) that by (auto simp: closed_state_def)
  show same: "a_sock w' s = a_sock w s" using fr qs np by auto
  have ok': "sockets_ok H w'" using x(3) by (simp add: closed_state_def)
  show "s \<in> set (a_live w')"
    using sockets_okE(2) [OF ok', of s z] same z by (simp add: kind_ok_simps)
  have "a_sock w' r = a_sock w r" if r: "s_peer z = Some r" for r
  proof -
    obtain y where y: "a_sock w r = Some y" "s_peer y = Some s" using peerE [OF ok z(1) r] by metis
    have "r \<noteq> q" using y x(1) np by auto
    moreover have "s_peer x \<noteq> Some r" using peerE [OF ok x(1)] y qs by fastforce
    ultimately show ?thesis by (rule fr)
  qed
  with same z(1) have "bound_to t w' s = bound_to t w s"
    by (cases "s_peer z") (simp_all add: bound_to_def get_sock_def)
  with s(2) show "bound_to t w' s = Inr False" by simp
qed

lemma bound_back:
  assumes ok: "sockets_ok H w" and x: "a_sock w q = Some x" "closed_state H q x w w'"
    and s: "s \<in> set (a_live w')" "bound_to t w' s = Inr False"
  shows "bound_to t w s = Inr False"
proof -
  have ok': "sockets_ok H w'" and fr: "\<And>r. r \<noteq> q \<Longrightarrow> s_peer x \<noteq> Some r \<Longrightarrow> a_sock w' r = a_sock w r"
    and sq: "s \<noteq> q" "s_peer x \<noteq> Some s"
    using x(2) s(1) by (auto simp: closed_state_def)
  obtain z where z: "a_sock w' s = Some z" using live_sockets [OF ok' s(1)] by metis
  then have zw: "a_sock w s = Some z" using fr [OF sq] by simp
  have "a_sock w' r = a_sock w r" if r: "s_peer z = Some r" for r
  proof -
    obtain y where y: "a_sock w r = Some y" "s_peer y = Some s" using peerE [OF ok zw r] by metis
    have "r \<noteq> q" using y x(1) sq by auto
    moreover have "s_peer x \<noteq> Some r" using peerE [OF ok x(1)] y sq by fastforce
    ultimately show ?thesis by (rule fr)
  qed
  with z zw have "bound_to t w' s = bound_to t w s"
    by (cases "s_peer z") (simp_all add: bound_to_def get_sock_def)
  with s(2) show ?thesis by simp
qed

text \<open>What is left when every socket of a transport is closed.\<close>

definition swept :: "nat set \<Rightarrow> nat \<Rightarrow> adb \<Rightarrow> adb \<Rightarrow> bool" where
  "swept H t w w' \<longleftrightarrow> sockets_ok H w' \<and> set (a_live w') = {s \<in> set (a_live w). bound_to t w s = Inr False}
     \<and> (\<forall>s \<in> set (a_live w'). a_sock w' s = a_sock w s \<and> bound_to t w' s = Inr False)"

lemma close_all_loop_settles:
  assumes "sockets_ok H w" "length (a_live w) < n"
  shows "settles w (close_all_loop n t w) (swept H t w)"
  using assms
proof (induction n arbitrary: w)
  case (Suc n)
  show ?case
  proof (cases "first_bound t w (a_live w) = Inr None")
    case True
    with first_bound_defined [OF Suc.prems(1) subset_refl, of t] Suc.prems(1) show ?thesis
      by (auto simp: swept_def)
  next
    case False
    then obtain s where s: "s \<in> set (a_live w)" "first_bound t w (a_live w) = Inr (Some s)"
      using first_bound_defined [OF Suc.prems(1) subset_refl, of t] by auto
    obtain x where x: "a_sock w s = Some x" using live_sockets [OF Suc.prems(1) s(1)] by blast
    note b = first_bound_True [OF s(2)]
    have "settles w (close_all_loop n t v) (swept H t w)" if c: "closed_state H s x w v" for v
    proof -
      have v: "sockets_ok H v" "length (a_live v) < n" "set (a_live v) \<subseteq> set (a_live w)" "a_full v = a_full w"
        using closed_state_shorter [OF Suc.prems(1) s(1) c] c Suc.prems(2) by (auto simp: closed_state_def steady_def)
      note kept = unbound_kept [OF Suc.prems(1) x b c]
      have was: "bound_to t w r = Inr False" if "r \<in> set (a_live v)" "bound_to t v r = Inr False" for r
        by (rule bound_back [OF Suc.prems(1) x c that])
      show ?thesis
        by (rule settles_mono [OF Suc.IH [OF v(1,2), unfolded settles_full [OF v(4)]]])
          (use v(3) kept was in \<open>auto simp: swept_def\<close>)
    qed
    then have "settles w (andthen (local_socket_close_locked 5 s w) (close_all_loop n t)) (swept H t w)"
      by (rule settles_bind [OF close_locked_settles [OF Suc.prems(1) x s(1)]])
    with s(2) show ?thesis by (simp del: local_socket_close_locked.simps)
  qed
qed simp

subsection \<open>New sockets\<close>

lemma create_local_socket_eq:
  "create_local_socket fd w = Inr (a_snext w,
     (put_sock (a_snext w) (zero_socket\<lparr>s_id := a_next_id w, s_fd := fd\<rparr>) w)
        \<lparr>a_snext := a_snext w + 1, a_next_id := a_next_id w + 1, a_live := a_live w @ [a_snext w]\<rparr>)"
  by (simp add: create_local_socket_def calloc_socket_def install_local_socket_def set_sock_def put_sock_def
      zero_socket_def)

lemma sockets_ok_fresh:
  assumes "sockets_ok H w"
  shows "a_sock w (a_snext w) = None" "a_snext w \<notin> set (a_live w)" "a_snext w \<notin> set (a_clsd w)"
    "a_snext w \<notin> set (a_trackers w)"
proof -
  have "a_snext w < a_snext w" if "a_sock w (a_snext w) \<noteq> None"
    using that sockets_okE(1) [OF assms] by auto
  then show n: "a_sock w (a_snext w) = None" by (cases "a_sock w (a_snext w)") auto
  have "\<forall>s \<in> set (a_live w) \<union> set (a_clsd w) \<union> set (a_trackers w). a_sock w s \<noteq> None"
    using assms by (simp add: sockets_ok_def lists_ok_def)
  from bspec [OF this, of "a_snext w"] n
  show "a_snext w \<notin> set (a_live w)" "a_snext w \<notin> set (a_clsd w)" "a_snext w \<notin> set (a_trackers w)"
    by auto
qed

text \<open>A new local socket.\<close>

lemma sockets_ok_create_local:
  assumes "sockets_ok H w" "create_local_socket fd w = Inr (s, w')"
  shows "sockets_ok H w'"
proof -
  let ?x = "zero_socket\<lparr>s_id := a_next_id w, s_fd := fd\<rparr>"
  note fr = sockets_ok_fresh [OF assms(1)]
  have s: "s = a_snext w" and w': "w' = (put_sock s ?x w)\<lparr>a_snext := a_snext w + 1,
      a_next_id := a_next_id w + 1, a_live := a_live w @ [s]\<rparr>"
    using assms(2) by (auto simp: create_local_socket_eq)
  have "lists_ok w'"
    using assms(1) fr by (auto simp: sockets_ok_def lists_ok_def w' s)
  moreover have "dis_ok w'"
    using assms(1) fr(1) unfolding sockets_ok_def dis_ok_def w' s by (auto; force)
  moreover have "sock_ok H w' r z" if z: "a_sock w' r = Some z" for r z
  proof (cases "r = s")
    case True
    with z fr show ?thesis by (auto simp: w' s sock_ok_def kind_ok_def peer_ok_def zero_socket_def)
  next
    case False
    then have r: "a_sock w r = Some z" using z by (simp add: w')
    have "s_peer z \<noteq> Some s" using peerE [OF assms(1) r] fr(1) s by fastforce
    with sockets_okE [OF assms(1) r] r False show ?thesis
      by (auto simp: sock_ok_def kind_ok_def peer_ok_def attached_def w' split: enqueue_fn.splits option.splits)
  qed
  ultimately show ?thesis by (simp add: sockets_ok_def)
qed

subsection \<open>The properties of closing\<close>

text \<open>A server with one device and no sockets.\<close>

definition sample_adb :: adb where
  "sample_adb = registry.extend sample_registry
     \<lparr>a_sock = (\<lambda>_. None), a_snext = 1, a_live = [], a_clsd = [], a_next_id = 1, a_trackers = [],
      a_fds = (\<lambda>_. \<lparr>fd_in = [], fd_wr = [], fd_out = []\<rparr>), a_closed = [], a_host = True,
      a_listeners = [], a_lnext = 1, a_os = (\<lambda>n _. 100 + int n), a_calls = [],
      a_adbhost = None, a_full = (\<lambda>_ _. False)\<rparr>"

lemma sample_adb_ok: "sockets_ok {} sample_adb"
  by (auto simp: sockets_ok_def lists_ok_def dis_ok_def sample_adb_def registry.defs sample_registry_def
      new_transport_def split: if_splits)

text \<open>
  C30: Closing is safe: in a well-formed state, \<open>close\<close> of any socket returns (five levels of calls are
  always enough), never touches a freed socket or transport, never takes the lock twice, and leaves a
  well-formed state in which the socket and its peer are gone from the live list; the socket is freed
  or, if it is local and has packets to write, on the closing list. No other socket changes. There is
  one exception, and it is exact: when the socket or its peer is remote and the socket pair of its
  transport is full, the server exits, because the write of the CLOSE packet does not block.
\<close>

theorem close_socket_safe:
  assumes "sockets_ok {} w" "a_sock w s = Some x"
  shows "if close_stuck w x then close_sock s w = Inl enqueue_failed
    else \<exists>w'. close_sock s w = Inr w' \<and> sockets_ok {} w' \<and> s \<notin> set (a_live w')
      \<and> (a_sock w' s = None \<or> (\<exists>x'. a_sock w' s = Some x' \<and> s_closing x' \<and> s_enqueue x = LS_enqueue))
      \<and> (\<forall>q. s_peer x = Some q \<longrightarrow> q \<notin> set (a_live w'))
      \<and> (\<forall>r. r \<noteq> s \<longrightarrow> s_peer x \<noteq> Some r \<longrightarrow> a_sock w' r = a_sock w r)"
  using close_sock_cases [OF assms] unfolding closed_state_def by (auto split: if_splits)

text \<open>
  A local socket (address 1) connected to a socket of the device (address 2), and a local socket that
  is not connected (address 3).
\<close>

definition sample_link :: "(nat \<Rightarrow> nat \<Rightarrow> bool) \<Rightarrow> adb" where
  "sample_link full = sample_adb\<lparr>
     r_heap := [1 \<mapsto> new_transport\<lparr>t_state := CS_DEVICE, t_serial := Some ''A'', t_disconnects := [Dis_socket 2]\<rparr>],
     a_sock := [1 \<mapsto> zero_socket\<lparr>s_id := 1, s_fd := 7, s_peer := Some 2\<rparr>,
                2 \<mapsto> zero_socket\<lparr>s_id := 9, s_enqueue := RS_enqueue, s_ready := RS_ready, s_close := RS_close,
                       s_transport := Some 1, s_peer := Some 1\<rparr>,
                3 \<mapsto> zero_socket\<lparr>s_id := 2, s_fd := 8\<rparr>],
     a_snext := 4, a_live := [1, 3], a_next_id := 3, a_full := full\<rparr>"

lemma sample_link_simps:
  "a_live (sample_link full) = [1, 3]" "a_clsd (sample_link full) = []" "a_trackers (sample_link full) = []"
  "a_snext (sample_link full) = 4" "a_full (sample_link full) = full"
  "a_sock (sample_link full) = [1 \<mapsto> zero_socket\<lparr>s_id := 1, s_fd := 7, s_peer := Some 2\<rparr>,
                2 \<mapsto> zero_socket\<lparr>s_id := 9, s_enqueue := RS_enqueue, s_ready := RS_ready, s_close := RS_close,
                       s_transport := Some 1, s_peer := Some 1\<rparr>,
                3 \<mapsto> zero_socket\<lparr>s_id := 2, s_fd := 8\<rparr>]"
  "r_heap (sample_link full) =
     [1 \<mapsto> new_transport\<lparr>t_state := CS_DEVICE, t_serial := Some ''A'', t_disconnects := [Dis_socket 2]\<rparr>]"
  by (simp_all add: sample_link_def sample_adb_def registry.defs)

lemma sample_link_ok: "sockets_ok {} (sample_link full)"
proof -
  have "lists_ok (sample_link full)" by (simp add: lists_ok_def sample_link_simps)
  moreover have "dis_ok (sample_link full)"
    by (auto simp: dis_ok_def sample_link_simps split: if_splits)
  moreover have "sock_ok {} (sample_link full) s x" if "a_sock (sample_link full) s = Some x" for s x
    using that
    by (auto simp: sock_ok_def kind_ok_def peer_ok_def attached_def sample_link_simps zero_socket_def split: if_splits)
  ultimately show ?thesis by (simp add: sockets_ok_def)
qed

lemma sample_link_stuck:
  "close_stuck (sample_link full) (zero_socket\<lparr>s_id := 1, s_fd := 7, s_peer := Some 2\<rparr>) \<longleftrightarrow> full 1 0"
  by (simp add: close_stuck_def stuck_def sample_link_simps zero_socket_def new_transport_def)

theorem close_socket_safe_witness:
  "(\<exists>w'. close_sock 1 (sample_link (\<lambda>_ _. False)) = Inr w' \<and> a_sock w' 3 = Some (zero_socket\<lparr>s_id := 2, s_fd := 8\<rparr>)
      \<and> 1 \<notin> set (a_live w'))
   \<and> close_sock 1 (sample_link (\<lambda>_ _. True)) = Inl enqueue_failed"
proof -
  let ?x = "zero_socket\<lparr>s_id := 1, s_fd := 7, s_peer := Some 2\<rparr>"
  have x: "a_sock (sample_link full) 1 = Some ?x" for full by (simp add: sample_link_simps)
  note safe = close_socket_safe [OF sample_link_ok x, unfolded sample_link_stuck]
  from safe [of "\<lambda>_ _. False"] obtain w' where w': "close_sock 1 (sample_link (\<lambda>_ _. False)) = Inr w'"
    "1 \<notin> set (a_live w')" "\<forall>r. r \<noteq> 1 \<longrightarrow> s_peer ?x \<noteq> Some r \<longrightarrow> a_sock w' r = a_sock (sample_link (\<lambda>_ _. False)) r"
    by auto
  have "a_sock w' 3 = Some (zero_socket\<lparr>s_id := 2, s_fd := 8\<rparr>)" using w'(3) by (simp add: sample_link_simps)
  with w' safe [of "\<lambda>_ _. True"] show ?thesis by simp
qed

text \<open>
  C31: Closing all sockets of a transport comes to an end (the fuel of the model, one round per live
  socket, is never used up): either the server exits because a transport did not take a CLOSE packet,
  or the state is well-formed again, exactly those sockets stay alive that do not belong to the
  transport, directly or through their peer, and they are as they were.
\<close>

theorem close_all_sockets_terminates:
  assumes "sockets_ok {} w"
  shows "case close_all_sockets t w of
      Inl e \<Rightarrow> e = enqueue_failed \<and> (\<exists>u n. a_full w u n)
    | Inr w' \<Rightarrow> sockets_ok {} w'
        \<and> set (a_live w') = {s \<in> set (a_live w). bound_to t w s = Inr False}
        \<and> (\<forall>s \<in> set (a_live w'). a_sock w' s = a_sock w s \<and> bound_to t w' s = Inr False)"
  using close_all_loop_settles [OF assms, of "Suc (length (a_live w))" t]
  unfolding close_all_sockets_def settles_def swept_def by (simp split: sum.splits)

theorem close_all_sockets_terminates_witness:
  "\<exists>w'. close_all_sockets 1 (sample_link (\<lambda>_ _. False)) = Inr w' \<and> set (a_live w') = {3}"
proof -
  let ?w = "sample_link (\<lambda>_ _. False)"
  have "bound_to 1 ?w 1 = Inr True" "bound_to 1 ?w 3 = Inr False"
    by (simp_all add: bound_to_def get_sock_def sample_link_simps zero_socket_def)
  then have "{s \<in> set (a_live ?w). bound_to 1 ?w s = Inr False} = {3}" by (auto simp: sample_link_simps)
  with close_all_sockets_terminates [OF sample_link_ok, of "\<lambda>_ _. False" 1] show ?thesis
    by (auto simp: sample_link_simps split: sum.splits)
qed

end
