(* ===== verification/AdbStream.thy ===== *)
theory AdbStream
  imports AdbSocket
begin

text \<open>
  Data through the sockets of the debug bridge (src/tools/adb/sockets.c): the queue of a local socket
  and the two loops that drain it, the read loop that fills a packet, the remote sockets that turn
  data and readiness into WRTE and OKAY packets, and the device trackers (transport.c).
\<close>

subsection \<open>Writing a packet to a descriptor\<close>

definition remaining :: "apacket \<Rightarrow> byte list" where
  "remaining p = take (p_len p) (drop (p_ptr p) (p_data p))"

datatype wresult = W_all | W_block | W_error

text \<open>
  The loops of \<open>local_socket_enqueue\<close> and \<open>local_socket_event_func\<close>; only the second one tries again
  after \<open>EINTR\<close>.
\<close>

function write_pending :: "bool \<Rightarrow> apacket \<Rightarrow> fdesc \<Rightarrow> wresult \<times> apacket \<times> fdesc" where
  "write_pending retry p f =
     (if p_len p = 0 then (W_all, p, f)
      else case sys_write (remaining p) f of
             (Inr r, f') \<Rightarrow>
               if 0 < r then write_pending retry (p\<lparr>p_ptr := p_ptr p + r, p_len := p_len p - r\<rparr>) f'
               else (W_error, p, f')
           | (Inl e, f') \<Rightarrow>
               if e = EAGAIN then (W_block, p, f')
               else if e = EINTR \<and> retry then write_pending retry p f'
               else (W_error, p, f'))"
  by pat_completeness auto
termination
proof (relation "measure (\<lambda>(retry, p, f). length (fd_wr f) + p_len p)", goal_cases)
  case (3 retry p f r f' k)
  then have "sys_write (remaining p) f = (Inr k, f')" by simp
  from sys_write_progress [OF this] 3 show ?case by (auto simp: remaining_def)
next
  case (2 retry p f r f' e)
  then have "sys_write (remaining p) f = (Inl e, f')" by simp
  from sys_write_progress [OF this] show ?case by auto
qed simp

declare write_pending.simps [simp del]

definition local_socket_enqueue :: "nat \<Rightarrow> apacket \<Rightarrow> adb \<Rightarrow> (int \<times> adb) res" where
  "local_socket_enqueue s p w =
     andthen (get_sock s w) (\<lambda>x.
     let p = p\<lparr>p_ptr := 0\<rparr>;
         queue = (\<lambda>p w. andthen (set_sock s (\<lambda>x. x\<lparr>s_pkts := s_pkts x @ [p], s_want_write := True\<rparr>) w)
                     (\<lambda>w. Inr (1, w)))
     in if s_pkts x \<noteq> [] then queue p w
        else case write_pending False p (a_fds w (s_fd x)) of
               (W_all, _, f) \<Rightarrow> Inr (0, put_fd (s_fd x) f w)
             | (W_block, p, f) \<Rightarrow> queue p (put_fd (s_fd x) f w)
             | (W_error, _, f) \<Rightarrow> andthen (close_sock s (put_fd (s_fd x) f w)) (\<lambda>w. Inr (1, w)))"

subsection \<open>Draining the queue, filling a packet\<close>

text \<open>The loop over the queue when the descriptor is writable; the result says how it ended.\<close>

fun drain :: "apacket list \<Rightarrow> fdesc \<Rightarrow> wresult \<times> apacket list \<times> fdesc" where
  "drain [] f = (W_all, [], f)"
| "drain (p # ps) f =
     (case write_pending True p f of
        (W_all, p, f) \<Rightarrow> drain ps f
      | (r, p, f) \<Rightarrow> (r, p # ps, f))"

text \<open>The read loop: the bytes read, and whether the end of the file or an error ended it.\<close>

function read_avail :: "nat \<Rightarrow> fdesc \<Rightarrow> byte list \<times> bool \<times> fdesc" where
  "read_avail room f =
     (if room = 0 then ([], False, f)
      else case sys_read room f of
             (Inr bs, f') \<Rightarrow>
               if bs \<noteq> [] then
                 (case read_avail (room - length bs) f' of (r, eof, f'') \<Rightarrow> (bs @ r, eof, f''))
               else ([], True, f')
           | (Inl e, f') \<Rightarrow>
               if e = EAGAIN then ([], False, f')
               else if e = EINTR then read_avail room f'
               else ([], True, f'))"
  by pat_completeness auto
termination
proof (relation "measure (\<lambda>(n, f). n + length (fd_in f))", goal_cases)
  case (3 n f r f' bs)
  then show ?case using sys_read_progress [of n f "Inr bs" f'] by (cases bs) auto
next
  case (2 n f r f' e)
  then show ?case using sys_read_progress [of n f "Inl e" f'] by auto
qed simp

declare read_avail.simps [simp del]

subsection \<open>Remote sockets\<close>

definition peer_id :: "asocket \<Rightarrow> adb \<Rightarrow> u32 res" where
  "peer_id x w =
     (case s_peer x of
        None \<Rightarrow> Inl Null_deref
      | Some q \<Rightarrow> andthen (get_sock q w) (\<lambda>y. Inr (s_id y)))"

definition remote_socket_enqueue :: "nat \<Rightarrow> apacket \<Rightarrow> adb \<Rightarrow> (int \<times> adb) res" where
  "remote_socket_enqueue s p w =
     andthen (get_sock s w) (\<lambda>x.
     andthen (peer_id x w) (\<lambda>pid.
     let p = p\<lparr>p_msg := (p_msg p)\<lparr>command := A_WRTE, arg0 := pid, arg1 := s_id x,
                                  data_length := of_nat (p_len p)\<rparr>\<rparr>
     in andthen (send_packet p (s_transport x) w) (\<lambda>w. Inr (1, w))))"

definition remote_socket_ready :: "nat \<Rightarrow> adb \<Rightarrow> adb res" where
  "remote_socket_ready s w =
     andthen (get_sock s w) (\<lambda>x.
     andthen (peer_id x w) (\<lambda>pid.
     send_packet (command_packet A_OKAY pid (s_id x)) (s_transport x) w))"

definition connect_to_remote :: "nat \<Rightarrow> string \<Rightarrow> adb \<Rightarrow> adb res" where
  "connect_to_remote s destination w =
     andthen (get_sock s w) (\<lambda>x.
     let p = get_apacket [];
         len = length destination + 1
     in if MAX_PAYLOAD - 1 < len then Inl (Fatal ''destination oversized'')
        else send_packet (p\<lparr>p_msg := (p_msg p)\<lparr>command := A_OPEN, arg0 := s_id x, data_length := of_nat len\<rparr>,
                            p_data := destination @ [CHR 0x00]\<rparr>) (s_transport x) w)"

subsection \<open>Readiness\<close>

definition local_socket_ready :: "nat \<Rightarrow> adb \<Rightarrow> adb res" where
  "local_socket_ready s w = set_sock s (\<lambda>x. x\<lparr>s_want_read := True\<rparr>) w"

text \<open>After the reset the pointer \<open>ready\<close> of the socket is \<open>local_socket_ready\<close> again.\<close>

definition local_socket_ready_notify :: "nat \<Rightarrow> adb \<Rightarrow> adb res" where
  "local_socket_ready_notify s w =
     andthen (get_sock s w) (\<lambda>x.
     andthen (set_sock s (\<lambda>x. x\<lparr>s_ready := LS_ready, s_close := LS_close\<rparr>) w) (\<lambda>w.
     local_socket_ready s (adb_write (s_fd x) ''OKAY'' w)))"

text \<open>
  Device trackers. The message goes to the peer through its \<open>enqueue\<close>, here the argument \<open>enq\<close>.
\<close>

definition device_tracker_send ::
  "(nat \<Rightarrow> apacket \<Rightarrow> adb \<Rightarrow> (int \<times> adb) res) \<Rightarrow> nat \<Rightarrow> string \<Rightarrow> adb \<Rightarrow> (int \<times> adb) res" where
  "device_tracker_send enq s buffer w =
     andthen (get_sock s w) (\<lambda>x.
     case s_peer x of
       None \<Rightarrow> Inl Null_deref
     | Some q \<Rightarrow>
         andthen (get_sock q w) (\<lambda>_.
         enq q ((get_apacket [])\<lparr>p_data := buffer, p_len := length buffer\<rparr>) w))"

definition device_tracker_ready ::
  "(nat \<Rightarrow> apacket \<Rightarrow> adb \<Rightarrow> (int \<times> adb) res) \<Rightarrow> nat \<Rightarrow> adb \<Rightarrow> adb res" where
  "device_tracker_ready enq s w =
     andthen (get_sock s w) (\<lambda>x.
     if s_update_needed x then
       andthen (set_sock s (\<lambda>x. x\<lparr>s_update_needed := False\<rparr>) w) (\<lambda>w.
       andthen (device_tracker_send enq s (list_transports_msg 1024 w) w) (\<lambda>(r, w). Inr w))
     else Inr w)"

definition device_tracker_enqueue :: "nat \<Rightarrow> apacket \<Rightarrow> adb \<Rightarrow> (int \<times> adb) res" where
  "device_tracker_enqueue s p w = andthen (close_sock s w) (\<lambda>w. Inr (-1, w))"

text \<open>The call \<open>s->ready(s)\<close>.\<close>

definition sock_ready ::
  "(nat \<Rightarrow> apacket \<Rightarrow> adb \<Rightarrow> (int \<times> adb) res) \<Rightarrow> nat \<Rightarrow> adb \<Rightarrow> adb res" where
  "sock_ready enq s w =
     andthen (get_sock s w) (\<lambda>x.
     case s_ready x of
       LS_ready \<Rightarrow> local_socket_ready s w
     | LS_ready_notify \<Rightarrow> local_socket_ready_notify s w
     | RS_ready \<Rightarrow> remote_socket_ready s w
     | SS_ready \<Rightarrow> Inr w
     | DT_ready \<Rightarrow> device_tracker_ready enq s w)"

subsection \<open>The byte stream of a local socket\<close>

definition packet_ok :: "apacket \<Rightarrow> bool" where
  "packet_ok p \<longleftrightarrow> p_ptr p + p_len p \<le> length (p_data p)"

lemma sys_write_stream:
  "sys_write bs f = (r, f') \<Longrightarrow>
   (case r of Inl e \<Rightarrow> fd_out f' = fd_out f | Inr k \<Rightarrow> k \<le> length bs \<and> fd_out f' = fd_out f @ take k bs)"
  by (auto simp: sys_write_def min_def split: list.splits sum.splits)

lemma remaining_step:
  "k \<le> p_len p \<Longrightarrow> remaining (p\<lparr>p_ptr := p_ptr p + k, p_len := p_len p - k\<rparr>) = drop k (remaining p)"
  by (simp add: remaining_def take_drop add.commute)

lemma write_pending_stream:
  assumes "packet_ok p" "write_pending retry p f = (r, p', f')"
  shows "packet_ok p' \<and> fd_out f' @ remaining p' = fd_out f @ remaining p \<and> (r = W_all \<longrightarrow> remaining p' = [])"
  using assms
proof (induction retry p f rule: write_pending.induct)
  case (1 retry p f)
  obtain k f1 where w: "sys_write (remaining p) f = (k, f1)" by fastforce
  note st = sys_write_stream [OF w]
  show ?case
  proof (cases "p_len p = 0")
    case True
    with "1.prems" show ?thesis by (simp add: write_pending.simps [of retry p f] remaining_def)
  next
    case ne: False
    show ?thesis
    proof (cases k)
      case (Inl e)
      with "1.IH"(1) [OF ne w [symmetric] Inl] "1.prems" ne w st show ?thesis
        by (auto simp: write_pending.simps [of retry p f] split: if_splits)
    next
      case (Inr n)
      let ?p = "p\<lparr>p_ptr := p_ptr p + n, p_len := p_len p - n\<rparr>"
      have n: "n \<le> p_len p" using st Inr by (simp add: remaining_def)
      have ok: "packet_ok ?p" using "1.prems"(1) n by (simp add: packet_ok_def)
      show ?thesis
      proof (cases "0 < n")
        case True
        then have "write_pending retry ?p f1 = (r, p', f')"
          using "1.prems"(2) ne w Inr by (simp add: write_pending.simps [of retry p f])
        from "1.IH"(2) [OF ne w [symmetric] Inr True ok this] st Inr show ?thesis
          by (simp add: remaining_step [OF n])
      next
        case False
        with "1.prems" ne w Inr st show ?thesis by (simp add: write_pending.simps [of retry p f])
      qed
    qed
  qed
qed

lemma drain_stream:
  "list_all packet_ok ps \<Longrightarrow> drain ps f = (r, ps', f') \<Longrightarrow>
   list_all packet_ok ps' \<and> fd_out f' @ concat (map remaining ps') = fd_out f @ concat (map remaining ps)
   \<and> (r = W_all \<longrightarrow> ps' = [])"
proof (induction ps arbitrary: f)
  case (Cons p ps)
  obtain r1 p1 f1 where w: "write_pending True p f = (r1, p1, f1)" by (cases "write_pending True p f")
  have st: "packet_ok p1" "fd_out f1 @ remaining p1 = fd_out f @ remaining p" "r1 = W_all \<longrightarrow> remaining p1 = []"
    using write_pending_stream [OF _ w] Cons.prems(1) by auto
  show ?case
  proof (cases "r1 = W_all")
    case True
    with Cons st w show ?thesis by fastforce
  next
    case False
    with Cons.prems w have "r = r1" "ps' = p1 # ps" "f' = f1" by (cases r1; auto)+
    with Cons.prems(1) st False show ?thesis by simp
  qed
qed simp

definition sock_stream :: "adb \<Rightarrow> asocket \<Rightarrow> byte list" where
  "sock_stream w x = fd_out (a_fds w (s_fd x)) @ concat (map remaining (s_pkts x))"

definition sample_data :: "string \<Rightarrow> apacket" where
  "sample_data d = (get_apacket [])\<lparr>p_data := d, p_len := length d\<rparr>"

text \<open>
  C32: The queue of a local socket neither loses, repeats nor reorders data: what is on the descriptor
  followed by what is queued grows by exactly the bytes of each packet that is enqueued, until the
  descriptor fails; 0 is returned only when everything is written. Draining the queue leaves that
  stream unchanged.
\<close>

theorem local_stream_in_order:
  assumes "a_sock w s = Some x" "list_all packet_ok (s_pkts x)" "p_len p \<le> length (p_data p)"
    and "s_pkts x \<noteq> [] \<or> fst (write_pending False (p\<lparr>p_ptr := 0\<rparr>) (a_fds w (s_fd x))) \<noteq> W_error"
  shows "(\<exists>r w' x'. local_socket_enqueue s p w = Inr (r, w') \<and> a_sock w' s = Some x' \<and> s_fd x' = s_fd x
      \<and> list_all packet_ok (s_pkts x') \<and> sock_stream w' x' = sock_stream w x @ take (p_len p) (p_data p)
      \<and> (r = 0 \<longleftrightarrow> s_pkts x' = []))
    \<and> (\<forall>r ps f. drain (s_pkts x) (a_fds w (s_fd x)) = (r, ps, f) \<longrightarrow>
         fd_out f @ concat (map remaining ps) = sock_stream w x)"
proof (rule conjI)
  let ?p = "p\<lparr>p_ptr := 0\<rparr>"
  have p: "packet_ok ?p" "remaining ?p = take (p_len p) (p_data p)"
    using assms(3) by (simp_all add: packet_ok_def remaining_def)
  show "\<exists>r w' x'. local_socket_enqueue s p w = Inr (r, w') \<and> a_sock w' s = Some x' \<and> s_fd x' = s_fd x
      \<and> list_all packet_ok (s_pkts x') \<and> sock_stream w' x' = sock_stream w x @ take (p_len p) (p_data p)
      \<and> (r = 0 \<longleftrightarrow> s_pkts x' = [])"
  proof (cases "s_pkts x = []")
    case True
    obtain r q f where w: "write_pending False ?p (a_fds w (s_fd x)) = (r, q, f)"
      by (cases "write_pending False ?p (a_fds w (s_fd x))")
    with assms(4) True have "r \<noteq> W_error" by simp
    then consider "r = W_all" | "r = W_block" by (cases r) auto
    then show ?thesis
      using write_pending_stream [OF p(1) w] True w assms(1) p(2)
      by cases (auto simp: local_socket_enqueue_def get_sock_def set_sock_def sock_stream_def)
  next
    case False
    with assms p show ?thesis
      by (auto simp: local_socket_enqueue_def get_sock_def set_sock_def sock_stream_def)
  qed
  show "\<forall>r ps f. drain (s_pkts x) (a_fds w (s_fd x)) = (r, ps, f) \<longrightarrow>
      fd_out f @ concat (map remaining ps) = sock_stream w x"
    using drain_stream [OF assms(2)] by (auto simp: sock_stream_def)
qed

theorem local_stream_in_order_witness:
  "\<exists>w r w' x'. create_local_socket 7 sample_adb = Inr (1, w)
    \<and> local_socket_enqueue 1 (sample_data ''hello'') w = Inr (r, w') \<and> a_sock w' 1 = Some x'
    \<and> sock_stream w' x' = ''hello''"
proof -
  let ?w = "put_sock 1 (zero_socket\<lparr>s_id := 1, s_fd := 7\<rparr>) sample_adb\<lparr>a_snext := 2, a_next_id := 2, a_live := [1]\<rparr>"
  let ?x = "zero_socket\<lparr>s_id := 1, s_fd := 7\<rparr>"
  have w: "create_local_socket 7 sample_adb = Inr (1, ?w)"
    by (simp add: create_local_socket_eq sample_adb_def registry.defs numeral_2_eq_2)
  let ?f = "\<lparr>fd_in = [], fd_wr = [], fd_out = []\<rparr>"
  have f: "a_fds ?w (s_fd ?x) = ?f" by (simp add: sample_adb_def registry.defs)
  have e: "fst (write_pending False ((sample_data ''hello'')\<lparr>p_ptr := 0\<rparr>) ?f) \<noteq> W_error" by code_simp
  have "\<exists>r w' x'. local_socket_enqueue 1 (sample_data ''hello'') ?w = Inr (r, w') \<and> a_sock w' 1 = Some x'
      \<and> s_fd x' = s_fd ?x \<and> list_all packet_ok (s_pkts x')
      \<and> sock_stream w' x' = sock_stream ?w ?x @ take (p_len (sample_data ''hello'')) (p_data (sample_data ''hello''))
      \<and> (r = 0 \<longleftrightarrow> s_pkts x' = [])"
    by (rule conjunct1 [OF local_stream_in_order])
      (simp, simp add: zero_socket_def, simp add: sample_data_def, use e in \<open>simp only: f, blast\<close>)
  moreover have "sock_stream ?w ?x = []" unfolding sock_stream_def f by (simp add: zero_socket_def)
  ultimately show ?thesis using w by (auto simp: sample_data_def)
qed

subsection \<open>Preservation\<close>

text \<open>A socket may change in every field the invariant does not look at.\<close>

lemma sockets_ok_put:
  assumes "sockets_ok H w" "a_sock w s = Some x" "s_peer x' = s_peer x" "s_enqueue x' = s_enqueue x"
    "s_ready x' = s_ready x" "s_close x' = s_close x" "s_closing x' = s_closing x" "s_transport x' = s_transport x"
  shows "sockets_ok H (put_sock s x' w)"
proof -
  let ?w = "put_sock s x' w"
  have "lists_ok ?w" using assms(1) by (auto simp: sockets_ok_def lists_ok_def)
  moreover have "dis_ok ?w"
    using assms unfolding sockets_ok_def dis_ok_def by (auto; force)
  moreover have "sock_ok H ?w r z" if z: "a_sock ?w r = Some z" for r z
  proof (cases "r = s")
    case True
    with z have "z = x'" by simp
    with True sockets_okE [OF assms(1,2)] assms show ?thesis
      by (auto simp: sock_ok_def kind_ok_def peer_ok_def attached_def split: enqueue_fn.splits option.splits)
  next
    case False
    with z have r: "a_sock w r = Some z" by simp
    with False sockets_okE [OF assms(1) r] assms show ?thesis
      by (auto simp: sock_ok_def kind_ok_def peer_ok_def attached_def split: enqueue_fn.splits option.splits)
  qed
  ultimately show ?thesis by (simp add: sockets_ok_def)
qed

lemma sockets_ok_put_fd [wf_intro]: "sockets_ok H w \<Longrightarrow> sockets_ok H (put_fd fd f w)"
  by (erule sockets_ok_cong) simp_all

lemma sockets_ok_sent [wf_intro]:
  "sockets_ok H w \<Longrightarrow> (\<And>x. t_disconnects (g x) = t_disconnects x) \<Longrightarrow> sockets_ok H (upd_transport t g w)"
  by (erule sockets_ok_cong) (simp_all add: option.map_comp comp_def)

lemma send_packet_settles:
  assumes "sockets_ok H w" "r_heap w t = Some tx"
  shows "settles w (send_packet p (Some t) w) (\<lambda>w'. sockets_ok H w' \<and> a_sock w' = a_sock w
    \<and> a_live w' = a_live w \<and> steady w w' \<and> a_next_id w' = a_next_id w \<and> a_snext w' = a_snext w)"
proof (cases "a_full w t (length (t_sent tx))")
  case True
  with assms(2) show ?thesis by (auto simp: send_packet_def)
next
  case False
  let ?w = "upd_transport t (\<lambda>x. x\<lparr>t_sent := t_sent x @ [seal_packet p]\<rparr>) w"
  have "sockets_ok H ?w" by (rule sockets_ok_sent [OF assms(1)]) simp
  moreover have "steady w ?w"
    by (simp add: steady_def tview_def upd_transport_def option.map_comp comp_def fun_eq_iff)
  ultimately show ?thesis using assms(2) False by (simp add: send_packet_def)
qed

text \<open>
  What an operation that may close \<open>s\<close> and its peer promises: a well-formed state, and the sockets
  other than \<open>s\<close> and its peer untouched; the transports stay in their states.
\<close>

definition tame :: "nat \<Rightarrow> adb \<Rightarrow> adb \<Rightarrow> bool" where
  "tame s w w' \<longleftrightarrow> sockets_ok {} w' \<and> set (a_live w') \<subseteq> set (a_live w)
     \<and> (\<forall>r. r \<noteq> s \<longrightarrow> (\<forall>x. a_sock w s = Some x \<longrightarrow> s_peer x \<noteq> Some r) \<longrightarrow> a_sock w' r = a_sock w r)
     \<and> steady w w'"

lemma closed_state_tame: "a_sock w s = Some x \<Longrightarrow> closed_state {} s x w w' \<Longrightarrow> tame s w w'"
  by (auto simp: closed_state_def tame_def)

lemma local_socket_enqueue_settles:
  assumes "sockets_ok {} w" "a_sock w s = Some x"
  shows "settles w (local_socket_enqueue s p w)
    (\<lambda>(r, w'). tame s w w' \<and> (r = 0 \<longrightarrow> a_sock w' = a_sock w) \<and> (r = 0 \<or> r = 1))"
proof -
  let ?p = "p\<lparr>p_ptr := 0\<rparr>"
  have q: "sockets_ok {} (put_sock s (x\<lparr>s_pkts := s_pkts x @ [q], s_want_write := True\<rparr>) (put_fd (s_fd x) g w))"
    for q g
    using assms by (intro sockets_ok_put [of _ _ _ x] wf_intro) simp_all
  have q0: "sockets_ok {} (put_sock s (x\<lparr>s_pkts := s_pkts x @ [q], s_want_write := True\<rparr>) w)" for q
    using assms by (intro sockets_ok_put [of _ _ _ x]) simp_all
  show ?thesis
  proof (cases "s_pkts x = []")
    case False
    with assms q0 [of ?p] show ?thesis
      by (auto simp: local_socket_enqueue_def get_sock_def set_sock_def tame_def)
  next
    case True
    obtain r q' f where w: "write_pending False ?p (a_fds w (s_fd x)) = (r, q', f)"
      by (cases "write_pending False ?p (a_fds w (s_fd x))")
    let ?w = "put_fd (s_fd x) f w"
    have ok: "sockets_ok {} ?w" "a_sock ?w s = Some x" using assms by (auto intro: wf_intro)
    show ?thesis
    proof (cases r)
      case W_all
      with True w ok assms show ?thesis
        by (auto simp: local_socket_enqueue_def get_sock_def tame_def)
    next
      case W_block
      with True w q [of q' f] assms show ?thesis
        by (auto simp: local_socket_enqueue_def get_sock_def set_sock_def tame_def)
    next
      case W_error
      have "settles w (close_sock s ?w) (tame s w)"
        using settles_mono [OF close_sock_settles [OF ok], of "tame s w"] assms(2)
        by (auto simp: settles_full [of ?w w] tame_def closed_state_def)
      then have "settles w (andthen (close_sock s ?w) (\<lambda>w. Inr (1, w)))
          (\<lambda>(r, w'). tame s w w' \<and> (r = 0 \<longrightarrow> a_sock w' = a_sock w) \<and> (r = (0::int) \<or> r = 1))"
        by (rule settles_bind) simp
      with True w W_error assms show ?thesis
        by (simp add: local_socket_enqueue_def get_sock_def)
    qed
  qed
qed

end
