(* ===== verification/AdbHost.thy ===== *)
theory AdbHost
  imports AdbStream
begin

text \<open>
  The requests a client sends to the server of the debug bridge (src/tools/adb/adb.c, the dispatch of
  services.c, and the smart sockets of sockets.c): trace tags, listeners and port forwarding,
  connecting to devices and emulators, the table of host requests, and the smart socket that
  collects a request, has it answered or connects the client to a service of the device. The
  build is the host's (\<open>ADB_HOST\<close>). Calls that create descriptors go through the oracle of the state.
\<close>

subsection \<open>Trace tags\<close>

definition trace_tags :: "(string \<times> nat) list" where
  "trace_tags = [(''1'', 0), (''all'', 0), (''adb'', 0), (''sockets'', 1), (''packets'', 2), (''rwx'', 4),
     (''usb'', 5), (''sync'', 6), (''sysdeps'', 7), (''transport'', 3), (''jdwp'', 8)]"

definition is_separator :: "char \<Rightarrow> bool" where
  "is_separator c \<longleftrightarrow> c \<in> set '' ,:;''"

text \<open>What follows the first tag and its separator.\<close>

definition after_tag :: "string \<Rightarrow> string" where
  "after_tag p = (case dropWhile (\<lambda>c. \<not> is_separator c) p of [] \<Rightarrow> [] | _ # q \<Rightarrow> q)"

lemma after_tag_shorter: "p \<noteq> [] \<Longrightarrow> length (after_tag p) < length p"
  using length_dropWhile_le [of "\<lambda>c. \<not> is_separator c" p] by (auto simp: after_tag_def split: list.split)

function trace_loop :: "string \<Rightarrow> u32 \<Rightarrow> u32" where
  "trace_loop p tm =
     (if p = [] then tm
      else case map_of trace_tags (takeWhile (\<lambda>c. \<not> is_separator c) p) of
             None \<Rightarrow> trace_loop (after_tag p) tm
           | Some flag \<Rightarrow>
               if flag = 0 then 0xffffffff
               else trace_loop (after_tag p) (tm OR push_bit flag 1))"
  by pat_completeness auto
termination
  by (relation "measure (length \<circ> fst)") (auto simp: after_tag_shorter)

declare trace_loop.simps [simp del]

definition adb_trace_init :: "string option \<Rightarrow> u32 \<Rightarrow> u32" where
  "adb_trace_init env tm = (case env of None \<Rightarrow> tm | Some p \<Rightarrow> trace_loop p tm)"

subsection \<open>Listeners\<close>

definition get_listener :: "nat \<Rightarrow> adb \<Rightarrow> alistener res" where
  "get_listener l w = (case map_of (a_listeners w) l of None \<Rightarrow> Inl Dangling | Some x \<Rightarrow> Inr x)"

definition local_name_to_fd :: "string \<Rightarrow> adb \<Rightarrow> int \<times> adb" where
  "local_name_to_fd name w =
     (if starts_with ''tcp:'' name then os_open (Loopback_server (atoi (drop 4 name))) w
      else if starts_with ''local:'' name then os_open (Local_server (drop 6 name) 0) w
      else if starts_with ''localabstract:'' name then os_open (Local_server (drop 14 name) 0) w
      else if starts_with ''localfilesystem:'' name then os_open (Local_server (drop 16 name) 2) w
      else (-1, w))"

definition free_listener :: "nat \<Rightarrow> adb \<Rightarrow> adb res" where
  "free_listener l w =
     andthen (get_listener l w) (\<lambda>x.
     let w = w\<lparr>a_listeners := filter (\<lambda>(k, _). k \<noteq> l) (a_listeners w), a_closed := l_fd x # a_closed w\<rparr>
     in Inr (case l_transport x of
               None \<Rightarrow> w
             | Some t \<Rightarrow> remove_transport_disconnect t (Dis_listener l) w))"

definition remove_listener :: "string \<Rightarrow> string \<Rightarrow> nat \<Rightarrow> adb \<Rightarrow> (int \<times> adb) res" where
  "remove_listener local_name connect_to t w =
     (case find (\<lambda>(_, x). l_local_name x = local_name \<and> l_connect_to x = connect_to
                         \<and> l_transport x = Some t) (a_listeners w) of
        None \<Rightarrow> Inr (-1, w)
      | Some (l, _) \<Rightarrow> andthen (free_listener l w) (\<lambda>w. Inr (0, w)))"

text \<open>
  A listener that exists is given its new destination, unless it leads to the smart socket; its
  entry among the disconnect functions moves with it. The smart socket itself has no transport.
\<close>

definition rebind_listener :: "nat \<Rightarrow> alistener \<Rightarrow> string \<Rightarrow> nat option \<Rightarrow> adb \<Rightarrow> (int \<times> adb) res" where
  "rebind_listener l x connect_to transport w =
     (let put = (\<lambda>x w. w\<lparr>a_listeners := map (\<lambda>(k, y). (k, if k = l then x else y)) (a_listeners w)\<rparr>);
          x' = x\<lparr>l_connect_to := connect_to, l_transport := transport\<rparr>
      in if l_transport x = transport then Inr (0, put x' w)
         else case (l_transport x, transport) of
                (Some t, Some t') \<Rightarrow>
                  Inr (0, put x' (add_transport_disconnect t' (Dis_listener l)
                            (remove_transport_disconnect t (Dis_listener l) w)))
              | _ \<Rightarrow> Inl Null_deref)"

definition install_listener :: "string \<Rightarrow> string \<Rightarrow> nat option \<Rightarrow> adb \<Rightarrow> (int \<times> adb) res" where
  "install_listener local_name connect_to transport w =
     (case find (\<lambda>(_, x). l_local_name x = local_name) (a_listeners w) of
        Some (l, x) \<Rightarrow>
          if take 1 (l_connect_to x) = ''*'' then Inr (-1, w)
          else rebind_listener l x connect_to transport w
      | None \<Rightarrow>
          (case local_name_to_fd local_name w of (fd, w) \<Rightarrow>
           if fd < 0 then Inr (-2, w)
           else
             let l = a_lnext w;
                 x = \<lparr>l_fd = fd, l_local_name = local_name, l_connect_to = connect_to, l_transport = transport\<rparr>;
                 w = w\<lparr>a_lnext := l + 1, a_listeners := a_listeners w @ [(l, x)]\<rparr>
             in Inr (0, case transport of
                          None \<Rightarrow> w
                        | Some t \<Rightarrow> add_transport_disconnect t (Dis_listener l) w)))"

subsection \<open>Connecting to devices and emulators\<close>

text \<open>
  \<open>sscanf(s, "%d", &v)\<close> reports the end of the input (None), a failed match (Some None) or the number.
\<close>

definition scan_d :: "string \<Rightarrow> int option option" where
  "scan_d s =
     (let t = dropWhile isspace s in
      if t = [] then None
      else let u = (if take 1 t = ''-'' \<or> take 1 t = ''+'' then tl t else t) in
           if takeWhile (is_digit_in 10) u = [] then Some None else Some (Some (to_int32 (strtol 10 t))))"

definition local_connect_arbitrary_ports :: "int \<Rightarrow> int \<Rightarrow> adb \<Rightarrow> int \<times> adb" where
  "local_connect_arbitrary_ports console_port adb_port w =
     (let (fd, w) = (case a_adbhost w of None \<Rightarrow> (-1, w) | Some host \<Rightarrow> os_open (Network_client host adb_port) w);
          (fd, w) = (if fd < 0 then os_open (Loopback_client adb_port) w else (fd, w))
      in if fd \<ge> 0
         then (0, register_socket_transport fd (Some (snprintf 64 (''emulator-'' @ fmt_d console_port))) adb_port True w)
         else (-1, w))"

definition local_connect :: "int \<Rightarrow> adb \<Rightarrow> int \<times> adb" where
  "local_connect port w = local_connect_arbitrary_ports (port - 1) port w"

fun client_socket_loop :: "nat \<Rightarrow> int \<Rightarrow> adb \<Rightarrow> adb" where
  "client_socket_loop 0 port w = w"
| "client_socket_loop (Suc count) port w = client_socket_loop count (port + 2) (snd (local_connect port w))"

definition client_socket_thread :: "adb \<Rightarrow> adb" where
  "client_socket_thread w = client_socket_loop ADB_LOCAL_TRANSPORT_MAX 5555 w"

text \<open>
  \<open>connect_device\<close> copies the host name with \<open>strncpy\<close>, which does not terminate a name of 99 or more
  characters; with nothing after the colon the port is never set. Both are undefined behaviour.
\<close>

definition connect_device :: "string \<Rightarrow> adb \<Rightarrow> (string \<times> adb) res" where
  "connect_device host w =
     (let target = (case strchr (CHR '':'') host of
              Some (h, portstr) \<Rightarrow>
                if 100 \<le> length h then Inr (Inl (''bad host name '' @ host))
                else (case scan_d portstr of
                        None \<Rightarrow> Inl Undefined
                      | Some None \<Rightarrow> Inr (Inl (''bad port number '' @ CHR '':'' # portstr))
                      | Some (Some port) \<Rightarrow> Inr (Inr (h, port)))
            | None \<Rightarrow> if 99 \<le> length host then Inl Undefined else Inr (Inr (host, 5555)))
      in andthen target (\<lambda>v.
         case v of
           Inl msg \<Rightarrow> Inr (snprintf 4096 msg, w)
         | Inr (hostbuf, port) \<Rightarrow>
             let serial = snprintf 100 (hostbuf @ '':'' @ fmt_d port) in
             if find_transport serial w \<noteq> None
             then Inr (snprintf 4096 (''already connected to '' @ serial), w)
             else case os_open (Network_client hostbuf port) w of (fd, w) \<Rightarrow>
                  if fd < 0
                  then Inr (snprintf 4096 (''unable to connect to '' @ host @ '':'' @ fmt_d port), w)
                  else Inr (snprintf 4096 (''connected to '' @ serial),
                            register_socket_transport fd (Some serial) port False w)))"

definition connect_emulator :: "string \<Rightarrow> adb \<Rightarrow> string \<times> adb" where
  "connect_emulator port_spec w =
     (case strchr (CHR '','') port_spec of
        None \<Rightarrow> (snprintf 4096 (''unable to parse '' @ [CHR 0x27] @ port_spec @ [CHR 0x27]
                   @ '' as <console port>,<adb port>''), w)
      | Some (console, adb) \<Rightarrow>
          let console_port = to_int32 (strtol 0 console);
              adb_port = to_int32 (strtol 0 adb)
          in if \<not> (console_port > 0 \<and> adb_port > 0)
             then (snprintf 4096 (''Invalid port numbers: Expected positive numbers, got ''
                     @ [CHR 0x27] @ port_spec @ [CHR 0x27]), w)
             else if find_emulator_transport_by_adb_port adb_port w \<noteq> None
             then (snprintf 4096 (''Emulator on port '' @ fmt_d adb_port @ '' already registered.''), w)
             else if get_available_local_transport_index w < 0
             then (snprintf 4096 ''Cannot accept more emulators.'', w)
             else case local_connect_arbitrary_ports console_port adb_port w of (r, w) \<Rightarrow>
                  if r = 0
                  then (snprintf 4096 (''Connected to emulator on ports '' @ fmt_d console_port @ '','' @ fmt_d adb_port), w)
                  else (snprintf 4096 (''Could not connect to emulator on ports '' @ fmt_d console_port @ '','' @ fmt_d adb_port), w))"

subsection \<open>The table of host requests\<close>

text \<open>The reply buffer holds 4096 bytes.\<close>

definition okay_reply :: "string \<Rightarrow> string" where
  "okay_reply out = snprintf 4096 (''OKAY'' @ fmt_x 4 (length out) @ out)"

definition reply :: "int \<Rightarrow> string \<Rightarrow> adb \<Rightarrow> adb" where
  "reply fd s w = snd (fd_writex fd s w)"

definition connection_state_name :: "nat option \<Rightarrow> adb \<Rightarrow> string" where
  "connection_state_name tr w =
     (case tr of
        None \<Rightarrow> ''unknown''
      | Some t \<Rightarrow>
          (case r_heap w t of
             None \<Rightarrow> ''unknown''
           | Some x \<Rightarrow>
               (case t_state x of
                  CS_BOOTLOADER \<Rightarrow> ''bootloader'' | CS_DEVICE \<Rightarrow> ''device''
                | CS_OFFLINE \<Rightarrow> ''offline'' | _ \<Rightarrow> ''unknown'')))"

text \<open>\<open>acquire_one_transport\<close> without a required state never waits.\<close>

definition acquire_any :: "transport_type \<Rightarrow> string option \<Rightarrow> adb \<Rightarrow> nat option \<times> string" where
  "acquire_any ttype serial w = (case acquire_pass CS_ANY ttype serial w of (t, err, _) \<Rightarrow> (t, err))"

definition request_transport :: "string \<Rightarrow> string option \<Rightarrow> int \<Rightarrow> nat \<Rightarrow> adb \<Rightarrow> (int \<times> adb) res" where
  "request_transport service serial reply_fd s w =
     (let (type, serial) =
            (if starts_with ''transport-usb'' service then (kTransportUsb, serial)
             else if starts_with ''transport-local'' service then (kTransportLocal, serial)
             else if starts_with ''transport-any'' service then (kTransportAny, serial)
             else if starts_with ''transport:'' service then (kTransportAny, Some (drop 10 service))
             else (kTransportAny, serial))
      in case acquire_any type serial w of
           (Some t, _) \<Rightarrow>
             andthen (set_sock s (\<lambda>x. x\<lparr>s_transport := Some t\<rparr>) w) (\<lambda>w. Inr (1, adb_write reply_fd ''OKAY'' w))
         | (None, err) \<Rightarrow> Inr (1, snd (sendfailmsg reply_fd err w)))"

definition request_disconnect :: "string \<Rightarrow> int \<Rightarrow> adb \<Rightarrow> adb" where
  "request_disconnect serial reply_fd w =
     (if serial = [] then reply reply_fd (okay_reply []) (unregister_all_tcp_transports w)
      else
        let serial = (if strchr (CHR '':'') serial = None then snprintf 99 (serial @ '':5555'') else serial)
        in case find_transport serial w of
             Some t \<Rightarrow> reply reply_fd (okay_reply []) (unregister_transport t w)
           | None \<Rightarrow> reply reply_fd (okay_reply (snprintf 4096 (''No such device '' @ serial))) w)"

definition request_forward ::
  "string \<Rightarrow> transport_type \<Rightarrow> string option \<Rightarrow> int \<Rightarrow> adb \<Rightarrow> (int \<times> adb) res" where
  "request_forward service ttype serial reply_fd w =
     (let create = \<not> starts_with ''kill'' service;
          rest = drop (if create then 8 else 12) service;
          fail = (\<lambda>msg w. Inr (0, snd (sendfailmsg reply_fd msg w)))
      in case strchr (CHR '';'') rest of
           None \<Rightarrow> fail ''malformed forward spec'' w
         | Some (local, remote) \<Rightarrow>
             if local = [] \<or> remote = [] \<or> take 1 remote = ''*'' then fail ''malformed forward spec'' w
             else case acquire_any ttype serial w of
                    (None, err) \<Rightarrow> fail err w
                  | (Some t, _) \<Rightarrow>
                      andthen (if create then install_listener local remote (Some t) w
                               else remove_listener local remote t w) (\<lambda>(r, w).
                      if r = 0 then Inr (0, reply reply_fd ''OKAYOKAY'' w)
                      else if create
                      then fail (if r = -1 then ''cannot rebind smartsocket'' else ''cannot bind socket'') w
                      else fail ''cannot remove listener'' w))"

definition handle_host_request ::
  "string \<Rightarrow> transport_type \<Rightarrow> string option \<Rightarrow> int \<Rightarrow> nat \<Rightarrow> adb \<Rightarrow> (int \<times> adb) res" where
  "handle_host_request service ttype serial reply_fd s w =
     (if service = ''kill'' then Inl Server_exit
      else if starts_with ''transport'' service then request_transport service serial reply_fd s w
      else if service = ''devices'' then Inr (0, reply reply_fd (okay_reply (list_transports 4096 w)) w)
      else if starts_with ''connect:'' service then
        (let host = drop 8 service in
         if starts_with ''emu:'' host then
           (case connect_emulator (drop 4 host) w of (msg, w) \<Rightarrow> Inr (0, reply reply_fd (okay_reply msg) w))
         else andthen (connect_device host w) (\<lambda>(msg, w). Inr (0, reply reply_fd (okay_reply msg) w)))
      else if starts_with ''disconnect:'' service then Inr (0, request_disconnect (drop 11 service) reply_fd w)
      else if service = ''version'' then Inr (0, reply reply_fd (okay_reply (fmt_x 4 26)) w)
      else if starts_with ''get-serialno'' service then
        (let out = (case fst (acquire_any ttype serial w) of
                      None \<Rightarrow> ''unknown''
                    | Some t \<Rightarrow> (case r_heap w t of None \<Rightarrow> ''unknown''
                               | Some x \<Rightarrow> (case t_serial x of None \<Rightarrow> ''unknown'' | Some sn \<Rightarrow> sn)))
         in Inr (0, reply reply_fd (okay_reply out) w))
      else if starts_with ''emulator:'' service then
        Inr (0, snd (local_connect (atoi (drop 9 service)) w))
      else if starts_with ''forward:'' service \<or> starts_with ''killforward:'' service then
        request_forward service ttype serial reply_fd w
      else if starts_with ''get-state'' service then
        Inr (0, reply reply_fd (okay_reply (connection_state_name (fst (acquire_any ttype serial w)) w)) w)
      else Inr (-1, w))"

subsection \<open>Services\<close>

text \<open>\<open>service_to_fd\<close> in the host build; a shell is only started when \<open>HOST\<close> is not set.\<close>

definition service_to_fd :: "string \<Rightarrow> adb \<Rightarrow> int \<times> adb" where
  "service_to_fd name w =
     (if starts_with ''tcp:'' name then
        (case strchr (CHR '':'') (drop 4 name) of
           None \<Rightarrow> os_open (Loopback_client (atoi (drop 4 name))) w
         | Some (_, host) \<Rightarrow> os_open (Network_client host (atoi (drop 4 name))) w)
      else if starts_with ''local:'' name then os_open (Local_client (drop 6 name) 1) w
      else if starts_with ''localreserved:'' name then os_open (Local_client (drop 14 name) 1) w
      else if starts_with ''localabstract:'' name then os_open (Local_client (drop 14 name) 0) w
      else if starts_with ''localfilesystem:'' name then os_open (Local_client (drop 16 name) 2) w
      else if starts_with ''dns:'' name then os_open (Service_thread ''dns_service'' (drop 4 name)) w
      else if \<not> a_host w \<and> starts_with ''shell:'' name then
        (if drop 6 name \<noteq> [] then os_open (Subprocess ''/bin/sh'' ''-c'' (drop 6 name)) w
         else os_open (Subprocess ''/bin/sh'' ''-'' []) w)
      else (-1, w))"

definition create_local_service_socket :: "string \<Rightarrow> adb \<Rightarrow> (nat option \<times> adb) res" where
  "create_local_service_socket name w =
     (case service_to_fd name w of (fd, w) \<Rightarrow>
      if fd < 0 then Inr (None, w)
      else andthen (create_local_socket fd w) (\<lambda>(s, w). Inr (Some s, w)))"

definition host_service_to_socket :: "string \<Rightarrow> string option \<Rightarrow> adb \<Rightarrow> (nat option \<times> adb) res" where
  "host_service_to_socket name serial w =
     (if name = ''track-devices'' then
        (case create_device_tracker w of (s, w) \<Rightarrow> Inr (Some s, w))
      else if starts_with ''wait-for-'' name then
        (let kind = drop 9 name in
         if starts_with ''local'' kind \<or> starts_with ''usb'' kind \<or> starts_with ''any'' kind then
           (case os_open (Service_thread ''wait_for_state'' kind) w of (fd, w) \<Rightarrow>
            andthen (create_local_socket fd w) (\<lambda>(s, w). Inr (Some s, w)))
         else Inr (None, w))
      else Inr (None, w))"

subsection \<open>Trace masks\<close>

fun join_tags :: "string list \<Rightarrow> string" where
  "join_tags [] = []"
| "join_tags [t] = t"
| "join_tags (t # ts) = t @ CHR '','' # join_tags ts"

lemma trace_tag_chars:
  "map_of trace_tags t = Some k \<Longrightarrow> t \<noteq> [] \<and> (\<forall>c \<in> set t. \<not> is_separator c)"
proof -
  have "list_all (\<lambda>(t, k). t \<noteq> [] \<and> list_all (\<lambda>c. \<not> is_separator c) t) trace_tags" by code_simp
  then have *: "x \<in> set trace_tags \<Longrightarrow> fst x \<noteq> [] \<and> (\<forall>c \<in> set (fst x). \<not> is_separator c)" for x
    by (simp add: list_all_iff case_prod_unfold)
  assume "map_of trace_tags t = Some k"
  from * [OF map_of_SomeD [OF this]] show ?thesis by simp
qed

lemma after_tag_join:
  assumes "\<forall>c \<in> set t. \<not> is_separator c"
  shows "takeWhile (\<lambda>c. \<not> is_separator c) (join_tags (t # ts)) = t" "after_tag (join_tags (t # ts)) = join_tags ts"
proof -
  have sep: "is_separator (CHR '','')" by (simp add: is_separator_def)
  have tw: "takeWhile (\<lambda>c. \<not> is_separator c) (t @ ys) = t @ takeWhile (\<lambda>c. \<not> is_separator c) ys" for ys
    using assms by (intro takeWhile_append2) blast
  have dw: "dropWhile (\<lambda>c. \<not> is_separator c) (t @ ys) = dropWhile (\<lambda>c. \<not> is_separator c) ys" for ys
    using assms by (intro dropWhile_append2) blast
  show "takeWhile (\<lambda>c. \<not> is_separator c) (join_tags (t # ts)) = t"
    using tw [of "[]"] tw [of "CHR '','' # join_tags ts"] sep by (cases ts) simp_all
  show "after_tag (join_tags (t # ts)) = join_tags ts"
  proof (cases ts)
    case Nil
    have "dropWhile (\<lambda>c. \<not> is_separator c) t = []" using assms by simp
    then show ?thesis unfolding Nil after_tag_def join_tags.simps by (simp only: list.case)
  next
    case (Cons u us)
    with dw [of "CHR '','' # join_tags ts"] sep show ?thesis by (simp add: after_tag_def)
  qed
qed

definition tag_flag :: "string \<Rightarrow> nat" where
  "tag_flag t = (case map_of trace_tags t of None \<Rightarrow> 0 | Some k \<Rightarrow> k)"

text \<open>
  For a list of known tags, the trace mask gets the bit of every tag, and all bits as soon as one of
  the tags has flag 0. These are \<open>1\<close> and \<open>all\<close>, as documented, but also \<open>adb\<close>, whose flag
  \<open>TRACE_ADB\<close> is 0.
\<close>

theorem trace_mask:
  assumes "\<forall>t \<in> set ts. map_of trace_tags t \<noteq> None"
  shows "adb_trace_init (Some (join_tags ts)) m =
    (if \<exists>t \<in> set ts. tag_flag t = 0 then 0xffffffff else foldl (\<lambda>m t. m OR push_bit (tag_flag t) 1) m ts)"
  using assms unfolding adb_trace_init_def option.case
proof (induction ts arbitrary: m)
  case Nil
  then show ?case by (simp add: trace_loop.simps)
next
  case (Cons t ts)
  obtain k where k: "map_of trace_tags t = Some k" using Cons.prems by auto
  note ch = trace_tag_chars [OF k]
  have ne: "join_tags (t # ts) \<noteq> []" using ch by (cases ts) auto
  have "trace_loop (join_tags (t # ts)) m
      = (if k = 0 then 0xffffffff else trace_loop (join_tags ts) (m OR push_bit k 1))"
    using ne k after_tag_join [OF conjunct2 [OF ch], of ts] by (subst trace_loop.simps) simp
  with Cons k show ?case by (auto simp: tag_flag_def)
qed

theorem trace_mask_witness:
  "adb_trace_init (Some ''usb,adb'') 0 = 0xffffffff \<and> adb_trace_init (Some ''usb,sync'') 0 = 0x60"
proof -
  have "adb_trace_init (Some (join_tags [''usb'', ''adb''])) 0 = 0xffffffff"
    by (subst trace_mask) (simp_all add: trace_tags_def tag_flag_def)
  moreover have "adb_trace_init (Some (join_tags [''usb'', ''sync''])) 0 = 0x60"
    by (subst trace_mask) (simp_all add: trace_tags_def tag_flag_def)
  ultimately show ?thesis by simp
qed

end
