(* ===== verification/AdbProto.thy ===== *)
theory AdbProto
  imports AdbHost
begin

text \<open>
  The protocol engine of the debug bridge: the smart socket (src/tools/adb/sockets.c), the events of
  local sockets and listeners, the device trackers' update (transport.c), and \<open>handle_packet\<close>
  (adb.c), which turns the packets of a transport into operations on sockets.
\<close>

subsection \<open>Smart sockets\<close>

text \<open>\<open>unhex\<close>; \<open>0xffffffff\<close> for anything that is not a hexadecimal digit.\<close>

fun unhex :: "byte list \<Rightarrow> u32 \<Rightarrow> u32" where
  "unhex [] n = n"
| "unhex (c # cs) n =
     (let v = byte_val c in
      if 48 \<le> v \<and> v \<le> 57 then unhex cs (push_bit 4 n OR of_nat (v - 48))
      else if 97 \<le> v \<and> v \<le> 102 then unhex cs (push_bit 4 n OR of_nat (v - 97 + 10))
      else if 65 \<le> v \<and> v \<le> 70 then unhex cs (push_bit 4 n OR of_nat (v - 65 + 10))
      else 0xffffffff)"

text \<open>
  The prefix of a request: the host service if it is one, the serial number and the kind of
  transport it names.
\<close>

definition host_prefix :: "string \<Rightarrow> (string \<times> string option \<times> transport_type) option" where
  "host_prefix service =
     (if starts_with ''host-serial:'' service then
        (case strchr (CHR '':'') (drop 12 service) of
           Some (serial, rest) \<Rightarrow> Some (rest, Some serial, kTransportAny)
         | None \<Rightarrow> Some (drop 12 service, None, kTransportAny))
      else if starts_with ''host-usb:'' service then Some (drop 9 service, None, kTransportUsb)
      else if starts_with ''host-local:'' service then Some (drop 11 service, None, kTransportLocal)
      else if starts_with ''host:'' service then Some (drop 5 service, None, kTransportAny)
      else None)"

definition smart_fail :: "nat \<Rightarrow> adb \<Rightarrow> (int \<times> adb) res" where
  "smart_fail s w = andthen (close_sock s w) (\<lambda>w. Inr (-1, w))"

text \<open>The client is connected to a service of the server: its socket becomes an ordinary local one.\<close>

definition smart_bind ::
  "(nat \<Rightarrow> apacket \<Rightarrow> adb \<Rightarrow> (int \<times> adb) res) \<Rightarrow> nat \<Rightarrow> nat \<Rightarrow> nat \<Rightarrow> adb \<Rightarrow> (int \<times> adb) res" where
  "smart_bind enq s q s2 w =
     andthen (get_sock q w) (\<lambda>y.
     let w = adb_write (s_fd y) ''OKAY'' w in
     andthen (set_sock q (\<lambda>y. y\<lparr>s_ready := LS_ready, s_close := LS_close, s_peer := Some s2\<rparr>) w) (\<lambda>w.
     andthen (set_sock s2 (\<lambda>x. x\<lparr>s_peer := Some q\<rparr>) w) (\<lambda>w.
     andthen (set_sock s (\<lambda>x. x\<lparr>s_peer := None\<rparr>) w) (\<lambda>w.
     andthen (close_sock s w) (\<lambda>w.
     andthen (sock_ready enq s2 w) (\<lambda>w. Inr (0, w)))))))"

text \<open>The client is connected to a service of the device: its socket waits for the answer.\<close>

definition smart_connect :: "nat \<Rightarrow> nat \<Rightarrow> nat option \<Rightarrow> string \<Rightarrow> adb \<Rightarrow> (int \<times> adb) res" where
  "smart_connect s q tr dest w =
     andthen (set_sock q (\<lambda>y. y\<lparr>s_ready := LS_ready_notify, s_close := LS_close_notify, s_peer := None,
                                s_transport := tr\<rparr>) w) (\<lambda>w.
     andthen (connect_to_remote q dest w) (\<lambda>w.
     andthen (set_sock s (\<lambda>x. x\<lparr>s_peer := None\<rparr>) w) (\<lambda>w.
     andthen (close_sock s w) (\<lambda>w. Inr (1, w)))))"

text \<open>A complete request.\<close>

definition smart_request ::
  "(nat \<Rightarrow> apacket \<Rightarrow> adb \<Rightarrow> (int \<times> adb) res) \<Rightarrow> nat \<Rightarrow> apacket \<Rightarrow> string \<Rightarrow> adb \<Rightarrow> (int \<times> adb) res" where
  "smart_request enq s p text w =
     andthen (get_sock s w) (\<lambda>x.
     case s_peer x of
       None \<Rightarrow> Inl Null_deref
     | Some q \<Rightarrow>
         andthen (get_sock q w) (\<lambda>y.
         case host_prefix text of
           Some (service, serial, ttype) \<Rightarrow>
             andthen (handle_host_request service ttype serial (s_fd y) s w) (\<lambda>(r, w).
             if r = 0 then smart_fail s w
             else if starts_with ''transport'' service then
               andthen (set_sock s (\<lambda>x. x\<lparr>s_pkts := [p\<lparr>p_len := 0\<rparr>]\<rparr>) w) (\<lambda>w. Inr (0, w))
             else
               andthen (host_service_to_socket service serial w) (\<lambda>(s2, w).
               case s2 of
                 None \<Rightarrow> smart_fail s (snd (sendfailmsg (s_fd y) ''unknown host service'' w))
               | Some s2 \<Rightarrow> smart_bind enq s q s2 w))
         | None \<Rightarrow>
             (case s_transport x of
                None \<Rightarrow> smart_fail s (snd (sendfailmsg (s_fd y) ''device offline (x)'' w))
              | Some t \<Rightarrow>
                  (case r_heap w t of
                     None \<Rightarrow> Inl Dangling
                   | Some tx \<Rightarrow>
                       if t_state tx = CS_OFFLINE
                       then smart_fail s (snd (sendfailmsg (s_fd y) ''device offline (x)'' w))
                       else smart_connect s q (Some t) text w))))"

text \<open>
  \<open>smart_socket_enqueue\<close>: data is collected in the first packet until the request, four hexadecimal
  digits and as many bytes as they say, is complete.
\<close>

definition smart_socket_enqueue ::
  "(nat \<Rightarrow> apacket \<Rightarrow> adb \<Rightarrow> (int \<times> adb) res) \<Rightarrow> nat \<Rightarrow> apacket \<Rightarrow> adb \<Rightarrow> (int \<times> adb) res" where
  "smart_socket_enqueue enq s p w =
     andthen (get_sock s w) (\<lambda>x.
     let joined =
           (case s_pkts x of
              [] \<Rightarrow> Some p
            | p0 # _ \<Rightarrow>
                if p_len p0 + p_len p > MAX_PAYLOAD then None
                else Some (p0\<lparr>p_data := take (p_len p0) (p_data p0) @ take (p_len p) (p_data p)
                                          @ drop (p_len p0 + p_len p) (p_data p0),
                              p_len := p_len p0 + p_len p\<rparr>))
     in case joined of
          None \<Rightarrow> smart_fail s w
        | Some p \<Rightarrow>
            andthen (set_sock s (\<lambda>x. x\<lparr>s_pkts := [p]\<rparr>) w) (\<lambda>w.
            if p_len p < 4 then Inr (0, w)
            else
              let len = unhex (take 4 (p_data p)) 0 in
              if len < 1 \<or> len > 1024 then smart_fail s w
              else if unat len + 4 > p_len p then Inr (0, w)
              else smart_request enq s p (cstr (take (unat len) (drop 4 (p_data p)))) w))"

subsection \<open>The calls through the function pointers\<close>

text \<open>
  \<open>s->enqueue(s, p)\<close>. A smart socket may make a tracker ready, which enqueues to a local socket, so
  the calls nest at most twice.
\<close>

fun sock_enqueue :: "nat \<Rightarrow> nat \<Rightarrow> apacket \<Rightarrow> adb \<Rightarrow> (int \<times> adb) res" where
  "sock_enqueue 0 s p w = Inl Out_of_fuel"
| "sock_enqueue (Suc n) s p w =
     andthen (get_sock s w) (\<lambda>x.
     case s_enqueue x of
       LS_enqueue \<Rightarrow> local_socket_enqueue s p w
     | RS_enqueue \<Rightarrow> remote_socket_enqueue s p w
     | SS_enqueue \<Rightarrow> smart_socket_enqueue (sock_enqueue n) s p w
     | DT_enqueue \<Rightarrow> device_tracker_enqueue s p w)"

definition enqueue :: "nat \<Rightarrow> apacket \<Rightarrow> adb \<Rightarrow> (int \<times> adb) res" where
  "enqueue s p w = sock_enqueue 2 s p w"

definition ready :: "nat \<Rightarrow> adb \<Rightarrow> adb res" where
  "ready s w = sock_ready enqueue s w"

definition connect_to_smartsocket :: "nat \<Rightarrow> adb \<Rightarrow> adb res" where
  "connect_to_smartsocket s w =
     (case create_smart_socket w of (ss, w) \<Rightarrow>
      andthen (set_sock s (\<lambda>x. x\<lparr>s_peer := Some ss\<rparr>) w) (\<lambda>w.
      andthen (set_sock ss (\<lambda>x. x\<lparr>s_peer := Some s\<rparr>) w) (\<lambda>w.
      ready s w)))"

subsection \<open>Events\<close>

text \<open>The listeners' events; \<open>fd\<close> is what \<open>accept\<close> returned.\<close>

definition ss_listener_event_func :: "int \<Rightarrow> adb \<Rightarrow> adb res" where
  "ss_listener_event_func fd w =
     (if fd < 0 then Inr w
      else andthen (create_local_socket fd w) (\<lambda>(s, w). connect_to_smartsocket s w))"

definition listener_event_func :: "nat \<Rightarrow> int \<Rightarrow> adb \<Rightarrow> adb res" where
  "listener_event_func l fd w =
     (if fd < 0 then Inr w
      else
        andthen (create_local_socket fd w) (\<lambda>(s, w).
        andthen (get_listener l w) (\<lambda>x.
        andthen (set_sock s (\<lambda>y. y\<lparr>s_transport := l_transport x\<rparr>) w) (\<lambda>w.
        connect_to_remote s (l_connect_to x) w))))"

text \<open>The writable half of a local socket's event; the flag says that the function returns.\<close>

definition event_write :: "nat \<Rightarrow> adb \<Rightarrow> (bool \<times> adb) res" where
  "event_write s w =
     andthen (get_sock s w) (\<lambda>x.
     case drain (s_pkts x) (a_fds w (s_fd x)) of (r, ps, f) \<Rightarrow>
     andthen (set_sock s (\<lambda>x. x\<lparr>s_pkts := ps\<rparr>) (put_fd (s_fd x) f w)) (\<lambda>w.
     case r of
       W_block \<Rightarrow> Inr (True, w)
     | W_error \<Rightarrow> andthen (close_sock s w) (\<lambda>w. Inr (True, w))
     | W_all \<Rightarrow>
         if s_closing x then andthen (close_sock s w) (\<lambda>w. Inr (True, w))
         else
           andthen (set_sock s (\<lambda>x. x\<lparr>s_want_write := False\<rparr>) w) (\<lambda>w.
           case s_peer x of
             None \<Rightarrow> Inl Null_deref
           | Some q \<Rightarrow> andthen (ready q w) (\<lambda>w. Inr (False, w)))))"

definition event_read :: "nat \<Rightarrow> adb \<Rightarrow> adb res" where
  "event_read s w =
     andthen (get_sock s w) (\<lambda>x.
     case read_avail MAX_PAYLOAD (a_fds w (s_fd x)) of (bs, is_eof, f) \<Rightarrow>
     let w = put_fd (s_fd x) f w;
         finish = (\<lambda>w. if is_eof then close_sock s w else Inr w)
     in if bs = [] then finish w
        else case s_peer x of
               None \<Rightarrow> finish w
             | Some q \<Rightarrow>
                 andthen (enqueue q ((get_apacket [])\<lparr>p_data := bs, p_len := length bs\<rparr>) w) (\<lambda>(r, w).
                 if r < 0 then Inr w
                 else if r > 0 then
                   andthen (set_sock s (\<lambda>x. x\<lparr>s_want_read := False\<rparr>) w) finish
                 else finish w))"

definition local_socket_event_func :: "bool \<Rightarrow> bool \<Rightarrow> nat \<Rightarrow> adb \<Rightarrow> adb res" where
  "local_socket_event_func ev_read ev_write s w =
     andthen (if ev_write then event_write s w else Inr (False, w)) (\<lambda>(stop, w).
     if stop \<or> \<not> ev_read then Inr w else event_read s w)"

subsection \<open>Trackers and disconnection\<close>

fun send_to_trackers :: "string \<Rightarrow> nat list \<Rightarrow> adb \<Rightarrow> adb res" where
  "send_to_trackers msg [] w = Inr w"
| "send_to_trackers msg (s # ss) w =
     andthen (device_tracker_send enqueue s msg w) (\<lambda>(r, w). send_to_trackers msg ss w)"

definition adb_update_transports :: "adb \<Rightarrow> adb res" where
  "adb_update_transports w = send_to_trackers (list_transports_msg 1024 w) (a_trackers w) w"

fun run_disconnects :: "adisconnect list \<Rightarrow> adb \<Rightarrow> adb res" where
  "run_disconnects [] w = Inr w"
| "run_disconnects (d # ds) w =
     andthen (case d of Dis_socket s \<Rightarrow> remote_socket_disconnect s w | Dis_listener l \<Rightarrow> free_listener l w)
       (\<lambda>w. run_disconnects ds w)"

definition handle_offline :: "nat \<Rightarrow> adb \<Rightarrow> adb res" where
  "handle_offline t w =
     (case r_heap w t of None \<Rightarrow> Inl Dangling | Some x \<Rightarrow> run_disconnects (t_disconnects x) w)"

subsection \<open>Packets\<close>

definition send_ready :: "u32 \<Rightarrow> u32 \<Rightarrow> nat \<Rightarrow> adb \<Rightarrow> adb res" where
  "send_ready local remote t w = send_packet (command_packet A_OKAY local remote) (Some t) w"

definition send_close :: "u32 \<Rightarrow> u32 \<Rightarrow> nat \<Rightarrow> adb \<Rightarrow> adb res" where
  "send_close local remote t w = send_packet (command_packet A_CLSE local remote) (Some t) w"

definition connect_banner :: "adb \<Rightarrow> string" where
  "connect_banner w = (if a_host w then ''host'' else ''device'') @ ''::''"

definition send_connect :: "nat \<Rightarrow> adb \<Rightarrow> adb res" where
  "send_connect t w =
     (let p = get_apacket [] in
      send_packet (p\<lparr>p_msg := (p_msg p)\<lparr>command := A_CNXN, arg0 := A_VERSION, arg1 := of_nat MAX_PAYLOAD,
                                        data_length := of_nat (length (connect_banner w) + 1)\<rparr>,
                     p_data := connect_banner w @ [CHR 0x00]\<rparr>) (Some t) w)"

text \<open>
  The type and the product of a banner; \<open>parse_banner\<close> reads the packet's buffer as a string, which is
  undefined when the buffer has no terminator.
\<close>

definition banner_type :: "string \<Rightarrow> string" where
  "banner_type b = (case strchr (CHR '':'') b of None \<Rightarrow> b | Some (t, _) \<Rightarrow> t)"

definition banner_product :: "string \<Rightarrow> string" where
  "banner_product b =
     (case strchr (CHR '':'') b of
        None \<Rightarrow> []
      | Some (_, rest) \<Rightarrow> (case strchr (CHR '':'') rest of None \<Rightarrow> rest | Some (p, _) \<Rightarrow> p))"

definition parse_banner :: "byte list \<Rightarrow> nat \<Rightarrow> adb \<Rightarrow> adb res" where
  "parse_banner data t w =
     (if CHR 0x00 \<notin> set data then Inl Undefined
      else
        let banner = cstr data;
            type = banner_type banner;
            w = upd_transport t (\<lambda>x. x\<lparr>t_product := Some (banner_product banner)\<rparr>) w;
            set_state = (\<lambda>st w. upd_transport t (\<lambda>x. x\<lparr>t_state := st\<rparr>) w)
        in if type = ''bootloader'' then adb_update_transports (set_state CS_BOOTLOADER w)
           else if type = ''device'' then adb_update_transports (set_state CS_DEVICE w)
           else if type = ''recovery'' then adb_update_transports (set_state CS_RECOVERY w)
           else Inr (set_state CS_HOST w))"

definition handle_sync :: "apacket \<Rightarrow> nat \<Rightarrow> adb \<Rightarrow> adb res" where
  "handle_sync p t w =
     (if arg0 (p_msg p) \<noteq> 0 then
        andthen (send_packet p (Some t) w) (\<lambda>w. if a_host w then send_connect t w else Inr w)
      else
        andthen (handle_offline t (upd_transport t (\<lambda>x. x\<lparr>t_state := CS_OFFLINE\<rparr>) w)) (\<lambda>w.
        send_packet p (Some t) w))"

definition handle_cnxn :: "apacket \<Rightarrow> nat \<Rightarrow> conn_state \<Rightarrow> adb \<Rightarrow> adb res" where
  "handle_cnxn p t st w =
     andthen (if st \<noteq> CS_OFFLINE
              then handle_offline t (upd_transport t (\<lambda>x. x\<lparr>t_state := CS_OFFLINE\<rparr>) w) else Inr w) (\<lambda>w.
     andthen (parse_banner (p_data p) t w) (\<lambda>w.
     if \<not> a_host w then send_connect t w else Inr w))"

text \<open>The destination ends one byte before the payload does.\<close>

definition open_name :: "apacket \<Rightarrow> string" where
  "open_name p =
     (let n = unat (data_length (p_msg p)) in cstr ((p_data p)[(if n > 0 then n - 1 else 0) := CHR 0x00]))"

definition handle_open :: "apacket \<Rightarrow> nat \<Rightarrow> adb \<Rightarrow> adb res" where
  "handle_open p t w =
     andthen (create_local_service_socket (open_name p) w) (\<lambda>(s, w).
     case s of
       None \<Rightarrow> send_close 0 (arg0 (p_msg p)) t w
     | Some s \<Rightarrow>
         andthen (create_remote_socket (arg0 (p_msg p)) t w) (\<lambda>(q, w).
         andthen (set_sock s (\<lambda>x. x\<lparr>s_peer := Some q\<rparr>) w) (\<lambda>w.
         andthen (set_sock q (\<lambda>x. x\<lparr>s_peer := Some s\<rparr>) w) (\<lambda>w.
         andthen (get_sock s w) (\<lambda>x.
         andthen (send_ready (s_id x) (arg0 (p_msg p)) t w) (\<lambda>w.
         ready s w))))))"

definition handle_okay :: "apacket \<Rightarrow> nat \<Rightarrow> adb \<Rightarrow> adb res" where
  "handle_okay p t w =
     (case find_local_socket (arg1 (p_msg p)) w of
        None \<Rightarrow> Inr w
      | Some s \<Rightarrow>
          andthen (get_sock s w) (\<lambda>x.
          andthen (if s_peer x = None then
                     andthen (create_remote_socket (arg0 (p_msg p)) t w) (\<lambda>(q, w).
                     andthen (set_sock s (\<lambda>x. x\<lparr>s_peer := Some q\<rparr>) w) (\<lambda>w.
                     set_sock q (\<lambda>x. x\<lparr>s_peer := Some s\<rparr>) w))
                   else Inr w) (\<lambda>w.
          ready s w)))"

definition handle_clse :: "apacket \<Rightarrow> adb \<Rightarrow> adb res" where
  "handle_clse p w =
     (case find_local_socket (arg1 (p_msg p)) w of None \<Rightarrow> Inr w | Some s \<Rightarrow> close_sock s w)"

definition handle_wrte :: "apacket \<Rightarrow> nat \<Rightarrow> adb \<Rightarrow> adb res" where
  "handle_wrte p t w =
     (case find_local_socket (arg1 (p_msg p)) w of
        None \<Rightarrow> Inr w
      | Some s \<Rightarrow>
          andthen (enqueue s (p\<lparr>p_len := unat (data_length (p_msg p))\<rparr>) w) (\<lambda>(r, w).
          if r = 0 then
            andthen (get_sock s w) (\<lambda>x. send_ready (s_id x) (arg0 (p_msg p)) t w)
          else Inr w))"

definition handle_packet :: "apacket \<Rightarrow> nat \<Rightarrow> adb \<Rightarrow> adb res" where
  "handle_packet p t w =
     (case r_heap w t of
        None \<Rightarrow> Inl Dangling
      | Some tx \<Rightarrow>
          let cmd = command (p_msg p); online = (t_state tx \<noteq> CS_OFFLINE) in
          if cmd = A_SYNC then handle_sync p t w
          else if cmd = A_CNXN then handle_cnxn p t (t_state tx) w
          else if cmd = A_OPEN \<and> online then handle_open p t w
          else if cmd = A_OKAY \<and> online then handle_okay p t w
          else if cmd = A_CLSE \<and> online then handle_clse p w
          else if cmd = A_WRTE \<and> online then handle_wrte p t w
          else Inr w)"

subsection \<open>Connecting a local socket to a remote one\<close>

lemma sockets_ok_link:
  assumes ok: "sockets_ok {} w" "a_sock w s = Some x" "s \<in> set (a_live w)" "s_peer x = None" "r_heap w t \<noteq> None"
    and x': "s_enqueue x' = LS_enqueue" "\<not> s_closing x'" "s_close x' = LS_close" "s_ready x' = LS_ready"
      "s_peer x' = Some (a_snext w)"
    and y': "s_enqueue y' = RS_enqueue" "s_close y' = RS_close" "s_ready y' = RS_ready" "s_peer y' = Some s"
      "s_transport y' = Some t"
    and w': "a_sock w' = (a_sock w)(s \<mapsto> x', a_snext w \<mapsto> y')" "a_live w' = a_live w" "a_clsd w' = a_clsd w"
      "a_trackers w' = a_trackers w" "a_snext w' = a_snext w + 1"
      "\<And>u. map_option t_disconnects (r_heap w' u)
         = map_option (\<lambda>z. t_disconnects z @ (if u = t then [Dis_socket (a_snext w)] else [])) (r_heap w u)"
  shows "sockets_ok {} w'"
proof -
  let ?q = "a_snext w"
  note fr = sockets_ok_fresh [OF ok(1)]
  have sq: "s \<noteq> ?q" using ok(2) fr(1) by auto
  have n: "r_heap w' u = None \<longleftrightarrow> r_heap w u = None" for u
    using w'(6) [of u] by (cases "r_heap w u"; cases "r_heap w' u") auto
  have d: "t_disconnects zz = t_disconnects z @ (if u = t then [Dis_socket ?q] else [])"
    if "r_heap w' u = Some zz" "r_heap w u = Some z" for u z zz
    using w'(6) [of u] that by simp
  have new: "Dis_socket ?q \<notin> set (t_disconnects z)" if "r_heap w u = Some z" for u z
    using ok(1) fr(1) that unfolding sockets_ok_def dis_ok_def by force
  have a: "attached w' r z = attached w r z" if "r \<noteq> ?q" for r z
    using that unfolding attached_disconnects w'(6) by (auto split: option.split)
  have "lists_ok w'"
    using ok(1) by (auto simp: sockets_ok_def lists_ok_def w')
  moreover have "dis_ok w'"
    unfolding dis_ok_def
  proof (intro conjI allI impI)
    fix u zz r
    assume u: "r_heap w' u = Some zz" "Dis_socket r \<in> set (t_disconnects zz)"
    then obtain z where z: "r_heap w u = Some z" using n by (metis not_Some_eq)
    show "\<exists>v. a_sock w' r = Some v \<and> s_enqueue v = RS_enqueue \<and> s_transport v = Some u"
    proof (cases "r = ?q")
      case True
      then have "u = t" using u(2) d [OF u(1) z] new [OF z] by (auto split: if_splits)
      with True y' show ?thesis by (simp add: w')
    next
      case False
      then have "Dis_socket r \<in> set (t_disconnects z)" using u(2) d [OF u(1) z] by (auto split: if_splits)
      then obtain v where v: "a_sock w r = Some v" "s_enqueue v = RS_enqueue" "s_transport v = Some u"
        using ok(1) z unfolding sockets_ok_def dis_ok_def by blast
      then have "r \<noteq> s" using ok(2,3) sockets_okE(4) [OF ok(1) v(1)] by auto
      with v False show ?thesis by (simp add: w')
    qed
  next
    fix u zz
    assume u: "r_heap w' u = Some zz"
    then obtain z where z: "r_heap w u = Some z" using n by (metis not_Some_eq)
    have "distinct (t_disconnects z)" using ok(1) z unfolding sockets_ok_def dis_ok_def by blast
    with d [OF u z] new [OF z] show "distinct (t_disconnects zz)" by auto
  qed
  moreover have "sock_ok {} w' r z" if z: "a_sock w' r = Some z" for r z
  proof -
    consider "r = ?q" "z = y'" | "r = s" "z = x'" | "r \<noteq> s" "r \<noteq> ?q" "a_sock w r = Some z"
      using z sq by (auto simp: w' split: if_splits)
    then show ?thesis
    proof cases
      case 1
      have "attached w' ?q y'"
        using ok(5) y' n [of t] d [of t] by (auto simp: attached_def split: option.split)
      with 1 y' x' sq fr show ?thesis by (simp add: sock_ok_def kind_ok_simps peer_ok_def w')
    next
      case 2
      have "s_enqueue x = LS_enqueue" "\<not> s_closing x"
        by (rule live_sockets [OF ok(1,3)], simp add: ok(2))+
      then have "s \<notin> set (a_clsd w)" "s \<notin> set (a_trackers w)" "s < ?q"
        using sockets_okE(1,2,5) [OF ok(1,2)] by (simp_all add: kind_ok_simps)
      with 2 x' y' sq ok(3) show ?thesis by (simp add: sock_ok_def kind_ok_simps peer_ok_def w')
    next
      case 3
      have "s_peer z \<noteq> Some s" "s_peer z \<noteq> Some ?q"
        using peerE [OF ok(1) 3(3)] ok(2,4) fr(1) by fastforce+
      with 3 sockets_okE [OF ok(1) 3(3)] show ?thesis
        by (auto simp: sock_ok_def kind_ok_def peer_ok_def a n w' split: enqueue_fn.splits option.splits)
    qed
  qed
  ultimately show ?thesis by (simp add: sockets_ok_def)
qed

definition remote_for :: "u32 \<Rightarrow> nat \<Rightarrow> nat \<Rightarrow> asocket" where
  "remote_for sid t s = zero_socket\<lparr>s_id := sid, s_enqueue := RS_enqueue, s_ready := RS_ready,
     s_close := RS_close, s_transport := Some t, s_peer := Some s\<rparr>"

definition linked :: "u32 \<Rightarrow> nat \<Rightarrow> nat \<Rightarrow> asocket \<Rightarrow> adb \<Rightarrow> adb" where
  "linked sid t s x w =
     put_sock (a_snext w) (remote_for sid t s) (put_sock s (x\<lparr>s_peer := Some (a_snext w)\<rparr>)
       (add_transport_disconnect t (Dis_socket (a_snext w)) (w\<lparr>a_snext := a_snext w + 1\<rparr>)))"

lemma link_steps:
  assumes "sockets_ok {} w" "a_sock w s = Some x" "r_heap w t \<noteq> None"
  shows "andthen (create_remote_socket sid t w) (\<lambda>(q, w).
     andthen (set_sock s (\<lambda>x. x\<lparr>s_peer := Some q\<rparr>) w) (\<lambda>w.
     andthen (set_sock q (\<lambda>x. x\<lparr>s_peer := Some s\<rparr>) w) k)) = k (linked sid t s x w)"
proof -
  have sq: "s \<noteq> a_snext w" using sockets_ok_fresh(1) [OF assms(1)] assms(2) by auto
  obtain tx where "r_heap w t = Some tx" using assms(3) by blast
  moreover have "(put_sock a b w)\<lparr>a_snext := c\<rparr> = put_sock a b (w\<lparr>a_snext := c\<rparr>)" for a b c
    by (simp add: put_sock_def)
  moreover have "put_sock q y' (put_sock s x' (put_sock q y v)) = put_sock q y' (put_sock s x' v)" if "s \<noteq> q" for q y y' x' v
    using that by (simp add: put_sock_def fun_upd_twist)
  ultimately show ?thesis
    using assms(2) sq
    by (simp add: create_remote_socket_def calloc_socket_def linked_def set_sock_def remote_for_def
        add_transport_disconnect_def)
qed

lemma ready_local:
  "a_sock w s = Some x \<Longrightarrow> s_ready x = LS_ready \<Longrightarrow> ready s w = Inr (put_sock s (x\<lparr>s_want_read := True\<rparr>) w)"
  "a_sock w s = Some x \<Longrightarrow> s_ready x = LS_ready_notify \<Longrightarrow>
   ready s w = Inr (put_sock s (x\<lparr>s_ready := LS_ready, s_close := LS_close, s_want_read := True\<rparr>)
     (put_fd (s_fd x) (snd (sys_write ''OKAY'' (a_fds w (s_fd x)))) w))"
  by (simp_all add: ready_def sock_ready_def get_sock_def local_socket_ready_def local_socket_ready_notify_def
      set_sock_def adb_write_def)

subsection \<open>The state of the server\<close>

text \<open>
  Every listener that a transport knows exists and belongs to it. The server is well-formed when its
  sockets and its listeners are.
\<close>

definition listeners_ok :: "adb \<Rightarrow> bool" where
  "listeners_ok w \<longleftrightarrow> distinct (map fst (a_listeners w))
     \<and> (\<forall>t st ds l. tview w t = Some (st, ds) \<longrightarrow> Dis_listener l \<in> set ds \<longrightarrow>
          (\<exists>x. map_of (a_listeners w) l = Some x \<and> l_transport x = Some t))"

definition adb_ok :: "adb \<Rightarrow> bool" where
  "adb_ok w \<longleftrightarrow> sockets_ok {} w \<and> listeners_ok w"

text \<open>What every operation below keeps: a well-formed state, the transports that exist, the role.\<close>

definition keeps :: "adb \<Rightarrow> adb \<Rightarrow> bool" where
  "keeps w w' \<longleftrightarrow> adb_ok w' \<and> (\<forall>t. r_heap w' t = None \<longleftrightarrow> r_heap w t = None) \<and> a_host w' = a_host w
     \<and> a_full w' = a_full w"

lemma keeps_trans: "keeps u v \<Longrightarrow> keeps v w \<Longrightarrow> keeps u w"
  by (simp add: keeps_def)

lemma keeps_refl: "adb_ok w \<Longrightarrow> keeps w w"
  by (simp add: keeps_def)

lemma tview_None: "tview w t = None \<longleftrightarrow> r_heap w t = None"
  by (simp add: tview_def)

lemma steady_keeps:
  assumes "adb_ok w" "sockets_ok {} w'" "steady w w'"
  shows "keeps w w'"
proof -
  have v: "tview w' = tview w" "a_listeners w' = a_listeners w" "a_host w' = a_host w" "a_full w' = a_full w"
    using assms(3) by (simp_all add: steady_def)
  have "listeners_ok w'" using assms(1) unfolding adb_ok_def listeners_ok_def v by blast
  with assms(2) v show ?thesis
    unfolding keeps_def adb_ok_def tview_None [symmetric] by simp
qed

lemma keepsD: "keeps w w' \<Longrightarrow> adb_ok w'" "keeps w w' \<Longrightarrow> r_heap w t \<noteq> None \<Longrightarrow> r_heap w' t \<noteq> None"
  by (auto simp: keeps_def)

lemma settles_keeps: "keeps w v \<Longrightarrow> settles v r (keeps v) \<Longrightarrow> settles w r (keeps w)"
  by (rule settles_mono [of w r "keeps v"]) (auto simp: settles_full [of v w] keeps_def)

text \<open>Operations that keep the state well-formed compose.\<close>

lemma settles_then:
  "settles w r (keeps w) \<Longrightarrow> (\<And>v. keeps w v \<Longrightarrow> settles v (k v) (keeps v)) \<Longrightarrow> settles w (andthen r k) (keeps w)"
  by (rule settles_bind [of w r "keeps w"]) (auto intro: settles_keeps)

lemma find_local_socketD:
  "find_local_socket sid w = Some s \<Longrightarrow> s \<in> set (a_live w)"
  by (auto simp: find_local_socket_def find_Some_iff in_set_conv_nth)

lemma enqueue_local: "a_sock w s = Some x \<Longrightarrow> s_enqueue x = LS_enqueue \<Longrightarrow> enqueue s p w = local_socket_enqueue s p w"
  by (simp add: enqueue_def numeral_2_eq_2 get_sock_def)

subsection \<open>Packets for sockets\<close>

lemma send_to_transport_settles:
  assumes "adb_ok w" "r_heap w t \<noteq> None"
  shows "settles w (send_packet p (Some t) w) (keeps w)"
proof -
  obtain tx where tx: "r_heap w t = Some tx" using assms(2) by blast
  have "sockets_ok {} w" using assms(1) by (simp add: adb_ok_def)
  from send_packet_settles [OF this tx] show ?thesis
    by (rule settles_mono) (auto intro: steady_keeps [OF assms(1)])
qed

lemma handle_clse_settles:
  assumes "adb_ok w"
  shows "settles w (handle_clse p w) (keeps w)"
proof (cases "find_local_socket (arg1 (p_msg p)) w")
  case None
  with assms show ?thesis by (auto simp: handle_clse_def intro: keeps_refl)
next
  case (Some s)
  have ok: "sockets_ok {} w" using assms by (simp add: adb_ok_def)
  obtain x where x: "a_sock w s = Some x" using live_sockets [OF ok find_local_socketD [OF Some]] by blast
  have "settles w (close_sock s w) (keeps w)"
    by (rule settles_mono [OF close_sock_settles [OF ok x]])
      (auto simp: closed_state_def intro: steady_keeps [OF assms])
  with Some show ?thesis by (simp add: handle_clse_def)
qed

lemma tame_keeps: "adb_ok w \<Longrightarrow> tame s w w' \<Longrightarrow> keeps w w'"
  by (auto simp: tame_def intro: steady_keeps)

lemma handle_wrte_settles:
  assumes "adb_ok w" "r_heap w t \<noteq> None"
  shows "settles w (handle_wrte p t w) (keeps w)"
proof (cases "find_local_socket (arg1 (p_msg p)) w")
  case None
  with assms show ?thesis by (auto simp: handle_wrte_def intro: keeps_refl)
next
  case (Some s)
  let ?p = "p\<lparr>p_len := unat (data_length (p_msg p))\<rparr>"
  have ok: "sockets_ok {} w" using assms by (simp add: adb_ok_def)
  obtain x where x: "a_sock w s = Some x" "s_enqueue x = LS_enqueue"
    using live_sockets [OF ok find_local_socketD [OF Some]] by blast
  have "settles w (if r = 0 then andthen (get_sock s w1) (\<lambda>x. send_ready (s_id x) (arg0 (p_msg p)) t w1) else Inr w1)
      (keeps w)" if e: "tame s w w1" "r = 0 \<longrightarrow> a_sock w1 = a_sock w" for r :: int and w1
  proof -
    have k: "keeps w w1" by (rule tame_keeps [OF assms(1) e(1)])
    have "settles w (send_ready (s_id x) (arg0 (p_msg p)) t w1) (keeps w)"
      unfolding send_ready_def
      by (rule settles_keeps [OF k send_to_transport_settles [OF keepsD [OF k]]]) (rule assms(2))
    with k e(2) x(1) show ?thesis by (simp add: get_sock_def)
  qed
  then have "settles w (andthen (local_socket_enqueue s ?p w) (\<lambda>(r, w1). if r = 0
      then andthen (get_sock s w1) (\<lambda>x. send_ready (s_id x) (arg0 (p_msg p)) t w1) else Inr w1)) (keeps w)"
    by (intro settles_bind [OF local_socket_enqueue_settles [OF ok x(1)]]) auto
  with Some enqueue_local [OF x, of ?p] show ?thesis by (simp add: handle_wrte_def)
qed

text \<open>Making a linked socket ready gives a well-formed state, whichever way it was waiting.\<close>

lemma ready_linked_safe:
  assumes "adb_ok w" "a_sock w s = Some x" "s \<in> set (a_live w)" "s_peer x = None" "r_heap w t \<noteq> None"
    and v: "a_sock v = a_sock (linked sid t s x w)" "a_live v = a_live w" "a_clsd v = a_clsd w"
      "a_trackers v = a_trackers w" "a_snext v = a_snext w + 1" "steady (linked sid t s x w) v"
      "\<And>u. map_option t_disconnects (r_heap v u) = map_option t_disconnects (r_heap (linked sid t s x w) u)"
  shows "\<exists>w'. ready s v = Inr w' \<and> keeps w w'"
proof -
  have ok: "sockets_ok {} w" using assms(1) by (simp add: adb_ok_def)
  have e: "s_enqueue x = LS_enqueue" "\<not> s_closing x" by (rule live_sockets [OF ok assms(3)], simp add: assms(2))+
  have sq: "s \<noteq> a_snext w" using sockets_ok_fresh(1) [OF ok] assms(2) by auto
  let ?x = "x\<lparr>s_peer := Some (a_snext w)\<rparr>"
  have vs: "a_sock v s = Some ?x" using sq by (simp add: v linked_def)
  have dis: "map_option t_disconnects (r_heap v u)
      = map_option (\<lambda>z. t_disconnects z @ (if u = t then [Dis_socket (a_snext w)] else [])) (r_heap w u)" for u
    unfolding v(7) by (simp add: linked_def add_transport_disconnect_def option.map_comp comp_def)
  have st: "steady w v"
  proof (rule steady_trans [OF _ v(6)])
    show "steady w (linked sid t s x w)"
      by (simp add: linked_def steady_def tview_def put_sock_def add_transport_disconnect_def upd_transport_def
          option.map_comp comp_def fun_eq_iff)
  qed
  have fin: "sockets_ok {} (put_sock s x' (put_fd fd f v))"
    if "s_enqueue x' = LS_enqueue" "\<not> s_closing x'" "s_close x' = LS_close" "s_ready x' = LS_ready"
      "s_peer x' = Some (a_snext w)" for x' fd f
    by (rule sockets_ok_link [OF ok assms(2-5) that, where y' = "remote_for sid t s"])
      (use sq v in \<open>simp_all add: remote_for_def linked_def dis add_transport_disconnect_def fun_upd_twist\<close>)
  have "put_fd fd (a_fds v fd) v = v" for fd by (simp add: put_fd_def)
  with fin have fin0: "sockets_ok {} (put_sock s x' v)"
    if "s_enqueue x' = LS_enqueue" "\<not> s_closing x'" "s_close x' = LS_close" "s_ready x' = LS_ready"
      "s_peer x' = Some (a_snext w)" for x'
    using that by metis
  have kx: "kind_ok w s x" by (rule sockets_okE(2) [OF ok assms(2)])
  show ?thesis
  proof (cases "s_ready x = LS_ready")
    case True
    with kx e have "s_close x = LS_close" by (auto simp: kind_ok_simps)
    then have "sockets_ok {} (put_sock s (?x\<lparr>s_want_read := True\<rparr>) v)" using e True by (intro fin0) simp_all
    with ready_local(1) [OF vs] True st assms(1) show ?thesis by (auto intro: steady_keeps)
  next
    case False
    with kx e have r: "s_ready ?x = LS_ready_notify" by (auto simp: kind_ok_simps)
    have "sockets_ok {} (put_sock s (?x\<lparr>s_ready := LS_ready, s_close := LS_close, s_want_read := True\<rparr>)
        (put_fd (s_fd ?x) (snd (sys_write ''OKAY'' (a_fds v (s_fd ?x)))) v))"
      using e by (intro fin) simp_all
    with ready_local(2) [OF vs r] st assms(1) show ?thesis by (auto intro: steady_keeps)
  qed
qed

lemma handle_okay_settles:
  assumes "adb_ok w" "r_heap w t \<noteq> None"
  shows "settles w (handle_okay p t w) (keeps w)"
proof (cases "find_local_socket (arg1 (p_msg p)) w")
  case None
  with assms show ?thesis by (auto simp: handle_okay_def intro: keeps_refl)
next
  case (Some s)
  have ok: "sockets_ok {} w" using assms by (simp add: adb_ok_def)
  have live: "s \<in> set (a_live w)" by (rule find_local_socketD [OF Some])
  obtain x where x: "a_sock w s = Some x" "s_enqueue x = LS_enqueue" using live_sockets [OF ok live] by blast
  show ?thesis
  proof (cases "s_peer x")
    case None
    have "\<exists>w'. ready s (linked (arg0 (p_msg p)) t s x w) = Inr w' \<and> keeps w w'"
      by (rule ready_linked_safe [OF assms(1) x(1) live None assms(2)])
        (simp_all add: linked_def add_transport_disconnect_def)
    moreover have "handle_okay p t w = ready s (linked (arg0 (p_msg p)) t s x w)"
      using Some x(1) None link_steps [OF ok x(1) assms(2), of _ "\<lambda>w. Inr w"]
      by (simp add: handle_okay_def get_sock_def case_prod_unfold)
    ultimately show ?thesis by auto
  next
    case (Some q)
    with sockets_okE(2) [OF ok x(1)] x(2) have "s_ready x = LS_ready" by (auto simp: kind_ok_simps)
    from ready_local(1) [OF x(1) this]
    have "handle_okay p t w = Inr (put_sock s (x\<lparr>s_want_read := True\<rparr>) w)"
      using \<open>find_local_socket _ w = Some s\<close> x(1) Some by (simp add: handle_okay_def get_sock_def)
    moreover have "sockets_ok {} (put_sock s (x\<lparr>s_want_read := True\<rparr>) w)"
      using ok x(1) by (rule sockets_ok_put) simp_all
    ultimately show ?thesis using assms(1) by (auto intro: steady_keeps)
  qed
qed

text \<open>Operations that only call the operating system.\<close>

definition calls_only :: "adb \<Rightarrow> int \<times> adb \<Rightarrow> bool" where
  "calls_only w r \<longleftrightarrow> (\<exists>c. snd r = w\<lparr>a_calls := c\<rparr>)"

lemma calls_only_simps [simp]: "calls_only w (os_open c w)" "calls_only w (fd, w)"
proof -
  show "calls_only w (os_open c w)" unfolding calls_only_def os_open_def by auto
  have "snd (fd, w) = w\<lparr>a_calls := a_calls w\<rparr>" by simp
  then show "calls_only w (fd, w)" unfolding calls_only_def by (rule exI)
qed

lemma calls_only_if: "calls_only w a \<Longrightarrow> calls_only w b \<Longrightarrow> calls_only w (if P then a else b)"
  by simp

lemma service_to_fd_calls: "calls_only w (service_to_fd name w)"
  unfolding service_to_fd_def by (intro calls_only_if) (simp_all split: option.split)

lemma service_to_fd_frame: "service_to_fd name w = (fd, w') \<Longrightarrow> \<exists>c. w' = w\<lparr>a_calls := c\<rparr>"
  using service_to_fd_calls [of w name] by (simp add: calls_only_def)

lemma sockets_ok_calls: "sockets_ok H (w\<lparr>a_calls := c\<rparr>) = sockets_ok H w"
proof -
  have "sockets_ok H w \<Longrightarrow> sockets_ok H (w\<lparr>a_calls := c\<rparr>)" for w :: adb and c
    by (erule sockets_ok_cong) simp_all
  from this [of w c] this [of "w\<lparr>a_calls := c\<rparr>" "a_calls w"] show ?thesis by auto
qed

lemma handle_open_settles:
  assumes "adb_ok w" "r_heap w t \<noteq> None"
  shows "settles w (handle_open p t w) (keeps w)"
proof -
  obtain fd w0 where f: "service_to_fd (open_name p) w = (fd, w0)" by fastforce
  then obtain c where w0: "w0 = w\<lparr>a_calls := c\<rparr>" using service_to_fd_frame by blast
  have ok0: "sockets_ok {} w0" using assms(1) by (simp add: adb_ok_def w0 sockets_ok_calls)
  have st0: "steady w w0" by (simp add: steady_def tview_def w0 fun_eq_iff)
  have k0: "keeps w w0" by (rule steady_keeps [OF assms(1) ok0 st0])
  obtain tx where tx: "r_heap w0 t = Some tx" using k0 assms(2) by (fastforce simp: keeps_def)
  show ?thesis
  proof (cases "fd < 0")
    case True
    have "settles w (send_packet (command_packet A_CLSE 0 (arg0 (p_msg p))) (Some t) w0) (keeps w)"
      by (rule settles_keeps [OF k0 send_to_transport_settles [OF keepsD [OF k0]]]) (rule assms(2))
    with f True show ?thesis
      by (simp add: handle_open_def create_local_service_socket_def send_close_def)
  next
    case False
    let ?s = "a_snext w0" and ?x = "zero_socket\<lparr>s_id := a_next_id w0, s_fd := fd\<rparr>"
    let ?w1 = "(put_sock ?s ?x w0)\<lparr>a_snext := ?s + 1, a_next_id := a_next_id w0 + 1, a_live := a_live w0 @ [?s]\<rparr>"
    let ?v = "linked (arg0 (p_msg p)) t ?s ?x ?w1"
    have c: "create_local_socket fd w0 = Inr (?s, ?w1)" by (rule create_local_socket_eq)
    have ok1: "sockets_ok {} ?w1" by (rule sockets_ok_create_local [OF ok0 c])
    have "steady w ?w1" using st0 by (simp add: steady_def tview_def put_sock_def fun_eq_iff)
    then have k1: "keeps w ?w1" by (rule steady_keeps [OF assms(1) ok1])
    have h1: "r_heap ?w1 t \<noteq> None" using tx by simp
    have x1: "a_sock ?w1 ?s = Some ?x" by simp
    have vx: "a_sock ?v ?s = Some (?x\<lparr>s_peer := Some (?s + 1)\<rparr>)" by (simp add: linked_def)
    have vt: "r_heap ?v t = Some (tx\<lparr>t_disconnects := t_disconnects tx @ [Dis_socket (?s + 1)]\<rparr>)"
      using tx by (simp add: linked_def add_transport_disconnect_def)
    define u where "u = upd_transport t (\<lambda>x. x\<lparr>t_sent := t_sent x
      @ [seal_packet (command_packet A_OKAY (a_next_id w0) (arg0 (p_msg p)))]\<rparr>) ?v"
    have snd: "send_ready (a_next_id w0) (arg0 (p_msg p)) t ?v
        = (if a_full w t (length (t_sent tx)) then Inl enqueue_failed else Inr u)"
    proof -
      have "a_full ?v = a_full w" by (simp add: linked_def add_transport_disconnect_def w0)
      with vt show ?thesis by (simp add: send_ready_def send_packet_def u_def)
    qed
    have "\<exists>w'. ready ?s u = Inr w' \<and> keeps ?w1 w'"
    proof (rule ready_linked_safe [where x = ?x and t = t and sid = "arg0 (p_msg p)"])
      show "adb_ok ?w1" using k1 by (simp add: keeps_def)
      show "steady ?v u"
        by (simp add: u_def steady_def tview_def upd_transport_def option.map_comp comp_def fun_eq_iff)
      show "map_option t_disconnects (r_heap u z) = map_option t_disconnects (r_heap ?v z)" for z
        by (simp add: u_def option.map_comp comp_def)
    qed (use x1 h1 in \<open>simp_all add: u_def linked_def add_transport_disconnect_def zero_socket_def\<close>)
    then obtain w' where "ready ?s u = Inr w'" "keeps ?w1 w'" by blast
    moreover have "handle_open p t w
        = (if a_full w t (length (t_sent tx)) then Inl enqueue_failed else ready ?s u)"
      using f False c link_steps [OF ok1 x1 h1, of "arg0 (p_msg p)"
          "\<lambda>w. andthen (get_sock ?s w) (\<lambda>x. andthen (send_ready (s_id x) (arg0 (p_msg p)) t w) (\<lambda>w. ready ?s w))"]
        vx snd
      by (simp add: handle_open_def create_local_service_socket_def get_sock_def)
    ultimately show ?thesis using keeps_trans [OF k1] by auto
  qed
qed

subsection \<open>Disconnection\<close>

lemma remote_socket_disconnect_safe:
  assumes "sockets_ok {} w" "a_sock w s = Some x" "s_enqueue x = RS_enqueue"
  shows "\<exists>w' q. remote_socket_disconnect s w = Inr w' \<and> sockets_ok {} w' \<and> steady w w'
    \<and> s_peer x = Some q \<and> (\<forall>r. r \<noteq> s \<longrightarrow> r \<noteq> q \<longrightarrow> a_sock w' r = a_sock w r)"
proof -
  obtain q where q: "s_peer x = Some q" using sockets_okE(6) [OF assms(1,2)] assms(3) by auto
  obtain y where y: "a_sock w q = Some y" "q \<noteq> s" "s_enqueue y = LS_enqueue"
    using peerE [OF assms(1,2) q] assms(3) by auto
  let ?y = "y\<lparr>s_peer := None\<rparr>" and ?x = "x\<lparr>s_peer := None\<rparr>"
  let ?w = "shut 0 q ?y (put_sock q ?y w)"
  let ?v = "shut 0 q ?y (unlinked s x q y w)"
  have v: "?v = put_sock s ?x ?w" by (rule unlinked_shut) (use y in auto)
  have okv: "sockets_ok {s} ?v" using sockets_ok_shut_pair(1) [OF assms(1,2) q y(1)] by simp
  have xv: "a_sock ?v s = Some ?x" using v by simp
  have xw: "a_sock ?w s = Some x" using y(2) assms(2) by simp
  obtain t tx where t: "s_transport x = Some t" "r_heap ?w t = Some tx"
    using sockets_okE(2) [OF okv xv] assms(3) v by (auto simp: kind_ok_simps attached_def split: option.splits)
  let ?u = "free_sock s (remove_transport_disconnect t (Dis_socket s) ?w)"
  have "close_sock = sock_close (Suc (Suc (Suc 2))) False"
    by (simp add: fun_eq_iff close_sock_def numeral_eq_Suc del: sock_close.simps)
  then have c: "close_peer close_sock x w = Inr ?w"
    using close_peer_pair(1) [OF assms(1,2) q y(1), of 2] y(3) by simp
  have run: "remote_socket_disconnect s w = Inr ?u"
    using assms(2) xw t by (simp add: remote_socket_disconnect_def get_sock_def c remote_socket_free_def)
  have nl: "s \<notin> set (a_live ?v)" "s \<notin> set (a_clsd ?v)" "s \<notin> set (a_trackers ?v)"
    using sockets_okE(4,5) [OF okv xv] assms(3) by simp_all
  have other: "t_disconnects z = filter (\<lambda>d. d \<noteq> Dis_socket s) (t_disconnects z)" if "u \<noteq> t" "r_heap ?v u = Some z" for u z
    using disconnects_other [OF okv xv _ that(2)] t that(1) by simp
  have "sockets_ok ({s} - {s}) ?u"
    using nl other
    by (intro sockets_ok_free [OF okv xv])
      (auto simp: v remove_transport_disconnect_def remove1_idem option.map_comp comp_def intro!: option.map_cong)
  moreover have "steady w ?u"
  proof -
    have "steady w ?w" using shut_steady [of "put_sock q ?y w" 0 q ?y] by simp
    then show ?thesis
      by (simp add: steady_def tview_def free_sock_def remove_transport_disconnect_def upd_transport_def
          option.map_comp comp_def fun_eq_iff)
  qed
  moreover have "a_sock ?u r = a_sock w r" if "r \<noteq> s" "r \<noteq> q" for r
    using that by (simp add: remove_transport_disconnect_def)
  ultimately show ?thesis using run q by (intro exI [of _ ?u] exI [of _ q]) simp
qed

text \<open>Changes to the listeners among the disconnect functions do not concern the sockets.\<close>

lemma sockets_ok_listener:
  assumes "sockets_ok H w" "a_sock w' = a_sock w" "a_live w' = a_live w" "a_clsd w' = a_clsd w"
    "a_trackers w' = a_trackers w" "a_snext w' = a_snext w"
    "\<And>t. map_option t_disconnects (r_heap w' t) = map_option (\<lambda>x. filter (\<lambda>d. d \<noteq> Dis_listener l) (t_disconnects x)) (r_heap w t)"
  shows "sockets_ok H w'"
proof -
  have n: "r_heap w' t = None \<longleftrightarrow> r_heap w t = None" for t
    using assms(7) [of t] by (cases "r_heap w t"; cases "r_heap w' t") auto
  have d: "t_disconnects tx' = filter (\<lambda>d. d \<noteq> Dis_listener l) (t_disconnects tx)"
    if "r_heap w' t = Some tx'" "r_heap w t = Some tx" for t tx tx'
    using assms(7) [of t] that by simp
  have a: "attached w' s x = attached w s x" for s x
    unfolding attached_disconnects assms(7) by (auto split: option.split)
  have k: "kind_ok w' s x = kind_ok w s x" for s x
    unfolding kind_ok_def assms(2-5) a n by (rule refl)
  have o: "sock_ok H w' s x = sock_ok H w s x" for s x
    unfolding sock_ok_def k peer_ok_def assms(2-6) by (rule refl)
  have "dis_ok w'"
    unfolding dis_ok_def assms(2)
  proof (intro conjI allI impI)
    fix t tx' s
    assume t: "r_heap w' t = Some tx'" "Dis_socket s \<in> set (t_disconnects tx')"
    then obtain tx where "r_heap w t = Some tx" using n by (metis not_Some_eq)
    with t d [OF t(1)] assms(1)
    show "\<exists>x. a_sock w s = Some x \<and> s_enqueue x = RS_enqueue \<and> s_transport x = Some t"
      by (auto simp: sockets_ok_def dis_ok_def)
  next
    fix t tx'
    assume t: "r_heap w' t = Some tx'"
    then obtain tx where "r_heap w t = Some tx" using n by (metis not_Some_eq)
    with d [OF t] assms(1) show "distinct (t_disconnects tx')" by (auto simp: sockets_ok_def dis_ok_def)
  qed
  with assms(1) show ?thesis
    by (simp add: sockets_ok_def o assms(2) lists_ok_def assms(3-5))
qed

lemma map_of_filter_other: "k \<noteq> l \<Longrightarrow> map_of (filter (\<lambda>(j, _). j \<noteq> l) xs) k = map_of xs k"
  by (induction xs) auto

lemma free_listener_safe:
  assumes "adb_ok w" "l \<in> fst ` set (a_listeners w)"
  shows "\<exists>w'. free_listener l w = Inr w' \<and> keeps w w' \<and> a_sock w' = a_sock w
    \<and> fst ` set (a_listeners w') = fst ` set (a_listeners w) - {l}"
proof -
  obtain x where x: "map_of (a_listeners w) l = Some x"
    using assms(2) by (metis map_of_eq_None_iff not_None_eq)
  let ?ls = "filter (\<lambda>(k, _). k \<noteq> l) (a_listeners w)"
  let ?w0 = "w\<lparr>a_listeners := ?ls, a_closed := l_fd x # a_closed w\<rparr>"
  define w' where "w' = (case l_transport x of None \<Rightarrow> ?w0 | Some t \<Rightarrow> remove_transport_disconnect t (Dis_listener l) ?w0)"
  have only: "l_transport x = Some t" if "r_heap w t = Some tx" "Dis_listener l \<in> set (t_disconnects tx)" for t tx
  proof -
    have "tview w t = Some (t_state tx, filter is_listener (t_disconnects tx))" using that(1) by (simp add: tview_def)
    with that(2) assms(1) x show ?thesis by (fastforce simp: adb_ok_def listeners_ok_def)
  qed
  have dis: "map_option t_disconnects (r_heap w' t)
      = map_option (\<lambda>x. filter (\<lambda>d. d \<noteq> Dis_listener l) (t_disconnects x)) (r_heap w t)" for t
  proof (cases "r_heap w t")
    case None
    then show ?thesis by (simp add: w'_def remove_transport_disconnect_def split: option.split)
  next
    case (Some tx)
    have same: "filter (\<lambda>d. d \<noteq> Dis_listener l) (t_disconnects tx) = t_disconnects tx" if "l_transport x \<noteq> Some t"
      using only [OF Some] that by (intro filter_True) auto
    show ?thesis
      using Some same by (auto simp: w'_def remove_transport_disconnect_def split: option.split)
  qed
  have fields: "a_sock w' = a_sock w" "a_live w' = a_live w" "a_clsd w' = a_clsd w" "a_trackers w' = a_trackers w"
    "a_snext w' = a_snext w" "a_listeners w' = ?ls" "a_host w' = a_host w" "a_full w' = a_full w"
    by (auto simp: w'_def remove_transport_disconnect_def upd_transport_def split: option.split)
  have n: "r_heap w' t = None \<longleftrightarrow> r_heap w t = None" for t
    using dis [of t] by (cases "r_heap w t"; cases "r_heap w' t") auto
  have "sockets_ok {} w'"
    using assms(1) by (intro sockets_ok_listener [OF _ fields(1-5) dis]) (simp add: adb_ok_def)
  moreover have "listeners_ok w'"
    unfolding listeners_ok_def
  proof (intro conjI allI impI)
    show "distinct (map fst (a_listeners w'))"
      using assms(1) by (simp add: fields adb_ok_def listeners_ok_def distinct_map_filter)
    fix t st ds k
    assume v: "tview w' t = Some (st, ds)" "Dis_listener k \<in> set ds"
    then obtain z where z: "r_heap w' t = Some z" "ds = filter is_listener (t_disconnects z)" by (auto simp: tview_def)
    obtain z0 where z0: "r_heap w t = Some z0" using n z(1) by (metis not_Some_eq)
    have "t_disconnects z = filter (\<lambda>d. d \<noteq> Dis_listener l) (t_disconnects z0)" using dis [of t] z z0 by simp
    with v z have k: "k \<noteq> l" "Dis_listener k \<in> set (filter is_listener (t_disconnects z0))" by auto
    have "tview w t = Some (t_state z0, filter is_listener (t_disconnects z0))" using z0 by (simp add: tview_def)
    then obtain y where "map_of (a_listeners w) k = Some y" "l_transport y = Some t"
      using k(2) assms(1) unfolding adb_ok_def listeners_ok_def by blast
    then show "\<exists>y. map_of (a_listeners w') k = Some y \<and> l_transport y = Some t"
      using k(1) by (simp add: fields map_of_filter_other)
  qed
  ultimately have "keeps w w'" using n fields by (simp add: keeps_def adb_ok_def)
  moreover have "free_listener l w = Inr w'"
    by (simp add: free_listener_def get_listener_def x w'_def Let_def)
  ultimately show ?thesis using fields by (intro exI [of _ w']) force
qed

lemma run_disconnects_safe:
  assumes "adb_ok w" "distinct ds"
    and "\<And>s. Dis_socket s \<in> set ds \<Longrightarrow> \<exists>x. a_sock w s = Some x \<and> s_enqueue x = RS_enqueue"
    and "\<And>l. Dis_listener l \<in> set ds \<Longrightarrow> l \<in> fst ` set (a_listeners w)"
  shows "\<exists>w'. run_disconnects ds w = Inr w' \<and> keeps w w'"
  using assms
proof (induction ds arbitrary: w)
  case Nil
  then show ?case by (simp add: keeps_refl)
next
  case (Cons d ds)
  show ?case
  proof (cases d)
    case (Dis_socket s)
    have ok: "sockets_ok {} w" using Cons.prems(1) by (simp add: adb_ok_def)
    obtain x where x: "a_sock w s = Some x" "s_enqueue x = RS_enqueue" using Cons.prems(3) [of s] Dis_socket by auto
    obtain w1 q where w1: "remote_socket_disconnect s w = Inr w1" "sockets_ok {} w1" "steady w w1"
      "s_peer x = Some q" "\<forall>r. r \<noteq> s \<longrightarrow> r \<noteq> q \<longrightarrow> a_sock w1 r = a_sock w r"
      using remote_socket_disconnect_safe [OF ok x] by blast
    obtain y where y: "a_sock w q = Some y" "s_enqueue y = LS_enqueue" using peerE [OF ok x(1) w1(4)] x(2) by auto
    have k: "keeps w w1" by (rule steady_keeps [OF Cons.prems(1) w1(2,3)])
    have "\<exists>x. a_sock w1 r = Some x \<and> s_enqueue x = RS_enqueue" if r: "Dis_socket r \<in> set ds" for r
    proof -
      obtain z where z: "a_sock w r = Some z" "s_enqueue z = RS_enqueue" using Cons.prems(3) [of r] r by auto
      have "r \<noteq> s" using r Cons.prems(2) Dis_socket by auto
      moreover have "r \<noteq> q" using z y by auto
      ultimately show ?thesis using w1(5) z by simp
    qed
    moreover have "l \<in> fst ` set (a_listeners w1)" if "Dis_listener l \<in> set ds" for l
      using Cons.prems(4) [of l] that w1(3) by (simp add: steady_def)
    ultimately obtain w2 where "run_disconnects ds w1 = Inr w2" "keeps w1 w2"
      using Cons.IH [of w1] k Cons.prems(2) by (auto simp: keeps_def)
    with w1(1) Dis_socket keeps_trans [OF k] show ?thesis by auto
  next
    case (Dis_listener l)
    obtain w1 where w1: "free_listener l w = Inr w1" "keeps w w1" "a_sock w1 = a_sock w"
      "fst ` set (a_listeners w1) = fst ` set (a_listeners w) - {l}"
      using free_listener_safe [OF Cons.prems(1), of l] Cons.prems(4) [of l] Dis_listener by auto
    have "m \<in> fst ` set (a_listeners w1)" if "Dis_listener m \<in> set ds" for m
      using Cons.prems(2) Cons.prems(4) [of m] that Dis_listener unfolding w1(4) by auto
    moreover have "\<exists>x. a_sock w1 r = Some x \<and> s_enqueue x = RS_enqueue" if "Dis_socket r \<in> set ds" for r
      using Cons.prems(3) [of r] that w1(3) by simp
    ultimately obtain w2 where "run_disconnects ds w1 = Inr w2" "keeps w1 w2"
      using Cons.IH [of w1] w1(2) Cons.prems(2) by (auto simp: keeps_def)
    with w1 Dis_listener keeps_trans [OF w1(2)] show ?thesis by auto
  qed
qed

lemma adb_ok_upd:
  assumes "adb_ok w" "\<And>x. t_disconnects (g x) = t_disconnects x"
  shows "keeps w (upd_transport t g w)"
proof -
  have "tview (upd_transport t g w) u = Some (st, ds) \<Longrightarrow> \<exists>st. tview w u = Some (st, ds)" for u st ds
    using assms(2) by (auto simp: tview_def split: if_splits)
  moreover have "a_listeners (upd_transport t g w) = a_listeners w" "a_host (upd_transport t g w) = a_host w"
    by (simp_all add: upd_transport_def)
  ultimately have "listeners_ok (upd_transport t g w)"
    using assms(1) unfolding adb_ok_def listeners_ok_def by metis
  moreover have "sockets_ok {} (upd_transport t g w)"
    using assms by (intro sockets_ok_sent) (simp_all add: adb_ok_def)
  ultimately show ?thesis by (auto simp: keeps_def adb_ok_def) (simp_all add: upd_transport_def)
qed

lemma handle_offline_safe:
  assumes "adb_ok w" "r_heap w t \<noteq> None"
  shows "\<exists>w'. handle_offline t w = Inr w' \<and> keeps w w'"
proof -
  obtain tx where tx: "r_heap w t = Some tx" using assms(2) by blast
  have v: "tview w t = Some (t_state tx, filter is_listener (t_disconnects tx))" using tx by (simp add: tview_def)
  have "\<exists>w'. run_disconnects (t_disconnects tx) w = Inr w' \<and> keeps w w'"
  proof (rule run_disconnects_safe [OF assms(1)])
    show "distinct (t_disconnects tx)" using assms(1) tx by (auto simp: adb_ok_def sockets_ok_def dis_ok_def)
    show "\<exists>x. a_sock w s = Some x \<and> s_enqueue x = RS_enqueue" if "Dis_socket s \<in> set (t_disconnects tx)" for s
      using assms(1) tx that unfolding adb_ok_def sockets_ok_def dis_ok_def by blast
    show "l \<in> fst ` set (a_listeners w)" if l: "Dis_listener l \<in> set (t_disconnects tx)" for l
    proof -
      have "Dis_listener l \<in> set (filter is_listener (t_disconnects tx))" using l by simp
      then obtain y where "map_of (a_listeners w) l = Some y"
        using assms(1) v unfolding adb_ok_def listeners_ok_def by blast
      then show ?thesis by (metis domI dom_map_of_conv_image_fst)
    qed
  qed
  with tx show ?thesis by (simp add: handle_offline_def)
qed

subsection \<open>Trackers\<close>

lemma send_to_trackers_settles:
  assumes "adb_ok w" "distinct ss" "\<And>s. s \<in> set ss \<Longrightarrow> \<exists>x. a_sock w s = Some x \<and> s_enqueue x = DT_enqueue"
  shows "settles w (send_to_trackers msg ss w) (keeps w)"
  using assms
proof (induction ss arbitrary: w)
  case Nil
  then show ?case by (simp add: keeps_refl)
next
  case (Cons s ss)
  have ok: "sockets_ok {} w" using Cons.prems(1) by (simp add: adb_ok_def)
  obtain x where x: "a_sock w s = Some x" "s_enqueue x = DT_enqueue" using Cons.prems(3) [of s] by auto
  obtain q where q: "s_peer x = Some q" using sockets_okE(6) [OF ok x(1)] x(2) by auto
  obtain y where y: "a_sock w q = Some y" "s_enqueue y = LS_enqueue" "s_peer y = Some s"
    using peerE [OF ok x(1) q] x(2) by auto
  let ?p = "(get_apacket [])\<lparr>p_data := msg, p_len := length msg\<rparr>"
  have "settles w (send_to_trackers msg ss w1) (keeps w)" if e: "tame q w w1" for w1
  proof -
    have k: "keeps w w1" by (rule tame_keeps [OF Cons.prems(1) e])
    have "\<exists>x. a_sock w1 u = Some x \<and> s_enqueue x = DT_enqueue" if u: "u \<in> set ss" for u
    proof -
      obtain z where z: "a_sock w u = Some z" "s_enqueue z = DT_enqueue" using Cons.prems(3) [of u] u by auto
      have "u \<noteq> q" "u \<noteq> s" using z y u Cons.prems(2) by auto
      then have "a_sock w1 u = a_sock w u" using e y unfolding tame_def by auto
      with z show ?thesis by simp
    qed
    then have "settles w1 (send_to_trackers msg ss w1) (keeps w1)"
      using Cons.prems(2) by (intro Cons.IH keepsD(1) [OF k]) auto
    with k show ?thesis by (rule settles_keeps)
  qed
  then have "settles w (andthen (local_socket_enqueue q ?p w) (\<lambda>(r, w). send_to_trackers msg ss w)) (keeps w)"
    by (intro settles_bind [OF local_socket_enqueue_settles [OF ok y(1)]]) auto
  with x q y enqueue_local [OF y(1,2)] show ?case by (simp add: device_tracker_send_def get_sock_def)
qed

lemma adb_update_transports_settles:
  assumes "adb_ok w"
  shows "settles w (adb_update_transports w) (keeps w)"
  unfolding adb_update_transports_def
proof (rule send_to_trackers_settles [OF assms])
  have ok: "sockets_ok {} w" using assms by (simp add: adb_ok_def)
  show "distinct (a_trackers w)" using ok by (simp add: sockets_ok_def lists_ok_def)
  show "\<exists>x. a_sock w s = Some x \<and> s_enqueue x = DT_enqueue" if s: "s \<in> set (a_trackers w)" for s
  proof -
    have "a_sock w s \<noteq> None" using ok s by (simp add: sockets_ok_def lists_ok_def)
    then show ?thesis using sockets_okE(5) [OF ok, of s] s by blast
  qed
qed

subsection \<open>The protocol engine is safe\<close>

lemma send_connect_settles:
  assumes "adb_ok w" "r_heap w t \<noteq> None"
  shows "settles w (send_connect t w) (keeps w)"
  unfolding send_connect_def Let_def by (rule send_to_transport_settles [OF assms])

lemma parse_banner_settles:
  assumes "adb_ok w" "CHR 0x00 \<in> set data"
  shows "settles w (parse_banner data t w) (keeps w)"
proof -
  let ?w = "upd_transport t (\<lambda>x. x\<lparr>t_product := Some (banner_product (cstr data))\<rparr>) w"
  let ?v = "\<lambda>st. upd_transport t (\<lambda>x. x\<lparr>t_state := st\<rparr>) ?w"
  have k: "keeps w (?v st)" for st
  proof -
    have "keeps w ?w" by (rule adb_ok_upd [OF assms(1)]) simp
    moreover from this have "keeps ?w (?v st)" by (intro adb_ok_upd) (simp_all add: keeps_def)
    ultimately show ?thesis by (rule keeps_trans)
  qed
  have "settles w (adb_update_transports (?v st)) (keeps w)" for st
    by (rule settles_keeps [OF k adb_update_transports_settles [OF keepsD(1) [OF k]]])
  with k assms(2) show ?thesis by (simp add: parse_banner_def Let_def)
qed

lemma offline_safe:
  assumes "adb_ok w" "r_heap w t \<noteq> None"
  shows "\<exists>w'. handle_offline t (upd_transport t (\<lambda>x. x\<lparr>t_state := CS_OFFLINE\<rparr>) w) = Inr w' \<and> keeps w w'"
proof -
  let ?w = "upd_transport t (\<lambda>x. x\<lparr>t_state := CS_OFFLINE\<rparr>) w"
  have k: "keeps w ?w" by (rule adb_ok_upd [OF assms(1)]) simp
  then obtain w' where "handle_offline t ?w = Inr w'" "keeps ?w w'"
    using handle_offline_safe [of ?w t] assms(2) by (auto simp: keeps_def)
  with keeps_trans [OF k] show ?thesis by blast
qed

lemma offline_settles:
  assumes "adb_ok w" "r_heap w t \<noteq> None"
  shows "settles w (handle_offline t (upd_transport t (\<lambda>x. x\<lparr>t_state := CS_OFFLINE\<rparr>) w)) (keeps w)"
  using offline_safe [OF assms] by auto

lemma handle_sync_settles:
  assumes "adb_ok w" "r_heap w t \<noteq> None"
  shows "settles w (handle_sync p t w) (keeps w)"
proof (cases "arg0 (p_msg p) = 0")
  case True
  have "settles w (andthen (handle_offline t (upd_transport t (\<lambda>x. x\<lparr>t_state := CS_OFFLINE\<rparr>) w)) (send_packet p (Some t)))
      (keeps w)"
    by (rule settles_then [OF offline_settles [OF assms]])
      (rule send_to_transport_settles [OF keepsD(1) keepsD(2) [OF _ assms(2)]])
  with True show ?thesis by (simp add: handle_sync_def)
next
  case False
  have "settles w (andthen (send_packet p (Some t) w) (\<lambda>w. if a_host w then send_connect t w else Inr w)) (keeps w)"
    by (rule settles_then [OF send_to_transport_settles [OF assms]])
      (simp add: send_connect_settles [OF keepsD(1) keepsD(2) [OF _ assms(2)]] keeps_refl keepsD(1))
  with False show ?thesis by (simp add: handle_sync_def)
qed

lemma handle_cnxn_settles:
  assumes "adb_ok w" "r_heap w t \<noteq> None" "CHR 0x00 \<in> set (p_data p)"
  shows "settles w (handle_cnxn p t st w) (keeps w)"
  unfolding handle_cnxn_def
proof (intro settles_then)
  show "settles w (if st \<noteq> CS_OFFLINE
      then handle_offline t (upd_transport t (\<lambda>x. x\<lparr>t_state := CS_OFFLINE\<rparr>) w) else Inr w) (keeps w)"
    using offline_settles [OF assms(1,2)] keeps_refl [OF assms(1)] by simp
next
  fix v
  assume v: "keeps w v"
  show "settles v (parse_banner (p_data p) t v) (keeps v)"
    by (rule parse_banner_settles [OF keepsD(1) [OF v] assms(3)])
  show "settles u (if \<not> a_host u then send_connect t u else Inr u) (keeps u)" if u: "keeps v u" for u
    using send_connect_settles [OF keepsD(1) [OF u], of t] keepsD(2) [OF u] keepsD(2) [OF v assms(2)]
      keeps_refl [OF keepsD(1) [OF u]] by simp
qed

text \<open>
  C29: The protocol engine is safe against its peer: in a well-formed state, every packet that arrives on
  a transport, whatever its command, ids and payload, is handled without touching freed memory,
  dereferencing a null peer or taking the socket lock twice, and the state is well-formed again with
  the same transports. Two things are excluded. The banner of a CONNECT packet has to have a
  terminator; the code does not check it, and without one it reads past the buffer. And the server
  exits when the socket pair of a transport is full and cannot take a packet that has to be sent; this
  is the only way in which it stops.
\<close>

theorem handle_packet_safe:
  assumes "adb_ok w" "r_heap w t \<noteq> None" "command (p_msg p) = A_CNXN \<longrightarrow> CHR 0x00 \<in> set (p_data p)"
  shows "case handle_packet p t w of
      Inl e \<Rightarrow> e = enqueue_failed \<and> (\<exists>u n. a_full w u n)
    | Inr w' \<Rightarrow> adb_ok w' \<and> (\<forall>u. r_heap w' u = None \<longleftrightarrow> r_heap w u = None)"
proof -
  obtain tx where tx: "r_heap w t = Some tx" using assms(2) by blast
  have "settles w (handle_packet p t w) (keeps w)"
    unfolding handle_packet_def tx option.case Let_def
    using handle_sync_settles [OF assms(1,2)] handle_cnxn_settles [OF assms(1,2)] assms(3)
      handle_open_settles [OF assms(1,2)] handle_okay_settles [OF assms(1,2)] handle_clse_settles [OF assms(1)]
      handle_wrte_settles [OF assms(1,2)] keeps_refl [OF assms(1)]
    by simp
  then show ?thesis unfolding settles_def keeps_def by (simp split: sum.splits)
qed

definition packet :: "u32 \<Rightarrow> u32 \<Rightarrow> u32 \<Rightarrow> string \<Rightarrow> apacket" where
  "packet cmd a b data = \<lparr>p_len = 0, p_ptr = 0, p_msg = zero_msg\<lparr>command := cmd, arg0 := a, arg1 := b,
     data_length := of_nat (length data)\<rparr>, p_data = data\<rparr>"

lemma sample_adb_adb_ok: "adb_ok sample_adb" "r_heap sample_adb 1 \<noteq> None"
proof -
  have "Dis_listener l \<notin> set ds" if "tview sample_adb t = Some (st, ds)" for t st ds l
    using that by (auto simp: tview_def sample_adb_def registry.defs sample_registry_def new_transport_def split: if_splits)
  moreover have "distinct (map fst (a_listeners sample_adb))" by (simp add: sample_adb_def registry.defs)
  ultimately have "listeners_ok sample_adb" unfolding listeners_ok_def by blast
  then show "adb_ok sample_adb" by (simp add: adb_ok_def sample_adb_ok)
  show "r_heap sample_adb 1 \<noteq> None" by (simp add: sample_adb_def registry.defs sample_registry_def)
qed

theorem handle_packet_safe_witness:
  "\<exists>w'. handle_packet (packet A_OPEN 9 0 (''tcp:80'' @ [CHR 0x00])) 1 sample_adb = Inr w' \<and> adb_ok w'"
proof -
  have "command (p_msg (packet A_OPEN 9 0 (''tcp:80'' @ [CHR 0x00]))) = A_CNXN \<longrightarrow>
      CHR 0x00 \<in> set (p_data (packet A_OPEN 9 0 (''tcp:80'' @ [CHR 0x00])))"
    by (simp add: packet_def)
  moreover have "\<not> a_full sample_adb u n" for u n by (simp add: sample_adb_def registry.defs)
  ultimately show ?thesis
    using handle_packet_safe [OF sample_adb_adb_ok, of "packet A_OPEN 9 0 (''tcp:80'' @ [CHR 0x00])"]
    by (auto split: sum.splits)
qed

subsection \<open>Flow control\<close>

definition sent_to :: "nat \<Rightarrow> adb \<Rightarrow> apacket list" where
  "sent_to t w = (case r_heap w t of None \<Rightarrow> [] | Some x \<Rightarrow> t_sent x)"

text \<open>
  C33: Flow control of WRTE packets: whatever part of the data the descriptor takes at once, the payload
  is appended, whole and in order, to the bytes written and queued for the local socket; it is
  acknowledged with one OKAY packet, with the ids of both ends, exactly when all of it has been
  written, and while the socket has a backlog nothing is sent, so the other side has to wait. The data
  is taken although the last packet may not have been acknowledged; the socket is not closed for it.
  The descriptor does not fail, and the transport can take the OKAY packet.
\<close>

theorem wrte_flow_control:
  assumes "r_heap w t = Some tx" "t_state tx \<noteq> CS_OFFLINE" "command (p_msg p) = A_WRTE"
    and "find_local_socket (arg1 (p_msg p)) w = Some s" "a_sock w s = Some x" "s_enqueue x = LS_enqueue"
    and "list_all packet_ok (s_pkts x)" "unat (data_length (p_msg p)) \<le> length (p_data p)"
    and "s_pkts x \<noteq> [] \<or> fst (write_pending False (p\<lparr>p_len := unat (data_length (p_msg p)), p_ptr := 0\<rparr>)
            (a_fds w (s_fd x))) \<noteq> W_error"
    and "\<not> a_full w t (length (t_sent tx))"
  shows "\<exists>w' x'. handle_packet p t w = Inr w' \<and> a_sock w' s = Some x' \<and> s_fd x' = s_fd x
    \<and> sock_stream w' x' = sock_stream w x @ take (unat (data_length (p_msg p))) (p_data p)
    \<and> sent_to t w' = t_sent tx @ (if s_pkts x' = []
        then [seal_packet (command_packet A_OKAY (s_id x) (arg0 (p_msg p)))] else [])"
proof -
  let ?p = "p\<lparr>p_len := unat (data_length (p_msg p))\<rparr>"
  have h: "handle_packet p t w = handle_wrte p t w"
    using assms(1-3) by (simp add: handle_packet_def commands)
  have pok: "packet_ok (?p\<lparr>p_ptr := 0\<rparr>)" "remaining (?p\<lparr>p_ptr := 0\<rparr>) = take (unat (data_length (p_msg p))) (p_data p)"
    using assms(8) by (simp_all add: packet_ok_def remaining_def)
  show ?thesis
  proof (cases "s_pkts x = []")
    case True
    obtain r q f where wp: "write_pending False (?p\<lparr>p_ptr := 0\<rparr>) (a_fds w (s_fd x)) = (r, q, f)"
      by (cases "write_pending False (?p\<lparr>p_ptr := 0\<rparr>) (a_fds w (s_fd x))")
    note st = write_pending_stream [OF pok(1) wp]
    from wp assms(9) True consider "r = W_all" | "r = W_block" by (cases r) auto
    then show ?thesis
    proof cases
      case 1
      with assms wp True enqueue_local [OF assms(5,6), of ?p] st pok(2) show ?thesis
        by (auto simp: h handle_wrte_def local_socket_enqueue_def get_sock_def send_ready_def
            send_packet_def sent_to_def sock_stream_def)
    next
      case 2
      let ?x = "x\<lparr>s_pkts := [q], s_want_write := True\<rparr>"
      have "handle_packet p t w = Inr (put_sock s ?x (put_fd (s_fd x) f w))"
        using 2 assms wp True enqueue_local [OF assms(5,6), of ?p]
        by (simp add: h handle_wrte_def local_socket_enqueue_def get_sock_def set_sock_def)
      with assms(1) st pok(2) True show ?thesis
        by (intro exI [of _ "put_sock s ?x (put_fd (s_fd x) f w)"] exI [of _ ?x]) (simp add: sent_to_def sock_stream_def)
    qed
  next
    case False
    with assms enqueue_local [OF assms(5,6), of ?p] pok(2) show ?thesis
      by (simp add: h handle_wrte_def local_socket_enqueue_def get_sock_def set_sock_def sent_to_def sock_stream_def)
  qed
qed

subsection \<open>Requests in pieces\<close>

definition join_packets :: "apacket \<Rightarrow> apacket \<Rightarrow> apacket" where
  "join_packets p q = p\<lparr>p_data := take (p_len p) (p_data p) @ take (p_len q) (p_data q)
     @ drop (p_len p + p_len q) (p_data p), p_len := p_len p + p_len q\<rparr>"

text \<open>A request is incomplete while its length or a part of its text is missing.\<close>

definition incomplete :: "apacket \<Rightarrow> bool" where
  "incomplete p \<longleftrightarrow> p_len p < 4 \<or>
     (let len = unhex (take 4 (p_data p)) 0 in 1 \<le> len \<and> len \<le> 1024 \<and> p_len p < unat len + 4)"

text \<open>
  C35: A request to the smart socket may arrive in any pieces: an incomplete piece is kept and more data
  is awaited, and with the next piece the socket behaves exactly as if both had arrived at once, as
  long as they fit a packet.
\<close>

theorem smart_request_reassembled:
  assumes "a_sock w s = Some x" "s_pkts x = []" "incomplete p" "p_len p + p_len q \<le> MAX_PAYLOAD"
  shows "\<exists>w'. smart_socket_enqueue enq s p w = Inr (0, w')
    \<and> smart_socket_enqueue enq s q w' = smart_socket_enqueue enq s (join_packets p q) w"
proof -
  let ?w = "put_sock s (x\<lparr>s_pkts := [p]\<rparr>) w"
  have "smart_socket_enqueue enq s p w = Inr (0, ?w)"
    using assms(1-3)
    by (auto simp: smart_socket_enqueue_def get_sock_def set_sock_def incomplete_def Let_def not_less)
  moreover have "smart_socket_enqueue enq s q ?w = smart_socket_enqueue enq s (join_packets p q) w"
    using assms(1,2,4)
    by (simp add: smart_socket_enqueue_def get_sock_def set_sock_def join_packets_def Let_def)
  ultimately show ?thesis by blast
qed

lemma sample_local:
  obtains w x where "create_local_socket 7 sample_adb = Inr (1, w)" "a_sock w 1 = Some x" "s_enqueue x = LS_enqueue"
    "s_id x = 1" "s_fd x = 7" "s_pkts x = []" "find_local_socket 1 w = Some 1"
    "a_fds w 7 = \<lparr>fd_in = [], fd_wr = [], fd_out = []\<rparr>" "\<exists>tx. r_heap w 1 = Some tx \<and> t_state tx \<noteq> CS_OFFLINE"
    "a_full w = (\<lambda>_ _. False)"
proof -
  show ?thesis
    by (rule that [of "(put_sock 1 (zero_socket\<lparr>s_id := 1, s_fd := 7\<rparr>) sample_adb)
          \<lparr>a_snext := 2, a_next_id := 2, a_live := [1]\<rparr>" "zero_socket\<lparr>s_id := 1, s_fd := 7\<rparr>"])
      (simp_all add: create_local_socket_eq sample_adb_def registry.defs sample_registry_def zero_socket_def
        find_local_socket_def numeral_2_eq_2 new_transport_def)
qed

theorem wrte_flow_control_witness:
  "\<exists>w w' x'. create_local_socket 7 sample_adb = Inr (1, w)
    \<and> handle_packet (packet A_WRTE 9 1 ''data'') 1 w = Inr w' \<and> a_sock w' 1 = Some x' \<and> sock_stream w' x' = ''data''
    \<and> length (sent_to 1 w') = length (sent_to 1 w) + (if s_pkts x' = [] then 1 else 0)"
proof -
  let ?p = "packet A_WRTE 9 1 ''data''"
  obtain w x where w: "create_local_socket 7 sample_adb = Inr (1, w)" "a_sock w 1 = Some x" "s_enqueue x = LS_enqueue"
    "s_fd x = 7" "s_pkts x = []" "find_local_socket 1 w = Some 1" "a_fds w 7 = \<lparr>fd_in = [], fd_wr = [], fd_out = []\<rparr>"
    "\<exists>tx. r_heap w 1 = Some tx \<and> t_state tx \<noteq> CS_OFFLINE" "a_full w = (\<lambda>_ _. False)"
    by (rule sample_local)
  obtain tx where tx: "r_heap w 1 = Some tx" "t_state tx \<noteq> CS_OFFLINE" using w(8) by blast
  have e: "fst (write_pending False (?p\<lparr>p_len := unat (data_length (p_msg ?p)), p_ptr := 0\<rparr>)
      \<lparr>fd_in = [], fd_wr = [], fd_out = []\<rparr>) \<noteq> W_error" by code_simp
  have "\<exists>w' x'. handle_packet ?p 1 w = Inr w' \<and> a_sock w' 1 = Some x' \<and> s_fd x' = s_fd x
    \<and> sock_stream w' x' = sock_stream w x @ take (unat (data_length (p_msg ?p))) (p_data ?p)
    \<and> sent_to 1 w' = t_sent tx @ (if s_pkts x' = []
        then [seal_packet (command_packet A_OKAY (s_id x) (arg0 (p_msg ?p)))] else [])"
    by (rule wrte_flow_control [OF tx _ _ w(2,3)])
      (use w(4-7,9) e in \<open>simp_all add: packet_def\<close>)
  moreover have "sock_stream w x = []" using w by (simp add: sock_stream_def)
  moreover have "take (unat (data_length (p_msg ?p))) (p_data ?p) = ''data''" by (simp add: packet_def)
  ultimately show ?thesis using w(1) tx(1) by (fastforce simp: sent_to_def)
qed

theorem smart_request_reassembled_witness:
  "\<exists>w w'. create_smart_socket sample_adb = (1, w)
    \<and> smart_socket_enqueue enqueue 1 (sample_data ''000chost:'') w = Inr (0, w')
    \<and> smart_socket_enqueue enqueue 1 (sample_data ''version'') w'
      = smart_socket_enqueue enqueue 1 (join_packets (sample_data ''000chost:'') (sample_data ''version'')) w"
proof -
  obtain w x where w: "create_smart_socket sample_adb = (1, w)" "a_sock w 1 = Some x" "s_pkts x = []"
    by (simp add: create_smart_socket_def calloc_socket_def sample_adb_def registry.defs zero_socket_def)
  have "incomplete (sample_data ''000chost:'')" by code_simp
  from smart_request_reassembled [OF w(2,3) this, of "sample_data ''version''" enqueue] w(1)
  show ?thesis by (auto simp: sample_data_def)
qed

subsection \<open>A socket used after it was freed\<close>

lemma shut_empty_frees: "s_enqueue x = LS_enqueue \<Longrightarrow> s_pkts x = [] \<Longrightarrow> a_sock (shut pid s x w) s = None"
  by (simp add: shut_def shut_local_def Let_def)

text \<open>
  C36: When two local sockets are peers (a client and a service of the server) and writing to the
  descriptor of the second one fails, \<open>enqueue\<close> closes both sockets and still returns 1; the event
  function of the first then changes its event mask although it is freed.
\<close>

theorem event_uses_freed_socket:
  assumes "sockets_ok {} w" "a_sock w s = Some x" "s_peer x = Some q" "a_sock w q = Some y"
    and "s_enqueue x = LS_enqueue" "s_enqueue y = LS_enqueue" "s_pkts x = []" "s_pkts y = []" "s_fd x \<noteq> s_fd y"
    and "read_avail MAX_PAYLOAD (a_fds w (s_fd x)) = (bs, eof, f)" "bs \<noteq> []"
    and "fst (write_pending False (sample_data bs) (a_fds w (s_fd y))) = W_error"
  shows "local_socket_event_func True False s w = Inl Dangling"
proof -
  let ?p = "(get_apacket [])\<lparr>p_data := bs, p_len := length bs\<rparr>" and ?w = "put_fd (s_fd x) f w"
  have p: "?p\<lparr>p_ptr := 0\<rparr> = sample_data bs" by (simp add: sample_data_def get_apacket_def)
  obtain r f' where wp: "write_pending False (sample_data bs) (a_fds w (s_fd y)) = (W_error, r, f')"
    using assms(12) by (cases "write_pending False (sample_data bs) (a_fds w (s_fd y))") auto
  let ?v = "put_fd (s_fd y) f' ?w"
  have ok: "sockets_ok {} ?v" using assms(1) by (intro wf_intro)
  have sq: "s_peer y = Some s" using peerE [OF assms(1-3)] assms(4) by auto
  have five: "(5::nat) = Suc (Suc (Suc (Suc (Suc 0))))" by simp
  have ns: "\<not> stuck v x" "\<not> stuck v y" for v using assms(5,6) by (simp_all add: stuck_def)
  have c: "close_sock q ?v = Inr (shut_pair (s_id x) q y s x ?v)"
    using sock_close_pair [OF ok, of q y s x 0] assms(2,4) sq unfolding close_sock_def five by (simp only: ns) simp
  have qs: "s \<noteq> q" using peerE [OF assms(1-3)] by auto
  have "a_sock (shut_pair (s_id x) q y s x ?v) s = None"
    unfolding shut_pair_def using qs assms(5,7) shut_empty_frees [of "x\<lparr>s_peer := None\<rparr>"] by simp
  moreover have "enqueue q ?p ?w = Inr (1, shut_pair (s_id x) q y s x ?v)"
    using assms(4,6,8,9) wp c p
    by (subst enqueue_local [of _ _ y]) (simp_all add: local_socket_enqueue_def get_sock_def)
  ultimately show ?thesis
    using assms(2,3,10,11)
    by (simp add: local_socket_event_func_def event_read_def get_sock_def set_sock_def)
qed

text \<open>A client (address 1) connected to a service (address 2) whose descriptor is broken.\<close>

definition sample_pair :: adb where
  "sample_pair = sample_adb\<lparr>
     a_sock := [1 \<mapsto> zero_socket\<lparr>s_id := 1, s_fd := 7, s_peer := Some 2\<rparr>,
                2 \<mapsto> zero_socket\<lparr>s_id := 2, s_fd := 8, s_peer := Some 1\<rparr>],
     a_snext := 3, a_live := [1, 2], a_next_id := 3,
     a_fds := (\<lambda>fd. if fd = 7 then \<lparr>fd_in = [Inr ''x'', Inl EAGAIN], fd_wr = [], fd_out = []\<rparr>
                    else \<lparr>fd_in = [], fd_wr = [Inl EIO], fd_out = []\<rparr>)\<rparr>"

lemma sample_pair_ok: "sockets_ok {} sample_pair"
proof -
  have "lists_ok sample_pair" by (simp add: lists_ok_def sample_pair_def sample_adb_def registry.defs)
  moreover have "dis_ok sample_pair"
    by (auto simp: dis_ok_def sample_pair_def sample_adb_def registry.defs sample_registry_def new_transport_def
        split: if_splits)
  moreover have "sock_ok {} sample_pair s x" if "a_sock sample_pair s = Some x" for s x
    using that
    by (auto simp: sock_ok_def kind_ok_def peer_ok_def sample_pair_def sample_adb_def registry.defs zero_socket_def
        split: if_splits)
  ultimately show ?thesis by (simp add: sockets_ok_def)
qed

theorem event_uses_freed_socket_witness:
  "local_socket_event_func True False 1 sample_pair = Inl Dangling"
proof -
  have r: "read_avail MAX_PAYLOAD \<lparr>fd_in = [Inr ''x'', Inl EAGAIN], fd_wr = [], fd_out = []\<rparr>
      = (''x'', False, \<lparr>fd_in = [], fd_wr = [], fd_out = []\<rparr>)"
    by (subst read_avail.simps, simp add: sys_read_def, subst read_avail.simps, simp add: sys_read_def)
  have "fst (write_pending False (sample_data ''x'') \<lparr>fd_in = [], fd_wr = [Inl EIO], fd_out = []\<rparr>) = W_error"
    by code_simp
  then show ?thesis
    by (intro event_uses_freed_socket [OF sample_pair_ok _ _ _ _ _ _ _ _ _ _ _,
          of 1 "zero_socket\<lparr>s_id := 1, s_fd := 7, s_peer := Some 2\<rparr>" 2
            "zero_socket\<lparr>s_id := 2, s_fd := 8, s_peer := Some 1\<rparr>" "''x''" False])
      (use r in \<open>simp_all add: sample_pair_def sample_adb_def registry.defs zero_socket_def\<close>)
qed

subsection \<open>A closing socket empties its queue\<close>

lemma write_pending_all:
  assumes "packet_ok p" "list_all write_ok (fd_wr f)"
  shows "\<exists>q f'. write_pending True p f = (W_all, q, f') \<and> list_all write_ok (fd_wr f')"
  using assms
proof (induction "True" p f rule: write_pending.induct)
  case (1 p f)
  obtain k f1 where w: "sys_write (remaining p) f = (k, f1)" by fastforce
  have ok: "list_all write_ok (fd_wr f1)" "p_len p \<noteq> 0 \<Longrightarrow> write_ok k"
    using w 1(4) "1.prems"(1)
    by (auto simp: sys_write_def remaining_def packet_ok_def split: list.splits sum.splits)
  show ?case
  proof (cases "p_len p = 0")
    case True
    with 1(4) show ?thesis by (simp add: write_pending.simps [of True p f])
  next
    case ne: False
    show ?thesis
    proof (cases k)
      case (Inl e)
      then have "e = EINTR" using ok(2) [OF ne] by simp
      with 1(1) [OF ne w [symmetric] Inl] ok "1.prems" Inl ne w show ?thesis
        by (simp add: write_pending.simps [of True p f])
    next
      case (Inr n)
      have n: "0 < n" "n \<le> p_len p" using ok(2) [OF ne] Inr sys_write_stream [OF w] by (auto simp: remaining_def)
      have "packet_ok (p\<lparr>p_ptr := p_ptr p + n, p_len := p_len p - n\<rparr>)"
        using "1.prems"(1) n by (simp add: packet_ok_def)
      with 1(2) [OF ne w [symmetric] Inr n(1)] ok(1) Inr ne w n show ?thesis
        by (simp add: write_pending.simps [of True p f])
    qed
  qed
qed

lemma drain_all:
  "list_all packet_ok ps \<Longrightarrow> list_all write_ok (fd_wr f) \<Longrightarrow>
   \<exists>f'. drain ps f = (W_all, [], f') \<and> fd_out f' = fd_out f @ concat (map remaining ps)"
proof (induction ps arbitrary: f)
  case (Cons p ps)
  obtain q f1 where w: "write_pending True p f = (W_all, q, f1)" "list_all write_ok (fd_wr f1)"
    using write_pending_all [of p f] Cons.prems by auto
  have "fd_out f1 = fd_out f @ remaining p" using write_pending_stream [OF _ w(1)] Cons.prems(1) by auto
  with Cons.IH [OF _ w(2)] Cons.prems(1) w(1) show ?case by auto
qed simp

text \<open>
  C34: A closing socket comes to an end: once its descriptor accepts data, the next writable event writes
  everything that was queued, in order, and destroys the socket.
\<close>

theorem closing_socket_drains:
  assumes "sockets_ok {} w" "a_sock w s = Some x" "s_enqueue x = LS_enqueue" "s_closing x" "s_close x = LS_close"
    and "list_all packet_ok (s_pkts x)" "list_all write_ok (fd_wr (a_fds w (s_fd x)))"
  shows "\<exists>w'. local_socket_event_func ev_read True s w = Inr w' \<and> a_sock w' s = None \<and> sockets_ok {} w'
    \<and> fd_out (a_fds w' (s_fd x)) = fd_out (a_fds w (s_fd x)) @ concat (map remaining (s_pkts x))"
proof -
  obtain f where d: "drain (s_pkts x) (a_fds w (s_fd x)) = (W_all, [], f)"
    "fd_out f = fd_out (a_fds w (s_fd x)) @ concat (map remaining (s_pkts x))"
    using drain_all [OF assms(6,7)] by blast
  let ?x = "x\<lparr>s_pkts := []\<rparr>"
  let ?w = "put_sock s ?x (put_fd (s_fd x) f w)"
  have ok: "sockets_ok {} ?w" using assms(1,2) by (intro sockets_ok_put [of _ _ _ x] wf_intro) simp_all
  have px: "s_peer x = None" using sockets_okE(2) [OF assms(1,2)] assms(3,4) by (simp add: kind_ok_simps)
  have cl: "close_sock s ?w = Inr (shut 0 s ?x ?w)"
    unfolding close_sock_def using sock_close_solo [of ?w s ?x False 2] sockets_okE(2) [OF ok, of s ?x] px assms(3)
    by (simp add: numeral_eq_Suc del: sock_close.simps)
  have "sockets_ok {} (shut 0 s ?x ?w)"
    using sockets_ok_shut [OF ok, of s ?x 0] px by simp
  moreover have "a_sock (shut 0 s ?x ?w) s = None" using assms(3) by (simp add: shut_empty_frees)
  moreover have "a_fds (shut 0 s ?x ?w) (s_fd x) = f"
    using assms(3-5) by (simp add: shut_def shut_local_def)
  moreover have "local_socket_event_func ev_read True s w = Inr (shut 0 s ?x ?w)"
    using assms(2,4) d(1) cl by (simp add: local_socket_event_func_def event_write_def get_sock_def set_sock_def)
  ultimately show ?thesis using d(2) by simp
qed

definition sample_closing :: adb where
  "sample_closing = sample_adb\<lparr>
     a_sock := [1 \<mapsto> zero_socket\<lparr>s_fd := 7, s_closing := True, s_pkts := [sample_data ''ab'', sample_data ''c'']\<rparr>],
     a_snext := 2, a_clsd := [1]\<rparr>"

lemma sample_closing_ok: "sockets_ok {} sample_closing"
proof -
  have "lists_ok sample_closing" by (simp add: lists_ok_def sample_closing_def sample_adb_def registry.defs)
  moreover have "dis_ok sample_closing"
    by (auto simp: dis_ok_def sample_closing_def sample_adb_def registry.defs sample_registry_def new_transport_def
        split: if_splits)
  moreover have "sock_ok {} sample_closing s x" if "a_sock sample_closing s = Some x" for s x
    using that
    by (auto simp: sock_ok_def kind_ok_def peer_ok_def sample_closing_def sample_adb_def registry.defs zero_socket_def
        split: if_splits)
  ultimately show ?thesis by (simp add: sockets_ok_def)
qed

theorem closing_socket_drains_witness:
  "\<exists>w'. local_socket_event_func False True 1 sample_closing = Inr w' \<and> a_sock w' 1 = None
    \<and> fd_out (a_fds w' 7) = ''abc''"
proof -
  let ?x = "zero_socket\<lparr>s_fd := 7, s_closing := True, s_pkts := [sample_data ''ab'', sample_data ''c'']\<rparr>"
  have "\<exists>w'. local_socket_event_func False True 1 sample_closing = Inr w' \<and> a_sock w' 1 = None \<and> sockets_ok {} w'
    \<and> fd_out (a_fds w' (s_fd ?x)) = fd_out (a_fds sample_closing (s_fd ?x)) @ concat (map remaining (s_pkts ?x))"
    by (rule closing_socket_drains [OF sample_closing_ok])
      (simp_all add: sample_closing_def sample_adb_def registry.defs zero_socket_def sample_data_def get_apacket_def
        packet_ok_def)
  moreover have "fd_out (a_fds sample_closing 7) @ concat (map remaining (s_pkts ?x)) = ''abc''" "s_fd ?x = 7"
    by (simp_all add: sample_closing_def sample_adb_def registry.defs remaining_def sample_data_def get_apacket_def)
  ultimately show ?thesis by metis
qed

end
