(* ===== verification/Bip.thy ===== *)
theory Bip
  imports Prelude
begin

text \<open>
  Socket pairs of the Windows build (src/tools/adb/sysdeps_win32.c): two circular buffers, one for each
  direction, behind a table of descriptors. A buffer consists of a region A, from \<open>a_start\<close> to
  \<open>a_end\<close>, and a region B, from 0 to \<open>b_end\<close>, that is used once A has reached the end. A call that has
  to wait for its event is reported as blocked and leaves the buffer as it is; a failed assertion is a
  result of its own. The buffer is shown to be a bounded queue of bytes.
\<close>

subsection \<open>The buffer\<close>

abbreviation BIP_BUFFER_SIZE :: nat where "BIP_BUFFER_SIZE \<equiv> 4096"

record bip =
  bp_a_start :: nat
  bp_a_end :: nat
  bp_b_end :: nat
  bp_fdin :: int
  bp_fdout :: int
  bp_closed :: bool
  bp_can_write :: bool
  bp_evt_write :: bool
  bp_can_read :: bool
  bp_evt_read :: bool
  bp_buff :: "byte list"

text \<open>
  How a call ends: it returns a value, it waits, it returns -1 with \<open>errno\<close>, it stops the process through
  \<open>fatal\<close>, or it follows a bad pointer.
\<close>

datatype werrno = E_unset | EPIPE | EBADF | EIO | EINVAL | ENOMEM | ENOENT | ENOTDIR | ESPIPE | EAGAIN | EINTR | E_zero

datatype 'a io = Done 'a | Blocked | Err werrno | Fatal | Crash

text \<open>The memory of a new buffer has any contents.\<close>

definition bip_buffer_init :: "(nat \<Rightarrow> byte) \<Rightarrow> bip" where
  "bip_buffer_init junk = \<lparr>bp_a_start = 0, bp_a_end = 0, bp_b_end = 0, bp_fdin = 0, bp_fdout = 0, bp_closed = False,
     bp_can_write = True, bp_evt_write = True, bp_can_read = False, bp_evt_read = False, bp_buff = map junk [0..<BIP_BUFFER_SIZE]\<rparr>"

definition bip_buffer_close :: "bip \<Rightarrow> bip" where
  "bip_buffer_close b =
     (let b = b\<lparr>bp_closed := True\<rparr>;
          b = (if \<not> bp_can_read b then b\<lparr>bp_evt_read := True\<rparr> else b)
      in if \<not> bp_can_write b then b\<lparr>bp_evt_write := True\<rparr> else b)"

definition copy_to :: "nat \<Rightarrow> byte list \<Rightarrow> byte list \<Rightarrow> byte list" where
  "copy_to off src buf = take off buf @ src @ drop (off + length src) buf"

definition write_exit :: "nat \<Rightarrow> bip \<Rightarrow> nat io \<times> bip" where
  "write_exit count b =
     (if count = 0 then (Fatal, b)
      else (Done count, if \<not> bp_can_read b then b\<lparr>bp_can_read := True, bp_evt_read := True\<rparr> else b))"

definition bip_buffer_write :: "byte list \<Rightarrow> bip \<Rightarrow> nat io \<times> bip" where
  "bip_buffer_write src b =
     (if src = [] then (Done 0, b)
      else if \<not> bp_can_write b then (if bp_closed b then Err EPIPE else Blocked, b)
      else
        let avail = min (BIP_BUFFER_SIZE - bp_a_end b) (length src);
            b' = b\<lparr>bp_buff := copy_to (bp_a_end b) (take avail src) (bp_buff b), bp_a_end := bp_a_end b + avail\<rparr>;
            rest = drop avail src
        in if 0 < avail \<and> bp_a_end b' = BIP_BUFFER_SIZE \<and> bp_a_start b' = 0
           then write_exit avail (b'\<lparr>bp_can_write := False, bp_evt_write := False\<rparr>)
           else if rest = [] then write_exit avail b'
           else if bp_a_start b' \<le> bp_b_end b' then (Fatal, b')
           else
             let avail2 = min (bp_a_start b' - bp_b_end b') (length rest);
                 b'' = b'\<lparr>bp_buff := copy_to (bp_b_end b') (take avail2 rest) (bp_buff b'), bp_b_end := bp_b_end b' + avail2\<rparr>;
                 b'' = (if bp_b_end b'' = bp_a_start b''
                        then b''\<lparr>bp_can_write := False, bp_evt_write := False\<rparr> else b'')
             in write_exit (avail + avail2) b'')"

definition read_exit :: "byte list \<Rightarrow> bip \<Rightarrow> byte list io \<times> bip" where
  "read_exit dst b =
     (if dst = [] then (Fatal, b)
      else (Done dst, if \<not> bp_can_write b then b\<lparr>bp_can_write := True, bp_evt_write := True\<rparr> else b))"

definition bip_buffer_read :: "nat \<Rightarrow> bip \<Rightarrow> byte list io \<times> bip" where
  "bip_buffer_read len b =
     (if len = 0 then (Done [], b)
      else if \<not> bp_can_read b then (if bp_closed b then Err EPIPE else Blocked, b)
      else if bp_a_end b \<le> bp_a_start b then (Fatal, b)
      else
        let avail = min (bp_a_end b - bp_a_start b) len;
            dst = take avail (drop (bp_a_start b) (bp_buff b));
            b = b\<lparr>bp_a_start := bp_a_start b + avail\<rparr>
        in if bp_a_start b < bp_a_end b then read_exit dst b
           else
             let b = b\<lparr>bp_a_start := 0, bp_a_end := bp_b_end b, bp_b_end := 0\<rparr>;
                 avail2 = min (bp_a_end b) (len - avail);
                 dst = dst @ take avail2 (bp_buff b);
                 b = b\<lparr>bp_a_start := avail2\<rparr>
             in if bp_a_start b < bp_a_end b then read_exit dst b
                else read_exit dst (b\<lparr>bp_a_start := 0, bp_a_end := 0, bp_can_read := False, bp_evt_read := False\<rparr>))"

text \<open>
  How a call that was blocked goes on when its wait for the event ends. If \<open>WaitForSingleObject\<close> fails,
  the call returns 0; otherwise it gives up when the buffer was closed meanwhile, and looks at the
  buffer again.
\<close>

definition bip_write_woken :: "bool \<Rightarrow> byte list \<Rightarrow> bip \<Rightarrow> nat io \<times> bip" where
  "bip_write_woken waited src b =
     (if \<not> waited then (Done 0, b)
      else if bp_closed b then (Err EPIPE, b)
      else bip_buffer_write src b)"

definition bip_read_woken :: "bool \<Rightarrow> nat \<Rightarrow> bip \<Rightarrow> byte list io \<times> bip" where
  "bip_read_woken waited len b =
     (if \<not> waited then (Done [], b)
      else if bp_closed b then (Err EPIPE, b)
      else bip_buffer_read len b)"

subsection \<open>The buffer is a queue\<close>

definition bip_ok :: "bip \<Rightarrow> bool" where
  "bip_ok b \<longleftrightarrow> length (bp_buff b) = BIP_BUFFER_SIZE \<and> bp_a_start b \<le> bp_a_end b \<and> bp_a_end b \<le> BIP_BUFFER_SIZE
     \<and> bp_b_end b \<le> bp_a_start b \<and> (0 < bp_b_end b \<longrightarrow> bp_a_end b = BIP_BUFFER_SIZE)
     \<and> (bp_a_start b = bp_a_end b \<longrightarrow> bp_a_end b = 0)
     \<and> (bp_can_read b \<longleftrightarrow> bp_a_start b < bp_a_end b)
     \<and> (bp_can_write b \<longleftrightarrow> bp_a_end b < BIP_BUFFER_SIZE \<or> bp_b_end b < bp_a_start b)
     \<and> (\<not> bp_closed b \<longrightarrow> bp_evt_read b = bp_can_read b \<and> bp_evt_write b = bp_can_write b)"

definition contents :: "bip \<Rightarrow> byte list" where
  "contents b = take (bp_a_end b - bp_a_start b) (drop (bp_a_start b) (bp_buff b)) @ take (bp_b_end b) (bp_buff b)"

lemma bip_okI:
  assumes "length (bp_buff b) = BIP_BUFFER_SIZE" "bp_a_start b < bp_a_end b" "bp_a_end b \<le> BIP_BUFFER_SIZE"
    and "bp_b_end b \<le> bp_a_start b" "0 < bp_b_end b \<Longrightarrow> bp_a_end b = BIP_BUFFER_SIZE"
    and "bp_can_read b" "bp_can_write b \<longleftrightarrow> bp_a_end b < BIP_BUFFER_SIZE \<or> bp_b_end b < bp_a_start b"
    and "\<not> bp_closed b \<Longrightarrow> bp_evt_read b" "\<not> bp_closed b \<Longrightarrow> bp_evt_write b = bp_can_write b"
  shows "bip_ok b"
  unfolding bip_ok_def using assms by simp

lemma length_contents:
  "bip_ok b \<Longrightarrow> length (contents b) = bp_a_end b - bp_a_start b + bp_b_end b"
  by (auto simp: bip_ok_def contents_def)

lemma can_read_contents: "bip_ok b \<Longrightarrow> bp_can_read b \<longleftrightarrow> contents b \<noteq> []"
  using length_contents [of b] by (auto simp: bip_ok_def)

lemma can_write_contents: "bip_ok b \<Longrightarrow> bp_can_write b \<longleftrightarrow> length (contents b) < BIP_BUFFER_SIZE"
  using length_contents [of b] by (auto simp: bip_ok_def)

lemma bip_init_ok [simp]: "bip_ok (bip_buffer_init junk)" "contents (bip_buffer_init junk) = []"
  by (simp_all add: bip_ok_def bip_buffer_init_def contents_def)

lemma bip_close_ok:
  assumes "bip_ok b"
  shows "bip_ok (bip_buffer_close b)" "contents (bip_buffer_close b) = contents b"
  using assms by (auto simp: bip_ok_def bip_buffer_close_def contents_def Let_def)

lemma length_copy_to: "off + length src \<le> length buf \<Longrightarrow> length (copy_to off src buf) = length buf"
  by (simp add: copy_to_def)

text \<open>Appending at the end of region A, and at the end of region B.\<close>

lemma contents_append_a:
  assumes "bp_a_start b \<le> bp_a_end b" "bp_a_end b + length src \<le> length (bp_buff b)" "bp_b_end b = 0 \<or> src = []"
  shows "contents (b\<lparr>bp_buff := copy_to (bp_a_end b) src (bp_buff b), bp_a_end := bp_a_end b + length src\<rparr>)
    = contents b @ src"
proof (cases "src = []")
  case True
  then show ?thesis by (simp add: contents_def copy_to_def)
next
  case False
  then have "0 < length src" by simp
  with assms(2,3) False have "bp_b_end b = 0" "bp_a_end b < length (bp_buff b)" by (blast, linarith)
  with assms show ?thesis by (simp add: contents_def copy_to_def min_def) (simp add: drop_take)
qed

lemma contents_append_b:
  assumes "bp_b_end b + length src \<le> bp_a_start b" "bp_a_start b \<le> bp_a_end b" "bp_a_end b \<le> length (bp_buff b)"
  shows "contents (b\<lparr>bp_buff := copy_to (bp_b_end b) src (bp_buff b), bp_b_end := bp_b_end b + length src\<rparr>)
    = contents b @ src"
  using assms by (simp add: contents_def copy_to_def)

lemma write_exit_ok:
  assumes "0 < n" "bip_ok (b\<lparr>bp_can_read := True, bp_evt_read := True\<rparr>)"
    and "\<not> bp_closed b \<longrightarrow> bp_evt_read b = bp_can_read b"
  shows "\<exists>b'. write_exit n b = (Done n, b') \<and> bip_ok b' \<and> contents b' = contents b \<and> bp_closed b' = bp_closed b"
  using assms by (cases "bp_can_read b") (auto simp: write_exit_def bip_ok_def contents_def)

text \<open>A write stores as much as fits, at the end of the queue.\<close>

lemma bip_write_queue:
  assumes "bip_ok b" "src \<noteq> []" "length (contents b) < BIP_BUFFER_SIZE"
  shows "\<exists>b'. bip_buffer_write src b = (Done (min (length src) (BIP_BUFFER_SIZE - length (contents b))), b')
    \<and> bip_ok b' \<and> contents b' = contents b @ take (BIP_BUFFER_SIZE - length (contents b)) src
    \<and> bp_closed b' = bp_closed b"
proof -
  have ok: "length (bp_buff b) = BIP_BUFFER_SIZE" "bp_a_start b \<le> bp_a_end b" "bp_a_end b \<le> BIP_BUFFER_SIZE"
    "bp_b_end b \<le> bp_a_start b" "0 < bp_b_end b \<longrightarrow> bp_a_end b = BIP_BUFFER_SIZE"
    "bp_a_start b = bp_a_end b \<longrightarrow> bp_a_end b = 0" "bp_can_read b \<longleftrightarrow> bp_a_start b < bp_a_end b"
    "bp_can_write b" "\<not> bp_closed b \<longrightarrow> bp_evt_read b = bp_can_read b \<and> bp_evt_write b"
    using assms can_write_contents [OF assms(1)] by (auto simp: bip_ok_def)
  define n1 where "n1 = min (BIP_BUFFER_SIZE - bp_a_end b) (length src)"
  define b1 where "b1 = b\<lparr>bp_buff := copy_to (bp_a_end b) (take n1 src) (bp_buff b), bp_a_end := bp_a_end b + n1\<rparr>"
  have room: "BIP_BUFFER_SIZE - length (contents b) = (BIP_BUFFER_SIZE - bp_a_end b) + (bp_a_start b - bp_b_end b)"
    using length_contents [OF assms(1)] ok by simp
  have len1: "length (take n1 src) = n1" by (simp add: n1_def)
  have z: "bp_b_end b = 0 \<or> take n1 src = []" using ok(5) by (auto simp: n1_def)
  have c1: "contents b1 = contents b @ take n1 src"
    using contents_append_a [of b "take n1 src"] ok z unfolding b1_def len1 by (simp add: n1_def)
  have l1: "length (bp_buff b1) = BIP_BUFFER_SIZE" using ok by (simp add: b1_def length_copy_to len1 n1_def)
  have f1: "bp_a_start b1 = bp_a_start b" "bp_b_end b1 = bp_b_end b" "bp_a_end b1 = bp_a_end b + n1"
    "bp_closed b1 = bp_closed b" "bp_can_read b1 = bp_can_read b" "bp_can_write b1 = bp_can_write b"
    "bp_evt_read b1 = bp_evt_read b" "bp_evt_write b1 = bp_evt_write b"
    by (simp_all add: b1_def)
  have w: "bip_buffer_write src b =
      (if 0 < n1 \<and> bp_a_end b1 = BIP_BUFFER_SIZE \<and> bp_a_start b1 = 0
       then write_exit n1 (b1\<lparr>bp_can_write := False, bp_evt_write := False\<rparr>)
       else if drop n1 src = [] then write_exit n1 b1
       else if bp_a_start b1 \<le> bp_b_end b1 then (Fatal, b1)
       else
         let avail2 = min (bp_a_start b1 - bp_b_end b1) (length (drop n1 src));
             b'' = b1\<lparr>bp_buff := copy_to (bp_b_end b1) (take avail2 (drop n1 src)) (bp_buff b1),
               bp_b_end := bp_b_end b1 + avail2\<rparr>;
             b'' = (if bp_b_end b'' = bp_a_start b''
                    then b''\<lparr>bp_can_write := False, bp_evt_write := False\<rparr> else b'')
         in write_exit (n1 + avail2) b'')"
    using assms(2) ok(8) unfolding bip_buffer_write_def Let_def n1_def [symmetric] b1_def [symmetric] by argo
  consider (full) "0 < n1" "bp_a_end b1 = BIP_BUFFER_SIZE" "bp_a_start b = 0"
    | (fits) "drop n1 src = []" "\<not> (0 < n1 \<and> bp_a_end b1 = BIP_BUFFER_SIZE \<and> bp_a_start b = 0)"
    | (wrap) "drop n1 src \<noteq> []" "\<not> (0 < n1 \<and> bp_a_end b1 = BIP_BUFFER_SIZE \<and> bp_a_start b = 0)"
    by argo
  then show ?thesis
  proof cases
    case full
    let ?b = "b1\<lparr>bp_can_write := False, bp_evt_write := False\<rparr>"
    have "bip_buffer_write src b = write_exit n1 ?b"
      unfolding w using full f1(1) by simp
    moreover have "bip_ok (?b\<lparr>bp_can_read := True, bp_evt_read := True\<rparr>)"
      using full f1 ok l1 by (simp add: bip_ok_def)
    then obtain b' where "write_exit n1 ?b = (Done n1, b')" "bip_ok b'" "contents b' = contents ?b" "bp_closed b' = bp_closed ?b"
      using write_exit_ok [of n1 ?b] full f1 ok by auto
    moreover have "contents ?b = contents b1" "bp_closed ?b = bp_closed b" using f1 by (simp_all add: contents_def)
    moreover have "min (length src) (BIP_BUFFER_SIZE - length (contents b)) = n1"
      "take (BIP_BUFFER_SIZE - length (contents b)) src = take n1 src"
      unfolding room using full ok by (auto simp: n1_def min_def)
    ultimately show ?thesis by (metis c1)
  next
    case fits
    then have n1: "n1 = length src" "0 < n1" using assms(2) by (auto simp: n1_def)
    have le: "bp_a_end b + n1 \<le> BIP_BUFFER_SIZE" using ok(3) by (simp add: n1_def)
    then have b0: "bp_b_end b = 0" using ok(5) n1(2) by (cases "0 < bp_b_end b") simp_all
    have "bip_buffer_write src b = write_exit n1 b1"
      unfolding w using fits f1(1) by auto
    moreover have "bip_ok (b1\<lparr>bp_can_read := True, bp_evt_read := True\<rparr>)"
    proof (rule bip_okI)
      show "bp_can_write (b1\<lparr>bp_can_read := True, bp_evt_read := True\<rparr>) \<longleftrightarrow>
          bp_a_end (b1\<lparr>bp_can_read := True, bp_evt_read := True\<rparr>) < BIP_BUFFER_SIZE \<or>
          bp_b_end (b1\<lparr>bp_can_read := True, bp_evt_read := True\<rparr>) < bp_a_start (b1\<lparr>bp_can_read := True, bp_evt_read := True\<rparr>)"
        using fits(2) n1(2) le b0 f1 ok(8) by auto
    qed (use n1(2) le b0 f1 l1 ok(2,8,9) in auto)
    then obtain b' where "write_exit n1 b1 = (Done n1, b')" "bip_ok b'" "contents b' = contents b1" "bp_closed b' = bp_closed b1"
      using write_exit_ok [of n1 b1] n1 f1 ok by auto
    moreover have "min (length src) (BIP_BUFFER_SIZE - length (contents b)) = n1"
      "take (BIP_BUFFER_SIZE - length (contents b)) src = take n1 src"
      unfolding room using n1 by (auto simp: n1_def)
    ultimately show ?thesis by (metis c1 f1(4))
  next
    case wrap
    then have n1: "n1 = BIP_BUFFER_SIZE - bp_a_end b" "n1 < length src" "bp_a_end b1 = BIP_BUFFER_SIZE"
      using ok f1 by (auto simp: n1_def)
    have ab: "bp_b_end b < bp_a_start b" using wrap n1 ok assms(1) by (auto simp: bip_ok_def)
    define n2 where "n2 = min (bp_a_start b - bp_b_end b) (length (drop n1 src))"
    define b2 where "b2 = b1\<lparr>bp_buff := copy_to (bp_b_end b) (take n2 (drop n1 src)) (bp_buff b1), bp_b_end := bp_b_end b + n2\<rparr>"
    define b3 where "b3 = (if bp_b_end b2 = bp_a_start b2 then b2\<lparr>bp_can_write := False, bp_evt_write := False\<rparr> else b2)"
    have lt: "bp_a_start b < BIP_BUFFER_SIZE" using ab ok(2,3,6) by (metis le_neq_implies_less le_less_trans not_less_zero less_le_trans)
    have nle: "bp_b_end b + n2 \<le> bp_a_start b" using ab by (simp add: n2_def)
    have n2: "0 < n2" using ab wrap(1) by (simp add: n2_def)
    have len2: "length (take n2 (drop n1 src)) = n2" by (simp add: n2_def)
    have c2: "contents b2 = contents b1 @ take n2 (drop n1 src)"
      using contents_append_b [of b1 "take n2 (drop n1 src)"] ok f1 l1 n1 ab
      unfolding b2_def len2 f1(2) by (simp add: n2_def)
    have w2: "bip_buffer_write src b = write_exit (n1 + n2) b3"
      unfolding w Let_def f1(1,2) n2_def [symmetric] b2_def [symmetric] b3_def [symmetric] using wrap ab by simp
    have "length (bp_buff b2) = BIP_BUFFER_SIZE"
      using l1 ok ab by (simp add: b2_def length_copy_to len2 n2_def)
    then have "bip_ok (b3\<lparr>bp_can_read := True, bp_evt_read := True\<rparr>)"
      by (intro bip_okI) (use n1(3) n2 nle lt f1 ok(8,9) in \<open>auto simp: b3_def b2_def\<close>)
    moreover have b3: "bp_closed b3 = bp_closed b" "bp_evt_read b3 = bp_evt_read b" "bp_can_read b3 = bp_can_read b"
      by (simp_all add: b3_def b2_def f1)
    ultimately obtain b' where "write_exit (n1 + n2) b3 = (Done (n1 + n2), b')" "bip_ok b'" "contents b' = contents b3"
      "bp_closed b' = bp_closed b3"
      using write_exit_ok [of "n1 + n2" b3] n2 ok(9) by auto
    moreover have "min (length src) (BIP_BUFFER_SIZE - length (contents b)) = n1 + n2"
      unfolding room using n1 by (auto simp: n2_def min_def)
    moreover have "take (BIP_BUFFER_SIZE - length (contents b)) src = take n1 src @ take n2 (drop n1 src)"
      unfolding room n1(1) [symmetric] take_add by (simp add: n2_def min_def)
    moreover have "contents b3 = contents b2" by (simp add: b3_def contents_def)
    ultimately show ?thesis by (metis w2 c1 c2 b3(1) append_assoc)
  qed
qed

text \<open>A read takes from the front of the queue, across the wrap.\<close>

lemma read_exit_ok:
  assumes "dst \<noteq> []" "bip_ok (b\<lparr>bp_can_write := True, bp_evt_write := True\<rparr>)"
    and "\<not> bp_closed b \<longrightarrow> bp_evt_write b = bp_can_write b"
  shows "fst (read_exit dst b) = Done dst \<and> bip_ok (snd (read_exit dst b))
    \<and> contents (snd (read_exit dst b)) = contents b \<and> bp_closed (snd (read_exit dst b)) = bp_closed b"
  using assms by (cases "bp_can_write b") (auto simp: read_exit_def bip_ok_def contents_def)

lemma bip_read_queue:
  assumes "bip_ok b" "0 < n" "contents b \<noteq> []"
  shows "\<exists>b'. bip_buffer_read n b = (Done (take n (contents b)), b') \<and> bip_ok b' \<and> contents b' = drop n (contents b)
    \<and> bp_closed b' = bp_closed b"
proof -
  have ok: "length (bp_buff b) = BIP_BUFFER_SIZE" "bp_a_start b < bp_a_end b" "bp_a_end b \<le> BIP_BUFFER_SIZE"
    "bp_b_end b \<le> bp_a_start b" "0 < bp_b_end b \<longrightarrow> bp_a_end b = BIP_BUFFER_SIZE" "bp_can_read b"
    "\<not> bp_closed b \<longrightarrow> bp_evt_read b = bp_can_read b \<and> bp_evt_write b = bp_can_write b"
    using assms can_read_contents [OF assms(1)] by (auto simp: bip_ok_def)
  let ?A = "take (bp_a_end b - bp_a_start b) (drop (bp_a_start b) (bp_buff b))" and ?B = "take (bp_b_end b) (bp_buff b)"
  have cAB: "contents b = ?A @ ?B" by (simp add: contents_def)
  have lA: "length ?A = bp_a_end b - bp_a_start b" using ok by simp
  show ?thesis
  proof (cases "n < bp_a_end b - bp_a_start b")
    case True
    let ?b = "b\<lparr>bp_a_start := bp_a_start b + n\<rparr>" and ?d = "take n (drop (bp_a_start b) (bp_buff b))"
    have "bp_a_start b + n < bp_a_end b" using True by simp
    then have r: "bip_buffer_read n b = read_exit ?d ?b"
      using assms(2) ok True by (simp add: bip_buffer_read_def min_def Let_def)
    have d: "?d = take n (contents b)" using True lA by (simp add: cAB min_def)
    have "?d \<noteq> []" using assms(2) True ok by simp
    moreover have "bip_ok (?b\<lparr>bp_can_write := True, bp_evt_write := True\<rparr>)"
      using ok True assms(2) by (auto simp: bip_ok_def)
    ultimately have "fst (read_exit ?d ?b) = Done ?d \<and> bip_ok (snd (read_exit ?d ?b))
        \<and> contents (snd (read_exit ?d ?b)) = contents ?b \<and> bp_closed (snd (read_exit ?d ?b)) = bp_closed ?b"
      using ok by (intro read_exit_ok) auto
    moreover have "contents ?b = drop n (contents b)"
      using True lA unfolding cAB by (simp add: contents_def drop_take add.commute)
    ultimately show ?thesis using d r by (intro exI [of _ "snd (read_exit ?d ?b)"]) (auto simp: prod_eq_iff)
  next
    case False
    define m where "m = min (bp_b_end b) (n - (bp_a_end b - bp_a_start b))"
    let ?d = "?A @ take m (bp_buff b)"
    let ?b = "b\<lparr>bp_a_end := bp_b_end b, bp_b_end := 0, bp_a_start := m\<rparr>"
    define c where "c = (if m < bp_b_end b then ?b
      else ?b\<lparr>bp_a_start := 0, bp_a_end := 0, bp_can_read := False, bp_evt_read := False\<rparr>)"
    have a: "min (bp_a_end b - bp_a_start b) n = bp_a_end b - bp_a_start b" "\<not> bp_a_end b \<le> bp_a_start b"
      "bp_a_start b + (bp_a_end b - bp_a_start b) = bp_a_end b"
      using False ok(2) by simp_all
    have r: "bip_buffer_read n b = read_exit ?d c"
      using assms(2) ok(6) by (simp add: bip_buffer_read_def Let_def a c_def m_def [symmetric])
    have d: "?d = take n (contents b)"
      using False lA by (simp add: cAB m_def min.commute)
    have "?d \<noteq> []" using lA ok(2) by (metis append_is_Nil_conv list.size(3) zero_less_diff less_irrefl)
    moreover have "bip_ok (c\<lparr>bp_can_write := True, bp_evt_write := True\<rparr>)"
      using ok by (auto simp: bip_ok_def c_def)
    ultimately have "fst (read_exit ?d c) = Done ?d \<and> bip_ok (snd (read_exit ?d c))
        \<and> contents (snd (read_exit ?d c)) = contents c \<and> bp_closed (snd (read_exit ?d c)) = bp_closed c"
      using ok by (intro read_exit_ok) (auto simp: c_def)
    moreover have "contents c = drop n (contents b)"
      using False lA ok by (auto simp: cAB contents_def c_def m_def drop_take min_def)
    moreover have "bp_closed c = bp_closed b" by (simp add: c_def)
    ultimately show ?thesis using d r by (intro exI [of _ "snd (read_exit ?d c)"]) (auto simp: prod_eq_iff)
  qed
qed

subsection \<open>Queues of bytes\<close>

text \<open>
  The contract of a bounded queue of bytes, for the buffer itself and for the two ends of a socket
  pair. A call either is carried out at once or leaves the queue as it is.
\<close>

datatype queue_call = Wr "byte list" | Rd nat

text \<open>One call: the bytes the queue took, the bytes it gave, and the state after it.\<close>

definition one_call :: "(byte list \<Rightarrow> 'b \<Rightarrow> nat io \<times> 'b) \<Rightarrow> (nat \<Rightarrow> 'b \<Rightarrow> byte list io \<times> 'b) \<Rightarrow> queue_call \<Rightarrow> 'b
    \<Rightarrow> byte list \<times> byte list \<times> 'b" where
  "one_call wr rd c b =
     (case c of
        Wr src \<Rightarrow> (case wr src b of (Done n, b) \<Rightarrow> (take n src, [], b) | (_, b) \<Rightarrow> ([], [], b))
      | Rd n \<Rightarrow> (case rd n b of (Done dst, b) \<Rightarrow> ([], dst, b) | (_, b) \<Rightarrow> ([], [], b)))"

locale byte_queue =
  fixes ok :: "'b \<Rightarrow> bool" and cont :: "'b \<Rightarrow> byte list" and cap :: nat
    and wr :: "byte list \<Rightarrow> 'b \<Rightarrow> nat io \<times> 'b" and rd :: "nat \<Rightarrow> 'b \<Rightarrow> byte list io \<times> 'b"
  assumes bounded: "ok b \<Longrightarrow> length (cont b) \<le> cap"
    and wr_nil: "ok b \<Longrightarrow> wr [] b = (Done 0, b)"
    and rd_nil: "ok b \<Longrightarrow> rd 0 b = (Done [], b)"
    and wr_room: "ok b \<Longrightarrow> src \<noteq> [] \<Longrightarrow> length (cont b) < cap \<Longrightarrow>
      \<exists>b'. wr src b = (Done (min (length src) (cap - length (cont b))), b') \<and> ok b'
        \<and> cont b' = cont b @ take (cap - length (cont b)) src"
    and wr_full: "ok b \<Longrightarrow> src \<noteq> [] \<Longrightarrow> length (cont b) = cap \<Longrightarrow> wr src b \<in> {(Blocked, b), (Err EPIPE, b)}"
    and rd_data: "ok b \<Longrightarrow> 0 < n \<Longrightarrow> cont b \<noteq> [] \<Longrightarrow>
      \<exists>b'. rd n b = (Done (take n (cont b)), b') \<and> ok b' \<and> cont b' = drop n (cont b)"
    and rd_empty: "ok b \<Longrightarrow> 0 < n \<Longrightarrow> cont b = [] \<Longrightarrow> rd n b \<in> {(Blocked, b), (Err EPIPE, b)}"
begin

lemma wr_cases:
  assumes "ok b"
  obtains n b' where "wr src b = (Done n, b')" "ok b'" "cont b' = cont b @ take n src"
    | "wr src b = (Blocked, b)" | "wr src b = (Err EPIPE, b)"
proof (cases "src = []")
  case True
  with assms that(1) [of 0 b] show ?thesis by (simp add: wr_nil)
next
  case False
  show ?thesis
  proof (cases "length (cont b) < cap")
    case True
    from wr_room [OF assms False True] obtain b' where b: "wr src b = (Done (min (length src) (cap - length (cont b))), b')"
      "ok b'" "cont b' = cont b @ take (cap - length (cont b)) src" by blast
    then show ?thesis using that(1) [OF b(1,2)] by (simp add: min_def)
  next
    assume "\<not> length (cont b) < cap"
    with wr_full [OF assms False] bounded [OF assms] that(2,3) show ?thesis by auto
  qed
qed

lemma rd_cases:
  assumes "ok b"
  obtains b' where "rd n b = (Done (take n (cont b)), b')" "ok b'" "cont b' = drop n (cont b)"
    | "rd n b = (Blocked, b)" | "rd n b = (Err EPIPE, b)"
  using assms that rd_nil [OF assms] rd_data [OF assms, of n] rd_empty [OF assms, of n]
  by (cases "n = 0"; cases "cont b = []") auto

lemma call_ok:
  assumes "ok b" "one_call wr rd c b = (taken, given, b')"
  shows "ok b' \<and> cont b @ taken = given @ cont b'"
proof (cases c)
  case (Wr src)
  from assms(1) show ?thesis
    by (rule wr_cases [of b src]) (use Wr assms in \<open>auto simp: one_call_def\<close>)
next
  case (Rd n)
  from assms(1) show ?thesis
    by (rule rd_cases [of b n]) (use Rd assms in \<open>auto simp: one_call_def\<close>)
qed

end

text \<open>
  Two queues in one state, one for each direction, with calls on them in any order. A call is tagged
  with the queue it is on.
\<close>

fun duplex_calls :: "(queue_call \<Rightarrow> 'b \<Rightarrow> byte list \<times> byte list \<times> 'b) \<Rightarrow> (queue_call \<Rightarrow> 'b \<Rightarrow> byte list \<times> byte list \<times> 'b)
    \<Rightarrow> (bool \<times> queue_call) list \<Rightarrow> 'b \<Rightarrow> (byte list \<times> byte list) \<times> (byte list \<times> byte list) \<times> 'b" where
  "duplex_calls f g [] b = (([], []), ([], []), b)"
| "duplex_calls f g ((first, c) # cs) b =
     (let (taken, given, b) = (if first then f c b else g c b);
          ((t1, g1), (t2, g2), b) = duplex_calls f g cs b
      in if first then ((taken @ t1, given @ g1), (t2, g2), b) else ((t1, g1), (taken @ t2, given @ g2), b))"

locale duplex =
  one: byte_queue ok cont1 cap wr1 rd1 + two: byte_queue ok cont2 cap wr2 rd2
  for ok :: "'b \<Rightarrow> bool" and cont1 cap wr1 rd1 cont2 wr2 rd2 +
  assumes apart1: "ok b \<Longrightarrow> one_call wr1 rd1 c b = (taken, given, b') \<Longrightarrow> cont2 b' = cont2 b"
    and apart2: "ok b \<Longrightarrow> one_call wr2 rd2 c b = (taken, given, b') \<Longrightarrow> cont1 b' = cont1 b"
begin

text \<open>First in, first out in both directions, with nothing lost and nothing made up.\<close>

lemma fifo:
  assumes "ok b" "duplex_calls (one_call wr1 rd1) (one_call wr2 rd2) cs b = ((t1, g1), (t2, g2), b')"
  shows "ok b' \<and> cont1 b @ t1 = g1 @ cont1 b' \<and> cont2 b @ t2 = g2 @ cont2 b'"
  using assms
proof (induction cs arbitrary: b t1 g1 t2 g2)
  case (Cons e cs)
  obtain first c where e: "e = (first, c)" by fastforce
  obtain taken given b1 where c: "(if first then one_call wr1 rd1 c b else one_call wr2 rd2 c b) = (taken, given, b1)"
    by (metis prod_cases3)
  obtain u1 h1 u2 h2 where r: "duplex_calls (one_call wr1 rd1) (one_call wr2 rd2) cs b1 = ((u1, h1), (u2, h2), b')"
    using Cons.prems(2) e c by (auto split: prod.splits if_splits)
  show ?case
  proof (cases first)
    case True
    then have k: "one_call wr1 rd1 c b = (taken, given, b1)" using c by simp
    note f = one.call_ok [OF Cons.prems(1) k] apart1 [OF Cons.prems(1) k]
    have eqs: "t1 = taken @ u1" "g1 = given @ h1" "t2 = u2" "g2 = h2" using Cons.prems(2) e k r True by simp_all
    with Cons.IH [OF _ r] f show ?thesis by (metis append_assoc)
  next
    case False
    then have k: "one_call wr2 rd2 c b = (taken, given, b1)" using c by simp
    note f = two.call_ok [OF Cons.prems(1) k] apart2 [OF Cons.prems(1) k]
    have eqs: "t2 = taken @ u2" "g2 = given @ h2" "t1 = u1" "g1 = h1" using Cons.prems(2) e k r False by simp_all
    with Cons.IH [OF _ r] f show ?thesis by (metis append_assoc)
  qed
qed simp

end

interpretation bipq: byte_queue bip_ok contents BIP_BUFFER_SIZE bip_buffer_write bip_buffer_read
proof
  fix b :: bip and src :: "byte list" and n :: nat
  assume ok: "bip_ok b"
  show "length (contents b) \<le> BIP_BUFFER_SIZE" using length_contents [OF ok] ok by (auto simp: bip_ok_def)
  show "bip_buffer_write [] b = (Done 0, b)" "bip_buffer_read 0 b = (Done [], b)"
    by (simp_all add: bip_buffer_write_def bip_buffer_read_def)
  show "\<exists>b'. bip_buffer_write src b = (Done (min (length src) (BIP_BUFFER_SIZE - length (contents b))), b') \<and> bip_ok b'
      \<and> contents b' = contents b @ take (BIP_BUFFER_SIZE - length (contents b)) src"
    if "src \<noteq> []" "length (contents b) < BIP_BUFFER_SIZE"
    using bip_write_queue [OF ok that] by blast
  show "bip_buffer_write src b \<in> {(Blocked, b), (Err EPIPE, b)}" if "src \<noteq> []" "length (contents b) = BIP_BUFFER_SIZE"
    using that can_write_contents [OF ok] by (simp add: bip_buffer_write_def)
  show "\<exists>b'. bip_buffer_read n b = (Done (take n (contents b)), b') \<and> bip_ok b' \<and> contents b' = drop n (contents b)"
    if "0 < n" "contents b \<noteq> []"
    using bip_read_queue [OF ok that] by blast
  show "bip_buffer_read n b \<in> {(Blocked, b), (Err EPIPE, b)}" if "0 < n" "contents b = []"
    using that can_read_contents [OF ok] by (simp add: bip_buffer_read_def)
qed

text \<open>A call that had to wait neither loses nor makes up bytes either, however its wait ends.\<close>

lemma write_woken_queue:
  assumes "bip_ok b" "bip_write_woken waited src b = (r, b')"
  shows "bip_ok b' \<and> contents b' = contents b @ (case r of Done n \<Rightarrow> take n src | _ \<Rightarrow> [])"
proof (cases "waited \<and> \<not> bp_closed b")
  case True
  then have "bip_buffer_write src b = (r, b')" using assms(2) by (simp add: bip_write_woken_def)
  then show ?thesis using assms(1) bipq.wr_cases [OF assms(1), of src] by fastforce
next
  case False
  with assms show ?thesis by (auto simp: bip_write_woken_def split: if_splits)
qed

lemma read_woken_queue:
  assumes "bip_ok b" "bip_read_woken waited n b = (r, b')"
  shows "bip_ok b' \<and> contents b = (case r of Done d \<Rightarrow> d | _ \<Rightarrow> []) @ contents b'"
proof (cases "waited \<and> \<not> bp_closed b")
  case True
  then have "bip_buffer_read n b = (r, b')" using assms(2) by (simp add: bip_read_woken_def)
  then show ?thesis using assms(1) bipq.rd_cases [OF assms(1), of n] by fastforce
next
  case False
  with assms show ?thesis by (auto simp: bip_read_woken_def split: if_splits)
qed

end
