(* ===== verification/WinFd.thy ===== *)
theory WinFd
  imports Bip Clib
begin

text \<open>
  The descriptors of the Windows build (src/tools/adb/sysdeps_win32.c): a table of 128 slots, each of
  which holds a file, a socket or one end of a socket pair. The calls of the operating system are the
  fields of a record, over a state of their own. The table is shown to keep its invariant, and a socket
  pair to be two queues of bytes.
\<close>

subsection \<open>The operating system\<close>

type_synonym sockaddr = "int \<times> u16 \<times> u32"

record 's os =
  CreateFile :: "string \<Rightarrow> u32 \<Rightarrow> u32 \<Rightarrow> 's \<Rightarrow> int \<times> 's"
  GetLastError :: "'s \<Rightarrow> int"
  ReadFile :: "int \<Rightarrow> nat \<Rightarrow> 's \<Rightarrow> byte list option \<times> 's"
  WriteFile :: "int \<Rightarrow> byte list \<Rightarrow> 's \<Rightarrow> nat option \<times> 's"
  SetFilePointer :: "int \<Rightarrow> int \<Rightarrow> u32 \<Rightarrow> 's \<Rightarrow> u32 \<times> 's"
  CloseHandle :: "int \<Rightarrow> 's \<Rightarrow> 's"
  WSAStartup :: "'s \<Rightarrow> int \<times> 's"
  WSAGetLastError :: "'s \<Rightarrow> int"
  WSACreateEvent :: "'s \<Rightarrow> int \<times> 's"
  os_socket :: "int \<Rightarrow> int \<Rightarrow> 's \<Rightarrow> int \<times> 's"
  os_connect :: "int \<Rightarrow> sockaddr \<Rightarrow> 's \<Rightarrow> int \<times> 's"
  os_bind :: "int \<Rightarrow> sockaddr \<Rightarrow> 's \<Rightarrow> int \<times> 's"
  os_listen :: "int \<Rightarrow> nat \<Rightarrow> 's \<Rightarrow> int \<times> 's"
  os_accept :: "int \<Rightarrow> 's \<Rightarrow> int \<times> 's"
  os_setsockopt :: "int \<Rightarrow> int \<Rightarrow> 's \<Rightarrow> 's"
  os_recv :: "int \<Rightarrow> nat \<Rightarrow> 's \<Rightarrow> byte list option \<times> 's"
  os_send :: "int \<Rightarrow> byte list \<Rightarrow> 's \<Rightarrow> nat option \<times> 's"
  os_shutdown :: "int \<Rightarrow> 's \<Rightarrow> 's"
  closesocket :: "int \<Rightarrow> 's \<Rightarrow> 's"
  gethostbyname :: "string \<Rightarrow> 's \<Rightarrow> (int \<times> u32) option \<times> 's"
  malloc_pair :: "'s \<Rightarrow> ((nat \<Rightarrow> byte) \<times> (nat \<Rightarrow> byte)) option \<times> 's"

abbreviation INVALID_HANDLE :: int where "INVALID_HANDLE \<equiv> - 1"
abbreviation GENERIC_READ :: u32 where "GENERIC_READ \<equiv> 0x80000000"
abbreviation GENERIC_WRITE :: u32 where "GENERIC_WRITE \<equiv> 0x40000000"
abbreviation OPEN_EXISTING :: u32 where "OPEN_EXISTING \<equiv> 3"
abbreviation CREATE_ALWAYS :: u32 where "CREATE_ALWAYS \<equiv> 2"
abbreviation INVALID_SET_FILE_POINTER :: u32 where "INVALID_SET_FILE_POINTER \<equiv> 0xFFFFFFFF"
abbreviation AF_INET :: int where "AF_INET \<equiv> 2"
abbreviation SOCK_STREAM :: int where "SOCK_STREAM \<equiv> 1"
abbreviation SO_EXCLUSIVEADDRUSE :: int where "SO_EXCLUSIVEADDRUSE \<equiv> - 5"
abbreviation TCP_NODELAY :: int where "TCP_NODELAY \<equiv> 1"
abbreviation INADDR_LOOPBACK :: u32 where "INADDR_LOOPBACK \<equiv> 0x7F000001"
abbreviation INADDR_ANY :: u32 where "INADDR_ANY \<equiv> 0"

subsection \<open>The table\<close>

datatype fh_class = File_class | Socket_class | Socketpair_class

text \<open>The union of handle, socket and pointer is one number; the null pointer is 0.\<close>

record fh =
  fh_clazz :: "fh_class option"
  fh_used :: bool
  fh_eof :: bool
  fh_u :: int
  fh_event :: int
  fh_mask :: int
  fh_name :: string

record sockpair =
  sp_a2b :: bip
  sp_b2a :: bip
  sp_a_fd :: "nat option"
  sp_used :: int

record 's win =
  w_fhs :: "fh list"
  w_fh_count :: nat
  w_pairs :: "int \<rightharpoonup> sockpair"
  w_next :: int
  w_winsock :: bool
  w_os :: 's

abbreviation WIN32_FH_BASE :: int where "WIN32_FH_BASE \<equiv> 100"
abbreviation WIN32_MAX_FHS :: nat where "WIN32_MAX_FHS \<equiv> 128"

abbreviation fh_at :: "'s win \<Rightarrow> nat \<Rightarrow> fh" where "fh_at w i \<equiv> w_fhs w ! i"

definition fh_upd :: "nat \<Rightarrow> (fh \<Rightarrow> fh) \<Rightarrow> 's win \<Rightarrow> 's win" where
  "fh_upd i f w = w\<lparr>w_fhs := (w_fhs w)[i := f (w_fhs w ! i)]\<rparr>"

definition fh_from_int :: "int \<Rightarrow> 's win \<Rightarrow> nat option" where
  "fh_from_int fd w =
     (let fd = fd - WIN32_FH_BASE
      in if fd < 0 \<or> int (w_fh_count w) \<le> fd then None
         else if \<not> fh_used (fh_at w (nat fd)) then None
         else Some (nat fd))"

definition fh_to_int :: "nat option \<Rightarrow> 's win \<Rightarrow> int" where
  "fh_to_int f w =
     (case f of None \<Rightarrow> - 1
      | Some i \<Rightarrow> if fh_used (fh_at w i) \<and> i < WIN32_MAX_FHS then int i + WIN32_FH_BASE else - 1)"

definition lift_os :: "('s \<Rightarrow> 'a \<times> 's) \<Rightarrow> 's win \<Rightarrow> 'a \<times> 's win" where
  "lift_os f w = (let (r, s) = f (w_os w) in (r, w\<lparr>w_os := s\<rparr>))"

definition fh_file_init :: "nat \<Rightarrow> 's win \<Rightarrow> 's win" where
  "fh_file_init i w = fh_upd i (\<lambda>f. f\<lparr>fh_u := INVALID_HANDLE\<rparr>) w"

definition fh_socket_init :: "'s os \<Rightarrow> nat \<Rightarrow> 's win \<Rightarrow> 's win" where
  "fh_socket_init os i w =
     (let (e, w) = lift_os (WSACreateEvent os) w
      in fh_upd i (\<lambda>f. f\<lparr>fh_u := INVALID_HANDLE, fh_event := e, fh_mask := 0\<rparr>) w)"

definition fh_socketpair_init :: "nat \<Rightarrow> 's win \<Rightarrow> 's win" where
  "fh_socketpair_init i w = fh_upd i (\<lambda>f. f\<lparr>fh_u := 0\<rparr>) w"

definition fh_init :: "'s os \<Rightarrow> fh_class \<Rightarrow> nat \<Rightarrow> 's win \<Rightarrow> 's win" where
  "fh_init os c = (case c of File_class \<Rightarrow> fh_file_init | Socket_class \<Rightarrow> fh_socket_init os
     | Socketpair_class \<Rightarrow> fh_socketpair_init)"

definition fh_alloc :: "'s os \<Rightarrow> fh_class \<Rightarrow> 's win \<Rightarrow> nat option \<times> 's win" where
  "fh_alloc os clazz w =
     (let (slot, w) = (if w_fh_count w < WIN32_MAX_FHS
          then (Some (w_fh_count w), w\<lparr>w_fh_count := w_fh_count w + 1\<rparr>)
          else (first_index (\<lambda>f. fh_clazz f = None) (w_fhs w), w))
      in case slot of None \<Rightarrow> (None, w)
         | Some i \<Rightarrow> (Some i, fh_init os clazz i
             (fh_upd i (\<lambda>f. f\<lparr>fh_clazz := Some clazz, fh_used := True, fh_eof := False\<rparr>) w)))"

subsection \<open>Closing\<close>

definition fh_file_close :: "'s os \<Rightarrow> nat \<Rightarrow> 's win \<Rightarrow> unit io \<times> 's win" where
  "fh_file_close os i w =
     (Done (), fh_upd i (\<lambda>f. f\<lparr>fh_u := INVALID_HANDLE\<rparr>)
        (w\<lparr>w_os := CloseHandle os (fh_u (fh_at w i)) (w_os w)\<rparr>))"

definition fh_socket_close :: "'s os \<Rightarrow> nat \<Rightarrow> 's win \<Rightarrow> unit io \<times> 's win" where
  "fh_socket_close os i w =
     (let s = fh_u (fh_at w i)
      in (Done (), fh_upd i (\<lambda>f. f\<lparr>fh_u := INVALID_HANDLE, fh_mask := 0\<rparr>)
        (w\<lparr>w_os := CloseHandle os (fh_event (fh_at w i)) (closesocket os s (os_shutdown os s (w_os w)))\<rparr>)))"

definition fh_socketpair_close :: "nat \<Rightarrow> 's win \<Rightarrow> unit io \<times> 's win" where
  "fh_socketpair_close i w =
     (let a = fh_u (fh_at w i)
      in if a = 0 then (Done (), w)
         else case w_pairs w a of None \<Rightarrow> (Crash, w)
         | Some pair \<Rightarrow>
             let pair = pair\<lparr>sp_a_fd := (if sp_a_fd pair = Some i then None else sp_a_fd pair),
                   sp_b2a := bip_buffer_close (sp_b2a pair), sp_a2b := bip_buffer_close (sp_a2b pair),
                   sp_used := sp_used pair - 1\<rparr>
             in (Done (), fh_upd i (\<lambda>f. f\<lparr>fh_u := 0\<rparr>)
                  (w\<lparr>w_pairs := (w_pairs w)(a := if sp_used pair = 0 then None else Some pair)\<rparr>)))"

definition fh_clazz_close :: "'s os \<Rightarrow> fh_class \<Rightarrow> nat \<Rightarrow> 's win \<Rightarrow> unit io \<times> 's win" where
  "fh_clazz_close os c = (case c of File_class \<Rightarrow> fh_file_close os | Socket_class \<Rightarrow> fh_socket_close os
     | Socketpair_class \<Rightarrow> fh_socketpair_close)"

definition fh_close :: "'s os \<Rightarrow> nat option \<Rightarrow> 's win \<Rightarrow> unit io \<times> 's win" where
  "fh_close os f w =
     (case f of None \<Rightarrow> (Crash, w)
      | Some i \<Rightarrow>
          if fh_used (fh_at w i)
          then case fh_clazz (fh_at w i) of None \<Rightarrow> (Crash, w)
            | Some c \<Rightarrow>
                (case fh_clazz_close os c i w of
                  (Done _, w) \<Rightarrow> (Done (), fh_upd i (\<lambda>f. f\<lparr>fh_used := False, fh_eof := False, fh_clazz := None\<rparr>) w)
                | (r, w) \<Rightarrow> (r, w))
          else (Done (), w))"

text \<open>A failing path: close the slot, then return -1.\<close>

definition fail_close :: "'s os \<Rightarrow> nat option \<Rightarrow> werrno \<Rightarrow> 's win \<Rightarrow> 'a io \<times> 's win" where
  "fail_close os f e w = (case fh_close os f w of (Done _, w) \<Rightarrow> (Err e, w) | (_, w) \<Rightarrow> (Crash, w))"

subsection \<open>Files\<close>

definition fh_file_read :: "'s os \<Rightarrow> nat \<Rightarrow> nat \<Rightarrow> 's win \<Rightarrow> byte list io \<times> 's win" where
  "fh_file_read os i len w =
     (case lift_os (ReadFile os (fh_u (fh_at w i)) len) w of
        (None, w) \<Rightarrow> (Err EIO, w)
      | (Some bs, w) \<Rightarrow> (Done bs, if length bs < len then fh_upd i (\<lambda>f. f\<lparr>fh_eof := True\<rparr>) w else w))"

definition fh_file_write :: "'s os \<Rightarrow> nat \<Rightarrow> byte list \<Rightarrow> 's win \<Rightarrow> nat io \<times> 's win" where
  "fh_file_write os i buf w =
     (case lift_os (WriteFile os (fh_u (fh_at w i)) buf) w of
        (None, w) \<Rightarrow> (Err EIO, w)
      | (Some n, w) \<Rightarrow> (Done n, if n < length buf then fh_upd i (\<lambda>f. f\<lparr>fh_eof := True\<rparr>) w else w))"

definition fh_file_lseek :: "'s os \<Rightarrow> nat \<Rightarrow> int \<Rightarrow> int \<Rightarrow> 's win \<Rightarrow> int io \<times> 's win" where
  "fh_file_lseek os i pos origin w =
     (if origin \<notin> {0, 1, 2} then (Err EINVAL, w)
      else
        let (result, w) = lift_os (SetFilePointer os (fh_u (fh_at w i)) pos (of_int origin)) w
        in if result = INVALID_SET_FILE_POINTER then (Err EIO, w)
           else (Done (sint result), fh_upd i (\<lambda>f. f\<lparr>fh_eof := False\<rparr>) w))"

text \<open>\<open>snprintf\<close> into the 32 bytes of the name.\<close>

definition set_name :: "nat \<Rightarrow> string \<Rightarrow> 's win \<Rightarrow> 's win" where
  "set_name i name w = fh_upd i (\<lambda>f. f\<lparr>fh_name := take 31 name\<rparr>) w"

definition named :: "nat \<Rightarrow> string \<Rightarrow> 's win \<Rightarrow> int io \<times> 's win" where
  "named i what w =
     (let fd = fh_to_int (Some i) w; w = set_name i (fmt_d fd @ ''('' @ what @ '')'') w
      in (Done (fh_to_int (Some i) w), w))"

definition open_errno :: "int \<Rightarrow> werrno" where
  "open_errno e = (if e = 2 then ENOENT else if e = 3 then ENOTDIR else ENOENT)"

definition open_file :: "'s os \<Rightarrow> string \<Rightarrow> u32 \<Rightarrow> u32 \<Rightarrow> 's win \<Rightarrow> int io \<times> 's win" where
  "open_file os path access disposition w =
     (case fh_alloc os File_class w of
        (None, w) \<Rightarrow> (Err ENOMEM, w)
      | (Some i, w) \<Rightarrow>
          let (h, w) = lift_os (CreateFile os path access disposition) w; w = fh_upd i (\<lambda>f. f\<lparr>fh_u := h\<rparr>) w
          in if h = INVALID_HANDLE
             then (case fh_close os (Some i) w of
                     (Done _, w) \<Rightarrow> (Err (open_errno (GetLastError os (w_os w))), w)
                   | (_, w) \<Rightarrow> (Crash, w))
             else named i path w)"

definition adb_open :: "'s os \<Rightarrow> string \<Rightarrow> int \<Rightarrow> 's win \<Rightarrow> int io \<times> 's win" where
  "adb_open os path options w =
     (if options = 0 then open_file os path GENERIC_READ OPEN_EXISTING w
      else if options = 1 then open_file os path GENERIC_WRITE OPEN_EXISTING w
      else if options = 2 then open_file os path (GENERIC_READ OR GENERIC_WRITE) OPEN_EXISTING w
      else (Err EINVAL, w))"

definition adb_creat :: "'s os \<Rightarrow> string \<Rightarrow> 's win \<Rightarrow> int io \<times> 's win" where
  "adb_creat os path w = open_file os path GENERIC_WRITE CREATE_ALWAYS w"

subsection \<open>Sockets\<close>

definition socket_errno :: "int \<Rightarrow> werrno" where
  "socket_errno e = (if e = 0 then E_zero else if e = 10035 then EAGAIN else if e = 10004 then EINTR else EINVAL)"

definition fh_socket_read :: "'s os \<Rightarrow> nat \<Rightarrow> nat \<Rightarrow> 's win \<Rightarrow> byte list io \<times> 's win" where
  "fh_socket_read os i len w =
     (case lift_os (os_recv os (fh_u (fh_at w i)) len) w of
        (None, w) \<Rightarrow> (Err (socket_errno (WSAGetLastError os (w_os w))), w) | (Some bs, w) \<Rightarrow> (Done bs, w))"

definition fh_socket_write :: "'s os \<Rightarrow> nat \<Rightarrow> byte list \<Rightarrow> 's win \<Rightarrow> nat io \<times> 's win" where
  "fh_socket_write os i buf w =
     (case lift_os (os_send os (fh_u (fh_at w i)) buf) w of
        (None, w) \<Rightarrow> (Err (socket_errno (WSAGetLastError os (w_os w))), w) | (Some n, w) \<Rightarrow> (Done n, w))"

definition init_winsock :: "'s os \<Rightarrow> 's win \<Rightarrow> unit io \<times> 's win" where
  "init_winsock os w =
     (if w_winsock w then (Done (), w)
      else let (rc, w) = lift_os (WSAStartup os) w
           in if rc \<noteq> 0 then (Fatal, w) else (Done (), w\<lparr>w_winsock := True\<rparr>))"

definition udp_name :: "int \<Rightarrow> string" where
  "udp_name type = (if type \<noteq> SOCK_STREAM then ''udp:'' else [])"

text \<open>The start of the four functions that make a socket: a slot, then Winsock.\<close>

definition new_socket_fh :: "'s os \<Rightarrow> (nat \<Rightarrow> 's win \<Rightarrow> int io \<times> 's win) \<Rightarrow> 's win \<Rightarrow> int io \<times> 's win" where
  "new_socket_fh os k w =
     (case fh_alloc os Socket_class w of
        (None, w) \<Rightarrow> (Err E_unset, w)
      | (Some i, w) \<Rightarrow> (case init_winsock os w of (Done _, w) \<Rightarrow> k i w | (_, w) \<Rightarrow> (Fatal, w)))"

definition connect_fh :: "'s os \<Rightarrow> nat \<Rightarrow> int \<Rightarrow> sockaddr \<Rightarrow> string \<Rightarrow> 's win \<Rightarrow> int io \<times> 's win" where
  "connect_fh os i s addr name w =
     (let w = fh_upd i (\<lambda>f. f\<lparr>fh_u := s\<rparr>) w; (r, w) = lift_os (os_connect os s addr) w
      in if r < 0 then fail_close os (Some i) E_unset w else named i name w)"

definition socket_loopback_client :: "'s os \<Rightarrow> int \<Rightarrow> int \<Rightarrow> 's win \<Rightarrow> int io \<times> 's win" where
  "socket_loopback_client os port type =
     new_socket_fh os (\<lambda>i w.
       let (s, w) = lift_os (os_socket os AF_INET type) w
       in if s = INVALID_HANDLE then fail_close os (Some i) E_unset w
          else connect_fh os i s (AF_INET, of_int port, INADDR_LOOPBACK) (''lo-client:'' @ udp_name type @ fmt_d port) w)"

definition bind_fh :: "'s os \<Rightarrow> nat \<Rightarrow> int \<Rightarrow> sockaddr \<Rightarrow> int \<Rightarrow> string \<Rightarrow> 's win \<Rightarrow> int io \<times> 's win" where
  "bind_fh os i s addr type name w =
     (let w = fh_upd i (\<lambda>f. f\<lparr>fh_u := s\<rparr>) w;
          w = w\<lparr>w_os := os_setsockopt os s SO_EXCLUSIVEADDRUSE (w_os w)\<rparr>;
          (r, w) = lift_os (os_bind os s addr) w
      in if r < 0 then fail_close os (Some i) E_unset w
         else
           let (r, w) = (if type = SOCK_STREAM then lift_os (os_listen os s 4) w else (0, w))
           in if r < 0 then fail_close os (Some i) E_unset w else named i name w)"

definition socket_loopback_server :: "'s os \<Rightarrow> int \<Rightarrow> int \<Rightarrow> 's win \<Rightarrow> int io \<times> 's win" where
  "socket_loopback_server os port type =
     new_socket_fh os (\<lambda>i w.
       let (s, w) = lift_os (os_socket os AF_INET type) w
       in if s = INVALID_HANDLE then (Err E_unset, w)
          else bind_fh os i s (AF_INET, of_int port, INADDR_LOOPBACK) type
                 (''lo-server:'' @ udp_name type @ fmt_d port) w)"

definition socket_network_client :: "'s os \<Rightarrow> string \<Rightarrow> int \<Rightarrow> int \<Rightarrow> 's win \<Rightarrow> int io \<times> 's win" where
  "socket_network_client os host port type =
     new_socket_fh os (\<lambda>i w.
       case lift_os (gethostbyname os host) w of
         (None, w) \<Rightarrow> fail_close os (Some i) E_unset w
       | (Some (family, h_addr), w) \<Rightarrow>
           let (s, w) = lift_os (os_socket os family type) w
           in if s = INVALID_HANDLE then fail_close os (Some i) E_unset w
              else connect_fh os i s (family, of_int port, h_addr) (''net-client:'' @ udp_name type @ fmt_d port) w)"

definition socket_inaddr_any_server :: "'s os \<Rightarrow> int \<Rightarrow> int \<Rightarrow> 's win \<Rightarrow> int io \<times> 's win" where
  "socket_inaddr_any_server os port type =
     new_socket_fh os (\<lambda>i w.
       let (s, w) = lift_os (os_socket os AF_INET type) w
       in if s = INVALID_HANDLE then fail_close os (Some i) E_unset w
          else bind_fh os i s (AF_INET, of_int port, INADDR_ANY) type
                 (''any-server:'' @ udp_name type @ fmt_d port) w)"

definition adb_socket_accept :: "'s os \<Rightarrow> int \<Rightarrow> 's win \<Rightarrow> int io \<times> 's win" where
  "adb_socket_accept os serverfd w =
     (case fh_from_int serverfd w of
        None \<Rightarrow> (Err EBADF, w)
      | Some sv \<Rightarrow>
          if fh_clazz (fh_at w sv) \<noteq> Some Socket_class then (Err E_unset, w)
          else case fh_alloc os Socket_class w of
            (None, w) \<Rightarrow> (Err E_unset, w)
          | (Some i, w) \<Rightarrow>
              let (s, w) = lift_os (os_accept os (fh_u (fh_at w sv))) w; w = fh_upd i (\<lambda>f. f\<lparr>fh_u := s\<rparr>) w
              in if s = INVALID_HANDLE then fail_close os (Some i) E_unset w
                 else named i (''accept:'' @ fh_name (fh_at w sv)) w)"

definition disable_tcp_nagle :: "'s os \<Rightarrow> int \<Rightarrow> 's win \<Rightarrow> 's win" where
  "disable_tcp_nagle os fd w =
     (case fh_from_int fd w of
        None \<Rightarrow> w
      | Some i \<Rightarrow> if fh_clazz (fh_at w i) \<noteq> Some Socket_class then w
                  else w\<lparr>w_os := os_setsockopt os (fh_u (fh_at w i)) TCP_NODELAY (w_os w)\<rparr>)"

subsection \<open>Socket pairs\<close>

definition fh_socketpair_read :: "nat \<Rightarrow> nat \<Rightarrow> 's win \<Rightarrow> byte list io \<times> 's win" where
  "fh_socketpair_read i len w =
     (let a = fh_u (fh_at w i)
      in if a = 0 then (Err E_unset, w)
         else case w_pairs w a of None \<Rightarrow> (Crash, w)
         | Some pair \<Rightarrow>
             if sp_a_fd pair = Some i
             then let (r, b) = bip_buffer_read len (sp_b2a pair) in (r, w\<lparr>w_pairs := (w_pairs w)(a \<mapsto> pair\<lparr>sp_b2a := b\<rparr>)\<rparr>)
             else let (r, b) = bip_buffer_read len (sp_a2b pair) in (r, w\<lparr>w_pairs := (w_pairs w)(a \<mapsto> pair\<lparr>sp_a2b := b\<rparr>)\<rparr>))"

definition fh_socketpair_write :: "nat \<Rightarrow> byte list \<Rightarrow> 's win \<Rightarrow> nat io \<times> 's win" where
  "fh_socketpair_write i buf w =
     (let a = fh_u (fh_at w i)
      in if a = 0 then (Err E_unset, w)
         else case w_pairs w a of None \<Rightarrow> (Crash, w)
         | Some pair \<Rightarrow>
             if sp_a_fd pair = Some i
             then let (r, b) = bip_buffer_write buf (sp_a2b pair) in (r, w\<lparr>w_pairs := (w_pairs w)(a \<mapsto> pair\<lparr>sp_a2b := b\<rparr>)\<rparr>)
             else let (r, b) = bip_buffer_write buf (sp_b2a pair) in (r, w\<lparr>w_pairs := (w_pairs w)(a \<mapsto> pair\<lparr>sp_b2a := b\<rparr>)\<rparr>))"

text \<open>When only one of the two slots could be had, the failing path closes a null pointer.\<close>

definition adb_socketpair :: "'s os \<Rightarrow> 's win \<Rightarrow> (int \<times> int) io \<times> 's win" where
  "adb_socketpair os w =
     (let (fa, w) = fh_alloc os Socketpair_class w; (fb, w) = fh_alloc os Socketpair_class w;
          fail = (\<lambda>w. case fh_close os fb w of (Done _, w) \<Rightarrow> fail_close os fa E_unset w | (_, w) \<Rightarrow> (Crash, w))
      in case (fa, fb) of
           (Some a, Some b) \<Rightarrow>
             (case lift_os (malloc_pair os) w of
                (None, w) \<Rightarrow> fail w
              | (Some (junk_a, junk_b), w) \<Rightarrow>
                  let w = fh_upd b (\<lambda>f. f\<lparr>fh_u := w_next w\<rparr>) (fh_upd a (\<lambda>f. f\<lparr>fh_u := w_next w\<rparr>) w);
                      sv0 = fh_to_int (Some a) w; sv1 = fh_to_int (Some b) w;
                      pair = \<lparr>sp_a2b = (bip_buffer_init junk_a)\<lparr>bp_fdin := sv0, bp_fdout := sv1\<rparr>,
                              sp_b2a = (bip_buffer_init junk_b)\<lparr>bp_fdin := sv1, bp_fdout := sv0\<rparr>,
                              sp_a_fd = Some a, sp_used = 2\<rparr>;
                      w = w\<lparr>w_pairs := (w_pairs w)(w_next w \<mapsto> pair), w_next := w_next w + 1\<rparr>;
                      w = set_name a (fmt_d sv0 @ ''(pair:'' @ fmt_d sv1 @ '')'') w;
                      w = set_name b (fmt_d sv1 @ ''(pair:'' @ fmt_d sv0 @ '')'') w
                  in (Done (sv0, sv1), w))
         | _ \<Rightarrow> fail w)"

subsection \<open>Calls by descriptor\<close>

definition adb_read :: "'s os \<Rightarrow> int \<Rightarrow> nat \<Rightarrow> 's win \<Rightarrow> byte list io \<times> 's win" where
  "adb_read os fd len w =
     (case fh_from_int fd w of
        None \<Rightarrow> (Err EBADF, w)
      | Some i \<Rightarrow> (case fh_clazz (fh_at w i) of None \<Rightarrow> (Crash, w)
          | Some File_class \<Rightarrow> fh_file_read os i len w
          | Some Socket_class \<Rightarrow> fh_socket_read os i len w
          | Some Socketpair_class \<Rightarrow> fh_socketpair_read i len w))"

definition adb_write :: "'s os \<Rightarrow> int \<Rightarrow> byte list \<Rightarrow> 's win \<Rightarrow> nat io \<times> 's win" where
  "adb_write os fd buf w =
     (case fh_from_int fd w of
        None \<Rightarrow> (Err EBADF, w)
      | Some i \<Rightarrow> (case fh_clazz (fh_at w i) of None \<Rightarrow> (Crash, w)
          | Some File_class \<Rightarrow> fh_file_write os i buf w
          | Some Socket_class \<Rightarrow> fh_socket_write os i buf w
          | Some Socketpair_class \<Rightarrow> fh_socketpair_write i buf w))"

definition adb_lseek :: "'s os \<Rightarrow> int \<Rightarrow> int \<Rightarrow> int \<Rightarrow> 's win \<Rightarrow> int io \<times> 's win" where
  "adb_lseek os fd pos origin w =
     (case fh_from_int fd w of
        None \<Rightarrow> (Err EBADF, w)
      | Some i \<Rightarrow> (case fh_clazz (fh_at w i) of None \<Rightarrow> (Crash, w)
          | Some File_class \<Rightarrow> fh_file_lseek os i pos origin w
          | Some Socket_class \<Rightarrow> (Err EPIPE, w)
          | Some Socketpair_class \<Rightarrow> (Err ESPIPE, w)))"

text \<open>\<open>adb_shutdown\<close> takes the union for a socket whatever the class of the slot.\<close>

definition adb_shutdown :: "'s os \<Rightarrow> int \<Rightarrow> 's win \<Rightarrow> unit io \<times> 's win" where
  "adb_shutdown os fd w =
     (case fh_from_int fd w of
        None \<Rightarrow> (Err EBADF, w)
      | Some i \<Rightarrow> (Done (), w\<lparr>w_os := os_shutdown os (fh_u (fh_at w i)) (w_os w)\<rparr>))"

definition adb_close :: "'s os \<Rightarrow> int \<Rightarrow> 's win \<Rightarrow> unit io \<times> 's win" where
  "adb_close os fd w =
     (case fh_from_int fd w of
        None \<Rightarrow> (Err EBADF, w)
      | Some i \<Rightarrow> (case fh_close os (Some i) w of (Done _, w) \<Rightarrow> (Done (), w) | (_, w) \<Rightarrow> (Crash, w)))"

subsection \<open>The invariant of the table\<close>

definition refers :: "int \<Rightarrow> fh \<Rightarrow> bool" where
  "refers a f \<longleftrightarrow> fh_clazz f = Some Socketpair_class \<and> fh_u f = a"

definition slots_ok :: "'s win \<Rightarrow> bool" where
  "slots_ok w \<longleftrightarrow> length (w_fhs w) = WIN32_MAX_FHS \<and> w_fh_count w \<le> WIN32_MAX_FHS
     \<and> (\<forall>i < WIN32_MAX_FHS. fh_used (fh_at w i) \<longleftrightarrow> fh_clazz (fh_at w i) \<noteq> None)
     \<and> (\<forall>i < WIN32_MAX_FHS. fh_used (fh_at w i) \<longrightarrow> i < w_fh_count w)"

definition pair_ok :: "'s win \<Rightarrow> int \<Rightarrow> sockpair \<Rightarrow> bool" where
  "pair_ok w a p \<longleftrightarrow> 0 < a \<and> a < w_next w \<and> bip_ok (sp_a2b p) \<and> bip_ok (sp_b2a p)
     \<and> 0 < sp_used p \<and> sp_used p = int (length (filter (refers a) (w_fhs w)))
     \<and> (\<forall>i. sp_a_fd p = Some i \<longrightarrow> i < WIN32_MAX_FHS \<and> refers a (fh_at w i))"

definition win_ok :: "'s win \<Rightarrow> bool" where
  "win_ok w \<longleftrightarrow> slots_ok w \<and> 0 < w_next w \<and> (\<forall>a p. w_pairs w a = Some p \<longrightarrow> pair_ok w a p)
     \<and> (\<forall>i < WIN32_MAX_FHS. fh_clazz (fh_at w i) = Some Socketpair_class \<and> fh_u (fh_at w i) \<noteq> 0
          \<longrightarrow> w_pairs w (fh_u (fh_at w i)) \<noteq> None)"

definition live_fh :: "nat \<Rightarrow> 's win \<Rightarrow> bool" where
  "live_fh i w \<longleftrightarrow> i < w_fh_count w \<and> fh_used (fh_at w i)"

definition free_slots :: "'s win \<Rightarrow> nat" where
  "free_slots w = length (filter (\<lambda>f. fh_clazz f = None) (w_fhs w))"

text \<open>The state in which the process starts: zeroed memory.\<close>

definition win_init :: "'s \<Rightarrow> 's win" where
  "win_init s = \<lparr>w_fhs = replicate WIN32_MAX_FHS \<lparr>fh_clazz = None, fh_used = False, fh_eof = False, fh_u = 0,
       fh_event = 0, fh_mask = 0, fh_name = []\<rparr>,
     w_fh_count = 0, w_pairs = Map.empty, w_next = 1, w_winsock = False, w_os = s\<rparr>"

lemma win_init_ok: "win_ok (win_init s)"
  by (simp add: win_ok_def slots_ok_def win_init_def)

lemma length_filter_update:
  "i < length xs \<Longrightarrow> length (filter P (xs[i := x])) + of_bool (P (xs ! i)) = length (filter P xs) + of_bool (P x)"
proof (induction xs arbitrary: i)
  case (Cons y xs)
  then show ?case by (cases i) auto
qed simp

lemma fh_upd_simps [simp]:
  "w_fh_count (fh_upd i f w) = w_fh_count w" "w_pairs (fh_upd i f w) = w_pairs w" "w_next (fh_upd i f w) = w_next w"
  "w_os (fh_upd i f w) = w_os w" "w_winsock (fh_upd i f w) = w_winsock w" "length (w_fhs (fh_upd i f w)) = length (w_fhs w)"
  by (simp_all add: fh_upd_def)

lemma fh_at_upd: "j < length (w_fhs w) \<Longrightarrow> fh_at (fh_upd i f w) j = (if i = j then f (fh_at w i) else fh_at w j)"
  by (simp add: fh_upd_def nth_list_update)

lemma slots_length: "win_ok w \<Longrightarrow> length (w_fhs w) = WIN32_MAX_FHS"
  by (simp add: win_ok_def slots_ok_def)

lemma live_fhD:
  assumes "win_ok w" "live_fh i w"
  shows "i < WIN32_MAX_FHS" "fh_clazz (fh_at w i) \<noteq> None"
  using assms by (auto simp: win_ok_def slots_ok_def live_fh_def)

text \<open>What the operating system does, and what the name and the flags of a slot are, does not matter.\<close>

definition same_table :: "'s win \<Rightarrow> 's win \<Rightarrow> bool" where
  "same_table w w' \<longleftrightarrow> w_fh_count w' = w_fh_count w \<and> w_pairs w' = w_pairs w \<and> w_next w' = w_next w
     \<and> length (w_fhs w') = length (w_fhs w)
     \<and> (\<forall>i < length (w_fhs w). fh_used (fh_at w' i) = fh_used (fh_at w i) \<and> fh_clazz (fh_at w' i) = fh_clazz (fh_at w i)
          \<and> (fh_clazz (fh_at w i) = Some Socketpair_class \<longrightarrow> fh_u (fh_at w' i) = fh_u (fh_at w i)))"

lemma same_table_refl [simp]: "same_table w w"
  by (simp add: same_table_def)

lemma same_table_trans: "same_table u v \<Longrightarrow> same_table v w \<Longrightarrow> same_table u w"
  by (simp add: same_table_def)

lemma same_table_os [simp]: "same_table w (w\<lparr>w_os := s\<rparr>)" "same_table w (w\<lparr>w_winsock := b\<rparr>)"
  by (simp_all add: same_table_def)

lemma same_table_refers:
  assumes "same_table w w'"
  shows "map (refers a) (w_fhs w') = map (refers a) (w_fhs w)"
  using assms by (auto intro!: nth_equalityI simp: same_table_def refers_def)

lemma filter_cong_map:
  assumes "map P xs = map P ys"
  shows "length (filter P xs) = length (filter P ys)"
proof -
  have "length (filter P zs) = length (filter id (map P zs))" for zs :: "'a list"
    by (simp add: filter_map)
  with assms show ?thesis by metis
qed

lemma same_table_pair:
  assumes "same_table w w'" "length (w_fhs w) = WIN32_MAX_FHS"
  shows "pair_ok w' a p = pair_ok w a p"
proof -
  have "length (filter (refers a) (w_fhs w')) = length (filter (refers a) (w_fhs w))"
    by (rule filter_cong_map) (rule same_table_refers [OF assms(1)])
  moreover have "refers a (fh_at w' i) = refers a (fh_at w i)" if "i < WIN32_MAX_FHS" for i
    using assms that by (auto simp: same_table_def refers_def)
  ultimately show ?thesis using assms(1) unfolding pair_ok_def same_table_def by metis
qed

lemma same_table_slots: "same_table w w' \<Longrightarrow> slots_ok w \<Longrightarrow> slots_ok w'"
  by (simp add: same_table_def slots_ok_def)

lemma same_table_ok:
  assumes "same_table w w'" "win_ok w"
  shows "win_ok w'"
  unfolding win_ok_def
proof (intro conjI allI impI)
  show "slots_ok w'" using assms same_table_slots by (auto simp: win_ok_def)
  show "0 < w_next w'" using assms by (simp add: win_ok_def same_table_def)
  show "pair_ok w' a p" if "w_pairs w' a = Some p" for a p
    using assms that same_table_pair [OF assms(1) slots_length] by (simp add: win_ok_def same_table_def)
  show "w_pairs w' (fh_u (fh_at w' i)) \<noteq> None"
    if "i < WIN32_MAX_FHS" "fh_clazz (fh_at w' i) = Some Socketpair_class \<and> fh_u (fh_at w' i) \<noteq> 0" for i
    using assms(2) that assms(1) slots_length [OF assms(2)] unfolding win_ok_def same_table_def by metis
qed

lemma same_table_free:
  assumes "same_table w w'"
  shows "free_slots w' = free_slots w"
proof -
  have "map (\<lambda>f. fh_clazz f = None) (w_fhs w') = map (\<lambda>f. fh_clazz f = None) (w_fhs w)"
    using assms by (auto intro!: nth_equalityI simp: same_table_def)
  then show ?thesis unfolding free_slots_def by (rule filter_cong_map)
qed

lemma same_table_live: "same_table w w' \<Longrightarrow> win_ok w \<Longrightarrow> live_fh i w' = live_fh i w"
  by (auto simp: same_table_def win_ok_def slots_ok_def live_fh_def)

lemma same_table_upd:
  assumes "i < length (w_fhs w)" "fh_used (f (fh_at w i)) = fh_used (fh_at w i)" "fh_clazz (f (fh_at w i)) = fh_clazz (fh_at w i)"
    and "fh_clazz (fh_at w i) = Some Socketpair_class \<Longrightarrow> fh_u (f (fh_at w i)) = fh_u (fh_at w i)"
  shows "same_table w (fh_upd i f w)"
  using assms by (auto simp: same_table_def fh_at_upd)

lemma same_table_lift: "same_table w (snd (lift_os f w))"
  by (simp add: lift_os_def split: prod.splits)

lemma lift_osD: "lift_os f w = (r, w') \<Longrightarrow> same_table w w'"
  using same_table_lift [of w f] by simp

subsection \<open>A new slot\<close>

lemma fh_init_form:
  "\<exists>g s. fh_init os c i w = (fh_upd i g w)\<lparr>w_os := s\<rparr> \<and> (\<forall>f. fh_clazz (g f) = fh_clazz f \<and> fh_used (g f) = fh_used f
     \<and> (c = Socketpair_class \<longrightarrow> fh_u (g f) = 0))"
proof (cases c)
  case File_class
  then show ?thesis
    by (intro exI [of _ "\<lambda>f. f\<lparr>fh_u := INVALID_HANDLE\<rparr>"] exI [of _ "w_os w"]) (simp add: fh_init_def fh_file_init_def)
next
  case Socket_class
  obtain e s where "WSACreateEvent os (w_os w) = (e, s)" by fastforce
  then have "lift_os (WSACreateEvent os) w = (e, w\<lparr>w_os := s\<rparr>)" by (simp add: lift_os_def)
  with Socket_class show ?thesis
    by (intro exI [of _ "\<lambda>f. f\<lparr>fh_u := INVALID_HANDLE, fh_event := e, fh_mask := 0\<rparr>"] exI [of _ s])
      (simp add: fh_init_def fh_socket_init_def fh_upd_def)
next
  case Socketpair_class
  then show ?thesis
    by (intro exI [of _ "\<lambda>f. f\<lparr>fh_u := 0\<rparr>"] exI [of _ "w_os w"]) (simp add: fh_init_def fh_socketpair_init_def)
qed

lemma fh_upd_upd: "i < length (w_fhs w) \<Longrightarrow> fh_upd i g (fh_upd i f w) = fh_upd i (\<lambda>x. g (f x)) w"
  by (simp add: fh_upd_def)

lemma fh_alloc_form:
  assumes "win_ok w" "fh_alloc os c w = (Some i, w')"
  obtains h s n where "w' = (fh_upd i h (w\<lparr>w_fh_count := n\<rparr>))\<lparr>w_os := s\<rparr>" "i < WIN32_MAX_FHS" "fh_clazz (fh_at w i) = None"
    "\<And>f. fh_clazz (h f) = Some c \<and> fh_used (h f) \<and> (c = Socketpair_class \<longrightarrow> fh_u (h f) = 0)"
    "i < n" "w_fh_count w \<le> n" "n \<le> WIN32_MAX_FHS"
proof -
  let ?f = "\<lambda>f. f\<lparr>fh_clazz := Some c, fh_used := True, fh_eof := False\<rparr>"
  have slots: "length (w_fhs w) = WIN32_MAX_FHS" "w_fh_count w \<le> WIN32_MAX_FHS"
    "\<And>j. j < WIN32_MAX_FHS \<Longrightarrow> fh_used (fh_at w j) \<longleftrightarrow> fh_clazz (fh_at w j) \<noteq> None"
    "\<And>j. j < WIN32_MAX_FHS \<Longrightarrow> fh_used (fh_at w j) \<Longrightarrow> j < w_fh_count w"
    using assms(1) by (simp_all add: win_ok_def slots_ok_def)
  obtain n where n: "w' = fh_init os c i (fh_upd i ?f (w\<lparr>w_fh_count := n\<rparr>))" "i < WIN32_MAX_FHS" "fh_clazz (fh_at w i) = None"
    "i < n" "w_fh_count w \<le> n" "n \<le> WIN32_MAX_FHS"
  proof (cases "w_fh_count w < WIN32_MAX_FHS")
    case True
    then have "i = w_fh_count w" "w' = fh_init os c i (fh_upd i ?f (w\<lparr>w_fh_count := w_fh_count w + 1\<rparr>))"
      using assms(2) by (auto simp: fh_alloc_def)
    moreover from this True slots(3,4) have "fh_clazz (fh_at w i) = None" by blast
    ultimately show ?thesis using True by (intro that [of "w_fh_count w + 1"]) simp_all
  next
    case False
    then obtain "first_index (\<lambda>f. fh_clazz f = None) (w_fhs w) = Some i" "w' = fh_init os c i (fh_upd i ?f w)"
      using assms(2) by (auto simp: fh_alloc_def split: option.splits)
    moreover have wc: "w\<lparr>w_fh_count := WIN32_MAX_FHS\<rparr> = w" using False slots(2) by (cases w) simp
    ultimately show ?thesis using first_index_SomeD [of "\<lambda>f. fh_clazz f = None" "w_fhs w" i] False slots(1,2)
      by (intro that [of WIN32_MAX_FHS]) (simp_all add: wc)
  qed
  obtain g s where g: "fh_init os c i (fh_upd i ?f (w\<lparr>w_fh_count := n\<rparr>))
      = (fh_upd i g (fh_upd i ?f (w\<lparr>w_fh_count := n\<rparr>)))\<lparr>w_os := s\<rparr>"
    "\<And>f. fh_clazz (g f) = fh_clazz f \<and> fh_used (g f) = fh_used f \<and> (c = Socketpair_class \<longrightarrow> fh_u (g f) = 0)"
    using fh_init_form [of os c i "fh_upd i ?f (w\<lparr>w_fh_count := n\<rparr>)"] by blast
  show ?thesis
    by (rule that [of s "\<lambda>f. g (?f f)" n]) (use n g slots(1) in \<open>simp_all add: fh_upd_upd\<close>)
qed

lemma refers_upd_count:
  assumes "i < length (w_fhs w)" "refers a (f (fh_at w i)) = refers a (fh_at w i)"
  shows "length (filter (refers a) (w_fhs (fh_upd i f w))) = length (filter (refers a) (w_fhs w))"
  using length_filter_update [OF assms(1), of "refers a" "f (fh_at w i)"] assms(2) by (simp add: fh_upd_def)

lemma claim_slot_ok:
  assumes "win_ok w" "i < WIN32_MAX_FHS" "fh_clazz (fh_at w i) = None" "i < n" "w_fh_count w \<le> n" "n \<le> WIN32_MAX_FHS"
    and "\<And>f. fh_clazz (h f) = Some c \<and> fh_used (h f) \<and> (c = Socketpair_class \<longrightarrow> fh_u (h f) = 0)"
  shows "win_ok (fh_upd i h (w\<lparr>w_fh_count := n\<rparr>))" (is "win_ok ?w")
  unfolding win_ok_def
proof (intro conjI allI impI)
  have len: "length (w_fhs w) = WIN32_MAX_FHS" by (rule slots_length [OF assms(1)])
  then have at: "fh_at ?w j = (if i = j then h (fh_at w i) else fh_at w j)" if "j < WIN32_MAX_FHS" for j
    using that by (simp add: fh_at_upd)
  show "slots_ok ?w"
    using assms at len by (auto simp: slots_ok_def win_ok_def)
  show "0 < w_next ?w" using assms(1) by (simp add: win_ok_def)
  show "pair_ok ?w a p" if "w_pairs ?w a = Some p" for a p
  proof -
    have p: "pair_ok w a p" using that assms(1) by (simp add: win_ok_def)
    then have r: "\<not> refers a (h (fh_at w i))" "\<not> refers a (fh_at w i)"
      using assms(3,7) by (auto simp: refers_def pair_ok_def)
    then have "length (filter (refers a) (w_fhs ?w)) = length (filter (refers a) (w_fhs w))"
      using refers_upd_count [of i "w\<lparr>w_fh_count := n\<rparr>" a h] assms(2) len by simp
    moreover have "refers a (fh_at ?w j) = refers a (fh_at w j)" if "j < WIN32_MAX_FHS" for j
      using r at [OF that] by auto
    ultimately show ?thesis using p unfolding pair_ok_def by (auto simp del: of_nat_0_less_iff)
  qed
  show "w_pairs ?w (fh_u (fh_at ?w j)) \<noteq> None"
    if "j < WIN32_MAX_FHS" "fh_clazz (fh_at ?w j) = Some Socketpair_class \<and> fh_u (fh_at ?w j) \<noteq> 0" for j
    using that assms(1,7) at by (auto simp: win_ok_def split: if_splits)
qed

lemma fh_alloc_Some:
  assumes "win_ok w" "fh_alloc os c w = (Some i, w')"
  shows "win_ok w' \<and> i < WIN32_MAX_FHS \<and> fh_clazz (fh_at w i) = None \<and> live_fh i w' \<and> fh_clazz (fh_at w' i) = Some c
    \<and> (c = Socketpair_class \<longrightarrow> fh_u (fh_at w' i) = 0) \<and> w_pairs w' = w_pairs w \<and> w_next w' = w_next w
    \<and> free_slots w = Suc (free_slots w') \<and> w_winsock w' = w_winsock w
    \<and> (\<forall>j < WIN32_MAX_FHS. j \<noteq> i \<longrightarrow> fh_at w' j = fh_at w j \<and> live_fh j w' = live_fh j w)"
proof -
  obtain h s n where w': "w' = (fh_upd i h (w\<lparr>w_fh_count := n\<rparr>))\<lparr>w_os := s\<rparr>"
    and i: "i < WIN32_MAX_FHS" "fh_clazz (fh_at w i) = None" "i < n" "w_fh_count w \<le> n" "n \<le> WIN32_MAX_FHS"
    and h: "\<And>f. fh_clazz (h f) = Some c \<and> fh_used (h f) \<and> (c = Socketpair_class \<longrightarrow> fh_u (h f) = 0)"
    using fh_alloc_form [OF assms] by metis
  have len: "length (w_fhs w) = WIN32_MAX_FHS" by (rule slots_length [OF assms(1)])
  have ok: "win_ok w'"
    unfolding w' by (rule same_table_ok [OF same_table_os(1) claim_slot_ok [OF assms(1) i h]])
  have at: "fh_at w' j = (if i = j then h (fh_at w i) else fh_at w j)" if "j < WIN32_MAX_FHS" for j
    using that len by (simp add: w' fh_at_upd)
  have "free_slots w = Suc (free_slots w')"
    using length_filter_update [of i "w_fhs w" "\<lambda>f. fh_clazz f = None" "h (fh_at w i)"] i len h
    by (simp add: free_slots_def w' fh_upd_def)
  moreover have "live_fh j w' = live_fh j w" if "j < WIN32_MAX_FHS" "j \<noteq> i" for j
    using at [OF that(1)] that i(4) assms(1) by (auto simp: live_fh_def w' win_ok_def slots_ok_def)
  ultimately show ?thesis using ok i at h by (simp add: live_fh_def w')
qed

lemma fh_alloc_None:
  assumes "win_ok w" "fh_alloc os c w = (None, w')"
  shows "w' = w \<and> free_slots w = 0"
  using assms by (auto simp: fh_alloc_def free_slots_def first_index_None filter_empty_conv split: if_splits option.splits)

subsection \<open>Closing a slot\<close>

text \<open>The last step of \<open>_fh_close\<close>, on a slot whose class has let go of it.\<close>

definition release :: "fh \<Rightarrow> fh" where
  "release f = f\<lparr>fh_used := False, fh_eof := False, fh_clazz := None\<rparr>"

lemma release_ok:
  assumes "win_ok w" "i < WIN32_MAX_FHS" "fh_clazz (fh_at w i) \<noteq> Some Socketpair_class \<or> fh_u (fh_at w i) = 0"
  shows "win_ok (fh_upd i release w)" (is "win_ok ?w")
  unfolding win_ok_def
proof (intro conjI allI impI)
  have len: "length (w_fhs w) = WIN32_MAX_FHS" by (rule slots_length [OF assms(1)])
  then have at: "fh_at ?w j = (if i = j then release (fh_at w i) else fh_at w j)" if "j < WIN32_MAX_FHS" for j
    using that by (simp add: fh_at_upd)
  show "slots_ok ?w" using assms at len by (auto simp: slots_ok_def win_ok_def release_def)
  show "0 < w_next ?w" using assms(1) by (simp add: win_ok_def)
  show "pair_ok ?w a p" if "w_pairs ?w a = Some p" for a p
  proof -
    have p: "pair_ok w a p" using that assms(1) by (simp add: win_ok_def)
    then have r: "\<not> refers a (release (fh_at w i))" "\<not> refers a (fh_at w i)"
      using assms(3) by (auto simp: refers_def pair_ok_def release_def)
    then have "length (filter (refers a) (w_fhs ?w)) = length (filter (refers a) (w_fhs w))"
      using refers_upd_count [of i w a release] assms(2) len by simp
    moreover have "refers a (fh_at ?w j) = refers a (fh_at w j)" if "j < WIN32_MAX_FHS" for j
      using r at [OF that] by auto
    ultimately show ?thesis using p unfolding pair_ok_def by (auto simp del: of_nat_0_less_iff)
  qed
  show "w_pairs ?w (fh_u (fh_at ?w j)) \<noteq> None"
    if "j < WIN32_MAX_FHS" "fh_clazz (fh_at ?w j) = Some Socketpair_class \<and> fh_u (fh_at ?w j) \<noteq> 0" for j
    using that assms(1) at by (auto simp: win_ok_def release_def split: if_splits)
qed

text \<open>One end of a pair lets go of it; the last one frees it.\<close>

lemma drop_end_ok:
  assumes "win_ok w" "i < WIN32_MAX_FHS" "refers a (fh_at w i)" "a \<noteq> 0" "w_pairs w a = Some p"
    and p': "bip_ok (sp_a2b p')" "bip_ok (sp_b2a p')" "sp_used p' = sp_used p - 1"
      "sp_a_fd p' = (if sp_a_fd p = Some i then None else sp_a_fd p)"
  shows "win_ok (fh_upd i (\<lambda>f. f\<lparr>fh_u := 0\<rparr>) (w\<lparr>w_pairs := (w_pairs w)(a := if sp_used p' = 0 then None else Some p')\<rparr>))"
    (is "win_ok ?w")
proof -
  have len: "length (w_fhs w) = WIN32_MAX_FHS" by (rule slots_length [OF assms(1)])
  then have at: "fh_at ?w j = (if i = j then (fh_at w i)\<lparr>fh_u := 0\<rparr> else fh_at w j)" if "j < WIN32_MAX_FHS" for j
    using that by (simp add: fh_at_upd)
  have pa: "pair_ok w a p" using assms(1,5) by (simp add: win_ok_def)
  have "length (filter (refers a) (w_fhs ?w)) + 1 = length (filter (refers a) (w_fhs w))"
    using length_filter_update [of i "w_fhs w" "refers a" "(fh_at w i)\<lparr>fh_u := 0\<rparr>"] assms(2,3,4) len
    by (simp add: fh_upd_def refers_def)
  then have cnt: "sp_used p' = int (length (filter (refers a) (w_fhs ?w)))"
    using pa p'(3) unfolding pair_ok_def by linarith
  have other: "length (filter (refers b) (w_fhs ?w)) = length (filter (refers b) (w_fhs w))" if "b \<noteq> a" "b \<noteq> 0" for b
    using length_filter_update [of i "w_fhs w" "refers b" "(fh_at w i)\<lparr>fh_u := 0\<rparr>"] assms(2,3) len that
    by (simp add: fh_upd_def refers_def)
  have kept: "refers b (fh_at ?w j) \<longleftrightarrow> refers b (fh_at w j) \<and> j \<noteq> i" if "b \<noteq> 0" "j < WIN32_MAX_FHS" for b j
    using at [OF that(2)] that(1) by (auto simp: refers_def)
  show ?thesis
    unfolding win_ok_def
  proof (intro conjI allI impI)
    show "slots_ok ?w" using assms(1) at len by (auto simp: slots_ok_def win_ok_def)
    show "0 < w_next ?w" using assms(1) by (simp add: win_ok_def)
    show "pair_ok ?w b q" if "w_pairs ?w b = Some q" for b q
    proof (cases "b = a")
      case True
      then have "q = p'" "sp_used p' \<noteq> 0" using that by (auto split: if_splits)
      moreover have "k < WIN32_MAX_FHS \<and> refers a (fh_at ?w k)" if "sp_a_fd p' = Some k" for k
        using that p'(4) pa kept [of a k] assms(4) by (auto simp: pair_ok_def split: if_splits)
      ultimately show ?thesis using True pa p'(1,2) cnt by (simp add: pair_ok_def)
    next
      case False
      then have q: "pair_ok w b q" using that assms(1) by (auto simp: win_ok_def split: if_splits)
      then have "b \<noteq> 0" by (simp add: pair_ok_def)
      moreover have "j \<noteq> i" if "refers b (fh_at w j)" for j
        using that assms(3) False by (auto simp: refers_def)
      ultimately show ?thesis
        using q other [OF False] kept [of b] unfolding pair_ok_def by (auto simp del: of_nat_0_less_iff)
    qed
    show "w_pairs ?w (fh_u (fh_at ?w j)) \<noteq> None"
      if "j < WIN32_MAX_FHS" "fh_clazz (fh_at ?w j) = Some Socketpair_class \<and> fh_u (fh_at ?w j) \<noteq> 0" for j
    proof (cases "fh_u (fh_at ?w j) = a")
      case True
      then have "refers a (fh_at ?w j)" using that(2) by (simp add: refers_def)
      moreover have "fh_at ?w j \<in> set (w_fhs ?w)" using that(1) len by simp
      ultimately have "filter (refers a) (w_fhs ?w) \<noteq> []" by (auto simp: filter_empty_conv)
      then have "0 < length (filter (refers a) (w_fhs ?w))" by blast
      with cnt have "sp_used p' \<noteq> 0" by linarith
      then show ?thesis using True by simp
    next
      case False
      then show ?thesis using that assms(1) at by (auto simp: win_ok_def split: if_splits)
    qed
  qed
qed

definition untouched :: "nat \<Rightarrow> 's win \<Rightarrow> 's win \<Rightarrow> bool" where
  "untouched i w w' \<longleftrightarrow> (\<forall>j < WIN32_MAX_FHS. j \<noteq> i \<longrightarrow> fh_at w' j = fh_at w j) \<and> w_fh_count w' = w_fh_count w"

lemma clazz_close_ok:
  assumes "win_ok w" "i < WIN32_MAX_FHS" "fh_clazz (fh_at w i) = Some c"
  shows "\<exists>w'. fh_clazz_close os c i w = (Done (), w') \<and> win_ok w' \<and> untouched i w w'
    \<and> (fh_clazz (fh_at w' i) \<noteq> Some Socketpair_class \<or> fh_u (fh_at w' i) = 0)"
proof -
  have len: "length (w_fhs w) = WIN32_MAX_FHS" by (rule slots_length [OF assms(1)])
  have step: "win_ok (fh_upd i g (w\<lparr>w_os := s\<rparr>)) \<and> untouched i w (fh_upd i g (w\<lparr>w_os := s\<rparr>))
      \<and> fh_clazz (fh_at (fh_upd i g (w\<lparr>w_os := s\<rparr>)) i) = Some c"
    if "\<And>f. fh_used (g f) = fh_used f \<and> fh_clazz (g f) = fh_clazz f" "c \<noteq> Socketpair_class" for g s
  proof -
    have "same_table (w\<lparr>w_os := s\<rparr>) (fh_upd i g (w\<lparr>w_os := s\<rparr>))"
      using that assms(2,3) len by (intro same_table_upd) simp_all
    with assms(1) that show ?thesis
      using assms(2,3) len by (auto intro: same_table_ok same_table_trans [OF same_table_os(1)] simp: untouched_def fh_at_upd)
  qed
  show ?thesis
  proof (cases c)
    case File_class
    then show ?thesis
      using step [of "\<lambda>f. f\<lparr>fh_u := INVALID_HANDLE\<rparr>"] by (simp add: fh_clazz_close_def fh_file_close_def)
  next
    case Socket_class
    then show ?thesis
      using step [of "\<lambda>f. f\<lparr>fh_u := INVALID_HANDLE, fh_mask := 0\<rparr>"]
      by (simp add: fh_clazz_close_def fh_socket_close_def Let_def)
  next
    case Socketpair_class
    show ?thesis
    proof (cases "fh_u (fh_at w i) = 0")
      case True
      then show ?thesis using Socketpair_class assms(1)
        by (simp add: fh_clazz_close_def fh_socketpair_close_def untouched_def)
    next
      case False
      then obtain p where p: "w_pairs w (fh_u (fh_at w i)) = Some p"
        using assms Socketpair_class by (auto simp: win_ok_def)
      then have ok: "bip_ok (sp_a2b p)" "bip_ok (sp_b2a p)" using assms(1) by (auto simp: win_ok_def pair_ok_def)
      define p' where "p' = p\<lparr>sp_a_fd := (if sp_a_fd p = Some i then None else sp_a_fd p),
        sp_b2a := bip_buffer_close (sp_b2a p), sp_a2b := bip_buffer_close (sp_a2b p), sp_used := sp_used p - 1\<rparr>"
      let ?w = "fh_upd i (\<lambda>f. f\<lparr>fh_u := 0\<rparr>)
        (w\<lparr>w_pairs := (w_pairs w)(fh_u (fh_at w i) := if sp_used p' = 0 then None else Some p')\<rparr>)"
      have "fh_clazz_close os c i w = (Done (), ?w)"
        using Socketpair_class False p by (simp add: fh_clazz_close_def fh_socketpair_close_def Let_def p'_def)
      moreover have "win_ok ?w"
        using assms Socketpair_class False p ok
        by (intro drop_end_ok) (auto simp: refers_def p'_def bip_close_ok)
      ultimately show ?thesis using assms(2) len by (auto simp: untouched_def fh_at_upd)
    qed
  qed
qed

lemma fh_close_ok:
  assumes "win_ok w" "live_fh i w"
  obtains w' where "fh_close os (Some i) w = (Done (), w')" "win_ok w'" "untouched i w w'" "\<not> live_fh i w'"
proof -
  from live_fhD [OF assms] obtain c where i: "i < WIN32_MAX_FHS" "fh_clazz (fh_at w i) = Some c" by auto
  from clazz_close_ok [OF assms(1) i, of os] obtain w1 where w1: "fh_clazz_close os c i w = (Done (), w1)" "win_ok w1" "untouched i w w1"
    "fh_clazz (fh_at w1 i) \<noteq> Some Socketpair_class \<or> fh_u (fh_at w1 i) = 0" by blast
  show ?thesis
  proof (rule that)
    show "fh_close os (Some i) w = (Done (), fh_upd i release w1)"
      using assms(2) i w1 by (simp add: fh_close_def live_fh_def release_def [abs_def])
    show "win_ok (fh_upd i release w1)" using release_ok [OF w1(2) i(1) w1(4)] .
    show "untouched i w (fh_upd i release w1)" "\<not> live_fh i (fh_upd i release w1)"
      using w1(3) i(1) slots_length [OF w1(2)] by (auto simp: untouched_def fh_at_upd live_fh_def release_def)
  qed
qed

subsection \<open>Every call keeps the table\<close>

text \<open>
  What a call that starts in \<open>w\<close> must not do: break the table, follow a bad pointer, or stop the process
  for another reason than Winsock.
\<close>

definition win_safe :: "'s win \<Rightarrow> 'a io \<times> 's win \<Rightarrow> bool" where
  "win_safe w r \<longleftrightarrow> win_ok (snd r) \<and> fst r \<noteq> Crash \<and> (fst r = Fatal \<longrightarrow> \<not> w_winsock w)"

text \<open>A slot in use that is not an end of a pair.\<close>

definition plain_fh :: "nat \<Rightarrow> 's win \<Rightarrow> bool" where
  "plain_fh i w \<longleftrightarrow> win_ok w \<and> live_fh i w \<and> fh_clazz (fh_at w i) \<noteq> Some Socketpair_class"

named_theorems win_intro \<open>safety of the calls of the table\<close>

lemma safe_same [win_intro]:
  "win_ok v \<Longrightarrow> same_table v w' \<Longrightarrow> r \<noteq> Crash \<Longrightarrow> r \<noteq> Fatal \<Longrightarrow> win_safe w (r, w')"
  by (auto simp: win_safe_def intro: same_table_ok)

lemma plain_length: "plain_fh i w \<Longrightarrow> i < length (w_fhs w)"
  using live_fhD(1) [of w i] slots_length [of w] by (simp add: plain_fh_def)

lemma plain_same:
  assumes "plain_fh i w" "same_table w w'"
  shows "plain_fh i w'"
proof -
  have "fh_clazz (fh_at w' i) = fh_clazz (fh_at w i)"
    using assms(2) plain_length [OF assms(1)] by (simp add: same_table_def)
  moreover have "win_ok w" "live_fh i w" using assms(1) by (simp_all add: plain_fh_def)
  ultimately show ?thesis
    using assms(1) same_table_ok [OF assms(2)] same_table_live [OF assms(2), of i] unfolding plain_fh_def by metis
qed

lemma plain_lift: "plain_fh i w \<Longrightarrow> lift_os f w = (r, w') \<Longrightarrow> plain_fh i w'"
  by (rule plain_same [OF _ lift_osD])

lemma plain_upd:
  assumes "plain_fh i w" "\<And>f. fh_used (g f) = fh_used f \<and> fh_clazz (g f) = fh_clazz f"
  shows "plain_fh i (fh_upd i g w)"
proof (rule plain_same [OF assms(1)])
  have "fh_clazz (fh_at w i) \<noteq> Some Socketpair_class" using assms(1) by (simp add: plain_fh_def)
  then show "same_table w (fh_upd i g w)"
    using plain_length [OF assms(1)] assms(2) by (intro same_table_upd) auto
qed

lemma plain_upd_u [win_intro]: "plain_fh i w \<Longrightarrow> plain_fh i (fh_upd i (\<lambda>f. f\<lparr>fh_u := h\<rparr>) w)"
  by (rule plain_upd) simp_all

lemma plain_os [win_intro]: "plain_fh i w \<Longrightarrow> plain_fh i (w\<lparr>w_os := s\<rparr>)"
  by (erule plain_same) simp

lemma safe_fail_close [win_intro]: "plain_fh i v \<Longrightarrow> win_safe w (fail_close os (Some i) e v)"
  unfolding plain_fh_def by (elim conjE, rule fh_close_ok [of v i os]) (simp_all add: fail_close_def win_safe_def)

lemma safe_named [win_intro]: "plain_fh i v \<Longrightarrow> win_safe w (named i n v)"
  using plain_upd [of i v "\<lambda>f. f\<lparr>fh_name := take 31 (fmt_d (fh_to_int (Some i) v) @ ''('' @ n @ '')'')\<rparr>"]
  by (simp add: named_def set_name_def win_safe_def plain_fh_def Let_def)

lemma alloc_plain:
  assumes "win_ok w" "fh_alloc os c w = (Some i, w')" "c \<noteq> Socketpair_class"
  shows "plain_fh i w'" "w_winsock w' = w_winsock w"
  using fh_alloc_Some [OF assms(1,2)] assms(3) by (simp_all add: plain_fh_def)

lemma safe_open_file [win_intro]:
  assumes "win_ok w"
  shows "win_safe w (open_file os path access disposition w)"
proof (cases "fh_alloc os File_class w")
  case (Pair r w1)
  show ?thesis
  proof (cases r)
    case None
    with Pair fh_alloc_None [OF assms] show ?thesis using assms by (auto simp: open_file_def win_safe_def)
  next
    case (Some i)
    obtain h w2 where l: "lift_os (CreateFile os path access disposition) w1 = (h, w2)" by fastforce
    have p: "plain_fh i (fh_upd i (\<lambda>f. f\<lparr>fh_u := h\<rparr>) w2)"
      using alloc_plain(1) [OF assms, of os File_class i w1] Pair Some by (intro plain_upd_u plain_lift [OF _ l]) simp
    then obtain w3 where "fh_close os (Some i) (fh_upd i (\<lambda>f. f\<lparr>fh_u := h\<rparr>) w2) = (Done (), w3)" "win_ok w3"
      using fh_close_ok [of _ i os] by (metis plain_fh_def)
    with p Pair Some l show ?thesis by (auto simp: open_file_def Let_def safe_named win_safe_def [of w "(_, _)"])
  qed
qed

lemma safe_adb_open [win_intro]: "win_ok w \<Longrightarrow> win_safe w (adb_open os path options w)"
  by (simp add: adb_open_def safe_open_file safe_same)

lemma safe_adb_creat [win_intro]: "win_ok w \<Longrightarrow> win_safe w (adb_creat os path w)"
  by (simp add: adb_creat_def safe_open_file)

lemma safe_connect [win_intro]:
  assumes "plain_fh i v"
  shows "win_safe w (connect_fh os i s addr name v)"
proof -
  obtain r v' where l: "lift_os (os_connect os s addr) (fh_upd i (\<lambda>f. f\<lparr>fh_u := s\<rparr>) v) = (r, v')" by fastforce
  then have "plain_fh i v'" using assms by (intro plain_lift [OF _ l] win_intro)
  with l show ?thesis by (simp add: connect_fh_def Let_def win_intro)
qed

lemma safe_bind [win_intro]:
  assumes "plain_fh i v"
  shows "win_safe w (bind_fh os i s addr type name v)"
proof -
  let ?v = "(fh_upd i (\<lambda>f. f\<lparr>fh_u := s\<rparr>) v)\<lparr>w_os := os_setsockopt os s SO_EXCLUSIVEADDRUSE (w_os v)\<rparr>"
  obtain r v' where l: "lift_os (os_bind os s addr) ?v = (r, v')" by fastforce
  then have v': "plain_fh i v'" using assms by (intro plain_lift [OF _ l] win_intro)
  obtain r2 v'' where l2: "lift_os (os_listen os s 4) v' = (r2, v'')" by fastforce
  with v' have "plain_fh i v''" by (intro plain_lift [OF _ l2])
  with l l2 v' show ?thesis by (simp add: bind_fh_def Let_def win_intro)
qed

lemma safe_new_socket:
  assumes "win_ok w" and k: "\<And>i v. plain_fh i v \<Longrightarrow> win_safe w (k i v)"
  shows "win_safe w (new_socket_fh os k w)"
proof (cases "fh_alloc os Socket_class w")
  case (Pair r w1)
  show ?thesis
  proof (cases r)
    case None
    with Pair fh_alloc_None [OF assms(1)] show ?thesis using assms(1) by (auto simp: new_socket_fh_def win_safe_def)
  next
    case (Some i)
    have p: "plain_fh i w1" "w_winsock w1 = w_winsock w" using alloc_plain [OF assms(1), of os Socket_class i w1] Pair Some by simp_all
    obtain rc w2 where l: "lift_os (WSAStartup os) w1 = (rc, w2)" by fastforce
    have "plain_fh i w2" "plain_fh i (w2\<lparr>w_winsock := True\<rparr>)"
      using plain_lift [OF p(1) l] plain_same [OF _ same_table_os(2)] by blast+
    then show ?thesis using p Pair Some l k
      by (simp add: new_socket_fh_def init_winsock_def win_safe_def [of w "(_, _)"] plain_fh_def)
  qed
qed

lemma safe_sockets [win_intro]:
  assumes "win_ok w"
  shows "win_safe w (socket_loopback_client os port type w)" "win_safe w (socket_inaddr_any_server os port type w)"
    "win_safe w (socket_network_client os host port type w)" "win_safe w (socket_loopback_server os port type w)"
proof -
  have k: "win_safe w (let (s, v) = lift_os (os_socket os family type) v
      in if s = INVALID_HANDLE then fail s v else go s v)"
    if "plain_fh i v" "\<And>s v. plain_fh i v \<Longrightarrow> win_safe w (fail s v)" "\<And>s v. plain_fh i v \<Longrightarrow> win_safe w (go s v)"
    for family fail go i and v :: "'a win"
    by (cases "lift_os (os_socket os family type) v") (simp add: that(2,3) plain_lift [OF that(1)])
  have e: "win_safe w (Err E_unset, v)" if "plain_fh i v" for i v
    using that by (simp add: win_safe_def plain_fh_def)
  show "win_safe w (socket_loopback_client os port type w)"
    unfolding socket_loopback_client_def by (rule safe_new_socket [OF assms], rule k) (assumption | rule win_intro)+
  show "win_safe w (socket_inaddr_any_server os port type w)"
    unfolding socket_inaddr_any_server_def by (rule safe_new_socket [OF assms], rule k) (assumption | rule win_intro)+
  show "win_safe w (socket_loopback_server os port type w)"
    unfolding socket_loopback_server_def by (rule safe_new_socket [OF assms], rule k) (assumption | rule e win_intro)+
  have "win_safe w (case lift_os (gethostbyname os host) v of
      (None, w) \<Rightarrow> fail_close os (Some i) E_unset w
    | (Some (family, h_addr), w) \<Rightarrow>
        let (s, w) = lift_os (os_socket os family type) w
        in if s = INVALID_HANDLE then fail_close os (Some i) E_unset w
           else connect_fh os i s (family, of_int port, h_addr) (''net-client:'' @ udp_name type @ fmt_d port) w)"
    if "plain_fh i v" for i v
  proof (cases "lift_os (gethostbyname os host) v")
    case (Pair r v')
    then have "plain_fh i v'" by (rule plain_lift [OF that])
    with Pair show ?thesis
      by (cases r) (auto simp del: append.simps intro!: k [unfolded Let_def] win_intro)
  qed
  then show "win_safe w (socket_network_client os host port type w)"
    unfolding socket_network_client_def by (rule safe_new_socket [OF assms])
qed

lemma from_int_live: "fh_from_int fd w = Some i \<Longrightarrow> live_fh i w"
  by (auto simp: fh_from_int_def live_fh_def Let_def split: if_splits)

lemma safe_Err [win_intro]: "win_ok v \<Longrightarrow> win_safe w (Err e, v)"
  by (simp add: win_safe_def)

lemma safe_Done [win_intro]: "win_ok v \<Longrightarrow> win_safe w (Done x, v)"
  by (simp add: win_safe_def)

lemma plain_ok: "plain_fh i w \<Longrightarrow> win_ok w"
  by (simp add: plain_fh_def)

lemma safe_accept [win_intro]:
  assumes "win_ok w"
  shows "win_safe w (adb_socket_accept os fd w)"
proof (cases "fh_from_int fd w")
  case None
  then show ?thesis using assms by (simp add: adb_socket_accept_def safe_Err)
next
  case (Some sv)
  show ?thesis
  proof (cases "fh_alloc os Socket_class w")
    case (Pair r w1)
    show ?thesis
    proof (cases r)
      case None
      with Pair Some fh_alloc_None [OF assms, of os Socket_class w1] show ?thesis
        using assms by (simp add: adb_socket_accept_def safe_Err)
    next
      case (Some i)
      obtain s w2 where l: "lift_os (os_accept os (fh_u (fh_at w1 sv))) w1 = (s, w2)" by fastforce
      have "plain_fh i (fh_upd i (\<lambda>f. f\<lparr>fh_u := s\<rparr>) w2)"
        using alloc_plain(1) [OF assms, of os Socket_class i w1] Pair Some by (intro plain_upd_u plain_lift [OF _ l]) simp
      then show ?thesis using Pair Some l \<open>fh_from_int fd w = Some sv\<close> assms
        by (auto simp: adb_socket_accept_def Let_def safe_Err safe_named intro: safe_fail_close)
    qed
  qed
qed

lemma safe_bip_read:
  assumes "bip_ok b" "bip_buffer_read n b = (r, b')"
  shows "bip_ok b' \<and> r \<noteq> Crash \<and> r \<noteq> Fatal"
  by (rule bipq.rd_cases [OF assms(1), of n]) (use assms in auto)

lemma safe_bip_write:
  assumes "bip_ok b" "bip_buffer_write src b = (r, b')"
  shows "bip_ok b' \<and> r \<noteq> Crash \<and> r \<noteq> Fatal"
  by (rule bipq.wr_cases [OF assms(1), of src]) (use assms in auto)

text \<open>The buffers of a pair change, and the rest of the table stays.\<close>

lemma put_pair_ok:
  assumes "win_ok w" "w_pairs w a = Some p" "bip_ok (sp_a2b q)" "bip_ok (sp_b2a q)" "sp_used q = sp_used p" "sp_a_fd q = sp_a_fd p"
  shows "win_ok (w\<lparr>w_pairs := (w_pairs w)(a \<mapsto> q)\<rparr>)"
proof -
  have "pair_ok w a p" using assms(1,2) by (simp add: win_ok_def)
  with assms(3-6) have "pair_ok w a q" by (simp add: pair_ok_def del: of_nat_0_less_iff)
  moreover have "pair_ok (w\<lparr>w_pairs := m\<rparr>) b r = pair_ok w b r" for m b r by (simp add: pair_ok_def)
  ultimately show ?thesis using assms(1) by (auto simp: win_ok_def slots_ok_def)
qed

lemma safe_pair_read:
  assumes "win_ok w" "live_fh i w" "fh_clazz (fh_at w i) = Some Socketpair_class"
  shows "win_safe w (fh_socketpair_read i len w)" "win_safe w (fh_socketpair_write i buf w)"
proof -
  have *: "\<exists>p. w_pairs w (fh_u (fh_at w i)) = Some p \<and> bip_ok (sp_a2b p) \<and> bip_ok (sp_b2a p)" if "fh_u (fh_at w i) \<noteq> 0"
    using that assms live_fhD(1) [OF assms(1,2)] unfolding win_ok_def pair_ok_def by blast
  show "win_safe w (fh_socketpair_read i len w)"
  proof (cases "fh_u (fh_at w i) = 0")
    case False
    with * obtain p where "w_pairs w (fh_u (fh_at w i)) = Some p" "bip_ok (sp_a2b p)" "bip_ok (sp_b2a p)" by blast
    with False assms(1) show ?thesis
      by (auto simp: fh_socketpair_read_def win_safe_def Let_def split: prod.splits dest: safe_bip_read intro!: put_pair_ok)
  qed (use assms(1) in \<open>simp add: fh_socketpair_read_def safe_Err\<close>)
  show "win_safe w (fh_socketpair_write i buf w)"
  proof (cases "fh_u (fh_at w i) = 0")
    case False
    with * obtain p where "w_pairs w (fh_u (fh_at w i)) = Some p" "bip_ok (sp_a2b p)" "bip_ok (sp_b2a p)" by blast
    with False assms(1) show ?thesis
      by (auto simp: fh_socketpair_write_def win_safe_def Let_def split: prod.splits dest: safe_bip_write intro!: put_pair_ok)
  qed (use assms(1) in \<open>simp add: fh_socketpair_write_def safe_Err\<close>)
qed

lemma safe_file_io:
  assumes "plain_fh i w"
  shows "win_safe w (fh_file_read os i len w)" "win_safe w (fh_file_write os i buf w)"
    "win_safe w (fh_file_lseek os i pos origin w)"
proof -
  have eof: "plain_fh i (fh_upd i (\<lambda>f. f\<lparr>fh_eof := e\<rparr>) v)" if "plain_fh i v" for e v
    using that by (rule plain_upd) simp
  show "win_safe w (fh_file_read os i len w)"
  proof (cases "lift_os (ReadFile os (fh_u (fh_at w i)) len) w")
    case (Pair r v)
    then show ?thesis using plain_ok [OF plain_lift [OF assms Pair]] plain_ok [OF eof [OF plain_lift [OF assms Pair]]]
      by (simp add: fh_file_read_def win_intro split: option.splits)
  qed
  show "win_safe w (fh_file_write os i buf w)"
  proof (cases "lift_os (WriteFile os (fh_u (fh_at w i)) buf) w")
    case (Pair r v)
    then show ?thesis using plain_ok [OF plain_lift [OF assms Pair]] plain_ok [OF eof [OF plain_lift [OF assms Pair]]]
      by (simp add: fh_file_write_def win_intro split: option.splits)
  qed
  show "win_safe w (fh_file_lseek os i pos origin w)"
  proof (cases "lift_os (SetFilePointer os (fh_u (fh_at w i)) pos (of_int origin)) w")
    case (Pair r v)
    then show ?thesis using plain_ok [OF assms] plain_ok [OF plain_lift [OF assms Pair]] plain_ok [OF eof [OF plain_lift [OF assms Pair]]]
      by (simp add: fh_file_lseek_def win_intro)
  qed
qed

lemma safe_socket_io:
  assumes "win_ok w"
  shows "win_safe w (fh_socket_read os i len w)" "win_safe w (fh_socket_write os i buf w)"
proof -
  show "win_safe w (fh_socket_read os i len w)"
    by (cases "lift_os (os_recv os (fh_u (fh_at w i)) len) w")
      (auto simp: fh_socket_read_def split: option.splits intro!: win_intro same_table_ok [OF lift_osD assms])
  show "win_safe w (fh_socket_write os i buf w)"
    by (cases "lift_os (os_send os (fh_u (fh_at w i)) buf) w")
      (auto simp: fh_socket_write_def split: option.splits intro!: win_intro same_table_ok [OF lift_osD assms])
qed

lemma clazz_cases:
  assumes "win_ok w" "fh_from_int fd w = Some i"
  obtains "fh_clazz (fh_at w i) = Some File_class" "plain_fh i w" | "fh_clazz (fh_at w i) = Some Socket_class" "plain_fh i w"
    | "fh_clazz (fh_at w i) = Some Socketpair_class"
proof (cases "fh_clazz (fh_at w i)")
  case None
  then show ?thesis using live_fhD(2) [OF assms(1) from_int_live [OF assms(2)]] by simp
next
  case (Some c)
  then show ?thesis using assms(1) from_int_live [OF assms(2)] that by (cases c) (auto simp: plain_fh_def)
qed

lemma safe_fd_calls [win_intro]:
  assumes "win_ok w"
  shows "win_safe w (adb_read os fd len w)" "win_safe w (adb_write os fd buf w)" "win_safe w (adb_lseek os fd pos origin w)"
    "win_safe w (adb_shutdown os fd w)" "win_safe w (adb_close os fd w)"
proof -
  have *: "win_safe w (adb_read os fd len w) \<and> win_safe w (adb_write os fd buf w) \<and> win_safe w (adb_lseek os fd pos origin w)
    \<and> win_safe w (adb_shutdown os fd w) \<and> win_safe w (adb_close os fd w)"
  proof (cases "fh_from_int fd w")
    case None
    then show ?thesis using assms
      by (simp add: adb_read_def adb_write_def adb_lseek_def adb_shutdown_def adb_close_def safe_Err)
  next
    case (Some i)
    note live = from_int_live [OF Some]
    have "win_safe w (adb_close os fd w)"
      by (rule fh_close_ok [OF assms live, of os]) (use Some in \<open>simp add: adb_close_def safe_Done\<close>)
    moreover have "win_safe w (adb_shutdown os fd w)"
      using Some same_table_ok [OF same_table_os(1) assms] by (simp add: adb_shutdown_def safe_Done)
    moreover have "win_safe w (adb_read os fd len w) \<and> win_safe w (adb_write os fd buf w) \<and> win_safe w (adb_lseek os fd pos origin w)"
      using assms Some
      by (rule clazz_cases) (use Some assms live in \<open>simp_all add: adb_read_def adb_write_def adb_lseek_def safe_file_io
        safe_socket_io safe_pair_read safe_Err\<close>)
    ultimately show ?thesis by simp
  qed
  then show "win_safe w (adb_read os fd len w)" "win_safe w (adb_write os fd buf w)" "win_safe w (adb_lseek os fd pos origin w)"
    "win_safe w (adb_shutdown os fd w)" "win_safe w (adb_close os fd w)" by simp_all
qed

lemma nagle_ok: "win_ok w \<Longrightarrow> win_ok (disable_tcp_nagle os fd w)"
  by (auto simp: disable_tcp_nagle_def split: option.splits intro: same_table_ok [OF same_table_os(1)])

subsection \<open>A new pair\<close>

definition link_pair :: "nat \<Rightarrow> nat \<Rightarrow> sockpair \<Rightarrow> 's win \<Rightarrow> 's win" where
  "link_pair a b pair w =
     (let w1 = fh_upd b (\<lambda>f. f\<lparr>fh_u := w_next w\<rparr>) (fh_upd a (\<lambda>f. f\<lparr>fh_u := w_next w\<rparr>) w)
      in w1\<lparr>w_pairs := (w_pairs w1)(w_next w1 \<mapsto> pair), w_next := w_next w1 + 1\<rparr>)"

lemma link_pair_ok:
  assumes "win_ok w" "a < WIN32_MAX_FHS" "b < WIN32_MAX_FHS" "a \<noteq> b" "refers 0 (fh_at w a)" "refers 0 (fh_at w b)"
    and "bip_ok (sp_a2b p)" "bip_ok (sp_b2a p)" "sp_a_fd p = Some a" "sp_used p = 2"
  shows "win_ok (link_pair a b p w)" (is "win_ok ?w")
proof -
  let ?n = "w_next w" and ?set = "\<lambda>f. f\<lparr>fh_u := w_next w\<rparr>"
  have len: "length (w_fhs w) = WIN32_MAX_FHS" by (rule slots_length [OF assms(1)])
  have n: "0 < ?n" using assms(1) by (simp add: win_ok_def)
  have at: "fh_at ?w j = (if j = a \<or> j = b then ?set (fh_at w j) else fh_at w j)" if "j < WIN32_MAX_FHS" for j
    using that len assms(4) by (auto simp: link_pair_def Let_def fh_at_upd)
  have used: "fh_u (fh_at w j) < ?n" if "j < WIN32_MAX_FHS" "fh_clazz (fh_at w j) = Some Socketpair_class" for j
    using assms(1) that n by (cases "fh_u (fh_at w j) = 0") (auto simp: win_ok_def pair_ok_def)
  have none: "filter (refers ?n) (w_fhs w) = []"
    using used len by (fastforce simp: filter_empty_conv refers_def in_set_conv_nth)
  have cnt: "length (filter (refers c) (w_fhs ?w)) = length (filter (refers c) (w_fhs w)) + (if c = ?n then 2 else 0)"
    if "c \<noteq> 0" for c
    using length_filter_update [of a "w_fhs w" "refers c" "?set (fh_at w a)"]
      length_filter_update [of b "(w_fhs w)[a := ?set (fh_at w a)]" "refers c" "?set (fh_at w b)"] that assms len n
    by (auto simp: link_pair_def Let_def fh_upd_def refers_def)
  have refs: "refers c (fh_at ?w j) = refers c (fh_at w j)" if "c \<noteq> 0" "c \<noteq> ?n" "j < WIN32_MAX_FHS" for c j
    using at [OF that(3)] that assms(5,6) by (auto simp: refers_def)
  show ?thesis
    unfolding win_ok_def
  proof (intro conjI allI impI)
    show "slots_ok ?w"
      using assms(1) at len by (auto simp: slots_ok_def win_ok_def link_pair_def Let_def)
    show "0 < w_next ?w" using n by (simp add: link_pair_def Let_def)
    show "pair_ok ?w c q" if "w_pairs ?w c = Some q" for c q
    proof (cases "c = ?n")
      case True
      then have "q = p" using that by (simp add: link_pair_def Let_def)
      moreover have "refers ?n (fh_at ?w a)" using at [OF assms(2)] assms(5) by (simp add: refers_def)
      ultimately show ?thesis
        using True n assms cnt [of ?n] none by (simp add: pair_ok_def) (simp add: link_pair_def Let_def)
    next
      case False
      then have q: "pair_ok w c q" using that assms(1) by (simp add: win_ok_def link_pair_def Let_def)
      then have "c \<noteq> 0" "c < w_next ?w" by (auto simp: pair_ok_def link_pair_def Let_def)
      with q cnt [of c] refs [of c] False show ?thesis unfolding pair_ok_def by (auto simp del: of_nat_0_less_iff)
    qed
    show "w_pairs ?w (fh_u (fh_at ?w j)) \<noteq> None"
      if "j < WIN32_MAX_FHS" "fh_clazz (fh_at ?w j) = Some Socketpair_class \<and> fh_u (fh_at ?w j) \<noteq> 0" for j
      using that assms(1) at [OF that(1)] by (auto simp: win_ok_def link_pair_def Let_def split: if_splits)
  qed
qed

text \<open>Two descriptors are the two ends of one pair.\<close>

definition connected :: "int \<Rightarrow> int \<Rightarrow> 's win \<Rightarrow> bool" where
  "connected fa fb w \<longleftrightarrow> win_ok w \<and>
     (case (fh_from_int fa w, fh_from_int fb w) of
        (Some i, Some j) \<Rightarrow> i \<noteq> j \<and> fh_clazz (fh_at w i) = Some Socketpair_class \<and> fh_clazz (fh_at w j) = Some Socketpair_class
          \<and> fh_u (fh_at w i) \<noteq> 0 \<and> fh_u (fh_at w j) = fh_u (fh_at w i)
          \<and> map_option sp_a_fd (w_pairs w (fh_u (fh_at w i))) = Some (Some i)
      | _ \<Rightarrow> False)"

lemma connectedE:
  assumes "connected fa fb w"
  obtains i j p where "fh_from_int fa w = Some i" "fh_from_int fb w = Some j" "i \<noteq> j"
    "fh_clazz (fh_at w i) = Some Socketpair_class" "fh_clazz (fh_at w j) = Some Socketpair_class"
    "fh_u (fh_at w i) \<noteq> 0" "fh_u (fh_at w j) = fh_u (fh_at w i)"
    "w_pairs w (fh_u (fh_at w i)) = Some p" "sp_a_fd p = Some i"
  using assms by (auto simp: connected_def split: option.splits)

definition pair_queues :: "int \<Rightarrow> 's win \<Rightarrow> byte list \<times> byte list" where
  "pair_queues fa w =
     (case fh_from_int fa w of None \<Rightarrow> ([], [])
      | Some i \<Rightarrow> (case w_pairs w (fh_u (fh_at w i)) of None \<Rightarrow> ([], [])
          | Some p \<Rightarrow> (contents (sp_a2b p), contents (sp_b2a p))))"

lemma from_int_to_int: "win_ok w \<Longrightarrow> live_fh i w \<Longrightarrow> fh_from_int (fh_to_int (Some i) w) w = Some i"
  using live_fhD(1) [of w i] by (simp add: fh_from_int_def fh_to_int_def live_fh_def Let_def)

text \<open>Slots that differ in their names only.\<close>

lemma fh_at_name:
  assumes "j < length (w_fhs w)"
  shows "fh_clazz (fh_at (set_name i n w) j) = fh_clazz (fh_at w j)" "fh_u (fh_at (set_name i n w) j) = fh_u (fh_at w j)"
    "fh_used (fh_at (set_name i n w) j) = fh_used (fh_at w j)"
  using assms by (simp_all add: set_name_def fh_at_upd)

lemma set_name_simps [simp]:
  "w_pairs (set_name i n w) = w_pairs w" "w_fh_count (set_name i n w) = w_fh_count w"
  "length (w_fhs (set_name i n w)) = length (w_fhs w)"
  by (simp_all add: set_name_def)

lemma same_table_name: "i < length (w_fhs w) \<Longrightarrow> same_table w (set_name i n w)"
  unfolding set_name_def by (rule same_table_upd) simp_all

lemma connected_name:
  assumes "connected fa fb w" "i < WIN32_MAX_FHS"
  shows "connected fa fb (set_name i n w)" "pair_queues fa (set_name i n w) = pair_queues fa w"
proof -
  have ok: "win_ok w" using assms(1) by (simp add: connected_def)
  have len: "length (w_fhs w) = WIN32_MAX_FHS" by (rule slots_length [OF ok])
  have lt: "nat (fd - WIN32_FH_BASE) < WIN32_MAX_FHS" if "\<not> fd < WIN32_FH_BASE" "fd < int (w_fh_count w) + WIN32_FH_BASE" for fd
    using that ok by (auto simp: win_ok_def slots_ok_def)
  have fi: "fh_from_int fd (set_name i n w) = fh_from_int fd w" for fd
    using lt [of fd] len by (auto simp: fh_from_int_def Let_def fh_at_name)
  have jl: "j < length (w_fhs w)" if "fh_from_int fd w = Some j" for fd j
    using live_fhD(1) [OF ok from_int_live [OF that]] len by simp
  from assms(1) show "connected fa fb (set_name i n w)"
  proof (rule connectedE)
    fix k l p
    assume k: "fh_from_int fa w = Some k" "fh_from_int fb w = Some l" "k \<noteq> l" "fh_clazz (fh_at w k) = Some Socketpair_class"
      "fh_clazz (fh_at w l) = Some Socketpair_class" "fh_u (fh_at w k) \<noteq> 0" "fh_u (fh_at w l) = fh_u (fh_at w k)"
      "w_pairs w (fh_u (fh_at w k)) = Some p" "sp_a_fd p = Some k"
    then show ?thesis
      using same_table_ok [OF same_table_name ok, of i n] assms(2) len
      by (simp add: connected_def fi fh_at_name [OF jl [OF k(1)]] fh_at_name [OF jl [OF k(2)]])
  qed
  show "pair_queues fa (set_name i n w) = pair_queues fa w"
    by (cases "fh_from_int fa w") (simp_all add: pair_queues_def fi fh_at_name [OF jl])
qed

lemma connected_link:
  assumes "win_ok w" "live_fh a w" "live_fh b w" "a \<noteq> b" "refers 0 (fh_at w a)" "refers 0 (fh_at w b)"
    and "bip_ok (sp_a2b p)" "bip_ok (sp_b2a p)" "sp_a_fd p = Some a" "sp_used p = 2"
  shows "connected (int a + WIN32_FH_BASE) (int b + WIN32_FH_BASE) (link_pair a b p w)"
    "pair_queues (int a + WIN32_FH_BASE) (link_pair a b p w) = (contents (sp_a2b p), contents (sp_b2a p))"
proof -
  have lt: "a < WIN32_MAX_FHS" "b < WIN32_MAX_FHS" using live_fhD(1) assms(1-3) by blast+
  have len: "length (w_fhs w) = WIN32_MAX_FHS" by (rule slots_length [OF assms(1)])
  have n: "w_next w \<noteq> 0" using assms(1) by (simp add: win_ok_def)
  note ok = link_pair_ok [OF assms(1) lt assms(4-10)]
  have at: "fh_at (link_pair a b p w) a = (fh_at w a)\<lparr>fh_u := w_next w\<rparr>" "fh_at (link_pair a b p w) b = (fh_at w b)\<lparr>fh_u := w_next w\<rparr>"
    using lt len assms(4) by (simp_all add: link_pair_def Let_def fh_at_upd)
  moreover have "fh_from_int (int a + WIN32_FH_BASE) (link_pair a b p w) = Some a" "fh_from_int (int b + WIN32_FH_BASE) (link_pair a b p w) = Some b"
    using at assms(2,3) by (simp_all add: fh_from_int_def live_fh_def link_pair_def Let_def)
  moreover have "w_pairs (link_pair a b p w) (w_next w) = Some p" by (simp add: link_pair_def Let_def)
  ultimately show "connected (int a + WIN32_FH_BASE) (int b + WIN32_FH_BASE) (link_pair a b p w)"
    "pair_queues (int a + WIN32_FH_BASE) (link_pair a b p w) = (contents (sp_a2b p), contents (sp_b2a p))"
    using ok n assms(4,5,6,9) by (simp_all add: connected_def refers_def pair_queues_def)
qed

lemma bip_fds [simp]: "bip_ok (b\<lparr>bp_fdin := x, bp_fdout := y\<rparr>) = bip_ok b" "contents (b\<lparr>bp_fdin := x, bp_fdout := y\<rparr>) = contents b"
  by (simp_all add: bip_ok_def contents_def)

lemma adb_socketpair_two:
  assumes "win_ok w" and alloc: "fh_alloc os Socketpair_class w = (Some a, w1)" "fh_alloc os Socketpair_class w1 = (Some b, w2)"
  shows "(\<exists>w'. adb_socketpair os w = (Err E_unset, w') \<and> win_ok w')
    \<or> (\<exists>fa fb w'. adb_socketpair os w = (Done (fa, fb), w') \<and> connected fa fb w' \<and> pair_queues fa w' = ([], []))"
proof -
  note a = fh_alloc_Some [OF assms(1) alloc(1)]
  then have ok1: "win_ok w1" by simp
  note b = fh_alloc_Some [OF ok1 alloc(2)]
  have ab: "a \<noteq> b" using a b by auto
  have w2: "win_ok w2" "live_fh a w2" "live_fh b w2" "refers 0 (fh_at w2 a)" "refers 0 (fh_at w2 b)"
    "a < WIN32_MAX_FHS" "b < WIN32_MAX_FHS"
    using a b ab by (auto simp: refers_def)
  obtain m w3 where m: "lift_os (malloc_pair os) w2 = (m, w3)" by fastforce
  note s3 = lift_osD [OF m]
  have len: "length (w_fhs w2) = WIN32_MAX_FHS" by (rule slots_length [OF w2(1)])
  have w3: "win_ok w3" "live_fh a w3" "live_fh b w3" "refers 0 (fh_at w3 a)" "refers 0 (fh_at w3 b)"
    using same_table_ok [OF s3 w2(1)] same_table_live [OF s3 w2(1)] w2 s3 len
    by (simp_all add: same_table_def refers_def)
  show ?thesis
  proof (cases m)
    case None
    obtain v where v: "fh_close os (Some b) w3 = (Done (), v)" "win_ok v" "untouched b w3 v"
      using fh_close_ok [OF w3(1,3), of os] by metis
    then have "live_fh a v" using w3(2) ab w2(6) by (auto simp: untouched_def live_fh_def)
    then obtain u where "fh_close os (Some a) v = (Done (), u)" "win_ok u"
      using fh_close_ok [OF v(2), of a os] by metis
    then show ?thesis using v alloc m None by (simp add: adb_socketpair_def fail_close_def)
  next
    case (Some junk)
    obtain ja jb where junk: "junk = (ja, jb)" by fastforce
    let ?fa = "int a + WIN32_FH_BASE" and ?fb = "int b + WIN32_FH_BASE"
    let ?p = "\<lparr>sp_a2b = (bip_buffer_init ja)\<lparr>bp_fdin := ?fa, bp_fdout := ?fb\<rparr>,
      sp_b2a = (bip_buffer_init jb)\<lparr>bp_fdin := ?fb, bp_fdout := ?fa\<rparr>, sp_a_fd = Some a, sp_used = 2\<rparr>"
    let ?w = "link_pair a b ?p w3"
    let ?n1 = "fmt_d ?fa @ ''(pair:'' @ fmt_d ?fb @ '')''" and ?n2 = "fmt_d ?fb @ ''(pair:'' @ fmt_d ?fa @ '')''"
    have c: "connected ?fa ?fb ?w" "pair_queues ?fa ?w = ([], [])"
      using connected_link [OF w3(1-3) ab w3(4,5), of ?p] by simp_all
    have len3: "length (w_fhs w3) = WIN32_MAX_FHS" by (rule slots_length [OF w3(1)])
    have "fh_used (fh_at (fh_upd b (\<lambda>f. f\<lparr>fh_u := w_next w3\<rparr>) (fh_upd a (\<lambda>f. f\<lparr>fh_u := w_next w3\<rparr>) w3)) k)" if "k = a \<or> k = b" for k
      using that w3(2,3) w2(6,7) len3 by (auto simp: fh_at_upd live_fh_def)
    then have "adb_socketpair os w = (Done (?fa, ?fb), set_name b ?n2 (set_name a ?n1 ?w))"
      using alloc m Some junk w2(6,7) unfolding adb_socketpair_def link_pair_def
      by (simp add: fh_to_int_def Let_def)
    moreover have "connected ?fa ?fb (set_name b ?n2 (set_name a ?n1 ?w))" "pair_queues ?fa (set_name b ?n2 (set_name a ?n1 ?w)) = ([], [])"
      using c w2(6,7) by (simp_all add: connected_name [where fb = ?fb])
    ultimately show ?thesis by blast
  qed
qed

lemma adb_socketpair_cases:
  assumes "win_ok w"
  shows "(free_slots w < 2 \<and> fst (adb_socketpair os w) = Crash \<and> win_ok (snd (adb_socketpair os w)))
    \<or> (\<exists>w'. adb_socketpair os w = (Err E_unset, w') \<and> win_ok w')
    \<or> (\<exists>fa fb w'. adb_socketpair os w = (Done (fa, fb), w') \<and> connected fa fb w' \<and> pair_queues fa w' = ([], []))"
proof (cases "fh_alloc os Socketpair_class w")
  case (Pair fa w1)
  show ?thesis
  proof (cases fa)
    case None
    then have "w1 = w" "free_slots w = 0" using fh_alloc_None [OF assms] Pair by blast+
    then show ?thesis using Pair None assms by (simp add: adb_socketpair_def fh_close_def)
  next
    case (Some a)
    note a = fh_alloc_Some [OF assms, of os Socketpair_class a w1]
    obtain fb w2 where fb: "fh_alloc os Socketpair_class w1 = (fb, w2)" by fastforce
    show ?thesis
    proof (cases fb)
      case None
      then have "w2 = w1" "free_slots w1 = 0" using fh_alloc_None [of w1] a fb Pair Some by blast+
      then show ?thesis using Pair Some fb None a by (simp add: adb_socketpair_def fh_close_def)
    next
      fix b assume "fb = Some b"
      then show ?thesis using adb_socketpair_two [OF assms, of os a w1 b w2] Pair Some fb by auto
    qed
  qed
qed

subsection \<open>The two queues of a pair\<close>

lemma connected_io:
  assumes "connected fa fb w"
  obtains p :: sockpair and upd where "bip_ok (sp_a2b p)" "bip_ok (sp_b2a p)" "pair_queues fa w = (contents (sp_a2b p), contents (sp_b2a p))" "upd p = w"
    "\<And>src. adb_write os fa src w = (case bip_buffer_write src (sp_a2b p) of (r, b) \<Rightarrow> (r, upd (p\<lparr>sp_a2b := b\<rparr>)))"
    "\<And>src. adb_write os fb src w = (case bip_buffer_write src (sp_b2a p) of (r, b) \<Rightarrow> (r, upd (p\<lparr>sp_b2a := b\<rparr>)))"
    "\<And>n. adb_read os fb n w = (case bip_buffer_read n (sp_a2b p) of (r, b) \<Rightarrow> (r, upd (p\<lparr>sp_a2b := b\<rparr>)))"
    "\<And>n. adb_read os fa n w = (case bip_buffer_read n (sp_b2a p) of (r, b) \<Rightarrow> (r, upd (p\<lparr>sp_b2a := b\<rparr>)))"
    "\<And>b. bip_ok b \<Longrightarrow> connected fa fb (upd (p\<lparr>sp_a2b := b\<rparr>)) \<and> pair_queues fa (upd (p\<lparr>sp_a2b := b\<rparr>)) = (contents b, contents (sp_b2a p))"
    "\<And>b. bip_ok b \<Longrightarrow> connected fa fb (upd (p\<lparr>sp_b2a := b\<rparr>)) \<and> pair_queues fa (upd (p\<lparr>sp_b2a := b\<rparr>)) = (contents (sp_a2b p), contents b)"
proof -
  have ok: "win_ok w" using assms by (simp add: connected_def)
  from assms show ?thesis
  proof (rule connectedE)
    fix i j p
    assume c: "fh_from_int fa w = Some i" "fh_from_int fb w = Some j" "i \<noteq> j" "fh_clazz (fh_at w i) = Some Socketpair_class"
      "fh_clazz (fh_at w j) = Some Socketpair_class" "fh_u (fh_at w i) \<noteq> 0" "fh_u (fh_at w j) = fh_u (fh_at w i)"
      "w_pairs w (fh_u (fh_at w i)) = Some p" "sp_a_fd p = Some i"
    define upd where "upd q = w\<lparr>w_pairs := (w_pairs w)(fh_u (fh_at w i) \<mapsto> q)\<rparr>" for q
    have fi: "fh_from_int fd (upd q) = fh_from_int fd w" for fd q by (simp add: upd_def fh_from_int_def Let_def)
    have b: "bip_ok (sp_a2b p)" "bip_ok (sp_b2a p)" using ok c(8) by (auto simp: win_ok_def pair_ok_def)
    have put: "connected fa fb (upd q) \<and> pair_queues fa (upd q) = (contents (sp_a2b q), contents (sp_b2a q))"
      if "bip_ok (sp_a2b q)" "bip_ok (sp_b2a q)" "sp_used q = sp_used p" "sp_a_fd q = sp_a_fd p" for q
    proof -
      have "win_ok (upd q)" unfolding upd_def by (rule put_pair_ok [OF ok c(8) that])
      then show ?thesis using c that(4) fi by (simp add: connected_def pair_queues_def) (simp add: upd_def)
    qed
    have "(w_pairs w)(fh_u (fh_at w i) \<mapsto> p) = w_pairs w" using c(8) by (simp add: fun_upd_idem)
    then have same: "upd p = w" by (simp add: upd_def)
    have b': "sp_a_fd p \<noteq> Some j" using c(3,9) by simp
    show ?thesis
      by (rule that [of p upd])
        (use b same c b' put in \<open>auto simp: pair_queues_def adb_write_def adb_read_def fh_socketpair_write_def
            fh_socketpair_read_def upd_def Let_def split: prod.splits\<close>)
  qed
qed

text \<open>
  The ends of a pair, through \<open>adb_read\<close> and \<open>adb_write\<close>, meet the contract of the two queues, each
  with the facts of its buffer.
\<close>

interpretation pairq: duplex "connected fa fb" "\<lambda>w. fst (pair_queues fa w)" BIP_BUFFER_SIZE "adb_write os fa" "adb_read os fb"
  "\<lambda>w. snd (pair_queues fa w)" "adb_write os fb" "adb_read os fa" for os fa fb
proof
  fix w :: "'a win" and src :: "byte list" and n :: nat
  assume "connected fa fb w"
  then obtain p :: sockpair and upd where p: "bip_ok (sp_a2b p)" "bip_ok (sp_b2a p)" "pair_queues fa w = (contents (sp_a2b p), contents (sp_b2a p))" "upd p = w"
    and io: "\<And>src. adb_write os fa src w = (case bip_buffer_write src (sp_a2b p) of (r, b) \<Rightarrow> (r, upd (p\<lparr>sp_a2b := b\<rparr>)))"
    "\<And>src. adb_write os fb src w = (case bip_buffer_write src (sp_b2a p) of (r, b) \<Rightarrow> (r, upd (p\<lparr>sp_b2a := b\<rparr>)))"
    "\<And>n. adb_read os fb n w = (case bip_buffer_read n (sp_a2b p) of (r, b) \<Rightarrow> (r, upd (p\<lparr>sp_a2b := b\<rparr>)))"
    "\<And>n. adb_read os fa n w = (case bip_buffer_read n (sp_b2a p) of (r, b) \<Rightarrow> (r, upd (p\<lparr>sp_b2a := b\<rparr>)))"
    and put: "\<And>b. bip_ok b \<Longrightarrow> connected fa fb (upd (p\<lparr>sp_a2b := b\<rparr>)) \<and> pair_queues fa (upd (p\<lparr>sp_a2b := b\<rparr>)) = (contents b, contents (sp_b2a p))"
    "\<And>b. bip_ok b \<Longrightarrow> connected fa fb (upd (p\<lparr>sp_b2a := b\<rparr>)) \<and> pair_queues fa (upd (p\<lparr>sp_b2a := b\<rparr>)) = (contents (sp_a2b p), contents b)"
    by (rule connected_io [where os = os]) blast
  have id: "upd (p\<lparr>sp_a2b := sp_a2b p\<rparr>) = w" "upd (p\<lparr>sp_b2a := sp_b2a p\<rparr>) = w" using p(4) by simp_all
  note q = bipq.bounded bipq.wr_nil bipq.rd_nil
  show "length (fst (pair_queues fa w)) \<le> BIP_BUFFER_SIZE" "length (snd (pair_queues fa w)) \<le> BIP_BUFFER_SIZE"
    using p(3) bipq.bounded [OF p(1)] bipq.bounded [OF p(2)] by simp_all
  show "adb_write os fa [] w = (Done 0, w)" "adb_write os fb [] w = (Done 0, w)"
    "adb_read os fb 0 w = (Done [], w)" "adb_read os fa 0 w = (Done [], w)"
    using bipq.wr_nil [OF p(1)] bipq.wr_nil [OF p(2)] bipq.rd_nil [OF p(1)] bipq.rd_nil [OF p(2)] id by (simp_all add: io)
  show "\<exists>w'. adb_write os fa src w = (Done (min (length src) (BIP_BUFFER_SIZE - length (fst (pair_queues fa w)))), w') \<and> connected fa fb w'
      \<and> fst (pair_queues fa w') = fst (pair_queues fa w) @ take (BIP_BUFFER_SIZE - length (fst (pair_queues fa w))) src"
    if "src \<noteq> []" "length (fst (pair_queues fa w)) < BIP_BUFFER_SIZE"
    using bipq.wr_room [OF p(1) that(1)] that(2) p(3) put(1) by (auto simp: io)
  show "\<exists>w'. adb_write os fb src w = (Done (min (length src) (BIP_BUFFER_SIZE - length (snd (pair_queues fa w)))), w') \<and> connected fa fb w'
      \<and> snd (pair_queues fa w') = snd (pair_queues fa w) @ take (BIP_BUFFER_SIZE - length (snd (pair_queues fa w))) src"
    if "src \<noteq> []" "length (snd (pair_queues fa w)) < BIP_BUFFER_SIZE"
    using bipq.wr_room [OF p(2) that(1)] that(2) p(3) put(2) by (auto simp: io)
  show "adb_write os fa src w \<in> {(Blocked, w), (Err EPIPE, w)}" if "src \<noteq> []" "length (fst (pair_queues fa w)) = BIP_BUFFER_SIZE"
    using bipq.wr_full [OF p(1) that(1)] that(2) p(3) id by (auto simp: io)
  show "adb_write os fb src w \<in> {(Blocked, w), (Err EPIPE, w)}" if "src \<noteq> []" "length (snd (pair_queues fa w)) = BIP_BUFFER_SIZE"
    using bipq.wr_full [OF p(2) that(1)] that(2) p(3) id by (auto simp: io)
  show "\<exists>w'. adb_read os fb n w = (Done (take n (fst (pair_queues fa w))), w') \<and> connected fa fb w'
      \<and> fst (pair_queues fa w') = drop n (fst (pair_queues fa w))" if "0 < n" "fst (pair_queues fa w) \<noteq> []"
    using bipq.rd_data [OF p(1) that(1)] that(2) p(3) put(1) by (auto simp: io)
  show "\<exists>w'. adb_read os fa n w = (Done (take n (snd (pair_queues fa w))), w') \<and> connected fa fb w'
      \<and> snd (pair_queues fa w') = drop n (snd (pair_queues fa w))" if "0 < n" "snd (pair_queues fa w) \<noteq> []"
    using bipq.rd_data [OF p(2) that(1)] that(2) p(3) put(2) by (auto simp: io)
  show "adb_read os fb n w \<in> {(Blocked, w), (Err EPIPE, w)}" if "0 < n" "fst (pair_queues fa w) = []"
    using bipq.rd_empty [OF p(1) that(1)] that(2) p(3) id by (auto simp: io)
  show "adb_read os fa n w \<in> {(Blocked, w), (Err EPIPE, w)}" if "0 < n" "snd (pair_queues fa w) = []"
    using bipq.rd_empty [OF p(2) that(1)] that(2) p(3) id by (auto simp: io)
  show "snd (pair_queues fa w') = snd (pair_queues fa w)"
    if "one_call (adb_write os fa) (adb_read os fb) c w = (taken, given, w')" for c taken given w'
    using that put(1) safe_bip_read [OF p(1)] safe_bip_write [OF p(1)] p(3)
    by (auto simp: one_call_def io split: queue_call.splits prod.splits io.splits)
  show "fst (pair_queues fa w') = fst (pair_queues fa w)"
    if "one_call (adb_write os fb) (adb_read os fa) c w = (taken, given, w')" for c taken given w'
    using that put(2) safe_bip_read [OF p(2)] safe_bip_write [OF p(2)] p(3)
    by (auto simp: one_call_def io split: queue_call.splits prod.splits io.splits)
qed

subsection \<open>Properties\<close>

text \<open>The calls of the table, and what they do to it one after another.\<close>

datatype win_call =
    Open string int | Creat string | Read int nat | Write int "byte list" | Lseek int int int | Shutdown int | Close int
  | Loopback_client int int | Loopback_server int int | Network_client string int int | Inaddr_any_server int int
  | Accept int | Nagle int | Socketpair

fun win_exec :: "'s os \<Rightarrow> win_call \<Rightarrow> 's win \<Rightarrow> unit io \<times> 's win" where
  "win_exec os (Open path options) w = map_prod (map_io (\<lambda>_. ())) id (adb_open os path options w)"
| "win_exec os (Creat path) w = map_prod (map_io (\<lambda>_. ())) id (adb_creat os path w)"
| "win_exec os (Read fd len) w = map_prod (map_io (\<lambda>_. ())) id (adb_read os fd len w)"
| "win_exec os (Write fd buf) w = map_prod (map_io (\<lambda>_. ())) id (adb_write os fd buf w)"
| "win_exec os (Lseek fd pos origin) w = map_prod (map_io (\<lambda>_. ())) id (adb_lseek os fd pos origin w)"
| "win_exec os (Shutdown fd) w = adb_shutdown os fd w"
| "win_exec os (Close fd) w = adb_close os fd w"
| "win_exec os (Loopback_client port type) w = map_prod (map_io (\<lambda>_. ())) id (socket_loopback_client os port type w)"
| "win_exec os (Loopback_server port type) w = map_prod (map_io (\<lambda>_. ())) id (socket_loopback_server os port type w)"
| "win_exec os (Network_client host port type) w = map_prod (map_io (\<lambda>_. ())) id (socket_network_client os host port type w)"
| "win_exec os (Inaddr_any_server port type) w = map_prod (map_io (\<lambda>_. ())) id (socket_inaddr_any_server os port type w)"
| "win_exec os (Accept fd) w = map_prod (map_io (\<lambda>_. ())) id (adb_socket_accept os fd w)"
| "win_exec os (Nagle fd) w = (Done (), disable_tcp_nagle os fd w)"
| "win_exec os Socketpair w = map_prod (map_io (\<lambda>_. ())) id (adb_socketpair os w)"

definition win_run :: "'s os \<Rightarrow> win_call list \<Rightarrow> 's win \<Rightarrow> 's win" where
  "win_run os cs w = fold (\<lambda>c w. snd (win_exec os c w)) cs w"

lemma map_io_eq [simp]: "map_io f x = Crash \<longleftrightarrow> x = Crash" "map_io f x = Fatal \<longleftrightarrow> x = Fatal"
  by (cases x; simp)+

lemma safe_map: "win_safe w (map_prod (map_io f) id r) = win_safe w r"
  by (simp add: win_safe_def)

lemma win_exec_safe: "win_ok w \<Longrightarrow> c \<noteq> Socketpair \<Longrightarrow> win_safe w (win_exec os c w)"
  by (cases c) (simp_all add: safe_map win_intro nagle_ok)

lemma win_exec_ok: "win_ok w \<Longrightarrow> win_ok (snd (win_exec os c w))"
  using win_exec_safe [of w c os] adb_socketpair_cases [of w os]
  by (cases "c = Socketpair") (auto simp: win_safe_def connected_def)

lemma win_run_ok: "win_ok w \<Longrightarrow> win_ok (win_run os cs w)"
  unfolding win_run_def by (induction cs arbitrary: w) (simp_all add: win_exec_ok)

lemma win_exec_Crash:
  assumes "win_ok w" "fst (win_exec os c w) = Crash"
  shows "c = Socketpair \<and> free_slots w < 2"
proof (cases "c = Socketpair")
  case True
  with assms adb_socketpair_cases [OF assms(1), of os] show ?thesis by auto
next
  case False
  with win_exec_safe [OF assms(1), of c os] assms(2) show ?thesis by (simp add: win_safe_def)
qed

lemma win_exec_Fatal:
  assumes "win_ok w" "fst (win_exec os c w) = Fatal"
  shows "\<not> w_winsock w"
proof (cases "c = Socketpair")
  case True
  with assms adb_socketpair_cases [OF assms(1), of os] show ?thesis by auto
next
  case False
  with win_exec_safe [OF assms(1), of c os] assms(2) show ?thesis by (simp add: win_safe_def)
qed

text \<open>An operating system on which everything fails but memory and events.\<close>

definition bare_os :: "unit os" where
  "bare_os = \<lparr>CreateFile = (\<lambda>_ _ _ s. (- 1, s)), GetLastError = (\<lambda>_. 2), ReadFile = (\<lambda>_ _ s. (None, s)),
     WriteFile = (\<lambda>_ _ s. (None, s)), SetFilePointer = (\<lambda>_ _ _ s. (INVALID_SET_FILE_POINTER, s)), CloseHandle = (\<lambda>_ s. s),
     WSAStartup = (\<lambda>s. (0, s)), WSAGetLastError = (\<lambda>_. 0), WSACreateEvent = (\<lambda>s. (1, s)),
     os_socket = (\<lambda>_ _ s. (- 1, s)), os_connect = (\<lambda>_ _ s. (- 1, s)), os_bind = (\<lambda>_ _ s. (- 1, s)),
     os_listen = (\<lambda>_ _ s. (- 1, s)), os_accept = (\<lambda>_ s. (- 1, s)), os_setsockopt = (\<lambda>_ _ s. s),
     os_recv = (\<lambda>_ _ s. (None, s)), os_send = (\<lambda>_ _ s. (None, s)), os_shutdown = (\<lambda>_ s. s), closesocket = (\<lambda>_ s. s),
     gethostbyname = (\<lambda>_ s. (None, s)), malloc_pair = (\<lambda>s. (Some (\<lambda>_. CHR 0x00, \<lambda>_. CHR 0x00), s))\<rparr>"

text \<open>
  C38: The descriptor table keeps its invariant. After any sequence of calls from the start of the
  process every slot in use has a class, every end of a socket pair points to a pair that has not been
  freed, a pair counts the ends that refer to it and both its buffers are well-formed. A further call follows
  a bad pointer only if it is \<open>adb_socketpair\<close> and fewer than two slots are free, and it stops the
  process only before Winsock has been started.
\<close>

theorem descriptor_table_safe:
  "let w = win_run os cs (win_init s); r = fst (win_exec os c w)
   in win_ok w \<and> (r = Crash \<longrightarrow> c = Socketpair \<and> free_slots w < 2) \<and> (r = Fatal \<longrightarrow> \<not> w_winsock w)"
  using win_run_ok [OF win_init_ok, of os cs s] win_exec_Crash win_exec_Fatal unfolding Let_def by blast

theorem descriptor_table_safe_witness:
  "let w = win_run bare_os [Socketpair, Open ''x'' 7] (win_init ()); r = fst (win_exec bare_os (Close 5) w)
   in win_ok w \<and> r \<noteq> Crash"
  using descriptor_table_safe [of bare_os "[Socketpair, Open ''x'' 7]" "()" "Close 5"] by (auto simp: Let_def)

text \<open>
  C37: A socket pair is two bounded queues of bytes. Whatever calls are made on its two ends, in
  any order, what one end has read is the beginning of what the other has written, and the rest, of at most
  4096 bytes, waits in the pair: nothing is lost, made up or reordered.
\<close>

theorem socketpair_fifo:
  assumes "win_ok w" "adb_socketpair os w = (Done (fa, fb), w1)"
    and "duplex_calls (one_call (adb_write os fa) (adb_read os fb)) (one_call (adb_write os fb) (adb_read os fa)) cs w1
      = ((t1, g1), (t2, g2), w2)"
  shows "t1 = g1 @ fst (pair_queues fa w2) \<and> t2 = g2 @ snd (pair_queues fa w2)
    \<and> length (fst (pair_queues fa w2)) \<le> BIP_BUFFER_SIZE \<and> length (snd (pair_queues fa w2)) \<le> BIP_BUFFER_SIZE"
proof -
  have w1: "connected fa fb w1" "pair_queues fa w1 = ([], [])"
    using adb_socketpair_cases [OF assms(1), of os] assms(2) by auto
  from pairq.fifo [OF w1(1) assms(3)] w1(2)
  have w2: "connected fa fb w2" "t1 = g1 @ fst (pair_queues fa w2)" "t2 = g2 @ snd (pair_queues fa w2)" by simp_all
  with pairq.one.bounded [OF w2(1)] pairq.two.bounded [OF w2(1)] show ?thesis by blast
qed

lemma bare_socketpair: "\<exists>fa fb w1. adb_socketpair bare_os (win_init ()) = (Done (fa, fb), w1)"
  by (simp add: adb_socketpair_def fh_alloc_def win_init_def fh_init_def fh_socketpair_init_def fh_upd_def lift_os_def
      bare_os_def Let_def)

theorem socketpair_fifo_witness:
  "\<exists>fa fb w1 t1 g1 t2 g2 w2. adb_socketpair bare_os (win_init ()) = (Done (fa, fb), w1)
     \<and> duplex_calls (one_call (adb_write bare_os fa) (adb_read bare_os fb)) (one_call (adb_write bare_os fb) (adb_read bare_os fa))
         [(True, Wr ''ping''), (False, Wr ''ok''), (True, Rd 3)] w1 = ((t1, g1), (t2, g2), w2)
     \<and> t1 = g1 @ fst (pair_queues fa w2) \<and> t2 = g2 @ snd (pair_queues fa w2)"
proof -
  obtain fa fb w1 where w1: "adb_socketpair bare_os (win_init ()) = (Done (fa, fb), w1)" using bare_socketpair by blast
  obtain t1 g1 t2 g2 w2 where d: "duplex_calls (one_call (adb_write bare_os fa) (adb_read bare_os fb))
      (one_call (adb_write bare_os fb) (adb_read bare_os fa))
      [(True, Wr ''ping''), (False, Wr ''ok''), (True, Rd 3)] w1 = ((t1, g1), (t2, g2), w2)"
    by (metis prod.collapse)
  from socketpair_fifo [OF win_init_ok w1 d] w1 d show ?thesis by blast
qed

lemma close_frees:
  assumes "win_ok w" "live_fh i w" "fh_close os (Some i) w = (Done (), w')"
  shows "free_slots w' = Suc (free_slots w)"
proof -
  obtain v where "fh_close os (Some i) w = (Done (), v)" and v: "win_ok v" "untouched i w v" "\<not> live_fh i v"
    using fh_close_ok [OF assms(1,2), of os] by metis
  with assms(3) have [simp]: "v = w'" by simp
  note i = live_fhD [OF assms(1,2)]
  have len: "length (w_fhs w) = WIN32_MAX_FHS" "length (w_fhs w') = WIN32_MAX_FHS"
    using slots_length assms(1) v(1) by simp_all
  have "w_fhs w' = (w_fhs w)[i := fh_at w' i]"
    using v(2) len i(1) by (intro nth_equalityI) (auto simp: untouched_def nth_list_update)
  moreover have "i < w_fh_count w'" using v(2) assms(2) by (simp add: untouched_def live_fh_def)
  then have "fh_clazz (fh_at w' i) = None" using v i(1) by (auto simp: live_fh_def win_ok_def slots_ok_def)
  ultimately show ?thesis
    using length_filter_update [of i "w_fhs w" "\<lambda>f. fh_clazz f = None" "fh_at w' i"] i len by (simp add: free_slots_def)
qed

text \<open>
  When Winsock has no socket to give, \<open>socket_loopback_client\<close> gives its slot back, but
  \<open>socket_loopback_server\<close> returns without closing it: the slot is lost, and after 128 such calls the
  table is full.
\<close>

theorem loopback_server_leaks_slot:
  assumes "win_ok w" "w_winsock w" "0 < free_slots w" "\<And>s. fst (os_socket os AF_INET type s) = INVALID_HANDLE"
  shows "(\<exists>w'. socket_loopback_client os port type w = (Err E_unset, w') \<and> free_slots w' = free_slots w)
    \<and> (\<exists>w'. socket_loopback_server os port type w = (Err E_unset, w') \<and> free_slots w = Suc (free_slots w'))"
proof -
  obtain i w1 where a: "fh_alloc os Socket_class w = (Some i, w1)"
    using fh_alloc_None [OF assms(1), of os Socket_class] assms(3) by (metis not_Some_eq less_irrefl prod.collapse)
  note w1 = fh_alloc_Some [OF assms(1) a]
  obtain w2 where l: "lift_os (os_socket os AF_INET type) w1 = (INVALID_HANDLE, w2)"
    using assms(4) [of "w_os w1"] by (cases "os_socket os AF_INET type (w_os w1)") (simp add: lift_os_def)
  note s = lift_osD [OF l]
  have w2: "win_ok w2" "live_fh i w2" "free_slots w2 = free_slots w1"
    using w1 same_table_ok [OF s] same_table_live [OF s] same_table_free [OF s] by auto
  obtain w3 where c: "fh_close os (Some i) w2 = (Done (), w3)" using fh_close_ok [OF w2(1,2), of os] by metis
  have "free_slots w3 = free_slots w" using close_frees [OF w2(1,2) c] w2(3) w1 by simp
  moreover have "socket_loopback_client os port type w = (Err E_unset, w3)"
    using a w1 assms(2) l c by (simp add: socket_loopback_client_def new_socket_fh_def init_winsock_def fail_close_def)
  moreover have "socket_loopback_server os port type w = (Err E_unset, w2)"
    using a w1 assms(2) l by (simp add: socket_loopback_server_def new_socket_fh_def init_winsock_def)
  ultimately show ?thesis using w1 w2(3) by auto
qed

lemma started_ok: "win_ok ((win_init ())\<lparr>w_winsock := True\<rparr>)"
  by (rule same_table_ok [OF same_table_os(2) win_init_ok])

theorem loopback_server_leaks_slot_witness:
  "\<exists>w'. socket_loopback_server bare_os 5037 SOCK_STREAM ((win_init ())\<lparr>w_winsock := True\<rparr>) = (Err E_unset, w')
     \<and> free_slots ((win_init ())\<lparr>w_winsock := True\<rparr>) = Suc (free_slots w')"
proof -
  have "0 < free_slots ((win_init ())\<lparr>w_winsock := True\<rparr>)" by (simp add: free_slots_def win_init_def)
  moreover have "fst (os_socket bare_os AF_INET SOCK_STREAM s) = INVALID_HANDLE" for s by (simp add: bare_os_def)
  ultimately show ?thesis
    using loopback_server_leaks_slot [OF started_ok, where os = bare_os and type = SOCK_STREAM and port = 5037] by simp
qed

end
