(* ===== verification/Files.thy ===== *)
theory Files
  imports Cio Clib
begin

text \<open>
  The file system as the file transfer code meets it: a map from paths to nodes and the system calls on
  it, the same for the device and for the host. A script makes calls fail: each call takes the next
  entry, and past the end of the script calls do what the nodes say. A read of a regular file gives all
  that is asked for up to the end of the file. The name of a file is a C string. A file has the time that
  \<open>utime\<close> gave it, and 0 before; a new file has the permissions that the creation mask of the process leaves; a link is followed up to forty times, as the kernel does.
\<close>

subsection \<open>Nodes\<close>

datatype node = Reg "byte list" u32 u32 | Lnk string u32 | Dir u32 | Special u32 u32

abbreviation S_IFMT :: u32 where "S_IFMT \<equiv> 0xF000"

definition S_ISREG :: "u32 \<Rightarrow> bool" where "S_ISREG m \<longleftrightarrow> m AND S_IFMT = 0x8000"
definition S_ISLNK :: "u32 \<Rightarrow> bool" where "S_ISLNK m \<longleftrightarrow> m AND S_IFMT = 0xA000"
definition S_ISDIR :: "u32 \<Rightarrow> bool" where "S_ISDIR m \<longleftrightarrow> m AND S_IFMT = 0x4000"
definition S_ISCHR :: "u32 \<Rightarrow> bool" where "S_ISCHR m \<longleftrightarrow> m AND S_IFMT = 0x2000"
definition S_ISBLK :: "u32 \<Rightarrow> bool" where "S_ISBLK m \<longleftrightarrow> m AND S_IFMT = 0x6000"

lemmas mode_defs = S_ISREG_def S_ISLNK_def S_ISDIR_def S_ISCHR_def S_ISBLK_def

record stat =
  st_mode :: u32
  st_size :: u32
  st_mtime :: u32

fun stat_of :: "node \<Rightarrow> stat" where
  "stat_of (Reg d m t) = \<lparr>st_mode = 0x8000 OR m, st_size = of_nat (length d), st_mtime = t\<rparr>"
| "stat_of (Lnk p t) = \<lparr>st_mode = 0xA1FF, st_size = of_nat (length p), st_mtime = t\<rparr>"
| "stat_of (Dir t) = \<lparr>st_mode = 0x41ED, st_size = 4096, st_mtime = t\<rparr>"
| "stat_of (Special m t) = \<lparr>st_mode = m, st_size = 0, st_mtime = t\<rparr>"

record fsys =
  f_nodes :: "string \<rightharpoonup> node"
  f_list :: "string \<Rightarrow> string list option"
  f_fail :: "errno option list"
  f_rd :: "errno option list"
  f_wr :: "(errno + nat) list"
  f_errno :: errno
  f_umask :: u32

definition dir_of :: "string \<Rightarrow> string" where
  "dir_of p = (case strrchr (CHR ''/'') p of None \<Rightarrow> [] | Some (d, _) \<Rightarrow> d)"

text \<open>The root, the working directory and every directory node can hold files.\<close>

definition is_dir :: "string \<Rightarrow> fsys \<Rightarrow> bool" where
  "is_dir d fs \<longleftrightarrow> d = [] \<or> (\<exists>t. f_nodes fs d = Some (Dir t))"

lemma is_dir_code [code]:
  "is_dir d fs \<longleftrightarrow> d = [] \<or> (case f_nodes fs d of Some (Dir t) \<Rightarrow> True | _ \<Rightarrow> False)"
  by (auto simp: is_dir_def split: option.splits node.splits)

fun resolve :: "nat \<Rightarrow> string \<Rightarrow> fsys \<Rightarrow> string option" where
  "resolve 0 p fs = None"
| "resolve (Suc n) p fs =
     (case f_nodes fs p of
        Some (Lnk t _) \<Rightarrow> resolve n (if starts_with ''/'' t then t else dir_of p @ ''/'' @ t) fs
      | _ \<Rightarrow> Some p)"

lemma resolve_self: "(\<And>u v. f_nodes fs p \<noteq> Some (Lnk u v)) \<Longrightarrow> resolve (Suc n) p fs = Some p"
  by (auto split: option.splits node.splits)

lemmas resolve_self40 = resolve_self [of _ _ 39, simplified]

subsection \<open>Calls\<close>

text \<open>The next entry of the script, before the call looks at the nodes.\<close>

definition sys :: "(fsys \<Rightarrow> errno + 'a \<times> fsys) \<Rightarrow> fsys \<Rightarrow> 'a option \<times> fsys" where
  "sys act fs =
     (let (e, fs) = (case f_fail fs of [] \<Rightarrow> (None, fs) | e # es \<Rightarrow> (e, fs\<lparr>f_fail := es\<rparr>))
      in case e of Some e \<Rightarrow> (None, fs\<lparr>f_errno := e\<rparr>)
         | None \<Rightarrow> (case act fs of Inl e \<Rightarrow> (None, fs\<lparr>f_errno := e\<rparr>) | Inr (x, fs) \<Rightarrow> (Some x, fs)))"

definition put_node :: "string \<Rightarrow> node \<Rightarrow> fsys \<Rightarrow> fsys" where
  "put_node p n fs = fs\<lparr>f_nodes := (f_nodes fs)(p \<mapsto> n)\<rparr>"

definition make_node :: "string \<Rightarrow> node \<Rightarrow> fsys \<Rightarrow> errno + unit \<times> fsys" where
  "make_node p n fs =
     (if f_nodes fs p \<noteq> None then Inl EEXIST
      else if \<not> is_dir (dir_of p) fs then Inl ENOENT
      else Inr ((), put_node p n fs))"

definition sys_mkdir :: "string \<Rightarrow> fsys \<Rightarrow> unit option \<times> fsys" where
  "sys_mkdir p = sys (make_node p (Dir 0))"

definition sys_symlink :: "string \<Rightarrow> string \<Rightarrow> fsys \<Rightarrow> unit option \<times> fsys" where
  "sys_symlink target p = sys (make_node p (Lnk target 0))"

definition sys_unlink :: "string \<Rightarrow> fsys \<Rightarrow> unit option \<times> fsys" where
  "sys_unlink p = sys (\<lambda>fs. case f_nodes fs p of
     None \<Rightarrow> Inl ENOENT | Some (Dir _) \<Rightarrow> Inl EACCES
   | Some _ \<Rightarrow> Inr ((), fs\<lparr>f_nodes := (f_nodes fs)(p := None)\<rparr>))"

definition sys_lstat :: "string \<Rightarrow> fsys \<Rightarrow> stat option \<times> fsys" where
  "sys_lstat p = sys (\<lambda>fs. case f_nodes fs p of None \<Rightarrow> Inl ENOENT | Some n \<Rightarrow> Inr (stat_of n, fs))"

definition sys_stat :: "string \<Rightarrow> fsys \<Rightarrow> stat option \<times> fsys" where
  "sys_stat p = sys (\<lambda>fs. case resolve 40 p fs of
     None \<Rightarrow> Inl ELOOP
   | Some q \<Rightarrow> (case f_nodes fs q of None \<Rightarrow> Inl ENOENT | Some n \<Rightarrow> Inr (stat_of n, fs)))"

definition sys_readlink :: "string \<Rightarrow> nat \<Rightarrow> fsys \<Rightarrow> string option \<times> fsys" where
  "sys_readlink p len = sys (\<lambda>fs. case f_nodes fs p of
     Some (Lnk t _) \<Rightarrow> Inr (take len t, fs) | Some _ \<Rightarrow> Inl EACCES | None \<Rightarrow> Inl ENOENT)"

definition sys_opendir :: "string \<Rightarrow> fsys \<Rightarrow> string list option \<times> fsys" where
  "sys_opendir p = sys (\<lambda>fs. case f_list fs p of None \<Rightarrow> Inl ENOENT | Some ns \<Rightarrow> Inr (ns, fs))"

definition sys_utime :: "string \<Rightarrow> u32 \<Rightarrow> fsys \<Rightarrow> unit option \<times> fsys" where
  "sys_utime p t = sys (\<lambda>fs. case resolve 40 p fs of
     None \<Rightarrow> Inl ELOOP
   | Some q \<Rightarrow> (case f_nodes fs q of
       Some (Reg d m _) \<Rightarrow> Inr ((), put_node q (Reg d m t) fs)
     | Some (Dir _) \<Rightarrow> Inr ((), put_node q (Dir t) fs)
     | Some (Special m _) \<Rightarrow> Inr ((), put_node q (Special m t) fs)
     | Some (Lnk _ _) \<Rightarrow> Inl ELOOP
     | None \<Rightarrow> Inl ENOENT))"

subsection \<open>Files that are open for writing\<close>

text \<open>
  An open file has its path, what the file held when it was opened, and what has been written so far,
  from the start of the file on.
\<close>

record ofile =
  of_path :: string
  of_base :: "byte list"
  of_out :: "byte list"

text \<open>\<open>open(path, O_WRONLY|O_CREAT|O_EXCL, mode)\<close>\<close>

definition sys_create_excl :: "string \<Rightarrow> u32 \<Rightarrow> fsys \<Rightarrow> ofile option \<times> fsys" where
  "sys_create_excl p mode = sys (\<lambda>fs. case make_node p (Reg [] (mode AND NOT (f_umask fs)) 0) fs of
     Inl e \<Rightarrow> Inl e | Inr (_, fs) \<Rightarrow> Inr (\<lparr>of_path = p, of_base = [], of_out = []\<rparr>, fs))"

text \<open>\<open>open(path, O_WRONLY)\<close>: the file keeps its contents.\<close>

definition sys_open_wr :: "string \<Rightarrow> fsys \<Rightarrow> ofile option \<times> fsys" where
  "sys_open_wr p = sys (\<lambda>fs. case resolve 40 p fs of
     None \<Rightarrow> Inl ELOOP
   | Some q \<Rightarrow> (case f_nodes fs q of
       None \<Rightarrow> Inl ENOENT
     | Some (Reg d _ _) \<Rightarrow> Inr (\<lparr>of_path = q, of_base = d, of_out = []\<rparr>, fs)
     | Some _ \<Rightarrow> Inl EACCES))"

text \<open>\<open>creat(path, mode)\<close>: the file is made, or emptied.\<close>

definition sys_creat :: "string \<Rightarrow> u32 \<Rightarrow> fsys \<Rightarrow> ofile option \<times> fsys" where
  "sys_creat p mode = sys (\<lambda>fs. case resolve 40 p fs of
     None \<Rightarrow> Inl ELOOP
   | Some q \<Rightarrow> (case f_nodes fs q of
       None \<Rightarrow> (case make_node q (Reg [] (mode AND NOT (f_umask fs)) 0) fs of
         Inl e \<Rightarrow> Inl e | Inr (_, fs) \<Rightarrow> Inr (\<lparr>of_path = q, of_base = [], of_out = []\<rparr>, fs))
     | Some (Reg _ m t) \<Rightarrow> Inr (\<lparr>of_path = q, of_base = [], of_out = []\<rparr>, put_node q (Reg [] m t) fs)
     | Some _ \<Rightarrow> Inl EACCES))"

text \<open>
  \<open>writex\<close> on an open file. The error number is that of the write that failed; a write of nothing
  leaves it as it is.
\<close>

definition file_write :: "byte list \<Rightarrow> ofile \<Rightarrow> fsys \<Rightarrow> bool \<times> ofile \<times> fsys" where
  "file_write bs h fs =
     (let (ok, f) = writex bs \<lparr>fd_in = [], fd_wr = f_wr fs, fd_out = of_out h\<rparr>;
          used = length (f_wr fs) - length (fd_wr f);
          e = (if ok \<or> used = 0 then f_errno fs
               else case f_wr fs ! (used - 1) of Inl e \<Rightarrow> e | Inr _ \<Rightarrow> f_errno fs);
          h = h\<lparr>of_out := fd_out f\<rparr>;
          fs = fs\<lparr>f_wr := fd_wr f, f_errno := e\<rparr>;
          fs = (case f_nodes fs (of_path h) of
                  Some (Reg _ m t) \<Rightarrow> put_node (of_path h) (Reg (of_out h @ drop (length (of_out h)) (of_base h)) m t) fs
                | _ \<Rightarrow> fs)
      in (ok, h, fs))"

subsection \<open>Files that are open for reading\<close>

text \<open>\<open>open(path, O_RDONLY)\<close> gives the bytes that are left to read.\<close>

definition sys_open_rd :: "string \<Rightarrow> fsys \<Rightarrow> byte list option \<times> fsys" where
  "sys_open_rd p = sys (\<lambda>fs. case resolve 40 p fs of
     None \<Rightarrow> Inl ELOOP
   | Some q \<Rightarrow> (case f_nodes fs q of
       None \<Rightarrow> Inl ENOENT | Some (Reg d _ _) \<Rightarrow> Inr (d, fs) | Some _ \<Rightarrow> Inl EACCES))"

definition file_read :: "nat \<Rightarrow> byte list \<Rightarrow> fsys \<Rightarrow> (errno + byte list) \<times> byte list \<times> fsys" where
  "file_read n rest fs =
     (let (e, fs) = (case f_rd fs of [] \<Rightarrow> (None, fs) | e # es \<Rightarrow> (e, fs\<lparr>f_rd := es\<rparr>))
      in case e of Some e \<Rightarrow> (Inl e, rest, fs\<lparr>f_errno := e\<rparr>) | None \<Rightarrow> (Inr (take n rest), drop n rest, fs))"

lemma file_read_error: "file_read n rest fs = (Inl e, rest', fs') \<Longrightarrow> rest' = rest \<and> length (f_rd fs') < length (f_rd fs)"
  by (auto simp: file_read_def split: list.splits option.splits)

lemma file_read_data:
  "file_read n rest fs = (Inr bs, rest', fs') \<Longrightarrow>
   rest = bs @ rest' \<and> length bs \<le> n \<and> length (f_rd fs') \<le> length (f_rd fs) \<and> (bs = [] \<longrightarrow> n = 0 \<or> rest = [])"
  by (auto simp: file_read_def split: list.splits option.splits)

definition strerror :: "errno \<Rightarrow> string" where
  "strerror e = (case e of EINTR \<Rightarrow> ''Interrupted system call'' | EAGAIN \<Rightarrow> ''Try again'' | EIO \<Rightarrow> ''I/O error''
     | ENOENT \<Rightarrow> ''No such file or directory'' | EEXIST \<Rightarrow> ''File exists'' | EACCES \<Rightarrow> ''Permission denied''
     | ENOSPC \<Rightarrow> ''No space left on device'' | ELOOP \<Rightarrow> ''Too many symbolic links encountered'')"

subsection \<open>A file system on which no call fails by itself\<close>

definition calm :: "fsys \<Rightarrow> bool" where
  "calm fs \<longleftrightarrow> f_fail fs = [] \<and> f_rd fs = [] \<and> list_all write_ok (f_wr fs)"

lemma sys_calm: "f_fail fs = [] \<Longrightarrow> sys act fs = (case act fs of Inl e \<Rightarrow> (None, fs\<lparr>f_errno := e\<rparr>) | Inr (x, fs) \<Rightarrow> (Some x, fs))"
  by (simp add: sys_def)

lemma put_node_simps [simp]:
  "f_fail (put_node p n fs) = f_fail fs" "f_rd (put_node p n fs) = f_rd fs" "f_wr (put_node p n fs) = f_wr fs"
  "f_nodes (put_node p n fs) = (f_nodes fs)(p \<mapsto> n)" "f_errno (put_node p n fs) = f_errno fs" "f_list (put_node p n fs) = f_list fs"
  "f_umask (put_node p n fs) = f_umask fs"
  by (simp_all add: put_node_def)

lemma calm_put [simp]: "calm (put_node p n fs) = calm fs"
  by (simp add: calm_def)

lemma file_write_calm:
  assumes "calm fs" "f_nodes fs (of_path h) = Some (Reg d m t)"
  obtains fs' where "file_write bs h fs = (True, h\<lparr>of_out := of_out h @ bs\<rparr>, fs')" "calm fs'"
    "f_nodes fs' = (f_nodes fs)(of_path h \<mapsto> Reg ((of_out h @ bs) @ drop (length (of_out h @ bs)) (of_base h)) m t)"
    "f_list fs' = f_list fs"
proof -
  let ?f = "\<lparr>fd_in = [], fd_wr = f_wr fs, fd_out = of_out h\<rparr>"
  have "list_all write_ok (fd_wr ?f)" using assms(1) by (simp add: calm_def)
  from writex_succeeds [OF this, of bs] obtain f where f: "writex bs ?f = (True, f)" "list_all write_ok (fd_wr f)"
    by (cases "writex bs ?f") auto
  then have "fd_out f = of_out h @ bs" using writex_True [OF f(1)] by simp
  then show ?thesis
    using f assms by (intro that [of "snd (snd (file_write bs h fs))"]) (auto simp: file_write_def Let_def calm_def put_node_def)
qed

end
