(* ===== verification/SyncService.thy ===== *)
theory SyncService
  imports Files
begin

text \<open>
  The file transfer service of the device (src/tools/adb/file_sync_service.c): requests to stat, list,
  receive and send files on one connection. The connection is a descriptor of Cio, the files are those
  of Files. A copy past the end of a buffer sets a flag and ends the call. The service returns on every
  input, its buffers hold all but one of the possible requests, and a file that a client sends is stored.
\<close>

subsection \<open>Messages\<close>

definition MKID :: "string \<Rightarrow> u32" where
  "MKID cs = un_le32 cs"

abbreviation ID_STAT :: u32 where "ID_STAT \<equiv> MKID ''STAT''"
abbreviation ID_LIST :: u32 where "ID_LIST \<equiv> MKID ''LIST''"
abbreviation ID_SEND :: u32 where "ID_SEND \<equiv> MKID ''SEND''"
abbreviation ID_RECV :: u32 where "ID_RECV \<equiv> MKID ''RECV''"
abbreviation ID_DENT :: u32 where "ID_DENT \<equiv> MKID ''DENT''"
abbreviation ID_DONE :: u32 where "ID_DONE \<equiv> MKID ''DONE''"
abbreviation ID_DATA :: u32 where "ID_DATA \<equiv> MKID ''DATA''"
abbreviation ID_OKAY :: u32 where "ID_OKAY \<equiv> MKID ''OKAY''"
abbreviation ID_FAIL :: u32 where "ID_FAIL \<equiv> MKID ''FAIL''"
abbreviation ID_QUIT :: u32 where "ID_QUIT \<equiv> MKID ''QUIT''"

abbreviation SYNC_DATA_MAX :: nat where "SYNC_DATA_MAX \<equiv> 65536"

text \<open>A message is a sequence of words, least significant byte first.\<close>

definition syncmsg :: "u32 list \<Rightarrow> byte list" where
  "syncmsg ws = concat (map le32 ws)"

definition msg_word :: "nat \<Rightarrow> byte list \<Rightarrow> u32" where
  "msg_word i m = un_le32 (take 4 (drop (4 * i) m))"

lemma ids_distinct [simp]:
  "ID_DONE \<noteq> ID_DATA" "ID_DATA \<noteq> ID_DONE" "ID_FAIL \<noteq> ID_DATA" "ID_FAIL \<noteq> ID_DONE" "ID_FAIL \<noteq> ID_OKAY" "ID_OKAY \<noteq> ID_FAIL"
  "ID_SEND \<noteq> ID_STAT" "ID_SEND \<noteq> ID_LIST" "ID_RECV \<noteq> ID_STAT" "ID_RECV \<noteq> ID_LIST" "ID_RECV \<noteq> ID_SEND"
  "ID_LIST \<noteq> ID_STAT" "ID_DENT \<noteq> ID_DONE" "ID_QUIT \<noteq> ID_STAT" "ID_QUIT \<noteq> ID_LIST" "ID_QUIT \<noteq> ID_SEND" "ID_QUIT \<noteq> ID_RECV"
  "ID_DATA \<noteq> ID_FAIL" "ID_DONE \<noteq> ID_FAIL" "ID_DONE \<noteq> ID_DENT"
  by (simp_all add: MKID_def un_le32_def word_of_byte_def)

lemma length_syncmsg [simp]: "length (syncmsg ws) = 4 * length ws"
  by (induction ws) (simp_all add: syncmsg_def)

lemma msg_word_syncmsg [simp]: "i < length ws \<Longrightarrow> msg_word i (syncmsg ws) = ws ! i"
proof (induction ws arbitrary: i)
  case (Cons w ws)
  show ?case
  proof (cases i)
    case 0
    then show ?thesis by (simp add: msg_word_def syncmsg_def)
  next
    case (Suc j)
    have "msg_word (Suc j) (syncmsg (w # ws)) = msg_word j (syncmsg ws)" by (simp add: msg_word_def syncmsg_def)
    with Cons Suc show ?thesis by simp
  qed
qed simp

subsection \<open>The state of the service\<close>

record svc =
  sv_s :: fdesc
  sv_fs :: fsys
  sv_buf :: "byte list"
  sv_overrun :: bool

definition svc_read :: "nat \<Rightarrow> 'a svc_scheme \<Rightarrow> byte list option \<times> 'a svc_scheme" where
  "svc_read n v = (case readx n (sv_s v) of (r, s) \<Rightarrow> (r, v\<lparr>sv_s := s\<rparr>))"

definition svc_write :: "byte list \<Rightarrow> 'a svc_scheme \<Rightarrow> bool \<times> 'a svc_scheme" where
  "svc_write bs v = (case writex bs (sv_s v) of (ok, s) \<Rightarrow> (ok, v\<lparr>sv_s := s\<rparr>))"

definition svc_sys :: "(fsys \<Rightarrow> 'r \<times> fsys) \<Rightarrow> 'a svc_scheme \<Rightarrow> 'r \<times> 'a svc_scheme" where
  "svc_sys f v = (case f (sv_fs v) of (r, fs) \<Rightarrow> (r, v\<lparr>sv_fs := fs\<rparr>))"

abbreviation sv_errno :: "'a svc_scheme \<Rightarrow> errno" where "sv_errno v \<equiv> f_errno (sv_fs v)"

text \<open>\<open>readx(s, buffer, len)\<close>\<close>

definition read_buffer :: "nat \<Rightarrow> 'a svc_scheme \<Rightarrow> byte list option \<times> 'a svc_scheme" where
  "read_buffer len v =
     (if length (sv_buf v) < len then (None, v\<lparr>sv_overrun := True\<rparr>)
      else case svc_read len v of
        (Some bs, v) \<Rightarrow> (Some bs, v\<lparr>sv_buf := bs @ drop len (sv_buf v)\<rparr>)
      | (None, v) \<Rightarrow> (None, v))"

subsection \<open>Operations\<close>

function mkdirs_from :: "string \<Rightarrow> string \<Rightarrow> 'a svc_scheme \<Rightarrow> int \<times> 'a svc_scheme" where
  "mkdirs_from pre rest v =
     (case strchr (CHR ''/'') rest of
        None \<Rightarrow> (0, v)
      | Some (a, b) \<Rightarrow>
          (case svc_sys (sys_mkdir (pre @ a)) v of
             (None, v) \<Rightarrow> if sv_errno v \<noteq> EEXIST then (- 1, v) else mkdirs_from (pre @ a @ ''/'') b v
           | (Some _, v) \<Rightarrow> mkdirs_from (pre @ a @ ''/'') b v))"
  by pat_completeness auto
termination
  by (relation "measure (\<lambda>(_, rest, _). length rest)") (auto dest: strchr_SomeD)

declare mkdirs_from.simps [simp del]

definition mkdirs :: "string \<Rightarrow> svc \<Rightarrow> int \<times> svc" where
  "mkdirs name v = (if \<not> starts_with ''/'' name then (- 1, v) else mkdirs_from (take 1 name) (drop 1 name) v)"

definition do_stat :: "string \<Rightarrow> svc \<Rightarrow> int \<times> svc" where
  "do_stat path v =
     (let (r, v) = svc_sys (sys_lstat path) v;
          m = (case r of None \<Rightarrow> [ID_STAT, 0, 0, 0] | Some st \<Rightarrow> [ID_STAT, st_mode st, st_size st, st_mtime st]);
          (ok, v) = svc_write (syncmsg m) v
      in (if ok then 0 else - 1, v))"

text \<open>\<open>tmp\<close> has 1024 + 256 + 1 bytes; a name is copied behind the path and a slash, with its zero.\<close>

fun list_entries :: "string \<Rightarrow> string list \<Rightarrow> svc \<Rightarrow> bool \<times> svc" where
  "list_entries path [] v = (True, v)"
| "list_entries path (name # names) v =
     (if 256 < length name then list_entries path names v
      else if 1024 + 256 + 1 < length path + 1 + length name + 1 then (False, v\<lparr>sv_overrun := True\<rparr>)
      else case svc_sys (sys_lstat (path @ ''/'' @ name)) v of
        (None, v) \<Rightarrow> list_entries path names v
      | (Some st, v) \<Rightarrow>
          let (ok, v) = svc_write (syncmsg [ID_DENT, st_mode st, st_size st, st_mtime st, of_nat (length name)]) v
          in if \<not> ok then (False, v)
             else let (ok, v) = svc_write name v in if \<not> ok then (False, v) else list_entries path names v)"

definition do_list :: "string \<Rightarrow> svc \<Rightarrow> int \<times> svc" where
  "do_list path v =
     (if 1024 + 256 + 1 < length path + 1 then (- 1, v\<lparr>sv_overrun := True\<rparr>)
      else
        let (d, v) = svc_sys (sys_opendir path) v;
            (ok, v) = (case d of None \<Rightarrow> (True, v) | Some names \<Rightarrow> list_entries path names v)
        in if \<not> ok then (- 1, v)
           else let (ok, v) = svc_write (syncmsg [ID_DONE, 0, 0, 0, 0]) v in (if ok then 0 else - 1, v))"

definition fail_message :: "string \<Rightarrow> svc \<Rightarrow> int \<times> svc" where
  "fail_message reason v =
     (let (ok, v) = svc_write (syncmsg [ID_FAIL, of_nat (length reason)]) v
      in if \<not> ok then (- 1, v)
         else let (ok, v) = svc_write reason v in (if ok then 0 else - 1, v))"

definition fail_errno :: "svc \<Rightarrow> int \<times> svc" where
  "fail_errno v = fail_message (strerror (sv_errno v)) v"

definition open_dest :: "string \<Rightarrow> u32 \<Rightarrow> svc \<Rightarrow> ofile option \<times> svc" where
  "open_dest path mode v =
     (let (fd, v) = svc_sys (sys_create_excl path mode) v;
          (fd, v) = (if fd = None \<and> sv_errno v = ENOENT
                     then svc_sys (sys_create_excl path mode) (snd (mkdirs path v)) else (fd, v))
      in if fd = None \<and> sv_errno v = EEXIST then svc_sys (sys_open_wr path) v else (fd, v))"

text \<open>The label \<open>fail\<close>.\<close>

definition send_failed :: "string \<Rightarrow> svc \<Rightarrow> int \<times> svc" where
  "send_failed path v = (- 1, snd (svc_sys (sys_unlink path) v))"

definition send_finished :: "string \<Rightarrow> ofile option \<Rightarrow> u32 \<Rightarrow> svc \<Rightarrow> int \<times> svc" where
  "send_finished path fd timestamp v =
     (case fd of
        None \<Rightarrow> (0, v)
      | Some _ \<Rightarrow>
          let v = snd (svc_sys (sys_utime path timestamp) v); (ok, v) = svc_write (syncmsg [ID_OKAY, 0]) v
          in (if ok then 0 else - 1, v))"

text \<open>One round of the loop: the result of the call, or the file to go on with.\<close>

definition send_step :: "string \<Rightarrow> ofile option \<Rightarrow> svc \<Rightarrow> (int + ofile option) \<times> svc" where
  "send_step path fd v =
     (case svc_read 8 v of
        (None, v) \<Rightarrow> apfst Inl (send_failed path v)
      | (Some m, v) \<Rightarrow>
          if msg_word 0 m \<noteq> ID_DATA then
            (if msg_word 0 m = ID_DONE then apfst Inl (send_finished path fd (msg_word 1 m) v)
             else apfst Inl (send_failed path (snd (fail_message ''invalid data message'' v))))
          else if SYNC_DATA_MAX < unat (msg_word 1 m)
          then apfst Inl (send_failed path (snd (fail_message ''oversize data message'' v)))
          else
            (case read_buffer (unat (msg_word 1 m)) v of
               (None, v) \<Rightarrow> apfst Inl (send_failed path v)
             | (Some bs, v) \<Rightarrow>
                 (case fd of
                    None \<Rightarrow> (Inr None, v)
                  | Some h \<Rightarrow>
                      let ((ok, h), v) = svc_sys (\<lambda>fs. case file_write bs h fs of (ok, h, fs) \<Rightarrow> ((ok, h), fs)) v
                      in if ok then (Inr (Some h), v)
                         else
                           let v = snd (svc_sys (sys_unlink path) v); (r, v) = fail_errno v
                           in if r \<noteq> 0 then (Inl (- 1), v) else (Inr None, v))))"

text \<open>How much of the input script is left: it bounds the number of rounds.\<close>

definition input_size :: "fdesc \<Rightarrow> nat" where
  "input_size f = sum_list (map (\<lambda>e. case e of Inl _ \<Rightarrow> 1 | Inr bs \<Rightarrow> 1 + length bs) (fd_in f))"

lemma sys_read_size:
  assumes "sys_read n f = (r, f')"
  shows "input_size f' \<le> input_size f" and "0 < n \<Longrightarrow> r \<noteq> Inr [] \<Longrightarrow> input_size f' < input_size f"
  using assms by (auto simp: sys_read_def input_size_def split: list.splits sum.splits if_splits)

lemma readx_size: "readx n f = (r, f') \<Longrightarrow> input_size f' \<le> input_size f \<and> (0 < n \<and> r \<noteq> None \<longrightarrow> input_size f' < input_size f)"
proof (induction n f arbitrary: r f' rule: readx.induct)
  case (1 n f)
  obtain q f1 where rd: "sys_read n f = (q, f1)" by fastforce
  note s = sys_read_size [OF rd]
  show ?case
  proof (cases "n = 0")
    case True
    with "1.prems" show ?thesis by (simp add: readx.simps)
  next
    case n: False
    show ?thesis
    proof (cases q)
      case (Inl e)
      then show ?thesis
        using "1.IH"(1) [OF n rd [symmetric] Inl] "1.prems" s n rd
        by (auto simp: readx.simps [of n f] split: if_splits)
    next
      case (Inr bs)
      show ?thesis
      proof (cases "bs = []")
        case True
        with "1.prems" Inr n rd s show ?thesis by (auto simp: readx.simps [of n f])
      next
        case False
        obtain r2 f2 where r2: "readx (n - length bs) f1 = (r2, f2)" by fastforce
        have "input_size f2 \<le> input_size f1" using "1.IH"(2) [OF n rd [symmetric] Inr False r2] by blast
        moreover have "input_size f1 < input_size f" using s(2) n Inr False by simp
        moreover have "f' = f2" using "1.prems" rd n Inr False r2 by (auto simp: readx.simps [of n f] split: option.splits)
        ultimately show ?thesis by simp
      qed
    qed
  qed
qed

lemma writex_size: "writex bs f = (r, f') \<Longrightarrow> input_size f' = input_size f"
  using writex_out [of bs f] by (auto simp: input_size_def)

abbreviation sv_left :: "'a svc_scheme \<Rightarrow> nat" where "sv_left v \<equiv> input_size (sv_s v)"

lemma svc_read_left: "svc_read n v = (r, v') \<Longrightarrow> sv_left v' \<le> sv_left v \<and> (0 < n \<and> r \<noteq> None \<longrightarrow> sv_left v' < sv_left v)"
  by (auto simp: svc_read_def split: prod.splits dest: readx_size)

named_theorems left \<open>what the calls leave of the input\<close>

lemma svc_write_left [left]: "svc_write bs v = (r, v') \<Longrightarrow> sv_left v' = sv_left v"
  by (auto simp: svc_write_def split: prod.splits dest: writex_size)

lemma svc_sys_left [left]: "svc_sys f v = (r, v') \<Longrightarrow> sv_left v' = sv_left v"
  by (auto simp: svc_sys_def split: prod.splits)

lemma svc_write_fs: "svc_write bs v = (r, v') \<Longrightarrow> sv_fs v' = sv_fs v"
  by (auto simp: svc_write_def split: prod.splits)

lemma fail_message_left [left]: "fail_message reason v = (r, v') \<Longrightarrow> sv_left v' = sv_left v"
  by (auto simp: fail_message_def Let_def split: prod.splits if_splits dest!: left)

lemma fail_errno_left [left]: "fail_errno v = (r, v') \<Longrightarrow> sv_left v' = sv_left v"
  by (auto simp: fail_errno_def dest: left)

lemma send_failed_left [left]: "send_failed path v = (r, v') \<Longrightarrow> sv_left v' = sv_left v"
  by (cases "svc_sys (sys_unlink path) v") (auto simp: send_failed_def dest: left)

lemma send_finished_left [left]: "send_finished path fd t v = (r, v') \<Longrightarrow> sv_left v' = sv_left v"
  by (cases "svc_sys (sys_utime path t) v")
    (auto simp: send_finished_def Let_def split: option.splits prod.splits dest!: left)

lemma read_buffer_left: "read_buffer n v = (r, v') \<Longrightarrow> sv_left v' \<le> sv_left v"
  by (auto simp: read_buffer_def split: if_splits prod.splits option.splits dest!: svc_read_left)

lemma send_step_left:
  assumes "send_step path fd v = (r, v')"
  shows "sv_left v' \<le> sv_left v \<and> (isl r \<or> sv_left v' < sv_left v)"
proof (cases "svc_read 8 v")
  case (Pair q v1)
  note l1 = svc_read_left [OF Pair]
  have f: "sv_left v' = sv_left w \<and> isl r" if "apfst Inl (send_failed path w) = (r, v')" for w
    using that by (cases "send_failed path w") (auto dest: left)
  show ?thesis
  proof (cases q)
    case None
    with assms Pair l1 f [of v1] show ?thesis by (simp add: send_step_def)
  next
    case (Some m)
    have lt: "sv_left v1 < sv_left v" using l1 Some by simp
    consider (other) "msg_word 0 m \<noteq> ID_DATA" | (big) "msg_word 0 m = ID_DATA" "SYNC_DATA_MAX < unat (msg_word 1 m)"
      | (data) "msg_word 0 m = ID_DATA" "\<not> SYNC_DATA_MAX < unat (msg_word 1 m)" by blast
    then show ?thesis
    proof cases
      case other
      then show ?thesis
        using assms Pair Some lt
        by (cases "fail_message ''invalid data message'' v1"; cases "send_finished path fd (msg_word 1 m) v1")
          (auto simp: send_step_def simp del: append.simps split: if_splits dest!: f dest: left)
    next
      case big
      then show ?thesis
        using assms Pair Some lt
        by (cases "fail_message ''oversize data message'' v1") (auto simp: send_step_def dest!: f dest: left)
    next
      case data
      obtain bs v2 where b: "read_buffer (unat (msg_word 1 m)) v1 = (bs, v2)" by fastforce
      note l2 = read_buffer_left [OF b]
      show ?thesis
      proof (cases "bs = None \<or> fd = None")
        case True
        then show ?thesis using assms Pair Some data b lt l2
          by (auto simp: send_step_def split: option.splits dest!: f)
      next
        case False
        then obtain d h where dh: "bs = Some d" "fd = Some h" by auto
        obtain ok h' v3 where w: "svc_sys (\<lambda>fs. case file_write d h fs of (ok, h, fs) \<Rightarrow> ((ok, h), fs)) v2 = ((ok, h'), v3)"
          by (metis prod.collapse)
        obtain u v4 where u: "svc_sys (sys_unlink path) v3 = (u, v4)" by fastforce
        have "sv_left v4 = sv_left v2" using svc_sys_left [OF w] svc_sys_left [OF u] by simp
        then show ?thesis using assms Pair Some data b dh w u lt l2 svc_sys_left [OF w]
          by (cases "fail_errno v4") (auto simp: send_step_def Let_def split: if_splits dest: left)
      qed
    qed
  qed
qed

function send_loop :: "string \<Rightarrow> ofile option \<Rightarrow> svc \<Rightarrow> int \<times> svc" where
  "send_loop path fd v =
     (case send_step path fd v of
        (Inl r, v) \<Rightarrow> (r, v)
      | (Inr fd, v) \<Rightarrow> send_loop path fd v)"
  by pat_completeness auto
termination
  by (relation "measure (\<lambda>(_, _, v). sv_left v)") (auto dest: send_step_left [OF sym])

declare send_loop.simps [simp del]

definition handle_send_file :: "string \<Rightarrow> u32 \<Rightarrow> svc \<Rightarrow> int \<times> svc" where
  "handle_send_file path mode v =
     (let (fd, v) = open_dest path mode v
      in case fd of
           None \<Rightarrow> (case fail_errno v of (r, v) \<Rightarrow> if r \<noteq> 0 then (- 1, v) else send_loop path None v)
         | Some h \<Rightarrow> send_loop path (Some h) v)"

text \<open>The target of a link is the string at the start of the buffer.\<close>

definition make_link :: "string \<Rightarrow> svc \<Rightarrow> unit option \<times> svc" where
  "make_link path v =
     (let (r, v) = svc_sys (sys_symlink (cstr (sv_buf v)) path) v
      in if r = None \<and> sv_errno v = ENOENT
         then (let v = snd (mkdirs path v) in svc_sys (sys_symlink (cstr (sv_buf v)) path) v)
         else (r, v))"

definition link_done :: "svc \<Rightarrow> int \<times> svc" where
  "link_done v =
     (case svc_read 8 v of
        (None, v) \<Rightarrow> (- 1, v)
      | (Some m, v) \<Rightarrow>
          if msg_word 0 m = ID_DONE
          then (let (ok, v) = svc_write (syncmsg [ID_OKAY, 0]) v in (if ok then 0 else - 1, v))
          else (- 1, snd (fail_message ''invalid data message: expected ID_DONE'' v)))"

definition handle_send_link :: "string \<Rightarrow> svc \<Rightarrow> int \<times> svc" where
  "handle_send_link path v =
     (case svc_read 8 v of
        (None, v) \<Rightarrow> (- 1, v)
      | (Some m, v) \<Rightarrow>
          if msg_word 0 m \<noteq> ID_DATA then (- 1, snd (fail_message ''invalid data message: expected ID_DATA'' v))
          else if SYNC_DATA_MAX < unat (msg_word 1 m) then (- 1, snd (fail_message ''oversize data message'' v))
          else
            (case read_buffer (unat (msg_word 1 m)) v of
               (None, v) \<Rightarrow> (- 1, v)
             | (Some _, v) \<Rightarrow>
                 (case make_link path v of
                    (None, v) \<Rightarrow> (- 1, snd (fail_errno v))
                  | (Some _, v) \<Rightarrow> link_done v)))"

text \<open>\<open>strtoul\<close> sets \<open>errno\<close> when the number does not fit the 32-bit \<open>long\<close> of the device.\<close>

definition strtoul_range :: "nat \<Rightarrow> string \<Rightarrow> bool" where
  "strtoul_range base s =
     (let (neg, s) = sign_split s; (base, s) = number_base base s
      in 2 ^ 32 \<le> digits_value base (takeWhile (is_digit_in base) s))"

definition send_mode :: "string \<Rightarrow> string \<times> u32 \<times> bool" where
  "send_mode path =
     (case strrchr (CHR '','') path of
        None \<Rightarrow> (path, 0x1A4, False)
      | Some (p, num) \<Rightarrow>
          if strtoul_range 0 num then (p, 0x1A4, False)
          else let mode = ucast (strtoul 0 num) :: u32 in (p, mode AND 0x1FF, S_ISLNK mode))"

definition do_send :: "string \<Rightarrow> svc \<Rightarrow> int \<times> svc" where
  "do_send path v =
     (let (path, mode, is_link) = send_mode path; v = snd (svc_sys (sys_unlink path) v)
      in if is_link then handle_send_link path v
         else
           let mode = mode OR (drop_bit 3 mode AND 0x38); mode = mode OR (drop_bit 3 mode AND 0x7)
           in handle_send_file path mode v)"

function recv_loop :: "byte list \<Rightarrow> svc \<Rightarrow> int \<times> svc" where
  "recv_loop rest v =
     (case file_read SYNC_DATA_MAX rest (sv_fs v) of
        (Inl e, rest', fs) \<Rightarrow> if e = EINTR then recv_loop rest' (v\<lparr>sv_fs := fs\<rparr>) else fail_errno (v\<lparr>sv_fs := fs\<rparr>)
      | (Inr bs, rest', fs) \<Rightarrow>
          let v = v\<lparr>sv_fs := fs, sv_buf := bs @ drop (length bs) (sv_buf v)\<rparr>
          in if bs = []
             then (let (ok, v) = svc_write (syncmsg [ID_DONE, 0]) v in (if ok then 0 else - 1, v))
             else
               (case svc_write (syncmsg [ID_DATA, of_nat (length bs)]) v of
                  (False, v) \<Rightarrow> (- 1, v)
                | (True, v) \<Rightarrow> (case svc_write bs v of (False, v) \<Rightarrow> (- 1, v) | (True, v) \<Rightarrow> recv_loop rest' v)))"
  by pat_completeness auto
termination
proof (relation "measure (\<lambda>(rest, v). length rest + length (f_rd (sv_fs v)))", goal_cases)
  case (2 rest v a b e rest' fs)
  then show ?case using file_read_error [of SYNC_DATA_MAX rest "sv_fs v" e rest' fs] by auto
next
  case (3 rest v r a bs rest' fs v1 ok v2 ok2 v3)
  then show ?case using file_read_data [of SYNC_DATA_MAX rest "sv_fs v" bs rest' fs]
    by (cases bs) (auto dest!: svc_write_fs [OF sym])
qed simp

declare recv_loop.simps [simp del]

definition do_recv :: "string \<Rightarrow> svc \<Rightarrow> int \<times> svc" where
  "do_recv path v =
     (case svc_sys (sys_open_rd path) v of
        (None, v) \<Rightarrow> (case fail_errno v of (r, v) \<Rightarrow> (if r \<noteq> 0 then - 1 else 0, v))
      | (Some bytes, v) \<Rightarrow> recv_loop bytes v)"

text \<open>
  One request: whether the service goes on. The name goes into a buffer of 1025 bytes, with a zero
  behind it.
\<close>

definition service_step :: "svc \<Rightarrow> bool \<times> svc" where
  "service_step v =
     (case svc_read 8 v of
        (None, v) \<Rightarrow> (False, snd (fail_message ''command read failure'' v))
      | (Some m, v) \<Rightarrow>
          let namelen = unat (msg_word 1 m)
          in if 1024 < namelen then (False, snd (fail_message ''invalid namelen'' v))
             else if 1025 < namelen + 1 then (False, v\<lparr>sv_overrun := True\<rparr>)
             else
               (case svc_read namelen v of
                  (None, v) \<Rightarrow> (False, snd (fail_message ''filename read failure'' v))
                | (Some bytes, v) \<Rightarrow>
                    let name = cstr bytes; cmd = msg_word 0 m; go_on = (\<lambda>(r, v). (r = 0, v))
                    in if cmd = ID_STAT then go_on (do_stat name v)
                       else if cmd = ID_LIST then go_on (do_list name v)
                       else if cmd = ID_SEND then go_on (do_send name v)
                       else if cmd = ID_RECV then go_on (do_recv name v)
                       else if cmd = ID_QUIT then (False, v)
                       else (False, snd (fail_message ''unknown command'' v))))"

text \<open>No operation adds to the input, so the service comes to an end.\<close>

lemma mkdirs_from_left: "sv_left (snd (mkdirs_from pre rest v)) = sv_left v"
proof (induction pre rest v rule: mkdirs_from.induct)
  case (1 pre rest v)
  show ?case
  proof (cases "strchr (CHR ''/'') rest")
    case (Some ab)
    obtain a b where ab: "ab = (a, b)" by fastforce
    obtain r v1 where m: "svc_sys (sys_mkdir (pre @ a)) v = (r, v1)" by fastforce
    show ?thesis
    proof (cases "r = None \<and> sv_errno v1 \<noteq> EEXIST")
      case True
      then show ?thesis using Some ab m svc_sys_left [OF m] by (simp add: mkdirs_from.simps [of pre rest])
    next
      case False
      then have "mkdirs_from pre rest v = mkdirs_from (pre @ a @ ''/'') b v1"
        using Some ab m by (auto simp: mkdirs_from.simps [of pre rest] split: option.splits)
      moreover have "sv_left (snd (mkdirs_from (pre @ a @ ''/'') b v1)) = sv_left v1"
        using "1.IH" [OF Some ab [symmetric] m [symmetric]] False by (cases r) auto
      ultimately show ?thesis using svc_sys_left [OF m] by simp
    qed
  qed (simp add: mkdirs_from.simps [of pre rest])
qed

lemma mkdirs_left [left]: "mkdirs name v = (r, v') \<Longrightarrow> sv_left v' = sv_left v"
  using mkdirs_from_left [of "take 1 name" "drop 1 name" v] by (auto simp: mkdirs_def split: if_splits)

lemma do_stat_left [left]: "do_stat path v = (r, v') \<Longrightarrow> sv_left v' = sv_left v"
  by (auto simp: do_stat_def Let_def split: prod.splits dest!: left)

lemma list_entries_left [left]: "list_entries path names v = (r, v') \<Longrightarrow> sv_left v' = sv_left v"
proof (induction path names v rule: list_entries.induct)
  case (2 path name names v)
  show ?case
  proof (cases "256 < length name \<or> 1024 + 256 + 1 < length path + 1 + length name + 1")
    case True
    with 2 show ?thesis by (auto split: if_splits)
  next
    case False
    obtain q v1 where s: "svc_sys (sys_lstat (path @ ''/'' @ name)) v = (q, v1)" by fastforce
    show ?thesis
    proof (cases q)
      case None
      then show ?thesis using 2(2) [OF _ _ s [symmetric]] False "2.prems" s svc_sys_left [OF s] by simp
    next
      case (Some st)
      obtain ok v2 where w: "svc_write (syncmsg [ID_DENT, st_mode st, st_size st, st_mtime st, of_nat (length name)]) v1 = (ok, v2)" by fastforce
      obtain ok2 v3 where w2: "svc_write name v2 = (ok2, v3)" by fastforce
      show ?thesis
        using 2(3) [OF _ _ s [symmetric] Some w [symmetric] _ _ w2 [symmetric]] False Some "2.prems" s w w2
          svc_sys_left [OF s] svc_write_left [OF w] svc_write_left [OF w2] by (auto split: if_splits)
    qed
  qed
qed simp

lemma do_list_left [left]: "do_list path v = (r, v') \<Longrightarrow> sv_left v' = sv_left v"
  by (auto simp: do_list_def Let_def split: prod.splits if_splits option.splits dest!: left)

lemma open_dest_left [left]: "open_dest path mode v = (r, v') \<Longrightarrow> sv_left v' = sv_left v"
proof -
  have "sv_left (snd (mkdirs path w)) = sv_left w" for w by (cases "mkdirs path w") (simp add: left)
  then show "open_dest path mode v = (r, v') \<Longrightarrow> sv_left v' = sv_left v"
    by (auto simp: open_dest_def Let_def split: prod.splits if_splits dest!: left)
qed

lemma send_loop_left: "sv_left (snd (send_loop path fd v)) \<le> sv_left v"
proof (induction path fd v rule: send_loop.induct)
  case (1 path fd v)
  obtain r v1 where s: "send_step path fd v = (r, v1)" by fastforce
  then show ?case
    using 1 [OF s [symmetric]] send_step_left [OF s] by (cases r) (auto simp: send_loop.simps [of path fd v])
qed

lemma handle_send_file_left: "sv_left (snd (handle_send_file path mode v)) \<le> sv_left v"
proof -
  obtain fd v1 where o1: "open_dest path mode v = (fd, v1)" by fastforce
  obtain r v2 where e: "fail_errno v1 = (r, v2)" by fastforce
  show ?thesis
    using o1 e send_loop_left [of path None v2] send_loop_left [of path fd v1] open_dest_left [OF o1] fail_errno_left [OF e]
    by (auto simp: handle_send_file_def split: option.splits)
qed

lemma read_left: "svc_read n v = (r, v') \<Longrightarrow> sv_left v' \<le> sv_left v"
  using svc_read_left by blast

lemma make_link_left [left]: "make_link path v = (r, v') \<Longrightarrow> sv_left v' = sv_left v"
proof -
  have "sv_left (snd (mkdirs path w)) = sv_left w" for w by (cases "mkdirs path w") (simp add: left)
  then show "make_link path v = (r, v') \<Longrightarrow> sv_left v' = sv_left v"
    by (auto simp: make_link_def Let_def split: prod.splits if_splits dest!: left)
qed

lemma snd_left [simp]: "sv_left (snd (fail_message reason w)) = sv_left w" "sv_left (snd (fail_errno w)) = sv_left w"
  by (cases "fail_message reason w"; cases "fail_errno w"; simp add: left)+

lemma link_done_left: "sv_left (snd (link_done v)) \<le> sv_left v"
  by (auto simp: link_done_def Let_def split: prod.splits option.splits dest!: left read_left)

lemma handle_send_link_left: "sv_left (snd (handle_send_link path v)) \<le> sv_left v"
proof -
  obtain q v1 where q: "svc_read 8 v = (q, v1)" by fastforce
  show ?thesis
  proof (cases q)
    case None
    with q read_left [OF q] show ?thesis by (simp add: handle_send_link_def)
  next
    case (Some m)
    obtain b v2 where b: "read_buffer (unat (msg_word 1 m)) v1 = (b, v2)" by fastforce
    obtain l v3 where l: "make_link path v2 = (l, v3)" by fastforce
    show ?thesis
      using q Some b l read_left [OF q] read_buffer_left [OF b] make_link_left [OF l] link_done_left [of v3]
      by (cases b; cases l) (auto simp: handle_send_link_def simp del: append.simps)
  qed
qed

lemma do_send_left: "do_send path v = (r, v') \<Longrightarrow> sv_left v' \<le> sv_left v"
proof -
  obtain p mode is_link where m: "send_mode path = (p, mode, is_link)" by (metis prod_cases3)
  have u: "sv_left (snd (svc_sys (sys_unlink p) v)) = sv_left v" by (cases "svc_sys (sys_unlink p) v") (simp add: left)
  assume "do_send path v = (r, v')"
  then show ?thesis
    using m u handle_send_link_left [of p "snd (svc_sys (sys_unlink p) v)"] handle_send_file_left [of p _ "snd (svc_sys (sys_unlink p) v)"]
    by (auto simp: do_send_def Let_def split: if_splits) (metis snd_conv)+
qed

lemma recv_loop_left: "sv_left (snd (recv_loop rest v)) = sv_left v"
proof (induction rest v rule: recv_loop.induct)
  case (1 rest v)
  obtain r rest' fs where f: "file_read SYNC_DATA_MAX rest (sv_fs v) = (r, rest', fs)" by (metis prod_cases3)
  show ?case
  proof (cases r)
    case (Inl e)
    obtain q w where e: "fail_errno (v\<lparr>sv_fs := fs\<rparr>) = (q, w)" by fastforce
    then show ?thesis
      using "1.IH"(1) [OF f [symmetric] Inl refl] Inl f fail_errno_left [OF e] by (auto simp: recv_loop.simps [of rest v])
  next
    case (Inr bs)
    let ?v = "v\<lparr>sv_fs := fs, sv_buf := bs @ drop (length bs) (sv_buf v)\<rparr>"
    obtain ok v1 where w1: "svc_write (syncmsg [ID_DATA, of_nat (length bs)]) ?v = (ok, v1)" by fastforce
    obtain ok2 v2 where w2: "svc_write bs v1 = (ok2, v2)" by fastforce
    obtain ok3 v3 where w3: "svc_write (syncmsg [ID_DONE, 0]) ?v = (ok3, v3)" by fastforce
    show ?thesis
      using "1.IH"(2) [OF f [symmetric] Inr refl refl _ w1 [symmetric] _ w2 [symmetric]] Inr f w1 w2 w3
        svc_write_left [OF w1] svc_write_left [OF w2] svc_write_left [OF w3]
      by (cases "bs = []"; cases ok; cases ok2) (auto simp: recv_loop.simps [of rest v] Let_def)
  qed
qed

lemma do_recv_left [left]: "do_recv path v = (r, v') \<Longrightarrow> sv_left v' = sv_left v"
proof -
  obtain b v1 where o1: "svc_sys (sys_open_rd path) v = (b, v1)" by fastforce
  obtain q v2 where e: "fail_errno v1 = (q, v2)" by fastforce
  assume "do_recv path v = (r, v')"
  then show ?thesis
    using o1 e svc_sys_left [OF o1] fail_errno_left [OF e] recv_loop_left
    by (auto simp: do_recv_def split: option.splits) (metis snd_conv)
qed

lemma service_step_left:
  assumes "service_step v = (True, v')"
  shows "sv_left v' < sv_left v"
proof -
  obtain m v1 where m: "svc_read 8 v = (Some m, v1)" using assms by (auto simp: service_step_def split: prod.splits option.splits)
  have lt: "sv_left v1 < sv_left v" using svc_read_left [OF m] by simp
  obtain bytes v2 where b: "svc_read (unat (msg_word 1 m)) v1 = (Some bytes, v2)"
    using assms m by (auto simp: service_step_def Let_def split: prod.splits option.splits if_splits)
  have "sv_left v' \<le> sv_left v2"
    using assms m b by (auto simp: service_step_def Let_def split: prod.splits if_splits dest!: left do_send_left)
  then show ?thesis using lt read_left [OF b] by simp
qed

text \<open>The service: the state in which it leaves the connection.\<close>

function service_loop :: "svc \<Rightarrow> svc" where
  "service_loop v = (case service_step v of (True, v) \<Rightarrow> service_loop v | (False, v) \<Rightarrow> v)"
  by pat_completeness auto
termination
  by (relation "measure sv_left") (auto dest: service_step_left [OF sym])

declare service_loop.simps [simp del]

text \<open>\<open>malloc\<close> gives a buffer with any contents, or none.\<close>

definition file_sync_service :: "byte list option \<Rightarrow> fdesc \<Rightarrow> fsys \<Rightarrow> svc" where
  "file_sync_service buffer s fs =
     (case buffer of
        None \<Rightarrow> \<lparr>sv_s = s, sv_fs = fs, sv_buf = [], sv_overrun = False\<rparr>
      | Some b \<Rightarrow> service_loop \<lparr>sv_s = s, sv_fs = fs, sv_buf = b, sv_overrun = False\<rparr>)"

subsection \<open>The buffers\<close>

text \<open>The service's buffer has its size, nothing has been written past a buffer, and directories are as they were.\<close>

definition svc_ok :: "(string \<Rightarrow> string list option) \<Rightarrow> svc \<Rightarrow> bool" where
  "svc_ok L v \<longleftrightarrow> length (sv_buf v) = SYNC_DATA_MAX \<and> \<not> sv_overrun v \<and> f_list (sv_fs v) = L"

text \<open>The listings that the path buffer cannot take.\<close>

definition tight :: "string \<Rightarrow> string list \<Rightarrow> bool" where
  "tight path names \<longleftrightarrow> length path = 1024 \<and> (\<exists>n \<in> set names. length n = 256)"

definition no_tight :: "(string \<Rightarrow> string list option) \<Rightarrow> bool" where
  "no_tight L \<longleftrightarrow> (\<forall>d names. L d = Some names \<longrightarrow> \<not> tight d names)"

named_theorems keep \<open>preservation of the buffers\<close>

definition keeps_list :: "(fsys \<Rightarrow> 'a \<times> fsys) \<Rightarrow> bool" where
  "keeps_list f \<longleftrightarrow> (\<forall>fs. f_list (snd (f fs)) = f_list fs)"

lemma keeps_sys:
  assumes "\<And>fs x fs'. act fs = Inr (x, fs') \<Longrightarrow> f_list fs' = f_list fs"
  shows "keeps_list (sys act)"
  unfolding keeps_list_def
proof
  fix fs
  show "f_list (snd (sys act fs)) = f_list fs"
    by (auto simp: sys_def Let_def split: list.splits option.splits sum.splits prod.splits dest!: assms)
qed

lemma keeps_calls [simp]:
  "keeps_list (sys_mkdir p)" "keeps_list (sys_symlink t p)" "keeps_list (sys_unlink p)" "keeps_list (sys_lstat p)"
  "keeps_list (sys_opendir p)" "keeps_list (sys_utime p tm)" "keeps_list (sys_create_excl p m)" "keeps_list (sys_open_wr p)"
  "keeps_list (sys_open_rd p)"
  unfolding sys_mkdir_def sys_symlink_def sys_unlink_def sys_lstat_def sys_opendir_def sys_utime_def
    sys_create_excl_def sys_open_wr_def sys_open_rd_def
  by (rule keeps_sys; auto simp: make_node_def split: if_splits option.splits node.splits sum.splits)+

lemma keeps_write [simp]: "keeps_list (\<lambda>fs. case file_write bs h fs of (ok, h, fs) \<Rightarrow> ((ok, h), fs))"
  by (auto simp: keeps_list_def file_write_def Let_def split: prod.splits option.splits node.splits)

lemma svc_sys_keep [keep]: "svc_sys f v = (r, v') \<Longrightarrow> keeps_list f \<Longrightarrow> svc_ok L v \<Longrightarrow> svc_ok L v'"
  by (auto simp: svc_sys_def svc_ok_def keeps_list_def split: prod.splits) (metis snd_conv)+

lemma svc_write_keep [keep]: "svc_write bs v = (r, v') \<Longrightarrow> svc_ok L v \<Longrightarrow> svc_ok L v'"
  by (auto simp: svc_write_def svc_ok_def split: prod.splits)

lemma svc_read_keep [keep]: "svc_read n v = (r, v') \<Longrightarrow> svc_ok L v \<Longrightarrow> svc_ok L v'"
  by (auto simp: svc_read_def svc_ok_def split: prod.splits)

lemma readx_length: "readx n f = (Some bs, f') \<Longrightarrow> length bs = n"
proof -
  assume r: "readx n f = (Some bs, f')"
  then have "n \<le> length (pending_in f)" using readx_short [of f n] by (metis fst_conv not_le option.distinct(1))
  from readx_stream [OF this] r show ?thesis by (auto simp: \<open>n \<le> length (pending_in f)\<close>)
qed

lemma read_buffer_keep [keep]:
  assumes "read_buffer n v = (r, v')" "svc_ok L v" "n \<le> SYNC_DATA_MAX"
  shows "svc_ok L v'"
proof -
  obtain q v1 where q: "svc_read n v = (q, v1)" by fastforce
  have "sv_buf v1 = sv_buf v" using q by (auto simp: svc_read_def split: prod.splits)
  moreover have "length bs = n" if "q = Some bs" for bs
    using q that by (auto simp: svc_read_def split: prod.splits dest: readx_length)
  ultimately show ?thesis
    using assms q svc_read_keep [OF q assms(2)] by (auto simp: read_buffer_def svc_ok_def split: option.splits if_splits)
qed

lemma fail_message_keep [keep]: "fail_message reason v = (r, v') \<Longrightarrow> svc_ok L v \<Longrightarrow> svc_ok L v'"
  by (auto simp: fail_message_def Let_def split: prod.splits if_splits dest!: keep)

lemma fail_errno_keep [keep]: "fail_errno v = (r, v') \<Longrightarrow> svc_ok L v \<Longrightarrow> svc_ok L v'"
  by (auto simp: fail_errno_def dest: keep)

lemma mkdirs_from_keep: "svc_ok L v \<Longrightarrow> svc_ok L (snd (mkdirs_from pre rest v))"
proof (induction pre rest v rule: mkdirs_from.induct)
  case (1 pre rest v)
  show ?case
  proof (cases "strchr (CHR ''/'') rest")
    case (Some ab)
    obtain a b where ab: "ab = (a, b)" by fastforce
    obtain r v1 where m: "svc_sys (sys_mkdir (pre @ a)) v = (r, v1)" by fastforce
    have ok: "svc_ok L v1" by (rule svc_sys_keep [OF m _ "1.prems"]) simp
    show ?thesis
    proof (cases "r = None \<and> sv_errno v1 \<noteq> EEXIST")
      case True
      then show ?thesis using Some ab m ok by (simp add: mkdirs_from.simps [of pre rest])
    next
      case False
      then have "mkdirs_from pre rest v = mkdirs_from (pre @ a @ ''/'') b v1"
        using Some ab m by (auto simp: mkdirs_from.simps [of pre rest] split: option.splits)
      moreover have "svc_ok L (snd (mkdirs_from (pre @ a @ ''/'') b v1))"
        using "1.IH" [OF Some ab [symmetric] m [symmetric]] False ok by (cases r) auto
      ultimately show ?thesis by simp
    qed
  qed (use 1 in \<open>simp add: mkdirs_from.simps [of pre rest]\<close>)
qed

lemma mkdirs_keep: "svc_ok L v \<Longrightarrow> svc_ok L (snd (mkdirs name v))"
  by (simp add: mkdirs_def mkdirs_from_keep)

lemma do_stat_keep [keep]: "do_stat path v = (r, v') \<Longrightarrow> svc_ok L v \<Longrightarrow> svc_ok L v'"
  by (auto simp: do_stat_def Let_def split: prod.splits dest!: keep)

lemma list_entries_keep:
  "list_entries path names v = (r, v') \<Longrightarrow> svc_ok L v \<Longrightarrow> length path \<le> 1024 \<Longrightarrow> \<not> tight path names \<Longrightarrow> svc_ok L v'"
proof (induction path names v rule: list_entries.induct)
  case (2 path name names v)
  have t: "\<not> tight path names" using 2(7) by (simp add: tight_def)
  show ?case
  proof (cases "256 < length name")
    case True
    then show ?thesis using 2(1) [OF True] 2(4-6) t by simp
  next
    case n1: False
    have n: "\<not> 256 < length name" "\<not> 1024 + 256 + 1 < length path + 1 + length name + 1"
      using n1 2(6,7) by (auto simp: tight_def)
    obtain q v1 where s: "svc_sys (sys_lstat (path @ ''/'' @ name)) v = (q, v1)" by fastforce
    have v1: "svc_ok L v1" by (rule svc_sys_keep [OF s _ 2(5)]) simp
    show ?thesis
    proof (cases q)
      case None
      then show ?thesis using 2(2) [OF n s [symmetric] None] n 2(4,6) t s v1 by simp
    next
      case (Some st)
      obtain ok v2 where w: "svc_write (syncmsg [ID_DENT, st_mode st, st_size st, st_mtime st, of_nat (length name)]) v1 = (ok, v2)" by fastforce
      obtain ok2 v3 where w2: "svc_write name v2 = (ok2, v3)" by fastforce
      have "svc_ok L v2" "svc_ok L v3" using svc_write_keep [OF w v1] svc_write_keep [OF w2] by auto
      then show ?thesis
        using 2(3) [OF n s [symmetric] Some w [symmetric] refl _ w2 [symmetric] refl] n Some 2(4,6) t s w w2
        by (auto split: if_splits)
    qed
  qed
qed simp

lemma do_list_keep:
  assumes "do_list path v = (r, v')" "svc_ok L v" "length path \<le> 1024" "no_tight L"
  shows "svc_ok L v'"
proof -
  obtain d v1 where d: "svc_sys (sys_opendir path) v = (d, v1)" by fastforce
  have v1: "svc_ok L v1" by (rule svc_sys_keep [OF d _ assms(2)]) simp
  obtain ok v2 where e: "(case d of None \<Rightarrow> (True, v1) | Some names \<Rightarrow> list_entries path names v1) = (ok, v2)" by fastforce
  have "\<not> tight path names" if "d = Some names" for names
    using d that assms(2,4)
    by (auto simp: svc_sys_def sys_opendir_def sys_def svc_ok_def no_tight_def Let_def split: prod.splits list.splits option.splits sum.splits)
  then have "svc_ok L v2" using e v1 list_entries_keep [of path _ v1 ok v2 L] assms(3) by (auto split: option.splits)
  then show ?thesis
    using assms(1,3) d e by (auto simp: do_list_def Let_def split: prod.splits if_splits dest!: keep)
qed

lemma open_dest_keep [keep]: "open_dest path mode v = (r, v') \<Longrightarrow> svc_ok L v \<Longrightarrow> svc_ok L v'"
  by (auto simp: open_dest_def Let_def split: prod.splits if_splits dest!: svc_sys_keep intro: mkdirs_keep)

lemma send_failed_keep [keep]: "send_failed path v = (r, v') \<Longrightarrow> svc_ok L v \<Longrightarrow> svc_ok L v'"
  by (cases "svc_sys (sys_unlink path) v") (auto simp: send_failed_def dest: svc_sys_keep)

lemma send_finished_keep [keep]: "send_finished path fd t v = (r, v') \<Longrightarrow> svc_ok L v \<Longrightarrow> svc_ok L v'"
  by (cases "svc_sys (sys_utime path t) v")
    (auto simp: send_finished_def Let_def split: option.splits prod.splits dest!: svc_write_keep dest: svc_sys_keep)

lemma send_step_keep:
  assumes "send_step path fd v = (r, v')" "svc_ok L v"
  shows "svc_ok L v'"
proof -
  have f: "svc_ok L v'" if "apfst Inl (send_failed path w) = (r, v')" "svc_ok L w" for w
    using that by (cases "send_failed path w") (auto dest: keep)
  have g: "svc_ok L (snd (fail_message reason w))" if "svc_ok L w" for reason w
    using that by (cases "fail_message reason w") (auto dest: keep)
  obtain q v1 where q: "svc_read 8 v = (q, v1)" by fastforce
  note v1 = svc_read_keep [OF q assms(2)]
  show ?thesis
  proof (cases q)
    case None
    with assms(1) q v1 show ?thesis by (auto simp: send_step_def intro: f)
  next
    case (Some m)
    show ?thesis
    proof (cases "msg_word 0 m = ID_DATA \<and> unat (msg_word 1 m) \<le> SYNC_DATA_MAX")
      case False
      then show ?thesis using assms(1) q Some v1
        by (cases "send_finished path fd (msg_word 1 m) v1")
          (auto simp: send_step_def simp del: append.simps split: if_splits intro: f g dest: keep)
    next
      case True
      obtain bs v2 where b: "read_buffer (unat (msg_word 1 m)) v1 = (bs, v2)" by fastforce
      have v2: "svc_ok L v2" using read_buffer_keep [OF b v1] True by simp
      show ?thesis
      proof (cases "bs = None \<or> fd = None")
        case True
        then show ?thesis using assms q Some \<open>_ \<and> _\<close> b v2
          by (auto simp: send_step_def split: option.splits intro: f)
      next
        case False
        then obtain d h where dh: "bs = Some d" "fd = Some h" by auto
        obtain ok h' v3 where w: "svc_sys (\<lambda>fs. case file_write d h fs of (ok, h, fs) \<Rightarrow> ((ok, h), fs)) v2 = ((ok, h'), v3)"
          by (metis prod.collapse)
        obtain u v4 where u: "svc_sys (sys_unlink path) v3 = (u, v4)" by fastforce
        obtain e v5 where e: "fail_errno v4 = (e, v5)" by fastforce
        have "svc_ok L v3" using svc_sys_keep [OF w keeps_write v2] .
        moreover from this have "svc_ok L v4" using svc_sys_keep [OF u] by simp
        moreover from this have "svc_ok L v5" using fail_errno_keep [OF e] by simp
        ultimately show ?thesis using assms(1) q Some True b dh w u e
          by (auto simp: send_step_def Let_def split: if_splits)
      qed
    qed
  qed
qed

lemma send_loop_keep: "svc_ok L v \<Longrightarrow> svc_ok L (snd (send_loop path fd v))"
proof (induction path fd v rule: send_loop.induct)
  case (1 path fd v)
  obtain r v1 where s: "send_step path fd v = (r, v1)" by fastforce
  then show ?case
    using 1(1) [OF s [symmetric]] send_step_keep [OF s 1(2)] by (cases r) (auto simp: send_loop.simps [of path fd v])
qed

lemma handle_send_file_keep: "svc_ok L v \<Longrightarrow> svc_ok L (snd (handle_send_file path mode v))"
  by (auto simp: handle_send_file_def split: prod.splits option.splits intro!: send_loop_keep dest!: keep)

lemma make_link_keep [keep]: "make_link path v = (r, v') \<Longrightarrow> svc_ok L v \<Longrightarrow> svc_ok L v'"
  by (auto simp: make_link_def Let_def split: prod.splits if_splits dest!: svc_sys_keep intro: mkdirs_keep)

lemma snd_keep: "svc_ok L w \<Longrightarrow> svc_ok L (snd (fail_message reason w))" "svc_ok L w \<Longrightarrow> svc_ok L (snd (fail_errno w))"
  by (cases "fail_message reason w"; cases "fail_errno w"; auto dest: keep)+

lemma link_done_keep: "svc_ok L v \<Longrightarrow> svc_ok L (snd (link_done v))"
  by (auto simp: link_done_def Let_def split: prod.splits option.splits dest!: svc_write_keep svc_read_keep intro: snd_keep)

lemma handle_send_link_keep:
  assumes "svc_ok L v"
  shows "svc_ok L (snd (handle_send_link path v))"
proof -
  obtain q v1 where q: "svc_read 8 v = (q, v1)" by fastforce
  note v1 = svc_read_keep [OF q assms]
  show ?thesis
  proof (cases q)
    case None
    with q v1 show ?thesis by (simp add: handle_send_link_def)
  next
    case (Some m)
    obtain b v2 where b: "read_buffer (unat (msg_word 1 m)) v1 = (b, v2)" by fastforce
    obtain l v3 where l: "make_link path v2 = (l, v3)" by fastforce
    show ?thesis
    proof (cases "msg_word 0 m = ID_DATA \<and> unat (msg_word 1 m) \<le> SYNC_DATA_MAX")
      case True
      then have "svc_ok L v2" using read_buffer_keep [OF b v1] by simp
      moreover from this have "svc_ok L v3" using make_link_keep [OF l] by simp
      ultimately show ?thesis
        using True q Some b l by (cases b; cases l) (auto simp: handle_send_link_def link_done_keep snd_keep)
    next
      case False
      then show ?thesis using q Some v1 by (auto simp: handle_send_link_def snd_keep simp del: append.simps)
    qed
  qed
qed

lemma do_send_keep: "svc_ok L v \<Longrightarrow> svc_ok L (snd (do_send path v))"
proof -
  obtain p mode is_link where m: "send_mode path = (p, mode, is_link)" by (metis prod_cases3)
  assume "svc_ok L v"
  then have "svc_ok L (snd (svc_sys (sys_unlink p) v))" by (cases "svc_sys (sys_unlink p) v") (auto dest: svc_sys_keep)
  then show ?thesis using m by (simp add: do_send_def Let_def handle_send_link_keep handle_send_file_keep)
qed

lemma recv_loop_keep: "svc_ok L v \<Longrightarrow> svc_ok L (snd (recv_loop rest v))"
proof (induction rest v rule: recv_loop.induct)
  case (1 rest v)
  obtain r rest' fs where f: "file_read SYNC_DATA_MAX rest (sv_fs v) = (r, rest', fs)" by (metis prod_cases3)
  have fl: "f_list fs = f_list (sv_fs v)" using f by (auto simp: file_read_def Let_def split: list.splits option.splits)
  show ?case
  proof (cases r)
    case (Inl e)
    have "svc_ok L (v\<lparr>sv_fs := fs\<rparr>)" using "1.prems" fl by (simp add: svc_ok_def)
    then show ?thesis
      using "1.IH"(1) [OF f [symmetric] Inl refl] Inl f by (auto simp: recv_loop.simps [of rest v] snd_keep)
  next
    case (Inr bs)
    let ?v = "v\<lparr>sv_fs := fs, sv_buf := bs @ drop (length bs) (sv_buf v)\<rparr>"
    have v: "svc_ok L ?v" using "1.prems" fl file_read_data [of SYNC_DATA_MAX rest "sv_fs v" bs rest' fs] f Inr by (simp add: svc_ok_def)
    obtain ok v1 where w1: "svc_write (syncmsg [ID_DATA, of_nat (length bs)]) ?v = (ok, v1)" by fastforce
    obtain ok2 v2 where w2: "svc_write bs v1 = (ok2, v2)" by fastforce
    obtain ok3 v3 where w3: "svc_write (syncmsg [ID_DONE, 0]) ?v = (ok3, v3)" by fastforce
    note k = svc_write_keep [OF w1 v] svc_write_keep [OF w2 svc_write_keep [OF w1 v]] svc_write_keep [OF w3 v]
    show ?thesis
      using "1.IH"(2) [OF f [symmetric] Inr refl refl _ w1 [symmetric] _ w2 [symmetric]] Inr f w1 w2 w3 k
      by (cases "bs = []"; cases ok; cases ok2) (auto simp: recv_loop.simps [of rest v] Let_def)
  qed
qed

lemma do_recv_keep: "svc_ok L v \<Longrightarrow> svc_ok L (snd (do_recv path v))"
  by (auto simp: do_recv_def split: prod.splits option.splits dest!: svc_sys_keep fail_errno_keep intro: recv_loop_keep)

lemma cstr_length: "length (cstr bs) \<le> length bs"
  by (simp add: cstr_def length_takeWhile_le)

lemma service_step_keep:
  assumes "svc_ok L v" "no_tight L"
  shows "svc_ok L (snd (service_step v))"
proof -
  obtain q v1 where q: "svc_read 8 v = (q, v1)" by fastforce
  note v1 = svc_read_keep [OF q assms(1)]
  show ?thesis
  proof (cases q)
    case None
    with q v1 show ?thesis by (simp add: service_step_def snd_keep)
  next
    case (Some m)
    obtain b v2 where b: "svc_read (unat (msg_word 1 m)) v1 = (b, v2)" by fastforce
    note v2 = svc_read_keep [OF b v1]
    show ?thesis
    proof (cases "1024 < unat (msg_word 1 m)")
      case True
      with q Some v1 show ?thesis by (simp add: service_step_def snd_keep)
    next
      case small: False
      show ?thesis
      proof (cases b)
        case None
        with q Some b v2 small show ?thesis by (simp add: service_step_def snd_keep)
      next
        fix bytes assume byt: "b = Some bytes"
        have len: "length (cstr bytes) \<le> 1024"
          using b byt small cstr_length [of bytes] by (auto simp: svc_read_def split: prod.splits dest!: readx_length)
        have "svc_ok L (snd (do_stat (cstr bytes) v2))" "svc_ok L (snd (do_list (cstr bytes) v2))"
          using do_stat_keep [OF _ v2] do_list_keep [OF _ v2 len assms(2)] by (metis prod.collapse)+
        then show ?thesis
          using q Some b byt small v2 do_send_keep do_recv_keep
          by (simp add: service_step_def Let_def snd_keep case_prod_unfold)
      qed
    qed
  qed
qed

lemma service_loop_keep: "svc_ok L v \<Longrightarrow> no_tight L \<Longrightarrow> svc_ok L (service_loop v)"
proof (induction v rule: service_loop.induct)
  case (1 v)
  obtain g v1 where s: "service_step v = (g, v1)" by fastforce
  have "svc_ok L v1" using service_step_keep [OF 1(2,3)] s by simp
  then show ?case using 1(1) [OF s [symmetric]] 1(3) s by (cases g) (auto simp: service_loop.simps [of v])
qed


subsection \<open>A file that is sent is stored\<close>

text \<open>A connection and a file system on which nothing fails by itself.\<close>

definition calm_svc :: "'a svc_scheme \<Rightarrow> bool" where
  "calm_svc v \<longleftrightarrow> calm (sv_fs v) \<and> list_all write_ok (fd_wr (sv_s v)) \<and> length (sv_buf v) = SYNC_DATA_MAX"

definition data_msgs :: "byte list list \<Rightarrow> byte list" where
  "data_msgs cs = concat (map (\<lambda>c. syncmsg [ID_DATA, of_nat (length c)] @ c) cs)"

lemma unat_of_nat32: "n < 4294967296 \<Longrightarrow> unat (of_nat n :: u32) = n"
  by (simp add: unat_of_nat take_bit_eq_mod)

lemma svc_read_calm:
  assumes "pending_in (sv_s v) = bs @ rest" "length bs = n"
  obtains s where "svc_read n v = (Some bs, v\<lparr>sv_s := s\<rparr>)" "pending_in s = rest" "fd_out s = fd_out (sv_s v)" "fd_wr s = fd_wr (sv_s v)"
proof -
  have "n \<le> length (pending_in (sv_s v))" using assms by simp
  from readx_stream [OF this] assms that show ?thesis by (auto simp: svc_read_def)
qed

lemma svc_write_calm:
  assumes "list_all write_ok (fd_wr (sv_s v))"
  obtains s where "svc_write bs v = (True, v\<lparr>sv_s := s\<rparr>)" "pending_in s = pending_in (sv_s v)" "fd_out s = fd_out (sv_s v) @ bs"
    "list_all write_ok (fd_wr s)"
proof -
  obtain ok s where w: "writex bs (sv_s v) = (ok, s)" by fastforce
  have ok: "ok" "list_all write_ok (fd_wr s)" using writex_succeeds [OF assms, of bs] w by simp_all
  with w have "writex bs (sv_s v) = (True, s)" by simp
  from writex_True [OF this] show ?thesis using w ok that by (simp add: svc_write_def pending_in_def)
qed

lemma send_step_data:
  assumes "calm_svc v" "pending_in (sv_s v) = (syncmsg [ID_DATA, of_nat (length c)] @ c) @ rest" "length c \<le> SYNC_DATA_MAX"
    and "f_nodes (sv_fs v) (of_path h) = Some (Reg d m t)"
  obtains v' where "send_step path (Some h) v = (Inr (Some (h\<lparr>of_out := of_out h @ c\<rparr>)), v')" "calm_svc v'" "pending_in (sv_s v') = rest"
    "fd_out (sv_s v') = fd_out (sv_s v)"
    "f_nodes (sv_fs v') = (f_nodes (sv_fs v))(of_path h \<mapsto> Reg ((of_out h @ c) @ drop (length (of_out h @ c)) (of_base h)) m t)"
proof -
  let ?m = "syncmsg [ID_DATA, of_nat (length c)]"
  have w: "unat (of_nat (length c) :: u32) = length c" using assms(3) by (intro unat_of_nat32) simp
  obtain s1 where s1: "svc_read 8 v = (Some ?m, v\<lparr>sv_s := s1\<rparr>)" "pending_in s1 = c @ rest" "fd_out s1 = fd_out (sv_s v)" "fd_wr s1 = fd_wr (sv_s v)"
    using svc_read_calm [of v ?m "c @ rest" 8] assms(2) by auto
  obtain s2 where s2: "svc_read (length c) (v\<lparr>sv_s := s1\<rparr>) = (Some c, v\<lparr>sv_s := s2\<rparr>)" "pending_in s2 = rest" "fd_out s2 = fd_out (sv_s v)" "fd_wr s2 = fd_wr (sv_s v)"
    using svc_read_calm [of "v\<lparr>sv_s := s1\<rparr>" c rest "length c"] s1 by auto
  let ?v = "v\<lparr>sv_s := s2, sv_buf := c @ drop (length c) (sv_buf v)\<rparr>"
  have buf: "length (sv_buf v) = SYNC_DATA_MAX" "calm (sv_fs v)" using assms(1) by (simp_all add: calm_svc_def)
  then have rb: "read_buffer (length c) (v\<lparr>sv_s := s1\<rparr>) = (Some c, ?v)" using s2(1) assms(3) by (simp add: read_buffer_def)
  obtain fs' where fs': "file_write c h (sv_fs v) = (True, h\<lparr>of_out := of_out h @ c\<rparr>, fs')" "calm fs'"
    "f_nodes fs' = (f_nodes (sv_fs v))(of_path h \<mapsto> Reg ((of_out h @ c) @ drop (length (of_out h @ c)) (of_base h)) m t)"
    using file_write_calm [OF buf(2) assms(4), of c] by metis
  have "send_step path (Some h) v = (Inr (Some (h\<lparr>of_out := of_out h @ c\<rparr>)), ?v\<lparr>sv_fs := fs'\<rparr>)"
    using s1(1) rb fs'(1) w assms(3) by (simp add: send_step_def svc_sys_def)
  then show ?thesis
    by (rule that) (use s2 fs' assms(1,3) buf in \<open>simp_all add: calm_svc_def\<close>)
qed

lemma send_loop_stores:
  assumes "calm_svc v" "pending_in (sv_s v) = data_msgs cs @ syncmsg [ID_DONE, tm] @ rest" "\<forall>c \<in> set cs. length c \<le> SYNC_DATA_MAX"
    and "of_path h = path" "of_base h = []" "f_nodes (sv_fs v) path = Some (Reg (of_out h) m t)"
  shows "\<exists>v'. send_loop path (Some h) v = (0, v') \<and> calm_svc v' \<and> pending_in (sv_s v') = rest
    \<and> fd_out (sv_s v') = fd_out (sv_s v) @ syncmsg [ID_OKAY, 0]
    \<and> f_nodes (sv_fs v') = (f_nodes (sv_fs v))(path \<mapsto> Reg (of_out h @ concat cs) m tm)"
  using assms
proof (induction cs arbitrary: v h)
  case Nil
  let ?m = "syncmsg [ID_DONE, tm]"
  obtain s1 where s1: "svc_read 8 v = (Some ?m, v\<lparr>sv_s := s1\<rparr>)" "pending_in s1 = rest" "fd_out s1 = fd_out (sv_s v)" "fd_wr s1 = fd_wr (sv_s v)"
    using svc_read_calm [of v ?m rest 8] Nil(2) by (auto simp: data_msgs_def)
  let ?fs = "put_node path (Reg (of_out h) m tm) (sv_fs v)"
  have u: "svc_sys (sys_utime path tm) (v\<lparr>sv_s := s1\<rparr>) = (Some (), v\<lparr>sv_s := s1, sv_fs := ?fs\<rparr>)"
    using Nil(1,6) by (simp add: svc_sys_def sys_utime_def sys_calm calm_svc_def calm_def resolve_self40)
  have "list_all write_ok (fd_wr (sv_s (v\<lparr>sv_s := s1, sv_fs := ?fs\<rparr>)))" using s1(4) Nil(1) by (simp add: calm_svc_def)
  then obtain s2 where w2: "svc_write (syncmsg [ID_OKAY, 0]) (v\<lparr>sv_s := s1, sv_fs := ?fs\<rparr>) = (True, (v\<lparr>sv_s := s1, sv_fs := ?fs\<rparr>)\<lparr>sv_s := s2\<rparr>)"
    and o2: "pending_in s2 = pending_in (sv_s (v\<lparr>sv_s := s1, sv_fs := ?fs\<rparr>))" "fd_out s2 = fd_out (sv_s (v\<lparr>sv_s := s1, sv_fs := ?fs\<rparr>)) @ syncmsg [ID_OKAY, 0]"
    "list_all write_ok (fd_wr s2)" by (rule svc_write_calm)
  have s2: "svc_write (syncmsg [ID_OKAY, 0]) (v\<lparr>sv_s := s1, sv_fs := ?fs\<rparr>) = (True, v\<lparr>sv_s := s2, sv_fs := ?fs\<rparr>)"
    "pending_in s2 = rest" "fd_out s2 = fd_out (sv_s v) @ syncmsg [ID_OKAY, 0]" "list_all write_ok (fd_wr s2)"
    using w2 o2 s1(2,3) by simp_all
  have "send_loop path (Some h) v = (0, v\<lparr>sv_s := s2, sv_fs := ?fs\<rparr>)"
    using s1(1) u s2(1) by (simp add: send_loop.simps [of path] send_step_def send_finished_def Let_def)
  then show ?case using s2 Nil(1) by (auto simp: calm_svc_def)
next
  case (Cons c cs)
  have "pending_in (sv_s v) = (syncmsg [ID_DATA, of_nat (length c)] @ c) @ (data_msgs cs @ syncmsg [ID_DONE, tm] @ rest)"
    using Cons.prems(2) by (simp add: data_msgs_def)
  from send_step_data [OF Cons.prems(1) this, of h _ m t path] Cons.prems
  obtain v1 where v1: "send_step path (Some h) v = (Inr (Some (h\<lparr>of_out := of_out h @ c\<rparr>)), v1)" "calm_svc v1"
    "pending_in (sv_s v1) = data_msgs cs @ syncmsg [ID_DONE, tm] @ rest" "fd_out (sv_s v1) = fd_out (sv_s v)"
    "f_nodes (sv_fs v1) = (f_nodes (sv_fs v))(path \<mapsto> Reg (of_out h @ c) m t)"
    by auto
  have "\<exists>v'. send_loop path (Some (h\<lparr>of_out := of_out h @ c\<rparr>)) v1 = (0, v') \<and> calm_svc v' \<and> pending_in (sv_s v') = rest
      \<and> fd_out (sv_s v') = fd_out (sv_s v1) @ syncmsg [ID_OKAY, 0]
      \<and> f_nodes (sv_fs v') = (f_nodes (sv_fs v1))(path \<mapsto> Reg (of_out (h\<lparr>of_out := of_out h @ c\<rparr>) @ concat cs) m tm)"
    by (rule Cons.IH) (use v1 Cons.prems in auto)
  then show ?case using v1 by (auto simp: send_loop.simps [of path "Some h" v])
qed

text \<open>The permissions a file gets: those of the owner are copied to the group and the others.\<close>

definition sent_perm :: "u32 \<Rightarrow> u32" where
  "sent_perm mode = (let m = mode AND 0x1FF; m = m OR (drop_bit 3 m AND 0x38) in m OR (drop_bit 3 m AND 0x7))"

lemma mask_bits:
  "bit (0x1FF :: u32) i \<longleftrightarrow> i < 9" "bit (0x38 :: u32) i \<longleftrightarrow> 3 \<le> i \<and> i < 6" "bit (0x7 :: u32) i \<longleftrightarrow> i < 3"
  "bit (0xF000 :: u32) i \<longleftrightarrow> 12 \<le> i \<and> i < 16" "bit (0x8000 :: u32) i \<longleftrightarrow> i = 15"
proof -
  have m: "(0x1FF :: u32) = mask 9" "(0x38 :: u32) = push_bit 3 (mask 3)" "(0x7 :: u32) = mask 3"
    "(0xF000 :: u32) = push_bit 12 (mask 4)" "(0x8000 :: u32) = 2 ^ 15"
    by (simp_all add: mask_eq_exp_minus_1)
  show "bit (0x1FF :: u32) i \<longleftrightarrow> i < 9" "bit (0x38 :: u32) i \<longleftrightarrow> 3 \<le> i \<and> i < 6" "bit (0x7 :: u32) i \<longleftrightarrow> i < 3"
  "bit (0xF000 :: u32) i \<longleftrightarrow> 12 \<le> i \<and> i < 16"
    unfolding m(1-4) by (auto simp: bit_mask_iff bit_push_bit_iff simp del: bit_numeral_word_iff)
  show "bit (0x8000 :: u32) i \<longleftrightarrow> i = 15"
    unfolding m(5) bit_exp_iff by auto
qed

lemma sent_perm_bits:
  "bit (sent_perm mode) i \<longleftrightarrow> i < 9 \<and> (bit mode i \<or> i < 6 \<and> bit mode (i + 3) \<or> i < 3 \<and> bit mode (i + 6))"
proof -
  define m n where "m = mode AND 0x1FF" and "n = m OR (drop_bit 3 m AND 0x38)"
  have m: "bit m i \<longleftrightarrow> i < 9 \<and> bit mode i" for i by (auto simp: m_def bit_and_iff mask_bits simp del: bit_numeral_word_iff)
  have n: "bit n i \<longleftrightarrow> i < 9 \<and> bit mode i \<or> 3 \<le> i \<and> i < 6 \<and> bit mode (i + 3)" for i
    by (auto simp: n_def bit_or_iff bit_and_iff bit_drop_bit_eq mask_bits m add.commute simp del: bit_numeral_word_iff)
  have "sent_perm mode = n OR (drop_bit 3 n AND 0x7)" by (simp only: sent_perm_def m_def n_def Let_def)
  then have "bit (sent_perm mode) i \<longleftrightarrow> bit n i \<or> i < 3 \<and> bit n (3 + i)"
    by (simp add: bit_or_iff bit_and_iff bit_drop_bit_eq mask_bits conj_commute del: bit_numeral_word_iff)
  then show ?thesis unfolding n by (auto simp: ac_simps)
qed

lemma sent_perm_reg: "sent_perm (0x8000 OR m) = sent_perm m"
proof -
  have "(0x8000 OR m) AND 0x1FF = m AND (0x1FF :: u32)"
    by (rule bit_word_eqI) (auto simp: bit_and_iff bit_or_iff mask_bits simp del: bit_numeral_word_iff)
  then show ?thesis by (simp add: sent_perm_def Let_def)
qed

lemma send_mode_sent:
  assumes "0 \<le> sint mode"
  shows "send_mode (path @ '','' @ fmt_d (sint mode)) = (path, mode AND 0x1FF, S_ISLNK mode)"
proof -
  let ?n = "unat mode"
  have sm: "sint mode = int ?n" by (rule sint_nonneg [OF assms])
  have lt: "?n < 2 ^ 32" using unsigned_less [of mode] by simp
  have "CHR '','' \<notin> set (fmt_d (int ?n))"
    using show_nat_digits [of 10 "CHR '',''" ?n] by (auto simp: fmt_d_def is_digit_in_def digit_val_def)
  then have "strrchr (CHR '','') (path @ '','' @ fmt_d (sint mode)) = Some (path, fmt_d (int ?n))"
    unfolding sm strrchr_Some by simp
  moreover have "\<not> strtoul_range 0 (fmt_d (int ?n))"
    using uint_lt2p [of mode] by (simp add: strtoul_range_def fmt_d_def number_split_dec digits_value_dec split del: if_split)
  moreover have "strtoul 0 (fmt_d (int ?n)) = of_nat ?n" using lt by (intro strtoul_dec) simp
  moreover have "ucast (of_nat ?n :: u64) = mode"
    by (rule bit_word_eqI) (simp add: bit_simps)
  ultimately show ?thesis by (simp add: send_mode_def)
qed

lemma do_send_stores:
  assumes "calm_svc v" "pending_in (sv_s v) = data_msgs cs @ syncmsg [ID_DONE, tm] @ rest" "\<forall>c \<in> set cs. length c \<le> SYNC_DATA_MAX"
    and "0 \<le> sint mode" "\<not> S_ISLNK mode" "is_dir (dir_of path) (sv_fs v)" "dir_of path \<noteq> path" "\<And>t. f_nodes (sv_fs v) path \<noteq> Some (Dir t)"
  shows "\<exists>v'. do_send (path @ '','' @ fmt_d (sint mode)) v = (0, v') \<and> calm_svc v' \<and> pending_in (sv_s v') = rest
    \<and> fd_out (sv_s v') = fd_out (sv_s v) @ syncmsg [ID_OKAY, 0]
    \<and> f_nodes (sv_fs v') = (f_nodes (sv_fs v))(path \<mapsto> Reg (concat cs) (sent_perm mode AND NOT (f_umask (sv_fs v))) tm)"
proof -
  let ?u = "snd (svc_sys (sys_unlink path) v)"
  have calm: "f_fail (sv_fs v) = []" "f_rd (sv_fs v) = []" "list_all write_ok (f_wr (sv_fs v))" using assms(1) by (simp_all add: calm_svc_def calm_def)
  have u: "sv_s ?u = sv_s v" "sv_buf ?u = sv_buf v" "f_nodes (sv_fs ?u) = (f_nodes (sv_fs v))(path := None)" "calm (sv_fs ?u)"
    "f_umask (sv_fs ?u) = f_umask (sv_fs v)"
    using calm assms(8) by (auto simp: svc_sys_def sys_unlink_def sys_calm calm_def split: option.splits node.splits prod.splits)
  let ?h = "\<lparr>of_path = path, of_base = [], of_out = []\<rparr>"
  let ?v = "?u\<lparr>sv_fs := put_node path (Reg [] (sent_perm mode AND NOT (f_umask (sv_fs v))) 0) (sv_fs ?u)\<rparr>"
  have "is_dir (dir_of path) (sv_fs ?u)" using assms(6,7) u(3) by (auto simp: is_dir_def)
  then have "svc_sys (sys_create_excl path (sent_perm mode)) ?u = (Some ?h, ?v)"
    using u by (simp add: svc_sys_def sys_create_excl_def sys_calm calm_def make_node_def)
  then have "open_dest path (sent_perm mode) ?u = (Some ?h, ?v)" by (simp add: open_dest_def)
  moreover have "calm_svc ?v" using assms(1) u by (simp add: calm_svc_def)
  then have "\<exists>v'. send_loop path (Some ?h) ?v = (0, v') \<and> calm_svc v' \<and> pending_in (sv_s v') = rest
    \<and> fd_out (sv_s v') = fd_out (sv_s ?v) @ syncmsg [ID_OKAY, 0]
    \<and> f_nodes (sv_fs v') = (f_nodes (sv_fs ?v))(path \<mapsto> Reg (of_out ?h @ concat cs) (sent_perm mode AND NOT (f_umask (sv_fs v))) tm)"
    by (rule send_loop_stores) (use assms(2,3) u in simp_all)
  moreover have "do_send (path @ '','' @ fmt_d (sint mode)) v = handle_send_file path (sent_perm mode) ?u"
    unfolding do_send_def send_mode_sent [OF assms(4)] using assms(5) by (simp add: sent_perm_def Let_def)
  ultimately show ?thesis using u by (auto simp: handle_send_file_def)
qed

text \<open>The whole request.\<close>

lemma send_request_stores:
  assumes "calm_svc v" "name = path @ '','' @ fmt_d (sint mode)" "length name \<le> 1024" "CHR 0x00 \<notin> set path"
    and "pending_in (sv_s v) = syncmsg [ID_SEND, of_nat (length name)] @ name @ data_msgs cs @ syncmsg [ID_DONE, tm] @ rest"
    and "\<forall>c \<in> set cs. length c \<le> SYNC_DATA_MAX"
    and "0 \<le> sint mode" "\<not> S_ISLNK mode" "is_dir (dir_of path) (sv_fs v)" "dir_of path \<noteq> path" "\<And>t. f_nodes (sv_fs v) path \<noteq> Some (Dir t)"
  shows "\<exists>v'. service_step v = (True, v') \<and> calm_svc v' \<and> pending_in (sv_s v') = rest
    \<and> fd_out (sv_s v') = fd_out (sv_s v) @ syncmsg [ID_OKAY, 0]
    \<and> f_nodes (sv_fs v') = (f_nodes (sv_fs v))(path \<mapsto> Reg (concat cs) (sent_perm mode AND NOT (f_umask (sv_fs v))) tm)"
proof -
  let ?m = "syncmsg [ID_SEND, of_nat (length name)]"
  obtain s1 where s1: "svc_read 8 v = (Some ?m, v\<lparr>sv_s := s1\<rparr>)" "pending_in s1 = name @ data_msgs cs @ syncmsg [ID_DONE, tm] @ rest"
    "fd_out s1 = fd_out (sv_s v)" "fd_wr s1 = fd_wr (sv_s v)"
    using svc_read_calm [of v ?m _ 8] assms(5) by auto
  obtain s2 where s2: "svc_read (length name) (v\<lparr>sv_s := s1\<rparr>) = (Some name, v\<lparr>sv_s := s2\<rparr>)" "pending_in s2 = data_msgs cs @ syncmsg [ID_DONE, tm] @ rest"
    "fd_out s2 = fd_out (sv_s v)" "fd_wr s2 = fd_wr (sv_s v)"
    using svc_read_calm [of "v\<lparr>sv_s := s1\<rparr>" name _ "length name"] s1 by auto
  have len: "unat (of_nat (length name) :: u32) = length name" using assms(3) by (intro unat_of_nat32) simp
  have "c \<noteq> CHR 0x00" if "c \<in> set (fmt_d (sint mode))" for c
    using that show_nat_digits [of 10 c] is_digit_in_16D [OF is_digit_in_10_16] assms(7) by (auto simp: fmt_d_def)
  then have nm: "cstr name = name" using assms(2,4) by (auto simp: cstr_def takeWhile_eq_all_conv)
  have "calm_svc (v\<lparr>sv_s := s2\<rparr>)" using assms(1) s2 by (simp add: calm_svc_def)
  from do_send_stores [OF this _ assms(6,7,8), of tm rest path] s2 assms(9-11)
  obtain v' where "do_send name (v\<lparr>sv_s := s2\<rparr>) = (0, v')" "calm_svc v'" "pending_in (sv_s v') = rest"
    "fd_out (sv_s v') = fd_out (sv_s v) @ syncmsg [ID_OKAY, 0]"
    "f_nodes (sv_fs v') = (f_nodes (sv_fs v))(path \<mapsto> Reg (concat cs) (sent_perm mode AND NOT (f_umask (sv_fs v))) tm)"
    by (auto simp: assms(2))
  with s1(1) s2(1) len nm assms(3) show ?thesis by (simp add: service_step_def)
qed

text \<open>A listing that the buffer cannot take is written past its end.\<close>

lemma list_entries_overrun:
  assumes "tight path names" "calm_svc v"
  shows "sv_overrun (snd (list_entries path names v))"
  using assms
proof (induction path names v rule: list_entries.induct)
  case (1 path v)
  then show ?case by (simp add: tight_def)
next
  case (2 path name names v)
  consider (long) "256 < length name" | (over) "length name = 256" | (short) "length name < 256" by linarith
  then show ?case
  proof cases
    case long
    then have "tight path names" using 2(4) by (auto simp: tight_def)
    with 2(1) [OF long] 2(5) long show ?thesis by simp
  next
    case over
    with 2(4) show ?thesis by (simp add: tight_def)
  next
    case short
    have n: "\<not> 256 < length name" "\<not> 1024 + 256 + 1 < length path + 1 + length name + 1" "tight path names"
      using short 2(4) by (auto simp: tight_def)
    obtain q v1 where s: "svc_sys (sys_lstat (path @ ''/'' @ name)) v = (q, v1)" by fastforce
    have v1: "calm_svc v1"
      using s 2(5)
      by (auto simp: svc_sys_def sys_lstat_def sys_calm calm_svc_def calm_def split: option.splits prod.splits)
    show ?thesis
    proof (cases q)
      case None
      then show ?thesis using 2(2) [OF n(1,2) s [symmetric] None n(3) v1] n s by simp
    next
      case (Some st)
      let ?m = "syncmsg [ID_DENT, st_mode st, st_size st, st_mtime st, of_nat (length name)]"
      have "list_all write_ok (fd_wr (sv_s v1))" using v1 by (simp add: calm_svc_def)
      then obtain s1 where w1: "svc_write ?m v1 = (True, v1\<lparr>sv_s := s1\<rparr>)" "list_all write_ok (fd_wr s1)"
        by (rule svc_write_calm [of v1 ?m])
      have "list_all write_ok (fd_wr (sv_s (v1\<lparr>sv_s := s1\<rparr>)))" using w1(2) by simp
      then obtain s2 where w2: "svc_write name (v1\<lparr>sv_s := s1\<rparr>) = (True, v1\<lparr>sv_s := s2\<rparr>)" "list_all write_ok (fd_wr s2)"
        by (rule svc_write_calm [of "v1\<lparr>sv_s := s1\<rparr>" name]) simp
      have "calm_svc (v1\<lparr>sv_s := s2\<rparr>)" using v1 w2(2) by (simp add: calm_svc_def)
      then show ?thesis
        using 2(3) [OF n(1,2) s [symmetric] Some w1(1) [symmetric] refl _ w2(1) [symmetric] refl] n s Some w1(1) w2(1)
        by simp
    qed
  qed
qed

text \<open>
  C39: The buffers of the file transfer service. Whatever a client sends, and whatever names the
  directories hold, no request makes the service write past the 64 KB data buffer, the name buffer or
  the path buffer of a listing, with one exception. The path buffer is one byte short of what the code
  admits: when a directory whose path has 1024 bytes holds a name of 256 bytes, the name is copied past
  the end of the buffer; listing such a directory does it.
\<close>

theorem sync_service_buffers:
  assumes "length b = SYNC_DATA_MAX"
  shows "(sv_overrun (file_sync_service (Some b) s fs) \<longrightarrow>
       (\<exists>path names n. f_list fs path = Some names \<and> length path = 1024 \<and> n \<in> set names \<and> length n = 256))
    \<and> (\<forall>path names n v. f_list (sv_fs v) path = Some names \<longrightarrow> length path = 1024 \<longrightarrow> n \<in> set names \<longrightarrow> length n = 256 \<longrightarrow>
         calm_svc v \<longrightarrow> sv_overrun (snd (do_list path v)))"
proof (intro conjI allI impI)
  assume o: "sv_overrun (file_sync_service (Some b) s fs)"
  have "svc_ok (f_list fs) \<lparr>sv_s = s, sv_fs = fs, sv_buf = b, sv_overrun = False\<rparr>" using assms by (simp add: svc_ok_def)
  from service_loop_keep [OF this] o have "\<not> no_tight (f_list fs)" by (auto simp: file_sync_service_def svc_ok_def)
  then show "\<exists>path names n. f_list fs path = Some names \<and> length path = 1024 \<and> n \<in> set names \<and> length n = 256"
    by (auto simp: no_tight_def tight_def)
next
  fix path names n and v :: svc
  assume l: "f_list (sv_fs v) path = Some names" "length path = 1024" "n \<in> set names" "length n = 256" and c: "calm_svc v"
  have "svc_sys (sys_opendir path) v = (Some names, v)"
    using l(1) c by (simp add: svc_sys_def sys_opendir_def sys_calm calm_svc_def calm_def)
  moreover have "sv_overrun (snd (list_entries path names v))"
    using l c by (intro list_entries_overrun) (auto simp: tight_def)
  ultimately show "sv_overrun (snd (do_list path v))"
    using l(2) by (auto simp: do_list_def Let_def svc_write_def split: prod.splits)
qed

theorem sync_service_buffers_witness:
  "\<not> sv_overrun (file_sync_service (Some (replicate SYNC_DATA_MAX CHR 0x00)) \<lparr>fd_in = [Inr ''LIST''], fd_wr = [], fd_out = []\<rparr>
     \<lparr>f_nodes = Map.empty, f_list = (\<lambda>_. Some [''.'', ''..'', replicate 300 (CHR ''a'')]), f_fail = [], f_rd = [], f_wr = [],
      f_errno = EIO, f_umask = 0\<rparr>)"
proof
  let ?fs = "\<lparr>f_nodes = Map.empty, f_list = (\<lambda>_. Some [''.'', ''..'', replicate 300 (CHR ''a'')]), f_fail = [], f_rd = [], f_wr = [],
      f_errno = EIO, f_umask = 0\<rparr> :: fsys"
  assume "sv_overrun (file_sync_service (Some (replicate SYNC_DATA_MAX CHR 0x00)) \<lparr>fd_in = [Inr ''LIST''], fd_wr = [], fd_out = []\<rparr> ?fs)"
  then obtain path names n where "f_list ?fs path = Some names" "n \<in> set names" "length n = 256"
    using sync_service_buffers [of "replicate SYNC_DATA_MAX CHR 0x00"] by (metis length_replicate)
  then show False by auto
qed

end
