(* ===== verification/SyncClient.thy ===== *)
theory SyncClient
  imports SyncService
begin

text \<open>
  The file transfer client (src/tools/adb/file_sync_client.c) on one connection: the requests to stat, list,
  send and receive. The host has a connection, a file system and the global send buffer, as the service has,
  and beside them the byte count, the messages it printed and whether it closed the connection. A length
  that the code takes for a negative number passes its checks; the copy that follows is an overrun.
  The composition with the service gives the round trips of push and pull.
\<close>

subsection \<open>The host\<close>

record host = svc +
  h_closed :: bool
  h_total :: u32
  h_err :: "string list"

text \<open>A name in quotes, as the messages have it.\<close>

definition quoted :: "string \<Rightarrow> string" where
  "quoted s = CHR 0x27 # s @ [CHR 0x27]"

definition say :: "string \<Rightarrow> host \<Rightarrow> host" where
  "say line h = h\<lparr>h_err := h_err h @ [line]\<rparr>"

definition close_fd :: "host \<Rightarrow> host" where
  "close_fd h = h\<lparr>h_closed := True\<rparr>"

definition count_bytes :: "nat \<Rightarrow> host \<Rightarrow> host" where
  "count_bytes n h = h\<lparr>h_total := h_total h + of_nat n\<rparr>"

text \<open>The label \<open>fail\<close> of \<open>sync_send\<close>.\<close>

definition protocol_failure :: "host \<Rightarrow> int \<times> host" where
  "protocol_failure h = (- 1, close_fd (say ''protocol failure'' h))"

definition sync_quit :: "host \<Rightarrow> host" where
  "sync_quit h = snd (svc_write (syncmsg [ID_QUIT, 0]) h)"

text \<open>A request: the message and the name.\<close>

definition send_req :: "u32 \<Rightarrow> string \<Rightarrow> host \<Rightarrow> bool \<times> host" where
  "send_req cmd path h =
     (case svc_write (syncmsg [cmd, of_nat (length path)]) h of
        (False, h) \<Rightarrow> (False, h)
      | (True, h) \<Rightarrow> svc_write path h)"

text \<open>\<open>readx\<close> of \<open>len\<close> bytes, an \<open>int\<close>, into a buffer of \<open>cap\<close> bytes.\<close>

definition read_int :: "nat \<Rightarrow> int \<Rightarrow> host \<Rightarrow> byte list option \<times> host" where
  "read_int cap len h =
     (if len < 0 \<or> int cap < len then (None, h\<lparr>sv_overrun := True\<rparr>) else svc_read (nat len) h)"

subsection \<open>Listing and stat\<close>

text \<open>The entries that the callback is called with, in this order.\<close>

type_synonym dent = "u32 \<times> u32 \<times> u32 \<times> string"

definition ls_step :: "host \<Rightarrow> (int + dent) \<times> host" where
  "ls_step h =
     (case svc_read 20 h of
        (None, h) \<Rightarrow> (Inl (- 1), close_fd h)
      | (Some m, h) \<Rightarrow>
          if msg_word 0 m = ID_DONE then (Inl 0, h)
          else if msg_word 0 m \<noteq> ID_DENT then (Inl (- 1), close_fd h)
          else
            let len = sint (msg_word 4 m)
            in if 256 < len then (Inl (- 1), close_fd h)
               else (case read_int 256 len h of
                       (None, h) \<Rightarrow> (Inl (- 1), close_fd h)
                     | (Some buf, h) \<Rightarrow> (Inr (msg_word 1 m, msg_word 2 m, msg_word 3 m, cstr buf), h)))"

lemma ls_step_left:
  assumes "ls_step h = (Inr e, h')"
  shows "sv_left h' < sv_left h"
proof -
  obtain m h1 where m: "svc_read 20 h = (Some m, h1)" using assms by (auto simp: ls_step_def split: prod.splits option.splits)
  then have "sv_left h1 < sv_left h" using svc_read_left [OF m] by simp
  moreover have "sv_left h' \<le> sv_left h1"
    using assms m by (auto simp: ls_step_def read_int_def Let_def split: prod.splits option.splits if_splits dest!: read_left)
  ultimately show ?thesis by simp
qed

function ls_loop :: "host \<Rightarrow> int \<times> dent list \<times> host" where
  "ls_loop h =
     (case ls_step h of
        (Inl r, h) \<Rightarrow> (r, [], h)
      | (Inr e, h) \<Rightarrow> (case ls_loop h of (r, es, h) \<Rightarrow> (r, e # es, h)))"
  by pat_completeness auto
termination
  by (relation "measure sv_left") (auto dest: ls_step_left [OF sym])

declare ls_loop.simps [simp del]

definition sync_ls :: "string \<Rightarrow> host \<Rightarrow> int \<times> dent list \<times> host" where
  "sync_ls path h =
     (if 1024 < length path then (- 1, [], close_fd h)
      else case send_req ID_LIST path h of
        (False, h) \<Rightarrow> (- 1, [], close_fd h)
      | (True, h) \<Rightarrow> ls_loop h)"

definition finish_stat :: "host \<Rightarrow> byte list option \<times> host" where
  "finish_stat h =
     (case svc_read 16 h of
        (None, h) \<Rightarrow> (None, h)
      | (Some m, h) \<Rightarrow> if msg_word 0 m \<noteq> ID_STAT then (None, h) else (Some m, h))"

definition sync_readtime :: "string \<Rightarrow> host \<Rightarrow> u32 option \<times> host" where
  "sync_readtime path h =
     (case send_req ID_STAT path h of
        (False, h) \<Rightarrow> (None, h)
      | (True, h) \<Rightarrow> apfst (map_option (msg_word 3)) (finish_stat h))"

definition sync_start_readtime :: "string \<Rightarrow> host \<Rightarrow> int \<times> host" where
  "sync_start_readtime path h = (case send_req ID_STAT path h of (ok, h) \<Rightarrow> (if ok then 0 else - 1, h))"

definition sync_finish_readtime :: "host \<Rightarrow> (u32 \<times> u32 \<times> u32) option \<times> host" where
  "sync_finish_readtime h = apfst (map_option (\<lambda>m. (msg_word 3 m, msg_word 1 m, msg_word 2 m))) (finish_stat h)"

definition sync_readmode :: "string \<Rightarrow> host \<Rightarrow> u32 option \<times> host" where
  "sync_readmode path h =
     (case send_req ID_STAT path h of
        (False, h) \<Rightarrow> (None, h)
      | (True, h) \<Rightarrow> apfst (map_option (msg_word 1)) (finish_stat h))"

subsection \<open>Sending\<close>

text \<open>One data message, from the send buffer.\<close>

definition send_data :: "byte list \<Rightarrow> host \<Rightarrow> bool \<times> host" where
  "send_data bs h =
     (case svc_write (syncmsg [ID_DATA, of_nat (length bs)] @ bs) h of
        (False, h) \<Rightarrow> (False, h)
      | (True, h) \<Rightarrow> (True, count_bytes (length bs) h))"

lemma send_data_fs: "send_data bs h = (r, h') \<Longrightarrow> sv_fs h' = sv_fs h"
  by (auto simp: send_data_def count_bytes_def split: prod.splits bool.splits dest!: svc_write_fs)

function write_file_loop :: "string \<Rightarrow> byte list \<Rightarrow> host \<Rightarrow> int \<times> host" where
  "write_file_loop path rest h =
     (case file_read SYNC_DATA_MAX rest (sv_fs h) of
        (Inl e, rest', fs) \<Rightarrow>
          if e = EINTR then write_file_loop path rest' (h\<lparr>sv_fs := fs\<rparr>)
          else (0, say (''cannot read '' @ quoted path @ '': '' @ strerror e) (h\<lparr>sv_fs := fs\<rparr>))
      | (Inr bs, rest', fs) \<Rightarrow>
          if bs = [] then (0, h\<lparr>sv_fs := fs\<rparr>)
          else (case send_data bs (h\<lparr>sv_fs := fs\<rparr>) of
                  (False, h) \<Rightarrow> (- 1, h)
                | (True, h) \<Rightarrow> write_file_loop path rest' h))"
  by pat_completeness auto
termination
proof (relation "measure (\<lambda>(_, rest, h). length rest + length (f_rd (sv_fs h)))", goal_cases)
  case (2 path rest h a b e rest' fs)
  then show ?case using file_read_error [of SYNC_DATA_MAX rest "sv_fs h" e rest' fs] by auto
next
  case (3 path rest h r a bs rest' fs ok h')
  then show ?case using file_read_data [of SYNC_DATA_MAX rest "sv_fs h" bs rest' fs]
    by (cases bs) (auto dest!: send_data_fs [OF sym])
qed simp

declare write_file_loop.simps [simp del]

definition write_data_file :: "string \<Rightarrow> host \<Rightarrow> int \<times> host" where
  "write_data_file path h =
     (case svc_sys (sys_open_rd path) h of
        (None, h) \<Rightarrow> (- 1, say (''cannot open '' @ quoted path @ '': '' @ strerror (sv_errno h)) h)
      | (Some bytes, h) \<Rightarrow> write_file_loop path bytes h)"

function write_data_buffer :: "byte list \<Rightarrow> host \<Rightarrow> int \<times> host" where
  "write_data_buffer bytes h =
     (if bytes = [] then (0, h)
      else case send_data (take SYNC_DATA_MAX bytes) h of
        (False, h) \<Rightarrow> (- 1, h)
      | (True, h) \<Rightarrow> write_data_buffer (drop SYNC_DATA_MAX bytes) h)"
  by pat_completeness auto
termination
  by (relation "measure (\<lambda>(bytes, _). length bytes)") auto

declare write_data_buffer.simps [simp del]

definition write_data_link :: "string \<Rightarrow> host \<Rightarrow> int \<times> host" where
  "write_data_link path h =
     (case svc_sys (sys_readlink path (SYNC_DATA_MAX - 1)) h of
        (None, h) \<Rightarrow> (- 1, say (''error reading link '' @ quoted path @ '': '' @ strerror (sv_errno h)) h)
      | (Some target, h) \<Rightarrow> (case send_data (target @ [CHR 0x00]) h of (ok, h) \<Rightarrow> (if ok then 0 else - 1, h)))"

text \<open>
  The check of an application package: the file in memory, or the result of the call. Seeking and the
  allocation of the buffer may fail like other calls. What the zip library finds in the file is a
  parameter: nothing for a file that is no archive, otherwise whether it has a manifest.
\<close>

definition load_apk :: "(byte list \<Rightarrow> bool option) \<Rightarrow> string \<Rightarrow> host \<Rightarrow> (int + byte list) \<times> host" where
  "load_apk zipf lpath h =
     (case svc_sys (sys_open_rd lpath) h of
        (None, h) \<Rightarrow> (Inl (- 1), say (''cannot open '' @ quoted lpath @ '': '' @ strerror (sv_errno h)) h)
      | (Some bytes, h) \<Rightarrow>
          let seek = (\<lambda>h. svc_sys (sys (\<lambda>fs. Inr ((), fs))) h); (s1, h) = seek h;
              (s2, h) = (if s1 = None then (None, h) else seek h)
          in if s2 = None then (Inl 1, say (''error seeking in file '' @ quoted lpath) h)
             else
               let (m, h) = seek h
               in if m = None then (Inl 1, say (''could not allocate buffer for '' @ quoted lpath) h)
                  else
                    (case file_read (length bytes) bytes (sv_fs h) of
                       (r, _, fs) \<Rightarrow>
                         let h = h\<lparr>sv_fs := fs\<rparr>
                         in if r \<noteq> Inr bytes then (Inl 1, say (''error reading from file: '' @ quoted lpath) h)
                            else (case zipf bytes of
                                    None \<Rightarrow> (Inl 1, say (''file '' @ quoted lpath @ '' is not a valid zip file'') h)
                                  | Some False \<Rightarrow> (Inl 1, say (''file '' @ quoted lpath @ '' does not contain AndroidManifest.xml'') h)
                                  | Some True \<Rightarrow> (Inr bytes, h))))"

definition send_status :: "string \<Rightarrow> string \<Rightarrow> host \<Rightarrow> int \<times> host" where
  "send_status lpath rpath h =
     (case svc_read 8 h of
        (None, h) \<Rightarrow> (- 1, h)
      | (Some m, h) \<Rightarrow>
          if msg_word 0 m = ID_OKAY then (0, h)
          else
            let failed = (\<lambda>reason h. (- 1, say (''failed to copy '' @ quoted lpath @ '' to '' @ quoted rpath @ '': '' @ reason) h))
            in if msg_word 0 m = ID_FAIL
               then (let len = sint (msg_word 1 m); len = (if 256 < len then 256 else len)
                     in case read_int SYNC_DATA_MAX len h of
                          (None, h) \<Rightarrow> (- 1, h)
                        | (Some reason, h) \<Rightarrow> failed (cstr reason) h)
               else failed ''unknown reason'' h)"

text \<open>What follows the request: the data, whatever became of it, and the end mark with the time.\<close>

definition send_contents :: "string \<Rightarrow> u32 \<Rightarrow> u32 \<Rightarrow> byte list option \<Rightarrow> host \<Rightarrow> host option" where
  "send_contents lpath mtime mode file_buffer h =
     (case file_buffer of
        Some bytes \<Rightarrow> Some (snd (write_data_buffer bytes h))
      | None \<Rightarrow>
          if S_ISREG mode then Some (snd (write_data_file lpath h))
          else if S_ISLNK mode then Some (snd (write_data_link lpath h))
          else None)"

definition send_name :: "string \<Rightarrow> string \<Rightarrow> host \<Rightarrow> bool \<times> host" where
  "send_name rpath tmp h =
     (case svc_write (syncmsg [ID_SEND, of_nat (length rpath + length tmp)]) h of
        (False, h) \<Rightarrow> (False, h)
      | (True, h) \<Rightarrow> (case svc_write rpath h of (False, h) \<Rightarrow> (False, h) | (True, h) \<Rightarrow> svc_write tmp h))"

definition sync_send :: "(byte list \<Rightarrow> bool option) \<Rightarrow> string \<Rightarrow> string \<Rightarrow> u32 \<Rightarrow> u32 \<Rightarrow> bool \<Rightarrow> host \<Rightarrow> int \<times> host" where
  "sync_send zipf lpath rpath mtime mode verifyApk h =
     (if 1024 < length rpath then protocol_failure h
      else
        case (if verifyApk then apfst (map_sum id Some) (load_apk zipf lpath h) else (Inr None, h)) of
          (Inl r, h) \<Rightarrow> (r, h)
        | (Inr file_buffer, h) \<Rightarrow>
            (case send_name rpath ('','' @ fmt_d (sint mode)) h of
               (False, h) \<Rightarrow> protocol_failure h
             | (True, h) \<Rightarrow>
                 (case send_contents lpath mtime mode file_buffer h of
                    None \<Rightarrow> protocol_failure h
                  | Some h \<Rightarrow>
                      (case svc_write (syncmsg [ID_DONE, mtime]) h of
                         (False, h) \<Rightarrow> protocol_failure h
                       | (True, h) \<Rightarrow> send_status lpath rpath h))))"

subsection \<open>Receiving\<close>

text \<open>\<open>mkdirs\<close> of the client takes any path; its result is not used.\<close>

definition make_parents :: "string \<Rightarrow> host \<Rightarrow> host" where
  "make_parents name h = snd (mkdirs_from (take 1 name) (drop 1 name) h)"

text \<open>The label \<open>remote_error\<close>: the local file is removed and the call succeeds.\<close>

definition remote_error :: "string \<Rightarrow> string \<Rightarrow> byte list \<Rightarrow> host \<Rightarrow> int \<times> host" where
  "remote_error rpath lpath m h =
     (let h = snd (svc_sys (sys_unlink lpath) h);
          failed = (\<lambda>reason h. (0, say (''failed to copy '' @ quoted rpath @ '' to '' @ quoted lpath @ '': '' @ reason) h))
      in if msg_word 0 m = ID_FAIL
         then (let len = sint (msg_word 1 m); len = (if 256 < len then 256 else len)
               in case read_int SYNC_DATA_MAX len h of
                    (None, h) \<Rightarrow> (- 1, h)
                  | (Some reason, h) \<Rightarrow> failed (cstr reason) h)
         else failed (cstr (take 4 m)) h)"

text \<open>One message: the result of the call, or the file to go on with.\<close>

definition data_step :: "string \<Rightarrow> string \<Rightarrow> ofile \<Rightarrow> byte list \<Rightarrow> host \<Rightarrow> (int + ofile) \<times> host" where
  "data_step rpath lpath lf m h =
     (let len = sint (msg_word 1 m)
      in if msg_word 0 m = ID_DONE then (Inl 0, h)
         else if msg_word 0 m \<noteq> ID_DATA then apfst Inl (remote_error rpath lpath m h)
         else if int SYNC_DATA_MAX < len then (Inl (- 1), say ''data overrun'' h)
         else
           (case read_int SYNC_DATA_MAX len h of
              (None, h) \<Rightarrow> (Inl (- 1), h)
            | (Some bs, h) \<Rightarrow>
                let ((ok, lf), h) = svc_sys (\<lambda>fs. case file_write bs lf fs of (ok, lf, fs) \<Rightarrow> ((ok, lf), fs)) h
                in if ok then (Inr lf, count_bytes (length bs) h)
                   else (Inl (- 1), say (''cannot write '' @ quoted rpath @ '': '' @ strerror (sv_errno h)) h)))"

definition next_step :: "string \<Rightarrow> string \<Rightarrow> ofile \<Rightarrow> host \<Rightarrow> (int + ofile) \<times> host" where
  "next_step rpath lpath lf h =
     (case svc_read 8 h of (None, h) \<Rightarrow> (Inl (- 1), h) | (Some m, h) \<Rightarrow> data_step rpath lpath lf m h)"

lemma read_int_left: "read_int cap len h = (r, h') \<Longrightarrow> sv_left h' \<le> sv_left h"
  by (auto simp: read_int_def split: if_splits dest: read_left)

lemma data_step_left:
  assumes "data_step rpath lpath lf m h = (Inr lf', h')"
  shows "sv_left h' \<le> sv_left h"
proof -
  have id: "msg_word 0 m = ID_DATA" "\<not> int SYNC_DATA_MAX < sint (msg_word 1 m)"
    using assms by (auto simp: data_step_def Let_def apfst_def map_prod_def split: if_splits prod.splits)
  obtain bs h1 where r: "read_int SYNC_DATA_MAX (sint (msg_word 1 m)) h = (Some bs, h1)"
    using assms id by (auto simp: data_step_def Let_def split: prod.splits option.splits)
  obtain ok l h2 where w: "svc_sys (\<lambda>fs. case file_write bs lf fs of (ok, lf, fs) \<Rightarrow> ((ok, lf), fs)) h1 = ((ok, l), h2)"
    by (metis prod.collapse)
  have "sv_left h' = sv_left h2" using assms id r w by (auto simp: data_step_def count_bytes_def split: if_splits)
  then show ?thesis using read_int_left [OF r] svc_sys_left [OF w] by simp
qed

lemma next_step_left:
  assumes "next_step rpath lpath lf h = (Inr lf', h')"
  shows "sv_left h' < sv_left h"
proof -
  obtain m h1 where m: "svc_read 8 h = (Some m, h1)" using assms by (auto simp: next_step_def split: prod.splits option.splits)
  then have "data_step rpath lpath lf m h1 = (Inr lf', h')" using assms by (simp add: next_step_def)
  from data_step_left [OF this] svc_read_left [OF m] show ?thesis by simp
qed

function data_loop :: "string \<Rightarrow> string \<Rightarrow> ofile \<Rightarrow> host \<Rightarrow> int \<times> host" where
  "data_loop rpath lpath lf h =
     (case next_step rpath lpath lf h of (Inl r, h) \<Rightarrow> (r, h) | (Inr lf, h) \<Rightarrow> data_loop rpath lpath lf h)"
  by pat_completeness auto
termination
  by (relation "measure (\<lambda>(_, _, _, h). sv_left h)") (auto dest: next_step_left [OF sym])

declare data_loop.simps [simp del]

definition sync_recv :: "string \<Rightarrow> string \<Rightarrow> host \<Rightarrow> int \<times> host" where
  "sync_recv rpath lpath h =
     (if 1024 < length rpath then (- 1, h)
      else case send_req ID_RECV rpath h of
        (False, h) \<Rightarrow> (- 1, h)
      | (True, h) \<Rightarrow>
          (case svc_read 8 h of
             (None, h) \<Rightarrow> (- 1, h)
           | (Some m, h) \<Rightarrow>
               if msg_word 0 m = ID_DATA \<or> msg_word 0 m = ID_DONE
               then
                 let h = make_parents lpath (snd (svc_sys (sys_unlink lpath) h))
                 in case svc_sys (sys_creat lpath 0x1A4) h of
                      (None, h) \<Rightarrow> (- 1, say (''cannot create '' @ quoted lpath @ '': '' @ strerror (sv_errno h)) h)
                    | (Some lf, h) \<Rightarrow>
                        (case data_step rpath lpath lf m h of
                           (Inl r, h) \<Rightarrow> (r, h)
                         | (Inr lf, h) \<Rightarrow> data_loop rpath lpath lf h)
               else remote_error rpath lpath m h))"

subsection \<open>What the client puts on a quiet connection\<close>

definition sent :: "byte list \<Rightarrow> host \<Rightarrow> host \<Rightarrow> bool" where
  "sent bs h h' \<longleftrightarrow> fd_out (sv_s h') = fd_out (sv_s h) @ bs \<and> pending_in (sv_s h') = pending_in (sv_s h)
     \<and> list_all write_ok (fd_wr (sv_s h')) \<and> sv_fs h' = sv_fs h \<and> sv_buf h' = sv_buf h"

lemma sent_trans: "sent a h h1 \<Longrightarrow> sent b h1 h2 \<Longrightarrow> sent (a @ b) h h2"
  by (simp add: sent_def)

lemma sent_write:
  assumes "list_all write_ok (fd_wr (sv_s h))"
  obtains h' where "svc_write bs h = (True, h')" "sent bs h h'"
proof -
  obtain s where s: "svc_write bs h = (True, h\<lparr>sv_s := s\<rparr>)" "pending_in s = pending_in (sv_s h)"
    "fd_out s = fd_out (sv_s h) @ bs" "list_all write_ok (fd_wr s)"
    using assms by (rule svc_write_calm)
  then show ?thesis by (intro that [OF s(1)]) (simp add: sent_def)
qed

lemma sent_ok: "sent bs h h' \<Longrightarrow> list_all write_ok (fd_wr (sv_s h'))"
  by (simp add: sent_def)

lemma sent_data:
  assumes "list_all write_ok (fd_wr (sv_s h))"
  obtains h' where "send_data bs h = (True, h')" "sent (data_msgs [bs]) h h'"
proof -
  obtain h1 where "svc_write (syncmsg [ID_DATA, of_nat (length bs)] @ bs) h = (True, h1)"
    "sent (syncmsg [ID_DATA, of_nat (length bs)] @ bs) h h1" using assms by (rule sent_write)
  then show ?thesis
    by (intro that [of "count_bytes (length bs) h1"]) (simp_all add: send_data_def sent_def count_bytes_def data_msgs_def)
qed

text \<open>A file is sent in pieces of 64 KB.\<close>

function pieces :: "nat \<Rightarrow> 'a list \<Rightarrow> 'a list list" where
  "pieces n xs = (if n = 0 \<or> xs = [] then [] else take n xs # pieces n (drop n xs))"
  by pat_completeness auto
termination
  by (relation "measure (\<lambda>(n, xs). length xs)") auto

declare pieces.simps [simp del]

lemma pieces_Cons: "0 < n \<Longrightarrow> xs \<noteq> [] \<Longrightarrow> pieces n xs = take n xs # pieces n (drop n xs)"
  by (subst pieces.simps) simp

lemma concat_pieces: "0 < n \<Longrightarrow> concat (pieces n xs) = xs"
proof (induction n xs rule: pieces.induct)
  case (1 n xs)
  then show ?case by (subst pieces.simps) auto
qed

lemma pieces_length: "c \<in> set (pieces n xs) \<Longrightarrow> length c \<le> n"
proof (induction n xs rule: pieces.induct)
  case (1 n xs)
  then show ?case by (subst (asm) pieces.simps) (auto split: if_splits)
qed

lemma data_msgs_Cons: "data_msgs (c # cs) = data_msgs [c] @ data_msgs cs"
  by (simp add: data_msgs_def)

lemma write_file_loop_sent:
  "list_all write_ok (fd_wr (sv_s h)) \<Longrightarrow> f_rd (sv_fs h) = [] \<Longrightarrow>
   \<exists>h'. write_file_loop path rest h = (0, h') \<and> sent (data_msgs (pieces SYNC_DATA_MAX rest)) h h'"
proof (induction path rest h rule: write_file_loop.induct)
  case (1 path rest h)
  have f: "file_read SYNC_DATA_MAX rest (sv_fs h) = (Inr (take SYNC_DATA_MAX rest), drop SYNC_DATA_MAX rest, sv_fs h)"
    using 1(4) by (simp add: file_read_def)
  show ?case
  proof (cases "rest = []")
    case True
    then show ?thesis using f 1(3) by (simp add: write_file_loop.simps [of path "[]" h] pieces.simps sent_def data_msgs_def)
  next
    case False
    then have ne: "take SYNC_DATA_MAX rest \<noteq> []" by simp
    obtain h1 where h1: "send_data (take SYNC_DATA_MAX rest) h = (True, h1)" "sent (data_msgs [take SYNC_DATA_MAX rest]) h h1"
      using 1(3) by (rule sent_data)
    have e: "send_data (take SYNC_DATA_MAX rest) (h\<lparr>sv_fs := sv_fs h\<rparr>) = (True, h1)" using h1(1) by simp
    have s: "sv_fs h1 = sv_fs h" using h1(2) by (simp add: sent_def)
    obtain h2 where h2: "write_file_loop path (drop SYNC_DATA_MAX rest) h1 = (0, h2)" "sent (data_msgs (pieces SYNC_DATA_MAX (drop SYNC_DATA_MAX rest))) h1 h2"
      using 1(2) [OF f [symmetric] refl refl ne e [symmetric] refl] sent_ok [OF h1(2)] s 1(4) by auto
    have "sent (data_msgs (pieces SYNC_DATA_MAX rest)) h h2"
      using sent_trans [OF h1(2) h2(2)]
      unfolding pieces_Cons [OF _ False, of SYNC_DATA_MAX, simplified]
        data_msgs_Cons [of "take SYNC_DATA_MAX rest" "pieces SYNC_DATA_MAX (drop SYNC_DATA_MAX rest)"] .
    then show ?thesis using f ne h1(1) h2(1) by (simp add: write_file_loop.simps [of path rest h])
  qed
qed

text \<open>A regular file: the request, its contents and the end mark, and then the answer is read.\<close>

definition send_stream :: "string \<Rightarrow> u32 \<Rightarrow> u32 \<Rightarrow> byte list list \<Rightarrow> byte list" where
  "send_stream rpath mode mtime cs =
     (let name = rpath @ '','' @ fmt_d (sint mode)
      in syncmsg [ID_SEND, of_nat (length name)] @ name @ data_msgs cs @ syncmsg [ID_DONE, mtime])"

lemma sent_name:
  assumes "list_all write_ok (fd_wr (sv_s h))"
  obtains h' where "send_name rpath tmp h = (True, h')"
    "sent (syncmsg [ID_SEND, of_nat (length (rpath @ tmp))] @ rpath @ tmp) h h'"
proof -
  obtain h1 where h1: "svc_write (syncmsg [ID_SEND, of_nat (length rpath + length tmp)]) h = (True, h1)"
    "sent (syncmsg [ID_SEND, of_nat (length rpath + length tmp)]) h h1" using assms by (rule sent_write)
  obtain h2 where h2: "svc_write rpath h1 = (True, h2)" "sent rpath h1 h2" using sent_ok [OF h1(2)] by (rule sent_write)
  obtain h3 where h3: "svc_write tmp h2 = (True, h3)" "sent tmp h2 h3" using sent_ok [OF h2(2)] by (rule sent_write)
  show ?thesis
    by (rule that [of h3]) (use h1 h2 h3 sent_trans [OF sent_trans [OF h1(2) h2(2)] h3(2)] in \<open>simp_all add: send_name_def\<close>)
qed

lemma sync_send_sent:
  assumes "list_all write_ok (fd_wr (sv_s h))" "length rpath \<le> 1024"
    and "\<And>h1. list_all write_ok (fd_wr (sv_s h1)) \<Longrightarrow> sv_fs h1 = sv_fs h \<Longrightarrow>
      \<exists>h2. send_contents lpath mtime mode None h1 = Some h2 \<and> fd_out (sv_s h2) = fd_out (sv_s h1) @ data_msgs cs
        \<and> pending_in (sv_s h2) = pending_in (sv_s h1) \<and> list_all write_ok (fd_wr (sv_s h2))"
  shows "\<exists>h'. sync_send zipf lpath rpath mtime mode False h = send_status lpath rpath h'
    \<and> fd_out (sv_s h') = fd_out (sv_s h) @ send_stream rpath mode mtime cs \<and> pending_in (sv_s h') = pending_in (sv_s h)"
proof -
  let ?t = "'','' @ fmt_d (sint mode)"
  obtain h1 where h1: "send_name rpath ?t h = (True, h1)" "sent (syncmsg [ID_SEND, of_nat (length (rpath @ ?t))] @ rpath @ ?t) h h1"
    using assms(1) by (rule sent_name)
  then obtain h2 where h2: "send_contents lpath mtime mode None h1 = Some h2" "fd_out (sv_s h2) = fd_out (sv_s h1) @ data_msgs cs"
    "pending_in (sv_s h2) = pending_in (sv_s h1)" "list_all write_ok (fd_wr (sv_s h2))"
    using assms(3) [of h1] by (auto simp: sent_def)
  obtain h3 where h3: "svc_write (syncmsg [ID_DONE, mtime]) h2 = (True, h3)" "sent (syncmsg [ID_DONE, mtime]) h2 h3"
    using h2(4) by (rule sent_write)
  have "sync_send zipf lpath rpath mtime mode False h = send_status lpath rpath h3"
    using h1(1) h2(1) h3(1) assms(2) unfolding sync_send_def by (simp del: append.simps)
  moreover have "fd_out (sv_s h3) = fd_out (sv_s h) @ send_stream rpath mode mtime cs" "pending_in (sv_s h3) = pending_in (sv_s h)"
    using h1(2) h2(2,3) h3(2) by (simp_all add: sent_def send_stream_def Let_def)
  ultimately show ?thesis by blast
qed

lemma send_contents_file:
  assumes "list_all write_ok (fd_wr (sv_s h))" "calm (sv_fs h)" "S_ISREG mode" "f_nodes (sv_fs h) lpath = Some (Reg bytes lm lt)"
  shows "\<exists>h'. send_contents lpath mtime mode None h = Some h' \<and> sent (data_msgs (pieces SYNC_DATA_MAX bytes)) h h'"
proof -
  have "resolve 40 lpath (sv_fs h) = Some lpath" using assms(4) by (simp add: numeral_eq_Suc)
  then have "svc_sys (sys_open_rd lpath) h = (Some bytes, h)"
    using assms(2,4) by (simp add: svc_sys_def sys_open_rd_def sys_calm calm_def)
  moreover obtain h' where "write_file_loop lpath bytes h = (0, h')" "sent (data_msgs (pieces SYNC_DATA_MAX bytes)) h h'"
    using write_file_loop_sent [OF assms(1), of lpath bytes] assms(2) by (auto simp: calm_def)
  ultimately show ?thesis using assms(3) by (simp add: send_contents_def write_data_file_def)
qed

lemma svc_read_out: "svc_read n h = (r, h') \<Longrightarrow> fd_out (sv_s h') = fd_out (sv_s h)"
  by (auto simp: svc_read_def split: prod.splits dest: readx_io)

lemma read_int_out: "read_int cap len h = (r, h') \<Longrightarrow> fd_out (sv_s h') = fd_out (sv_s h)"
  by (auto simp: read_int_def split: if_splits dest: svc_read_out)

lemma send_status_out: "fd_out (sv_s (snd (send_status lpath rpath h))) = fd_out (sv_s h)"
  by (auto simp: send_status_def say_def Let_def split: prod.splits option.splits dest!: svc_read_out read_int_out)

lemma send_status_okay:
  assumes "pending_in (sv_s h) = syncmsg [ID_OKAY, 0] @ rest"
  shows "fst (send_status lpath rpath h) = 0"
proof -
  obtain s where "svc_read 8 h = (Some (syncmsg [ID_OKAY, 0]), h\<lparr>sv_s := s\<rparr>)"
    using svc_read_calm [OF assms, of 8] by auto
  then show ?thesis by (simp add: send_status_def)
qed

subsection \<open>Round trips\<close>

lemma push_client:
  assumes "calm_svc h" "f_nodes (sv_fs h) lpath = Some (Reg bytes lm lt)" "S_ISREG mode" "length rpath \<le> 1024"
  shows "\<exists>h1. sync_send zipf lpath rpath mtime mode False h = send_status lpath rpath h1
    \<and> fd_out (sv_s h1) = fd_out (sv_s h) @ send_stream rpath mode mtime (pieces SYNC_DATA_MAX bytes)
    \<and> pending_in (sv_s h1) = pending_in (sv_s h)"
proof -
  have wr: "list_all write_ok (fd_wr (sv_s h))" and calm: "calm (sv_fs h)" using assms(1) by (simp_all add: calm_svc_def)
  show ?thesis
  proof (rule sync_send_sent [OF wr assms(4)])
    fix h1 :: host
    assume "list_all write_ok (fd_wr (sv_s h1))" "sv_fs h1 = sv_fs h"
    with send_contents_file [of h1 mode lpath bytes lm lt mtime] calm assms(2,3)
    show "\<exists>h2. send_contents lpath mtime mode None h1 = Some h2
        \<and> fd_out (sv_s h2) = fd_out (sv_s h1) @ data_msgs (pieces SYNC_DATA_MAX bytes)
        \<and> pending_in (sv_s h2) = pending_in (sv_s h1) \<and> list_all write_ok (fd_wr (sv_s h2))"
      by (auto simp: sent_def)
  qed
qed

lemma push_service:
  assumes "calm_svc v" "pending_in (sv_s v) = send_stream rpath mode mtime cs" "\<forall>c \<in> set cs. length c \<le> SYNC_DATA_MAX"
    and "length (rpath @ '','' @ fmt_d (sint mode)) \<le> 1024" "CHR 0x00 \<notin> set rpath" "S_ISREG mode" "0 \<le> sint mode"
    and "is_dir (dir_of rpath) (sv_fs v)" "dir_of rpath \<noteq> rpath" "\<And>t. f_nodes (sv_fs v) rpath \<noteq> Some (Dir t)"
  shows "\<exists>v'. service_step v = (True, v') \<and> fd_out (sv_s v') = fd_out (sv_s v) @ syncmsg [ID_OKAY, 0]
    \<and> f_nodes (sv_fs v') = (f_nodes (sv_fs v))(rpath \<mapsto> Reg (concat cs) (sent_perm mode AND NOT (f_umask (sv_fs v))) mtime)"
proof -
  have link: "\<not> S_ISLNK mode" using assms(6) by (auto simp: mode_defs)
  have "pending_in (sv_s v) = syncmsg [ID_SEND, of_nat (length (rpath @ '','' @ fmt_d (sint mode)))] @ (rpath @ '','' @ fmt_d (sint mode))
      @ data_msgs cs @ syncmsg [ID_DONE, mtime] @ []"
    using assms(2) by (simp add: send_stream_def Let_def)
  from send_request_stores [OF assms(1) refl assms(4,5) this assms(3,7) link assms(8-10)] show ?thesis by blast
qed

text \<open>The two ends together, whatever the client puts between the request and the end mark.\<close>

lemma push_exchange:
  assumes "sync_send zipf lpath rpath mtime mode False h = send_status lpath rpath h1"
    "fd_out (sv_s h1) = fd_out (sv_s h) @ send_stream rpath mode mtime cs" "pending_in (sv_s h1) = pending_in (sv_s h)"
    and "\<forall>c \<in> set cs. length c \<le> SYNC_DATA_MAX" "S_ISREG mode" "0 \<le> sint mode"
    and "length (rpath @ '','' @ fmt_d (sint mode)) \<le> 1024" "CHR 0x00 \<notin> set rpath"
    and "calm_svc v" "is_dir (dir_of rpath) (sv_fs v)" "dir_of rpath \<noteq> rpath" "\<And>t. f_nodes (sv_fs v) rpath \<noteq> Some (Dir t)"
    and "sync_send zipf lpath rpath mtime mode False h = (r, h')" "service_step v = (go_on, v')"
    and "fd_out (sv_s h') = fd_out (sv_s h) @ pending_in (sv_s v)" "fd_out (sv_s v') = fd_out (sv_s v) @ pending_in (sv_s h)"
  shows "r = 0 \<and> go_on \<and> f_nodes (sv_fs v') = (f_nodes (sv_fs v))(rpath \<mapsto> Reg (concat cs) (sent_perm mode AND NOT (f_umask (sv_fs v))) mtime)"
proof -
  have "fd_out (sv_s h') = fd_out (sv_s h1)" using send_status_out [of lpath rpath h1] assms(1,13) by (metis snd_conv)
  then have "pending_in (sv_s v) = send_stream rpath mode mtime cs" using assms(2,15) by simp
  from push_service [OF assms(9) this assms(4,7,8,5,6,10,11,12)]
  have v': "go_on" "fd_out (sv_s v') = fd_out (sv_s v) @ syncmsg [ID_OKAY, 0]"
    "f_nodes (sv_fs v') = (f_nodes (sv_fs v))(rpath \<mapsto> Reg (concat cs) (sent_perm mode AND NOT (f_umask (sv_fs v))) mtime)"
    using assms(14) by auto
  then have "pending_in (sv_s h1) = syncmsg [ID_OKAY, 0] @ []" using assms(16,3) by simp
  then have "r = 0" using send_status_okay [of h1 "[]" lpath rpath] assms(1,13) by (metis fst_conv)
  then show ?thesis using v' by simp
qed

text \<open>The mode that \<open>stat\<close> gives for a regular file.\<close>

lemma high_bits:
  assumes "lm < (0x1000 :: u32)" "12 \<le> n"
  shows "\<not> bit lm n"
proof -
  have "unat lm < 2 ^ 12" using assms(1) by (simp add: word_less_nat_alt)
  also have "(2 :: nat) ^ 12 \<le> 2 ^ n" using assms(2) by (intro power_increasing) simp_all
  finally have "\<not> bit (unat lm) n" by (simp add: bit_iff_odd)
  then show ?thesis by (auto simp add: bit_unsigned_iff)
qed

lemma regular_mode:
  assumes "lm < (0x1000 :: u32)"
  shows "S_ISREG (0x8000 OR lm)" "0 \<le> sint (0x8000 OR lm)"
proof -
  have hi: "\<not> bit lm n" if "12 \<le> n" for n
    by (rule high_bits [OF assms that])
  have "(0x8000 OR lm) AND 0xF000 = (0x8000 :: u32)"
    by (rule bit_word_eqI) (auto simp: bit_and_iff bit_or_iff mask_bits hi simp del: bit_numeral_word_iff)
  then show "S_ISREG (0x8000 OR lm)" by (simp add: S_ISREG_def)
  have "\<not> bit (0x8000 OR lm) 31" using hi [of 31] by (simp add: bit_or_iff mask_bits del: bit_numeral_word_iff)
  then have "\<not> sint (0x8000 OR lm) < 0" by (simp flip: bit_last_iff)
  then show "0 \<le> sint (0x8000 OR lm)" by simp
qed

text \<open>
  C5: Pushing a file, with the mode and the time that \<open>stat\<close> gives for it, as \<open>do_sync_push\<close> does. When the
  bytes the client sends are what the service reads, and the other way round, however the two streams
  are cut into pieces, then \<open>sync_send\<close> of a regular file succeeds, and the device has, in place of what
  was there, a file of that name with the same contents and the time of the local file; nothing else
  changes on it. The permissions are not those of the local file: a right of the owner is given to the
  group and the others too, and one of the group to the others, before the mask of the service takes
  rights away.
\<close>

theorem push_roundtrip:
  assumes "calm_svc h" "f_nodes (sv_fs h) lpath = Some (Reg bytes lm lt)" "lm < 0x1000" "fst (sys_stat lpath (sv_fs h)) = Some st"
    and "length (rpath @ '','' @ fmt_d (sint (st_mode st))) \<le> 1024" "CHR 0x00 \<notin> set rpath"
    and "calm_svc v" "is_dir (dir_of rpath) (sv_fs v)" "dir_of rpath \<noteq> rpath" "\<And>t. f_nodes (sv_fs v) rpath \<noteq> Some (Dir t)"
    and "sync_send zipf lpath rpath (st_mtime st) (st_mode st) False h = (r, h')" "service_step v = (go_on, v')"
    and "fd_out (sv_s h') = fd_out (sv_s h) @ pending_in (sv_s v)" "fd_out (sv_s v') = fd_out (sv_s v) @ pending_in (sv_s h)"
  shows "r = 0 \<and> go_on
    \<and> (\<exists>perm. f_nodes (sv_fs v') = (f_nodes (sv_fs v))(rpath \<mapsto> Reg bytes (perm AND NOT (f_umask (sv_fs v))) lt)
        \<and> (\<forall>i. bit perm i \<longleftrightarrow> i < 9 \<and> (bit lm i \<or> i < 6 \<and> bit lm (i + 3) \<or> i < 3 \<and> bit lm (i + 6))))"
proof -
  have "f_fail (sv_fs h) = []" using assms(1) by (simp add: calm_svc_def calm_def)
  then have st: "st_mode st = 0x8000 OR lm" "st_mtime st = lt"
    using assms(2,4) by (auto simp: sys_stat_def sys_calm resolve_self40)
  note m = regular_mode [OF assms(3), folded st(1)]
  obtain h1 where h1: "sync_send zipf lpath rpath (st_mtime st) (st_mode st) False h = send_status lpath rpath h1"
    "fd_out (sv_s h1) = fd_out (sv_s h) @ send_stream rpath (st_mode st) (st_mtime st) (pieces SYNC_DATA_MAX bytes)"
    "pending_in (sv_s h1) = pending_in (sv_s h)"
    using push_client [OF assms(1,2) m(1), of rpath zipf "st_mtime st"] assms(5) by auto
  from push_exchange [OF h1 _ m assms(5-14)] pieces_length
  have "r = 0 \<and> go_on \<and> f_nodes (sv_fs v') = (f_nodes (sv_fs v))(rpath \<mapsto>
      Reg bytes (sent_perm (st_mode st) AND NOT (f_umask (sv_fs v))) (st_mtime st))"
    by (auto simp: concat_pieces)
  then show ?thesis unfolding st sent_perm_reg using sent_perm_bits [of lm] by blast
qed

text \<open>An exchange on two empty file systems.\<close>

definition quiet_fs :: "(string \<rightharpoonup> node) \<Rightarrow> fsys" where
  "quiet_fs m = \<lparr>f_nodes = m, f_list = (\<lambda>_. None), f_fail = [], f_rd = [], f_wr = [], f_errno = EIO, f_umask = 0\<rparr>"

definition quiet_svc :: "byte list \<Rightarrow> (string \<rightharpoonup> node) \<Rightarrow> svc" where
  "quiet_svc input m = \<lparr>sv_s = \<lparr>fd_in = [Inr input], fd_wr = [], fd_out = []\<rparr>, sv_fs = quiet_fs m,
     sv_buf = replicate SYNC_DATA_MAX CHR 0x00, sv_overrun = False\<rparr>"

definition quiet_host :: "byte list \<Rightarrow> (string \<rightharpoonup> node) \<Rightarrow> host" where
  "quiet_host input m = svc.extend (quiet_svc input m) \<lparr>h_closed = False, h_total = 0, h_err = []\<rparr>"

lemma quiet_simps [simp]:
  "calm_svc (quiet_svc input m)" "calm_svc (quiet_host input m)"
  "sv_fs (quiet_svc input m) = quiet_fs m" "sv_fs (quiet_host input m) = quiet_fs m" "f_nodes (quiet_fs m) = m" "f_umask (quiet_fs m) = 0"
  "fd_out (sv_s (quiet_svc input m)) = []" "fd_out (sv_s (quiet_host input m)) = []"
  "input \<noteq> [] \<Longrightarrow> pending_in (sv_s (quiet_svc input m)) = input" "input \<noteq> [] \<Longrightarrow> pending_in (sv_s (quiet_host input m)) = input"
  by (simp_all add: quiet_svc_def quiet_host_def quiet_fs_def calm_svc_def calm_def pending_in_def svc.defs)

theorem push_roundtrip_witness:
  "\<exists>r h' go_on v' perm. sync_send (\<lambda>_. None) ''a'' ''b'' 7 0x81A4 False (quiet_host (syncmsg [ID_OKAY, 0]) [''a'' \<mapsto> Reg ''hello'' 0x1A4 7]) = (r, h')
     \<and> service_step (quiet_svc (send_stream ''b'' 0x81A4 7 [''hello'']) Map.empty) = (go_on, v')
     \<and> r = 0 \<and> go_on \<and> f_nodes (sv_fs v') = [''b'' \<mapsto> Reg ''hello'' perm 7] \<and> bit perm 1 \<and> \<not> bit perm 0"
proof -
  let ?h = "quiet_host (syncmsg [ID_OKAY, 0]) [''a'' \<mapsto> Reg ''hello'' 0x1A4 7]"
  let ?v = "quiet_svc (send_stream ''b'' 0x81A4 7 [''hello'']) Map.empty"
  let ?st = "\<lparr>st_mode = 0x81A4, st_size = 5, st_mtime = 7\<rparr>"
  have ps: "pieces SYNC_DATA_MAX ''hello'' = [''hello'']" by (simp add: pieces.simps)
  have num: "sint (0x81A4 :: u32) = 33188" by simp
  have "length (show_nat 10 33188) \<le> 5" by (rule show_nat_length) simp_all
  then have mode: "S_ISREG 0x81A4" "0 \<le> sint (0x81A4 :: u32)" "length (''b'' @ '','' @ fmt_d (sint (0x81A4 :: u32))) \<le> 1024"
    unfolding num by (simp_all add: S_ISREG_def fmt_d_def)
  have ne: "syncmsg [ID_OKAY, 0] \<noteq> []" "send_stream ''b'' 0x81A4 7 [''hello''] \<noteq> []"
    by (simp_all add: syncmsg_def send_stream_def le32_def Let_def)
  have dir: "is_dir (dir_of ''b'') (quiet_fs Map.empty)" "dir_of ''b'' \<noteq> ''b''" by (simp_all add: is_dir_def dir_of_def strrchr_def)
  obtain r h' where s: "sync_send (\<lambda>_. None) ''a'' ''b'' 7 0x81A4 False ?h = (r, h')" by fastforce
  then have s': "sync_send (\<lambda>_. None) ''a'' ''b'' (st_mtime ?st) (st_mode ?st) False ?h = (r, h')" by simp
  obtain go_on v' where t: "service_step ?v = (go_on, v')" by fastforce
  have "\<exists>h1. sync_send (\<lambda>_. None) ''a'' ''b'' 7 0x81A4 False ?h = send_status ''a'' ''b'' h1
    \<and> fd_out (sv_s h1) = fd_out (sv_s ?h) @ send_stream ''b'' 0x81A4 7 (pieces SYNC_DATA_MAX ''hello'')
    \<and> pending_in (sv_s h1) = pending_in (sv_s ?h)"
    by (rule push_client) (use mode in simp_all)
  then obtain h1 where h1: "sync_send (\<lambda>_. None) ''a'' ''b'' 7 0x81A4 False ?h = send_status ''a'' ''b'' h1"
    "fd_out (sv_s h1) = send_stream ''b'' 0x81A4 7 [''hello'']" unfolding ps by auto
  have out: "fd_out (sv_s h') = fd_out (sv_s ?h) @ pending_in (sv_s ?v)"
    using send_status_out [of "''a''" "''b''" h1] h1(2) ne(2) unfolding h1(1) [symmetric] s by simp
  have "\<exists>v'. service_step ?v = (True, v') \<and> fd_out (sv_s v') = fd_out (sv_s ?v) @ syncmsg [ID_OKAY, 0]
    \<and> f_nodes (sv_fs v') = (f_nodes (sv_fs ?v))(''b'' \<mapsto> Reg (concat [''hello'']) (sent_perm 0x81A4 AND NOT (f_umask (sv_fs ?v))) 7)"
    by (rule push_service) (use mode ne dir in simp_all)
  then have vh: "fd_out (sv_s v') = fd_out (sv_s ?v) @ pending_in (sv_s ?h)" using t ne(1) by auto
  have st: "fst (sys_stat ''a'' (sv_fs ?h)) = Some ?st"
    by (simp add: sys_stat_def sys_def resolve_self40 quiet_fs_def)
  obtain perm where p: "r = 0" "go_on" "f_nodes (sv_fs v') = (f_nodes (sv_fs ?v))(''b'' \<mapsto> Reg ''hello'' (perm AND NOT (f_umask (sv_fs ?v))) 7)"
    "\<forall>i. bit perm i \<longleftrightarrow> i < 9 \<and> (bit (0x1A4 :: u32) i \<or> i < 6 \<and> bit (0x1A4 :: u32) (i + 3) \<or> i < 3 \<and> bit (0x1A4 :: u32) (i + 6))"
    using push_roundtrip [OF _ _ _ st _ _ _ _ dir(2) _ s' t out vh, of "''hello''" "0x1A4" 7] mode(3) dir(1) by auto
  have "bit perm 1" "\<not> bit perm 0" using p(4) by simp_all
  with s t p(1-3) show ?thesis by auto
qed

end
