(* ===== verification/SyncPull.thy ===== *)
theory SyncPull
  imports SyncClient
begin

text \<open>
  The two ends of file transfer together, beyond a push that goes well: a pull that succeeds, with the
  directories it makes on the host, and the two ways in which a transfer that failed is reported as a
  success.
\<close>

subsection \<open>The directories above a file\<close>

lemma dir_of_Some: "CHR ''/'' \<notin> set a \<Longrightarrow> dir_of (d @ CHR ''/'' # a) = d"
  using strrchr_Some [of "CHR ''/''" "d @ CHR ''/'' # a" d a] by (simp add: dir_of_def)

lemma dir_of_None: "CHR ''/'' \<notin> set a \<Longrightarrow> dir_of a = []"
  by (auto simp: dir_of_def strrchr_Some split: option.splits)

lemma dir_of_append:
  assumes "CHR ''/'' \<notin> set a"
  shows "dir_of (pre @ a) = dir_of pre"
proof (cases "CHR ''/'' \<in> set pre")
  case True
  then obtain d r where "pre = d @ CHR ''/'' # r" "CHR ''/'' \<notin> set r" by (meson split_list_last)
  then show ?thesis using assms dir_of_Some [of "r @ a" d] dir_of_Some [of r d] by simp
next
  case False
  then show ?thesis using assms by (simp add: dir_of_None)
qed

text \<open>A path above another, and what may stand there for the directories to be made.\<close>

definition path_above :: "string \<Rightarrow> string \<Rightarrow> bool" where
  "path_above q p \<longleftrightarrow> (\<exists>r. p = q @ CHR ''/'' # r)"

lemma path_above_irrefl: "\<not> path_above p p"
  by (simp add: path_above_def)

definition free_or_dir :: "fsys \<Rightarrow> string \<Rightarrow> bool" where
  "free_or_dir fs q \<longleftrightarrow> f_nodes fs q = None \<or> (\<exists>t. f_nodes fs q = Some (Dir t))"

text \<open>The state after some directories above a path have been made.\<close>

definition dirs_made :: "string \<Rightarrow> 'a svc_scheme \<Rightarrow> 'a svc_scheme \<Rightarrow> bool" where
  "dirs_made p v v' \<longleftrightarrow> sv_s v' = sv_s v \<and> sv_buf v' = sv_buf v \<and> calm (sv_fs v') \<and> f_umask (sv_fs v') = f_umask (sv_fs v)
     \<and> (\<forall>q. f_nodes (sv_fs v') q = f_nodes (sv_fs v) q
          \<or> path_above q p \<and> f_nodes (sv_fs v) q = None \<and> f_nodes (sv_fs v') q = Some (Dir 0))"

lemma dirs_made_refl: "calm (sv_fs v) \<Longrightarrow> dirs_made p v v"
  by (simp add: dirs_made_def)

lemma dirs_made_trans: "dirs_made p v1 v2 \<Longrightarrow> dirs_made p v2 v3 \<Longrightarrow> dirs_made p v1 v3"
  unfolding dirs_made_def by (metis option.distinct(1))

lemma dirs_made_calm: "dirs_made p v v' \<Longrightarrow> calm (sv_fs v')"
  by (simp add: dirs_made_def)

lemma dirs_made_free: "dirs_made p v v' \<Longrightarrow> free_or_dir (sv_fs v) q \<Longrightarrow> free_or_dir (sv_fs v') q"
  unfolding dirs_made_def free_or_dir_def by metis

text \<open>One \<open>mkdir\<close> gives a directory, new or old.\<close>

lemma mkdir_calm:
  assumes "calm (sv_fs v)" "path_above q p" "is_dir (dir_of q) (sv_fs v)" "free_or_dir (sv_fs v) q"
  obtains r v' where "svc_sys (sys_mkdir q) v = (r, v')" "r = None \<longrightarrow> sv_errno v' = EEXIST"
    "dirs_made p v v'" "is_dir q (sv_fs v')"
proof (cases "f_nodes (sv_fs v) q")
  case None
  let ?v = "v\<lparr>sv_fs := put_node q (Dir 0) (sv_fs v)\<rparr>"
  have "svc_sys (sys_mkdir q) v = (Some (), ?v)"
    using assms None by (simp add: svc_sys_def sys_mkdir_def sys_calm calm_def make_node_def)
  then show ?thesis
    by (rule that) (use assms None in \<open>auto simp: dirs_made_def is_dir_def\<close>)
next
  case (Some n)
  let ?v = "v\<lparr>sv_fs := (sv_fs v)\<lparr>f_errno := EEXIST\<rparr>\<rparr>"
  have "svc_sys (sys_mkdir q) v = (None, ?v)"
    using assms Some by (simp add: svc_sys_def sys_mkdir_def sys_calm calm_def make_node_def)
  then show ?thesis
    by (rule that) (use assms Some in \<open>auto simp: dirs_made_def is_dir_def calm_def free_or_dir_def\<close>)
qed

lemma mkdirs_from_calm:
  assumes "calm (sv_fs v)" "is_dir (dir_of pre) (sv_fs v)" "\<forall>q. path_above q (pre @ rest) \<longrightarrow> free_or_dir (sv_fs v) q"
  shows "\<exists>v'. mkdirs_from pre rest v = (0, v') \<and> dirs_made (pre @ rest) v v' \<and> is_dir (dir_of (pre @ rest)) (sv_fs v')"
  using assms
proof (induction "length rest" arbitrary: pre rest v rule: less_induct)
  case less
  show ?case
  proof (cases "strchr (CHR ''/'') rest")
    case None
    then have "CHR ''/'' \<notin> set rest" by (simp add: strchr_None)
    then show ?thesis
      using None less(2,3) by (simp add: mkdirs_from.simps [of pre rest] dir_of_append dirs_made_refl)
  next
    case (Some ab)
    obtain a b where ab: "ab = (a, b)" by fastforce
    then have rest: "rest = a @ CHR ''/'' # b" "CHR ''/'' \<notin> set a" using Some by (simp_all add: strchr_Some)
    then have up: "path_above (pre @ a) (pre @ rest)" by (simp add: path_above_def)
    have dir: "is_dir (dir_of (pre @ a)) (sv_fs v)" using less(3) rest(2) by (simp add: dir_of_append)
    have free: "free_or_dir (sv_fs v) (pre @ a)" using less(4) up by blast
    obtain r v1 where v1: "svc_sys (sys_mkdir (pre @ a)) v = (r, v1)" "r = None \<longrightarrow> sv_errno v1 = EEXIST"
      "dirs_made (pre @ rest) v v1" "is_dir (pre @ a) (sv_fs v1)"
      by (rule mkdir_calm [OF less(2) up dir free])
    have p: "(pre @ a @ ''/'') @ b = pre @ rest" using rest by simp
    have "\<exists>v'. mkdirs_from (pre @ a @ ''/'') b v1 = (0, v') \<and> dirs_made ((pre @ a @ ''/'') @ b) v1 v' \<and> is_dir (dir_of ((pre @ a @ ''/'') @ b)) (sv_fs v')"
    proof (rule less(1))
      show "length b < length rest" using rest by simp
      show "calm (sv_fs v1)" using v1(3) by (rule dirs_made_calm)
      show "is_dir (dir_of (pre @ a @ ''/'')) (sv_fs v1)" using v1(4) dir_of_Some [of "[]" "pre @ a"] by simp
      show "\<forall>q. path_above q ((pre @ a @ ''/'') @ b) \<longrightarrow> free_or_dir (sv_fs v1) q"
        unfolding p using less(4) dirs_made_free [OF v1(3)] by blast
    qed
    then obtain v2 where v2: "mkdirs_from (pre @ a @ ''/'') b v1 = (0, v2)" "dirs_made (pre @ rest) v1 v2" "is_dir (dir_of (pre @ rest)) (sv_fs v2)"
      unfolding p by blast
    have "mkdirs_from pre rest v = (0, v2)"
      using Some ab v1(1,2) v2(1) by (cases r) (simp_all add: mkdirs_from.simps [of pre rest])
    then show ?thesis using dirs_made_trans [OF v1(3) v2(2)] v2(3) by blast
  qed
qed

lemma make_parents_calm:
  assumes "calm (sv_fs h)" "\<forall>q. path_above q p \<longrightarrow> free_or_dir (sv_fs h) q"
  shows "dirs_made p h (make_parents p h) \<and> is_dir (dir_of p) (sv_fs (make_parents p h))"
proof -
  have "dir_of [c] = []" for c using dir_of_Some [of "[]" "[]"] dir_of_None [of "[c]"] by (cases "c = CHR ''/''") auto
  then have "dir_of (take 1 p) = []" by (cases p) (simp_all add: dir_of_None)
  then have "is_dir (dir_of (take 1 p)) (sv_fs h)" by (simp add: is_dir_def)
  from mkdirs_from_calm [OF assms(1) this, of "drop 1 p"] assms(2) show ?thesis by (auto simp: make_parents_def)
qed

subsection \<open>Sending a file from the device\<close>

lemma recv_loop_sends:
  "list_all write_ok (fd_wr (sv_s v)) \<Longrightarrow> f_rd (sv_fs v) = [] \<Longrightarrow>
   \<exists>v'. recv_loop rest v = (0, v') \<and> fd_out (sv_s v') = fd_out (sv_s v) @ data_msgs (pieces SYNC_DATA_MAX rest) @ syncmsg [ID_DONE, 0]
     \<and> sv_fs v' = sv_fs v"
proof (induction "length rest" arbitrary: rest v rule: less_induct)
  case less
  let ?bs = "take SYNC_DATA_MAX rest"
  let ?v = "v\<lparr>sv_buf := ?bs @ drop (length ?bs) (sv_buf v)\<rparr>"
  have f: "file_read SYNC_DATA_MAX rest (sv_fs v) = (Inr ?bs, drop SYNC_DATA_MAX rest, sv_fs v)"
    using less(3) by (simp add: file_read_def)
  have wr: "list_all write_ok (fd_wr (sv_s ?v))" using less(2) by simp
  show ?case
  proof (cases "rest = []")
    case True
    obtain s where "svc_write (syncmsg [ID_DONE, 0]) ?v = (True, ?v\<lparr>sv_s := s\<rparr>)" "fd_out s = fd_out (sv_s ?v) @ syncmsg [ID_DONE, 0]"
      using wr by (rule svc_write_calm)
    then show ?thesis using f True by (simp add: recv_loop.simps [of "[]"] pieces.simps data_msgs_def)
  next
    case False
    then have ne: "?bs \<noteq> []" by simp
    obtain s1 where s1: "svc_write (syncmsg [ID_DATA, of_nat (length ?bs)]) ?v = (True, ?v\<lparr>sv_s := s1\<rparr>)"
      "fd_out s1 = fd_out (sv_s ?v) @ syncmsg [ID_DATA, of_nat (length ?bs)]" "list_all write_ok (fd_wr s1)"
      using wr by (rule svc_write_calm)
    have "list_all write_ok (fd_wr (sv_s (?v\<lparr>sv_s := s1\<rparr>)))" using s1(3) by simp
    then obtain s2 where s2: "svc_write ?bs (?v\<lparr>sv_s := s1\<rparr>) = (True, (?v\<lparr>sv_s := s1\<rparr>)\<lparr>sv_s := s2\<rparr>)"
      "fd_out s2 = fd_out (sv_s (?v\<lparr>sv_s := s1\<rparr>)) @ ?bs" "list_all write_ok (fd_wr s2)"
      by (rule svc_write_calm)
    let ?w = "?v\<lparr>sv_s := s2\<rparr>"
    have "\<exists>v'. recv_loop (drop SYNC_DATA_MAX rest) ?w = (0, v')
      \<and> fd_out (sv_s v') = fd_out (sv_s ?w) @ data_msgs (pieces SYNC_DATA_MAX (drop SYNC_DATA_MAX rest)) @ syncmsg [ID_DONE, 0] \<and> sv_fs v' = sv_fs ?w"
      by (rule less(1)) (use False s2(3) less(3) in simp_all)
    then obtain v' where v': "recv_loop (drop SYNC_DATA_MAX rest) ?w = (0, v')" "sv_fs v' = sv_fs v"
      "fd_out (sv_s v') = fd_out s2 @ data_msgs (pieces SYNC_DATA_MAX (drop SYNC_DATA_MAX rest)) @ syncmsg [ID_DONE, 0]" by auto
    have p: "data_msgs (pieces SYNC_DATA_MAX rest) = syncmsg [ID_DATA, of_nat (length ?bs)] @ ?bs @ data_msgs (pieces SYNC_DATA_MAX (drop SYNC_DATA_MAX rest))"
      unfolding pieces_Cons [OF _ False, of SYNC_DATA_MAX, simplified] by (simp add: data_msgs_def)
    have "recv_loop rest v = recv_loop (drop SYNC_DATA_MAX rest) ?w"
      using f ne s1(1) s2(1) by (simp add: recv_loop.simps [of rest v] Let_def)
    then show ?thesis using v' s1(2) s2(2) p by simp
  qed
qed

text \<open>A request to receive: what the service answers.\<close>

lemma recv_request:
  assumes "pending_in (sv_s v) = syncmsg [ID_RECV, of_nat (length rpath)] @ rpath" "length rpath \<le> 1024" "CHR 0x00 \<notin> set rpath"
  obtains s where "service_step v = (case do_recv rpath (v\<lparr>sv_s := s\<rparr>) of (r, v') \<Rightarrow> (r = 0, v'))"
    "fd_out s = fd_out (sv_s v)" "fd_wr s = fd_wr (sv_s v)"
proof -
  let ?m = "syncmsg [ID_RECV, of_nat (length rpath)]"
  obtain s1 where s1: "svc_read 8 v = (Some ?m, v\<lparr>sv_s := s1\<rparr>)" "pending_in s1 = rpath" "fd_out s1 = fd_out (sv_s v)" "fd_wr s1 = fd_wr (sv_s v)"
    using svc_read_calm [of v ?m rpath 8] assms(1) by auto
  obtain s2 where s2: "svc_read (length rpath) (v\<lparr>sv_s := s1\<rparr>) = (Some rpath, v\<lparr>sv_s := s2\<rparr>)" "fd_out s2 = fd_out (sv_s v)" "fd_wr s2 = fd_wr (sv_s v)"
    using svc_read_calm [of "v\<lparr>sv_s := s1\<rparr>" rpath "[]" "length rpath"] s1 by auto
  have len: "unat (of_nat (length rpath) :: u32) = length rpath" using assms(2) by (intro unat_of_nat32) simp
  have "cstr rpath = rpath" using assms(3) by (auto simp: cstr_def takeWhile_eq_all_conv)
  then show ?thesis
    by (intro that [of s2]) (use s1(1) s2 len assms(2) in \<open>simp_all add: service_step_def Let_def\<close>)
qed

lemma pull_service:
  assumes "calm_svc v" "pending_in (sv_s v) = syncmsg [ID_RECV, of_nat (length rpath)] @ rpath" "length rpath \<le> 1024" "CHR 0x00 \<notin> set rpath"
    and "f_nodes (sv_fs v) rpath = Some (Reg bytes m t)"
  shows "\<exists>v'. service_step v = (True, v') \<and> f_nodes (sv_fs v') = f_nodes (sv_fs v)
    \<and> fd_out (sv_s v') = fd_out (sv_s v) @ data_msgs (pieces SYNC_DATA_MAX bytes) @ syncmsg [ID_DONE, 0]"
proof -
  obtain s where s: "service_step v = (case do_recv rpath (v\<lparr>sv_s := s\<rparr>) of (r, v') \<Rightarrow> (r = 0, v'))"
    "fd_out s = fd_out (sv_s v)" "fd_wr s = fd_wr (sv_s v)"
    using assms(2-4) by (rule recv_request)
  let ?v = "v\<lparr>sv_s := s\<rparr>"
  have "resolve 40 rpath (sv_fs v) = Some rpath" using assms(5) by (simp add: numeral_eq_Suc)
  then have "svc_sys (sys_open_rd rpath) ?v = (Some bytes, ?v)"
    using assms(1,5) by (simp add: svc_sys_def sys_open_rd_def sys_calm calm_def calm_svc_def)
  then have "do_recv rpath ?v = recv_loop bytes ?v" by (simp add: do_recv_def)
  moreover obtain v' where "recv_loop bytes ?v = (0, v')" "sv_fs v' = sv_fs v"
    "fd_out (sv_s v') = fd_out (sv_s v) @ data_msgs (pieces SYNC_DATA_MAX bytes) @ syncmsg [ID_DONE, 0]"
    using recv_loop_sends [of ?v bytes] assms(1) s(2,3) by (auto simp: calm_svc_def calm_def)
  ultimately show ?thesis using s(1) by simp
qed

subsection \<open>Storing a file on the host\<close>

lemma sint_of_nat_small: "n \<le> SYNC_DATA_MAX \<Longrightarrow> sint (of_nat n :: u32) = int n"
  by (simp add: sint_uint unsigned_of_nat take_bit_nat_eq_self signed_take_bit_int_eq_self)

lemma data_step_stores:
  assumes "calm_svc h" "pending_in (sv_s h) = c @ rest" "length c \<le> SYNC_DATA_MAX"
    and "of_base lf = []" "f_nodes (sv_fs h) (of_path lf) = Some (Reg d m t)"
  obtains h' where "data_step rpath lpath lf (syncmsg [ID_DATA, of_nat (length c)]) h = (Inr (lf\<lparr>of_out := of_out lf @ c\<rparr>), h')"
    "calm_svc h'" "pending_in (sv_s h') = rest" "fd_out (sv_s h') = fd_out (sv_s h)"
    "f_nodes (sv_fs h') = (f_nodes (sv_fs h))(of_path lf \<mapsto> Reg (of_out lf @ c) m t)"
proof -
  obtain s where s: "svc_read (length c) h = (Some c, h\<lparr>sv_s := s\<rparr>)" "pending_in s = rest" "fd_out s = fd_out (sv_s h)" "fd_wr s = fd_wr (sv_s h)"
    using svc_read_calm [OF assms(2) refl] by auto
  have calm: "calm (sv_fs h)" using assms(1) by (simp add: calm_svc_def)
  obtain fs' where fs': "file_write c lf (sv_fs h) = (True, lf\<lparr>of_out := of_out lf @ c\<rparr>, fs')" "calm fs'"
    "f_nodes fs' = (f_nodes (sv_fs h))(of_path lf \<mapsto> Reg (of_out lf @ c) m t)"
    using file_write_calm [OF calm assms(5), of c] assms(4) by (metis append_Nil2 drop_Nil)
  have r: "read_int SYNC_DATA_MAX (int (length c)) h = (Some c, h\<lparr>sv_s := s\<rparr>)" using s(1) assms(3) by (simp add: read_int_def)
  have n: "sint (of_nat (length c) :: u32) = int (length c)" using assms(3) by (rule sint_of_nat_small)
  let ?h = "count_bytes (length c) (h\<lparr>sv_s := s, sv_fs := fs'\<rparr>)"
  have "data_step rpath lpath lf (syncmsg [ID_DATA, of_nat (length c)]) h = (Inr (lf\<lparr>of_out := of_out lf @ c\<rparr>), ?h)"
    using r fs'(1) n assms(3) by (simp add: data_step_def svc_sys_def)
  then show ?thesis
    by (rule that) (use s fs' assms(1) in \<open>simp_all add: calm_svc_def count_bytes_def\<close>)
qed

lemma data_loop_stores:
  assumes "calm_svc h" "pending_in (sv_s h) = data_msgs cs @ syncmsg [ID_DONE, 0]" "\<forall>c \<in> set cs. length c \<le> SYNC_DATA_MAX"
    and "of_base lf = []" "f_nodes (sv_fs h) (of_path lf) = Some (Reg (of_out lf) m t)"
  shows "\<exists>h'. data_loop rpath lpath lf h = (0, h') \<and> fd_out (sv_s h') = fd_out (sv_s h)
    \<and> f_nodes (sv_fs h') = (f_nodes (sv_fs h))(of_path lf \<mapsto> Reg (of_out lf @ concat cs) m t)"
  using assms
proof (induction cs arbitrary: h lf)
  case Nil
  obtain s where "svc_read 8 h = (Some (syncmsg [ID_DONE, 0]), h\<lparr>sv_s := s\<rparr>)" "fd_out s = fd_out (sv_s h)"
    using svc_read_calm [of h "syncmsg [ID_DONE, 0]" "[]" 8] Nil(2) by (auto simp: data_msgs_def)
  then show ?case using Nil(5) by (auto simp: data_loop.simps [of rpath] next_step_def data_step_def)
next
  case (Cons c cs)
  let ?m = "syncmsg [ID_DATA, of_nat (length c)]" and ?rest = "data_msgs cs @ syncmsg [ID_DONE, 0]"
  have "pending_in (sv_s h) = ?m @ (c @ ?rest)" using Cons.prems(2) by (simp add: data_msgs_def)
  from svc_read_calm [OF this, of 8] obtain s where s: "svc_read 8 h = (Some ?m, h\<lparr>sv_s := s\<rparr>)" "pending_in s = c @ ?rest"
    "fd_out s = fd_out (sv_s h)" "fd_wr s = fd_wr (sv_s h)" by auto
  have "calm_svc (h\<lparr>sv_s := s\<rparr>)" "pending_in (sv_s (h\<lparr>sv_s := s\<rparr>)) = c @ ?rest" "length c \<le> SYNC_DATA_MAX"
    "f_nodes (sv_fs (h\<lparr>sv_s := s\<rparr>)) (of_path lf) = Some (Reg (of_out lf) m t)"
    using Cons.prems s by (simp_all add: calm_svc_def)
  from data_step_stores [OF this(1-3) Cons.prems(4) this(4), of rpath lpath]
  obtain h1 where h1: "data_step rpath lpath lf ?m (h\<lparr>sv_s := s\<rparr>) = (Inr (lf\<lparr>of_out := of_out lf @ c\<rparr>), h1)" "calm_svc h1"
    "pending_in (sv_s h1) = ?rest" "fd_out (sv_s h1) = fd_out (sv_s h)"
    "f_nodes (sv_fs h1) = (f_nodes (sv_fs h))(of_path lf \<mapsto> Reg (of_out lf @ c) m t)"
    using s(3) by auto
  have "\<exists>h'. data_loop rpath lpath (lf\<lparr>of_out := of_out lf @ c\<rparr>) h1 = (0, h') \<and> fd_out (sv_s h') = fd_out (sv_s h1)
    \<and> f_nodes (sv_fs h') = (f_nodes (sv_fs h1))(of_path (lf\<lparr>of_out := of_out lf @ c\<rparr>) \<mapsto> Reg (of_out (lf\<lparr>of_out := of_out lf @ c\<rparr>) @ concat cs) m t)"
    by (rule Cons.IH) (use h1 Cons.prems in auto)
  then show ?case using s(1) h1 by (auto simp: data_loop.simps [of rpath lpath lf h] next_step_def)
qed

text \<open>The request and the answer: the answer starts with a message, and the rest follows it.\<close>

lemma sync_recv_request:
  assumes "list_all write_ok (fd_wr (sv_s h))" "length rpath \<le> 1024" "pending_in (sv_s h) = syncmsg [w0, w1] @ rest"
  obtains q s where "pending_in s = rest" "list_all write_ok (fd_wr s)"
    "fd_out s = fd_out (sv_s h) @ syncmsg [ID_RECV, of_nat (length rpath)] @ rpath"
    "send_req ID_RECV rpath h = (True, q)"
    "svc_read 8 q = (Some (syncmsg [w0, w1]), h\<lparr>sv_s := s\<rparr>)"
proof -
  let ?m = "syncmsg [ID_RECV, of_nat (length rpath)]"
  obtain s1 where s1: "svc_write ?m h = (True, h\<lparr>sv_s := s1\<rparr>)" "pending_in s1 = pending_in (sv_s h)"
    "fd_out s1 = fd_out (sv_s h) @ ?m" "list_all write_ok (fd_wr s1)"
    using assms(1) by (rule svc_write_calm)
  have "list_all write_ok (fd_wr (sv_s (h\<lparr>sv_s := s1\<rparr>)))" using s1(4) by simp
  then obtain s2 where w2: "svc_write rpath (h\<lparr>sv_s := s1\<rparr>) = (True, (h\<lparr>sv_s := s1\<rparr>)\<lparr>sv_s := s2\<rparr>)"
    and s2: "pending_in s2 = pending_in (sv_s (h\<lparr>sv_s := s1\<rparr>))"
    "fd_out s2 = fd_out (sv_s (h\<lparr>sv_s := s1\<rparr>)) @ rpath" "list_all write_ok (fd_wr s2)"
    by (rule svc_write_calm)
  have q: "send_req ID_RECV rpath h = (True, h\<lparr>sv_s := s2\<rparr>)" using s1(1) w2 by (simp add: send_req_def)
  have "pending_in (sv_s (h\<lparr>sv_s := s2\<rparr>)) = syncmsg [w0, w1] @ rest" using s2(1) s1(2) assms(3) by simp
  from svc_read_calm [OF this, of 8] obtain s3 where s3: "svc_read 8 (h\<lparr>sv_s := s2\<rparr>) = (Some (syncmsg [w0, w1]), h\<lparr>sv_s := s3\<rparr>)"
    "pending_in s3 = rest" "fd_out s3 = fd_out s2" "fd_wr s3 = fd_wr s2" by auto
  show ?thesis by (rule that [of s3 "h\<lparr>sv_s := s2\<rparr>"]) (use q s3 s2 s1 in simp_all)
qed

text \<open>The local file is removed, the directories above it are made, and it is created anew.\<close>

definition fresh_local :: "string \<Rightarrow> host \<Rightarrow> host \<Rightarrow> bool" where
  "fresh_local p h h' \<longleftrightarrow> calm_svc h' \<and> sv_s h' = sv_s h \<and> f_nodes (sv_fs h') p = Some (Reg [] (0x1A4 AND NOT (f_umask (sv_fs h))) 0)
     \<and> (\<forall>q. q \<noteq> p \<longrightarrow> f_nodes (sv_fs h') q = f_nodes (sv_fs h) q
          \<or> path_above q p \<and> f_nodes (sv_fs h) q = None \<and> f_nodes (sv_fs h') q = Some (Dir 0))"

lemma open_local:
  assumes "calm_svc h" "\<And>t. f_nodes (sv_fs h) p \<noteq> Some (Dir t)" "\<forall>q. path_above q p \<longrightarrow> free_or_dir (sv_fs h) q"
  obtains h' where "svc_sys (sys_creat p 0x1A4) (make_parents p (snd (svc_sys (sys_unlink p) h)))
      = (Some \<lparr>of_path = p, of_base = [], of_out = []\<rparr>, h')" "fresh_local p h h'"
proof -
  let ?u = "snd (svc_sys (sys_unlink p) h)" and ?f = "\<lparr>of_path = p, of_base = [], of_out = []\<rparr>"
  let ?d = "make_parents p ?u"
  have calm: "f_fail (sv_fs h) = []" "f_rd (sv_fs h) = []" "list_all write_ok (f_wr (sv_fs h))" using assms(1) by (simp_all add: calm_svc_def calm_def)
  have u: "sv_s ?u = sv_s h" "sv_buf ?u = sv_buf h" "f_nodes (sv_fs ?u) = (f_nodes (sv_fs h))(p := None)" "calm (sv_fs ?u)"
    "f_umask (sv_fs ?u) = f_umask (sv_fs h)"
    using calm assms(2) by (auto simp: svc_sys_def sys_unlink_def sys_calm calm_def split: option.splits node.splits prod.splits)
  have "\<forall>q. path_above q p \<longrightarrow> free_or_dir (sv_fs ?u) q" using assms(3) u(3) by (simp add: free_or_dir_def)
  from make_parents_calm [OF u(4) this] have d: "dirs_made p ?u ?d" "is_dir (dir_of p) (sv_fs ?d)" by simp_all
  have new: "f_nodes (sv_fs ?d) p = None" using d(1) u(3) path_above_irrefl [of p] unfolding dirs_made_def by (metis fun_upd_same)
  let ?h = "?d\<lparr>sv_fs := put_node p (Reg [] (0x1A4 AND NOT (f_umask (sv_fs h))) 0) (sv_fs ?d)\<rparr>"
  have um: "f_umask (sv_fs ?d) = f_umask (sv_fs h)" using d(1) u(5) by (simp add: dirs_made_def)
  have "f_fail (sv_fs ?d) = []" using dirs_made_calm [OF d(1)] by (simp add: calm_def)
  then have "svc_sys (sys_creat p 0x1A4) ?d = (Some ?f, ?h)"
    using new d(2) um by (simp add: svc_sys_def sys_creat_def sys_calm make_node_def resolve_self40)
  moreover have "fresh_local p h ?h"
  proof -
    have "f_nodes (sv_fs ?d) q = f_nodes (sv_fs h) q \<or> path_above q p \<and> f_nodes (sv_fs h) q = None \<and> f_nodes (sv_fs ?d) q = Some (Dir 0)"
      if "q \<noteq> p" for q
      using d(1) u(3) that unfolding dirs_made_def by (metis fun_upd_other)
    then show ?thesis using d(1) u assms(1) by (simp add: fresh_local_def dirs_made_def calm_svc_def)
  qed
  ultimately show ?thesis by (rule that)
qed

lemma pull_client:
  assumes "calm_svc h" "\<And>t. f_nodes (sv_fs h) lpath \<noteq> Some (Dir t)" "\<forall>q. path_above q lpath \<longrightarrow> free_or_dir (sv_fs h) q"
    and "pending_in (sv_s h) = data_msgs cs @ syncmsg [ID_DONE, 0]" "\<forall>c \<in> set cs. length c \<le> SYNC_DATA_MAX" "length rpath \<le> 1024"
  shows "\<exists>h' h1. sync_recv rpath lpath h = (0, h') \<and> fd_out (sv_s h') = fd_out (sv_s h) @ syncmsg [ID_RECV, of_nat (length rpath)] @ rpath
    \<and> fresh_local lpath h h1 \<and> f_nodes (sv_fs h') = (f_nodes (sv_fs h1))(lpath \<mapsto> Reg (concat cs) (0x1A4 AND NOT (f_umask (sv_fs h))) 0)"
proof -
  let ?lf = "\<lparr>of_path = lpath, of_base = [], of_out = []\<rparr>" and ?lm = "0x1A4 AND NOT (f_umask (sv_fs h))"
  have wr: "list_all write_ok (fd_wr (sv_s h))" using assms(1) by (simp add: calm_svc_def)
  define w :: "u32 \<times> u32 \<times> byte list" where "w = (case cs of [] \<Rightarrow> (ID_DONE, 0, []) | c # cs \<Rightarrow> (ID_DATA, of_nat (length c), c @ data_msgs cs @ syncmsg [ID_DONE, 0]))"
  obtain w0 w1 rest where w': "w = (w0, w1, rest)" by (metis prod_cases3)
  then have ids: "w0 = ID_DATA \<or> w0 = ID_DONE" by (auto simp: w_def split: list.splits)
  have "pending_in (sv_s h) = syncmsg [w0, w1] @ rest" using assms(4) w' by (auto simp: w_def data_msgs_def split: list.splits)
  from sync_recv_request [OF wr assms(6) this]
  obtain q s where s: "pending_in s = rest" "list_all write_ok (fd_wr s)"
    "fd_out s = fd_out (sv_s h) @ syncmsg [ID_RECV, of_nat (length rpath)] @ rpath"
    "send_req ID_RECV rpath h = (True, q)" "svc_read 8 q = (Some (syncmsg [w0, w1]), h\<lparr>sv_s := s\<rparr>)" by blast
  have "calm_svc (h\<lparr>sv_s := s\<rparr>)" using assms(1) s(2) by (simp add: calm_svc_def)
  from open_local [OF this, of lpath] assms(2,3)
  obtain h1 where h1: "svc_sys (sys_creat lpath 0x1A4) (make_parents lpath (snd (svc_sys (sys_unlink lpath) (h\<lparr>sv_s := s\<rparr>)))) = (Some ?lf, h1)"
    "fresh_local lpath (h\<lparr>sv_s := s\<rparr>) h1" by auto
  have eq: "sync_recv rpath lpath h = (case data_step rpath lpath ?lf (syncmsg [w0, w1]) h1 of
      (Inl r, h) \<Rightarrow> (r, h) | (Inr lf, h) \<Rightarrow> data_loop rpath lpath lf h)"
    unfolding sync_recv_def s(4) using s(5) h1(1) ids assms(6) by (simp add: Let_def)
  have fl: "fresh_local lpath h (h1\<lparr>sv_s := sv_s h\<rparr>)" using h1(2) assms(1) by (auto simp: fresh_local_def calm_svc_def)
  have n1: "f_nodes (sv_fs h1) lpath = Some (Reg [] ?lm 0)" "calm_svc h1" "sv_s h1 = s" using h1(2) by (simp_all add: fresh_local_def)
  show ?thesis
  proof (cases cs)
    case Nil
    then have "sync_recv rpath lpath h = (0, h1)" unfolding eq using w' by (simp add: w_def data_step_def)
    then show ?thesis using fl n1 s(3) Nil by (intro exI [of _ h1] exI [of _ "h1\<lparr>sv_s := sv_s h\<rparr>"]) auto
  next
    case (Cons c cs')
    then have w: "w0 = ID_DATA" "w1 = of_nat (length c)" "rest = c @ data_msgs cs' @ syncmsg [ID_DONE, 0]" using w' by (simp_all add: w_def)
    have "pending_in (sv_s h1) = c @ data_msgs cs' @ syncmsg [ID_DONE, 0]" "length c \<le> SYNC_DATA_MAX" using s(1) w(3) n1 assms(5) Cons by simp_all
    from data_step_stores [OF n1(2) this, of ?lf "[]" "?lm" 0 rpath lpath] n1(1)
    obtain h2 where h2: "data_step rpath lpath ?lf (syncmsg [w0, w1]) h1 = (Inr (?lf\<lparr>of_out := c\<rparr>), h2)" "calm_svc h2"
      "pending_in (sv_s h2) = data_msgs cs' @ syncmsg [ID_DONE, 0]" "fd_out (sv_s h2) = fd_out (sv_s h1)"
      "f_nodes (sv_fs h2) = (f_nodes (sv_fs h1))(lpath \<mapsto> Reg c ?lm 0)"
      unfolding w by auto
    from data_loop_stores [OF h2(2,3), of "?lf\<lparr>of_out := c\<rparr>" "?lm" 0 rpath lpath] h2(5) assms(5) Cons
    obtain h3 where h3: "data_loop rpath lpath (?lf\<lparr>of_out := c\<rparr>) h2 = (0, h3)" "fd_out (sv_s h3) = fd_out (sv_s h2)"
      "f_nodes (sv_fs h3) = (f_nodes (sv_fs h1))(lpath \<mapsto> Reg (concat cs) ?lm 0)" by auto
    have "sync_recv rpath lpath h = (0, h3)" unfolding eq using h2(1) h3(1) by simp
    then show ?thesis using fl n1 s(3) h2(4) h3 by (intro exI [of _ h3] exI [of _ "h1\<lparr>sv_s := sv_s h\<rparr>"]) auto
  qed
qed

subsection \<open>Pulling a file\<close>

text \<open>
  C6: Pulling a file. When the bytes the client sends are what the service reads, and the other way
  round, however the two streams are cut into pieces, then \<open>sync_recv\<close> of a regular file succeeds, the
  host has a file of that name with the same contents in place of what was there and the permissions
  0644 less the creation mask, the missing directories above it are made, and nothing else changes on the host and nothing on the device.
\<close>

theorem pull_roundtrip:
  assumes "calm_svc v" "f_nodes (sv_fs v) rpath = Some (Reg bytes m t)" "length rpath \<le> 1024" "CHR 0x00 \<notin> set rpath"
    and "calm_svc h" "\<And>t. f_nodes (sv_fs h) lpath \<noteq> Some (Dir t)" "\<forall>q. path_above q lpath \<longrightarrow> free_or_dir (sv_fs h) q"
    and "sync_recv rpath lpath h = (r, h')" "service_step v = (go_on, v')"
    and "fd_out (sv_s v') = fd_out (sv_s v) @ pending_in (sv_s h)"
    and "pending_in (sv_s v) = syncmsg [ID_RECV, of_nat (length rpath)] @ rpath"
  shows "r = 0 \<and> go_on \<and> fd_out (sv_s h') = fd_out (sv_s h) @ pending_in (sv_s v) \<and> f_nodes (sv_fs v') = f_nodes (sv_fs v)
    \<and> f_nodes (sv_fs h') lpath = Some (Reg bytes (0x1A4 AND NOT (f_umask (sv_fs h))) 0)
    \<and> (\<forall>q. q \<noteq> lpath \<longrightarrow> f_nodes (sv_fs h') q = f_nodes (sv_fs h) q
         \<or> path_above q lpath \<and> f_nodes (sv_fs h) q = None \<and> f_nodes (sv_fs h') q = Some (Dir 0))"
proof -
  let ?cs = "pieces SYNC_DATA_MAX bytes"
  from pull_service [OF assms(1,11,3,4,2)] assms(9)
  have v': "go_on" "f_nodes (sv_fs v') = f_nodes (sv_fs v)" "fd_out (sv_s v') = fd_out (sv_s v) @ data_msgs ?cs @ syncmsg [ID_DONE, 0]" by auto
  then have "pending_in (sv_s h) = data_msgs ?cs @ syncmsg [ID_DONE, 0]" using assms(10) by simp
  from pull_client [OF assms(5-7) this _ assms(3)] pieces_length assms(8)
  obtain h1 where h': "r = 0" "fd_out (sv_s h') = fd_out (sv_s h) @ syncmsg [ID_RECV, of_nat (length rpath)] @ rpath"
    "fresh_local lpath h h1" "f_nodes (sv_fs h') = (f_nodes (sv_fs h1))(lpath \<mapsto> Reg (concat ?cs) (0x1A4 AND NOT (f_umask (sv_fs h))) 0)" by auto
  then show ?thesis using v'(1,2) assms(11) by (simp add: concat_pieces fresh_local_def)
qed

theorem pull_roundtrip_witness:
  "\<exists>r h' go_on v'. sync_recv ''b'' ''d/a'' (quiet_host (data_msgs [''hello''] @ syncmsg [ID_DONE, 0]) [''d/a'' \<mapsto> Reg ''old'' 0x1A4 7]) = (r, h')
     \<and> service_step (quiet_svc (syncmsg [ID_RECV, 1] @ ''b'') [''b'' \<mapsto> Reg ''hello'' 0x1A4 7]) = (go_on, v')
     \<and> r = 0 \<and> go_on \<and> f_nodes (sv_fs h') ''d/a'' = Some (Reg ''hello'' 0x1A4 0)"
proof -
  let ?h = "quiet_host (data_msgs [''hello''] @ syncmsg [ID_DONE, 0]) [''d/a'' \<mapsto> Reg ''old'' 0x1A4 7]"
  let ?v = "quiet_svc (syncmsg [ID_RECV, 1] @ ''b'') [''b'' \<mapsto> Reg ''hello'' 0x1A4 7]"
  obtain r h' where s: "sync_recv ''b'' ''d/a'' ?h = (r, h')" by fastforce
  obtain go_on v' where t: "service_step ?v = (go_on, v')" by fastforce
  have ps: "pieces SYNC_DATA_MAX ''hello'' = [''hello'']" by (simp add: pieces.simps)
  have ne: "data_msgs [''hello''] @ syncmsg [ID_DONE, 0] \<noteq> []" by (simp add: data_msgs_def)
  have free: "\<forall>q. path_above q ''d/a'' \<longrightarrow> free_or_dir (sv_fs ?h) q"
    by (auto simp: free_or_dir_def path_above_irrefl [of "''d/a''"])
  have pv: "pending_in (sv_s ?v) = syncmsg [ID_RECV, of_nat (length ''b'')] @ ''b''" by simp
  have fv: "f_nodes (sv_fs ?v) ''b'' = Some (Reg ''hello'' 0x1A4 7)" by simp
  have short: "length ''b'' \<le> 1024" "CHR 0x00 \<notin> set ''b''" by simp_all
  from pull_service [OF quiet_simps(1) pv short fv] t ps
  have "fd_out (sv_s v') = fd_out (sv_s ?v) @ data_msgs [''hello''] @ syncmsg [ID_DONE, 0]" by auto
  then have out: "fd_out (sv_s v') = fd_out (sv_s ?v) @ pending_in (sv_s ?h)" using ne by simp
  have nodir: "f_nodes (sv_fs ?h) ''d/a'' \<noteq> Some (Dir t)" for t by simp
  have um: "(0x1A4 :: u32) AND NOT (f_umask (sv_fs ?h)) = 0x1A4" by simp
  from pull_roundtrip [OF quiet_simps(1) fv short quiet_simps(2) nodir free s t out pv, unfolded um] s t show ?thesis by blast
qed

subsection \<open>Transfers that fail and are reported as successes\<close>

text \<open>The service has no such file.\<close>

lemma missing_service:
  assumes "calm_svc v" "pending_in (sv_s v) = syncmsg [ID_RECV, of_nat (length rpath)] @ rpath" "length rpath \<le> 1024" "CHR 0x00 \<notin> set rpath"
    and "f_nodes (sv_fs v) rpath = None"
  shows "\<exists>v'. service_step v = (True, v')
    \<and> fd_out (sv_s v') = fd_out (sv_s v) @ syncmsg [ID_FAIL, of_nat (length (strerror ENOENT))] @ strerror ENOENT"
proof -
  obtain s where s: "service_step v = (case do_recv rpath (v\<lparr>sv_s := s\<rparr>) of (r, v') \<Rightarrow> (r = 0, v'))"
    "fd_out s = fd_out (sv_s v)" "fd_wr s = fd_wr (sv_s v)"
    using assms(2-4) by (rule recv_request)
  let ?v = "v\<lparr>sv_s := s, sv_fs := (sv_fs v)\<lparr>f_errno := ENOENT\<rparr>\<rparr>" and ?e = "strerror ENOENT"
  have "resolve 40 rpath (sv_fs v) = Some rpath" using assms(5) by (simp add: numeral_eq_Suc)
  then have o: "svc_sys (sys_open_rd rpath) (v\<lparr>sv_s := s\<rparr>) = (None, ?v)"
    using assms(1,5) by (simp add: svc_sys_def sys_open_rd_def sys_calm calm_def calm_svc_def)
  have "list_all write_ok (fd_wr (sv_s ?v))" using assms(1) s(3) by (simp add: calm_svc_def)
  then obtain s1 where s1: "svc_write (syncmsg [ID_FAIL, of_nat (length ?e)]) ?v = (True, ?v\<lparr>sv_s := s1\<rparr>)"
    "fd_out s1 = fd_out (sv_s ?v) @ syncmsg [ID_FAIL, of_nat (length ?e)]" "list_all write_ok (fd_wr s1)"
    by (rule svc_write_calm)
  have "list_all write_ok (fd_wr (sv_s (?v\<lparr>sv_s := s1\<rparr>)))" using s1(3) by simp
  then obtain s2 where s2: "svc_write ?e (?v\<lparr>sv_s := s1\<rparr>) = (True, (?v\<lparr>sv_s := s1\<rparr>)\<lparr>sv_s := s2\<rparr>)"
    "fd_out s2 = fd_out (sv_s (?v\<lparr>sv_s := s1\<rparr>)) @ ?e"
    by (rule svc_write_calm)
  have "fail_errno ?v = (0, ?v\<lparr>sv_s := s2\<rparr>)" unfolding fail_errno_def fail_message_def using s1(1) s2(1) by simp
  then have "do_recv rpath (v\<lparr>sv_s := s\<rparr>) = (0, ?v\<lparr>sv_s := s2\<rparr>)" using o by (simp add: do_recv_def)
  then show ?thesis using s(1,2) s1(2) s2(2) by simp
qed

lemma refused_client:
  assumes "calm_svc h" "pending_in (sv_s h) = syncmsg [ID_FAIL, of_nat (length reason)] @ reason" "length reason \<le> 256" "length rpath \<le> 1024"
    and "\<And>t. f_nodes (sv_fs h) lpath \<noteq> Some (Dir t)"
  shows "\<exists>h'. sync_recv rpath lpath h = (0, h') \<and> f_nodes (sv_fs h') = (f_nodes (sv_fs h))(lpath := None)
    \<and> h_err h' = h_err h @ [''failed to copy '' @ quoted rpath @ '' to '' @ quoted lpath @ '': '' @ cstr reason]"
proof -
  have wr: "list_all write_ok (fd_wr (sv_s h))" using assms(1) by (simp add: calm_svc_def)
  from sync_recv_request [OF wr assms(4,2)]
  obtain q s where s: "pending_in s = reason" "send_req ID_RECV rpath h = (True, q)"
    "svc_read 8 q = (Some (syncmsg [ID_FAIL, of_nat (length reason)]), h\<lparr>sv_s := s\<rparr>)" by blast
  let ?u = "snd (svc_sys (sys_unlink lpath) (h\<lparr>sv_s := s\<rparr>))"
  have u: "sv_s ?u = s" "f_nodes (sv_fs ?u) = (f_nodes (sv_fs h))(lpath := None)" "h_err ?u = h_err h"
    using assms(1,5) by (auto simp: svc_sys_def sys_unlink_def sys_calm calm_svc_def calm_def split: option.splits node.splits prod.splits)
  obtain s' where s': "svc_read (length reason) ?u = (Some reason, ?u\<lparr>sv_s := s'\<rparr>)"
    using svc_read_calm [of ?u reason "[]" "length reason"] s(1) u(1) by auto
  have n: "sint (of_nat (length reason) :: u32) = int (length reason)" using assms(3) by (intro sint_of_nat_small) simp
  have r: "read_int SYNC_DATA_MAX (int (length reason)) ?u = (Some reason, ?u\<lparr>sv_s := s'\<rparr>)"
    using s' assms(3) by (simp add: read_int_def)
  have "sync_recv rpath lpath h = remote_error rpath lpath (syncmsg [ID_FAIL, of_nat (length reason)]) (h\<lparr>sv_s := s\<rparr>)"
    unfolding sync_recv_def s(2) using s(3) assms(4) by simp
  also have "\<dots> = (0, say (''failed to copy '' @ quoted rpath @ '' to '' @ quoted lpath @ '': '' @ cstr reason) (?u\<lparr>sv_s := s'\<rparr>))"
    unfolding remote_error_def Let_def using n r assms(3) by simp
  finally show ?thesis using u by (simp add: say_def)
qed

text \<open>
  A pull of a file that the device does not have. The service answers with an error and goes on;
  \<open>sync_recv\<close> prints it, returns 0 as if the transfer had succeeded, and has removed the file of that
  name which the host had before.
\<close>

theorem missing_file_pull_succeeds:
  assumes "calm_svc v" "f_nodes (sv_fs v) rpath = None" "length rpath \<le> 1024" "CHR 0x00 \<notin> set rpath"
    and "calm_svc h" "\<And>t. f_nodes (sv_fs h) lpath \<noteq> Some (Dir t)"
    and "sync_recv rpath lpath h = (r, h')" "service_step v = (go_on, v')"
    and "fd_out (sv_s v') = fd_out (sv_s v) @ pending_in (sv_s h)"
    and "pending_in (sv_s v) = syncmsg [ID_RECV, of_nat (length rpath)] @ rpath"
  shows "r = 0 \<and> go_on \<and> f_nodes (sv_fs h') = (f_nodes (sv_fs h))(lpath := None)
    \<and> h_err h' = h_err h @ [''failed to copy '' @ quoted rpath @ '' to '' @ quoted lpath @ '': No such file or directory'']"
proof -
  let ?e = "strerror ENOENT"
  from missing_service [OF assms(1,10,3,4,2)] assms(8) have v': "go_on"
    "fd_out (sv_s v') = fd_out (sv_s v) @ syncmsg [ID_FAIL, of_nat (length ?e)] @ ?e" by auto
  then have p: "pending_in (sv_s h) = syncmsg [ID_FAIL, of_nat (length ?e)] @ ?e" using assms(9) by simp
  have "length ?e \<le> 256" by (simp add: strerror_def)
  from refused_client [OF assms(5) p this assms(3,6)] assms(7) v'(1) show ?thesis by (auto simp: strerror_def cstr_def)
qed

theorem missing_file_pull_succeeds_witness:
  "\<exists>h'. sync_recv ''b'' ''a'' (quiet_host (syncmsg [ID_FAIL, 25] @ ''No such file or directory'') [''a'' \<mapsto> Reg ''kept'' 0x1A4 7]) = (0, h')
     \<and> f_nodes (sv_fs h') = Map.empty"
proof -
  let ?h = "quiet_host (syncmsg [ID_FAIL, 25] @ ''No such file or directory'') [''a'' \<mapsto> Reg ''kept'' 0x1A4 7]"
  let ?v = "quiet_svc (syncmsg [ID_RECV, 1] @ ''b'') Map.empty"
  obtain r h' where s: "sync_recv ''b'' ''a'' ?h = (r, h')" by fastforce
  obtain go_on v' where t: "service_step ?v = (go_on, v')" by fastforce
  have pv: "pending_in (sv_s ?v) = syncmsg [ID_RECV, of_nat (length ''b'')] @ ''b''" by simp
  have short: "length ''b'' \<le> 1024" "CHR 0x00 \<notin> set ''b''" "f_nodes (sv_fs ?v) ''b'' = None" by simp_all
  from missing_service [OF quiet_simps(1) pv short] t
  have out: "fd_out (sv_s v') = fd_out (sv_s ?v) @ pending_in (sv_s ?h)" by (auto simp: strerror_def)
  have nodir: "f_nodes (sv_fs ?h) ''a'' \<noteq> Some (Dir t)" for t by simp
  from missing_file_pull_succeeds [OF quiet_simps(1) short(3,1,2) quiet_simps(2) nodir s t out pv] s show ?thesis by auto
qed

text \<open>A file of which only the first reads succeed.\<close>

lemma write_file_loop_stops:
  assumes "list_all write_ok (fd_wr (sv_s h))" "f_rd (sv_fs h) = replicate k None @ Some e # es" "e \<noteq> EINTR"
  shows "\<exists>h'. write_file_loop path rest h = (0, h') \<and> pending_in (sv_s h') = pending_in (sv_s h) \<and> list_all write_ok (fd_wr (sv_s h'))
    \<and> fd_out (sv_s h') = fd_out (sv_s h) @ data_msgs (pieces SYNC_DATA_MAX (take (k * SYNC_DATA_MAX) rest))"
  using assms
proof (induction k arbitrary: rest h)
  case 0
  then show ?case by (simp add: write_file_loop.simps [of path] file_read_def say_def pieces.simps data_msgs_def)
next
  case (Suc k)
  let ?bs = "take SYNC_DATA_MAX rest" and ?rest = "drop SYNC_DATA_MAX rest"
  let ?h = "h\<lparr>sv_fs := (sv_fs h)\<lparr>f_rd := replicate k None @ Some e # es\<rparr>\<rparr>"
  have f: "file_read SYNC_DATA_MAX rest (sv_fs h) = (Inr ?bs, ?rest, sv_fs ?h)" using Suc.prems(2) by (simp add: file_read_def)
  show ?case
  proof (cases "rest = []")
    case True
    then show ?thesis using f Suc.prems(1) by (simp add: write_file_loop.simps [of path] pieces.simps data_msgs_def)
  next
    case False
    have "list_all write_ok (fd_wr (sv_s ?h))" using Suc.prems(1) by simp
    then obtain h1 where h1: "send_data ?bs ?h = (True, h1)" "sent (data_msgs [?bs]) ?h h1" by (rule sent_data)
    have "\<exists>h'. write_file_loop path ?rest h1 = (0, h') \<and> pending_in (sv_s h') = pending_in (sv_s h1) \<and> list_all write_ok (fd_wr (sv_s h'))
      \<and> fd_out (sv_s h') = fd_out (sv_s h1) @ data_msgs (pieces SYNC_DATA_MAX (take (k * SYNC_DATA_MAX) ?rest))"
      by (rule Suc.IH) (use h1(2) Suc.prems(3) in \<open>simp_all add: sent_def\<close>)
    moreover have "pieces SYNC_DATA_MAX (take (Suc k * SYNC_DATA_MAX) rest) = ?bs # pieces SYNC_DATA_MAX (take (k * SYNC_DATA_MAX) ?rest)"
      using False pieces_Cons [of SYNC_DATA_MAX "take (Suc k * SYNC_DATA_MAX) rest"] by (simp add: drop_take)
    ultimately show ?thesis
      using f h1 False data_msgs_Cons [of ?bs "pieces SYNC_DATA_MAX (take (k * SYNC_DATA_MAX) ?rest)"]
      by (auto simp: write_file_loop.simps [of path rest h] sent_def)
  qed
qed

lemma unreadable_client:
  assumes "list_all write_ok (fd_wr (sv_s h))" "f_fail (sv_fs h) = []" "f_rd (sv_fs h) = replicate k None @ Some e # es" "e \<noteq> EINTR"
    and "f_nodes (sv_fs h) lpath = Some (Reg bytes lm lt)" "S_ISREG mode" "length rpath \<le> 1024"
  shows "\<exists>h1. sync_send zipf lpath rpath mtime mode False h = send_status lpath rpath h1
    \<and> fd_out (sv_s h1) = fd_out (sv_s h) @ send_stream rpath mode mtime (pieces SYNC_DATA_MAX (take (k * SYNC_DATA_MAX) bytes))
    \<and> pending_in (sv_s h1) = pending_in (sv_s h)"
proof (rule sync_send_sent [OF assms(1,7)])
  fix h1 :: host
  assume h1: "list_all write_ok (fd_wr (sv_s h1))" "sv_fs h1 = sv_fs h"
  have "resolve 40 lpath (sv_fs h1) = Some lpath" using assms(5) h1(2) by (simp add: numeral_eq_Suc)
  then have "svc_sys (sys_open_rd lpath) h1 = (Some bytes, h1)"
    using assms(2,5) h1(2) by (simp add: svc_sys_def sys_open_rd_def sys_calm)
  then have "send_contents lpath mtime mode None h1 = Some (snd (write_file_loop lpath bytes h1))"
    using assms(6) by (simp add: send_contents_def write_data_file_def)
  with write_file_loop_stops [OF h1(1), of k e es lpath bytes] assms(3,4) h1(2)
  show "\<exists>h2. send_contents lpath mtime mode None h1 = Some h2
      \<and> fd_out (sv_s h2) = fd_out (sv_s h1) @ data_msgs (pieces SYNC_DATA_MAX (take (k * SYNC_DATA_MAX) bytes))
      \<and> pending_in (sv_s h2) = pending_in (sv_s h1) \<and> list_all write_ok (fd_wr (sv_s h2))"
    by auto
qed

text \<open>
  A push of a file whose reading fails. After \<open>k\<close> reads of 64 KB the next one fails; the client prints
  the error, but the result of \<open>write_data_file\<close> is not looked at and the end mark is sent: \<open>sync_send\<close>
  returns 0, and the device keeps a file that ends after the first \<open>k\<close> pieces.
\<close>

theorem unreadable_file_push_succeeds:
  assumes "list_all write_ok (fd_wr (sv_s h))" "f_fail (sv_fs h) = []" "f_rd (sv_fs h) = replicate k None @ Some e # es" "e \<noteq> EINTR"
    and "f_nodes (sv_fs h) lpath = Some (Reg bytes lm lt)" "S_ISREG mode" "0 \<le> sint mode"
    and "length (rpath @ '','' @ fmt_d (sint mode)) \<le> 1024" "CHR 0x00 \<notin> set rpath"
    and "calm_svc v" "is_dir (dir_of rpath) (sv_fs v)" "dir_of rpath \<noteq> rpath" "\<And>t. f_nodes (sv_fs v) rpath \<noteq> Some (Dir t)"
    and "sync_send zipf lpath rpath mtime mode False h = (r, h')" "service_step v = (go_on, v')"
    and "fd_out (sv_s h') = fd_out (sv_s h) @ pending_in (sv_s v)" "fd_out (sv_s v') = fd_out (sv_s v) @ pending_in (sv_s h)"
  shows "r = 0 \<and> go_on \<and> f_nodes (sv_fs v') rpath = Some (Reg (take (k * SYNC_DATA_MAX) bytes)
    (sent_perm mode AND NOT (f_umask (sv_fs v))) mtime)"
proof -
  obtain h1 where h1: "sync_send zipf lpath rpath mtime mode False h = send_status lpath rpath h1"
    "fd_out (sv_s h1) = fd_out (sv_s h) @ send_stream rpath mode mtime (pieces SYNC_DATA_MAX (take (k * SYNC_DATA_MAX) bytes))"
    "pending_in (sv_s h1) = pending_in (sv_s h)"
    using unreadable_client [OF assms(1-6), of rpath zipf mtime] assms(8) by auto
  from push_exchange [OF h1 _ assms(6-17)] show ?thesis using pieces_length by (auto simp: concat_pieces)
qed

theorem unreadable_file_push_succeeds_witness:
  "\<exists>h' v'. sync_send (\<lambda>_. None) ''a'' ''b'' 7 0x81A4 False
      ((quiet_host (syncmsg [ID_OKAY, 0]) Map.empty)\<lparr>sv_fs := (quiet_fs [''a'' \<mapsto> Reg ''hello'' 0x1A4 7])\<lparr>f_rd := [Some EIO]\<rparr>\<rparr>) = (0, h')
     \<and> service_step (quiet_svc (send_stream ''b'' 0x81A4 7 []) Map.empty) = (True, v')
     \<and> f_nodes (sv_fs v') ''b'' = Some (Reg [] (sent_perm 0x81A4) 7)"
proof -
  let ?h = "(quiet_host (syncmsg [ID_OKAY, 0]) Map.empty)\<lparr>sv_fs := (quiet_fs [''a'' \<mapsto> Reg ''hello'' 0x1A4 7])\<lparr>f_rd := [Some EIO]\<rparr>\<rparr>"
  let ?v = "quiet_svc (send_stream ''b'' 0x81A4 7 []) Map.empty"
  have num: "sint (0x81A4 :: u32) = 33188" by simp
  have "length (show_nat 10 33188) \<le> 5" by (rule show_nat_length) simp_all
  then have mode: "S_ISREG 0x81A4" "0 \<le> sint (0x81A4 :: u32)" "length (''b'' @ '','' @ fmt_d (sint (0x81A4 :: u32))) \<le> 1024"
    unfolding num by (simp_all add: S_ISREG_def fmt_d_def)
  have h: "list_all write_ok (fd_wr (sv_s ?h))" "f_fail (sv_fs ?h) = []" "f_rd (sv_fs ?h) = replicate 0 None @ Some EIO # []" "EIO \<noteq> EINTR"
    "f_nodes (sv_fs ?h) ''a'' = Some (Reg ''hello'' 0x1A4 7)"
    by (simp_all add: quiet_host_def quiet_svc_def quiet_fs_def svc.defs)
  have v: "CHR 0x00 \<notin> set ''b''" "calm_svc ?v" "is_dir (dir_of ''b'') (sv_fs ?v)" "dir_of ''b'' \<noteq> ''b''"
    by (simp_all add: is_dir_def dir_of_def strrchr_def)
  have nodir: "f_nodes (sv_fs ?v) ''b'' \<noteq> Some (Dir t)" for t by simp
  have ne: "syncmsg [ID_OKAY, 0] \<noteq> []" "send_stream ''b'' 0x81A4 7 [] \<noteq> []"
    by (simp_all add: syncmsg_def send_stream_def le32_def Let_def)
  obtain r h' where s: "sync_send (\<lambda>_. None) ''a'' ''b'' 7 0x81A4 False ?h = (r, h')" by fastforce
  obtain go_on v' where t: "service_step ?v = (go_on, v')" by fastforce
  obtain h1 where h1: "sync_send (\<lambda>_. None) ''a'' ''b'' 7 0x81A4 False ?h = send_status ''a'' ''b'' h1"
    "fd_out (sv_s h1) = fd_out (sv_s ?h) @ send_stream ''b'' 0x81A4 7 []"
    using unreadable_client [OF h mode(1), of "''b''" "\<lambda>_. None" 7] by (auto simp: pieces.simps)
  have out: "fd_out (sv_s h') = fd_out (sv_s ?h) @ pending_in (sv_s ?v)"
    using send_status_out [of "''a''" "''b''" h1] h1(2) ne(2) unfolding h1(1) [symmetric] s by simp
  have p: "pending_in (sv_s ?v) = send_stream ''b'' 0x81A4 7 []" using ne(2) by simp
  from push_service [OF v(2) p _ mode(3) v(1) mode(1,2) v(3,4) nodir] t ne(1)
  have reply: "fd_out (sv_s v') = fd_out (sv_s ?v) @ pending_in (sv_s ?h)" by auto
  from unreadable_file_push_succeeds [OF h mode v nodir s t out reply] s t show ?thesis by auto
qed

end
