(* ===== verification/SyncDir.thy ===== *)
theory SyncDir
  imports SyncPull
begin

text \<open>
  The commands of the file transfer client (the second half of src/tools/adb/file_sync_client.c): lists of
  files to copy, whole directories, and the commands ls, push, pull and sync. Whether \<open>adb_connect\<close>
  succeeded, the time that has passed and what an uninitialised \<open>struct stat\<close> holds are arguments.
  Memory allocation succeeds. Both list builders end: the local one because a path is at most
  \<open>PATH_MAX\<close> long, the remote one because every listing uses up input.
\<close>

subsection \<open>Statistics\<close>

definition BEGIN :: "host \<Rightarrow> host" where
  "BEGIN h = h\<lparr>h_total := 0\<rparr>"

definition END :: "nat \<Rightarrow> host \<Rightarrow> host" where
  "END t h =
     (if h_total h = 0 then h
      else
        let t = (if t = 0 then 1000000 else t); ms = show_nat 10 (t mod 1000000 div 1000)
        in say (show_nat 10 (unat (h_total h) * 1000000 div t div 1024) @ '' KB/s ('' @ fmt_d (sint (h_total h)) @ '' bytes in ''
             @ show_nat 10 (t div 1000000) @ ''.'' @ replicate (3 - length ms) (CHR ''0'') @ ms @ ''s)'') h)"

definition fmt_08x :: "u32 \<Rightarrow> string" where
  "fmt_08x w = fmt_x 8 (unat w)"

definition do_sync_ls_cb :: "dent \<Rightarrow> string" where
  "do_sync_ls_cb e = (case e of (mode, sz, time, name) \<Rightarrow> fmt_08x mode @ '' '' @ fmt_08x sz @ '' '' @ fmt_08x time @ '' '' @ name)"

text \<open>The result and the lines on standard output.\<close>

definition do_sync_ls :: "string option \<Rightarrow> string \<Rightarrow> host \<Rightarrow> int \<times> string list \<times> host" where
  "do_sync_ls conn path h =
     (case conn of
        Some reason \<Rightarrow> (1, [], say (''error: '' @ reason) h)
      | None \<Rightarrow>
          (case sync_ls path h of
             (r, es, h) \<Rightarrow> if r \<noteq> 0 then (1, map do_sync_ls_cb es, h) else (0, map do_sync_ls_cb es, sync_quit h)))"

subsection \<open>Lists of files\<close>

record copyinfo =
  ci_src :: string
  ci_dst :: string
  ci_time :: u32
  ci_mode :: u32
  ci_size :: u32
  ci_flag :: bool

definition mkcopyinfo :: "string \<Rightarrow> string \<Rightarrow> string \<Rightarrow> bool \<Rightarrow> copyinfo" where
  "mkcopyinfo spath dpath name isdir =
     (let ssize = length spath + length name + 2; dsize = length dpath + length name + 2; slash = (if isdir then ''/'' else [])
      in \<lparr>ci_src = snprintf ssize (spath @ name @ slash), ci_dst = snprintf dsize (dpath @ name @ slash),
          ci_time = 0, ci_mode = 0, ci_size = 0, ci_flag = False\<rparr>)"

lemma mkcopyinfo_simps [simp]:
  "ci_src (mkcopyinfo s d n b) = s @ n @ (if b then ''/'' else [])"
  "ci_dst (mkcopyinfo s d n b) = d @ n @ (if b then ''/'' else [])"
  by (simp_all add: mkcopyinfo_def snprintf_def Let_def)

definition is_dot :: "string \<Rightarrow> bool" where
  "is_dot name \<longleftrightarrow> name = ''.'' \<or> name = ''..''"

abbreviation PATH_MAX :: nat where "PATH_MAX \<equiv> 4096"

text \<open>
  The entries of one local directory. The result of \<open>stat\<close> is not looked at: when it fails, \<open>st\<close> still has
  what an earlier entry left there.
\<close>

fun local_scan :: "string \<Rightarrow> string \<Rightarrow> string list \<Rightarrow> stat \<Rightarrow> copyinfo list \<Rightarrow> copyinfo list \<Rightarrow> host
    \<Rightarrow> bool \<times> copyinfo list \<times> copyinfo list \<times> host" where
  "local_scan lpath rpath [] st dirs files h = (True, dirs, files, h)"
| "local_scan lpath rpath (name # names) st dirs files h =
     (if is_dot name \<or> PATH_MAX < length lpath + length name + 1 then local_scan lpath rpath names st dirs files h
      else
        let (r, h) = svc_sys (sys_stat (lpath @ name)) h; st = (case r of Some st \<Rightarrow> st | None \<Rightarrow> st)
        in if S_ISDIR (st_mode st) then local_scan lpath rpath names st (mkcopyinfo lpath rpath name True # dirs) files h
           else
             let ci = mkcopyinfo lpath rpath name False
             in case svc_sys (sys_lstat (ci_src ci)) h of
                  (None, h) \<Rightarrow> (False, dirs, files, say (''cannot stat '' @ quoted (ci_src ci) @ '': '' @ strerror (sv_errno h)) h)
                | (Some st, h) \<Rightarrow>
                    if \<not> S_ISREG (st_mode st) \<and> \<not> S_ISLNK (st_mode st)
                    then local_scan lpath rpath names st dirs files (say (''skipping special file '' @ quoted (ci_src ci)) h)
                    else local_scan lpath rpath names st dirs
                           (ci\<lparr>ci_time := st_mtime st, ci_mode := st_mode st, ci_size := st_size st\<rparr> # files) h)"

text \<open>The three ways in which an entry is dealt with.\<close>

lemma local_scan_cases:
  assumes "local_scan lpath rpath (name # names) st dirs files h = (ok, res)"
  obtains (skip) st' h' where "local_scan lpath rpath names st' dirs files h' = (ok, res)"
  | (dir) st' h' where "length lpath + length name + 1 \<le> PATH_MAX"
      "local_scan lpath rpath names st' (mkcopyinfo lpath rpath name True # dirs) files h' = (ok, res)"
  | (file_entry) st' h' where "local_scan lpath rpath names st' dirs
      (mkcopyinfo lpath rpath name False\<lparr>ci_time := st_mtime st', ci_mode := st_mode st', ci_size := st_size st'\<rparr> # files) h' = (ok, res)"
  | (stop) h' where "(ok, res) = (False, dirs, files, h')"
  using assms
  by (auto simp: Let_def split: if_splits prod.splits option.splits)

lemma local_scan_dirs:
  "local_scan lpath rpath names st dirs files h = (ok, dirs', res) \<Longrightarrow> d \<in> set dirs' \<Longrightarrow>
   d \<in> set dirs \<or> length lpath < length (ci_src d) \<and> length (ci_src d) \<le> PATH_MAX"
proof (induction names arbitrary: st dirs files h)
  case (Cons name names)
  from Cons.prems(1) show ?case
  proof (cases rule: local_scan_cases)
    case (dir st' h')
    then show ?thesis using Cons.IH [OF dir(2) Cons.prems(2)] by auto
  qed (use Cons in auto)
qed simp

function local_build_list :: "(string \<Rightarrow> stat) \<Rightarrow> copyinfo list \<Rightarrow> string \<Rightarrow> string \<Rightarrow> host \<Rightarrow> int \<times> copyinfo list \<times> host" where
  "local_build_list junk files lpath rpath h =
     (case svc_sys (sys_opendir lpath) h of
        (None, h) \<Rightarrow> (- 1, files, say (''cannot open '' @ quoted lpath @ '': '' @ strerror (sv_errno h)) h)
      | (Some names, h) \<Rightarrow>
          (case local_scan lpath rpath names (junk lpath) [] files h of
             (False, dirs, files, h) \<Rightarrow> (- 1, files, h)
           | (True, dirs, files, h) \<Rightarrow>
               (case fold (\<lambda>d (files, h). snd (local_build_list junk files (ci_src d) (ci_dst d) h)) dirs (files, h) of
                  (files, h) \<Rightarrow> (0, files, h))))"
  by pat_completeness auto
termination
proof (relation "measure (\<lambda>(_, _, lpath, _). PATH_MAX - length lpath)", goal_cases)
  case 2
  then show ?case by (auto dest: local_scan_dirs [OF sym])
qed simp

declare local_build_list.simps [simp del]

subsection \<open>Pushing a directory\<close>

definition with_slash :: "string \<Rightarrow> string" where
  "with_slash p = (if last p \<noteq> CHR ''/'' then snprintf (length p + 2) (p @ ''/'') else p)"

fun start_all :: "copyinfo list \<Rightarrow> host \<Rightarrow> bool \<times> host" where
  "start_all [] h = (True, h)"
| "start_all (ci # cs) h = (case sync_start_readtime (ci_dst ci) h of (r, h) \<Rightarrow> if r \<noteq> 0 then (False, h) else start_all cs h)"

text \<open>Whether a file counts as unchanged, from the time, mode and size that the device reports.\<close>

definition same_file :: "copyinfo \<Rightarrow> u32 \<times> u32 \<times> u32 \<Rightarrow> bool" where
  "same_file ci = (\<lambda>(timestamp, mode, sz).
     sz = ci_size ci \<and>
     (S_ISREG (ci_mode ci AND mode) \<and> timestamp = ci_time ci \<or> S_ISLNK (ci_mode ci AND mode) \<and> ci_time ci \<le> timestamp))"

fun finish_all :: "copyinfo list \<Rightarrow> host \<Rightarrow> copyinfo list option \<times> host" where
  "finish_all [] h = (Some [], h)"
| "finish_all (ci # cs) h =
     (case sync_finish_readtime h of
        (None, h) \<Rightarrow> (None, h)
      | (Some tms, h) \<Rightarrow>
          (case finish_all cs h of (r, h) \<Rightarrow> (map_option ((#) (if same_file ci tms then ci\<lparr>ci_flag := True\<rparr> else ci)) r, h)))"

fun push_all :: "bool \<Rightarrow> copyinfo list \<Rightarrow> nat \<Rightarrow> nat \<Rightarrow> host \<Rightarrow> (nat \<times> nat) option \<times> host" where
  "push_all listonly [] pushed skipped h = (Some (pushed, skipped), h)"
| "push_all listonly (ci # cs) pushed skipped h =
     (if ci_flag ci then push_all listonly cs pushed (skipped + 1) h
      else
        let h = say ((if listonly then ''would '' else []) @ ''push: '' @ ci_src ci @ '' -> '' @ ci_dst ci) h;
            (r, h) = (if listonly then (0, h) else sync_send (\<lambda>_. None) (ci_src ci) (ci_dst ci) (ci_time ci) (ci_mode ci) False h)
        in if r \<noteq> 0 then (None, h) else push_all listonly cs (pushed + 1) skipped h)"

definition counted :: "string \<Rightarrow> nat \<times> nat \<Rightarrow> string" where
  "counted what = (\<lambda>(n, skipped).
     show_nat 10 n @ '' file'' @ (if n = 1 then [] else ''s'') @ '' '' @ what @ ''. ''
     @ show_nat 10 skipped @ '' file'' @ (if skipped = 1 then [] else ''s'') @ '' skipped.'')"

definition copy_local_dir_remote :: "(string \<Rightarrow> stat) \<Rightarrow> string \<Rightarrow> string \<Rightarrow> bool \<Rightarrow> bool \<Rightarrow> host \<Rightarrow> int \<times> host" where
  "copy_local_dir_remote junk lpath rpath checktimestamps listonly h =
     (if lpath = [] \<or> rpath = [] then (- 1, h)
      else case local_build_list junk [] (with_slash lpath) (with_slash rpath) h of
        (r, filelist, h) \<Rightarrow>
          if r \<noteq> 0 then (- 1, h)
          else
            (case (if checktimestamps
                   then (case start_all filelist h of (False, h) \<Rightarrow> (None, h) | (True, h) \<Rightarrow> finish_all filelist h)
                   else (Some filelist, h)) of
               (None, h) \<Rightarrow> (1, h)
             | (Some filelist, h) \<Rightarrow>
                 (case push_all listonly filelist 0 0 h of
                    (None, h) \<Rightarrow> (1, h)
                  | (Some n, h) \<Rightarrow> (0, say (counted ''pushed'' n) h))))"

text \<open>A file copied into a directory gets the last part of its name there.\<close>

definition into_dir :: "string \<Rightarrow> string \<Rightarrow> string" where
  "into_dir dir path =
     (let name = (case strrchr (CHR ''/'') path of None \<Rightarrow> path | Some (_, name) \<Rightarrow> name)
      in snprintf (length name + length dir + 2) (dir @ ''/'' @ name))"

definition do_sync_push :: "(string \<Rightarrow> stat) \<Rightarrow> (byte list \<Rightarrow> bool option) \<Rightarrow> nat \<Rightarrow> string option \<Rightarrow> string \<Rightarrow> string \<Rightarrow> bool \<Rightarrow> host \<Rightarrow> int \<times> host" where
  "do_sync_push junk zipf t conn lpath rpath verifyApk h =
     (case conn of
        Some reason \<Rightarrow> (1, say (''error: '' @ reason) h)
      | None \<Rightarrow>
          (case svc_sys (sys_stat lpath) h of
             (None, h) \<Rightarrow> (1, sync_quit (say (''cannot stat '' @ quoted lpath @ '': '' @ strerror (sv_errno h)) h))
           | (Some st, h) \<Rightarrow>
               if S_ISDIR (st_mode st)
               then (case copy_local_dir_remote junk lpath rpath False False (BEGIN h) of
                       (r, h) \<Rightarrow> if r \<noteq> 0 then (1, h) else (0, sync_quit (END t h)))
               else
                 (case sync_readmode rpath h of
                    (None, h) \<Rightarrow> (1, h)
                  | (Some mode, h) \<Rightarrow>
                      let rpath = (if mode \<noteq> 0 \<and> S_ISDIR mode then into_dir rpath lpath else rpath)
                      in case sync_send zipf lpath rpath (st_mtime st) (st_mode st) verifyApk (BEGIN h) of
                           (r, h) \<Rightarrow> if r \<noteq> 0 then (1, h) else (0, sync_quit (END t h)))))"

definition do_sync_sync :: "(string \<Rightarrow> stat) \<Rightarrow> nat \<Rightarrow> string option \<Rightarrow> string \<Rightarrow> string \<Rightarrow> bool \<Rightarrow> host \<Rightarrow> int \<times> host" where
  "do_sync_sync junk t conn lpath rpath listonly h =
     (let h = say (''syncing '' @ rpath @ ''...'') h
      in case conn of
           Some reason \<Rightarrow> (1, say (''error: '' @ reason) h)
         | None \<Rightarrow>
             (case copy_local_dir_remote junk lpath rpath True listonly (BEGIN h) of
                (r, h) \<Rightarrow> if r \<noteq> 0 then (1, h) else (0, sync_quit (END t h))))"

subsection \<open>Pulling a directory\<close>

definition sync_ls_build_list_cb :: "string \<Rightarrow> string \<Rightarrow> dent \<Rightarrow> copyinfo list \<times> copyinfo list \<times> host \<Rightarrow> copyinfo list \<times> copyinfo list \<times> host" where
  "sync_ls_build_list_cb rpath lpath = (\<lambda>(mode, sz, time, name) (dirlist, filelist, h).
     if S_ISDIR mode
     then (if is_dot name then (dirlist, filelist, h) else (mkcopyinfo rpath lpath name True # dirlist, filelist, h))
     else if S_ISREG mode \<or> S_ISLNK mode
     then (dirlist, mkcopyinfo rpath lpath name False\<lparr>ci_time := time, ci_mode := mode, ci_size := sz\<rparr> # filelist, h)
     else (dirlist, filelist, say (''skipping special file '' @ quoted name) h))"

lemma ls_loop_left: "ls_loop h = (r, es, h') \<Longrightarrow> sv_left h' \<le> sv_left h \<and> (r = 0 \<longrightarrow> sv_left h' < sv_left h)"
proof (induction h arbitrary: r es h' rule: ls_loop.induct)
  case (1 h)
  obtain q h1 where s: "ls_step h = (q, h1)" by fastforce
  show ?case
  proof (cases q)
    case (Inr e)
    obtain r2 es2 h2 where l: "ls_loop h1 = (r2, es2, h2)" by (metis prod_cases3)
    from "1.IH" [OF s [symmetric] Inr l] ls_step_left [of h e h1] s Inr l "1.prems" show ?thesis
      by (auto simp: ls_loop.simps [of h])
  next
    case (Inl q')
    then have "(r, es, h') = (q', [], h1)" using s "1.prems" by (simp add: ls_loop.simps [of h])
    moreover have "sv_left h1 \<le> sv_left h \<and> (q' = 0 \<longrightarrow> sv_left h1 < sv_left h)"
      using s Inl unfolding ls_step_def
      by (auto simp: Let_def close_fd_def split: prod.splits option.splits if_splits dest!: svc_read_left read_int_left)
    ultimately show ?thesis by simp
  qed
qed

lemma send_req_left: "send_req cmd path h = (r, h') \<Longrightarrow> sv_left h' = sv_left h"
  by (auto simp: send_req_def split: prod.splits bool.splits dest!: left)

lemma sync_ls_left: "sync_ls path h = (0, es, h') \<Longrightarrow> sv_left h' < sv_left h"
  by (auto simp: sync_ls_def split: if_splits prod.splits bool.splits dest!: ls_loop_left send_req_left)

lemma build_list_cb_left:
  "fold (sync_ls_build_list_cb rpath lpath) es (dirs, files, h) = (dirs', files', h') \<Longrightarrow> sv_left h' = sv_left h"
proof (induction es arbitrary: dirs files h)
  case (Cons e es)
  obtain d f h1 where s: "sync_ls_build_list_cb rpath lpath e (dirs, files, h) = (d, f, h1)" by (metis prod_cases3)
  then have "sv_left h1 = sv_left h"
    by (auto simp: sync_ls_build_list_cb_def say_def split: prod.splits if_splits)
  then show ?case using Cons.IH [of d f h1] Cons.prems s by simp
qed simp

text \<open>
  The recursion into the directories found is depth first, and a failure ends it at every level, so the
  directories that are left form a stack.
\<close>

function remote_build_list :: "(string \<times> string) list \<Rightarrow> copyinfo list \<Rightarrow> host \<Rightarrow> int \<times> copyinfo list \<times> host" where
  "remote_build_list [] filelist h = (0, filelist, h)"
| "remote_build_list ((rpath, lpath) # todo) filelist h =
     (case sync_ls rpath h of
        (r, es, h) \<Rightarrow>
          (case fold (sync_ls_build_list_cb rpath lpath) es ([], filelist, h) of
             (dirlist, filelist, h) \<Rightarrow>
               if r \<noteq> 0 then (1, filelist, h)
               else remote_build_list (map (\<lambda>d. (ci_src d, ci_dst d)) dirlist @ todo) filelist h))"
  by pat_completeness auto
termination
  by (relation "measure (\<lambda>(_, _, h). sv_left h)") (auto dest!: sync_ls_left [OF sym] build_list_cb_left [OF sym])

declare remote_build_list.simps [simp del]

fun pull_all :: "copyinfo list \<Rightarrow> nat \<Rightarrow> nat \<Rightarrow> host \<Rightarrow> (nat \<times> nat) option \<times> host" where
  "pull_all [] pulled skipped h = (Some (pulled, skipped), h)"
| "pull_all (ci # cs) pulled skipped h =
     (if ci_flag ci then pull_all cs pulled (skipped + 1) h
      else case sync_recv (ci_src ci) (ci_dst ci) (say (''pull: '' @ ci_src ci @ '' -> '' @ ci_dst ci) h) of
             (r, h) \<Rightarrow> if r \<noteq> 0 then (None, h) else pull_all cs (pulled + 1) skipped h)"

definition copy_remote_dir_local :: "string \<Rightarrow> string \<Rightarrow> host \<Rightarrow> int \<times> host" where
  "copy_remote_dir_local rpath lpath h =
     (if rpath = [] \<or> lpath = [] then (- 1, h)
      else case remote_build_list [(with_slash rpath, with_slash lpath)] [] (say ''pull: building file list...'' h) of
        (r, filelist, h) \<Rightarrow>
          if r \<noteq> 0 then (- 1, h)
          else (case pull_all filelist 0 0 h of
                  (None, h) \<Rightarrow> (1, h)
                | (Some n, h) \<Rightarrow> (0, say (counted ''pulled'' n) h)))"

definition do_sync_pull :: "nat \<Rightarrow> string option \<Rightarrow> string \<Rightarrow> string \<Rightarrow> host \<Rightarrow> int \<times> host" where
  "do_sync_pull t conn rpath lpath h =
     (case conn of
        Some reason \<Rightarrow> (1, say (''error: '' @ reason) h)
      | None \<Rightarrow>
          (case sync_readmode rpath h of
             (None, h) \<Rightarrow> (1, h)
           | (Some mode, h) \<Rightarrow>
               if mode = 0 then (1, say (''remote object '' @ quoted rpath @ '' does not exist'') h)
               else if S_ISREG mode \<or> S_ISLNK mode \<or> S_ISCHR mode \<or> S_ISBLK mode
               then
                 (case svc_sys (sys_stat lpath) h of
                    (st, h) \<Rightarrow>
                      let lpath = (case st of Some st \<Rightarrow> (if S_ISDIR (st_mode st) then into_dir lpath rpath else lpath) | None \<Rightarrow> lpath)
                      in case sync_recv rpath lpath (BEGIN h) of
                           (r, h) \<Rightarrow> if r \<noteq> 0 then (1, h) else (0, sync_quit (END t h)))
               else if S_ISDIR mode
               then (case copy_remote_dir_local rpath lpath (BEGIN h) of
                       (r, h) \<Rightarrow> if r \<noteq> 0 then (1, h) else (0, sync_quit (END t h)))
               else (1, say (''remote object '' @ quoted rpath @ '' not a file or directory'') h)))"

subsection \<open>What the list of a local directory holds\<close>

text \<open>What \<open>stat\<close> finds, and the entries of a directory: links are followed to decide what is a directory.\<close>

definition stat_at :: "fsys \<Rightarrow> string \<Rightarrow> stat option" where
  "stat_at fs p = (case resolve 40 p fs of None \<Rightarrow> None | Some q \<Rightarrow> map_option stat_of (f_nodes fs q))"

definition visible :: "fsys \<Rightarrow> string \<Rightarrow> string \<Rightarrow> bool" where
  "visible fs lpath name \<longleftrightarrow> (\<exists>names. f_list fs lpath = Some names \<and> name \<in> set names)
     \<and> \<not> is_dot name \<and> length lpath + length name + 1 \<le> PATH_MAX"

definition is_subdir :: "fsys \<Rightarrow> string \<Rightarrow> bool" where
  "is_subdir fs p \<longleftrightarrow> (\<exists>st. stat_at fs p = Some st \<and> S_ISDIR (st_mode st))"

definition file_info :: "string \<Rightarrow> string \<Rightarrow> string \<Rightarrow> node \<Rightarrow> copyinfo" where
  "file_info lpath rpath name n =
     mkcopyinfo lpath rpath name False\<lparr>ci_time := st_mtime (stat_of n), ci_mode := st_mode (stat_of n), ci_size := st_size (stat_of n)\<rparr>"

definition copied :: "node \<Rightarrow> bool" where
  "copied n \<longleftrightarrow> S_ISREG (st_mode (stat_of n)) \<or> S_ISLNK (st_mode (stat_of n))"

inductive in_tree :: "fsys \<Rightarrow> string \<Rightarrow> string \<Rightarrow> copyinfo \<Rightarrow> bool" for fs where
  in_tree_here: "visible fs lpath name \<Longrightarrow> \<not> is_subdir fs (lpath @ name) \<Longrightarrow> f_nodes fs (lpath @ name) = Some n \<Longrightarrow> copied n
     \<Longrightarrow> in_tree fs lpath rpath (file_info lpath rpath name n)"
| in_tree_below: "visible fs lpath name \<Longrightarrow> is_subdir fs (lpath @ name) \<Longrightarrow> in_tree fs (lpath @ name @ ''/'') (rpath @ name @ ''/'') ci
     \<Longrightarrow> in_tree fs lpath rpath ci"

inductive_cases in_treeE: "in_tree fs lpath rpath ci"

text \<open>Every entry of every directory can be looked at: there are no links into nowhere.\<close>

definition no_dangling :: "fsys \<Rightarrow> bool" where
  "no_dangling fs \<longleftrightarrow> (\<forall>lpath name. visible fs lpath name \<longrightarrow> stat_at fs (lpath @ name) \<noteq> None \<and> f_nodes fs (lpath @ name) \<noteq> None)"

text \<open>Looking at files changes nothing that matters.\<close>

definition looked :: "fsys \<Rightarrow> host \<Rightarrow> bool" where
  "looked fs h \<longleftrightarrow> f_nodes (sv_fs h) = f_nodes fs \<and> f_list (sv_fs h) = f_list fs \<and> f_fail (sv_fs h) = []"

lemma resolve_nodes: "f_nodes fs = f_nodes fs' \<Longrightarrow> resolve n p fs = resolve n p fs'"
  by (induction n arbitrary: p) (simp_all split: option.splits node.splits)

lemma looked_say [simp]: "looked fs (say line h) = looked fs h"
  by (simp add: looked_def say_def)

lemma looked_stat:
  assumes "looked fs h" "stat_at fs p = Some st"
  shows "svc_sys (sys_stat p) h = (Some st, h)"
  using assms resolve_nodes [of "sv_fs h" fs 40 p]
  by (auto simp: svc_sys_def sys_stat_def sys_calm looked_def stat_at_def split: option.splits)

lemma looked_lstat:
  assumes "looked fs h" "f_nodes fs p = Some n"
  shows "svc_sys (sys_lstat p) h = (Some (stat_of n), h)"
  using assms by (auto simp: svc_sys_def sys_lstat_def sys_calm looked_def)

text \<open>One directory: what the scan adds to the two lists.\<close>

definition scan_dirs :: "fsys \<Rightarrow> string \<Rightarrow> string \<Rightarrow> string list \<Rightarrow> copyinfo set" where
  "scan_dirs fs lpath rpath names =
     {mkcopyinfo lpath rpath name True |name. name \<in> set names \<and> visible fs lpath name \<and> is_subdir fs (lpath @ name)}"

definition scan_files :: "fsys \<Rightarrow> string \<Rightarrow> string \<Rightarrow> string list \<Rightarrow> copyinfo set" where
  "scan_files fs lpath rpath names =
     {file_info lpath rpath name n |name n. name \<in> set names \<and> visible fs lpath name \<and> \<not> is_subdir fs (lpath @ name)
        \<and> f_nodes fs (lpath @ name) = Some n \<and> copied n}"

lemma scan_dirs_Cons: "scan_dirs fs lpath rpath (name # names) =
    (if visible fs lpath name \<and> is_subdir fs (lpath @ name) then {mkcopyinfo lpath rpath name True} else {}) \<union> scan_dirs fs lpath rpath names"
  by (auto simp: scan_dirs_def)

lemma scan_files_Cons: "f_nodes fs (lpath @ name) = Some n \<Longrightarrow> scan_files fs lpath rpath (name # names) =
    (if visible fs lpath name \<and> \<not> is_subdir fs (lpath @ name) \<and> copied n then {file_info lpath rpath name n} else {}) \<union> scan_files fs lpath rpath names"
  by (auto simp: scan_files_def)

lemma scan_files_skip: "\<not> visible fs lpath name \<Longrightarrow> scan_files fs lpath rpath (name # names) = scan_files fs lpath rpath names"
  by (auto simp: scan_files_def)

declare local_scan.simps(2) [simp del]

lemma local_scan_lists:
  assumes "looked fs h" "no_dangling fs" "f_list fs lpath = Some all" "set names \<subseteq> set all"
  shows "\<exists>dirs' files' h'. local_scan lpath rpath names st dirs files h = (True, dirs', files', h') \<and> looked fs h'
    \<and> set dirs' = set dirs \<union> scan_dirs fs lpath rpath names \<and> set files' = set files \<union> scan_files fs lpath rpath names"
  using assms(1,4)
proof (induction names arbitrary: st dirs files h)
  case Nil
  then show ?case by (simp add: scan_dirs_def scan_files_def)
next
  case (Cons name names)
  have IH: "\<exists>dirs' files' h'. local_scan lpath rpath names st dirs files h1 = (True, dirs', files', h') \<and> looked fs h'
    \<and> set dirs' = set dirs \<union> scan_dirs fs lpath rpath names \<and> set files' = set files \<union> scan_files fs lpath rpath names"
    if "looked fs h1" for st dirs files h1
    using Cons.IH [OF that, of st dirs files] Cons.prems(2) by simp
  show ?case
  proof (cases "visible fs lpath name")
    case False
    then have "is_dot name \<or> PATH_MAX < length lpath + length name + 1" using assms(3) Cons.prems(2) by (auto simp: visible_def)
    then have "local_scan lpath rpath (name # names) st dirs files h = local_scan lpath rpath names st dirs files h"
      by (auto simp: local_scan.simps(2))
    with IH [OF Cons.prems(1), of st dirs files] False show ?thesis by (simp add: scan_dirs_Cons scan_files_skip)
  next
    case vis: True
    then have ok: "\<not> (is_dot name \<or> PATH_MAX < length lpath + length name + 1)" by (auto simp: visible_def)
    obtain st1 n where st1: "stat_at fs (lpath @ name) = Some st1" and n: "f_nodes fs (lpath @ name) = Some n"
      using assms(2) vis by (fastforce simp: no_dangling_def)
    note s = looked_stat [OF Cons.prems(1) st1] and l = looked_lstat [OF Cons.prems(1) n]
    have sub: "is_subdir fs (lpath @ name) \<longleftrightarrow> S_ISDIR (st_mode st1)" using st1 by (simp add: is_subdir_def)
    note sets = scan_dirs_Cons scan_files_Cons [OF n] sub vis
    consider (dir) "S_ISDIR (st_mode st1)" | (copy) "\<not> S_ISDIR (st_mode st1)" "copied n" | (special) "\<not> S_ISDIR (st_mode st1)" "\<not> copied n" by blast
    then show ?thesis
    proof cases
      case dir
      then have "local_scan lpath rpath (name # names) st dirs files h = local_scan lpath rpath names st1 (mkcopyinfo lpath rpath name True # dirs) files h"
        using ok s by (auto simp: local_scan.simps(2))
      with IH [OF Cons.prems(1), of st1 "mkcopyinfo lpath rpath name True # dirs" files] dir show ?thesis by (simp add: sets)
    next
      case copy
      then have "local_scan lpath rpath (name # names) st dirs files h = local_scan lpath rpath names (stat_of n) dirs (file_info lpath rpath name n # files) h"
        using ok s l by (auto simp: local_scan.simps(2) copied_def file_info_def Let_def)
      with IH [OF Cons.prems(1), of "stat_of n" dirs "file_info lpath rpath name n # files"] copy show ?thesis by (simp add: sets)
    next
      case special
      have h1: "looked fs (say (''skipping special file '' @ quoted (lpath @ name)) h)" using Cons.prems(1) by simp
      have "local_scan lpath rpath (name # names) st dirs files h
        = local_scan lpath rpath names (stat_of n) dirs files (say (''skipping special file '' @ quoted (lpath @ name)) h)"
        using special ok s l by (auto simp: local_scan.simps(2) copied_def Let_def simp del: append.simps)
      with IH [OF h1, of "stat_of n" dirs files] special show ?thesis by (simp add: sets)
    qed
  qed
qed

text \<open>The whole tree.\<close>

definition tree_files :: "fsys \<Rightarrow> string \<Rightarrow> string \<Rightarrow> copyinfo set" where
  "tree_files fs lpath rpath = {ci. in_tree fs lpath rpath ci}"

lemma tree_files_step:
  assumes "f_list fs lpath = Some names"
  shows "tree_files fs lpath rpath = scan_files fs lpath rpath names \<union> (\<Union>d \<in> scan_dirs fs lpath rpath names. tree_files fs (ci_src d) (ci_dst d))"
proof -
  have v: "name \<in> set names \<and> visible fs lpath name \<and> P \<longleftrightarrow> visible fs lpath name \<and> P" for name P
    using assms by (auto simp: visible_def)
  have "in_tree fs lpath rpath ci \<longleftrightarrow>
      (\<exists>name n. ci = file_info lpath rpath name n \<and> visible fs lpath name \<and> \<not> is_subdir fs (lpath @ name)
         \<and> f_nodes fs (lpath @ name) = Some n \<and> copied n)
    \<or> (\<exists>name. visible fs lpath name \<and> is_subdir fs (lpath @ name) \<and> in_tree fs (lpath @ name @ ''/'') (rpath @ name @ ''/'') ci)" for ci
    by (subst in_tree.simps) auto
  moreover have "(\<Union>d \<in> {mkcopyinfo lpath rpath name True |name. Q name}. {ci. in_tree fs (ci_src d) (ci_dst d) ci})
      = {ci. \<exists>name. Q name \<and> in_tree fs (lpath @ name @ ''/'') (rpath @ name @ ''/'') ci}" for Q
    by (fastforce simp del: append.simps)
  ultimately show ?thesis
    unfolding tree_files_def scan_files_def scan_dirs_def v by auto
qed

lemma tree_files_none: "f_list fs lpath = None \<Longrightarrow> tree_files fs lpath rpath = {}"
  by (auto simp: tree_files_def visible_def elim: in_treeE)

lemma looked_opendir:
  assumes "looked fs h"
  obtains h' where "svc_sys (sys_opendir p) h = (f_list fs p, h')" "looked fs h'"
proof (cases "f_list fs p")
  case None
  then have "svc_sys (sys_opendir p) h = (f_list fs p, h\<lparr>sv_fs := (sv_fs h)\<lparr>f_errno := ENOENT\<rparr>\<rparr>)"
    using assms by (simp add: svc_sys_def sys_opendir_def sys_calm looked_def)
  then show ?thesis by (rule that) (use assms in \<open>simp add: looked_def\<close>)
next
  case (Some names)
  then have "svc_sys (sys_opendir p) h = (f_list fs p, h)"
    using assms by (simp add: svc_sys_def sys_opendir_def sys_calm looked_def)
  then show ?thesis using assms by (rule that)
qed

lemma local_build_list_files:
  assumes "looked fs h" "no_dangling fs"
  shows "\<exists>r files' h'. local_build_list junk files lpath rpath h = (r, files', h') \<and> looked fs h' \<and> set files' = set files \<union> tree_files fs lpath rpath
    \<and> (r = 0 \<longleftrightarrow> f_list fs lpath \<noteq> None)"
  using assms(1)
proof (induction "PATH_MAX - length lpath" arbitrary: files lpath rpath h rule: less_induct)
  case less
  obtain h1 where h1: "svc_sys (sys_opendir lpath) h = (f_list fs lpath, h1)" "looked fs h1" using less.prems by (rule looked_opendir)
  show ?case
  proof (cases "f_list fs lpath")
    case None
    then show ?thesis using h1 by (simp add: local_build_list.simps [of junk files lpath] tree_files_none)
  next
    case (Some names)
    from local_scan_lists [OF h1(2) assms(2) Some subset_refl, of rpath "junk lpath" "[]" files]
    obtain dirs files1 h2 where sc: "local_scan lpath rpath names (junk lpath) [] files h1 = (True, dirs, files1, h2)" "looked fs h2"
      "set dirs = scan_dirs fs lpath rpath names" "set files1 = set files \<union> scan_files fs lpath rpath names" by auto
    let ?f = "\<lambda>d (files, h). snd (local_build_list junk files (ci_src d) (ci_dst d) h)"
    have rec: "\<exists>files' h'. fold ?f ds (fl, h) = (files', h') \<and> looked fs h' \<and> set files' = set fl \<union> (\<Union>d \<in> set ds. tree_files fs (ci_src d) (ci_dst d))"
      if "set ds \<subseteq> set dirs" "looked fs h" for ds fl h
      using that
    proof (induction ds arbitrary: fl h)
      case (Cons d ds)
      have "PATH_MAX - length (ci_src d) < PATH_MAX - length lpath"
        using local_scan_dirs [OF sc(1), of d] Cons.prems(1) by auto
      from less.hyps [OF this Cons.prems(2), of fl "ci_dst d"]
      obtain r1 fl1 g1 where r1: "local_build_list junk fl (ci_src d) (ci_dst d) h = (r1, fl1, g1)" "looked fs g1"
        "set fl1 = set fl \<union> tree_files fs (ci_src d) (ci_dst d)" by blast
      from Cons.IH [OF _ r1(2), of fl1] Cons.prems(1) r1 show ?case by auto
    qed simp
    from rec [OF subset_refl sc(2), of files1]
    obtain files' h' where f: "fold ?f dirs (files1, h2) = (files', h')" "looked fs h'"
      "set files' = set files1 \<union> (\<Union>d \<in> set dirs. tree_files fs (ci_src d) (ci_dst d))" by blast
    have "local_build_list junk files lpath rpath h = (0, files', h')"
      using h1(1) Some sc(1) f(1) by (simp add: local_build_list.simps [of junk files lpath])
    then show ?thesis using f(2,3) sc(3,4) Some tree_files_step [OF Some, of rpath] by auto
  qed
qed

text \<open>
  A link that leads nowhere is taken for a directory when a directory comes just before it, because \<open>st\<close>
  still has that directory's mode: it is not pushed, and the result is a success.
\<close>

lemma dangling_link_lost:
  assumes "calm_svc h" "\<not> is_dot d" "\<not> is_dot l" "length (lpath @ d) < PATH_MAX" "length (lpath @ l) < PATH_MAX"
    and "f_list (sv_fs h) lpath = Some [d, l]" "f_list (sv_fs h) (lpath @ d @ ''/'') = Some []" "f_list (sv_fs h) (lpath @ l @ ''/'') = None"
    and "f_nodes (sv_fs h) (lpath @ d) = Some (Dir t)" "stat_at (sv_fs h) (lpath @ l) = None"
  shows "\<exists>h'. local_build_list junk [] lpath rpath h = (0, [], h')"
proof -
  have lk: "looked (sv_fs h) h" using assms(1) by (simp add: looked_def calm_svc_def calm_def)
  have "resolve 40 (lpath @ d) (sv_fs h) = Some (lpath @ d)" using assms(9) by (simp add: resolve_self40)
  then have "stat_at (sv_fs h) (lpath @ d) = Some (stat_of (Dir t))" using assms(9) by (simp add: stat_at_def)
  note sd = looked_stat [OF lk this]
  obtain h1 where h1: "svc_sys (sys_opendir lpath) h = (Some [d, l], h1)" "looked (sv_fs h) h1"
    using looked_opendir [OF lk, of lpath] assms(6) by metis
  have h1h: "h1 = h" using h1(1) assms(6) lk by (simp add: svc_sys_def sys_opendir_def sys_calm looked_def)
  obtain h2 where h2: "svc_sys (sys_stat (lpath @ l)) h = (None, h2)" "looked (sv_fs h) h2"
    using assms(10) lk by (auto simp: svc_sys_def sys_stat_def sys_calm looked_def stat_at_def split: option.splits)
  let ?D = "mkcopyinfo lpath rpath d True" and ?L = "mkcopyinfo lpath rpath l True"
  have "local_scan lpath rpath [d, l] (junk lpath) [] [] h = (True, [?L, ?D], [], h2)"
    using assms(2-5) sd h2(1) by (simp add: local_scan.simps(2) S_ISDIR_def)
  moreover have "\<exists>h3. local_build_list junk [] p r g = (- 1, [], h3) \<and> looked (sv_fs h) h3"
    if g: "looked (sv_fs h) g" "f_list (sv_fs h) p = None" for p r g
  proof -
    obtain g' where "svc_sys (sys_opendir p) g = (None, g')" "looked (sv_fs h) g'" using looked_opendir [OF g(1), of p] g(2) by metis
    then show ?thesis by (simp add: local_build_list.simps [of junk "[]" p])
  qed
  then obtain h3 where h3: "local_build_list junk [] (lpath @ l @ ''/'') (rpath @ l @ ''/'') h2 = (- 1, [], h3)" "looked (sv_fs h) h3"
    using h2(2) assms(8) by blast
  moreover have "\<exists>h4. local_build_list junk [] p r g = (0, [], h4)"
    if g: "looked (sv_fs h) g" "f_list (sv_fs h) p = Some []" for p r g
  proof -
    obtain g' where "svc_sys (sys_opendir p) g = (Some [], g')" using looked_opendir [OF g(1), of p] g(2) by metis
    then show ?thesis by (simp add: local_build_list.simps [of junk "[]" p])
  qed
  then obtain h4 where h4: "local_build_list junk [] (lpath @ d @ ''/'') (rpath @ d @ ''/'') h3 = (0, [], h4)"
    using h3(2) assms(7) by blast
  ultimately show ?thesis using h1(1) h1h h4 by (simp add: local_build_list.simps [of junk "[]" lpath])
qed

text \<open>
  C40: The list of files to push. The tree below a directory has the entries of the directory itself and
  those of every directory in it, where a link to a directory counts as that directory: it is followed,
  and it is not an entry of its own. On a file system on which no call fails and no link leads nowhere,
  \<open>local_build_list\<close> succeeds with exactly the regular files and the other links (those to files) of
  the tree, each with its path on both sides, its mode, size and time; special files and what is deeper
  than \<open>PATH_MAX\<close> are left out. For links that lead nowhere this is false: one that comes right after a
  directory is left out, and the call succeeds.
\<close>

theorem local_list_complete:
  assumes "calm_svc h"
  shows "(no_dangling (sv_fs h) \<and> f_list (sv_fs h) lpath \<noteq> None \<longrightarrow>
      (\<exists>files h'. local_build_list junk [] lpath rpath h = (0, files, h')
        \<and> (\<forall>ci. ci \<in> set files \<longleftrightarrow> in_tree (sv_fs h) lpath rpath ci) \<and> f_nodes (sv_fs h') = f_nodes (sv_fs h)))
    \<and> (\<forall>d l t target t'. f_list (sv_fs h) lpath = Some [d, l] \<and> \<not> is_dot d \<and> \<not> is_dot l
        \<and> length (lpath @ d) < PATH_MAX \<and> length (lpath @ l) < PATH_MAX
        \<and> f_nodes (sv_fs h) (lpath @ d) = Some (Dir t) \<and> f_list (sv_fs h) (lpath @ d @ ''/'') = Some []
        \<and> f_nodes (sv_fs h) (lpath @ l) = Some (Lnk target t') \<and> stat_at (sv_fs h) (lpath @ l) = None
        \<and> f_list (sv_fs h) (lpath @ l @ ''/'') = None \<longrightarrow>
        (\<exists>h'. local_build_list junk [] lpath rpath h = (0, [], h')))"
proof (intro conjI impI allI; elim conjE)
  assume a: "no_dangling (sv_fs h)" "f_list (sv_fs h) lpath \<noteq> None"
  have "looked (sv_fs h) h" using assms(1) by (simp add: looked_def calm_svc_def calm_def)
  from local_build_list_files [OF this a(1), of junk "[]" lpath rpath] a(2)
  show "\<exists>files h'. local_build_list junk [] lpath rpath h = (0, files, h')
      \<and> (\<forall>ci. ci \<in> set files \<longleftrightarrow> in_tree (sv_fs h) lpath rpath ci) \<and> f_nodes (sv_fs h') = f_nodes (sv_fs h)"
    by (auto simp: tree_files_def looked_def)
next
  fix d l t target t'
  assume "f_list (sv_fs h) lpath = Some [d, l]" "\<not> is_dot d" "\<not> is_dot l"
    "length (lpath @ d) < PATH_MAX" "length (lpath @ l) < PATH_MAX"
    "f_nodes (sv_fs h) (lpath @ d) = Some (Dir t)" "f_list (sv_fs h) (lpath @ d @ ''/'') = Some []"
    "stat_at (sv_fs h) (lpath @ l) = None" "f_list (sv_fs h) (lpath @ l @ ''/'') = None"
  then show "\<exists>h'. local_build_list junk [] lpath rpath h = (0, [], h')"
    by (intro dangling_link_lost [OF assms])
qed

theorem local_list_complete_witness:
  "\<exists>files h'. local_build_list (\<lambda>_. stat_of (Dir 0)) [] ''d/'' ''r/''
      ((quiet_host [] Map.empty)\<lparr>sv_fs := (quiet_fs [''d'' \<mapsto> Dir 0, ''d/a'' \<mapsto> Reg ''hello'' 0x1A4 7])\<lparr>f_list := [''d/'' \<mapsto> [''.'', ''..'', ''a'']]\<rparr>\<rparr>)
      = (0, files, h')
     \<and> file_info ''d/'' ''r/'' ''a'' (Reg ''hello'' 0x1A4 7) \<in> set files"
proof -
  let ?fs = "(quiet_fs [''d'' \<mapsto> Dir 0, ''d/a'' \<mapsto> Reg ''hello'' 0x1A4 7])\<lparr>f_list := [''d/'' \<mapsto> [''.'', ''..'', ''a'']]\<rparr>"
  let ?h = "(quiet_host [] Map.empty)\<lparr>sv_fs := ?fs\<rparr>"
  have n: "f_nodes ?fs = [''d'' \<mapsto> Dir 0, ''d/a'' \<mapsto> Reg ''hello'' 0x1A4 7]" "f_list ?fs = [''d/'' \<mapsto> [''.'', ''..'', ''a'']]"
    by (simp_all add: quiet_fs_def)
  have vis: "visible ?fs lpath name \<longleftrightarrow> lpath = ''d/'' \<and> name = ''a''" for lpath name
    unfolding visible_def n by (auto simp: is_dot_def)
  have st: "stat_at ?fs ''d/a'' = Some (stat_of (Reg ''hello'' 0x1A4 7))" using n(1) by (simp add: stat_at_def resolve_self40)
  have nd: "no_dangling ?fs" unfolding no_dangling_def vis using st n(1) by simp
  have sub: "\<not> is_subdir ?fs ''d/a''" using st by (simp add: is_subdir_def S_ISDIR_def)
  have fsh: "sv_fs ?h = ?fs" by simp
  have calm: "calm_svc ?h" by (simp add: calm_svc_def calm_def quiet_host_def quiet_svc_def quiet_fs_def svc.defs)
  have "in_tree ?fs ''d/'' ''r/'' (file_info ''d/'' ''r/'' ''a'' (Reg ''hello'' 0x1A4 7))"
    by (rule in_tree_here) (use vis sub n(1) in \<open>simp_all add: copied_def S_ISREG_def\<close>)
  with local_list_complete [OF calm, of "''d/''" "\<lambda>_. stat_of (Dir 0)" "''r/''"] nd n(2) show ?thesis unfolding fsh by auto
qed

subsection \<open>A decision that goes wrong\<close>

text \<open>
  A file is skipped by sync when size and type agree, and the times are equal, or for links the time on
  the device is not earlier. The types are compared by a bitwise and, in which a link and a regular file
  give a regular file: a link is skipped when the device has a regular file of its size and time.
\<close>

lemma same_file_decision:
  assumes "S_ISREG (ci_mode ci) \<or> S_ISLNK (ci_mode ci)" "S_ISREG mode \<or> S_ISLNK mode"
  shows "same_file ci (timestamp, mode, sz) \<longleftrightarrow> sz = ci_size ci \<and>
    (if S_ISLNK (ci_mode ci) \<and> S_ISLNK mode then ci_time ci \<le> timestamp else timestamp = ci_time ci)"
proof -
  have "(ci_mode ci AND mode) AND S_IFMT = (ci_mode ci AND S_IFMT) AND (mode AND S_IFMT)"
    by (simp add: and.assoc and.left_commute)
  then show ?thesis using assms by (auto simp: same_file_def mode_defs)
qed

end
