(* ===== verification/Fdevent.thy ===== *)
theory Fdevent
  imports Dlink
begin

text \<open>
  The event loop (src/tools/adb/fdevent.c, the variant on \<open>select\<close>). Objects live at addresses; the pending
  ones are chained in a ring of Dlink around \<open>list_pending\<close>, with null as address 0. The three sets of
  descriptors have 1024 bits, and an access past them is an error, as is the use of an object that is not
  there. Memory allocation succeeds; what \<open>realloc\<close> leaves in the part of the table that \<open>memset\<close> does
  not clear is an argument, and so are the results of \<open>select\<close> and what the callbacks do.
\<close>

subsection \<open>State\<close>

abbreviation FDE_READ :: u16 where "FDE_READ \<equiv> 1"
abbreviation FDE_WRITE :: u16 where "FDE_WRITE \<equiv> 2"
abbreviation FDE_ERROR :: u16 where "FDE_ERROR \<equiv> 4"
abbreviation FDE_DONT_CLOSE :: u16 where "FDE_DONT_CLOSE \<equiv> 0x80"
abbreviation FDE_EVENTMASK :: u16 where "FDE_EVENTMASK \<equiv> 0xff"
abbreviation FDE_STATEMASK :: u16 where "FDE_STATEMASK \<equiv> 0xff00"
abbreviation FDE_ACTIVE :: u16 where "FDE_ACTIVE \<equiv> 0x100"
abbreviation FDE_PENDING :: u16 where "FDE_PENDING \<equiv> 0x200"
abbreviation FDE_CREATED :: u16 where "FDE_CREATED \<equiv> 0x400"

record fde =
  e_fd :: int
  e_state :: u16
  e_events :: u16
  e_func :: nat

definition has :: "u16 \<Rightarrow> fde \<Rightarrow> bool" where
  "has flag e \<longleftrightarrow> e_state e AND flag \<noteq> 0"

record evs =
  ev_fdes :: "nat \<rightharpoonup> fde"
  ev_links :: links
  ev_table :: "nat option list"
  ev_read :: "nat list"
  ev_write :: "nat list"
  ev_error :: "nat list"
  ev_n :: nat
  ev_closed :: "int list"

datatype ev_err = Fatal string | Crash | Overrun

abbreviation list_pending :: nat where "list_pending \<equiv> 1"

abbreviation FD_SETSIZE :: nat where "FD_SETSIZE \<equiv> 1024"

definition events_init :: evs where
  "events_init = \<lparr>ev_fdes = Map.empty, ev_links = ring_init list_pending \<lparr>nx = (\<lambda>_. 0), pv = (\<lambda>_. 0)\<rparr>, ev_table = [],
     ev_read = [], ev_write = [], ev_error = [], ev_n = 0, ev_closed = []\<rparr>"

definition get_fde :: "nat \<Rightarrow> evs \<Rightarrow> ev_err + fde" where
  "get_fde a w = (case ev_fdes w a of None \<Rightarrow> Inl Crash | Some e \<Rightarrow> Inr e)"

definition put_fde :: "nat \<Rightarrow> fde \<Rightarrow> evs \<Rightarrow> evs" where
  "put_fde a e w = w\<lparr>ev_fdes := (ev_fdes w)(a \<mapsto> e)\<rparr>"

text \<open>A set of descriptors is the list of its members.\<close>

definition fd_set :: "bool \<Rightarrow> int \<Rightarrow> nat list \<Rightarrow> ev_err + nat list" where
  "fd_set on fd s =
     (if fd < 0 \<or> int FD_SETSIZE \<le> fd then Inl Overrun
      else Inr ((if on then [nat fd] else []) @ filter (\<lambda>i. i \<noteq> nat fd) s))"

subsection \<open>The set of descriptors that are watched\<close>

definition fdevent_init :: "evs \<Rightarrow> evs" where
  "fdevent_init w = w\<lparr>ev_read := [], ev_write := [], ev_error := []\<rparr>"

definition fdevent_connect :: "nat \<Rightarrow> evs \<Rightarrow> ev_err + evs" where
  "fdevent_connect a w =
     andthen (get_fde a w) (\<lambda>e. Inr (if int (ev_n w) \<le> e_fd e then w\<lparr>ev_n := nat (e_fd e + 1)\<rparr> else w))"

definition clear_fds :: "int \<Rightarrow> evs \<Rightarrow> ev_err + evs" where
  "clear_fds fd w =
     andthen (fd_set False fd (ev_read w)) (\<lambda>r. andthen (fd_set False fd (ev_write w)) (\<lambda>wr.
       andthen (fd_set False fd (ev_error w)) (\<lambda>er. Inr (w\<lparr>ev_read := r, ev_write := wr, ev_error := er\<rparr>))))"

text \<open>The largest index below \<open>select_n\<close> with an entry, or 0.\<close>

definition last_used :: "nat option list \<Rightarrow> nat \<Rightarrow> nat" where
  "last_used table n = foldl (\<lambda>m i. if table ! i \<noteq> None then i else m) 0 [0..<n]"

definition fdevent_disconnect :: "nat \<Rightarrow> evs \<Rightarrow> ev_err + evs" where
  "fdevent_disconnect a w =
     andthen (get_fde a w) (\<lambda>e. andthen (clear_fds (e_fd e) w) (\<lambda>w.
       if length (ev_table w) < ev_n w then Inl Crash
       else Inr (w\<lparr>ev_n := last_used (ev_table w) (ev_n w) + 1\<rparr>)))"

definition fdevent_update :: "nat \<Rightarrow> u16 \<Rightarrow> evs \<Rightarrow> ev_err + evs" where
  "fdevent_update a events w =
     andthen (get_fde a w) (\<lambda>e.
       andthen (fd_set (events AND FDE_READ \<noteq> 0) (e_fd e) (ev_read w)) (\<lambda>r.
         andthen (fd_set (events AND FDE_WRITE \<noteq> 0) (e_fd e) (ev_write w)) (\<lambda>wr.
           andthen (fd_set (events AND FDE_ERROR \<noteq> 0) (e_fd e) (ev_error w)) (\<lambda>er.
             Inr (put_fde a (e\<lparr>e_state := (e_state e AND FDE_STATEMASK) OR events\<rparr>) (w\<lparr>ev_read := r, ev_write := wr, ev_error := er\<rparr>))))))"

subsection \<open>The list of pending objects\<close>

definition fdevent_plist_enqueue :: "nat \<Rightarrow> links \<Rightarrow> links" where
  "fdevent_plist_enqueue node L =
     (let L = L\<lparr>nx := (nx L)(node := list_pending)\<rparr>;
          L = L\<lparr>pv := (pv L)(node := pv L list_pending)\<rparr>;
          L = L\<lparr>nx := (nx L)(pv L node := node)\<rparr>
      in L\<lparr>pv := (pv L)(list_pending := node)\<rparr>)"

definition clear_links :: "nat \<Rightarrow> links \<Rightarrow> links" where
  "clear_links node L = L\<lparr>nx := (nx L)(node := 0), pv := (pv L)(node := 0)\<rparr>"

definition fdevent_plist_remove :: "nat \<Rightarrow> links \<Rightarrow> links" where
  "fdevent_plist_remove node L = clear_links node (ring_unlink node L)"

definition fdevent_plist_dequeue :: "links \<Rightarrow> nat option \<times> links" where
  "fdevent_plist_dequeue L =
     (let node = nx L list_pending
      in if node = list_pending then (None, L)
         else
           let L = L\<lparr>nx := (nx L)(list_pending := nx L node)\<rparr>;
               L = L\<lparr>pv := (pv L)(nx L list_pending := list_pending)\<rparr>
           in (Some node, clear_links node L))"

subsection \<open>Waiting for events\<close>

text \<open>What \<open>select\<close> returned: an error, or a count and three sets.\<close>

type_synonym selected = "(int \<times> nat list \<times> nat list \<times> nat list) option"

definition ready_events :: "nat \<Rightarrow> nat list \<Rightarrow> nat list \<Rightarrow> nat list \<Rightarrow> u16" where
  "ready_events i r w e =
     (if i \<in> set r then FDE_READ else 0) OR (if i \<in> set w then FDE_WRITE else 0) OR (if i \<in> set e then FDE_ERROR else 0)"

fun process_loop :: "nat list \<Rightarrow> int \<Rightarrow> nat list \<times> nat list \<times> nat list \<Rightarrow> evs \<Rightarrow> ev_err + evs" where
  "process_loop [] n sets w = Inr w"
| "process_loop (i # is) n (rfd, wfd, efd) w =
     (if n \<le> 0 then Inr w
      else if FD_SETSIZE \<le> i then Inl Overrun
      else
        let events = ready_events i rfd wfd efd
        in if events = 0 then process_loop is n (rfd, wfd, efd) w
           else if length (ev_table w) \<le> i then Inl Crash
           else case ev_table w ! i of
             None \<Rightarrow> Inl (Fatal ''missing fde for fd'')
           | Some a \<Rightarrow>
               andthen (get_fde a w) (\<lambda>e.
                 let e = e\<lparr>e_events := e_events e OR events\<rparr>
                 in if has FDE_PENDING e then process_loop is (n - 1) (rfd, wfd, efd) (put_fde a e w)
                    else
                      let e = e\<lparr>e_state := e_state e OR FDE_PENDING\<rparr>; w = put_fde a e w
                      in process_loop is (n - 1) (rfd, wfd, efd) (w\<lparr>ev_links := fdevent_plist_enqueue a (ev_links w)\<rparr>)))"

definition fdevent_process :: "selected \<Rightarrow> evs \<Rightarrow> ev_err + evs" where
  "fdevent_process sel w =
     (case sel of
        None \<Rightarrow> Inr w
      | Some (n, sets) \<Rightarrow> process_loop [0..<ev_n w] n sets w)"

subsection \<open>Registering\<close>

function grow_max :: "nat \<Rightarrow> nat \<Rightarrow> nat" where
  "grow_max m fd = (if m = 0 \<or> fd < m then m else grow_max (m * 2) fd)"
  by pat_completeness auto
termination
  by (relation "measure (\<lambda>(m, fd). Suc fd - m)") auto

declare grow_max.simps [simp del]

text \<open>
  \<open>memset\<close> clears \<open>sizeof(int)\<close> bytes for every new entry, and an entry has \<open>ptr\<close> bytes; the others keep
  what \<open>realloc\<close> found there.
\<close>

definition new_entries :: "nat \<Rightarrow> (nat \<Rightarrow> nat option) \<Rightarrow> nat \<Rightarrow> nat \<Rightarrow> nat option list" where
  "new_entries ptr junk oldmax newmax =
     map (\<lambda>i. if (i - oldmax + 1) * ptr \<le> 4 * (newmax - oldmax) then None else junk i) [oldmax..<newmax]"

text \<open>\<open>grown\<close> is what \<open>realloc\<close> finds in the new memory, None when it fails.\<close>

definition fdevent_register :: "nat \<Rightarrow> (nat \<Rightarrow> nat option) option \<Rightarrow> nat \<Rightarrow> evs \<Rightarrow> ev_err + evs" where
  "fdevent_register ptr grown a w =
     andthen (get_fde a w) (\<lambda>e.
       if e_fd e < 0 then Inl (Fatal ''bogus negative fd'')
       else
         let fd = nat (e_fd e); oldmax = length (ev_table w)
         in if oldmax \<le> fd \<and> 32000 < fd then Inl (Fatal ''bogus huuuuge fd'')
            else
              andthen (if oldmax \<le> fd
                       then
                         let (w, m) = (if oldmax = 0 then (fdevent_init w, 256) else (w, oldmax)); m = grow_max m fd
                         in case grown of
                              None \<Rightarrow> Inl (Fatal ''could not expand fd_table'')
                            | Some junk \<Rightarrow> Inr (w\<lparr>ev_table := ev_table w @ new_entries ptr junk oldmax m\<rparr>)
                       else Inr w)
                (\<lambda>w. Inr (w\<lparr>ev_table := (ev_table w)[fd := Some a]\<rparr>)))"

definition fdevent_unregister :: "nat \<Rightarrow> evs \<Rightarrow> ev_err + evs" where
  "fdevent_unregister a w =
     andthen (get_fde a w) (\<lambda>e.
       if e_fd e < 0 \<or> int (length (ev_table w)) \<le> e_fd e then Inl (Fatal ''fd out of range'')
       else if ev_table w ! nat (e_fd e) \<noteq> Some a then Inl (Fatal ''fd_table out of sync'')
       else
         let w = w\<lparr>ev_table := (ev_table w)[nat (e_fd e) := None]\<rparr>
         in Inr (if has FDE_DONT_CLOSE e then w else w\<lparr>ev_closed := ev_closed w @ [e_fd e]\<rparr>))"

subsection \<open>Operations\<close>

definition fdevent_install :: "nat \<Rightarrow> (nat \<Rightarrow> nat option) option \<Rightarrow> nat \<Rightarrow> int \<Rightarrow> nat \<Rightarrow> evs \<Rightarrow> ev_err + evs" where
  "fdevent_install ptr grown a fd func w =
     (let w = put_fde a \<lparr>e_fd = fd, e_state = FDE_ACTIVE, e_events = 0, e_func = func\<rparr> (w\<lparr>ev_links := clear_links a (ev_links w)\<rparr>)
      in andthen (fdevent_register ptr grown a w) (\<lambda>w. andthen (fdevent_connect a w) (\<lambda>w.
           andthen (get_fde a w) (\<lambda>e. Inr (put_fde a (e\<lparr>e_state := e_state e OR FDE_ACTIVE\<rparr>) w)))))"

text \<open>\<open>a\<close> is the address that \<open>malloc\<close> returns, or 0.\<close>

definition fdevent_create :: "nat \<Rightarrow> (nat \<Rightarrow> nat option) option \<Rightarrow> nat \<Rightarrow> int \<Rightarrow> nat \<Rightarrow> evs \<Rightarrow> ev_err + evs" where
  "fdevent_create ptr grown a fd func w =
     (if a = 0 then Inr w
      else andthen (fdevent_install ptr grown a fd func w) (\<lambda>w.
        andthen (get_fde a w) (\<lambda>e. Inr (put_fde a (e\<lparr>e_state := e_state e OR FDE_CREATED\<rparr>) w))))"

definition fdevent_remove :: "nat \<Rightarrow> evs \<Rightarrow> ev_err + evs" where
  "fdevent_remove a w =
     andthen (get_fde a w) (\<lambda>e.
       let w = (if has FDE_PENDING e then w\<lparr>ev_links := fdevent_plist_remove a (ev_links w)\<rparr> else w)
       in andthen (if has FDE_ACTIVE e then andthen (fdevent_disconnect a w) (fdevent_unregister a) else Inr w) (\<lambda>w.
            Inr (put_fde a (e\<lparr>e_state := 0, e_events := 0\<rparr>) w)))"

definition fdevent_destroy :: "nat \<Rightarrow> evs \<Rightarrow> ev_err + evs" where
  "fdevent_destroy a w =
     (if a = 0 then Inr w
      else andthen (get_fde a w) (\<lambda>e.
        if \<not> has FDE_CREATED e then Inl (Fatal ''not created by fdevent_create()'') else fdevent_remove a w))"

definition fdevent_set :: "nat \<Rightarrow> u16 \<Rightarrow> evs \<Rightarrow> ev_err + evs" where
  "fdevent_set a events w =
     (let events = events AND FDE_EVENTMASK
      in andthen (get_fde a w) (\<lambda>e.
           if e_state e AND FDE_EVENTMASK = events then Inr w
           else andthen (if has FDE_ACTIVE e then fdevent_update a events w else Inr w) (\<lambda>w.
             let e = e\<lparr>e_state := (e_state e AND FDE_STATEMASK) OR events\<rparr>
             in if has FDE_PENDING e
                then
                  let e = e\<lparr>e_events := e_events e AND NOT events\<rparr>
                  in if e_events e = 0
                     then Inr (put_fde a (e\<lparr>e_state := e_state e AND NOT FDE_PENDING\<rparr>) (w\<lparr>ev_links := fdevent_plist_remove a (ev_links w)\<rparr>))
                     else Inr (put_fde a e w)
                else Inr (put_fde a e w))))"

definition fdevent_add :: "nat \<Rightarrow> u16 \<Rightarrow> evs \<Rightarrow> ev_err + evs" where
  "fdevent_add a events w =
     andthen (get_fde a w) (\<lambda>e. fdevent_set a ((e_state e AND FDE_EVENTMASK) OR (events AND FDE_EVENTMASK)) w)"

definition fdevent_del :: "nat \<Rightarrow> u16 \<Rightarrow> evs \<Rightarrow> ev_err + evs" where
  "fdevent_del a events w =
     andthen (get_fde a w) (\<lambda>e. fdevent_set a ((e_state e AND FDE_EVENTMASK) AND NOT (events AND FDE_EVENTMASK)) w)"

text \<open>The next callback of the loop: the function, the descriptor and the events, or none.\<close>

definition dispatch :: "evs \<Rightarrow> ev_err + (nat \<times> int \<times> u16) option \<times> evs" where
  "dispatch w =
     (case fdevent_plist_dequeue (ev_links w) of
        (None, L) \<Rightarrow> Inr (None, w)
      | (Some a, L) \<Rightarrow>
          andthen (get_fde a w) (\<lambda>e.
            Inr (Some (e_func e, e_fd e, e_events e),
                 put_fde a (e\<lparr>e_events := 0, e_state := e_state e AND NOT FDE_PENDING\<rparr>) (w\<lparr>ev_links := L\<rparr>))))"

text \<open>
  The callbacks that one round makes, in order; what a callback does is the argument \<open>handler\<close>. The fuel
  bounds their number.
\<close>

fun run_pending :: "nat \<Rightarrow> (nat \<Rightarrow> int \<Rightarrow> u16 \<Rightarrow> evs \<Rightarrow> ev_err + evs) \<Rightarrow> evs \<Rightarrow> (ev_err + (nat \<times> int \<times> u16) list \<times> evs) option" where
  "run_pending 0 handler w = None"
| "run_pending (Suc k) handler w =
     (case dispatch w of
        Inl e \<Rightarrow> Some (Inl e)
      | Inr (None, w) \<Rightarrow> Some (Inr ([], w))
      | Inr (Some (f, fd, ev), w) \<Rightarrow>
          (case handler f fd ev w of
             Inl e \<Rightarrow> Some (Inl e)
           | Inr w \<Rightarrow> map_option (map_sum id (apfst ((#) (f, fd, ev)))) (run_pending k handler w)))"

definition loop_round :: "nat \<Rightarrow> (nat \<Rightarrow> int \<Rightarrow> u16 \<Rightarrow> evs \<Rightarrow> ev_err + evs) \<Rightarrow> selected \<Rightarrow> evs \<Rightarrow> (ev_err + (nat \<times> int \<times> u16) list \<times> evs) option" where
  "loop_round fuel handler sel w = (case fdevent_process sel w of Inl e \<Rightarrow> Some (Inl e) | Inr w \<Rightarrow> run_pending fuel handler w)"

text \<open>Some rounds of \<open>fdevent_loop\<close>; every result of \<open>select\<close> depends on what is watched at that time.\<close>

fun fdevent_loop :: "nat \<Rightarrow> (nat \<Rightarrow> int \<Rightarrow> u16 \<Rightarrow> evs \<Rightarrow> ev_err + evs) \<Rightarrow> (evs \<Rightarrow> selected) list \<Rightarrow> evs \<Rightarrow> (ev_err + evs) option" where
  "fdevent_loop fuel handler [] w = Some (Inr w)"
| "fdevent_loop fuel handler (sel # sels) w =
     (case loop_round fuel handler (sel w) w of
        None \<Rightarrow> None
      | Some (Inl e) \<Rightarrow> Some (Inl e)
      | Some (Inr (_, w)) \<Rightarrow> fdevent_loop fuel handler sels w)"

subsection \<open>Clients\<close>

text \<open>
  The calls that the rest of adb makes. A client installs an object on a descriptor that no active object
  has, does not install an active object again, and uses only objects that exist. \<open>malloc\<close> returns 0 or
  the address of fresh memory; \<open>realloc\<close> of the table succeeds.
\<close>

datatype ev_call = Ev_install nat nat nat | Ev_create nat nat nat | Ev_destroy nat | Ev_remove nat
  | Ev_set nat u16 | Ev_add nat u16 | Ev_del nat u16

fun target :: "ev_call \<Rightarrow> nat" where
  "target (Ev_install a fd f) = a"
| "target (Ev_create a fd f) = a"
| "target (Ev_destroy a) = a"
| "target (Ev_remove a) = a"
| "target (Ev_set a ev) = a"
| "target (Ev_add a ev) = a"
| "target (Ev_del a ev) = a"

fun ev_exec :: "nat \<Rightarrow> (nat \<Rightarrow> nat option) \<Rightarrow> ev_call \<Rightarrow> evs \<Rightarrow> ev_err + evs" where
  "ev_exec ptr junk (Ev_install a fd f) w = fdevent_install ptr (Some junk) a (int fd) f w"
| "ev_exec ptr junk (Ev_create a fd f) w = fdevent_create ptr (Some junk) a (int fd) f w"
| "ev_exec ptr junk (Ev_destroy a) w = fdevent_destroy a w"
| "ev_exec ptr junk (Ev_remove a) w = fdevent_remove a w"
| "ev_exec ptr junk (Ev_set a ev) w = fdevent_set a ev w"
| "ev_exec ptr junk (Ev_add a ev) w = fdevent_add a ev w"
| "ev_exec ptr junk (Ev_del a ev) w = fdevent_del a ev w"

definition idle :: "nat \<Rightarrow> evs \<Rightarrow> bool" where
  "idle a w = (case ev_fdes w a of None \<Rightarrow> True | Some e \<Rightarrow> \<not> has FDE_ACTIVE e)"

definition fd_free :: "nat \<Rightarrow> evs \<Rightarrow> bool" where
  "fd_free fd w \<longleftrightarrow> fd < FD_SETSIZE \<and> (fd < length (ev_table w) \<longrightarrow> (case ev_table w ! fd of None \<Rightarrow> True | Some a \<Rightarrow> idle a w))"

fun valid_call :: "evs \<Rightarrow> ev_call \<Rightarrow> bool" where
  "valid_call w (Ev_install a fd f) \<longleftrightarrow> 1 < a \<and> fd_free fd w \<and> idle a w"
| "valid_call w (Ev_create a fd f) \<longleftrightarrow> a = 0 \<or> 1 < a \<and> fd_free fd w \<and> ev_fdes w a = None"
| "valid_call w (Ev_destroy a) \<longleftrightarrow> a = 0 \<or> (case ev_fdes w a of None \<Rightarrow> False | Some e \<Rightarrow> has FDE_CREATED e)"
| "valid_call w (Ev_remove a) \<longleftrightarrow> ev_fdes w a \<noteq> None"
| "valid_call w (Ev_set a ev) \<longleftrightarrow> ev_fdes w a \<noteq> None"
| "valid_call w (Ev_add a ev) \<longleftrightarrow> ev_fdes w a \<noteq> None"
| "valid_call w (Ev_del a ev) \<longleftrightarrow> ev_fdes w a \<noteq> None"

text \<open>The calls of a script, as far as they are valid when they are made.\<close>

fun run_calls :: "nat \<Rightarrow> (nat \<Rightarrow> nat option) \<Rightarrow> ev_call list \<Rightarrow> evs \<Rightarrow> ev_err + evs" where
  "run_calls ptr junk [] w = Inr w"
| "run_calls ptr junk (c # cs) w = andthen (if valid_call w c then ev_exec ptr junk c w else Inr w) (run_calls ptr junk cs)"

subsection \<open>Flags and pointers\<close>

lemma has_bits: "has FDE_ACTIVE e \<longleftrightarrow> bit (e_state e) 8" "has FDE_PENDING e \<longleftrightarrow> bit (e_state e) 9" "has FDE_CREATED e \<longleftrightarrow> bit (e_state e) 10"
  using and_exp_eq_0_iff_not_bit [of "e_state e" 8] and_exp_eq_0_iff_not_bit [of "e_state e" 9] and_exp_eq_0_iff_not_bit [of "e_state e" 10]
  by (simp_all add: has_def)

lemma state_bits [simp]:
  fixes s ev :: u16
  shows "bit ((s AND FDE_STATEMASK) OR (ev AND FDE_EVENTMASK)) 8 \<longleftrightarrow> bit s 8"
    "bit ((s AND FDE_STATEMASK) OR (ev AND FDE_EVENTMASK)) 9 \<longleftrightarrow> bit s 9"
    "bit (s AND - 513) 8 \<longleftrightarrow> bit s 8" "\<not> bit (s AND - 513) 9"
    "bit (s OR FDE_PENDING) 8 \<longleftrightarrow> bit s 8" "bit (s OR FDE_PENDING) 9" "bit (s OR FDE_ACTIVE) 8" "bit (s OR FDE_ACTIVE) 9 \<longleftrightarrow> bit s 9"
    "bit (s OR FDE_CREATED) 8 \<longleftrightarrow> bit s 8" "bit (s OR FDE_CREATED) 9 \<longleftrightarrow> bit s 9"
  by (simp_all add: bit_simps)

lemma enqueue_refines:
  assumes "ring list_pending P L" "a \<notin> set (list_pending # P)"
  shows "ring list_pending (P @ [a]) (fdevent_plist_enqueue a L)"
proof -
  have "pv L list_pending \<noteq> a" using assms by (cases P rule: rev_cases) (auto simp: ring_def)
  then have "fdevent_plist_enqueue a L = ring_insert list_pending a L"
    using assms(2) by (simp add: fdevent_plist_enqueue_def ring_insert_nx_pv)
  then show ?thesis using ring_insert_refines [OF assms] by simp
qed

lemma clear_links_ring: "ring h P L \<Longrightarrow> a \<notin> set (h # P) \<Longrightarrow> ring h P (clear_links a L)"
  unfolding ring_def clear_links_def by (auto intro: path_cong)

lemma remove_refines:
  assumes "ring list_pending P L" "a \<in> set P"
  shows "ring list_pending (remove1 a P) (fdevent_plist_remove a L)"
proof -
  obtain xs ys where P: "P = xs @ a # ys" "a \<notin> set xs" using assms(2) by (meson split_list_first)
  have "ring list_pending (xs @ ys) (ring_unlink a L)" using assms(1) P by (simp add: ring_unlink_refines)
  moreover have "a \<notin> set (list_pending # xs @ ys)" using assms(1) P by (auto simp: ring_def)
  ultimately have "ring list_pending (xs @ ys) (clear_links a (ring_unlink a L))" by (rule clear_links_ring)
  then show ?thesis using P by (simp add: fdevent_plist_remove_def remove1_append)
qed

lemma dequeue_refines:
  "ring list_pending [] L \<Longrightarrow> fdevent_plist_dequeue L = (None, L)"
  "ring list_pending (a # P) L \<Longrightarrow> \<exists>L'. fdevent_plist_dequeue L = (Some a, L') \<and> ring list_pending P L'"
proof -
  show "ring list_pending [] L \<Longrightarrow> fdevent_plist_dequeue L = (None, L)" by (simp add: ring_def fdevent_plist_dequeue_def)
  assume r: "ring list_pending (a # P) L"
  then have a: "nx L list_pending = a" "a \<noteq> list_pending" "pv L a = list_pending" "a \<notin> set (list_pending # P)" by (auto simp: ring_def)
  have "ring list_pending P (ring_unlink a L)" using ring_unlink_refines [of list_pending "[]" a P L] r by simp
  from clear_links_ring [OF this a(4)] a(1-3) show "\<exists>L'. fdevent_plist_dequeue L = (Some a, L') \<and> ring list_pending P L'"
    by (simp add: fdevent_plist_dequeue_def ring_unlink_def Let_def)
qed

subsection \<open>The invariant\<close>

text \<open>
  The objects in the list are those with the pending flag, which are active. An active object is in the
  table at its descriptor, below \<open>select_n\<close>. Only descriptors of active objects are watched. Other entries
  of the table may hold anything.
\<close>

definition active :: "evs \<Rightarrow> nat \<Rightarrow> nat \<Rightarrow> bool" where
  "active w a i \<longleftrightarrow> (\<exists>e. ev_fdes w a = Some e \<and> has FDE_ACTIVE e \<and> e_fd e = int i)"

definition pending :: "evs \<Rightarrow> nat \<Rightarrow> bool" where
  "pending w a \<longleftrightarrow> (\<exists>e. ev_fdes w a = Some e \<and> has FDE_PENDING e)"

abbreviation watched :: "evs \<Rightarrow> nat set" where
  "watched w \<equiv> set (ev_read w) \<union> set (ev_write w) \<union> set (ev_error w)"

definition fdes_ok :: "evs \<Rightarrow> bool" where
  "fdes_ok w \<longleftrightarrow> (\<forall>a e. ev_fdes w a = Some e \<longrightarrow> 1 < a \<and> (has FDE_PENDING e \<longrightarrow> has FDE_ACTIVE e)
     \<and> (\<not> has FDE_PENDING e \<longrightarrow> e_events e = 0) \<and> (has FDE_ACTIVE e \<longrightarrow> 0 \<le> e_fd e))"

definition table_ok :: "evs \<Rightarrow> bool" where
  "table_ok w \<longleftrightarrow> ev_n w \<le> length (ev_table w) \<and> ev_n w \<le> FD_SETSIZE \<and> (\<forall>a i. active w a i \<longrightarrow> i < ev_n w \<and> ev_table w ! i = Some a)"

definition ev_ok :: "nat list \<Rightarrow> evs \<Rightarrow> bool" where
  "ev_ok P w \<longleftrightarrow> ring list_pending P (ev_links w) \<and> (\<forall>a. a \<in> set P \<longleftrightarrow> pending w a) \<and> fdes_ok w \<and> table_ok w
     \<and> (\<forall>i \<in> watched w. \<exists>a. active w a i)"

lemma ev_okD:
  assumes "ev_ok P w"
  shows "ring list_pending P (ev_links w)" "a \<in> set P \<longleftrightarrow> pending w a" "fdes_ok w" "table_ok w" "i \<in> watched w \<Longrightarrow> \<exists>a. active w a i"
  using assms by (auto simp: ev_ok_def)

lemma events_init_ok: "ev_ok [] events_init"
  by (simp add: ev_ok_def events_init_def ring_init_empty pending_def active_def fdes_ok_def table_ok_def)

text \<open>Changing an object that keeps its descriptor and whether it is active.\<close>

definition same_entry :: "fde \<Rightarrow> fde \<Rightarrow> bool" where
  "same_entry e e' \<longleftrightarrow> e_fd e' = e_fd e \<and> (has FDE_ACTIVE e' \<longleftrightarrow> has FDE_ACTIVE e)"

lemma active_put_same:
  assumes "ev_fdes w a = Some e" "same_entry e e'"
  shows "active (put_fde a e' w) = active w"
  using assms by (intro ext) (auto simp: active_def put_fde_def same_entry_def)

lemma put_fde_simps [simp]:
  "ev_links (put_fde a e w) = ev_links w" "ev_table (put_fde a e w) = ev_table w" "ev_n (put_fde a e w) = ev_n w"
  "ev_read (put_fde a e w) = ev_read w" "ev_write (put_fde a e w) = ev_write w" "ev_error (put_fde a e w) = ev_error w"
  "ev_fdes (put_fde a e w) = (ev_fdes w)(a \<mapsto> e)" "put_fde a e (put_fde a e2 w) = put_fde a e w"
  by (simp_all add: put_fde_def)

lemma active_cong: "ev_fdes w' = ev_fdes w \<Longrightarrow> active w' = active w" "ev_fdes w' = ev_fdes w \<Longrightarrow> pending w' = pending w"
  by (simp_all add: active_def pending_def fun_eq_iff)

lemma ev_ok_put:
  assumes "ev_ok P w" "ev_fdes w a = Some e" "same_entry e e'" "if has FDE_PENDING e' then has FDE_ACTIVE e else e_events e' = 0"
    and "ring list_pending P' L" "set P' = (if has FDE_PENDING e' then insert a (set P) else set P - {a})"
  shows "ev_ok P' (put_fde a e' (w\<lparr>ev_links := L\<rparr>))"
proof -
  let ?w = "put_fde a e' (w\<lparr>ev_links := L\<rparr>)"
  have act: "active ?w = active w"
    using active_put_same [of "w\<lparr>ev_links := L\<rparr>" a e e'] assms(2,3) active_cong [of "w\<lparr>ev_links := L\<rparr>" w] by simp
  have pend: "pending ?w b \<longleftrightarrow> (if b = a then has FDE_PENDING e' else pending w b)" for b by (simp add: pending_def)
  have "b \<in> set P' \<longleftrightarrow> pending ?w b" for b
    unfolding pend assms(6) using ev_okD(2) [OF assms(1)] by auto
  moreover have "fdes_ok ?w" using ev_okD(3) [OF assms(1)] assms(2-4) by (auto simp: fdes_ok_def same_entry_def split: if_splits)
  moreover have "table_ok ?w" using ev_okD(4) [OF assms(1)] by (simp add: table_ok_def act)
  ultimately show ?thesis using assms(1,5) unfolding ev_ok_def act by simp
qed

subsection \<open>Each operation keeps it\<close>

lemma grow_max_bound: "0 < m \<Longrightarrow> fd < grow_max m fd \<and> m \<le> grow_max m fd"
proof (induction m fd rule: grow_max.induct)
  case (1 m fd)
  then show ?case by (cases "fd < m") (simp_all add: grow_max.simps [of m fd])
qed

text \<open>What registering does: the table is long enough, has the new entry and keeps the old ones.\<close>

definition registers :: "nat \<Rightarrow> nat \<Rightarrow> evs \<Rightarrow> evs \<Rightarrow> bool" where
  "registers a fd w w' \<longleftrightarrow> ev_fdes w' = ev_fdes w \<and> ev_links w' = ev_links w \<and> ev_n w' = ev_n w
     \<and> watched w' \<subseteq> watched w \<and> fd < length (ev_table w') \<and> length (ev_table w) \<le> length (ev_table w')
     \<and> (\<forall>i < length (ev_table w). i \<noteq> fd \<longrightarrow> ev_table w' ! i = ev_table w ! i) \<and> ev_table w' ! fd = Some a"

lemma fdevent_register_ok:
  assumes "ev_fdes w a = Some e" "e_fd e = int fd" "fd \<le> 32000"
  shows "\<exists>w'. fdevent_register ptr (Some junk) a w = Inr w' \<and> registers a fd w w'"
proof (cases "length (ev_table w) \<le> fd")
  case True
  define m where "m = grow_max (if length (ev_table w) = 0 then 256 else length (ev_table w)) fd"
  have m: "fd < m" "length (ev_table w) \<le> m" unfolding m_def using grow_max_bound [of 256 fd] grow_max_bound [of "length (ev_table w)" fd] by auto
  let ?t = "ev_table w @ new_entries ptr junk (length (ev_table w)) m"
  have len: "length ?t = m" using m by (simp add: new_entries_def)
  let ?w = "(if length (ev_table w) = 0 then fdevent_init w else w)\<lparr>ev_table := ?t[fd := Some a]\<rparr>"
  have "fdevent_register ptr (Some junk) a w = Inr ?w"
    using assms True by (simp add: fdevent_register_def get_fde_def m_def fdevent_init_def Let_def)
  moreover have "registers a fd w ?w"
    unfolding registers_def using m len True by (auto simp: fdevent_init_def nth_append nth_list_update)
  ultimately show ?thesis by blast
next
  case False
  then show ?thesis using assms by (auto simp: fdevent_register_def get_fde_def registers_def Let_def nth_list_update)
qed

lemma fdevent_install_ok:
  assumes "ev_ok P w" "1 < a" "fd < FD_SETSIZE" "\<And>b. \<not> active w b fd" "\<And>i. \<not> active w a i"
  shows "\<exists>w'. fdevent_install ptr (Some junk) a (int fd) func w = Inr w' \<and> ev_ok P w' \<and> (\<exists>e. ev_fdes w' a = Some e \<and> has FDE_ACTIVE e \<and> \<not> has FDE_PENDING e)
    \<and> (\<forall>b. b \<noteq> a \<longrightarrow> ev_fdes w' b = ev_fdes w b)"
proof -
  let ?e = "\<lparr>e_fd = int fd, e_state = FDE_ACTIVE, e_events = 0, e_func = func\<rparr>"
  let ?w = "put_fde a ?e (w\<lparr>ev_links := clear_links a (ev_links w)\<rparr>)"
  have e: "has FDE_ACTIVE ?e" "\<not> has FDE_PENDING ?e" by (simp_all add: has_def)
  obtain w1 where w1: "fdevent_register ptr (Some junk) a ?w = Inr w1" "registers a fd ?w w1"
    using fdevent_register_ok [of ?w a ?e fd ptr junk] assms(3) by auto
  define w2 where "w2 = (if ev_n w1 \<le> fd then w1\<lparr>ev_n := fd + 1\<rparr> else w1)"
  have f1: "ev_fdes w1 = (ev_fdes w)(a \<mapsto> ?e)" "ev_n w1 = ev_n w" "ev_links w1 = clear_links a (ev_links w)" using w1(2) by (simp_all add: registers_def)
  then have f2: "ev_fdes w2 = (ev_fdes w)(a \<mapsto> ?e)" "ev_n w2 = max (ev_n w) (fd + 1)" "ev_links w2 = clear_links a (ev_links w)"
    "ev_table w2 = ev_table w1" "watched w2 = watched w1" by (auto simp: w2_def)
  have "fdevent_connect a w1 = Inr w2" using f1 by (simp add: fdevent_connect_def get_fde_def w2_def nat_add_distrib)
  moreover have "put_fde a ?e w2 = w2" using f2(1) by (simp add: put_fde_def fun_upd_idem)
  ultimately have inst: "fdevent_install ptr (Some junk) a (int fd) func w = Inr w2"
    using w1(1) f2(1) by (simp add: fdevent_install_def get_fde_def Let_def)
  have np: "\<not> pending w a" using ev_okD(3) [OF assms(1)] assms(5) unfolding pending_def fdes_ok_def active_def by (metis nonneg_int_cases)
  have act: "active w2 b i \<longleftrightarrow> (if b = a then i = fd else active w b i)" for b i
    using f2(1) e(1) by (auto simp: active_def)
  have pend: "pending w2 b \<longleftrightarrow> pending w b" for b using f2(1) e(2) np by (auto simp: pending_def)
  have tab: "table_ok w2"
  proof -
    have old: "b \<noteq> a \<Longrightarrow> active w b i \<Longrightarrow> i \<noteq> fd \<and> i < ev_n w \<and> i < length (ev_table w) \<and> ev_table w ! i = Some b" for b i
      using ev_okD(4) [OF assms(1)] assms(4) unfolding table_ok_def by fastforce
    show ?thesis
      using ev_okD(4) [OF assms(1)] assms(3) w1(2) f2(2,4) unfolding table_ok_def act registers_def
      by (auto simp: less_max_iff_disj dest: old)
  qed
  have "ring list_pending P (ev_links w2)"
    using clear_links_ring [OF ev_okD(1) [OF assms(1)], of a] ev_okD(2) [OF assms(1)] np assms(2) f2(3) by auto
  moreover have "fdes_ok w2" using ev_okD(3) [OF assms(1)] assms(2) f2(1) e by (auto simp: fdes_ok_def)
  moreover have "\<forall>i \<in> watched w2. \<exists>b. active w2 b i"
  proof
    fix i assume "i \<in> watched w2"
    then have "i \<in> watched w" using w1(2) f2(5) by (auto simp: registers_def)
    then obtain b where "active w b i" using ev_okD(5) [OF assms(1)] by blast
    then show "\<exists>b. active w2 b i" using assms(5) unfolding act by metis
  qed
  ultimately have "ev_ok P w2" unfolding ev_ok_def pend using tab ev_okD(2) [OF assms(1)] by blast
  then show ?thesis using inst f2(1) e by auto
qed

text \<open>The largest used index, and the sets of descriptors.\<close>

lemma last_used_Suc: "last_used t (Suc n) = (if t ! n \<noteq> None then n else last_used t n)"
  by (simp add: last_used_def)

lemma last_used_bound: "0 < n \<Longrightarrow> last_used t n < n"
proof (induction n)
  case (Suc n)
  then show ?case by (cases "n = 0") (auto simp: last_used_Suc, auto simp: last_used_def)
qed simp

lemma last_used_max: "i < n \<Longrightarrow> t ! i \<noteq> None \<Longrightarrow> i \<le> last_used t n"
proof (induction n)
  case (Suc n)
  then show ?case by (cases "i = n") (auto simp: last_used_Suc less_Suc_eq)
qed simp

lemma fd_set_ok: "fd < FD_SETSIZE \<Longrightarrow> \<exists>s'. fd_set on (int fd) s = Inr s' \<and> set s' = (if on then insert fd (set s) else set s - {fd})"
  by (auto simp: fd_set_def)

lemma clear_fds_ok:
  assumes "fd < FD_SETSIZE"
  shows "\<exists>r wr er. clear_fds (int fd) w = Inr (w\<lparr>ev_read := r, ev_write := wr, ev_error := er\<rparr>)
    \<and> set r = set (ev_read w) - {fd} \<and> set wr = set (ev_write w) - {fd} \<and> set er = set (ev_error w) - {fd}"
proof -
  obtain r where "fd_set False (int fd) (ev_read w) = Inr r" "set r = set (ev_read w) - {fd}" using fd_set_ok [OF assms, of False "ev_read w"] by auto
  moreover obtain wr where "fd_set False (int fd) (ev_write w) = Inr wr" "set wr = set (ev_write w) - {fd}" using fd_set_ok [OF assms, of False "ev_write w"] by auto
  moreover obtain er where "fd_set False (int fd) (ev_error w) = Inr er" "set er = set (ev_error w) - {fd}" using fd_set_ok [OF assms, of False "ev_error w"] by auto
  ultimately show ?thesis by (intro exI [of _ r] exI [of _ wr] exI [of _ er]) (simp add: clear_fds_def)
qed

text \<open>Taking an active object out of the table.\<close>

lemma take_out:
  assumes "table_ok w" "active w a fd" "ev_fdes w a = Some e"
  shows "\<exists>w'. andthen (fdevent_disconnect a w) (fdevent_unregister a) = Inr w' \<and> ev_fdes w' = ev_fdes w \<and> ev_links w' = ev_links w
    \<and> watched w' = watched w - {fd} \<and> ev_table w' = (ev_table w)[fd := None] \<and> ev_n w' \<le> ev_n w
    \<and> (\<forall>b i. active w b i \<longrightarrow> i < ev_n w')"
proof -
  have t: "fd < ev_n w" "ev_n w \<le> length (ev_table w)" "ev_n w \<le> FD_SETSIZE" "ev_table w ! fd = Some a" and e: "e_fd e = int fd"
    using assms by (auto simp: table_ok_def active_def)
  obtain r wr er where c: "clear_fds (int fd) w = Inr (w\<lparr>ev_read := r, ev_write := wr, ev_error := er\<rparr>)"
    "set r = set (ev_read w) - {fd}" "set wr = set (ev_write w) - {fd}" "set er = set (ev_error w) - {fd}"
    using clear_fds_ok [of fd w] t by auto
  let ?w = "w\<lparr>ev_read := r, ev_write := wr, ev_error := er, ev_n := last_used (ev_table w) (ev_n w) + 1\<rparr>"
  have d: "fdevent_disconnect a w = Inr ?w" using assms(3) e c(1) t(2) by (simp add: fdevent_disconnect_def get_fde_def)
  let ?u = "?w\<lparr>ev_table := (ev_table w)[fd := None]\<rparr>"
  have u: "fdevent_unregister a ?w = Inr (if has FDE_DONT_CLOSE e then ?u else ?u\<lparr>ev_closed := ev_closed w @ [e_fd e]\<rparr>)"
    using assms(3) e t by (simp add: fdevent_unregister_def get_fde_def Let_def)
  have n: "last_used (ev_table w) (ev_n w) + 1 \<le> ev_n w" using last_used_bound [of "ev_n w" "ev_table w"] t(1) by simp
  have "active w b i \<Longrightarrow> i < last_used (ev_table w) (ev_n w) + 1" for b i
    using last_used_max [of i "ev_n w" "ev_table w"] assms(1) by (fastforce simp: table_ok_def)
  then show ?thesis unfolding d andthen_simps u using c(2-4) n by auto
qed

lemma remove_from_table:
  assumes "ev_ok P w" "ev_fdes w a = Some e" "e' = e\<lparr>e_state := 0, e_events := 0\<rparr>"
  shows "\<exists>w'. (if has FDE_ACTIVE e then andthen (fdevent_disconnect a (w\<lparr>ev_links := L\<rparr>)) (fdevent_unregister a) else Inr (w\<lparr>ev_links := L\<rparr>)) = Inr w'
    \<and> ev_fdes w' = ev_fdes w \<and> ev_links w' = L \<and> table_ok (put_fde a e' w') \<and> (\<forall>i \<in> watched w'. \<exists>b. active w b i \<and> b \<noteq> a)"
proof -
  let ?w = "w\<lparr>ev_links := L\<rparr>"
  have clean: "\<not> has FDE_ACTIVE e'" using assms(3) by (simp add: has_def)
  have act: "active ?w = active w" by (rule active_cong) simp
  have t: "table_ok ?w" using ev_okD(4) [OF assms(1)] by (simp add: table_ok_def act)
  show ?thesis
  proof (cases "has FDE_ACTIVE e")
    case True
    obtain fd where fd: "e_fd e = int fd" using ev_okD(3) [OF assms(1)] assms(2) True unfolding fdes_ok_def by (metis nonneg_int_cases)
    then have a: "active ?w a fd" using assms(2) True by (simp add: active_def)
    have uniq: "active w b i \<Longrightarrow> active w a i \<Longrightarrow> b = a" for b i using ev_okD(4) [OF assms(1)] unfolding table_ok_def by (metis option.inject)
    from take_out [OF t a, of e] assms(2)
    obtain w' where w': "andthen (fdevent_disconnect a ?w) (fdevent_unregister a) = Inr w'" "ev_fdes w' = ev_fdes w" "ev_links w' = L"
      "watched w' = watched w - {fd}" "ev_table w' = (ev_table w)[fd := None]" "ev_n w' \<le> ev_n w" "\<forall>b i. active w b i \<longrightarrow> i < ev_n w'"
      unfolding act by auto
    have "active (put_fde a e' w') b i \<longleftrightarrow> b \<noteq> a \<and> active w b i" for b i using w'(2) clean by (auto simp: active_def)
    moreover have "(ev_table w)[fd := None] ! i = Some b" if b: "active w b i" "b \<noteq> a" for b i
    proof -
      have "i \<noteq> fd" using uniq [of b i] a b act by auto
      then show ?thesis using b(1) t unfolding table_ok_def act by simp
    qed
    ultimately have "table_ok (put_fde a e' w')" using t w'(5-7) unfolding table_ok_def act by auto
    moreover have "\<forall>i \<in> watched w'. \<exists>b. active w b i \<and> b \<noteq> a"
      using w'(4) ev_okD(5) [OF assms(1)] fd assms(2) unfolding active_def by fastforce
    ultimately show ?thesis using True w' by auto
  next
    case False
    then have "active w b i \<longleftrightarrow> active (put_fde a e' ?w) b i" for b i using assms(2) clean by (auto simp: active_def)
    moreover have "\<forall>i \<in> watched w. \<exists>b. active w b i \<and> b \<noteq> a" using ev_okD(5) [OF assms(1)] False assms(2) unfolding active_def by fastforce
    ultimately show ?thesis using False t unfolding table_ok_def act by auto
  qed
qed

lemma fdevent_remove_ok:
  assumes "ev_ok P w" "ev_fdes w a = Some e"
  shows "\<exists>w'. fdevent_remove a w = Inr w' \<and> ev_ok (remove1 a P) w' \<and> (\<forall>b. b \<noteq> a \<longrightarrow> ev_fdes w' b = ev_fdes w b)"
proof -
  let ?L = "if has FDE_PENDING e then fdevent_plist_remove a (ev_links w) else ev_links w" and ?e = "e\<lparr>e_state := 0, e_events := 0\<rparr>"
  let ?w = "w\<lparr>ev_links := ?L\<rparr>"
  have inP: "a \<in> set P \<longleftrightarrow> has FDE_PENDING e" using ev_okD(2) [OF assms(1), of a] assms(2) by (simp add: pending_def)
  have dist: "distinct P" using ev_okD(1) [OF assms(1)] by (simp add: ring_def)
  have ring: "ring list_pending (remove1 a P) ?L"
    using remove_refines [OF ev_okD(1) [OF assms(1)], of a] ev_okD(1) [OF assms(1)] inP by (auto simp: remove1_idem)
  have clean: "\<not> has FDE_ACTIVE ?e" "\<not> has FDE_PENDING ?e" by (simp_all add: has_def)
  obtain w' where w': "(if has FDE_ACTIVE e then andthen (fdevent_disconnect a ?w) (fdevent_unregister a) else Inr ?w) = Inr w'"
    "ev_fdes w' = ev_fdes w" "ev_links w' = ?L" "table_ok (put_fde a ?e w')" "\<forall>i \<in> watched w'. \<exists>b. active w b i \<and> b \<noteq> a"
    using remove_from_table [OF assms refl, of ?L] by blast
  have eqw: "(if has FDE_PENDING e then w\<lparr>ev_links := fdevent_plist_remove a (ev_links w)\<rparr> else w) = ?w" by simp
  have "fdevent_remove a w = Inr (put_fde a ?e w')"
    by (simp only: fdevent_remove_def get_fde_def assms(2) option.case andthen_simps Let_def eqw w'(1))
  moreover have "ev_ok (remove1 a P) (put_fde a ?e w')"
  proof -
    have "pending (put_fde a ?e w') b \<longleftrightarrow> b \<noteq> a \<and> pending w b" for b using w'(2) clean by (auto simp: pending_def)
    then have "b \<in> set (remove1 a P) \<longleftrightarrow> pending (put_fde a ?e w') b" for b using ev_okD(2) [OF assms(1)] dist by (auto simp: set_remove1_eq)
    moreover have "fdes_ok (put_fde a ?e w')" using ev_okD(3) [OF assms(1)] w'(2) clean assms(2) by (auto simp: fdes_ok_def)
    moreover have "\<exists>b. active (put_fde a ?e w') b i" if i: "i \<in> watched w'" for i using w'(2,5) i by (fastforce simp: active_def)
    ultimately show ?thesis using ring w'(3,4) by (auto simp: ev_ok_def)
  qed
  moreover have "\<forall>b. b \<noteq> a \<longrightarrow> ev_fdes (put_fde a ?e w') b = ev_fdes w b" using w'(2) by simp
  ultimately show ?thesis by blast
qed

lemma fdevent_update_ok:
  assumes "ev_ok P w" "ev_fdes w a = Some e" "has FDE_ACTIVE e"
  shows "\<exists>w'. fdevent_update a (ev AND FDE_EVENTMASK) w = Inr (put_fde a (e\<lparr>e_state := (e_state e AND FDE_STATEMASK) OR (ev AND FDE_EVENTMASK)\<rparr>) w')
    \<and> ev_ok P w' \<and> ev_fdes w' = ev_fdes w \<and> ev_links w' = ev_links w"
proof -
  obtain fd where fd: "e_fd e = int fd" using ev_okD(3) [OF assms(1)] assms(2,3) unfolding fdes_ok_def by (metis nonneg_int_cases)
  then have a: "active w a fd" using assms(2,3) by (simp add: active_def)
  then have lt: "fd < FD_SETSIZE" using ev_okD(4) [OF assms(1)] by (fastforce simp: table_ok_def)
  let ?on = "\<lambda>m. (ev AND FDE_EVENTMASK) AND m \<noteq> 0"
  obtain r where r: "fd_set (?on FDE_READ) (int fd) (ev_read w) = Inr r" "set r \<subseteq> insert fd (set (ev_read w))"
    using fd_set_ok [OF lt, of "?on FDE_READ" "ev_read w"] by (auto split: if_splits)
  obtain wr where wr: "fd_set (?on FDE_WRITE) (int fd) (ev_write w) = Inr wr" "set wr \<subseteq> insert fd (set (ev_write w))"
    using fd_set_ok [OF lt, of "?on FDE_WRITE" "ev_write w"] by (auto split: if_splits)
  obtain er where er: "fd_set (?on FDE_ERROR) (int fd) (ev_error w) = Inr er" "set er \<subseteq> insert fd (set (ev_error w))"
    using fd_set_ok [OF lt, of "?on FDE_ERROR" "ev_error w"] by (auto split: if_splits)
  let ?w = "w\<lparr>ev_read := r, ev_write := wr, ev_error := er\<rparr>"
  have same: "active ?w = active w" "pending ?w = pending w" by (rule active_cong, simp)+
  have "watched ?w \<subseteq> insert fd (watched w)" using r(2) wr(2) er(2) by auto
  then have "\<forall>i \<in> watched ?w. \<exists>b. active w b i" using ev_okD(5) [OF assms(1)] a by blast
  then have "ev_ok P ?w" using assms(1) unfolding ev_ok_def same by (simp add: fdes_ok_def table_ok_def same)
  then show ?thesis
    using r(1) wr(1) er(1) fd assms(2) by (intro exI [of _ ?w]) (simp add: fdevent_update_def get_fde_def)
qed

lemma set_watches:
  fixes ev :: u16
  assumes "ev_ok P w" "ev_fdes w a = Some e"
  defines "w1 \<equiv> if has FDE_ACTIVE e then fdevent_update a (ev AND FDE_EVENTMASK) w else Inr w"
  obtains w2 where "\<forall>e'. andthen w1 (\<lambda>w. Inr (put_fde a e' w)) = Inr (put_fde a e' w2)"
    "\<forall>e' f. andthen w1 (\<lambda>w. Inr (put_fde a e' (w\<lparr>ev_links := f (ev_links w)\<rparr>))) = Inr (put_fde a e' (w2\<lparr>ev_links := f (ev_links w)\<rparr>))"
    "ev_ok P w2" "ev_fdes w2 = ev_fdes w" "ev_links w2 = ev_links w"
proof (cases "has FDE_ACTIVE e")
  case True
  from fdevent_update_ok [OF assms(1,2) True, of ev] obtain w2 where
    "fdevent_update a (ev AND FDE_EVENTMASK) w = Inr (put_fde a (e\<lparr>e_state := (e_state e AND FDE_STATEMASK) OR (ev AND FDE_EVENTMASK)\<rparr>) w2)"
    "ev_ok P w2" "ev_fdes w2 = ev_fdes w" "ev_links w2 = ev_links w" by auto
  then show ?thesis by (intro that [of w2]) (use True in \<open>simp_all add: w1_def put_fde_def\<close>)
next
  case False
  then show ?thesis using that [of w] assms(1) by (simp add: w1_def)
qed

lemma fdevent_set_ok:
  assumes "ev_ok P w" "ev_fdes w a = Some e"
  shows "\<exists>w' P'. fdevent_set a ev w = Inr w' \<and> ev_ok P' w' \<and> set P' \<subseteq> set P
    \<and> (\<not> has FDE_PENDING e \<longrightarrow> P' = P) \<and> (\<forall>b. b \<noteq> a \<longrightarrow> ev_fdes w' b = ev_fdes w b)"
proof (cases "e_state e AND FDE_EVENTMASK = ev AND FDE_EVENTMASK")
  case True
  then show ?thesis using assms by (auto simp: fdevent_set_def get_fde_def)
next
  case False
  let ?ev = "ev AND FDE_EVENTMASK"
  let ?e = "e\<lparr>e_state := (e_state e AND FDE_STATEMASK) OR ?ev\<rparr>"
  let ?w1 = "if has FDE_ACTIVE e then fdevent_update a ?ev w else Inr w"
  obtain w2 where w2: "\<forall>e'. andthen ?w1 (\<lambda>w. Inr (put_fde a e' w)) = Inr (put_fde a e' w2)"
    "\<forall>e' f. andthen ?w1 (\<lambda>w. Inr (put_fde a e' (w\<lparr>ev_links := f (ev_links w)\<rparr>))) = Inr (put_fde a e' (w2\<lparr>ev_links := f (ev_links w)\<rparr>))"
    and ok: "ev_ok P w2" "ev_fdes w2 = ev_fdes w" "ev_links w2 = ev_links w"
    by (rule set_watches [OF assms, of ev])
  have eq: "fdevent_set a ev w = andthen ?w1 (\<lambda>w.
      if has FDE_PENDING ?e
      then if e_events e AND NOT ?ev = 0
           then Inr (put_fde a (?e\<lparr>e_events := e_events e AND NOT ?ev, e_state := e_state ?e AND NOT FDE_PENDING\<rparr>)
                  (w\<lparr>ev_links := fdevent_plist_remove a (ev_links w)\<rparr>))
           else Inr (put_fde a (?e\<lparr>e_events := e_events e AND NOT ?ev\<rparr>) w)
      else Inr (put_fde a ?e w))"
    using False assms(2) by (simp add: fdevent_set_def get_fde_def Let_def)
  have pend: "has FDE_PENDING ?e \<longleftrightarrow> has FDE_PENDING e" "has FDE_ACTIVE ?e \<longleftrightarrow> has FDE_ACTIVE e" by (simp_all add: has_bits)
  have inP: "a \<in> set P \<longleftrightarrow> has FDE_PENDING e" using ev_okD(2) [OF assms(1), of a] assms(2) by (simp add: pending_def)
  have pa: "if has FDE_PENDING e then has FDE_ACTIVE e else e_events e = 0" using ev_okD(3) [OF assms(1)] assms(2) by (auto simp: fdes_ok_def)
  have fa: "ev_fdes w2 a = Some e" using ok(2) assms(2) by simp
  have same: "ev_ok P (put_fde a e' w2)" if e': "same_entry e e'" "has FDE_PENDING e' \<longleftrightarrow> has FDE_PENDING e" "\<not> has FDE_PENDING e \<longrightarrow> e_events e' = e_events e" for e'
    using ev_ok_put [OF ok(1) fa e'(1), of P "ev_links w2"] pa e'(2,3) inP ev_okD(1) [OF ok(1)] by (auto simp: insert_absorb split: if_splits)
  show ?thesis
  proof (cases "has FDE_PENDING e \<and> e_events e AND NOT ?ev = 0")
    case True
    let ?e' = "?e\<lparr>e_events := e_events e AND NOT ?ev, e_state := e_state ?e AND NOT FDE_PENDING\<rparr>"
    have r: "ring list_pending (remove1 a P) (fdevent_plist_remove a (ev_links w))" using remove_refines [OF ev_okD(1) [OF assms(1)]] inP True by simp
    have "set (remove1 a P) = set P - {a}" using ev_okD(1) [OF assms(1)] by (simp add: ring_def set_remove1_eq)
    moreover have "same_entry e ?e'" "\<not> has FDE_PENDING ?e'" by (simp_all add: same_entry_def has_bits)
    ultimately have "ev_ok (remove1 a P) (put_fde a ?e' (w2\<lparr>ev_links := fdevent_plist_remove a (ev_links w)\<rparr>))"
      using ev_ok_put [OF ok(1) fa _ _ r] True by simp
    moreover have "fdevent_set a ev w = Inr (put_fde a ?e' (w2\<lparr>ev_links := fdevent_plist_remove a (ev_links w)\<rparr>))"
      unfolding eq using True pend(1) w2(2) by simp
    moreover have "set (remove1 a P) \<subseteq> set P" by (rule set_remove1_subset)
    moreover have "\<forall>b. b \<noteq> a \<longrightarrow> ev_fdes (put_fde a ?e' (w2\<lparr>ev_links := fdevent_plist_remove a (ev_links w)\<rparr>)) b = ev_fdes w b"
      using ok(2) by simp
    ultimately show ?thesis using True by blast
  next
    case nz: False
    let ?e' = "if has FDE_PENDING e then ?e\<lparr>e_events := e_events e AND NOT ?ev\<rparr> else ?e"
    have "fdevent_set a ev w = Inr (put_fde a ?e' w2)" unfolding eq using nz pend(1) w2(1) by auto
    moreover have "ev_ok P (put_fde a ?e' w2)" by (rule same) (simp_all add: same_entry_def has_bits)
    moreover have "\<forall>b. b \<noteq> a \<longrightarrow> ev_fdes (put_fde a ?e' w2) b = ev_fdes w b" using ok(2) by simp
    ultimately show ?thesis by blast
  qed
qed

subsection \<open>One round of the loop\<close>

definition mark :: "u16 \<Rightarrow> fde \<Rightarrow> fde" where
  "mark ev e = e\<lparr>e_events := e_events e OR ev, e_state := e_state e OR FDE_PENDING\<rparr>"

text \<open>The objects after the descriptors of a list have been looked at, and those that have become pending.\<close>

definition marked :: "nat list \<Rightarrow> (nat \<Rightarrow> u16) \<Rightarrow> (nat \<rightharpoonup> fde) \<Rightarrow> (nat \<rightharpoonup> fde)" where
  "marked is ready fdes = (\<lambda>a. map_option (\<lambda>e.
     if has FDE_ACTIVE e \<and> nat (e_fd e) \<in> set is \<and> ready (nat (e_fd e)) \<noteq> 0 then mark (ready (nat (e_fd e))) e else e) (fdes a))"

abbreviation owner :: "evs \<Rightarrow> nat \<Rightarrow> nat" where "owner w i \<equiv> the (ev_table w ! i)"

definition woken :: "nat list \<Rightarrow> (nat \<Rightarrow> u16) \<Rightarrow> evs \<Rightarrow> nat list" where
  "woken is ready w = map (owner w) (filter (\<lambda>i. ready i \<noteq> 0 \<and> \<not> pending w (owner w i)) is)"

text \<open>What \<open>select\<close> promises: descriptors that were watched, and their number.\<close>

definition select_ok :: "evs \<Rightarrow> selected \<Rightarrow> bool" where
  "select_ok w sel = (case sel of None \<Rightarrow> True | Some (n, r, wr, er) \<Rightarrow>
     set r \<subseteq> set (ev_read w) \<and> set wr \<subseteq> set (ev_write w) \<and> set er \<subseteq> set (ev_error w) \<and> n = int (card (set r) + card (set wr) + card (set er)))"

lemma mark_simps [simp]:
  "e_fd (mark ev e) = e_fd e" "e_func (mark ev e) = e_func e" "has FDE_ACTIVE (mark ev e) \<longleftrightarrow> has FDE_ACTIVE e" "has FDE_PENDING (mark ev e)"
  by (simp_all add: mark_def has_bits)

lemma or_pending:
  assumes "has FDE_PENDING e"
  shows "e_state e OR FDE_PENDING = e_state e"
proof -
  have q: "(FDE_PENDING :: u16) = 2 ^ 9" by simp
  have b: "bit (2 ^ 9 :: u16) n \<longleftrightarrow> n = 9" for n by (auto simp only: bit_exp_iff possible_bit_word len_num1 len_num0 len_bit0 len_bit1)
  have "bit (e_state e) 9" using assms by (simp add: has_bits)
  then show ?thesis unfolding q by (intro bit_word_eqI) (auto simp only: bit_or_iff b)
qed

lemma mark_pending: "has FDE_PENDING e \<Longrightarrow> mark ev e = e\<lparr>e_events := e_events e OR ev\<rparr>"
  by (rule fde.equality) (simp_all add: mark_def or_pending)

lemma active_owner: "table_ok w \<Longrightarrow> active w a i \<Longrightarrow> owner w i = a \<and> ev_table w ! i = Some a \<and> i < ev_n w"
  by (fastforce simp: table_ok_def)

lemma marked_step:
  assumes "fdes_ok w" "table_ok w" "active w a i" "ev_fdes w a = Some e" "i \<notin> set is" "ready i \<noteq> 0"
  shows "marked is ready ((ev_fdes w)(a \<mapsto> mark (ready i) e)) = marked (i # is) ready (ev_fdes w)"
proof
  fix b
  have e: "e_fd e = int i" "has FDE_ACTIVE e" using assms(3,4) by (auto simp: active_def)
  have other: "nat (e_fd e') \<noteq> i" if e': "ev_fdes w b = Some e'" "has FDE_ACTIVE e'" "b \<noteq> a" for e'
  proof
    assume "nat (e_fd e') = i"
    then have "active w b i" using e' assms(1) by (auto simp: active_def fdes_ok_def)
    then show False using active_owner [OF assms(2)] assms(3) e'(3) by metis
  qed
  show "marked is ready ((ev_fdes w)(a \<mapsto> mark (ready i) e)) b = marked (i # is) ready (ev_fdes w) b"
  proof (cases "b = a")
    case True
    then show ?thesis using assms e by (simp add: marked_def)
  next
    case False
    then show ?thesis using other by (cases "ev_fdes w b") (auto simp: marked_def)
  qed
qed

lemma marked_none: "\<forall>i \<in> set is. ready i = 0 \<Longrightarrow> marked is ready fdes = fdes"
  by (rule ext) (auto simp: marked_def map_option_case split: option.splits)

lemma marked_skip: "ready i = 0 \<Longrightarrow> marked (i # is) ready fdes = marked is ready fdes"
  by (rule ext) (auto simp: marked_def intro!: option.map_cong)

definition quiet_change :: "evs \<Rightarrow> evs \<Rightarrow> bool" where
  "quiet_change w w' \<longleftrightarrow> ev_table w' = ev_table w \<and> ev_n w' = ev_n w \<and> ev_read w' = ev_read w \<and> ev_write w' = ev_write w \<and> ev_error w' = ev_error w"

lemma put_fde_links: "(put_fde a e w)\<lparr>ev_links := L\<rparr> = put_fde a e (w\<lparr>ev_links := L\<rparr>)"
  by (cases w) (simp add: put_fde_def)

text \<open>One descriptor that is ready.\<close>

lemma process_one:
  assumes "ev_ok P w" "active w a i" "ev_fdes w a = Some e" "ev \<noteq> 0"
  defines "w1 \<equiv> put_fde a (mark ev e) (w\<lparr>ev_links := (if has FDE_PENDING e then ev_links w else fdevent_plist_enqueue a (ev_links w))\<rparr>)"
  shows "ev_ok (P @ (if pending w a then [] else [a])) w1" "quiet_change w w1" "ev_fdes w1 = (ev_fdes w)(a \<mapsto> mark ev e)"
proof -
  have pend: "pending w a \<longleftrightarrow> has FDE_PENDING e" using assms(3) by (simp add: pending_def)
  have act: "has FDE_ACTIVE e" using assms(2,3) by (auto simp: active_def)
  have a: "a \<noteq> list_pending" using ev_okD(3) [OF assms(1)] assms(3) by (auto simp: fdes_ok_def)
  have r: "ring list_pending (P @ (if pending w a then [] else [a])) (if has FDE_PENDING e then ev_links w else fdevent_plist_enqueue a (ev_links w))"
    using enqueue_refines [OF ev_okD(1) [OF assms(1)], of a] ev_okD(1) [OF assms(1)] ev_okD(2) [OF assms(1), of a] a pend by auto
  have "same_entry e (mark ev e)" by (simp add: same_entry_def)
  then show "ev_ok (P @ (if pending w a then [] else [a])) w1"
    unfolding w1_def using ev_ok_put [OF assms(1,3) _ _ r] act ev_okD(2) [OF assms(1), of a] by (auto simp: insert_absorb)
  show "quiet_change w w1" "ev_fdes w1 = (ev_fdes w)(a \<mapsto> mark ev e)" by (simp_all add: w1_def quiet_change_def)
qed

lemma process_loop_ready:
  assumes "0 < n" "i < FD_SETSIZE" "i < length (ev_table w)" "ready_events i r wr er \<noteq> 0" "ev_table w ! i = Some a" "ev_fdes w a = Some e"
  shows "process_loop (i # is) n (r, wr, er) w = process_loop is (n - 1) (r, wr, er)
    (put_fde a (mark (ready_events i r wr er) e) (w\<lparr>ev_links := (if has FDE_PENDING e then ev_links w else fdevent_plist_enqueue a (ev_links w))\<rparr>))"
proof -
  have g: "get_fde a w = Inr e" using assms(6) by (simp add: get_fde_def)
  have "has FDE_PENDING (e\<lparr>e_events := e_events e OR ready_events i r wr er\<rparr>) \<longleftrightarrow> has FDE_PENDING e" by (simp add: has_def)
  then show ?thesis
    using assms g by (cases "has FDE_PENDING e") (simp_all add: Let_def mark_pending put_fde_links, simp add: mark_def)
qed

lemma woken_step:
  assumes "ev_ok P w" "active w a i" "i \<notin> set is" "\<forall>j \<in> set is. ready j \<noteq> 0 \<longrightarrow> j \<in> watched w"
    and "ev_table w1 = ev_table w" "ev_fdes w1 = (ev_fdes w)(a \<mapsto> e)"
  shows "woken is ready w1 = woken is ready w"
proof -
  have "pending w1 (owner w j) \<longleftrightarrow> pending w (owner w j)" if j: "j \<in> set is" "ready j \<noteq> 0" for j
  proof -
    have "j \<in> watched w" using assms(4) j by blast
    then obtain b where "active w b j" using ev_okD(5) [OF assms(1)] by blast
    then have "owner w j \<noteq> a" using active_owner [OF ev_okD(4) [OF assms(1)]] assms(2,3) j(1) by (auto simp: active_def)
    then show ?thesis using assms(6) by (simp add: pending_def)
  qed
  then show ?thesis unfolding woken_def assms(5) by (auto intro!: arg_cong [of _ _ "map _"] filter_cong)
qed

lemma process_loop_ok:
  assumes "ev_ok P w" "distinct is" "set is \<subseteq> {..<ev_n w}" "set r \<subseteq> set (ev_read w)" "set wr \<subseteq> set (ev_write w)" "set er \<subseteq> set (ev_error w)"
    and "int (length (filter (\<lambda>i. ready_events i r wr er \<noteq> 0) is)) \<le> n"
  shows "\<exists>w'. process_loop is n (r, wr, er) w = Inr w' \<and> ev_ok (P @ woken is (\<lambda>i. ready_events i r wr er) w) w' \<and> quiet_change w w'
    \<and> ev_fdes w' = marked is (\<lambda>i. ready_events i r wr er) (ev_fdes w)"
  using assms
proof (induction "is" arbitrary: P w n)
  case Nil
  then show ?case by (simp add: woken_def marked_none quiet_change_def)
next
  case (Cons i "is")
  let ?ready = "\<lambda>i. ready_events i r wr er"
  show ?case
  proof (cases "n \<le> 0")
    case True
    then have "length (filter (\<lambda>i. ?ready i \<noteq> 0) (i # is)) = 0" using Cons.prems(7) by linarith
    then have "\<forall>j \<in> set (i # is). ?ready j = 0" by (simp add: filter_empty_conv del: filter.simps)
    then show ?thesis using True Cons.prems(1) by (simp add: marked_none quiet_change_def woken_def filter_empty_conv)
  next
    case n: False
    have lt: "i < FD_SETSIZE" "i < length (ev_table w)" using ev_okD(4) [OF Cons.prems(1)] Cons.prems(3) by (auto simp: table_ok_def)
    show ?thesis
    proof (cases "?ready i = 0")
      case True
      then have "process_loop (i # is) n (r, wr, er) w = process_loop is n (r, wr, er) w" using n lt by simp
      with Cons.IH [OF Cons.prems(1)] Cons.prems True show ?thesis by (simp add: marked_skip woken_def)
    next
      case False
      then have "i \<in> watched w" using Cons.prems(4-6) by (auto simp: ready_events_def split: if_splits)
      then obtain a where a: "active w a i" using ev_okD(5) [OF Cons.prems(1)] by blast
      then obtain e where e: "ev_fdes w a = Some e" "has FDE_ACTIVE e" "e_fd e = int i" by (auto simp: active_def)
      note own = active_owner [OF ev_okD(4) [OF Cons.prems(1)]]
      let ?w1 = "put_fde a (mark (?ready i) e) (w\<lparr>ev_links := (if has FDE_PENDING e then ev_links w else fdevent_plist_enqueue a (ev_links w))\<rparr>)"
      note w1 = process_one [OF Cons.prems(1) a e(1) False]
      have step: "process_loop (i # is) n (r, wr, er) w = process_loop is (n - 1) (r, wr, er) ?w1"
        by (rule process_loop_ready) (use n lt False own [OF a] e(1) in simp_all)
      have cnt: "int (length (filter (\<lambda>i. ?ready i \<noteq> 0) is)) \<le> n - 1" using Cons.prems(7) False by simp
      have "\<exists>w'. process_loop is (n - 1) (r, wr, er) ?w1 = Inr w'
        \<and> ev_ok ((P @ (if pending w a then [] else [a])) @ woken is ?ready ?w1) w' \<and> quiet_change ?w1 w'
        \<and> ev_fdes w' = marked is ?ready (ev_fdes ?w1)"
        by (rule Cons.IH [OF w1(1)]) (use Cons.prems(2-6) cnt in simp_all)
      then obtain w' where w': "process_loop is (n - 1) (r, wr, er) ?w1 = Inr w'"
        "ev_ok ((P @ (if pending w a then [] else [a])) @ woken is ?ready ?w1) w'" "quiet_change ?w1 w'"
        "ev_fdes w' = marked is ?ready (ev_fdes ?w1)" by blast
      have watch: "\<forall>j \<in> set is. ?ready j \<noteq> 0 \<longrightarrow> j \<in> watched w" using Cons.prems(4-6) by (auto simp: ready_events_def split: if_splits)
      have "woken is ?ready ?w1 = woken is ?ready w" using woken_step [OF Cons.prems(1) a _ watch, of ?w1] Cons.prems(2) by simp
      moreover have "woken (i # is) ?ready w = (if pending w a then [] else [a]) @ woken is ?ready w"
        using False own [OF a] by (simp add: woken_def)
      moreover have "marked is ?ready (ev_fdes ?w1) = marked (i # is) ?ready (ev_fdes w)"
        using marked_step [OF ev_okD(3) [OF Cons.prems(1)] ev_okD(4) [OF Cons.prems(1)] a e(1), of "is" ?ready] Cons.prems(2) False by simp
      ultimately show ?thesis using step w' by (auto simp: quiet_change_def)
    qed
  qed
qed

lemma dispatch_none: "ev_ok [] w \<Longrightarrow> dispatch w = Inr (None, w)"
  using ev_okD(1) [of "[]" w] by (simp add: dispatch_def dequeue_refines(1))

lemma dispatch_some:
  assumes "ev_ok (a # P) w"
  obtains e w' where "ev_fdes w a = Some e" "has FDE_PENDING e" "dispatch w = Inr (Some (e_func e, e_fd e, e_events e), w')" "ev_ok P w'" "quiet_change w w'"
    "ev_fdes w' = (ev_fdes w)(a \<mapsto> e\<lparr>e_events := 0, e_state := e_state e AND NOT FDE_PENDING\<rparr>)"
proof -
  have "pending w a" using ev_okD(2) [OF assms, of a] by simp
  then obtain e where e: "ev_fdes w a = Some e" "has FDE_PENDING e" by (auto simp: pending_def)
  obtain L where L: "fdevent_plist_dequeue (ev_links w) = (Some a, L)" "ring list_pending P L"
    using dequeue_refines(2) [OF ev_okD(1) [OF assms]] by blast
  let ?e = "e\<lparr>e_events := 0, e_state := e_state e AND NOT FDE_PENDING\<rparr>"
  have "same_entry e ?e" "\<not> has FDE_PENDING ?e" by (simp_all add: same_entry_def has_bits)
  moreover have "a \<notin> set P" using ev_okD(1) [OF assms] by (simp add: ring_def)
  ultimately have "ev_ok P (put_fde a ?e (w\<lparr>ev_links := L\<rparr>))"
    using ev_ok_put [OF assms e(1) _ _ L(2), of ?e] by simp
  then show ?thesis
    using that [of e "put_fde a ?e (w\<lparr>ev_links := L\<rparr>)"] e L(1) by (simp add: dispatch_def get_fde_def quiet_change_def)
qed

lemma pending_few: "ev_ok P w \<Longrightarrow> length P \<le> FD_SETSIZE"
proof -
  assume ok: "ev_ok P w"
  have "\<exists>i. active w a i" if a: "a \<in> set P" for a
  proof -
    obtain e where "ev_fdes w a = Some e" "has FDE_PENDING e" using ev_okD(2) [OF ok, of a] a by (auto simp: pending_def)
    then have "has FDE_ACTIVE e" "0 \<le> e_fd e" using ev_okD(3) [OF ok] by (auto simp: fdes_ok_def)
    then show ?thesis using \<open>ev_fdes w a = Some e\<close> by (metis active_def nonneg_int_cases)
  qed
  then obtain fd where fd: "\<And>a. a \<in> set P \<Longrightarrow> active w a (fd a)" by metis
  note own = active_owner [OF ev_okD(4) [OF ok]]
  have "inj_on fd (set P)" using fd own by (intro inj_onI) metis
  moreover have "fd ` set P \<subseteq> {..<FD_SETSIZE}" using fd own ev_okD(4) [OF ok] by (fastforce simp: table_ok_def)
  ultimately have "card (set P) \<le> FD_SETSIZE" using card_inj_on_le [of fd "set P" "{..<FD_SETSIZE}"] by simp
  then show ?thesis using ev_okD(1) [OF ok] by (simp add: ring_def distinct_card)
qed

text \<open>The number that \<open>select\<close> returns is large enough for all descriptors that are ready.\<close>

lemma ready_count:
  "distinct is \<Longrightarrow> length (filter (\<lambda>i. ready_events i r wr er \<noteq> 0) is) \<le> card (set r) + card (set wr) + card (set er)"
proof -
  assume "distinct is"
  then have "length (filter (\<lambda>i. ready_events i r wr er \<noteq> 0) is) = card (set (filter (\<lambda>i. ready_events i r wr er \<noteq> 0) is))"
    by (simp add: distinct_card del: set_filter)
  also have "\<dots> \<le> card (set r \<union> set wr \<union> set er)"
    by (rule card_mono) (auto simp: ready_events_def split: if_splits)
  also have "\<dots> \<le> card (set r) + card (set wr) + card (set er)"
    using card_Un_le [of "set r \<union> set wr" "set er"] card_Un_le [of "set r" "set wr"] by simp
  finally show ?thesis .
qed

lemma process_selected:
  assumes "ev_ok P w" "select_ok w (Some (n, r, wr, er))"
  shows "\<exists>w'. fdevent_process (Some (n, r, wr, er)) w = Inr w' \<and> ev_ok (P @ woken [0..<ev_n w] (\<lambda>i. ready_events i r wr er) w) w'
    \<and> quiet_change w w' \<and> ev_fdes w' = marked [0..<ev_n w] (\<lambda>i. ready_events i r wr er) (ev_fdes w)"
proof -
  have "int (length (filter (\<lambda>i. ready_events i r wr er \<noteq> 0) [0..<ev_n w])) \<le> n"
    using ready_count [of "[0..<ev_n w]" r wr er] assms(2) by (simp add: select_ok_def)
  moreover have "set [0..<ev_n w] \<subseteq> {..<ev_n w}" by auto
  ultimately show ?thesis
    using process_loop_ok [OF assms(1) distinct_upt, of 0 "ev_n w" r wr er n] assms(2)
    by (simp add: fdevent_process_def select_ok_def)
qed

lemma process_ok:
  assumes "ev_ok P w" "select_ok w sel"
  shows "\<exists>w' P'. fdevent_process sel w = Inr w' \<and> ev_ok P' w'"
proof (cases sel)
  case None
  then show ?thesis using assms(1) by (auto simp: fdevent_process_def)
next
  case (Some s)
  obtain n r wr er where "s = (n, r, wr, er)" by (metis prod_cases4)
  then show ?thesis using process_selected [of P w n r wr er] assms Some by blast
qed

text \<open>What the loop relies on: a callback keeps the invariant and makes no further object pending.\<close>

locale event_handler =
  fixes handler :: "nat \<Rightarrow> int \<Rightarrow> u16 \<Rightarrow> evs \<Rightarrow> ev_err + evs"
  assumes handler_ok: "ev_ok P w \<Longrightarrow> \<exists>w' P'. handler f fd ev w = Inr w' \<and> ev_ok P' w' \<and> set P' \<subseteq> set P"
begin

lemma run_pending_ends:
  "ev_ok P w \<Longrightarrow> length P < fuel \<Longrightarrow> \<exists>calls w'. run_pending fuel handler w = Some (Inr (calls, w')) \<and> ev_ok [] w' \<and> length calls \<le> length P"
proof (induction fuel arbitrary: P w)
  case (Suc k)
  show ?case
  proof (cases P)
    case Nil
    then show ?thesis using Suc.prems by (simp add: dispatch_none)
  next
    case (Cons a Q)
    with Suc.prems(1) have "ev_ok (a # Q) w" by simp
    then obtain e w1 where "ev_fdes w a = Some e" "has FDE_PENDING e" and d: "dispatch w = Inr (Some (e_func e, e_fd e, e_events e), w1)" "ev_ok Q w1"
      and "quiet_change w w1" "ev_fdes w1 = (ev_fdes w)(a \<mapsto> e\<lparr>e_events := 0, e_state := e_state e AND NOT FDE_PENDING\<rparr>)"
      by (rule dispatch_some)
    obtain w2 R where h: "handler (e_func e) (e_fd e) (e_events e) w1 = Inr w2" "ev_ok R w2" "set R \<subseteq> set Q"
      using handler_ok [OF d(2)] by blast
    have "distinct R" "distinct Q" using ev_okD(1) [OF h(2)] ev_okD(1) [OF d(2)] by (simp_all add: ring_def)
    then have "length R \<le> length Q" using h(3) by (metis List.finite_set card_mono distinct_card)
    then have "length R < k" "length R + 1 \<le> length P" using Suc.prems(2) Cons by simp_all
    with Suc.IH [OF h(2)] d(1) h(1) show ?thesis by auto
  qed
qed simp

lemma loop_round_ends:
  assumes "ev_ok P w" "select_ok w sel"
  shows "\<exists>calls w'. loop_round (FD_SETSIZE + 1) handler sel w = Some (Inr (calls, w')) \<and> ev_ok [] w'"
proof -
  obtain w1 Q where w1: "fdevent_process sel w = Inr w1" "ev_ok Q w1" using process_ok [OF assms] by blast
  then have "length Q < FD_SETSIZE + 1" using pending_few [OF w1(2)] by simp
  from run_pending_ends [OF w1(2) this] w1(1) show ?thesis by (auto simp: loop_round_def)
qed

lemma loop_runs:
  "ev_ok P w \<Longrightarrow> \<forall>sel \<in> set sels. \<forall>w. select_ok w (sel w) \<Longrightarrow> \<exists>w' P'. fdevent_loop (FD_SETSIZE + 1) handler sels w = Some (Inr w') \<and> ev_ok P' w'"
proof (induction sels arbitrary: P w)
  case (Cons sel sels)
  then obtain calls w1 where "loop_round (FD_SETSIZE + 1) handler (sel w) w = Some (Inr (calls, w1))" "ev_ok [] w1"
    using loop_round_ends [OF Cons.prems(1), of "sel w"] by auto
  with Cons.IH [of "[]" w1] Cons.prems(2) show ?case by auto
qed auto

end

subsection \<open>The clients keep the invariant\<close>

lemma fd_free_active: "table_ok w \<Longrightarrow> fd_free fd w \<Longrightarrow> \<not> active w b fd"
proof
  assume "table_ok w" "fd_free fd w" and act: "active w b fd"
  then have "fd < length (ev_table w)" "ev_table w ! fd = Some b" by (fastforce simp: table_ok_def)+
  then have "idle b w" using \<open>fd_free fd w\<close> by (simp add: fd_free_def)
  then show False using act by (auto simp: idle_def active_def)
qed

lemma idle_active: "idle a w \<Longrightarrow> \<not> active w a i"
  by (auto simp: idle_def active_def)

lemma install_valid:
  assumes "ev_ok P w" "1 < a" "fd_free fd w" "idle a w"
  shows "\<exists>w'. fdevent_install ptr (Some junk) a (int fd) f w = Inr w' \<and> ev_ok P w' \<and> (\<exists>e. ev_fdes w' a = Some e \<and> has FDE_ACTIVE e \<and> \<not> has FDE_PENDING e)
    \<and> (\<forall>b. b \<noteq> a \<longrightarrow> ev_fdes w' b = ev_fdes w b)"
proof -
  have "fd < FD_SETSIZE" using assms(3) by (simp add: fd_free_def)
  then show ?thesis using fdevent_install_ok [OF assms(1,2)] fd_free_active [OF ev_okD(4) [OF assms(1)] assms(3)] idle_active [OF assms(4)] by blast
qed

lemma create_valid:
  assumes "ev_ok P w" "1 < a" "fd_free fd w" "idle a w"
  shows "\<exists>w'. fdevent_create ptr (Some junk) a (int fd) f w = Inr w' \<and> ev_ok P w' \<and> (\<forall>b. b \<noteq> a \<longrightarrow> ev_fdes w' b = ev_fdes w b)"
proof -
  obtain w1 e where w1: "fdevent_install ptr (Some junk) a (int fd) f w = Inr w1" "ev_ok P w1" "ev_fdes w1 a = Some e" "has FDE_ACTIVE e" "\<not> has FDE_PENDING e"
    "\<forall>b. b \<noteq> a \<longrightarrow> ev_fdes w1 b = ev_fdes w b"
    using install_valid [OF assms] by blast
  let ?e = "e\<lparr>e_state := e_state e OR FDE_CREATED\<rparr>"
  have e: "same_entry e ?e" "\<not> has FDE_PENDING ?e" "e_events e = 0"
    using w1(5) ev_okD(3) [OF w1(2)] w1(3) by (auto simp: same_entry_def has_bits fdes_ok_def)
  have "a \<notin> set P" using ev_okD(2) [OF w1(2), of a] w1(3,5) by (simp add: pending_def)
  then have "ev_ok P (put_fde a ?e (w1\<lparr>ev_links := ev_links w1\<rparr>))"
    using ev_ok_put [OF w1(2,3) e(1), of P "ev_links w1"] e(2,3) ev_okD(1) [OF w1(2)] by simp
  then show ?thesis using w1(1,3,6) assms(2) by (simp add: fdevent_create_def get_fde_def)
qed

lemma ev_exec_ok:
  assumes "ev_ok P w" "valid_call w c"
  shows "\<exists>w' P'. ev_exec ptr junk c w = Inr w' \<and> ev_ok P' w' \<and> set P' \<subseteq> set P \<and> (\<not> pending w (target c) \<longrightarrow> P' = P)
    \<and> (\<forall>b. b \<noteq> target c \<longrightarrow> ev_fdes w' b = ev_fdes w b)"
proof -
  have remove: "\<exists>w' P'. fdevent_remove a w = Inr w' \<and> ev_ok P' w' \<and> set P' \<subseteq> set P \<and> (\<not> pending w a \<longrightarrow> P' = P)
      \<and> (\<forall>b. b \<noteq> a \<longrightarrow> ev_fdes w' b = ev_fdes w b)" if a: "ev_fdes w a \<noteq> None" for a
    using a fdevent_remove_ok [OF assms(1), of a] set_remove1_subset [of a P] remove1_idem [of a P] ev_okD(2) [OF assms(1), of a] by blast
  have set: "\<exists>w' P'. fdevent_set a ev w = Inr w' \<and> ev_ok P' w' \<and> set P' \<subseteq> set P \<and> (\<not> pending w a \<longrightarrow> P' = P)
      \<and> (\<forall>b. b \<noteq> a \<longrightarrow> ev_fdes w' b = ev_fdes w b)" if a: "ev_fdes w a \<noteq> None" for a ev
  proof -
    obtain e where e: "ev_fdes w a = Some e" using a by blast
    then have "pending w a \<longleftrightarrow> has FDE_PENDING e" by (simp add: pending_def)
    then show ?thesis using fdevent_set_ok [OF assms(1) e, of ev] by blast
  qed
  show ?thesis
  proof (cases c)
    case (Ev_install a fd f)
    then show ?thesis using install_valid [OF assms(1), of a fd ptr junk f] assms(2) by auto
  next
    case (Ev_create a fd f)
    then show ?thesis using create_valid [OF assms(1), of a fd ptr junk f] assms by (cases "a = 0") (auto simp: idle_def fdevent_create_def)
  next
    case (Ev_destroy a)
    show ?thesis
    proof (cases "a = 0")
      case False
      then have "fdevent_destroy a w = fdevent_remove a w" "ev_fdes w a \<noteq> None"
        using assms(2) Ev_destroy by (auto simp: fdevent_destroy_def get_fde_def split: option.splits)
      then show ?thesis using remove Ev_destroy by simp
    qed (use assms(1) Ev_destroy in \<open>auto simp: fdevent_destroy_def\<close>)
  next
    case (Ev_add a ev)
    then obtain e where "ev_fdes w a = Some e" using assms(2) by auto
    then show ?thesis using set [of a] Ev_add by (simp add: fdevent_add_def get_fde_def)
  next
    case (Ev_del a ev)
    then obtain e where "ev_fdes w a = Some e" using assms(2) by auto
    then show ?thesis using set [of a] Ev_del by (simp add: fdevent_del_def get_fde_def)
  qed (use assms(2) remove set in simp_all)
qed

lemma run_calls_ok: "ev_ok P w \<Longrightarrow> \<exists>w' P'. run_calls ptr junk cs w = Inr w' \<and> ev_ok P' w' \<and> set P' \<subseteq> set P"
proof (induction cs arbitrary: P w)
  case (Cons c cs)
  obtain w1 Q where w1: "(if valid_call w c then ev_exec ptr junk c w else Inr w) = Inr w1" "ev_ok Q w1" "set Q \<subseteq> set P"
    using ev_exec_ok [OF Cons.prems, of c ptr junk] Cons.prems by (cases "valid_call w c") auto
  with Cons.IH [OF w1(2)] show ?case by fastforce
qed auto

interpretation client: event_handler "\<lambda>f fd ev. run_calls ptr junk (script f fd ev)" for ptr junk script
  by unfold_locales (rule run_calls_ok)

text \<open>
  C7: The event loop is safe. Whatever valid calls a program makes first, whatever descriptors \<open>select\<close>
  reports among those that are watched, and whatever valid calls the callbacks make, every round of the
  loop ends, no object is missing for a descriptor, the table never gets out of step, and no memory
  outside the objects and the descriptor sets is used. This holds for any contents of the table entries
  that \<open>memset\<close> did not clear.
\<close>

theorem event_loop_safe:
  assumes "\<forall>sel \<in> set sels. \<forall>w. select_ok w (sel w)"
  shows "\<exists>w. run_calls ptr junk cs events_init = Inr w
    \<and> (\<exists>w'. fdevent_loop (FD_SETSIZE + 1) (\<lambda>f fd ev. run_calls ptr junk (script f fd ev)) sels w = Some (Inr w'))"
  using run_calls_ok [OF events_init_ok, of ptr junk cs] client.loop_runs [OF _ assms] by blast

theorem event_loop_safe_witness:
  "\<exists>w. run_calls 8 (\<lambda>_. Some 99) [Ev_install 2 5 0, Ev_add 2 FDE_READ] events_init = Inr w
    \<and> (\<exists>w'. fdevent_loop 1025 (\<lambda>f fd ev. run_calls 8 (\<lambda>_. Some 99) [Ev_remove 2])
          [\<lambda>w. Some (int (card (set (ev_read w))), ev_read w, [], [])] w = Some (Inr w'))"
  using event_loop_safe [of "[\<lambda>w. Some (int (card (set (ev_read w))), ev_read w, [], [])]" 8 "\<lambda>_. Some 99"
      "[Ev_install 2 5 0, Ev_add 2 FDE_READ]" "\<lambda>f fd ev. [Ev_remove 2]"]
  by (simp add: select_ok_def)

subsection \<open>What one round delivers\<close>

text \<open>
  Callbacks that leave alone the objects that are still waiting for theirs: a callback may change its own
  object, which is no longer pending when it runs, remove it, and change or install any other that is not
  pending.
\<close>

fun run_polite :: "nat \<Rightarrow> (nat \<Rightarrow> nat option) \<Rightarrow> ev_call list \<Rightarrow> evs \<Rightarrow> ev_err + evs" where
  "run_polite ptr junk [] w = Inr w"
| "run_polite ptr junk (c # cs) w =
     andthen (if valid_call w c \<and> \<not> pending w (target c) then ev_exec ptr junk c w else Inr w) (run_polite ptr junk cs)"

definition callback_of :: "evs \<Rightarrow> nat \<Rightarrow> nat \<times> int \<times> u16" where
  "callback_of w a = (case ev_fdes w a of Some e \<Rightarrow> (e_func e, e_fd e, e_events e) | None \<Rightarrow> (0, 0, 0))"

locale polite_handler =
  fixes handler :: "nat \<Rightarrow> int \<Rightarrow> u16 \<Rightarrow> evs \<Rightarrow> ev_err + evs"
  assumes handler_polite: "ev_ok P w \<Longrightarrow> \<exists>w'. handler f fd ev w = Inr w' \<and> ev_ok P w' \<and> (\<forall>a \<in> set P. ev_fdes w' a = ev_fdes w a)"
begin

lemma run_pending_delivers:
  "ev_ok P w \<Longrightarrow> length P < fuel \<Longrightarrow> \<exists>w'. run_pending fuel handler w = Some (Inr (map (callback_of w) P, w')) \<and> ev_ok [] w'"
proof (induction fuel arbitrary: P w)
  case (Suc k)
  show ?case
  proof (cases P)
    case Nil
    then show ?thesis using Suc.prems by (simp add: dispatch_none)
  next
    case (Cons a Q)
    with Suc.prems(1) have ok: "ev_ok (a # Q) w" by simp
    then obtain e w1 where d: "ev_fdes w a = Some e" "has FDE_PENDING e" "dispatch w = Inr (Some (e_func e, e_fd e, e_events e), w1)" "ev_ok Q w1"
      "quiet_change w w1" "ev_fdes w1 = (ev_fdes w)(a \<mapsto> e\<lparr>e_events := 0, e_state := e_state e AND NOT FDE_PENDING\<rparr>)"
      by (rule dispatch_some)
    obtain w2 where h: "handler (e_func e) (e_fd e) (e_events e) w1 = Inr w2" "ev_ok Q w2" "\<forall>b \<in> set Q. ev_fdes w2 b = ev_fdes w1 b"
      using handler_polite [OF d(4)] by blast
    have "a \<notin> set Q" using ev_okD(1) [OF ok] by (simp add: ring_def)
    then have "map (callback_of w2) Q = map (callback_of w) Q" using d(6) h(3) by (auto simp: callback_of_def)
    moreover have "callback_of w a = (e_func e, e_fd e, e_events e)" using d(1) by (simp add: callback_of_def)
    moreover obtain w' where "run_pending k handler w2 = Some (Inr (map (callback_of w2) Q, w'))" "ev_ok [] w'"
      using Suc.IH [OF h(2)] Suc.prems(2) Cons by auto
    ultimately show ?thesis using d(3) h(1) Cons by simp
  qed
qed simp

end

sublocale polite_handler < event_handler
  by unfold_locales (use handler_polite in blast)

lemma run_polite_ok:
  "ev_ok P w \<Longrightarrow> \<exists>w'. run_polite ptr junk cs w = Inr w' \<and> ev_ok P w' \<and> (\<forall>a \<in> set P. ev_fdes w' a = ev_fdes w a)"
proof (induction cs arbitrary: w)
  case (Cons c cs)
  show ?case
  proof (cases "valid_call w c \<and> \<not> pending w (target c)")
    case True
    then have "target c \<notin> set P" using ev_okD(2) [OF Cons.prems] by blast
    then obtain w1 where w1: "ev_exec ptr junk c w = Inr w1" "ev_ok P w1" "\<forall>a \<in> set P. ev_fdes w1 a = ev_fdes w a"
      using ev_exec_ok [OF Cons.prems, of c ptr junk] True by metis
    then show ?thesis using Cons.IH [OF w1(2)] True by auto
  qed (use Cons in auto)
qed auto

interpretation polite: polite_handler "\<lambda>f fd ev. run_polite ptr junk (script f fd ev)" for ptr junk script
  by unfold_locales (rule run_polite_ok)

text \<open>
  C8: What a round delivers. When nothing is pending, \<open>select\<close> reports descriptors among those that are
  watched, with their number, and the callbacks, whatever valid calls they make, leave the objects alone
  that are still pending, then each descriptor that is ready for something gets one callback, in the order
  of the descriptors, with exactly the events that \<open>select\<close> reported for it, although \<open>select\<close> counts a
  descriptor once for each of the three sets and the loop counts it once. (A callback that changes the
  events of a pending object takes events away from it, as \<open>set_masks_wanted\<close> below shows.)
\<close>

theorem round_delivers:
  assumes "ev_ok [] w" "select_ok w (Some (n, r, wr, er))"
  shows "\<exists>w'. loop_round (FD_SETSIZE + 1) (\<lambda>f fd ev. run_polite ptr junk (script f fd ev)) (Some (n, r, wr, er)) w
      = Some (Inr (map (\<lambda>i. (e_func (the (ev_fdes w (owner w i))), int i, ready_events i r wr er))
                     (filter (\<lambda>i. ready_events i r wr er \<noteq> 0) [0..<ev_n w]), w'))
    \<and> ev_ok [] w'"
proof -
  let ?ready = "\<lambda>i. ready_events i r wr er"
  let ?is = "filter (\<lambda>i. ?ready i \<noteq> 0) [0..<ev_n w]"
  have idle: "\<not> pending w a" for a using ev_okD(2) [OF assms(1), of a] by simp
  obtain w1 where w1: "fdevent_process (Some (n, r, wr, er)) w = Inr w1" "ev_ok (woken [0..<ev_n w] ?ready w) w1"
    "ev_fdes w1 = marked [0..<ev_n w] ?ready (ev_fdes w)"
    using process_selected [OF assms] by auto
  have wk: "woken [0..<ev_n w] ?ready w = map (owner w) ?is" using idle by (simp add: woken_def)
  have "callback_of w1 (owner w i) = (e_func (the (ev_fdes w (owner w i))), int i, ?ready i)" if i: "i \<in> set ?is" for i
  proof -
    have "i \<in> watched w" using assms(2) i by (auto simp: select_ok_def ready_events_def split: if_splits)
    then obtain a where a: "active w a i" using ev_okD(5) [OF assms(1)] by blast
    then obtain e where e: "ev_fdes w a = Some e" "has FDE_ACTIVE e" "e_fd e = int i" by (auto simp: active_def)
    have "owner w i = a" using active_owner [OF ev_okD(4) [OF assms(1)] a] by simp
    moreover have "e_events e = 0" using ev_okD(3) [OF assms(1)] e(1) idle [of a] by (auto simp: fdes_ok_def pending_def)
    ultimately show ?thesis using e i w1(3) by (auto simp: callback_of_def marked_def mark_def)
  qed
  then have calls: "map (callback_of w1) (map (owner w) ?is) = map (\<lambda>i. (e_func (the (ev_fdes w (owner w i))), int i, ?ready i)) ?is" by simp
  have "length (woken [0..<ev_n w] ?ready w) < FD_SETSIZE + 1" using pending_few [OF w1(2)] by simp
  from polite.run_pending_delivers [OF w1(2) this] w1(1) show ?thesis unfolding wk calls by (simp add: loop_round_def)
qed

text \<open>One object that waits for data and for room, and both have come.\<close>

definition sample_events :: evs where
  "sample_events = events_init\<lparr>ev_fdes := [2 \<mapsto> \<lparr>e_fd = 5, e_state = 0x103, e_events = 0, e_func = 7\<rparr>], ev_table := (replicate 256 None)[5 := Some 2],
     ev_read := [5], ev_write := [5], ev_n := 6\<rparr>"

lemma sample_events_ok: "ev_ok [] sample_events"
proof -
  have act: "active sample_events a i \<longleftrightarrow> a = 2 \<and> i = 5" for a i by (auto simp: active_def sample_events_def has_def)
  have "\<not> pending sample_events a" for a by (simp add: pending_def sample_events_def has_def)
  moreover have "fdes_ok sample_events" by (simp add: fdes_ok_def sample_events_def has_def)
  moreover have "table_ok sample_events" unfolding table_ok_def act by (simp add: sample_events_def)
  ultimately show ?thesis unfolding ev_ok_def act by (simp add: sample_events_def events_init_def ring_init_empty)
qed

text \<open>The callback stops waiting for room.\<close>

theorem round_delivers_witness:
  "\<exists>w'. loop_round 1025 (\<lambda>f fd ev. run_polite 8 (\<lambda>_. Some 99) [Ev_del 2 FDE_WRITE]) (Some (2, [5], [5], [])) sample_events
     = Some (Inr ([(7, 5, FDE_READ OR FDE_WRITE)], w'))"
proof -
  have "select_ok sample_events (Some (2, [5], [5], []))" by (simp add: select_ok_def sample_events_def)
  moreover have "filter (\<lambda>i. ready_events i [5] [5] [] \<noteq> 0) [0..<ev_n sample_events] = [5]"
    by (simp add: sample_events_def ready_events_def upt_rec)
  moreover have "e_func (the (ev_fdes sample_events (owner sample_events 5))) = 7" by (simp add: sample_events_def)
  moreover have "ready_events 5 [5] [5] [] = FDE_READ OR FDE_WRITE" by (simp add: ready_events_def)
  ultimately show ?thesis
    using round_delivers [OF sample_events_ok, of 2 "[5]" "[5]" "[]" 8 "\<lambda>_. Some 99" "\<lambda>f fd ev. [Ev_del 2 FDE_WRITE]"] by auto
qed

subsection \<open>Changing the events of a pending object\<close>

text \<open>
  The comment in \<open>fdevent_set\<close> says that an event that is no longer wanted is not signalled. The mask is
  inverted: an event that is taken back stays pending, and one that stays wanted is dropped.
\<close>

lemma set_masks_wanted:
  assumes "ev_ok P w" "ev_fdes w a = Some e" "e_state e = FDE_ACTIVE OR FDE_PENDING OR FDE_READ" "e_events e = FDE_READ"
  shows "(\<exists>w' e'. fdevent_del a FDE_READ w = Inr w' \<and> ev_fdes w' a = Some e' \<and> e_state e' AND FDE_EVENTMASK = 0 \<and> has FDE_PENDING e' \<and> e_events e' = FDE_READ)
    \<and> (\<exists>w' e'. fdevent_add a FDE_WRITE w = Inr w' \<and> ev_fdes w' a = Some e' \<and> e_state e' AND FDE_READ \<noteq> 0 \<and> \<not> has FDE_PENDING e' \<and> e_events e' = 0)"
proof -
  have act: "has FDE_ACTIVE e" using assms(3) by (simp add: has_def)
  obtain w1 where w1: "fdevent_update a (0 AND FDE_EVENTMASK) w = Inr (put_fde a (e\<lparr>e_state := (e_state e AND FDE_STATEMASK) OR (0 AND FDE_EVENTMASK)\<rparr>) w1)"
    using fdevent_update_ok [OF assms(1,2) act, of 0] by blast
  obtain w2 where w2: "fdevent_update a (3 AND FDE_EVENTMASK) w = Inr (put_fde a (e\<lparr>e_state := (e_state e AND FDE_STATEMASK) OR (3 AND FDE_EVENTMASK)\<rparr>) w2)"
    using fdevent_update_ok [OF assms(1,2) act, of 3] by blast
  show ?thesis
    using w1 w2 assms(2-4) act by (simp add: fdevent_del_def fdevent_add_def fdevent_set_def get_fde_def has_def)
qed

end
