(* ===== verification/BestFit.thy ===== *)
theory BestFit
  imports Prelude
begin

text \<open>
  The best fit allocator of the graphics memory (src/libgralloc/allocator.cpp and allocator.h), for a device
  with 32-bit \<open>size_t\<close>. The heap is cut into chunks, in units of 32 bytes, chained in a doubly linked list.
  The list class is modelled on pointers and shown to implement sequences; the allocator works on the
  sequence of its chunks. The page size and whether the checks of a debug build are compiled in are
  arguments; \<open>new\<close> succeeds.
\<close>

subsection \<open>The linked list\<close>

text \<open>Nodes are addresses, null is 0.\<close>

record llist =
  l_next :: "nat \<Rightarrow> nat"
  l_prev :: "nat \<Rightarrow> nat"
  l_first :: nat
  l_last :: nat

definition ll_empty :: "llist \<Rightarrow> llist" where
  "ll_empty L = L\<lparr>l_first := 0, l_last := 0\<rparr>"

definition insertAfter :: "nat \<Rightarrow> nat \<Rightarrow> llist \<Rightarrow> llist" where
  "insertAfter node newNode L =
     (let L = L\<lparr>l_prev := (l_prev L)(newNode := node)\<rparr>;
          L = L\<lparr>l_next := (l_next L)(newNode := l_next L node)\<rparr>;
          L = (if l_next L node = 0 then L\<lparr>l_last := newNode\<rparr> else L\<lparr>l_prev := (l_prev L)(l_next L node := newNode)\<rparr>)
      in L\<lparr>l_next := (l_next L)(node := newNode)\<rparr>)"

definition insertBefore :: "nat \<Rightarrow> nat \<Rightarrow> llist \<Rightarrow> llist" where
  "insertBefore node newNode L =
     (let L = L\<lparr>l_prev := (l_prev L)(newNode := l_prev L node)\<rparr>;
          L = L\<lparr>l_next := (l_next L)(newNode := node)\<rparr>;
          L = (if l_prev L node = 0 then L\<lparr>l_first := newNode\<rparr> else L\<lparr>l_next := (l_next L)(l_prev L node := newNode)\<rparr>)
      in L\<lparr>l_prev := (l_prev L)(node := newNode)\<rparr>)"

definition insertHead :: "nat \<Rightarrow> llist \<Rightarrow> llist" where
  "insertHead newNode L =
     (if l_first L = 0
      then L\<lparr>l_first := newNode, l_last := newNode, l_prev := (l_prev L)(newNode := 0), l_next := (l_next L)(newNode := 0)\<rparr>
      else
        let L = L\<lparr>l_prev := (l_prev L)(newNode := 0), l_next := (l_next L)(newNode := l_first L)\<rparr>;
            L = L\<lparr>l_prev := (l_prev L)(l_first L := newNode)\<rparr>
        in L\<lparr>l_first := newNode\<rparr>)"

definition insertTail :: "nat \<Rightarrow> llist \<Rightarrow> llist" where
  "insertTail newNode L =
     (if l_last L = 0 then insertHead newNode L
      else
        let L = L\<lparr>l_prev := (l_prev L)(newNode := l_last L), l_next := (l_next L)(newNode := 0)\<rparr>;
            L = L\<lparr>l_next := (l_next L)(l_last L := newNode)\<rparr>
        in L\<lparr>l_last := newNode\<rparr>)"

definition ll_remove :: "nat \<Rightarrow> llist \<Rightarrow> llist" where
  "ll_remove node L =
     (let L = (if l_prev L node = 0 then L\<lparr>l_first := l_next L node\<rparr> else L\<lparr>l_next := (l_next L)(l_prev L node := l_next L node)\<rparr>)
      in if l_next L node = 0 then L\<lparr>l_last := l_prev L node\<rparr> else L\<lparr>l_prev := (l_prev L)(l_next L node := l_prev L node)\<rparr>)"

text \<open>The nodes from one to another, and the whole list.\<close>

fun seg :: "llist \<Rightarrow> nat \<Rightarrow> nat list \<Rightarrow> nat \<Rightarrow> bool" where
  "seg L p [] n \<longleftrightarrow> True"
| "seg L p (x # xs) n \<longleftrightarrow> l_prev L x = p \<and> l_next L x = (case xs of [] \<Rightarrow> n | y # _ \<Rightarrow> y) \<and> seg L x xs n"

definition dll :: "nat list \<Rightarrow> llist \<Rightarrow> bool" where
  "dll xs L \<longleftrightarrow> distinct xs \<and> 0 \<notin> set xs \<and> l_first L = (case xs of [] \<Rightarrow> 0 | x # _ \<Rightarrow> x) \<and> l_last L = (if xs = [] then 0 else last xs) \<and> seg L 0 xs 0"

lemma seg_append:
  "seg L p (xs @ ys) n \<longleftrightarrow> seg L p xs (case ys of [] \<Rightarrow> n | y # _ \<Rightarrow> y) \<and> seg L (if xs = [] then p else last xs) ys n"
  by (induction xs arbitrary: p) (auto split: list.splits)

lemma seg_cong:
  "seg L p xs n \<Longrightarrow> (\<And>x. x \<in> set xs \<Longrightarrow> l_next L' x = l_next L x \<and> l_prev L' x = l_prev L x) \<Longrightarrow> seg L' p xs n"
  by (induction xs arbitrary: p) auto

abbreviation head_or :: "nat list \<Rightarrow> nat \<Rightarrow> nat" where "head_or ys n \<equiv> (case ys of [] \<Rightarrow> n | y # _ \<Rightarrow> y)"
abbreviation last_or :: "nat list \<Rightarrow> nat \<Rightarrow> nat" where "last_or xs p \<equiv> (if xs = [] then p else last xs)"

lemma dll_split: "dll (xs @ x # ys) L \<longleftrightarrow> distinct (xs @ x # ys) \<and> 0 \<notin> set (xs @ x # ys) \<and> l_first L = head_or xs x \<and> l_last L = last_or ys x
    \<and> seg L 0 xs x \<and> l_prev L x = last_or xs 0 \<and> l_next L x = head_or ys 0 \<and> seg L x ys 0"
  by (auto simp: dll_def seg_append split: list.splits)

text \<open>The first link of what follows and the last link of what comes before.\<close>

lemma seg_prev: "seg L p ys n \<Longrightarrow> distinct ys \<Longrightarrow> y \<notin> set ys \<Longrightarrow> (\<And>z. z \<in> set ys \<Longrightarrow> l_next L' z = l_next L z) \<Longrightarrow>
    (\<And>z. z \<in> set ys \<Longrightarrow> l_prev L' z = (if z = head_or ys 0 then y else l_prev L z)) \<Longrightarrow> seg L' y ys n"
  by (cases ys) (auto intro!: seg_cong [where L = L])

lemma seg_next: "seg L p xs n \<Longrightarrow> distinct xs \<Longrightarrow> (\<And>z. z \<in> set xs \<Longrightarrow> l_prev L' z = l_prev L z) \<Longrightarrow>
    (\<And>z. z \<in> set xs \<Longrightarrow> l_next L' z = (if z = last_or xs 0 then y else l_next L z)) \<Longrightarrow> seg L' p xs y"
proof (induction xs arbitrary: p)
  case (Cons x xs)
  show ?case
  proof (cases xs)
    case Nil
    with Cons show ?thesis by simp
  next
    case (Cons z zs)
    have "x \<noteq> last (z # zs)" using Cons.prems(2) Cons by auto
    then show ?thesis using Cons.IH [of x] Cons.prems Cons by auto
  qed
qed simp

lemma insertAfter_refines:
  assumes "dll (xs @ x # ys) L" "y \<notin> set (xs @ x # ys)" "y \<noteq> 0"
  shows "dll (xs @ x # y # ys) (insertAfter x y L)"
proof -
  note d = assms(1) [unfolded dll_split]
  let ?L = "insertAfter x y L"
  have hd: "head_or ys 0 \<noteq> y" "head_or ys 0 \<noteq> x" "ys \<noteq> [] \<Longrightarrow> head_or ys 0 \<noteq> 0 \<and> head_or ys 0 \<in> set ys" using d assms(2,3) by (cases ys; auto)+
  have n: "l_next ?L = (l_next L)(y := head_or ys 0, x := y)" "l_first ?L = l_first L" "l_last ?L = (if ys = [] then y else l_last L)"
    "l_prev ?L = (if ys = [] then (l_prev L)(y := x) else (l_prev L)(y := x, head_or ys 0 := y))"
    using d assms(2) hd by (cases ys; auto simp: insertAfter_def Let_def)+
  have "seg ?L y ys 0" by (rule seg_prev [of L x]) (use d assms(2) in \<open>auto simp: n\<close>)
  moreover have "seg ?L 0 xs x" by (rule seg_cong [of L]) (use d assms(2) hd in \<open>auto simp: n\<close>)
  moreover have "l_prev ?L x = last_or xs 0" "l_prev ?L y = x" using d assms(2) hd by (auto simp: n)
  ultimately show ?thesis
    using d assms(2,3) hd n(1-3) by (simp add: dll_split [of xs x "y # ys"])
qed

lemma insertBefore_refines:
  assumes "dll (xs @ x # ys) L" "y \<notin> set (xs @ x # ys)" "y \<noteq> 0"
  shows "dll (xs @ y # x # ys) (insertBefore x y L)"
proof -
  note d = assms(1) [unfolded dll_split]
  let ?L = "insertBefore x y L"
  have la: "last_or xs 0 \<noteq> y" "last_or xs 0 \<noteq> x" "xs \<noteq> [] \<Longrightarrow> last xs \<noteq> 0 \<and> last xs \<in> set xs \<and> last xs \<notin> set ys" using d assms(2,3) by (cases xs rule: rev_cases; auto)+
  have n: "l_prev ?L = (l_prev L)(y := last_or xs 0, x := y)"
    "l_next ?L = (if xs = [] then (l_next L)(y := x) else (l_next L)(y := x, last xs := y))"
    "l_last ?L = l_last L" "l_first ?L = (if xs = [] then y else l_first L)"
    using d assms(2) la by (cases "xs = []"; auto simp: insertBefore_def Let_def)+
  have "seg ?L 0 xs y" by (rule seg_next [of L 0 xs x]) (use d assms(2) la in \<open>auto simp: n\<close>)
  moreover have "seg ?L x ys 0" by (rule seg_cong [of L]) (use d assms(2) la in \<open>auto simp: n\<close>)
  moreover have "l_next ?L x = head_or ys 0" "l_next ?L y = x" using d assms(2) la by (auto simp: n)
  moreover have "l_first ?L = head_or xs y" "l_prev ?L y = last_or xs 0" "l_prev ?L x = y" "l_last ?L = last_or ys x" using d assms(2) by (cases xs; simp add: n)+
  ultimately show ?thesis unfolding dll_split [of xs y "x # ys"] using d assms(2,3) by simp
qed

lemma insertHead_refines:
  assumes "dll xs L" "y \<notin> set xs" "y \<noteq> 0"
  shows "dll (y # xs) (insertHead y L)"
proof (cases xs)
  case Nil
  then show ?thesis using assms by (simp add: dll_def insertHead_def)
next
  case (Cons x ys)
  have d: "dll ([] @ x # ys) L" using assms(1) Cons by simp
  note f = d [unfolded dll_split]
  have "insertHead y L = insertBefore x y L"
    using f assms(2,3) Cons by (auto simp: insertHead_def insertBefore_def Let_def)
  then show ?thesis using insertBefore_refines [OF d] assms(2,3) Cons by simp
qed

lemma insertTail_refines:
  assumes "dll xs L" "y \<notin> set xs" "y \<noteq> 0"
  shows "dll (xs @ [y]) (insertTail y L)"
proof (cases xs rule: rev_cases)
  case Nil
  then show ?thesis using assms insertHead_refines [OF assms] by (simp add: dll_def insertTail_def)
next
  case (snoc ys x)
  have d: "dll (ys @ x # []) L" using assms(1) snoc by simp
  note f = d [unfolded dll_split]
  have "insertTail y L = insertAfter x y L"
    using f assms(2,3) snoc by (auto simp: insertTail_def insertAfter_def Let_def)
  then show ?thesis using insertAfter_refines [OF d] assms(2,3) snoc by simp
qed

lemma ll_remove_refines:
  assumes "dll (xs @ x # ys) L"
  shows "dll (xs @ ys) (ll_remove x L)"
proof -
  note d = assms [unfolded dll_split]
  let ?L = "ll_remove x L"
  have la: "last_or xs 0 \<noteq> x" "xs \<noteq> [] \<Longrightarrow> last xs \<noteq> 0 \<and> last xs \<in> set xs \<and> last xs \<notin> set ys" using d by (cases xs rule: rev_cases; auto)+
  have hd: "head_or ys 0 \<noteq> x" "ys \<noteq> [] \<Longrightarrow> head_or ys 0 \<noteq> 0 \<and> head_or ys 0 \<in> set ys \<and> head_or ys 0 \<notin> set xs" using d by (cases ys; auto)+
  have n: "l_next ?L = (if xs = [] then l_next L else (l_next L)(last xs := head_or ys 0))"
    "l_prev ?L = (if ys = [] then l_prev L else (l_prev L)(head_or ys 0 := last_or xs 0))"
    "l_first ?L = (if xs = [] then head_or ys 0 else l_first L)" "l_last ?L = (if ys = [] then last_or xs 0 else l_last L)"
    using d la hd by (auto simp: ll_remove_def Let_def split del: list.split)
  have "seg ?L 0 xs (head_or ys 0)" by (rule seg_next [of L 0 xs x]) (use d la hd in \<open>auto simp: n\<close>)
  moreover have "seg ?L (last_or xs 0) ys 0"
  proof (rule seg_prev [of L x])
    show "last_or xs 0 \<notin> set ys" using d la by (cases "xs = []") auto
  qed (use d la hd in \<open>auto simp: n\<close>)
  moreover have "distinct (xs @ ys)" "0 \<notin> set (xs @ ys)" using d by auto
  moreover have "l_first ?L = head_or (xs @ ys) 0" "l_last ?L = last_or (xs @ ys) 0" using d by (cases xs; cases ys; simp add: n)+
  ultimately show ?thesis unfolding dll_def seg_append by simp
qed

subsection \<open>The allocator\<close>

text \<open>The size of a chunk is a field of 28 bits.\<close>

record chunk =
  ch_start :: u32
  ch_size :: u32
  ch_free :: bool

definition new_chunk :: "u32 \<Rightarrow> u32 \<Rightarrow> chunk" where
  "new_chunk start sz = \<lparr>ch_start = start, ch_size = take_bit 28 sz, ch_free = True\<rparr>"

record bfa =
  b_list :: "chunk list"
  b_heap :: u32

datatype bf_err = LogFatal string

abbreviation kMemoryAlign :: u32 where "kMemoryAlign \<equiv> 32"

abbreviation EINVAL :: int where "EINVAL \<equiv> 22"
abbreviation ENOMEM :: int where "ENOMEM \<equiv> 12"
abbreviation ENOENT :: int where "ENOENT \<equiv> 2"

definition SimpleBestFitAllocator :: bfa where
  "SimpleBestFitAllocator = \<lparr>b_list = [], b_heap = 0\<rparr>"

definition bf_destroy :: "bfa \<Rightarrow> bfa" where
  "bf_destroy b = b\<lparr>b_list := []\<rparr>"

definition setSize :: "u32 \<Rightarrow> u32 \<Rightarrow> bfa \<Rightarrow> int \<times> bfa" where
  "setSize pagesize sz b =
     (if b_heap b \<noteq> 0 then (- EINVAL, b)
      else
        let heap = (sz + pagesize - 1) AND NOT (pagesize - 1)
        in (sint sz, b\<lparr>b_heap := heap, b_list := new_chunk 0 (heap div kMemoryAlign) # b_list b\<rparr>))"

definition sized_allocator :: "u32 \<Rightarrow> u32 \<Rightarrow> bfa" where
  "sized_allocator pagesize sz = snd (setSize pagesize sz SimpleBestFitAllocator)"

definition bf_size :: "bfa \<Rightarrow> u32" where
  "bf_size b = b_heap b"

text \<open>The distance to the next page, in units.\<close>

definition page_extra :: "u32 \<Rightarrow> u32 \<Rightarrow> u32" where
  "page_extra pagesize start = (- start) AND (pagesize div kMemoryAlign - 1)"

text \<open>The search: the position and the chunk that fits best so far.\<close>

definition better :: "nat \<Rightarrow> chunk \<Rightarrow> (nat \<times> chunk) option \<Rightarrow> (nat \<times> chunk) option" where
  "better i c best =
     (case best of None \<Rightarrow> Some (i, c) | Some (j, d) \<Rightarrow> if ch_size c < ch_size d then Some (i, c) else Some (j, d))"

fun best_fit :: "u32 \<Rightarrow> u32 \<Rightarrow> chunk list \<Rightarrow> nat \<Rightarrow> (nat \<times> chunk) option \<Rightarrow> (nat \<times> chunk) option" where
  "best_fit pagesize sz [] i best = best"
| "best_fit pagesize sz (c # cs) i best =
     (if ch_free c \<and> sz + page_extra pagesize (ch_start c) \<le> ch_size c
      then
        let best = better i c best
        in if ch_size c = sz then best else best_fit pagesize sz cs (i + 1) best
      else best_fit pagesize sz cs (i + 1) best)"

text \<open>What takes the place of the chunk: a free chunk up to the page, the block, and what is left over.\<close>

definition split_chunk :: "u32 \<Rightarrow> u32 \<Rightarrow> chunk \<Rightarrow> chunk list \<times> chunk \<times> chunk list" where
  "split_chunk pagesize sz c =
     (let free_size = ch_size c; c = c\<lparr>ch_free := False, ch_size := take_bit 28 sz\<rparr>
      in if sz < free_size
         then
           let extra = page_extra pagesize (ch_start c);
               pre = (if extra \<noteq> 0 then [new_chunk (ch_start c) extra] else []);
               c = (if extra \<noteq> 0 then c\<lparr>ch_start := ch_start c + extra\<rparr> else c);
               tail_free = free_size - (sz + extra);
               post = (if 0 < sint tail_free then [new_chunk (ch_start c + ch_size c) tail_free] else [])
           in (pre, c, post)
         else ([], c, []))"

definition bf_alloc :: "u32 \<Rightarrow> u32 \<Rightarrow> chunk list \<Rightarrow> int \<times> chunk list" where
  "bf_alloc pagesize sz cs =
     (if sz = 0 then (0, cs)
      else
        let sz = (sz + kMemoryAlign - 1) div kMemoryAlign
        in case best_fit pagesize sz cs 0 None of
             None \<Rightarrow> (- ENOMEM, cs)
           | Some (i, c) \<Rightarrow>
               (case split_chunk pagesize sz c of
                  (pre, c, post) \<Rightarrow> (sint (ch_start c * kMemoryAlign), take i cs @ pre @ [c] @ post @ drop (i + 1) cs)))"

definition allocate :: "u32 \<Rightarrow> u32 \<Rightarrow> bfa \<Rightarrow> int \<times> bfa" where
  "allocate pagesize sz b =
     (if b_heap b = 0 then (- EINVAL, b)
      else case bf_alloc pagesize sz (b_list b) of (r, cs) \<Rightarrow> (r, b\<lparr>b_list := cs\<rparr>))"

text \<open>
  The loop that merges free neighbours, on the chunks before the current one, nearest first, and those
  after it. The flag says whether the chunk that \<open>freed\<close> points to is free.
\<close>

fun merge_loop :: "chunk list \<Rightarrow> chunk \<Rightarrow> chunk list \<Rightarrow> bool \<Rightarrow> bool \<times> chunk list" where
  "merge_loop ps cur ns freed =
     (let (ps, freed) =
        (case ps of
           p # qs \<Rightarrow> if ch_free p \<or> ch_size cur = 0
                     then (p\<lparr>ch_size := take_bit 28 (ch_size p + ch_size cur)\<rparr> # qs, ch_free p) else (cur # ps, freed)
         | [] \<Rightarrow> ([cur], freed))
      in case ns of
           n # ms \<Rightarrow> if ch_free n then merge_loop ps n ms freed else (freed, rev ps @ n # ms)
         | [] \<Rightarrow> (freed, rev ps))"

fun dealloc :: "bool \<Rightarrow> u32 \<Rightarrow> chunk list \<Rightarrow> chunk list \<Rightarrow> bf_err + bool \<times> chunk list" where
  "dealloc debug start ps [] = Inr (False, rev ps)"
| "dealloc debug start ps (c # cs) =
     (if ch_start c = start
      then
        (if debug \<and> ch_free c then Inl (LogFatal ''already freed'')
         else case merge_loop ps (c\<lparr>ch_free := True\<rparr>) cs True of
           (freed, cs') \<Rightarrow> if debug \<and> \<not> freed then Inl (LogFatal ''is not free'') else Inr (True, cs'))
      else dealloc debug start (c # ps) cs)"

definition deallocate :: "bool \<Rightarrow> u32 \<Rightarrow> bfa \<Rightarrow> bf_err + int \<times> bfa" where
  "deallocate debug offset b =
     (if b_heap b = 0 then Inr (- EINVAL, b)
      else case dealloc debug (offset div kMemoryAlign) [] (b_list b) of
        Inl e \<Rightarrow> Inl e
      | Inr (freed, cs) \<Rightarrow> Inr (if freed then 0 else - ENOENT, b\<lparr>b_list := cs\<rparr>))"

subsection \<open>The invariant\<close>

text \<open>
  The chunks tile the heap without gaps, no two free chunks are neighbours, and every block starts at a
  page, which has \<open>2 ^ n\<close> units.
\<close>

fun tiles :: "nat \<Rightarrow> chunk list \<Rightarrow> nat \<Rightarrow> bool" where
  "tiles s [] e \<longleftrightarrow> s = e"
| "tiles s (c # cs) e \<longleftrightarrow> unat (ch_start c) = s \<and> 0 < unat (ch_size c) \<and> tiles (s + unat (ch_size c)) cs e"

fun coalesced :: "chunk list \<Rightarrow> bool" where
  "coalesced (c # d # cs) \<longleftrightarrow> \<not> (ch_free c \<and> ch_free d) \<and> coalesced (d # cs)"
| "coalesced _ \<longleftrightarrow> True"

definition chunks_ok :: "nat \<Rightarrow> nat \<Rightarrow> chunk list \<Rightarrow> bool" where
  "chunks_ok n H cs \<longleftrightarrow> tiles 0 cs H \<and> coalesced cs \<and> (\<forall>c \<in> set cs. \<not> ch_free c \<longrightarrow> 2 ^ n dvd unat (ch_start c))"

definition bf_ok :: "nat \<Rightarrow> bfa \<Rightarrow> bool" where
  "bf_ok n b \<longleftrightarrow> 0 < unat (b_heap b) \<and> unat (b_heap b) < 2 ^ 31 \<and> 32 dvd unat (b_heap b) \<and> chunks_ok n (unat (b_heap b) div 32) (b_list b)"

definition live :: "chunk list \<Rightarrow> (nat \<times> nat) set" where
  "live cs = set (map (\<lambda>c. (unat (ch_start c), unat (ch_size c))) (filter (\<lambda>c. \<not> ch_free c) cs))"

lemma tiles_append: "tiles s (xs @ ys) e \<longleftrightarrow> (\<exists>m. tiles s xs m \<and> tiles m ys e)"
  by (induction xs arbitrary: s) auto

lemma tiles_le: "tiles s cs e \<Longrightarrow> s \<le> e"
  by (induction cs arbitrary: s) (auto, fastforce)

lemma tiles_member:
  "tiles s cs e \<Longrightarrow> c \<in> set cs \<Longrightarrow> s \<le> unat (ch_start c) \<and> 0 < unat (ch_size c) \<and> unat (ch_start c) + unat (ch_size c) \<le> e"
  by (induction cs arbitrary: s) (auto dest: tiles_le, fastforce+)

lemma coalesced_Cons: "coalesced (c # cs) \<longleftrightarrow> coalesced cs \<and> (cs = [] \<or> \<not> (ch_free c \<and> ch_free (hd cs)))"
  by (cases cs) auto

lemma coalesced_append:
  "coalesced (xs @ ys) \<longleftrightarrow> coalesced xs \<and> coalesced ys \<and> (xs = [] \<or> ys = [] \<or> \<not> (ch_free (last xs) \<and> ch_free (hd ys)))"
proof (induction xs)
  case (Cons x xs)
  then show ?case by (cases xs; cases ys) (auto simp: coalesced_Cons)
qed simp

subsection \<open>Page alignment\<close>

lemma page_extra_take_bit:
  assumes "n \<le> 26"
  shows "page_extra (2 ^ (5 + n)) start = take_bit n (- start)"
proof -
  have "(2 :: u32) ^ (5 + n) div 2 ^ 5 = 2 ^ n"
    unfolding drop_bit_eq_div[symmetric] by (rule bit_word_eqI) (use assms in \<open>auto simp: bit_drop_bit_eq bit_exp_iff\<close>)
  then have "(2 :: u32) ^ (5 + n) div 32 = 2 ^ n" by simp
  then show ?thesis unfolding page_extra_def by (simp add: take_bit_eq_mask mask_eq_decr_exp)
qed

lemma page_extra_aligns:
  assumes "n \<le> 26"
  shows "unat (page_extra (2 ^ (5 + n)) start) < 2 ^ n"
    and "2 ^ n dvd unat start + unat (page_extra (2 ^ (5 + n)) start)"
proof -
  let ?s = "unat start" and ?m = "unat (- start)"
  have e: "unat (page_extra (2 ^ (5 + n)) start) = ?m mod 2 ^ n"
    unfolding page_extra_take_bit[OF assms] unsigned_take_bit_eq by (rule take_bit_eq_mod)
  then show "unat (page_extra (2 ^ (5 + n)) start) < 2 ^ n" by simp
  have "(?s + ?m) mod 2 ^ 32 = unat (start + - start)" using unat_word_ariths(1)[of start "- start"] by simp
  then have "2 ^ 32 dvd ?s + ?m" by (simp add: mod_eq_0_iff_dvd)
  moreover have "(2 :: nat) ^ n dvd 2 ^ 32" using assms by (intro le_imp_power_dvd) simp
  ultimately have "2 ^ n dvd ?s + ?m" by (rule dvd_trans[rotated])
  then show "2 ^ n dvd ?s + unat (page_extra (2 ^ (5 + n)) start)"
    unfolding e by (simp add: dvd_eq_mod_eq_0 mod_add_right_eq)
qed

lemma unat_add_small: "unat a + unat b < 2 ^ 32 \<Longrightarrow> unat (a + b :: u32) = unat a + unat b"
  by (simp add: unat_word_ariths(1))

lemma unat_take_bit_28: "unat (w :: u32) < 2 ^ 28 \<Longrightarrow> take_bit 28 w = w"
  by (rule word_unat_eq_iff[THEN iffD2]) (simp add: unsigned_take_bit_eq take_bit_nat_eq_self)

lemma units_of_size:
  assumes "unat (sz :: u32) + 31 < 2 ^ 32"
  shows "unat ((sz + kMemoryAlign - 1) div kMemoryAlign) = (unat sz + 31) div 32"
proof -
  have "sz + 32 - 1 = sz + 31" by simp
  moreover have "unat (sz + 31) = unat sz + 31" using assms by (subst unat_add_small) simp_all
  ultimately show ?thesis by (simp only: unat_div) simp
qed

subsection \<open>The search\<close>

definition chunk_fits :: "u32 \<Rightarrow> u32 \<Rightarrow> chunk \<Rightarrow> bool" where
  "chunk_fits pagesize sz c \<longleftrightarrow> ch_free c \<and> unat sz + unat (page_extra pagesize (ch_start c)) \<le> unat (ch_size c)"

lemma fits_iff:
  assumes "n \<le> 26" "unat sz \<le> 2 ^ 27"
  shows "ch_free c \<and> sz + page_extra (2 ^ (5 + n)) (ch_start c) \<le> ch_size c \<longleftrightarrow> chunk_fits (2 ^ (5 + n)) sz c"
proof -
  have "(2 :: nat) ^ n \<le> 2 ^ 26" using assms(1) by (intro power_increasing) simp_all
  then have "unat sz + unat (page_extra (2 ^ (5 + n)) (ch_start c)) < 2 ^ 32"
    using page_extra_aligns(1)[OF assms(1), of "ch_start c"] assms(2) by simp
  then show ?thesis unfolding chunk_fits_def word_le_nat_alt by (simp only: unat_add_small)
qed

lemma better_some:
  obtains b where "better i c best = Some b" "best = Some b \<or> b = (i, c)" "unat (ch_size (snd b)) \<le> unat (ch_size c)"
    "\<forall>d. best = Some d \<longrightarrow> unat (ch_size (snd b)) \<le> unat (ch_size (snd d))"
proof (cases best)
  case None
  then show thesis using that[of "(i, c)"] by (simp add: better_def)
next
  case (Some b)
  show thesis
  proof (cases "unat (ch_size c) < unat (ch_size (snd b))")
    case True
    then show thesis using Some by (cases b) (rule that[of "(i, c)"], auto simp: better_def word_less_nat_alt)
  next
    case False
    then show thesis using Some by (cases b) (rule that[of b], auto simp: better_def word_less_nat_alt)
  qed
qed

lemma best_fit_Cons:
  assumes "n \<le> 26" "unat sz \<le> 2 ^ 27"
  shows "best_fit (2 ^ (5 + n)) sz (c # cs) i best =
     (if chunk_fits (2 ^ (5 + n)) sz c
      then
        let best = better i c best
        in if ch_size c = sz then best else best_fit (2 ^ (5 + n)) sz cs (i + 1) best
      else best_fit (2 ^ (5 + n)) sz cs (i + 1) best)"
  unfolding best_fit.simps fits_iff[OF assms] by (rule refl)

lemma best_fit_none:
  assumes "n \<le> 26" "unat sz \<le> 2 ^ 27" "best_fit (2 ^ (5 + n)) sz cs i best = None"
  shows "best = None \<and> (\<forall>d \<in> set cs. \<not> chunk_fits (2 ^ (5 + n)) sz d)"
  using assms(3)
proof (induction cs arbitrary: i best)
  case (Cons c cs)
  have "\<not> chunk_fits (2 ^ (5 + n)) sz c"
  proof
    assume f: "chunk_fits (2 ^ (5 + n)) sz c"
    obtain b where "better i c best = Some b" by (rule better_some)
    then show False using f Cons.prems Cons.IH[of "i + 1" "Some b"] unfolding best_fit_Cons[OF assms(1,2)] Let_def
      by (simp split: if_splits)
  qed
  then show ?case using Cons.prems Cons.IH[of "i + 1" best] unfolding best_fit_Cons[OF assms(1,2)] by simp
qed simp

lemma best_fit_some:
  assumes "n \<le> 26" "unat sz \<le> 2 ^ 27" "best_fit (2 ^ (5 + n)) sz cs i best = Some (j, c)"
  shows "best = Some (j, c) \<or> (\<exists>xs ys. cs = xs @ c # ys \<and> j = i + length xs \<and> chunk_fits (2 ^ (5 + n)) sz c)"
  using assms(3)
proof (induction cs arbitrary: i best)
  case (Cons d cs)
  have here: "\<exists>xs ys. d # cs = xs @ c # ys \<and> j = i + length xs \<and> chunk_fits (2 ^ (5 + n)) sz c" if "chunk_fits (2 ^ (5 + n)) sz d" "d = c" "j = i"
    using that by (intro exI[of _ "[]"] exI[of _ cs]) simp
  have later: "\<exists>xs ys. d # cs = xs @ c # ys \<and> j = i + length xs \<and> chunk_fits (2 ^ (5 + n)) sz c"
    if "\<exists>xs ys. cs = xs @ c # ys \<and> j = i + 1 + length xs \<and> chunk_fits (2 ^ (5 + n)) sz c"
    using that by (metis (no_types, lifting) append_Cons add.assoc length_Cons plus_1_eq_Suc)
  obtain best' where b: "best' = best \<or> (best' = Some (i, d) \<and> chunk_fits (2 ^ (5 + n)) sz d)"
    and r: "best' = Some (j, c) \<or> best_fit (2 ^ (5 + n)) sz cs (i + 1) best' = Some (j, c)"
  proof (cases "chunk_fits (2 ^ (5 + n)) sz d")
    case True
    obtain b where "better i d best = Some b" "best = Some b \<or> b = (i, d)" by (rule better_some)
    then show thesis using that[of "Some b"] Cons.prems True unfolding best_fit_Cons[OF assms(1,2)] Let_def by (auto split: if_splits)
  next
    case False
    then show thesis using that[of best] Cons.prems unfolding best_fit_Cons[OF assms(1,2)] by simp
  qed
  from r show ?case
  proof
    assume "best' = Some (j, c)"
    then show ?thesis using b here by auto
  next
    assume "best_fit (2 ^ (5 + n)) sz cs (i + 1) best' = Some (j, c)"
    from Cons.IH[OF this] show ?thesis using b here later by auto
  qed
qed simp

lemma best_fit_min:
  assumes "n \<le> 26" "unat sz \<le> 2 ^ 27" "best_fit (2 ^ (5 + n)) sz cs i best = Some (j, c)"
    and "\<And>b. best = Some b \<Longrightarrow> unat sz \<le> unat (ch_size (snd b))"
  shows "(\<forall>d \<in> set cs. chunk_fits (2 ^ (5 + n)) sz d \<longrightarrow> unat (ch_size c) \<le> unat (ch_size d))
    \<and> (\<forall>b. best = Some b \<longrightarrow> unat (ch_size c) \<le> unat (ch_size (snd b)))"
  using assms(3,4)
proof (induction cs arbitrary: i best)
  case (Cons d cs)
  have le: "unat sz \<le> unat (ch_size e)" if "chunk_fits (2 ^ (5 + n)) sz e" for e using that by (simp add: chunk_fits_def)
  show ?case
  proof (cases "chunk_fits (2 ^ (5 + n)) sz d")
    case False
    then show ?thesis using Cons.IH[of "i + 1" best] Cons.prems unfolding best_fit_Cons[OF assms(1,2)] by simp
  next
    case True
    define best' where "best' = better i d best"
    obtain b' where b': "best' = Some b'" "unat (ch_size (snd b')) \<le> unat (ch_size d)" "unat sz \<le> unat (ch_size (snd b'))"
      "\<And>b. best = Some b \<Longrightarrow> unat (ch_size (snd b')) \<le> unat (ch_size (snd b))"
    proof -
      obtain b where b: "better i d best = Some b" "best = Some b \<or> b = (i, d)" "unat (ch_size (snd b)) \<le> unat (ch_size d)"
        "\<forall>e. best = Some e \<longrightarrow> unat (ch_size (snd b)) \<le> unat (ch_size (snd e))" by (rule better_some)
      then have "unat sz \<le> unat (ch_size (snd b))" using le[OF True] Cons.prems(2)[of b] by auto
      then show thesis using b by (intro that[of b]) (simp_all add: best'_def)
    qed
    show ?thesis
    proof (cases "ch_size d = sz")
      case sd: True
      then have "best' = Some (j, c)" using Cons.prems(1) True unfolding best_fit_Cons[OF assms(1,2)] best'_def by simp
      then have "unat (ch_size c) \<le> unat sz" using b' sd by simp
      then show ?thesis using b' le Cons.prems(2) \<open>best' = Some (j, c)\<close> by fastforce
    next
      case False
      then have "best_fit (2 ^ (5 + n)) sz cs (i + 1) best' = Some (j, c)"
        using Cons.prems(1) True unfolding best_fit_Cons[OF assms(1,2)] best'_def by simp
      from Cons.IH[OF this] b' show ?thesis by fastforce
    qed
  qed
qed simp

subsection \<open>Allocation\<close>

text \<open>
  The chunk that is taken is replaced by a free chunk up to the next page, the block, and the free rest;
  the three together are the memory of the chunk.
\<close>

abbreviation extra :: "nat \<Rightarrow> chunk \<Rightarrow> u32" where
  "extra n c \<equiv> page_extra (2 ^ (5 + n)) (ch_start c)"

definition lead_part :: "nat \<Rightarrow> chunk \<Rightarrow> chunk list" where
  "lead_part n c = (if extra n c = 0 then [] else [\<lparr>ch_start = ch_start c, ch_size = extra n c, ch_free = True\<rparr>])"

definition block_part :: "nat \<Rightarrow> u32 \<Rightarrow> chunk \<Rightarrow> chunk" where
  "block_part n u c = \<lparr>ch_start = ch_start c + extra n c, ch_size = u, ch_free = False\<rparr>"

definition rest_part :: "nat \<Rightarrow> u32 \<Rightarrow> chunk \<Rightarrow> chunk list" where
  "rest_part n u c =
     (if unat (ch_size c) = unat u + unat (extra n c) then []
      else [\<lparr>ch_start = ch_start c + extra n c + u, ch_size = ch_size c - (u + extra n c), ch_free = True\<rparr>])"

lemma sint_small: "unat (w :: u32) < 2 ^ 31 \<Longrightarrow> sint w = int (unat w)"
proof -
  assume "unat w < 2 ^ 31"
  then have "int (unat w) < int (2 ^ 31)" by (rule of_nat_less_iff[THEN iffD2])
  then have "uint w < 2 ^ 31" by simp
  moreover have "- (2 ^ 31) \<le> uint w" by (rule order_trans[OF _ uint_ge_0]) simp
  ultimately show ?thesis by (simp add: sint_uint signed_take_bit_int_eq_self)
qed

definition carvable :: "nat \<Rightarrow> u32 \<Rightarrow> chunk \<Rightarrow> bool" where
  "carvable n u c \<longleftrightarrow> n \<le> 26 \<and> chunk_fits (2 ^ (5 + n)) u c \<and> unat (ch_start c) + unat (ch_size c) < 2 ^ 27"

lemma carvableD:
  assumes "carvable n u c"
  shows "n \<le> 26" "unat u + unat (extra n c) \<le> unat (ch_size c)" "ch_free c" "unat (ch_start c) + unat (ch_size c) < 2 ^ 27"
  using assms by (simp_all add: carvable_def chunk_fits_def)

lemma unat_block_start: "carvable n u c \<Longrightarrow> unat (ch_start c + extra n c) = unat (ch_start c) + unat (extra n c)"
  using carvableD[of n u c] by (subst unat_add_small) simp_all

lemma unat_rest_start: "carvable n u c \<Longrightarrow> unat (ch_start c + extra n c + u) = unat (ch_start c) + unat (extra n c) + unat u"
  using carvableD[of n u c] by (subst unat_add_small) (simp_all add: unat_block_start)

lemma unat_rest_size:
  assumes "carvable n u c"
  shows "unat (ch_size c - (u + extra n c)) = unat (ch_size c) - (unat u + unat (extra n c))"
proof -
  have "unat (u + extra n c) = unat u + unat (extra n c)" using carvableD[OF assms] by (subst unat_add_small) simp_all
  then show ?thesis using carvableD[OF assms] by (subst unat_sub) (simp_all add: word_le_nat_alt)
qed

lemmas unat_parts = unat_block_start unat_rest_start unat_rest_size

lemma split_chunk_parts:
  assumes "carvable n u c"
  shows "split_chunk (2 ^ (5 + n)) u c = (lead_part n c, block_part n u c, rest_part n u c)"
proof -
  note fit = carvableD[OF assms]
  have s: "take_bit 28 u = u" "take_bit 28 (extra n c) = extra n c"
    "take_bit 28 (ch_size c - (u + extra n c)) = ch_size c - (u + extra n c)"
    using fit by (simp_all add: unat_take_bit_28 unat_rest_size[OF assms])
  have "sint (ch_size c - (u + extra n c)) = int (unat (ch_size c) - (unat u + unat (extra n c)))"
    using fit by (subst sint_small) (simp_all add: unat_rest_size[OF assms])
  then have pos: "0 < sint (ch_size c - (u + extra n c)) \<longleftrightarrow> unat (ch_size c) \<noteq> unat u + unat (extra n c)"
    using fit(2) by linarith
  show ?thesis
  proof (cases "u < ch_size c")
    case True
    then show ?thesis
      by (cases c) (use s pos in \<open>simp add: split_chunk_def Let_def new_chunk_def lead_part_def block_part_def rest_part_def\<close>)
  next
    case False
    then have "unat (extra n c) = 0" "unat (ch_size c) = unat u + unat (extra n c)"
      using fit(2) by (simp_all add: word_less_nat_alt)
    then show ?thesis using False
      by (cases c) (use s in \<open>simp add: split_chunk_def lead_part_def block_part_def rest_part_def unat_eq_0\<close>)
  qed
qed

lemma parts_tile:
  assumes "carvable n u c" "0 < unat u"
  shows "tiles (unat (ch_start c)) (lead_part n c @ block_part n u c # rest_part n u c) (unat (ch_start c) + unat (ch_size c))"
proof -
  have z: "0 < unat (extra n c)" if "extra n c \<noteq> 0" using that by (simp add: unat_gt_0)
  have "tiles (unat (ch_start c)) (lead_part n c) (unat (ch_start c) + unat (extra n c))"
    using z by (simp add: lead_part_def)
  moreover have "tiles (unat (ch_start c) + unat (extra n c)) (block_part n u c # rest_part n u c) (unat (ch_start c) + unat (ch_size c))"
    using assms(2) carvableD[OF assms(1)] by (simp add: block_part_def rest_part_def unat_parts[OF assms(1)])
  ultimately show ?thesis by (auto simp: tiles_append)
qed

lemma block_aligned: "carvable n u c \<Longrightarrow> 2 ^ n dvd unat (ch_start (block_part n u c))"
  using page_extra_aligns(2)[of n "ch_start c"] carvableD(1)[of n u c] by (simp add: block_part_def unat_parts)

lemma chunks_ok_carve:
  assumes "chunks_ok n H (xs @ c # ys)" "carvable n u c" "0 < unat u"
  shows "chunks_ok n H (xs @ lead_part n c @ block_part n u c # rest_part n u c @ ys)"
proof -
  let ?ps = "lead_part n c @ block_part n u c # rest_part n u c"
  have t: "tiles 0 (xs @ c # ys) H" and k: "coalesced (xs @ c # ys)" using assms(1) by (simp_all add: chunks_ok_def)
  from t have "tiles 0 xs (unat (ch_start c))" "tiles (unat (ch_start c) + unat (ch_size c)) ys H"
    by (auto simp: tiles_append)
  then have "tiles 0 (xs @ ?ps @ ys) H" using parts_tile[OF assms(2,3)] unfolding tiles_append by blast
  moreover have "coalesced (xs @ ?ps @ ys)"
    using k carvableD(3)[OF assms(2)]
    by (auto simp: coalesced_append coalesced_Cons lead_part_def block_part_def rest_part_def)
  moreover have "\<forall>d \<in> set (xs @ ?ps @ ys). \<not> ch_free d \<longrightarrow> 2 ^ n dvd unat (ch_start d)"
    using assms(1) block_aligned[OF assms(2)] by (auto simp: chunks_ok_def lead_part_def rest_part_def)
  ultimately show ?thesis by (simp add: chunks_ok_def)
qed

lemma live_carve:
  "ch_free c \<Longrightarrow> live (xs @ lead_part n c @ block_part n u c # rest_part n u c @ ys)
    = insert (unat (ch_start (block_part n u c)), unat u) (live (xs @ c # ys))"
  by (auto simp: live_def lead_part_def rest_part_def block_part_def)

lemma bf_ok_bounds:
  assumes "bf_ok n b" "c \<in> set (b_list b)"
  shows "unat (ch_start c) + unat (ch_size c) \<le> unat (b_heap b) div 32" "unat (b_heap b) div 32 < 2 ^ 26" "0 < unat (ch_size c)"
  using assms tiles_member[of 0 "b_list b" "unat (b_heap b) div 32" c]
  by (auto simp: bf_ok_def chunks_ok_def less_mult_imp_div_less)

lemma allocate_cases:
  assumes "bf_ok n b" "n \<le> 26" "0 < unat sz" "unat sz + 31 < 2 ^ 32" "unat u = (unat sz + 31) div 32"
  obtains (full) "allocate (2 ^ (5 + n)) sz b = (- ENOMEM, b)" "\<forall>d \<in> set (b_list b). \<not> chunk_fits (2 ^ (5 + n)) u d"
  | (block) xs c ys where "b_list b = xs @ c # ys" "carvable n u c" "0 < unat u"
      "\<forall>d \<in> set (b_list b). chunk_fits (2 ^ (5 + n)) u d \<longrightarrow> unat (ch_size c) \<le> unat (ch_size d)"
      "allocate (2 ^ (5 + n)) sz b =
         (int (unat (ch_start (block_part n u c)) * 32), b\<lparr>b_list := xs @ lead_part n c @ block_part n u c # rest_part n u c @ ys\<rparr>)"
proof -
  let ?pg = "2 ^ (5 + n) :: u32"
  have u: "(sz + kMemoryAlign - 1) div kMemoryAlign = u" "0 < unat u" "unat u \<le> 2 ^ 27"
    using assms(3,4,5) units_of_size[OF assms(4)] by (auto simp: word_unat_eq_iff)
  have a: "allocate ?pg sz b = (case best_fit ?pg u (b_list b) 0 None of None \<Rightarrow> (- ENOMEM, b)
     | Some (i, c) \<Rightarrow> (case split_chunk ?pg u c of (pre, d, post) \<Rightarrow>
         (sint (ch_start d * 32), b\<lparr>b_list := take i (b_list b) @ pre @ [d] @ post @ drop (i + 1) (b_list b)\<rparr>)))"
    using assms(1,3) unfolding allocate_def bf_alloc_def bf_ok_def u(1) Let_def
    by (auto simp: unat_eq_0 split: option.split prod.split)
  show thesis
  proof (cases "best_fit ?pg u (b_list b) 0 None")
    case None
    then show thesis using full a best_fit_none[OF assms(2) u(3) None] by simp
  next
    case (Some r)
    obtain i c where r: "r = (i, c)" by (cases r)
    have some: "best_fit ?pg u (b_list b) 0 None = Some (i, c)" using Some r by simp
    obtain xs ys where x: "b_list b = xs @ c # ys" "i = length xs" and fit: "chunk_fits ?pg u c"
      using best_fit_some[OF assms(2) u(3) some] by auto
    have m: "\<forall>d \<in> set (b_list b). chunk_fits ?pg u d \<longrightarrow> unat (ch_size c) \<le> unat (ch_size d)"
      using best_fit_min[OF assms(2) u(3) some] by simp
    have bd: "unat (ch_start c) + unat (ch_size c) < 2 ^ 26"
      using bf_ok_bounds[OF assms(1), of c] x(1) by simp
    have k: "carvable n u c" using assms(2) fit bd by (simp add: carvable_def)
    let ?st = "ch_start (block_part n u c)"
    have "unat ?st < 2 ^ 26" using carvableD[OF k] bd u(2) by (simp add: block_part_def unat_parts[OF k])
    then have "unat (?st * 32) = unat ?st * 32" "unat ?st * 32 < 2 ^ 31" by (simp_all add: unat_word_ariths(2))
    then have "sint (?st * 32) = int (unat ?st * 32)" by (subst sint_small) simp_all
    then have "allocate ?pg sz b = (int (unat ?st * 32), b\<lparr>b_list := xs @ lead_part n c @ block_part n u c # rest_part n u c @ ys\<rparr>)"
      unfolding a some by (simp add: split_chunk_parts[OF k] x)
    then show thesis by (rule block[OF x(1) k u(2) m])
  qed
qed

lemma tiles_apart:
  assumes "tiles s (xs @ c # ys) e"
  shows "d \<in> set xs \<Longrightarrow> unat (ch_start d) + unat (ch_size d) \<le> unat (ch_start c)"
    and "d \<in> set ys \<Longrightarrow> unat (ch_start c) + unat (ch_size c) \<le> unat (ch_start d)"
  using assms tiles_member[of s xs _ d] tiles_member[of _ ys e d] by (auto simp: tiles_append)

text \<open>The blocks that have been handed out and not given back, as offsets and lengths in bytes.\<close>

definition heap_blocks :: "bfa \<Rightarrow> (nat \<times> nat) set" where
  "heap_blocks b = (\<lambda>(s, l). (32 * s, 32 * l)) ` live (b_list b)"

lemma live_apart:
  assumes "tiles 0 (xs @ c # ys) H" "ch_free c" "(s, l) \<in> live (xs @ c # ys)"
  shows "s + l \<le> unat (ch_start c) \<or> unat (ch_start c) + unat (ch_size c) \<le> s"
  using assms(2,3) tiles_apart[OF assms(1)] by (auto simp: live_def)

lemma block_inside:
  assumes "carvable n u c"
  shows "unat (ch_start c) \<le> unat (ch_start (block_part n u c))"
    and "unat (ch_start (block_part n u c)) + unat u \<le> unat (ch_start c) + unat (ch_size c)"
  using carvableD[OF assms] by (simp_all add: block_part_def unat_parts[OF assms])

lemma allocate_spec:
  assumes "bf_ok n b" "n \<le> 26" "0 < unat sz" "unat sz + 31 < 2 ^ 32" "unat u = (unat sz + 31) div 32"
    and "allocate (2 ^ (5 + n)) sz b = (r, b')"
  shows "bf_ok n b' \<and> b_heap b' = b_heap b \<and>
    (if r < 0 then r = - ENOMEM \<and> b' = b \<and> (\<forall>d \<in> set (b_list b). \<not> chunk_fits (2 ^ (5 + n)) u d)
     else \<exists>off c. r = int off \<and> 2 ^ (5 + n) dvd off \<and> off + unat sz \<le> unat (b_heap b)
       \<and> heap_blocks b' = insert (off, 32 * unat u) (heap_blocks b)
       \<and> (\<forall>(s, l) \<in> heap_blocks b. s + l \<le> off \<or> off + 32 * unat u \<le> s)
       \<and> c \<in> set (b_list b) \<and> chunk_fits (2 ^ (5 + n)) u c \<and> 32 * unat (ch_start c) \<le> off
       \<and> off + 32 * unat u \<le> 32 * (unat (ch_start c) + unat (ch_size c))
       \<and> (\<forall>d \<in> set (b_list b). chunk_fits (2 ^ (5 + n)) u d \<longrightarrow> unat (ch_size c) \<le> unat (ch_size d)))"
  using assms(1-5)
proof (cases rule: allocate_cases)
  case full
  then show ?thesis using assms(1,6) by simp
next
  case (block xs c ys)
  let ?st = "unat (ch_start (block_part n u c))" and ?H = "unat (b_heap b) div 32"
  have r: "r = int (?st * 32)" "b' = b\<lparr>b_list := xs @ lead_part n c @ block_part n u c # rest_part n u c @ ys\<rparr>"
    using block(5) assms(6) by simp_all
  have ok: "chunks_ok n ?H (xs @ c # ys)" using assms(1) block(1) by (simp add: bf_ok_def)
  have t: "tiles 0 (xs @ c # ys) ?H" using ok by (simp add: chunks_ok_def)
  have "bf_ok n b'" using assms(1) chunks_ok_carve[OF ok block(2,3)] by (simp add: bf_ok_def r)
  moreover have "heap_blocks b' = insert (?st * 32, 32 * unat u) (heap_blocks b)"
    using live_carve[of c xs n u ys] carvableD(3)[OF block(2)] by (simp add: heap_blocks_def r block(1) mult.commute)
  moreover note ins = block_inside[OF block(2)]
  moreover have "\<forall>(s, l) \<in> heap_blocks b. s + l \<le> ?st * 32 \<or> ?st * 32 + 32 * unat u \<le> s"
  proof (clarsimp simp: heap_blocks_def block(1))
    fix s l assume "(s, l) \<in> live (xs @ c # ys)" "\<not> ?st * 32 + 32 * unat u \<le> 32 * s"
    then show "32 * s + 32 * l \<le> ?st * 32"
      using live_apart[OF t carvableD(3)[OF block(2)]] ins by fastforce
  qed
  moreover have "2 ^ (5 + n) dvd ?st * 32"
    using mult_dvd_mono[OF block_aligned[OF block(2)] dvd_refl[of 32]] by (simp add: power_add mult.commute)
  moreover have "?st * 32 + unat sz \<le> unat (b_heap b)"
  proof -
    have "?st + unat u \<le> ?H" using bf_ok_bounds(1)[OF assms(1), of c] block(1) ins by simp
    then have "?st * 32 + 32 * unat u \<le> unat (b_heap b)" using assms(1) by (auto simp: bf_ok_def)
    then show ?thesis using assms(5) by linarith
  qed
  ultimately show ?thesis
    using block(1,2,4) by (auto simp: r carvable_def intro!: exI[of _ "?st * 32"] exI[of _ c])
qed

text \<open>
  C14: \<open>allocate\<close> hands out a part of the smallest free chunk that holds the request, rounded up to whole
  units of 32 bytes and started at a page: the block lies inside the heap, overlaps no block in use, and
  is afterwards one of the blocks in use. When no free chunk can hold it the result is -ENOMEM and nothing
  changes. The chunk list stays a gapless tiling of the heap without two neighbouring free chunks.
\<close>

theorem allocate_best_fit:
  assumes "bf_ok n b" "n \<le> 26" "0 < unat sz" "unat sz + 31 < 2 ^ 32" "unat u = (unat sz + 31) div 32"
    and "allocate (2 ^ (5 + n)) sz b = (r, b')"
  shows "bf_ok n b' \<and> b_heap b' = b_heap b \<and>
    (if r < 0 then r = - ENOMEM \<and> b' = b \<and> (\<forall>d \<in> set (b_list b). \<not> chunk_fits (2 ^ (5 + n)) u d)
     else \<exists>off c. r = int off \<and> 2 ^ (5 + n) dvd off \<and> off + unat sz \<le> unat (b_heap b)
       \<and> heap_blocks b' = insert (off, 32 * unat u) (heap_blocks b)
       \<and> (\<forall>(s, l) \<in> heap_blocks b. s + l \<le> off \<or> off + 32 * unat u \<le> s)
       \<and> c \<in> set (b_list b) \<and> chunk_fits (2 ^ (5 + n)) u c \<and> 32 * unat (ch_start c) \<le> off
       \<and> off + 32 * unat u \<le> 32 * (unat (ch_start c) + unat (ch_size c))
       \<and> (\<forall>d \<in> set (b_list b). chunk_fits (2 ^ (5 + n)) u d \<longrightarrow> unat (ch_size c) \<le> unat (ch_size d)))"
  using assms by (rule allocate_spec)

subsection \<open>Deallocation\<close>

definition absorb :: "chunk \<Rightarrow> chunk \<Rightarrow> chunk" where
  "absorb p c = p\<lparr>ch_size := take_bit 28 (ch_size p + ch_size c)\<rparr>"

definition merge_prev :: "chunk list \<Rightarrow> chunk \<Rightarrow> chunk list \<times> chunk" where
  "merge_prev xs c = (if xs \<noteq> [] \<and> ch_free (last xs) then (butlast xs, absorb (last xs) c) else (xs, c))"

definition merge_next :: "chunk \<Rightarrow> chunk list \<Rightarrow> chunk \<times> chunk list" where
  "merge_next c ys = (if ys \<noteq> [] \<and> ch_free (hd ys) then (absorb c (hd ys), tl ys) else (c, ys))"

text \<open>
  On a coalesced list the loop looks at one neighbour on each side: what it leaves is the free chunk
  joined with the neighbours that are free.
\<close>

lemma merge_loop_neighbours:
  assumes "coalesced ys" "\<forall>d \<in> set ys. ch_size d \<noteq> 0" "ch_size c \<noteq> 0" "ch_free c"
  shows "merge_loop (rev xs) c ys True =
    (True, fst (merge_prev xs c) @ fst (merge_next (snd (merge_prev xs c)) ys) # snd (merge_next (snd (merge_prev xs c)) ys))"
proof -
  have next_only: "merge_loop (p # ps) d zs True = (True, rev ps @ absorb p d # zs)"
    if "ch_free p" "zs = [] \<or> \<not> ch_free (hd zs)" for p ps d zs
    using that by (cases zs) (simp_all add: absorb_def)
  have prev: "(case rev xs of p # qs \<Rightarrow> if ch_free p \<or> ch_size c = 0 then (absorb p c # qs, ch_free p) else (c # rev xs, True) | [] \<Rightarrow> ([c], True))
    = (snd (merge_prev xs c) # rev (fst (merge_prev xs c)), True)"
    using assms(3) by (cases xs rule: rev_cases) (simp_all add: merge_prev_def)
  have free: "ch_free (snd (merge_prev xs c))" using assms(4) by (simp add: merge_prev_def absorb_def)
  have loop: "merge_loop (rev xs) c ys True = (case ys of
      n # ms \<Rightarrow> if ch_free n then merge_loop (snd (merge_prev xs c) # rev (fst (merge_prev xs c))) n ms True
               else (True, fst (merge_prev xs c) @ snd (merge_prev xs c) # n # ms)
    | [] \<Rightarrow> (True, fst (merge_prev xs c) @ [snd (merge_prev xs c)]))"
    unfolding merge_loop.simps[of "rev xs"] absorb_def[symmetric] prev by (auto split: list.split)
  show ?thesis
  proof (cases ys)
    case Nil
    then show ?thesis unfolding loop by (simp add: merge_next_def)
  next
    case (Cons m ms)
    then have "ch_free m \<Longrightarrow> ms = [] \<or> \<not> ch_free (hd ms)" using assms(1) by (simp add: coalesced_Cons)
    then show ?thesis unfolding loop using Cons next_only[OF free] by (simp add: merge_next_def)
  qed
qed

lemma dealloc_skip: "\<forall>d \<in> set xs. ch_start d \<noteq> start \<Longrightarrow> dealloc debug start ps (xs @ cs) = dealloc debug start (rev xs @ ps) cs"
  by (induction xs arbitrary: ps) simp_all

lemma dealloc_none: "\<forall>d \<in> set xs. ch_start d \<noteq> start \<Longrightarrow> dealloc debug start [] xs = Inr (False, xs)"
  using dealloc_skip[of xs start debug "[]" "[]"] by simp

text \<open>What takes the place of a block that is given back, on a list that tiles the heap.\<close>

definition freed :: "chunk list \<Rightarrow> chunk \<Rightarrow> chunk list \<Rightarrow> chunk list" where
  "freed xs c ys =
     (let (xs, c) = merge_prev xs (c\<lparr>ch_free := True\<rparr>); (c, ys) = merge_next c ys in xs @ c # ys)"

lemma dealloc_block:
  assumes "tiles 0 (xs @ c # ys) H" "coalesced ys" "\<not> ch_free c"
  shows "dealloc debug (ch_start c) [] (xs @ c # ys) = Inr (True, freed xs c ys)"
proof -
  have z: "ch_size d \<noteq> 0" if "d \<in> set (xs @ c # ys)" for d
    using tiles_member[OF assms(1) that] by auto
  have "\<forall>d \<in> set xs. ch_start d \<noteq> ch_start c"
    using tiles_apart(1)[OF assms(1)] z by (metis add_le_same_cancel1 append_is_Nil_conv in_set_conv_decomp le_zero_eq list.discI append_Cons append_assoc unat_eq_0)
  then have "dealloc debug (ch_start c) [] (xs @ c # ys) = dealloc debug (ch_start c) (rev xs) (c # ys)"
    by (simp add: dealloc_skip)
  moreover have "merge_loop (rev xs) (c\<lparr>ch_free := True\<rparr>) ys True = (True, freed xs c ys)"
    unfolding freed_def using z assms(2) by (subst merge_loop_neighbours) (auto split: prod.split)
  ultimately show ?thesis using assms(3) by (simp del: merge_loop.simps)
qed

lemma tiles_absorb:
  assumes "tiles s (p # c # zs) e" "e < 2 ^ 28"
  shows "tiles s (absorb p c # zs) e"
proof -
  have t: "unat (ch_start c) = s + unat (ch_size p)" "unat (ch_start p) = s" "0 < unat (ch_size p)"
    "tiles (s + unat (ch_size p) + unat (ch_size c)) zs e" using assms(1) by simp_all
  then have "s + unat (ch_size p) + unat (ch_size c) < 2 ^ 28" using tiles_le assms(2) by fastforce
  then have "unat (ch_size p + ch_size c) = unat (ch_size p) + unat (ch_size c)"
    "take_bit 28 (ch_size p + ch_size c) = ch_size p + ch_size c"
    by (simp_all add: unat_add_small unat_take_bit_28)
  then show ?thesis using t by (simp add: absorb_def ac_simps)
qed

lemma merge_prev_tiles:
  assumes "tiles 0 (xs @ c # ys) H" "H < 2 ^ 28"
  shows "tiles 0 (fst (merge_prev xs c) @ snd (merge_prev xs c) # ys) H"
proof (cases xs rule: rev_cases)
  case (snoc zs p)
  then obtain m where "tiles 0 zs m" "tiles m (p # c # ys) H" using assms(1) by (auto simp: tiles_append)
  moreover from this have "tiles m (absorb p c # ys) H" by (intro tiles_absorb assms(2))
  ultimately show ?thesis using assms(1) snoc unfolding merge_prev_def by (auto simp: tiles_append)
qed (use assms in \<open>simp add: merge_prev_def\<close>)

lemma merge_next_tiles:
  assumes "tiles 0 (xs @ c # ys) H" "H < 2 ^ 28"
  shows "tiles 0 (xs @ fst (merge_next c ys) # snd (merge_next c ys)) H"
proof (cases ys)
  case (Cons d zs)
  then obtain m where "tiles 0 xs m" "tiles m (c # d # zs) H" using assms(1) by (auto simp: tiles_append)
  moreover from this have "tiles m (absorb c d # zs) H" by (intro tiles_absorb assms(2))
  ultimately show ?thesis using assms(1) Cons unfolding merge_next_def by (auto simp: tiles_append)
qed (use assms in \<open>simp add: merge_next_def\<close>)

lemma freed_eq:
  "freed xs c ys = fst (merge_prev xs (c\<lparr>ch_free := True\<rparr>))
     @ fst (merge_next (snd (merge_prev xs (c\<lparr>ch_free := True\<rparr>))) ys) # snd (merge_next (snd (merge_prev xs (c\<lparr>ch_free := True\<rparr>))) ys)"
  by (simp add: freed_def split: prod.split)

lemma freed_tiles:
  assumes "tiles 0 (xs @ c # ys) H" "H < 2 ^ 28"
  shows "tiles 0 (freed xs c ys) H"
proof -
  have "tiles 0 (xs @ c\<lparr>ch_free := True\<rparr> # ys) H" using assms(1) by (simp add: tiles_append)
  then show ?thesis unfolding freed_eq by (intro merge_next_tiles merge_prev_tiles assms(2))
qed

lemma merge_prev_keeps:
  assumes "coalesced xs"
  shows "coalesced (fst (merge_prev xs c))" "fst (merge_prev xs c) = [] \<or> \<not> ch_free (last (fst (merge_prev xs c)))"
    "filter (\<lambda>c. \<not> ch_free c) (fst (merge_prev xs c)) = filter (\<lambda>c. \<not> ch_free c) xs"
    "ch_free c \<Longrightarrow> ch_free (snd (merge_prev xs c))"
proof -
  show "ch_free c \<Longrightarrow> ch_free (snd (merge_prev xs c))" by (simp add: merge_prev_def absorb_def)
  show "coalesced (fst (merge_prev xs c))" "fst (merge_prev xs c) = [] \<or> \<not> ch_free (last (fst (merge_prev xs c)))"
    "filter (\<lambda>c. \<not> ch_free c) (fst (merge_prev xs c)) = filter (\<lambda>c. \<not> ch_free c) xs"
    using assms by (induction xs rule: rev_induct) (auto simp: merge_prev_def coalesced_append)
qed

lemma merge_next_keeps:
  assumes "coalesced ys"
  shows "coalesced (snd (merge_next c ys))" "snd (merge_next c ys) = [] \<or> \<not> ch_free (hd (snd (merge_next c ys)))"
    "filter (\<lambda>c. \<not> ch_free c) (snd (merge_next c ys)) = filter (\<lambda>c. \<not> ch_free c) ys"
    "ch_free (fst (merge_next c ys)) = ch_free c"
proof -
  show "ch_free (fst (merge_next c ys)) = ch_free c" by (simp add: merge_next_def absorb_def)
  show "coalesced (snd (merge_next c ys))" "snd (merge_next c ys) = [] \<or> \<not> ch_free (hd (snd (merge_next c ys)))"
    "filter (\<lambda>c. \<not> ch_free c) (snd (merge_next c ys)) = filter (\<lambda>c. \<not> ch_free c) ys"
    using assms by (induction ys) (simp_all add: merge_next_def coalesced_Cons)
qed

lemma freed_coalesced:
  assumes "coalesced xs" "coalesced ys"
  shows "coalesced (freed xs c ys)"
  unfolding freed_eq coalesced_append coalesced_Cons
  using merge_prev_keeps[OF assms(1), of "c\<lparr>ch_free := True\<rparr>"] merge_next_keeps[OF assms(2)] by simp

lemma freed_busy:
  assumes "coalesced xs" "coalesced ys"
  shows "filter (\<lambda>c. \<not> ch_free c) (freed xs c ys) = filter (\<lambda>c. \<not> ch_free c) xs @ filter (\<lambda>c. \<not> ch_free c) ys"
  unfolding freed_eq
  using merge_prev_keeps[OF assms(1), of "c\<lparr>ch_free := True\<rparr>"] merge_next_keeps[OF assms(2)] by simp

lemma freed_ok:
  assumes "chunks_ok n H (xs @ c # ys)" "\<not> ch_free c" "H < 2 ^ 28"
  shows "chunks_ok n H (freed xs c ys)"
    and "live (freed xs c ys) = live (xs @ c # ys) - {(unat (ch_start c), unat (ch_size c))}"
proof -
  have t: "tiles 0 (xs @ c # ys) H" and k: "coalesced xs" "coalesced ys"
    and al: "\<forall>d \<in> set (xs @ c # ys). \<not> ch_free d \<longrightarrow> 2 ^ n dvd unat (ch_start d)"
    using assms(1) by (auto simp: chunks_ok_def coalesced_append coalesced_Cons)
  have "d \<in> set xs \<or> d \<in> set ys" if "d \<in> set (freed xs c ys)" "\<not> ch_free d" for d
    using arg_cong[OF freed_busy[OF k, of c], of set] that by auto
  then show "chunks_ok n H (freed xs c ys)"
    using al freed_tiles[OF t assms(3)] freed_coalesced[OF k] by (auto simp: chunks_ok_def)
  have "unat (ch_start d) \<noteq> unat (ch_start c)" if "d \<in> set xs \<union> set ys" for d
    using tiles_apart[OF t, of d] tiles_member[OF t, of d] tiles_member[OF t, of c] that by auto
  then have "(unat (ch_start c), unat (ch_size c)) \<notin> live xs \<union> live ys" unfolding live_def by fastforce
  moreover have "live (freed xs c ys) = live xs \<union> live ys" by (simp add: live_def freed_busy[OF k])
  moreover have "live (xs @ c # ys) = insert (unat (ch_start c), unat (ch_size c)) (live xs \<union> live ys)"
    using assms(2) by (auto simp: live_def)
  ultimately show "live (freed xs c ys) = live (xs @ c # ys) - {(unat (ch_start c), unat (ch_size c))}" by blast
qed

lemma live_member:
  assumes "(s, l) \<in> live cs"
  obtains xs c ys where "cs = xs @ c # ys" "\<not> ch_free c" "unat (ch_start c) = s" "unat (ch_size c) = l"
  using assms by (fastforce simp: live_def dest: split_list)

lemma deallocate_live:
  assumes "bf_ok n b" "b_list b = xs @ c # ys" "\<not> ch_free c" "unat off = 32 * unat (ch_start c)"
  shows "deallocate debug off b = Inr (0, b\<lparr>b_list := freed xs c ys\<rparr>)"
proof -
  have t: "tiles 0 (xs @ c # ys) (unat (b_heap b) div 32)" "coalesced ys"
    using assms(1,2) by (auto simp: bf_ok_def chunks_ok_def coalesced_append coalesced_Cons)
  have "off div 32 = ch_start c" using assms(4) by (simp add: word_unat_eq_iff unat_div)
  then show ?thesis using assms(1) dealloc_block[OF t assms(3), of debug] by (auto simp: deallocate_def bf_ok_def assms(2))
qed

lemma deallocate_in_use:
  assumes "bf_ok n b" "(unat off, l) \<in> heap_blocks b"
  shows "\<exists>b'. deallocate debug off b = Inr (0, b') \<and> bf_ok n b' \<and> b_heap b' = b_heap b \<and> heap_blocks b' = heap_blocks b - {(unat off, l)}"
proof -
  obtain s k where k: "(s, k) \<in> live (b_list b)" "unat off = 32 * s" "l = 32 * k" using assms(2) by (auto simp: heap_blocks_def)
  obtain xs c ys where c: "b_list b = xs @ c # ys" "\<not> ch_free c" "unat (ch_start c) = s" "unat (ch_size c) = k"
    using k(1) by (rule live_member)
  have ok: "chunks_ok n (unat (b_heap b) div 32) (xs @ c # ys)" and H: "unat (b_heap b) div 32 < 2 ^ 28"
    using assms(1) c(1) by (auto simp: bf_ok_def)
  have "deallocate debug off b = Inr (0, b\<lparr>b_list := freed xs c ys\<rparr>)"
    by (rule deallocate_live[OF assms(1) c(1,2)]) (simp add: k(2) c(3))
  moreover have "bf_ok n (b\<lparr>b_list := freed xs c ys\<rparr>)" using assms(1) freed_ok(1)[OF ok c(2) H] by (simp add: bf_ok_def)
  moreover have "heap_blocks (b\<lparr>b_list := freed xs c ys\<rparr>) = heap_blocks b - {(unat off, l)}"
  proof -
    have "inj_on (\<lambda>(s, l). (32 * s, 32 * l)) (live (b_list b))" by (auto simp: inj_on_def)
    then show ?thesis
      unfolding heap_blocks_def using freed_ok(2)[OF ok c(2) H] k c by (simp add: inj_on_image_set_diff)
  qed
  ultimately show ?thesis
    by auto
qed

text \<open>
  C15: \<open>deallocate\<close> of a block in use succeeds, also in a build whose fatal log checks are compiled in:
  it removes exactly that block from the blocks in use, and the free memory is merged with its free
  neighbours, so that the chunk list keeps its invariant. An offset at which no chunk starts gives
  -ENOENT and changes nothing.
\<close>

theorem deallocate_frees:
  assumes "bf_ok n b"
  shows "(\<forall>l. (unat off, l) \<in> heap_blocks b \<longrightarrow>
           (\<exists>b'. deallocate debug off b = Inr (0, b') \<and> bf_ok n b' \<and> b_heap b' = b_heap b \<and> heap_blocks b' = heap_blocks b - {(unat off, l)}))
    \<and> ((\<forall>c \<in> set (b_list b). ch_start c \<noteq> off div 32) \<longrightarrow> deallocate debug off b = Inr (- ENOENT, b))"
proof (intro conjI allI impI)
  fix l assume "(unat off, l) \<in> heap_blocks b"
  then show "\<exists>b'. deallocate debug off b = Inr (0, b') \<and> bf_ok n b' \<and> b_heap b' = b_heap b \<and> heap_blocks b' = heap_blocks b - {(unat off, l)}"
    by (rule deallocate_in_use[OF assms])
next
  assume "\<forall>c \<in> set (b_list b). ch_start c \<noteq> off div 32"
  then show "deallocate debug off b = Inr (- ENOENT, b)"
    using assms dealloc_none[of "b_list b" "off div 32" debug] by (auto simp: deallocate_def bf_ok_def)
qed

lemma absorb_parts:
  assumes "unat (ch_size p) + unat (ch_size d) < 2 ^ 28"
  shows "absorb p d = \<lparr>ch_start = ch_start p, ch_size = ch_size p + ch_size d, ch_free = ch_free p\<rparr>"
proof -
  have "unat (ch_size p + ch_size d) < 2 ^ 28" using assms by (subst unat_add_small) simp_all
  then have t: "take_bit 28 (ch_size p + ch_size d) = ch_size p + ch_size d" by (rule unat_take_bit_28)
  show ?thesis unfolding absorb_def t by (cases p) simp
qed

text \<open>Giving back a block restores the chunk it was carved from.\<close>

lemma freed_carve:
  assumes "chunks_ok n H (xs @ c # ys)" "carvable n u c"
  shows "freed (xs @ lead_part n c) (block_part n u c) (rest_part n u c @ ys) = xs @ c # ys"
proof -
  note fit = carvableD[OF assms(2)]
  have k: "coalesced (xs @ c # ys)" using assms(1) by (simp add: chunks_ok_def)
  have xs: "xs = [] \<or> \<not> ch_free (last xs)" and ys: "ys = [] \<or> \<not> ch_free (hd ys)"
    using k fit(3) by (auto simp: coalesced_append coalesced_Cons)
  let ?b = "block_part n u c\<lparr>ch_free := True\<rparr>"
  let ?m = "\<lparr>ch_start = ch_start c, ch_size = extra n c + u, ch_free = True\<rparr>"
  have prev: "merge_prev (xs @ lead_part n c) ?b = (xs, ?m)"
  proof (cases "extra n c = 0")
    case True
    then show ?thesis using xs by (auto simp: merge_prev_def lead_part_def block_part_def)
  next
    case False
    let ?l = "\<lparr>ch_start = ch_start c, ch_size = extra n c, ch_free = True\<rparr>"
    have "absorb ?l ?b = ?m" using fit by (subst absorb_parts) (simp_all add: block_part_def)
    then show ?thesis using False by (simp add: merge_prev_def lead_part_def)
  qed
  have "unat (extra n c + u) = unat (extra n c) + unat u" using fit by (subst unat_add_small) simp_all
  then have nx: "merge_next ?m (rest_part n u c @ ys) = (c, ys)"
  proof (cases "unat (ch_size c) = unat u + unat (extra n c)")
    case True
    then have "ch_size c = extra n c + u" using \<open>unat (extra n c + u) = _\<close> by (simp add: word_unat_eq_iff)
    then have "?m = c" using fit(3) by (cases c) simp
    then show ?thesis using True ys by (auto simp: merge_next_def rest_part_def)
  next
    case False
    let ?r = "\<lparr>ch_start = ch_start c + extra n c + u, ch_size = ch_size c - (u + extra n c), ch_free = True\<rparr>"
    have "unat (ch_size ?m) + unat (ch_size ?r) < 2 ^ 28"
      using fit \<open>unat (extra n c + u) = _\<close> by (simp add: unat_parts[OF assms(2)])
    then have "absorb ?m ?r = \<lparr>ch_start = ch_start c, ch_size = ch_size c, ch_free = True\<rparr>"
      by (subst absorb_parts) simp_all
    also have "\<dots> = c" using fit(3) by (cases c) simp
    finally have "absorb ?m ?r = c" .
    then show ?thesis using False by (simp add: merge_next_def rest_part_def)
  qed
  show ?thesis unfolding freed_def prev using nx by simp
qed

lemma deallocate_allocated:
  assumes "bf_ok n b" "n \<le> 26" "0 < unat sz" "unat sz + 31 < 2 ^ 32"
    and "allocate (2 ^ (5 + n)) sz b = (r, b')" "0 \<le> r"
  shows "deallocate debug (word_of_int r) b' = Inr (0, b)"
proof -
  define u where "u = (sz + kMemoryAlign - 1) div kMemoryAlign"
  have u: "unat u = (unat sz + 31) div 32" unfolding u_def by (rule units_of_size[OF assms(4)])
  show ?thesis
    using assms(1-4) u
  proof (cases rule: allocate_cases)
    case full
    then show ?thesis using assms(5,6) by simp
  next
    case (block xs c ys)
    let ?st = "ch_start (block_part n u c)"
    have r: "r = int (unat ?st * 32)" "b' = b\<lparr>b_list := (xs @ lead_part n c) @ block_part n u c # (rest_part n u c @ ys)\<rparr>"
      using block(5) assms(5) by simp_all
    have ok: "chunks_ok n (unat (b_heap b) div 32) (xs @ c # ys)" using assms(1) block(1) by (simp add: bf_ok_def)
    have "unat ?st * 32 < 2 ^ 32"
      using bf_ok_bounds[OF assms(1), of c] block(1) block_inside[OF block(2)] by simp
    moreover have "(word_of_int r :: u32) = of_nat (unat ?st * 32)" unfolding r(1) by simp
    ultimately have off: "unat (word_of_int r :: u32) = 32 * unat ?st" by (simp add: unat_of_nat take_bit_nat_eq_self del: of_nat_mult)
    have ok': "bf_ok n b'" using assms(1) chunks_ok_carve[OF ok block(2,3)] by (simp add: bf_ok_def r)
    have "deallocate debug (word_of_int r) b' = Inr (0, b'\<lparr>b_list := freed (xs @ lead_part n c) (block_part n u c) (rest_part n u c @ ys)\<rparr>)"
      by (rule deallocate_live) (use ok' off in \<open>simp_all add: r(2) block_part_def\<close>)
    then show ?thesis by (simp add: r(2) freed_carve[OF ok block(2)] flip: block(1))
  qed
qed

text \<open>
  A block that is allocated and given back at once leaves the allocator exactly as it was: the same
  chunks, in the same order, with the same sizes.
\<close>

theorem allocate_deallocate_restores:
  assumes "bf_ok n b" "n \<le> 26" "0 < unat sz" "unat sz + 31 < 2 ^ 32"
    and "allocate (2 ^ (5 + n)) sz b = (r, b')" "0 \<le> r"
  shows "deallocate debug (word_of_int r) b' = Inr (0, b)"
  using assms by (rule deallocate_allocated)

text \<open>The heap that \<open>setSize\<close> sets up: whole pages, one free chunk.\<close>

lemma unat_exp: "k \<le> 31 \<Longrightarrow> unat ((2 :: u32) ^ k) = 2 ^ k"
proof -
  assume "k \<le> 31"
  then have lt: "(2 :: nat) ^ k < 2 ^ 32" by (intro power_strict_increasing) simp_all
  have "(2 :: u32) ^ k = of_nat (2 ^ k)" by simp
  then show ?thesis using lt by (simp only: unat_of_nat) (simp add: take_bit_nat_eq_self)
qed

lemma unat_exp_minus_1: "k \<le> 31 \<Longrightarrow> unat ((2 :: u32) ^ k - 1) = 2 ^ k - 1"
  by (subst unat_sub) (simp_all add: word_le_nat_alt unat_exp)

lemma heap_round_up:
  assumes "k \<le> 31" "unat sz + 2 ^ k \<le> 2 ^ 32"
  shows "unat ((sz + 2 ^ k - 1) AND NOT (2 ^ k - 1) :: u32) = (unat sz + 2 ^ k - 1) div 2 ^ k * 2 ^ k"
proof -
  note p = unat_exp_minus_1[OF assms(1)]
  have x: "sz + 2 ^ k - 1 = sz + (2 ^ k - 1)" by simp
  have u: "unat (sz + 2 ^ k - 1) = unat sz + 2 ^ k - 1"
    unfolding x using assms(2) p by (subst unat_add_small) (simp_all add: p)
  have a: "unat (w AND NOT (2 ^ k - 1)) = unat w - unat w mod 2 ^ k" for w :: u32
    unfolding mask_eq_decr_exp[symmetric] and_not_mask
  proof (subst unat_sub)
    have "unat (take_bit k w) = unat w mod 2 ^ k" unfolding unsigned_take_bit_eq by (rule take_bit_eq_mod)
    then show "take_bit k w \<le> w" "unat w - unat (take_bit k w) = unat w - unat w mod 2 ^ k" by (simp_all only: word_le_nat_alt mod_less_eq_dividend)
  qed
  show ?thesis by (simp only: a u minus_mod_eq_div_mult)
qed

text \<open>
  \<open>setSize\<close> on a new allocator gives a heap of the least number of whole pages that holds the size,
  with the invariant and no block in use; a second call is refused with -EINVAL and changes nothing, and
  before the first call both operations are refused.
\<close>

lemma setSize_heap:
  assumes "n \<le> 25" "0 < unat sz" "unat sz + 2 ^ (5 + n) \<le> 2 ^ 31" "setSize (2 ^ (5 + n)) sz SimpleBestFitAllocator = (r, b)"
  shows "r = int (unat sz) \<and> bf_ok n b \<and> heap_blocks b = {}
    \<and> unat (bf_size b) = (unat sz + 2 ^ (5 + n) - 1) div 2 ^ (5 + n) * 2 ^ (5 + n)
    \<and> setSize (2 ^ (5 + n)) any b = (- EINVAL, b)
    \<and> allocate pagesize any SimpleBestFitAllocator = (- EINVAL, SimpleBestFitAllocator)
    \<and> deallocate debug any SimpleBestFitAllocator = Inr (- EINVAL, SimpleBestFitAllocator)"
proof -
  let ?pg = "2 ^ (5 + n) :: nat"
  let ?h = "(sz + 2 ^ (5 + n) - 1) AND NOT (2 ^ (5 + n) - 1)"
  have h: "unat ?h = (unat sz + ?pg - 1) div ?pg * ?pg" using assms(1,3) by (intro heap_round_up) simp_all
  have pg: "32 dvd ?pg" "0 < ?pg" by (simp_all add: power_add)
  have "(unat sz + ?pg - 1) div ?pg * ?pg \<le> unat sz + ?pg - 1" by (rule div_times_less_eq_dividend)
  then have lt: "unat ?h < 2 ^ 31" using h assms(3) pg(2) by linarith
  have "?pg \<le> unat sz + ?pg - 1" using assms(2) pg(2) by linarith
  then have "0 < (unat sz + ?pg - 1) div ?pg" by (simp add: div_greater_zero_iff)
  then have pos: "0 < unat ?h" unfolding h using pg(2) by simp
  have d: "32 dvd unat ?h" unfolding h using pg(1) by simp
  have q: "unat (?h div 32) = unat ?h div 32" by (simp add: unat_div)
  have tb: "take_bit 28 (?h div 32) = ?h div 32" using lt by (intro unat_take_bit_28) (simp add: q)
  have "0 < unat ?h div 32" using pos d by (auto elim: dvdE)
  have b: "r = sint sz" "b = \<lparr>b_list = [new_chunk 0 (?h div 32)], b_heap = ?h\<rparr>"
    using assms(4) by (simp_all add: setSize_def SimpleBestFitAllocator_def Let_def)
  have "bf_ok n b" unfolding b bf_ok_def using pos lt d \<open>0 < unat ?h div 32\<close>
    by (simp add: chunks_ok_def new_chunk_def tb q del: unat_gt_0)
  moreover have "b_heap b \<noteq> 0" using pos b by auto
  moreover have "r = int (unat sz)" unfolding b(1) using assms(3) pg(2) by (intro sint_small) linarith
  moreover have "heap_blocks b = {}" by (simp add: b heap_blocks_def live_def new_chunk_def)
  moreover have "unat (bf_size b) = (unat sz + ?pg - 1) div ?pg * ?pg" by (simp add: b h bf_size_def)
  ultimately show ?thesis
    by (simp add: setSize_def) (simp add: allocate_def deallocate_def SimpleBestFitAllocator_def)
qed

text \<open>
  The linked list class implements sequences: on a well-formed list (the nodes in order, each pointing
  to its neighbours, the ends kept in the head and tail pointers) inserting a new node before or after one
  of the list, at the head or at the tail, and removing a node, give the well-formed list of the sequence
  with that node inserted or removed.
\<close>

theorem linked_list_sequence:
  assumes "dll (xs @ x # ys) L" "y \<notin> set (xs @ x # ys)" "y \<noteq> 0"
  shows "dll (xs @ x # y # ys) (insertAfter x y L) \<and> dll (xs @ y # x # ys) (insertBefore x y L)
    \<and> dll (y # xs @ x # ys) (insertHead y L) \<and> dll (xs @ x # ys @ [y]) (insertTail y L) \<and> dll (xs @ ys) (ll_remove x L)"
  using insertAfter_refines[OF assms] insertBefore_refines[OF assms] insertHead_refines[OF assms]
    insertTail_refines[OF assms] ll_remove_refines[OF assms(1)] by simp

theorem linked_list_sequence_witness:
  "let L = insertTail 7 (insertHead 5 (ll_empty \<lparr>l_next = (\<lambda>_. 0), l_prev = (\<lambda>_. 0), l_first = 3, l_last = 4\<rparr>))
   in dll [5, 7] L \<and> dll [5, 9, 7] (insertAfter 5 9 L) \<and> dll [7] (ll_remove 5 L)"
proof -
  let ?L = "insertTail 7 (insertHead 5 (ll_empty \<lparr>l_next = (\<lambda>_. 0), l_prev = (\<lambda>_. 0), l_first = 3, l_last = 4\<rparr>))"
  have "dll ([] @ 5 # [7]) ?L" by (simp add: dll_def ll_empty_def insertHead_def insertTail_def)
  then show ?thesis using linked_list_sequence[of "[]" 5 "[7]" ?L 9] by simp
qed

definition heap64k :: bfa where
  "heap64k = \<lparr>b_list = [\<lparr>ch_start = 0, ch_size = 2048, ch_free = True\<rparr>], b_heap = 65536\<rparr>"

lemma heap64k_ok: "bf_ok 7 heap64k"
  by (simp add: bf_ok_def chunks_ok_def heap64k_def)

lemma heap64k_allocate:
  "allocate 4096 5000 heap64k = (0, heap64k\<lparr>b_list :=
     [\<lparr>ch_start = 0, ch_size = 157, ch_free = False\<rparr>, \<lparr>ch_start = 157, ch_size = 1891, ch_free = True\<rparr>]\<rparr>)"
  by (simp add: allocate_def bf_alloc_def heap64k_def page_extra_def better_def split_chunk_def new_chunk_def Let_def)

lemma heap64k_allocated:
  "bf_ok 7 (snd (allocate 4096 5000 heap64k))" "(0, 5024) \<in> heap_blocks (snd (allocate 4096 5000 heap64k))"
  unfolding heap64k_allocate by (simp_all add: bf_ok_def chunks_ok_def heap_blocks_def live_def heap64k_def)

lemma setSize_heap_witness:
  "setSize 4096 65000 SimpleBestFitAllocator = (65000, heap64k) \<and> bf_ok 7 heap64k \<and> heap_blocks heap64k = {}"
proof -
  have "setSize 4096 65000 SimpleBestFitAllocator = (65000, heap64k)"
    by (simp add: setSize_def SimpleBestFitAllocator_def heap64k_def new_chunk_def)
  then show ?thesis using setSize_heap[of 7 65000 65000 heap64k] by simp
qed

theorem allocate_best_fit_witness:
  "\<exists>b'. allocate 4096 5000 heap64k = (0, b') \<and> bf_ok 7 b' \<and> heap_blocks b' = {(0, 5024)}"
proof -
  obtain b' where a: "allocate 4096 5000 heap64k = (0, b')" using heap64k_allocate by blast
  have "heap_blocks heap64k = {}" by (simp add: heap_blocks_def live_def heap64k_def)
  then show ?thesis using allocate_best_fit[of 7 heap64k 5000 157 0 b'] a heap64k_ok by simp
qed

theorem allocate_deallocate_restores_witness:
  "\<exists>b'. allocate 4096 5000 heap64k = (0, b') \<and> deallocate True 0 b' = Inr (0, heap64k)"
proof -
  obtain b' where a: "allocate 4096 5000 heap64k = (0, b')" using heap64k_allocate by blast
  then show ?thesis using allocate_deallocate_restores[of 7 heap64k 5000 0 b' True] heap64k_ok by simp
qed

theorem deallocate_frees_witness:
  "let b = snd (allocate 4096 5000 heap64k)
   in bf_ok 7 b \<and> (0, 5024) \<in> heap_blocks b \<and> (\<exists>b'. deallocate True 0 b = Inr (0, b') \<and> heap_blocks b' = heap_blocks b - {(0, 5024)})
     \<and> deallocate True 64 b = Inr (- ENOENT, b)"
proof -
  have "\<forall>c \<in> set (b_list (snd (allocate 4096 5000 heap64k))). ch_start c \<noteq> 64 div 32" by (simp add: heap64k_allocate)
  then show ?thesis
    using deallocate_frees[OF heap64k_allocated(1), of 0 True] deallocate_frees[OF heap64k_allocated(1), of 64 True] heap64k_allocated
    unfolding Let_def by auto
qed

text \<open>A request of more than 2 ^ 32 - 32 bytes wraps to no units and is granted.\<close>

lemma huge_request_granted: "fst (allocate 4096 0xFFFFFFE1 heap64k) = 0"
  by (simp add: allocate_def bf_alloc_def heap64k_def page_extra_def better_def split_chunk_def new_chunk_def Let_def)

text \<open>
  A request of no bytes succeeds with offset 0 and takes nothing; giving it back is therefore taken
  as giving back the block that another caller holds at offset 0, and frees that.
\<close>

lemma empty_request_frees_other:
  assumes "bf_ok n b" "(0, l) \<in> heap_blocks b"
  shows "allocate pagesize 0 b = (0, b) \<and>
    (\<exists>b'. deallocate debug 0 b = Inr (0, b') \<and> heap_blocks b' = heap_blocks b - {(0, l)})"
proof
  have "b_heap b \<noteq> 0" using assms(1) by (auto simp: bf_ok_def)
  then show "allocate pagesize 0 b = (0, b)" by (simp add: allocate_def bf_alloc_def)
  show "\<exists>b'. deallocate debug 0 b = Inr (0, b') \<and> heap_blocks b' = heap_blocks b - {(0, l)}"
    using deallocate_in_use[of n b 0 l debug] assms by auto
qed

lemma empty_request_frees_other_witness:
  "let b = snd (allocate 4096 5000 heap64k)
   in (0, 5024) \<in> heap_blocks b \<and> allocate 4096 0 b = (0, b)
     \<and> (\<exists>b'. deallocate True 0 b = Inr (0, b') \<and> heap_blocks b' = heap_blocks b - {(0, 5024)})"
  using empty_request_frees_other[OF heap64k_allocated, of 4096 True] heap64k_allocated(2) by simp

end
