(* ===== verification/Pmem.thy ===== *)
theory Pmem
  imports BestFit
begin

text \<open>
  The graphics memory drivers (src/libgralloc/pmemalloc.cpp and pmemalloc.h): \<open>PmemUserspaceAllocator\<close>
  maps the whole device once and hands out parts of it with a suballocator, \<open>PmemKernelAllocator\<close> maps
  each buffer. The two interfaces the code calls, \<open>Deps\<close> (the system calls) and \<open>Deps::Allocator\<close>, are
  records of functions: the system state is a type of its own that every call may change. The memory is a
  function from addresses to bytes; a mapping is its base address. The mutex makes the operations of one
  allocator run one after another.
\<close>

unbundle bit_operations_syntax

subsection \<open>The interfaces\<close>

record 'a suballoc =
  al_setSize :: "u32 \<Rightarrow> 'a \<Rightarrow> int \<times> 'a"
  al_allocate :: "u32 \<Rightarrow> 'a \<Rightarrow> int \<times> 'a"
  al_deallocate :: "u32 \<Rightarrow> 'a \<Rightarrow> bf_err + int \<times> 'a"

text \<open>The system calls. A mapping that fails, \<open>MAP_FAILED\<close>, is None.\<close>

record 'k pmem_deps =
  d_getPmemTotalSize :: "int \<Rightarrow> 'k \<Rightarrow> int \<times> u32 \<times> 'k"
  d_connectPmem :: "int \<Rightarrow> int \<Rightarrow> 'k \<Rightarrow> int \<times> 'k"
  d_mapPmem :: "int \<Rightarrow> int \<Rightarrow> u32 \<Rightarrow> 'k \<Rightarrow> int \<times> 'k"
  d_unmapPmem :: "int \<Rightarrow> int \<Rightarrow> u32 \<Rightarrow> 'k \<Rightarrow> int \<times> 'k"
  d_getErrno :: "'k \<Rightarrow> int"
  d_mmap :: "u32 \<Rightarrow> int \<Rightarrow> 'k \<Rightarrow> nat option \<times> 'k"
  d_munmap :: "nat \<Rightarrow> u32 \<Rightarrow> 'k \<Rightarrow> int \<times> 'k"
  d_open :: "string \<Rightarrow> u32 \<Rightarrow> 'k \<Rightarrow> int \<times> 'k"
  d_close :: "int \<Rightarrow> 'k \<Rightarrow> 'k"

text \<open>Flags of the system and the usage bits of the graphics interface.\<close>

abbreviation O_RDWR :: u32 where "O_RDWR \<equiv> 2"
abbreviation O_SYNC :: u32 where "O_SYNC \<equiv> 0x1000"
abbreviation GRALLOC_USAGE_SW_READ_MASK :: u32 where "GRALLOC_USAGE_SW_READ_MASK \<equiv> 0xF"
abbreviation GRALLOC_USAGE_SW_READ_OFTEN :: u32 where "GRALLOC_USAGE_SW_READ_OFTEN \<equiv> 0x3"
abbreviation GRALLOC_USAGE_SW_WRITE_MASK :: u32 where "GRALLOC_USAGE_SW_WRITE_MASK \<equiv> 0xF0"
abbreviation GRALLOC_USAGE_SW_WRITE_OFTEN :: u32 where "GRALLOC_USAGE_SW_WRITE_OFTEN \<equiv> 0x30"

definition get_open_flags :: "u32 \<Rightarrow> u32" where
  "get_open_flags usage =
     (let openFlags = O_RDWR OR O_SYNC;
          uread = usage AND GRALLOC_USAGE_SW_READ_MASK;
          uwrite = usage AND GRALLOC_USAGE_SW_WRITE_MASK
      in if uread = GRALLOC_USAGE_SW_READ_OFTEN \<or> uwrite = GRALLOC_USAGE_SW_WRITE_OFTEN
         then openFlags AND NOT O_SYNC else openFlags)"

subsection \<open>The suballocating driver\<close>

record ('a, 'k) pmem =
  pm_fd :: int
  pm_base :: nat
  pm_al :: 'a
  pm_sys :: 'k
  pm_mem :: "nat \<Rightarrow> byte"

abbreviation MASTER_FD_INIT :: int where "MASTER_FD_INIT \<equiv> -1"

definition PmemUserspaceAllocator :: "nat \<Rightarrow> 'a \<Rightarrow> 'k \<Rightarrow> (nat \<Rightarrow> byte) \<Rightarrow> ('a, 'k) pmem" where
  "PmemUserspaceAllocator junk a k m = \<lparr>pm_fd = MASTER_FD_INIT, pm_base = junk, pm_al = a, pm_sys = k, pm_mem = m\<rparr>"

definition get_base_address :: "('a, 'k) pmem \<Rightarrow> nat" where
  "get_base_address p = pm_base p"

definition memset0 :: "nat \<Rightarrow> nat \<Rightarrow> (nat \<Rightarrow> byte) \<Rightarrow> nat \<Rightarrow> byte" where
  "memset0 a n m = (\<lambda>x. if a \<le> x \<and> x < a + n then CHR 0x00 else m x)"

abbreviation pmem_size :: u32 where "pmem_size \<equiv> push_bit 20 8"

definition init_pmem_area_locked :: "'a suballoc \<Rightarrow> 'k pmem_deps \<Rightarrow> string \<Rightarrow> ('a, 'k) pmem \<Rightarrow> int \<times> ('a, 'k) pmem" where
  "init_pmem_area_locked A D dev p =
     (case d_open D dev O_RDWR (pm_sys p) of
        (fd, k) \<Rightarrow>
          if 0 \<le> fd
          then case d_getPmemTotalSize D fd k of
            (err, sz, k) \<Rightarrow>
              let sz = (if err < 0 then push_bit 20 8 else sz);
                  sz = pmem_size;
                  p = p\<lparr>pm_al := snd (al_setSize A sz (pm_al p))\<rparr>
              in case d_mmap D sz fd k of
                   (None, k) \<Rightarrow> (- d_getErrno D k, p\<lparr>pm_sys := d_close D fd k\<rparr>)
                 | (Some base, k) \<Rightarrow> (err, p\<lparr>pm_fd := fd, pm_base := base, pm_sys := k\<rparr>)
          else (- d_getErrno D k, p\<lparr>pm_sys := k\<rparr>))"

definition init_pmem_area :: "'a suballoc \<Rightarrow> 'k pmem_deps \<Rightarrow> string \<Rightarrow> ('a, 'k) pmem \<Rightarrow> int \<times> ('a, 'k) pmem" where
  "init_pmem_area A D dev p =
     (let err = pm_fd p
      in if err = MASTER_FD_INIT
         then case init_pmem_area_locked A D dev p of
           (err, p) \<Rightarrow> if err \<noteq> 0 then (err, p\<lparr>pm_fd := err\<rparr>) else (err, p)
         else if err < 0 then (err, p)
         else (0, p))"

text \<open>The "sub-heap": a descriptor of its own, connected to the master's and mapped.\<close>

definition sub_heap :: "'k pmem_deps \<Rightarrow> string \<Rightarrow> u32 \<Rightarrow> u32 \<Rightarrow> int \<Rightarrow> int \<Rightarrow> 'k \<Rightarrow> int \<times> int \<times> 'k" where
  "sub_heap D dev usage sz offset master_fd k =
     (case d_open D dev (get_open_flags usage) k of
        (fd, k) \<Rightarrow>
          let err = (if fd < 0 then fd else 0);
              (err, k) = (if err = 0 then d_connectPmem D fd master_fd k else (err, k));
              (err, k) = (if err = 0 then d_mapPmem D fd offset sz k else (err, k))
          in (fd, err, k))"

text \<open>
  The result of an allocation: the error code and what is stored through the three pointers, base, offset
  and descriptor, or None when they are left alone.
\<close>

definition alloc_pmem_buffer ::
  "'a suballoc \<Rightarrow> 'k pmem_deps \<Rightarrow> string \<Rightarrow> u32 \<Rightarrow> u32 \<Rightarrow> ('a, 'k) pmem \<Rightarrow> bf_err + (int \<times> (nat \<times> int \<times> int) option) \<times> ('a, 'k) pmem" where
  "alloc_pmem_buffer A D dev sz usage p =
     (case init_pmem_area A D dev p of
        (err, p) \<Rightarrow>
          if err \<noteq> 0 then Inr ((err, None), p)
          else case al_allocate A sz (pm_al p) of
            (offset, a) \<Rightarrow>
              let base = pm_base p; p = p\<lparr>pm_al := a\<rparr>
              in if offset < 0 then Inr ((- ENOMEM, None), p)
                 else case sub_heap D dev usage sz offset (pm_fd p) (pm_sys p) of
                   (fd, err, k) \<Rightarrow>
                     if err < 0
                        then case al_deallocate A (word_of_int offset) (pm_al p) of
                          Inl e \<Rightarrow> Inl e
                        | Inr (_, a) \<Rightarrow> Inr ((- d_getErrno D k, None), p\<lparr>pm_al := a, pm_sys := d_close D fd k\<rparr>)
                        else Inr ((err, Some (base, offset, fd)),
                                  p\<lparr>pm_sys := k, pm_mem := memset0 (base + nat offset) (unat sz) (pm_mem p)\<rparr>))"

definition free_pmem_buffer ::
  "'a suballoc \<Rightarrow> 'k pmem_deps \<Rightarrow> u32 \<Rightarrow> int \<Rightarrow> int \<Rightarrow> ('a, 'k) pmem \<Rightarrow> bf_err + int \<times> ('a, 'k) pmem" where
  "free_pmem_buffer A D sz offset fd p =
     (if 0 \<le> fd
      then case d_unmapPmem D fd offset sz (pm_sys p) of
        (err, k) \<Rightarrow>
          let p = p\<lparr>pm_sys := k\<rparr>
          in if err = 0
             then case al_deallocate A (word_of_int offset) (pm_al p) of
               Inl e \<Rightarrow> Inl e
             | Inr (_, a) \<Rightarrow> Inr (0, p\<lparr>pm_al := a\<rparr>)
             else Inr (0, p)
      else Inr (0, p))"

subsection \<open>The driver that allocates in the kernel\<close>

definition clp2 :: "u32 \<Rightarrow> u32" where
  "clp2 x =
     (let x = x - 1;
          x = x OR drop_bit 1 x;
          x = x OR drop_bit 2 x;
          x = x OR drop_bit 4 x;
          x = x OR drop_bit 8 x;
          x = x OR drop_bit 16 x
      in x + 1)"

record 'k kpmem =
  kp_sys :: 'k
  kp_mem :: "nat \<Rightarrow> byte"

text \<open>Here the three pointers are always written.\<close>

definition kernel_alloc_pmem_buffer ::
  "'k pmem_deps \<Rightarrow> string \<Rightarrow> u32 \<Rightarrow> u32 \<Rightarrow> 'k kpmem \<Rightarrow> (int \<times> nat \<times> int \<times> int) \<times> 'k kpmem" where
  "kernel_alloc_pmem_buffer D dev sz usage p =
     (case d_open D dev (get_open_flags usage) (kp_sys p) of
        (fd, k) \<Rightarrow>
          if fd < 0 then ((- d_getErrno D k, 0, 0, -1), p\<lparr>kp_sys := k\<rparr>)
          else
            let sz = clp2 sz
            in case d_mmap D sz fd k of
                 (None, k) \<Rightarrow> ((- d_getErrno D k, 0, 0, -1), p\<lparr>kp_sys := d_close D fd k\<rparr>)
               | (Some base, k) \<Rightarrow> ((0, base, 0, fd), p\<lparr>kp_sys := k, kp_mem := memset0 base (unat sz) (kp_mem p)\<rparr>))"

definition kernel_free_pmem_buffer :: "'k pmem_deps \<Rightarrow> u32 \<Rightarrow> nat \<Rightarrow> 'k kpmem \<Rightarrow> int \<times> 'k kpmem" where
  "kernel_free_pmem_buffer D sz base p =
     (let sz = clp2 sz
      in case d_munmap D base sz (kp_sys p) of
           (err, k) \<Rightarrow> if err < 0 then (- d_getErrno D k, p\<lparr>kp_sys := k\<rparr>) else (0, p\<lparr>kp_sys := k\<rparr>))"

subsection \<open>Rounding up to a power of two\<close>

text \<open>\<open>smeared k y x\<close>: a bit of \<open>y\<close> is set when \<open>x\<close> has one at most \<open>k - 1\<close> places above it.\<close>

definition smeared :: "nat \<Rightarrow> u32 \<Rightarrow> u32 \<Rightarrow> bool" where
  "smeared k y x \<longleftrightarrow> (\<forall>i. bit y i \<longleftrightarrow> (\<exists>d < k. bit x (i + d)))"

lemma smeared_step: "l = k + k \<Longrightarrow> smeared k y x \<Longrightarrow> smeared l (y OR drop_bit k y) x"
proof (unfold smeared_def, intro allI, hypsubst)
  fix i assume s: "\<forall>i. bit y i \<longleftrightarrow> (\<exists>d < k. bit x (i + d))"
  have "(\<exists>d < k + k. bit x (i + d)) \<longleftrightarrow> (\<exists>d < k. bit x (i + d)) \<or> (\<exists>d < k. bit x (i + k + d))" (is "?l \<longleftrightarrow> ?r")
  proof
    assume ?l
    then obtain d where d: "d < k + k" "bit x (i + d)" by blast
    show ?r
    proof (cases "d < k")
      case False
      then have "d - k < k" "i + k + (d - k) = i + d" using d(1) by simp_all
      then show ?r using d(2) by metis
    qed (use d in blast)
  next
    assume ?r
    then show ?l by (metis add.assoc add_strict_left_mono trans_less_add1)
  qed
  then show "bit (y OR drop_bit k y) i \<longleftrightarrow> (\<exists>d < k + k. bit x (i + d))"
    using s by (simp add: bit_or_iff bit_drop_bit_eq add.commute)
qed

lemma clp2_power:
  assumes "m \<le> 31" "0 < unat x" "unat x \<le> 2 ^ m" "m = 0 \<or> 2 ^ (m - 1) < unat x"
  shows "clp2 x = 2 ^ m"
proof -
  define w where "w = x - 1"
  have w: "unat w = unat x - 1" unfolding w_def using assms(2) by (subst unat_sub) (simp_all add: word_le_nat_alt)
  define y where "y = clp2 x - 1"
  have "smeared 1 w w" by (simp add: smeared_def)
  then have s: "smeared 32 y w" unfolding y_def clp2_def w_def[symmetric] Let_def add_diff_cancel_right'
    by (intro smeared_step[of 32 16] smeared_step[of 16 8] smeared_step[of 8 4] smeared_step[of 4 2] smeared_step[of 2 1]) simp_all
  have "y = mask m"
  proof (rule bit_word_eqI)
    fix i assume i: "i < LENGTH(32)"
    have t: "take_bit m w = w"
      using assms(2,3) w by (intro word_unat_eq_iff[THEN iffD2]) (simp add: unsigned_take_bit_eq take_bit_nat_eq_self)
    have up: "bit w j \<Longrightarrow> j < m" for j using arg_cong[OF t, of "\<lambda>v. bit v j"] by (simp add: bit_take_bit_iff)
    have top: "bit w (m - 1)" if "0 < m"
    proof (rule ccontr)
      assume "\<not> bit w (m - 1)"
      then have "take_bit (m - 1) w = w" using up that
        by (intro bit_word_eqI) (auto simp: bit_take_bit_iff, metis One_nat_def Suc_pred less_antisym)
      then have "unat w = take_bit (m - 1) (unat w)" by (metis unsigned_take_bit_eq)
      then have "unat w < 2 ^ (m - 1)" by (metis take_bit_nat_less_exp)
      then show False using assms(4) w that by simp
    qed
    show "bit y i \<longleftrightarrow> bit (mask m :: u32) i"
    proof
      assume "bit y i"
      then show "bit (mask m :: u32) i" using s up i unfolding smeared_def by (fastforce simp: bit_mask_iff)
    next
      assume "bit (mask m :: u32) i"
      then have "i < m" by (simp add: bit_mask_iff)
      then have "bit w (i + (m - 1 - i))" "m - 1 - i < 32" using top assms(1) by simp_all
      then show "bit y i" using s unfolding smeared_def by blast
    qed
  qed
  then have "clp2 x - 1 = 2 ^ m - 1" unfolding y_def by (simp add: mask_eq_decr_exp)
  then show ?thesis by simp
qed

subsection \<open>What the driver relies on\<close>

text \<open>
  The contract of \<open>Deps::Allocator\<close>: \<open>ok\<close> is the invariant of an allocator that has been given its size,
  \<open>in_use\<close> the blocks handed out, as offset and length.
\<close>

definition pm_ok :: "'a \<Rightarrow> ('a \<Rightarrow> bool) \<Rightarrow> ('a, 'k) pmem \<Rightarrow> bool" where
  "pm_ok fresh ok p \<longleftrightarrow> (if pm_fd p = MASTER_FD_INIT then pm_al p = fresh \<or> ok (pm_al p) else pm_fd p < 0 \<or> ok (pm_al p))"

locale suballocator =
  fixes A :: "'a suballoc" and fresh :: 'a and ok :: "'a \<Rightarrow> bool" and in_use :: "'a \<Rightarrow> (nat \<times> nat) set"
  assumes unused: "in_use fresh = {}"
    and set_size: "ok (snd (al_setSize A pmem_size fresh))" "in_use (snd (al_setSize A pmem_size fresh)) = {}"
    and set_size_once: "ok a \<Longrightarrow> snd (al_setSize A sz a) = a"
    and grant: "\<lbrakk>ok a; 0 < unat sz; unat sz + 31 < 2 ^ 32; al_allocate A sz a = (r, a'); 0 \<le> r\<rbrakk> \<Longrightarrow>
        ok a' \<and> 4096 dvd r \<and> nat r + unat sz \<le> 2 ^ 23 \<and>
        (\<exists>l \<ge> unat sz. in_use a' = insert (nat r, l) (in_use a) \<and> (\<forall>(s, k) \<in> in_use a. s + k \<le> nat r \<or> nat r + l \<le> s))"
    and refuse: "\<lbrakk>ok a; 0 < unat sz; unat sz + 31 < 2 ^ 32; al_allocate A sz a = (r, a'); r < 0\<rbrakk> \<Longrightarrow> a' = a"
    and undo: "\<lbrakk>ok a; 0 < unat sz; unat sz + 31 < 2 ^ 32; al_allocate A sz a = (r, a'); 0 \<le> r\<rbrakk> \<Longrightarrow>
        al_deallocate A (word_of_int r) a' = Inr (0, a)"
    and release: "\<lbrakk>ok a; (nat off, l) \<in> in_use a; 0 \<le> off\<rbrakk> \<Longrightarrow>
        \<exists>a'. al_deallocate A (word_of_int off) a = Inr (0, a') \<and> ok a' \<and> in_use a' = in_use a - {(nat off, l)}"

text \<open>
  The documented behaviour of the system calls: an \<open>ioctl\<close> does not return a positive number, and a call
  that fails leaves a positive \<open>errno\<close>.
\<close>

definition deps_ok :: "'k pmem_deps \<Rightarrow> bool" where
  "deps_ok D \<longleftrightarrow>
     (\<forall>fd k. fst (d_getPmemTotalSize D fd k) \<le> 0)
     \<and> (\<forall>fd m k. case d_connectPmem D fd m k of (r, k') \<Rightarrow> r \<le> 0 \<and> (r < 0 \<longrightarrow> 0 < d_getErrno D k'))
     \<and> (\<forall>fd off sz k. case d_mapPmem D fd off sz k of (r, k') \<Rightarrow> r \<le> 0 \<and> (r < 0 \<longrightarrow> 0 < d_getErrno D k'))
     \<and> (\<forall>sz fd k. case d_mmap D sz fd k of (r, k') \<Rightarrow> r = None \<longrightarrow> 0 < d_getErrno D k')
     \<and> (\<forall>dev flags k. case d_open D dev flags k of (r, k') \<Rightarrow> r < 0 \<longrightarrow> 0 < d_getErrno D k')"

lemma deps_okD:
  assumes "deps_ok D"
  shows "d_getPmemTotalSize D fd k = (r, z, k') \<Longrightarrow> r \<le> 0"
    and "d_connectPmem D fd m k = (r, k') \<Longrightarrow> r \<le> 0 \<and> (r < 0 \<longrightarrow> 0 < d_getErrno D k')"
    and "d_mapPmem D fd off sz k = (r, k') \<Longrightarrow> r \<le> 0 \<and> (r < 0 \<longrightarrow> 0 < d_getErrno D k')"
    and "d_mmap D sz fd k = (None, k') \<Longrightarrow> 0 < d_getErrno D k'"
    and "d_open D dev flags k = (r, k') \<Longrightarrow> r < 0 \<Longrightarrow> 0 < d_getErrno D k'"
proof -
  note d = assms[unfolded deps_ok_def]
  show "d_getPmemTotalSize D fd k = (r, z, k') \<Longrightarrow> r \<le> 0"
    using d[THEN conjunct1, rule_format, of fd k] by simp
  show "d_connectPmem D fd m k = (r, k') \<Longrightarrow> r \<le> 0 \<and> (r < 0 \<longrightarrow> 0 < d_getErrno D k')"
    using d[THEN conjunct2, THEN conjunct1, rule_format, of fd m k] by simp
  show "d_mapPmem D fd off sz k = (r, k') \<Longrightarrow> r \<le> 0 \<and> (r < 0 \<longrightarrow> 0 < d_getErrno D k')"
    using d[THEN conjunct2, THEN conjunct2, THEN conjunct1, rule_format, of fd off sz k] by simp
  show "d_mmap D sz fd k = (None, k') \<Longrightarrow> 0 < d_getErrno D k'"
    using d[THEN conjunct2, THEN conjunct2, THEN conjunct2, THEN conjunct1, rule_format, of sz fd k] by simp
  show "d_open D dev flags k = (r, k') \<Longrightarrow> r < 0 \<Longrightarrow> 0 < d_getErrno D k'"
    using d[THEN conjunct2, THEN conjunct2, THEN conjunct2, THEN conjunct2, rule_format, of dev flags k] by simp
qed

lemma sub_heap_result:
  assumes "deps_ok D" "sub_heap D dev usage sz offset m k = (fd, err, k')"
  shows "err \<le> 0 \<and> (err < 0 \<longrightarrow> 0 < d_getErrno D k') \<and> (err = 0 \<longrightarrow> 0 \<le> fd)"
proof -
  obtain g k1 where op: "d_open D dev (get_open_flags usage) k = (g, k1)" by (cases "d_open D dev (get_open_flags usage) k")
  obtain e2 k2 where c: "d_connectPmem D g m k1 = (e2, k2)" by (cases "d_connectPmem D g m k1")
  obtain e3 k3 where mp: "d_mapPmem D g offset sz k2 = (e3, k3)" by (cases "d_mapPmem D g offset sz k2")
  show ?thesis
    using assms(2) deps_okD(5)[OF assms(1) op] deps_okD(2)[OF assms(1) c] deps_okD(3)[OF assms(1) mp]
    by (simp add: sub_heap_def op c mp split: if_splits)
qed

context suballocator
begin

lemma sized: "a = fresh \<or> ok a \<Longrightarrow> ok (snd (al_setSize A pmem_size a)) \<and> in_use (snd (al_setSize A pmem_size a)) = in_use a"
  using set_size set_size_once unused by auto

lemma init_locked:
  assumes "pm_al p = fresh \<or> ok (pm_al p)" "deps_ok D" "init_pmem_area_locked A D dev p = (err, p')"
  shows "err \<le> 0 \<and> (pm_al p' = pm_al p \<or> ok (pm_al p')) \<and> in_use (pm_al p') = in_use (pm_al p) \<and> pm_mem p' = pm_mem p
    \<and> (err = 0 \<longrightarrow> ok (pm_al p') \<and> 0 \<le> pm_fd p')"
proof -
  obtain fd k where op: "d_open D dev O_RDWR (pm_sys p) = (fd, k)" by (cases "d_open D dev O_RDWR (pm_sys p)")
  show ?thesis
  proof (cases "0 \<le> fd")
    case False
    then show ?thesis using assms(3) deps_okD(5)[OF assms(2) op] by (simp add: init_pmem_area_locked_def op) auto
  next
    case True
    obtain e z k1 where t: "d_getPmemTotalSize D fd k = (e, z, k1)" by (cases "d_getPmemTotalSize D fd k") auto
    obtain b k2 where m: "d_mmap D 8388608 fd k1 = (b, k2)" by (cases "d_mmap D 8388608 fd k1")
    show ?thesis
    proof (cases b)
      case None
      then have "0 < d_getErrno D k2" using deps_okD(4)[OF assms(2)] m by metis
      moreover have "err = - d_getErrno D k2" "pm_al p' = snd (al_setSize A pmem_size (pm_al p))" "pm_mem p' = pm_mem p"
        using assms(3) True m None by (auto simp: init_pmem_area_locked_def op t)
      ultimately show ?thesis using sized[OF assms(1)] by simp
    next
      case (Some base)
      then have "err = e" "pm_al p' = snd (al_setSize A pmem_size (pm_al p))" "pm_mem p' = pm_mem p" "pm_fd p' = fd"
        using assms(3) True m by (auto simp: init_pmem_area_locked_def op t)
      then show ?thesis using sized[OF assms(1)] deps_okD(1)[OF assms(2) t] True by simp
    qed
  qed
qed

lemma init:
  assumes "pm_ok fresh ok p" "deps_ok D" "init_pmem_area A D dev p = (err, p')"
  shows "err \<le> 0 \<and> pm_ok fresh ok p' \<and> in_use (pm_al p') = in_use (pm_al p) \<and> pm_mem p' = pm_mem p
    \<and> (err = 0 \<longrightarrow> ok (pm_al p') \<and> 0 \<le> pm_fd p') \<and> (0 \<le> pm_fd p \<longrightarrow> err = 0 \<and> p' = p)"
proof (cases "pm_fd p = MASTER_FD_INIT")
  case True
  obtain e q where l: "init_pmem_area_locked A D dev p = (e, q)" by (cases "init_pmem_area_locked A D dev p")
  have f: "pm_al p = fresh \<or> ok (pm_al p)" using assms(1) True by (simp add: pm_ok_def)
  note li = init_locked[OF f assms(2) l]
  have r: "err = e" "p' = (if e \<noteq> 0 then q\<lparr>pm_fd := e\<rparr> else q)"
    using assms(3) True l by (auto simp: init_pmem_area_def split: if_splits)
  have al: "pm_al q = fresh \<or> ok (pm_al q)" using li f by metis
  show ?thesis
  proof (cases "e = 0")
    case e: True
    then show ?thesis using li True by (simp add: r pm_ok_def)
  next
    case False
    then show ?thesis using li al True by (simp add: r pm_ok_def)
  qed
next
  case False
  then have "err = (if pm_fd p < 0 then pm_fd p else 0)" "p' = p"
    using assms(3) by (auto simp: init_pmem_area_def Let_def split: if_splits)
  then show ?thesis using False assms(1) by (auto simp: pm_ok_def)
qed

text \<open>An allocation, on every path.\<close>

lemma alloc_buffer:
  assumes "pm_ok fresh ok p" "deps_ok D" "0 < unat sz" "unat sz + 31 < 2 ^ 32"
  obtains (failed) err p' where "alloc_pmem_buffer A D dev sz usage p = Inr ((err, None), p')" "err < 0" "pm_ok fresh ok p'"
      "in_use (pm_al p') = in_use (pm_al p)" "pm_mem p' = pm_mem p"
  | (granted) off fd l p' where "alloc_pmem_buffer A D dev sz usage p = Inr ((0, Some (pm_base p', off, fd)), p')"
      "pm_ok fresh ok p'" "0 \<le> pm_fd p'" "0 \<le> off" "0 \<le> fd" "4096 dvd off" "nat off + unat sz \<le> 2 ^ 23" "unat sz \<le> l"
      "in_use (pm_al p') = insert (nat off, l) (in_use (pm_al p))"
      "\<forall>(s, k) \<in> in_use (pm_al p). s + k \<le> nat off \<or> nat off + l \<le> s"
      "pm_mem p' = memset0 (pm_base p' + nat off) (unat sz) (pm_mem p)"
proof -
  obtain e q where i: "init_pmem_area A D dev p = (e, q)" by (cases "init_pmem_area A D dev p")
  note li = init[OF assms(1,2) i]
  obtain r a where al: "al_allocate A sz (pm_al q) = (r, a)" by (cases "al_allocate A sz (pm_al q)")
  consider (init) "e \<noteq> 0" | (full) "e = 0" "r < 0" | (room) "e = 0" "0 \<le> r" by linarith
  then show thesis
  proof cases
    case init
    show thesis
      by (rule failed[of e q]) (use init li in \<open>simp_all add: alloc_pmem_buffer_def i\<close>)
  next
    case full
    then have "a = pm_al q" using refuse[OF _ assms(3,4) al] li by simp
    then show thesis
      by (intro failed[of "- ENOMEM" q]) (use full li al in \<open>simp_all add: alloc_pmem_buffer_def i\<close>)
  next
    case room
    have ok: "ok (pm_al q)" "0 \<le> pm_fd q" using li room(1) by simp_all
    note g = grant[OF ok(1) assms(3,4) al room(2)]
    obtain fd e3 k3 where sh: "sub_heap D dev usage sz r (pm_fd q) (pm_sys q) = (fd, e3, k3)"
      by (cases "sub_heap D dev usage sz r (pm_fd q) (pm_sys q)") auto
    note f3 = sub_heap_result[OF assms(2) sh]
    have run: "alloc_pmem_buffer A D dev sz usage p =
      (if e3 < 0 then case al_deallocate A (word_of_int r) a of Inl e \<Rightarrow> Inl e
         | Inr (_, a') \<Rightarrow> Inr ((- d_getErrno D k3, None), q\<lparr>pm_al := a', pm_sys := d_close D fd k3\<rparr>)
       else Inr ((e3, Some (pm_base q, r, fd)), q\<lparr>pm_al := a, pm_sys := k3, pm_mem := memset0 (pm_base q + nat r) (unat sz) (pm_mem q)\<rparr>))"
      using room sh by (simp add: alloc_pmem_buffer_def i al Let_def split: sum.split prod.split)
    show thesis
    proof (cases "e3 < 0")
      case True
      then have "alloc_pmem_buffer A D dev sz usage p = Inr ((- d_getErrno D k3, None), q\<lparr>pm_al := pm_al q, pm_sys := d_close D fd k3\<rparr>)"
        using run undo[OF ok(1) assms(3,4) al room(2)] by simp
      then show thesis by (rule failed) (use f3 True li in \<open>simp_all add: pm_ok_def\<close>)
    next
      case False
      then have z: "e3 = 0" "0 \<le> fd" using f3 by simp_all
      obtain l where l: "unat sz \<le> l" "in_use a = insert (nat r, l) (in_use (pm_al q))"
        "\<forall>(s, k) \<in> in_use (pm_al q). s + k \<le> nat r \<or> nat r + l \<le> s" using g by blast
      let ?p = "q\<lparr>pm_al := a, pm_sys := k3, pm_mem := memset0 (pm_base q + nat r) (unat sz) (pm_mem q)\<rparr>"
      have "alloc_pmem_buffer A D dev sz usage p = Inr ((0, Some (pm_base ?p, r, fd)), ?p)" using run z by simp
      then show thesis
        by (rule granted) (use l g li ok room z in \<open>simp_all add: pm_ok_def split: if_splits\<close>)
    qed
  qed
qed

text \<open>A buffer is given back, or stays in use when it could not be unmapped.\<close>

lemma free_buffer:
  assumes "pm_ok fresh ok p" "0 \<le> pm_fd p" "(nat off, l) \<in> in_use (pm_al p)" "0 \<le> off" "0 \<le> fd"
    and "d_unmapPmem D fd off sz (pm_sys p) = (r, k)"
  obtains p' where "free_pmem_buffer A D sz off fd p = Inr (0, p')" "pm_ok fresh ok p'" "pm_mem p' = pm_mem p"
    "in_use (pm_al p') = (if r = 0 then in_use (pm_al p) - {(nat off, l)} else in_use (pm_al p))"
proof (cases "r = 0")
  case True
  have "ok (pm_al p)" using assms(1,2) by (auto simp: pm_ok_def split: if_splits)
  from release[OF this assms(3,4)] obtain a where a: "al_deallocate A (word_of_int off) (pm_al p) = Inr (0, a)" "ok a"
    "in_use a = in_use (pm_al p) - {(nat off, l)}" by blast
  show thesis
    by (rule that[of "p\<lparr>pm_sys := k, pm_al := a\<rparr>"]) (use True a assms in \<open>simp_all add: free_pmem_buffer_def pm_ok_def\<close>)
next
  case False
  show thesis
    by (rule that[of "p\<lparr>pm_sys := k\<rparr>"]) (use False assms in \<open>simp_all add: free_pmem_buffer_def pm_ok_def\<close>)
qed

end

subsection \<open>The driver on the best fit allocator\<close>

definition best_fit_allocator :: "bool \<Rightarrow> bfa suballoc" where
  "best_fit_allocator debug = \<lparr>al_setSize = setSize 4096, al_allocate = allocate 4096, al_deallocate = deallocate debug\<rparr>"

definition bf_sized :: "bfa \<Rightarrow> bool" where
  "bf_sized b \<longleftrightarrow> bf_ok 7 b \<and> unat (b_heap b) = 2 ^ 23"

lemma bf_sized_fresh:
  "bf_sized (snd (setSize 4096 pmem_size SimpleBestFitAllocator)) \<and> heap_blocks (snd (setSize 4096 pmem_size SimpleBestFitAllocator)) = {}"
proof -
  have "setSize (2 ^ (5 + 7)) 8388608 SimpleBestFitAllocator = (fst (setSize 4096 8388608 SimpleBestFitAllocator), snd (setSize 4096 8388608 SimpleBestFitAllocator))"
    by simp
  from setSize_heap[OF _ _ _ this] show ?thesis by (simp add: bf_sized_def bf_size_def)
qed

lemma bf_sized_grant:
  assumes "bf_sized b" "0 < unat sz" "unat sz + 31 < 2 ^ 32" "allocate 4096 sz b = (r, b')" "0 \<le> r"
  shows "bf_sized b' \<and> 4096 dvd r \<and> nat r + unat sz \<le> 2 ^ 23 \<and>
    (\<exists>l \<ge> unat sz. heap_blocks b' = insert (nat r, l) (heap_blocks b) \<and> (\<forall>(s, k) \<in> heap_blocks b. s + k \<le> nat r \<or> nat r + l \<le> s))"
proof -
  have u: "unat ((sz + kMemoryAlign - 1) div kMemoryAlign) = (unat sz + 31) div 32" by (rule units_of_size[OF assms(3)])
  have a: "allocate (2 ^ (5 + 7)) sz b = (r, b')" using assms(4) by simp
  have "unat sz \<le> 32 * ((unat sz + 31) div 32)" by linarith
  moreover note allocate_spec[OF _ _ assms(2,3) u a]
  ultimately show ?thesis using assms(1,5) unfolding u bf_sized_def by auto
qed

lemma bf_sized_block_start:
  assumes "bf_sized b" "(nat off, l) \<in> heap_blocks b" "0 \<le> off"
  shows "unat (word_of_int off :: u32) = nat off"
proof -
  obtain s k where "(s, k) \<in> live (b_list b)" "nat off = 32 * s" using assms(2) by (auto simp: heap_blocks_def)
  moreover from this obtain c where "c \<in> set (b_list b)" "unat (ch_start c) = s" by (auto simp: live_def)
  moreover from this have "s < 2 ^ 26" using bf_ok_bounds[of 7 b c] assms(1) by (simp add: bf_sized_def)
  ultimately have "nat off < 2 ^ 32" by simp
  moreover have "(word_of_int off :: u32) = of_nat (nat off)" using assms(3) by simp
  ultimately show ?thesis by (simp add: unat_of_nat take_bit_nat_eq_self)
qed

interpretation bf: suballocator "best_fit_allocator debug" SimpleBestFitAllocator bf_sized heap_blocks
proof
  show "heap_blocks SimpleBestFitAllocator = {}" by (simp add: heap_blocks_def live_def SimpleBestFitAllocator_def)
  show "bf_sized (snd (al_setSize (best_fit_allocator debug) pmem_size SimpleBestFitAllocator))"
    "heap_blocks (snd (al_setSize (best_fit_allocator debug) pmem_size SimpleBestFitAllocator)) = {}"
    using bf_sized_fresh by (simp_all add: best_fit_allocator_def)
next
  fix a sz assume "bf_sized a"
  then show "snd (al_setSize (best_fit_allocator debug) sz a) = a"
    by (auto simp: best_fit_allocator_def setSize_def bf_sized_def bf_ok_def)
next
  fix a a' r and sz :: u32
  assume a: "bf_sized a" and sz: "0 < unat sz" "unat sz + 31 < 2 ^ 32"
    and al: "al_allocate (best_fit_allocator debug) sz a = (r, a')"
  have al': "allocate (2 ^ (5 + 7)) sz a = (r, a')" using al by (simp add: best_fit_allocator_def)
  {
    assume r: "0 \<le> r"
    show "bf_sized a' \<and> 4096 dvd r \<and> nat r + unat sz \<le> 2 ^ 23 \<and>
      (\<exists>l \<ge> unat sz. heap_blocks a' = insert (nat r, l) (heap_blocks a) \<and> (\<forall>(s, k) \<in> heap_blocks a. s + k \<le> nat r \<or> nat r + l \<le> s))"
      by (rule bf_sized_grant[OF a sz _ r]) (use al' in simp)
    show "al_deallocate (best_fit_allocator debug) (word_of_int r) a' = Inr (0, a)"
      using deallocate_allocated[OF _ _ sz al' r] a by (simp add: best_fit_allocator_def bf_sized_def)
  next
    assume "r < 0"
    then show "a' = a" using allocate_spec[OF _ _ sz units_of_size[OF sz(2)] al'] a by (simp add: bf_sized_def)
  }
next
  fix a off l assume a: "bf_sized a" "(nat off, l) \<in> heap_blocks a" "0 \<le> off"
  have "bf_ok 7 a" "(unat (word_of_int off :: u32), l) \<in> heap_blocks a"
    using a by (simp_all add: bf_sized_def bf_sized_block_start[OF a])
  from deallocate_in_use[OF this, of debug] obtain a' where "deallocate debug (word_of_int off) a = Inr (0, a')" "bf_ok 7 a'"
    "b_heap a' = b_heap a" "heap_blocks a' = heap_blocks a - {(unat (word_of_int off :: u32), l)}" by blast
  then show "\<exists>a'. al_deallocate (best_fit_allocator debug) (word_of_int off) a = Inr (0, a') \<and> bf_sized a' \<and> heap_blocks a' = heap_blocks a - {(nat off, l)}"
    using a by (simp add: best_fit_allocator_def bf_sized_def bf_sized_block_start[OF a])
qed

text \<open>
  C12: A graphics buffer from the suballocating driver is fresh: when \<open>alloc_pmem_buffer\<close> succeeds, the
  buffer starts at a page and lies inside the mapped device, it overlaps no buffer in use and is in use
  from then on, its bytes are zero, and not a byte of any other buffer changes. Whatever system call
  fails on the way, the error is negative, no buffer is handed out, the same buffers stay in use and no
  memory changes. The driver never runs into a fatal check of its allocator.
\<close>

theorem pmem_buffer_isolated:
  assumes "pm_ok SimpleBestFitAllocator bf_sized p" "deps_ok D" "0 < unat sz" "unat sz + 31 < 2 ^ 32"
  shows "\<exists>err out p'. alloc_pmem_buffer (best_fit_allocator debug) D dev sz usage p = Inr ((err, out), p')
    \<and> pm_ok SimpleBestFitAllocator bf_sized p'
    \<and> (case out of
         None \<Rightarrow> err < 0 \<and> heap_blocks (pm_al p') = heap_blocks (pm_al p) \<and> pm_mem p' = pm_mem p
       | Some (base, off, fd) \<Rightarrow> err = 0 \<and> base = get_base_address p' \<and> 0 \<le> off \<and> 0 \<le> fd \<and> 4096 dvd off
           \<and> nat off + unat sz \<le> unat pmem_size
           \<and> (\<exists>l \<ge> unat sz. heap_blocks (pm_al p') = insert (nat off, l) (heap_blocks (pm_al p)))
           \<and> (\<forall>x. base + nat off \<le> x \<and> x < base + nat off + unat sz \<longrightarrow> pm_mem p' x = CHR 0x00)
           \<and> (\<forall>(s, k) \<in> heap_blocks (pm_al p). (s + k \<le> nat off \<or> nat off + unat sz \<le> s)
                \<and> (\<forall>x. base + s \<le> x \<and> x < base + s + k \<longrightarrow> pm_mem p' x = pm_mem p x)))"
proof (rule bf.alloc_buffer[OF assms, of debug dev usage])
  fix err p'
  assume "alloc_pmem_buffer (best_fit_allocator debug) D dev sz usage p = Inr ((err, None), p')" "err < 0"
    "pm_ok SimpleBestFitAllocator bf_sized p'" "heap_blocks (pm_al p') = heap_blocks (pm_al p)" "pm_mem p' = pm_mem p"
  then show ?thesis by auto
next
  fix off fd l p'
  assume a: "alloc_pmem_buffer (best_fit_allocator debug) D dev sz usage p = Inr ((0, Some (pm_base p', off, fd)), p')"
    "pm_ok SimpleBestFitAllocator bf_sized p'" "0 \<le> pm_fd p'" "0 \<le> off" "0 \<le> fd" "4096 dvd off" "nat off + unat sz \<le> 2 ^ 23" "unat sz \<le> l"
    "heap_blocks (pm_al p') = insert (nat off, l) (heap_blocks (pm_al p))"
    "\<forall>(s, k) \<in> heap_blocks (pm_al p). s + k \<le> nat off \<or> nat off + l \<le> s"
    "pm_mem p' = memset0 (pm_base p' + nat off) (unat sz) (pm_mem p)"
  have "\<forall>(s, k) \<in> heap_blocks (pm_al p). (s + k \<le> nat off \<or> nat off + unat sz \<le> s)
      \<and> (\<forall>x. pm_base p' + s \<le> x \<and> x < pm_base p' + s + k \<longrightarrow> pm_mem p' x = pm_mem p x)"
    using a(8,10,11) by (fastforce simp: memset0_def)
  then show ?thesis using a by (intro exI[of _ 0] exI[of _ "Some (pm_base p', off, fd)"] exI[of _ p']) (auto simp: get_base_address_def memset0_def)
qed

text \<open>
  C13: A buffer is reused only after it has been unmapped: \<open>free_pmem_buffer\<close> gives the block of the buffer
  back to the allocator when the unmapping succeeds; when it fails the block stays in use, so that nobody
  else is given memory the client can still reach. The result is 0 in both cases, and no memory changes.
\<close>

theorem pmem_free_after_unmap:
  assumes "pm_ok SimpleBestFitAllocator bf_sized p" "0 \<le> pm_fd p" "(nat off, l) \<in> heap_blocks (pm_al p)" "0 \<le> off" "0 \<le> fd"
  shows "\<exists>p'. free_pmem_buffer (best_fit_allocator debug) D sz off fd p = Inr (0, p')
    \<and> pm_ok SimpleBestFitAllocator bf_sized p' \<and> pm_mem p' = pm_mem p
    \<and> heap_blocks (pm_al p') = (if fst (d_unmapPmem D fd off sz (pm_sys p)) = 0
        then heap_blocks (pm_al p) - {(nat off, l)} else heap_blocks (pm_al p))"
proof -
  obtain r k where u: "d_unmapPmem D fd off sz (pm_sys p) = (r, k)" by (cases "d_unmapPmem D fd off sz (pm_sys p)")
  from bf.free_buffer[OF assms u, of debug] show ?thesis by (metis u fst_conv)
qed

subsection \<open>The driver that allocates in the kernel\<close>

lemma clp2_least:
  assumes "0 < unat x" "unat x \<le> 2 ^ 31"
  obtains m where "m \<le> 31" "clp2 x = 2 ^ m" "unat (clp2 x) = 2 ^ m" "unat x \<le> 2 ^ m" "\<And>k. unat x \<le> 2 ^ k \<Longrightarrow> m \<le> k"
proof -
  define m where "m = (LEAST m. unat x \<le> 2 ^ m)"
  have le: "unat x \<le> 2 ^ m" unfolding m_def by (rule LeastI[of _ 31]) (rule assms(2))
  have least: "m \<le> k" if "unat x \<le> 2 ^ k" for k unfolding m_def by (rule Least_le) (rule that)
  have m: "m \<le> 31" by (rule least[OF assms(2)])
  have "m = 0 \<or> 2 ^ (m - 1) < unat x" using least[of "m - 1"] by linarith
  then have c: "clp2 x = 2 ^ m" by (rule clp2_power[OF m assms(1) le])
  have "unat (clp2 x) = 2 ^ m" unfolding c by (rule unat_exp[OF m])
  then show thesis using that m c le least by blast
qed

text \<open>
  A buffer of the kernel driver is a mapping of its own, of the least power of two that holds the
  size: when \<open>alloc_pmem_buffer\<close> succeeds the mapping of that length was made, all of it is zero and no
  other memory changed, and \<open>free_pmem_buffer\<close> unmaps exactly that length.
\<close>

theorem kernel_buffer_mapped:
  assumes "deps_ok D" "0 < unat sz" "unat sz \<le> 2 ^ 31"
    and "kernel_alloc_pmem_buffer D dev sz usage p = ((0, base, off, fd), p')"
  shows "\<exists>m len k. unat len = 2 ^ m \<and> unat sz \<le> 2 ^ m \<and> (\<forall>j. unat sz \<le> 2 ^ j \<longrightarrow> m \<le> j)
    \<and> d_mmap D len fd k = (Some base, kp_sys p') \<and> off = 0 \<and> 0 \<le> fd
    \<and> kp_mem p' = (\<lambda>x. if base \<le> x \<and> x < base + 2 ^ m then CHR 0x00 else kp_mem p x)
    \<and> kernel_free_pmem_buffer D sz base p' =
        (case d_munmap D base len (kp_sys p') of (err, k') \<Rightarrow> (if err < 0 then - d_getErrno D k' else 0, p'\<lparr>kp_sys := k'\<rparr>))"
proof -
  obtain m where m: "unat (clp2 sz) = 2 ^ m" "unat sz \<le> 2 ^ m" "\<And>k. unat sz \<le> 2 ^ k \<Longrightarrow> m \<le> k"
    using clp2_least[OF assms(2,3)] by metis
  obtain g k where op: "d_open D dev (get_open_flags usage) (kp_sys p) = (g, k)" by (cases "d_open D dev (get_open_flags usage) (kp_sys p)")
  obtain b k2 where mp: "d_mmap D (clp2 sz) g k = (b, k2)" by (cases "d_mmap D (clp2 sz) g k")
  have g: "0 \<le> g" "b = Some base"
    using assms(4) deps_okD(5)[OF assms(1) op] deps_okD(4)[OF assms(1), of "clp2 sz" g k k2] mp
    by (auto simp: kernel_alloc_pmem_buffer_def op split: if_splits option.splits)
  then have r: "g = fd" "off = 0" "p' = p\<lparr>kp_sys := k2, kp_mem := memset0 base (unat (clp2 sz)) (kp_mem p)\<rparr>"
    using assms(4) mp by (auto simp: kernel_alloc_pmem_buffer_def op)
  show ?thesis
    by (intro exI[of _ m] exI[of _ "clp2 sz"] exI[of _ k])
      (use m g mp r in \<open>simp add: memset0_def kernel_free_pmem_buffer_def split: prod.split\<close>)
qed

text \<open>
  When the size of the device cannot be read, the driver maps it all the same ("limp mode") but stores the
  error for the descriptor and fails every allocation from then on.
\<close>

lemma limp_mode_unusable:
  assumes "pm_fd p = MASTER_FD_INIT" "d_open D dev O_RDWR (pm_sys p) = (fd, k)" "0 \<le> fd"
    and "d_getPmemTotalSize D fd k = (err, z, k1)" "err < 0" "d_mmap D pmem_size fd k1 = (Some base, k2)"
  shows "\<exists>p'. alloc_pmem_buffer A D dev sz usage p = Inr ((err, None), p') \<and> pm_fd p' = err"
  using assms by (simp add: alloc_pmem_buffer_def init_pmem_area_def init_pmem_area_locked_def)

text \<open>An allocation that fails with \<open>EPERM\<close> leaves the driver as if it had not been tried.\<close>

lemma eperm_retries:
  assumes "pm_fd p = MASTER_FD_INIT" "d_open D dev O_RDWR (pm_sys p) = (-1, k)" "d_getErrno D k = 1"
  shows "init_pmem_area A D dev p = (-1, p\<lparr>pm_sys := k\<rparr>)"
  using assms by (cases p) (simp add: init_pmem_area_def init_pmem_area_locked_def Let_def)

subsection \<open>A system on which the calls succeed\<close>

definition demo_deps :: "unit pmem_deps" where
  "demo_deps = \<lparr>d_getPmemTotalSize = (\<lambda>fd k. (0, 0x800000, k)), d_connectPmem = (\<lambda>fd m k. (0, k)), d_mapPmem = (\<lambda>fd off sz k. (0, k)),
     d_unmapPmem = (\<lambda>fd off sz k. (0, k)), d_getErrno = (\<lambda>k. 12), d_mmap = (\<lambda>sz fd k. (Some 0x40000000, k)),
     d_munmap = (\<lambda>a sz k. (0, k)), d_open = (\<lambda>dev flags k. (3, k)), d_close = (\<lambda>fd k. k)\<rparr>"

lemma demo_deps_ok: "deps_ok demo_deps"
  by (simp add: deps_ok_def demo_deps_def)

definition demo_pmem :: "(bfa, unit) pmem" where
  "demo_pmem = PmemUserspaceAllocator 0 SimpleBestFitAllocator () (\<lambda>_. CHR ''x'')"

lemma demo_pmem_ok: "pm_ok SimpleBestFitAllocator bf_sized demo_pmem"
  by (simp add: demo_pmem_def pm_ok_def PmemUserspaceAllocator_def)

definition demo_used :: "(bfa, unit) pmem" where
  "demo_used = \<lparr>pm_fd = 3, pm_base = 0x40000000,
     pm_al = \<lparr>b_list = [\<lparr>ch_start = 0, ch_size = 157, ch_free = False\<rparr>, \<lparr>ch_start = 157, ch_size = 261987, ch_free = True\<rparr>], b_heap = 0x800000\<rparr>,
     pm_sys = (), pm_mem = (\<lambda>_. CHR ''x'')\<rparr>"

lemma demo_used_ok: "pm_ok SimpleBestFitAllocator bf_sized demo_used" "heap_blocks (pm_al demo_used) = {(0, 5024)}" "pm_fd demo_used = 3"
  by (simp_all add: demo_used_def pm_ok_def bf_sized_def bf_ok_def chunks_ok_def heap_blocks_def live_def)

lemma demo_alloc:
  "\<exists>p'. alloc_pmem_buffer (best_fit_allocator True) demo_deps ''/dev/pmem'' 100 0x33 demo_used = Inr ((0, Some (0x40000000, 8192, 3)), p')"
  by (simp add: alloc_pmem_buffer_def init_pmem_area_def demo_used_def best_fit_allocator_def allocate_def bf_alloc_def page_extra_def better_def
      split_chunk_def new_chunk_def Let_def sub_heap_def demo_deps_def)

theorem pmem_buffer_isolated_witness:
  "\<exists>p' l. alloc_pmem_buffer (best_fit_allocator True) demo_deps ''/dev/pmem'' 100 0x33 demo_used = Inr ((0, Some (0x40000000, 8192, 3)), p')
    \<and> 100 \<le> l \<and> heap_blocks (pm_al p') = {(8192, l), (0, 5024)} \<and> pm_mem p' (0x40000000 + 8192) = CHR 0x00 \<and> pm_mem p' 0x40000000 = CHR ''x''"
proof -
  obtain p' where a: "alloc_pmem_buffer (best_fit_allocator True) demo_deps ''/dev/pmem'' 100 0x33 demo_used = Inr ((0, Some (0x40000000, 8192, 3)), p')"
    using demo_alloc by blast
  have "pm_mem demo_used 0x40000000 = CHR ''x''" by (simp add: demo_used_def)
  then show ?thesis
    using pmem_buffer_isolated[OF demo_used_ok(1) demo_deps_ok, of 100 True "''/dev/pmem''" "0x33"] a demo_used_ok(2) by auto
qed

theorem pmem_free_after_unmap_witness:
  "\<exists>p'. free_pmem_buffer (best_fit_allocator True) demo_deps 5000 0 3 demo_used = Inr (0, p') \<and> heap_blocks (pm_al p') = {}"
proof -
  have "fst (d_unmapPmem demo_deps 3 0 5000 (pm_sys demo_used)) = 0" by (simp add: demo_deps_def)
  then show ?thesis using pmem_free_after_unmap[OF demo_used_ok(1), of 0 5024 3 True demo_deps 5000] demo_used_ok(2,3) by auto
qed

theorem kernel_buffer_mapped_witness:
  "let r = kernel_alloc_pmem_buffer demo_deps ''/dev/pmem_adsp'' 5000 0 \<lparr>kp_sys = (), kp_mem = (\<lambda>_. CHR ''x'')\<rparr>
   in fst r = (0, 0x40000000, 0, 3) \<and> (\<exists>m. 5000 \<le> (2 :: nat) ^ m \<and> (\<forall>j. 5000 \<le> (2 :: nat) ^ j \<longrightarrow> m \<le> j)
     \<and> kp_mem (snd r) = (\<lambda>x. if 0x40000000 \<le> x \<and> x < 0x40000000 + 2 ^ m then CHR 0x00 else CHR ''x''))"
proof -
  let ?p = "\<lparr>kp_sys = (), kp_mem = (\<lambda>_. CHR ''x'')\<rparr>"
  obtain p' where r: "kernel_alloc_pmem_buffer demo_deps ''/dev/pmem_adsp'' 5000 0 ?p = ((0, 0x40000000, 0, 3), p')"
    by (simp add: kernel_alloc_pmem_buffer_def demo_deps_def)
  obtain m where "5000 \<le> (2 :: nat) ^ m" "\<forall>j. 5000 \<le> (2 :: nat) ^ j \<longrightarrow> m \<le> j"
    "kp_mem p' = (\<lambda>x. if 0x40000000 \<le> x \<and> x < 0x40000000 + 2 ^ m then CHR 0x00 else kp_mem ?p x)"
    using kernel_buffer_mapped[OF demo_deps_ok _ _ r] by auto
  then have "\<exists>m. 5000 \<le> (2 :: nat) ^ m \<and> (\<forall>j. 5000 \<le> (2 :: nat) ^ j \<longrightarrow> m \<le> j)
     \<and> kp_mem p' = (\<lambda>x. if 0x40000000 \<le> x \<and> x < 0x40000000 + 2 ^ m then CHR 0x00 else CHR ''x'')"
    unfolding kpmem.simps by blast
  then show ?thesis unfolding r Let_def fst_conv snd_conv by blast
qed

end
