(* ===== verification/GrallocLock.thy ===== *)
theory GrallocLock
  imports Prelude
begin

text \<open>
  Locking of graphics buffers (src/libgralloc/mapper.cpp and gralloc_priv.h). \<open>gralloc_lock\<close> and
  \<open>gralloc_unlock\<close> keep the number of holders, the writer flag and the mapped flag of a buffer in one word
  that they change with compare and exchange. The model is a step relation over the handle and any number
  of threads, which interleave in every way: a step is one access to the lock word or to the owner, one
  operation on the map lock, or what a thread does under it. The flags, on which the lock does not depend,
  are updated in one step.
\<close>

unbundle bit_operations_syntax

subsection \<open>The handle\<close>

record handle =
  hd_version :: int
  hd_numFds :: int
  hd_numInts :: int
  hd_fd :: int
  hd_magic :: int
  hd_flags :: u32
  hd_size :: u32
  hd_offset :: u32
  hd_gpu_fd :: int
  hd_base :: u32
  hd_lockState :: u32
  hd_writeOwner :: int
  hd_gpuaddr :: u32
  hd_pid :: int

abbreviation PRIV_FLAGS_FRAMEBUFFER :: u32 where "PRIV_FLAGS_FRAMEBUFFER \<equiv> 1"
abbreviation PRIV_FLAGS_USES_PMEM :: u32 where "PRIV_FLAGS_USES_PMEM \<equiv> 2"
abbreviation PRIV_FLAGS_USES_PMEM_ADSP :: u32 where "PRIV_FLAGS_USES_PMEM_ADSP \<equiv> 4"
abbreviation PRIV_FLAGS_NEEDS_FLUSH :: u32 where "PRIV_FLAGS_NEEDS_FLUSH \<equiv> 8"
abbreviation PRIV_FLAGS_USES_ASHMEM :: u32 where "PRIV_FLAGS_USES_ASHMEM \<equiv> 16"

abbreviation LOCK_STATE_WRITE :: u32 where "LOCK_STATE_WRITE \<equiv> 0x80000000"
abbreviation LOCK_STATE_MAPPED :: u32 where "LOCK_STATE_MAPPED \<equiv> 0x40000000"
abbreviation LOCK_STATE_READ_MASK :: u32 where "LOCK_STATE_READ_MASK \<equiv> 0x3FFFFFFF"

text \<open>The magic number is the multi-character constant 'gmsm'; a native handle has three ints.\<close>

abbreviation sMagic :: int where "sMagic \<equiv> 0x676D736D"
abbreviation sNumInts :: int where "sNumInts \<equiv> 10"
abbreviation sNumFds :: int where "sNumFds \<equiv> 1"
abbreviation sizeof_native_handle :: int where "sizeof_native_handle \<equiv> 12"

definition private_handle :: "int \<Rightarrow> int \<Rightarrow> u32 \<Rightarrow> u32 \<Rightarrow> handle" where
  "private_handle pid fd sz flags =
     \<lparr>hd_version = sizeof_native_handle, hd_numFds = sNumFds, hd_numInts = sNumInts, hd_fd = fd, hd_magic = sMagic,
      hd_flags = flags, hd_size = sz, hd_offset = 0, hd_gpu_fd = -1, hd_base = 0, hd_lockState = 0, hd_writeOwner = 0,
      hd_gpuaddr = 0, hd_pid = pid\<rparr>"

abbreviation EINVAL :: int where "EINVAL \<equiv> 22"
abbreviation EBUSY :: int where "EBUSY \<equiv> 16"

definition validate :: "handle option \<Rightarrow> int" where
  "validate p =
     (case p of
        None \<Rightarrow> - EINVAL
      | Some h \<Rightarrow>
          if hd_version h \<noteq> sizeof_native_handle \<or> hd_numInts h \<noteq> sNumInts \<or> hd_numFds h \<noteq> sNumFds \<or> hd_magic h \<noteq> sMagic
          then - EINVAL else 0)"

subsection \<open>Usage bits\<close>

abbreviation GRALLOC_USAGE_SW_READ_MASK :: u32 where "GRALLOC_USAGE_SW_READ_MASK \<equiv> 0xF"
abbreviation GRALLOC_USAGE_SW_WRITE_MASK :: u32 where "GRALLOC_USAGE_SW_WRITE_MASK \<equiv> 0xF0"
abbreviation GRALLOC_USAGE_HW_RENDER :: u32 where "GRALLOC_USAGE_HW_RENDER \<equiv> 0x200"

definition for_write :: "u32 \<Rightarrow> bool" where
  "for_write usage \<longleftrightarrow> usage AND (GRALLOC_USAGE_SW_WRITE_MASK OR GRALLOC_USAGE_HW_RENDER) \<noteq> 0"

definition for_software :: "u32 \<Rightarrow> bool" where
  "for_software usage \<longleftrightarrow> usage AND (GRALLOC_USAGE_SW_READ_MASK OR GRALLOC_USAGE_SW_WRITE_MASK) \<noteq> 0"

subsection \<open>The loops around the lock word\<close>

text \<open>The value the loop of \<open>gralloc_lock\<close> tries to store, None for -EBUSY.\<close>

definition lock_value :: "u32 \<Rightarrow> u32 \<Rightarrow> u32 option" where
  "lock_value usage current_value =
     (if current_value AND LOCK_STATE_WRITE \<noteq> 0 then None
      else if current_value AND LOCK_STATE_READ_MASK \<noteq> 0 \<and> for_write usage then None
      else
        let new_value = current_value;
            new_value = (if for_write usage then new_value OR LOCK_STATE_WRITE else new_value)
        in Some (new_value + 1))"

text \<open>The body of the loop of \<open>gralloc_unlock\<close>: the owner it leaves and the value, None for -EINVAL.\<close>

definition unlock_value :: "int \<Rightarrow> u32 \<Rightarrow> int \<Rightarrow> int \<times> u32 option" where
  "unlock_value tid current_value owner =
     (let new_value = current_value;
          (owner, new_value) =
            (if current_value AND LOCK_STATE_WRITE \<noteq> 0
             then if owner = tid then (0, new_value AND NOT LOCK_STATE_WRITE) else (owner, new_value)
             else (owner, new_value))
      in if new_value AND LOCK_STATE_READ_MASK = 0 then (owner, None) else (owner, Some (new_value - 1)))"

subsection \<open>Threads\<close>

text \<open>
  Where a thread is: outside, in \<open>gralloc_lock\<close> with its usage and the value it read, holding the buffer
  for reading or for writing, in \<open>gralloc_unlock\<close>, or returned from one of them with an error. After
  the exchange of the lock word has succeeded the thread is a holder; \<open>Failed\<close> is a lock that returned the
  error of the mapping, \<open>Refused\<close> an unlock that returned -EINVAL.
\<close>

datatype pc =
    Out
  | LRead u32
  | LCas u32 u32
  | LOwner u32 u32
  | LFlush u32 u32
  | LMap u32 u32
  | LCheck u32
  | LMapOr u32
  | LMapUnlock u32 int
  | LVaddr u32 int
  | Held bool
  | Failed bool int
  | UFlush bool
  | URead bool
  | UOwn bool u32
  | UCas bool u32 u32
  | Refused bool

record shared =
  sh_h :: handle
  sh_map :: "int option"
  sh_pc :: "int \<Rightarrow> pc"

text \<open>
  Mapping a buffer: the result of \<open>mmap\<close>, an error number or an address, for \<open>map_length\<close> bytes.
\<close>

definition map_length :: "handle \<Rightarrow> u32" where
  "map_length h = hd_size h + hd_offset h"

definition gralloc_map :: "int + u32 \<Rightarrow> handle \<Rightarrow> int \<times> handle" where
  "gralloc_map mapped h =
     (if hd_flags h AND PRIV_FLAGS_FRAMEBUFFER = 0
      then case mapped of
        Inl errno \<Rightarrow> (- errno, h\<lparr>hd_base := 0\<rparr>)
      | Inr mappedAddress \<Rightarrow> (0, h\<lparr>hd_base := mappedAddress + hd_offset h\<rparr>)
      else (0, h))"

abbreviation goes :: "int \<Rightarrow> pc \<Rightarrow> shared \<Rightarrow> shared" where
  "goes t p s \<equiv> s\<lparr>sh_pc := (sh_pc s)(t := p)\<rparr>"

abbreviation lockState :: "shared \<Rightarrow> u32" where
  "lockState s \<equiv> hd_lockState (sh_h s)"

abbreviation set_lockState :: "u32 \<Rightarrow> shared \<Rightarrow> shared" where
  "set_lockState v s \<equiv> s\<lparr>sh_h := sh_h s\<lparr>hd_lockState := v\<rparr>\<rparr>"

abbreviation set_owner :: "int \<Rightarrow> shared \<Rightarrow> shared" where
  "set_owner v s \<equiv> s\<lparr>sh_h := sh_h s\<lparr>hd_writeOwner := v\<rparr>\<rparr>"

abbreviation set_flags :: "u32 \<Rightarrow> shared \<Rightarrow> shared" where
  "set_flags v s \<equiv> s\<lparr>sh_h := sh_h s\<lparr>hd_flags := v\<rparr>\<rparr>"

definition flush_flag :: "u32 \<Rightarrow> u32 \<Rightarrow> u32" where
  "flush_flag usage flags =
     (if usage AND GRALLOC_USAGE_SW_WRITE_MASK \<noteq> 0 \<and> flags AND PRIV_FLAGS_FRAMEBUFFER = 0
      then flags OR PRIV_FLAGS_NEEDS_FLUSH else flags)"

text \<open>
  One step of thread \<open>t\<close>. The threads use the lock as its interface asks: \<open>gralloc_unlock\<close> is called by a
  thread whose \<open>gralloc_lock\<close> has returned 0, once.
\<close>

inductive thread_step :: "int \<Rightarrow> shared \<Rightarrow> shared \<Rightarrow> bool" where
  call_lock: "\<lbrakk>sh_pc s t = Out; validate (Some (sh_h s)) = 0\<rbrakk> \<Longrightarrow> thread_step t s (goes t (LRead usage) s)"
| lock_busy: "\<lbrakk>sh_pc s t = LRead usage; lock_value usage (lockState s) = None\<rbrakk> \<Longrightarrow> thread_step t s (goes t Out s)"
| lock_read: "\<lbrakk>sh_pc s t = LRead usage; lock_value usage (lockState s) \<noteq> None\<rbrakk>
    \<Longrightarrow> thread_step t s (goes t (LCas usage (lockState s)) s)"
| lock_cas: "\<lbrakk>sh_pc s t = LCas usage cur; lockState s = cur; lock_value usage cur = Some new\<rbrakk>
    \<Longrightarrow> thread_step t s (goes t (LOwner usage cur) (set_lockState new s))"
| lock_retry: "\<lbrakk>sh_pc s t = LCas usage cur; lockState s \<noteq> cur\<rbrakk> \<Longrightarrow> thread_step t s (goes t (LRead usage) s)"
| lock_owner: "\<lbrakk>sh_pc s t = LOwner usage cur; lock_value usage cur = Some new; new AND LOCK_STATE_WRITE \<noteq> 0\<rbrakk>
    \<Longrightarrow> thread_step t s (goes t (LFlush usage cur) (set_owner t s))"
| lock_no_owner: "\<lbrakk>sh_pc s t = LOwner usage cur; lock_value usage cur = Some new; new AND LOCK_STATE_WRITE = 0\<rbrakk>
    \<Longrightarrow> thread_step t s (goes t (LFlush usage cur) s)"
| lock_flush: "sh_pc s t = LFlush usage cur
    \<Longrightarrow> thread_step t s (goes t (LMap usage cur) (set_flags (flush_flag usage (hd_flags (sh_h s))) s))"
| lock_no_map: "\<lbrakk>sh_pc s t = LMap usage cur; \<not> for_software usage\<rbrakk> \<Longrightarrow> thread_step t s (goes t (Held (for_write usage)) s)"
| lock_mapped: "\<lbrakk>sh_pc s t = LMap usage cur; for_software usage; cur AND LOCK_STATE_MAPPED \<noteq> 0\<rbrakk>
    \<Longrightarrow> thread_step t s (goes t (LVaddr usage 0) s)"
| map_lock: "\<lbrakk>sh_pc s t = LMap usage cur; for_software usage; cur AND LOCK_STATE_MAPPED = 0; sh_map s = None\<rbrakk>
    \<Longrightarrow> thread_step t s (goes t (LCheck usage) (s\<lparr>sh_map := Some t\<rparr>))"
| map_there: "\<lbrakk>sh_pc s t = LCheck usage; lockState s AND LOCK_STATE_MAPPED \<noteq> 0\<rbrakk>
    \<Longrightarrow> thread_step t s (goes t (LMapUnlock usage 0) s)"
| map_fails: "\<lbrakk>sh_pc s t = LCheck usage; lockState s AND LOCK_STATE_MAPPED = 0; gralloc_map mapped (sh_h s) = (err, h); err \<noteq> 0\<rbrakk>
    \<Longrightarrow> thread_step t s (goes t (LMapUnlock usage err) (s\<lparr>sh_h := h\<rparr>))"
| map_done: "\<lbrakk>sh_pc s t = LCheck usage; lockState s AND LOCK_STATE_MAPPED = 0; gralloc_map mapped (sh_h s) = (0, h)\<rbrakk>
    \<Longrightarrow> thread_step t s (goes t (LMapOr usage) (s\<lparr>sh_h := h\<rparr>))"
| map_or: "sh_pc s t = LMapOr usage
    \<Longrightarrow> thread_step t s (goes t (LMapUnlock usage 0) (set_lockState (lockState s OR LOCK_STATE_MAPPED) s))"
| map_unlock: "sh_pc s t = LMapUnlock usage err \<Longrightarrow> thread_step t s (goes t (LVaddr usage err) (s\<lparr>sh_map := None\<rparr>))"
| lock_returns: "sh_pc s t = LVaddr usage 0 \<Longrightarrow> thread_step t s (goes t (Held (for_write usage)) s)"
| lock_fails: "\<lbrakk>sh_pc s t = LVaddr usage err; err \<noteq> 0\<rbrakk> \<Longrightarrow> thread_step t s (goes t (Failed (for_write usage) err) s)"
| call_unlock: "\<lbrakk>sh_pc s t = Held w; validate (Some (sh_h s)) = 0\<rbrakk> \<Longrightarrow> thread_step t s (goes t (UFlush w) s)"
| unlock_flush: "sh_pc s t = UFlush w
    \<Longrightarrow> thread_step t s (goes t (URead w) (set_flags (hd_flags (sh_h s) AND NOT PRIV_FLAGS_NEEDS_FLUSH) s))"
| unlock_read: "sh_pc s t = URead w \<Longrightarrow> thread_step t s (goes t (UOwn w (lockState s)) s)"
| unlock_own: "\<lbrakk>sh_pc s t = UOwn w cur; unlock_value t cur (hd_writeOwner (sh_h s)) = (owner, Some new)\<rbrakk>
    \<Longrightarrow> thread_step t s (goes t (UCas w cur new) (set_owner owner s))"
| unlock_refused: "\<lbrakk>sh_pc s t = UOwn w cur; unlock_value t cur (hd_writeOwner (sh_h s)) = (owner, None)\<rbrakk>
    \<Longrightarrow> thread_step t s (goes t (Refused w) (set_owner owner s))"
| unlock_cas: "\<lbrakk>sh_pc s t = UCas w cur new; lockState s = cur\<rbrakk> \<Longrightarrow> thread_step t s (goes t Out (set_lockState new s))"
| unlock_retry: "\<lbrakk>sh_pc s t = UCas w cur new; lockState s \<noteq> cur\<rbrakk> \<Longrightarrow> thread_step t s (goes t (URead w) s)"

inductive_cases thread_stepE: "thread_step t s s'"

text \<open>A run of the threads of a set, in any order.\<close>

inductive run :: "int set \<Rightarrow> shared \<Rightarrow> shared \<Rightarrow> bool" for T s where
  run_none: "run T s s"
| run_step: "\<lbrakk>run T s s'; t \<in> T; thread_step t s' s''\<rbrakk> \<Longrightarrow> run T s s''"

subsection \<open>The lock word\<close>

definition lock_word :: "bool \<Rightarrow> bool \<Rightarrow> nat \<Rightarrow> u32" where
  "lock_word w m n = (if w then LOCK_STATE_WRITE else 0) + (if m then LOCK_STATE_MAPPED else 0) + of_nat n"

lemma unat_lock_word: "n < 2 ^ 30 \<Longrightarrow> unat (lock_word w m n) = (if w then 2 ^ 31 else 0) + (if m then 2 ^ 30 else 0) + n"
  by (simp add: lock_word_def unat_word_ariths unat_of_nat take_bit_nat_eq_self)

lemma bit_lock_word:
  assumes "n < 2 ^ 30"
  shows "bit (lock_word w m n) 31 \<longleftrightarrow> w" "bit (lock_word w m n) 30 \<longleftrightarrow> m"
proof -
  have b: "bit v i \<longleftrightarrow> odd (unat v div 2 ^ i)" for v :: u32 and i using bit_iff_odd[of "unat v" i] by (auto simp: bit_unsigned_iff dest: bit_imp_possible_bit)
  have d: "unat (lock_word w m n) div 2 ^ 31 = of_bool w" "unat (lock_word w m n) div 2 ^ 30 = 2 * of_bool w + of_bool m"
    unfolding unat_lock_word[OF assms] by (rule div_nat_eqI; use assms in \<open>cases w; cases m; simp\<close>)+
  show "bit (lock_word w m n) 31 \<longleftrightarrow> w" "bit (lock_word w m n) 30 \<longleftrightarrow> m" unfolding b d by simp_all
qed

lemma lock_word_and:
  assumes "n < 2 ^ 30"
  shows "lock_word w m n AND LOCK_STATE_WRITE = 0 \<longleftrightarrow> \<not> w"
    and "lock_word w m n AND LOCK_STATE_MAPPED = 0 \<longleftrightarrow> \<not> m"
    and "lock_word w m n AND LOCK_STATE_READ_MASK = 0 \<longleftrightarrow> n = 0"
proof -
  show "lock_word w m n AND LOCK_STATE_WRITE = 0 \<longleftrightarrow> \<not> w"
    using and_exp_eq_0_iff_not_bit[of "lock_word w m n" 31] bit_lock_word[OF assms, of w m] by simp
  show "lock_word w m n AND LOCK_STATE_MAPPED = 0 \<longleftrightarrow> \<not> m"
    using and_exp_eq_0_iff_not_bit[of "lock_word w m n" 30] bit_lock_word[OF assms, of w m] by simp
  have t: "v AND LOCK_STATE_READ_MASK = take_bit 30 v" for v :: u32
    by (simp only: take_bit_eq_mask mask_eq_decr_exp) simp
  have "unat (lock_word w m n AND LOCK_STATE_READ_MASK) = unat (lock_word w m n) mod 2 ^ 30"
    unfolding t unsigned_take_bit_eq by (rule take_bit_eq_mod)
  also have "\<dots> = n" unfolding unat_lock_word[OF assms] using assms by (cases w; cases m) (auto simp: mod_if mod_add_eq)
  finally show "lock_word w m n AND LOCK_STATE_READ_MASK = 0 \<longleftrightarrow> n = 0" by (metis unat_eq_0)
qed

lemma or_and_not_exp: "\<not> bit v k \<Longrightarrow> (v OR 2 ^ k) AND NOT (2 ^ k) = v" for v :: u32
  by (rule bit_word_eqI) (auto simp: bit_and_iff bit_or_iff bit_not_iff bit_exp_iff)

lemma lock_word_or:
  assumes "n < 2 ^ 30"
  shows "lock_word False m n OR LOCK_STATE_WRITE = lock_word True m n"
    and "lock_word w m n OR LOCK_STATE_MAPPED = lock_word w True n"
    and "lock_word True m n AND NOT LOCK_STATE_WRITE = lock_word False m n"
proof -
  show "lock_word False m n OR LOCK_STATE_WRITE = lock_word True m n"
    using disjunctive_add_eq_or[of "lock_word False m n" LOCK_STATE_WRITE] lock_word_and(1)[OF assms, of False m]
    by (simp add: lock_word_def algebra_simps)
  have m: "lock_word w False n OR LOCK_STATE_MAPPED = lock_word w True n"
    using disjunctive_add_eq_or[of "lock_word w False n" LOCK_STATE_MAPPED] lock_word_and(2)[OF assms, of w False]
    by (simp add: lock_word_def algebra_simps)
  show "lock_word w m n OR LOCK_STATE_MAPPED = lock_word w True n"
    using m by (cases m) (simp_all flip: m add: or.assoc)
  have "lock_word True m n AND NOT LOCK_STATE_WRITE = (lock_word False m n OR LOCK_STATE_WRITE) AND NOT LOCK_STATE_WRITE"
    using \<open>lock_word False m n OR LOCK_STATE_WRITE = lock_word True m n\<close> by simp
  also have "\<dots> = lock_word False m n"
    using or_and_not_exp[of "lock_word False m n" 31] bit_lock_word(1)[OF assms, of False m] by simp
  finally show "lock_word True m n AND NOT LOCK_STATE_WRITE = lock_word False m n" .
qed

lemma lock_word_succ: "lock_word w m n + 1 = lock_word w m (n + 1)"
  by (simp add: lock_word_def)

lemma lock_word_pred: "0 < n \<Longrightarrow> lock_word w m n - 1 = lock_word w m (n - 1)"
  by (cases n) (simp_all add: lock_word_def)

lemma lock_word_inj:
  assumes "n < 2 ^ 30" "n' < 2 ^ 30" "lock_word w m n = lock_word w' m' n'"
  shows "w = w' \<and> m = m' \<and> n = n'"
proof -
  have "w = w'" "m = m'" using bit_lock_word[OF assms(1), of w m] bit_lock_word[OF assms(2), of w' m'] assms(3) by simp_all
  moreover have "unat (lock_word w m n) = unat (lock_word w' m' n')" using assms(3) by simp
  ultimately show ?thesis unfolding unat_lock_word[OF assms(1)] unat_lock_word[OF assms(2)] by simp
qed

lemma lock_value_word:
  assumes "n + 1 < 2 ^ 30"
  shows "lock_value usage (lock_word w m n) =
    (if w \<or> (0 < n \<and> for_write usage) then None else Some (lock_word (for_write usage) m (n + 1)))"
  using assms lock_word_and[of n w m] lock_word_or(1)[of n m]
  by (auto simp: lock_value_def Let_def lock_word_succ)

lemma unlock_value_word:
  assumes "0 < n" "n < 2 ^ 30" "w \<Longrightarrow> owner = t"
  shows "unlock_value t (lock_word w m n) owner = (if w then 0 else owner, Some (lock_word False m (n - 1)))"
  using assms lock_word_and[of n w m] lock_word_and(3)[of n False m] lock_word_or(3)[of n m]
  by (auto simp: unlock_value_def Let_def lock_word_pred)

subsection \<open>The invariant\<close>

text \<open>A thread holds the buffer from its exchange of the lock word in \<open>gralloc_lock\<close> to that in \<open>gralloc_unlock\<close>.\<close>

fun holder :: "pc \<Rightarrow> bool" where
  "holder Out = False"
| "holder (LRead usage) = False"
| "holder (LCas usage cur) = False"
| "holder _ = True"

fun writer :: "pc \<Rightarrow> bool" where
  "writer (LOwner usage cur) = for_write usage"
| "writer (LFlush usage cur) = for_write usage"
| "writer (LMap usage cur) = for_write usage"
| "writer (LCheck usage) = for_write usage"
| "writer (LMapOr usage) = for_write usage"
| "writer (LMapUnlock usage err) = for_write usage"
| "writer (LVaddr usage err) = for_write usage"
| "writer (Held w) = w"
| "writer (Failed w err) = w"
| "writer (UFlush w) = w"
| "writer (URead w) = w"
| "writer (UOwn w cur) = w"
| "writer (UCas w cur new) = w"
| "writer (Refused w) = w"
| "writer _ = False"

lemma writer_holder: "writer p \<Longrightarrow> holder p"
  by (cases p) simp_all

text \<open>What holds of a thread at a place: it depends on the handle only when the thread is the writer.\<close>

fun pc_ok :: "handle \<Rightarrow> int \<Rightarrow> pc \<Rightarrow> bool" where
  "pc_ok h t (LOwner usage cur) \<longleftrightarrow> (\<exists>m n. n + 1 < 2 ^ 30 \<and> cur = lock_word False m n \<and> lock_value usage cur \<noteq> None)"
| "pc_ok h t (UOwn w cur) \<longleftrightarrow>
     (\<exists>m n. 0 < n \<and> n < 2 ^ 30 \<and> cur = lock_word w m n \<and> (w \<longrightarrow> n = 1 \<and> hd_lockState h = cur \<and> hd_writeOwner h = t))"
| "pc_ok h t (UCas w cur new) \<longleftrightarrow>
     (\<exists>m n. 0 < n \<and> n < 2 ^ 30 \<and> cur = lock_word w m n \<and> new = lock_word False m (n - 1) \<and> (w \<longrightarrow> n = 1 \<and> hd_lockState h = cur))"
| "pc_ok h t (Refused w) \<longleftrightarrow> False"
| "pc_ok h t p \<longleftrightarrow> writer p \<longrightarrow> hd_writeOwner h = t"

lemma pc_ok_reader: "\<not> writer p \<Longrightarrow> pc_ok h t p \<Longrightarrow> pc_ok h' t p"
  by (cases p) simp_all

lemma pc_ok_cong: "hd_lockState h' = hd_lockState h \<Longrightarrow> hd_writeOwner h' = hd_writeOwner h \<Longrightarrow> pc_ok h' t p = pc_ok h t p"
  by (cases p) simp_all

definition holders :: "shared \<Rightarrow> int set" where
  "holders s = {t. holder (sh_pc s t)}"

definition writing :: "shared \<Rightarrow> bool" where
  "writing s \<longleftrightarrow> (\<exists>t. writer (sh_pc s t))"

definition lock_inv :: "int set \<Rightarrow> shared \<Rightarrow> bool" where
  "lock_inv T s \<longleftrightarrow>
     holders s \<subseteq> T
     \<and> (\<exists>m. lockState s = lock_word (writing s) m (card (holders s)))
     \<and> (\<forall>t t'. writer (sh_pc s t) \<longrightarrow> holder (sh_pc s t') \<longrightarrow> t' = t)
     \<and> (\<forall>t. pc_ok (sh_h s) t (sh_pc s t))"

lemma lock_invD:
  assumes "lock_inv T s"
  shows "holders s \<subseteq> T" "\<exists>m. lockState s = lock_word (writing s) m (card (holders s))"
    "writer (sh_pc s t) \<Longrightarrow> holder (sh_pc s t') \<Longrightarrow> t' = t" "pc_ok (sh_h s) t (sh_pc s t)"
  using assms unfolding lock_inv_def by blast+

text \<open>A step that makes nobody a holder and nobody stop being one.\<close>

lemma lock_inv_same:
  assumes "lock_inv T s" "holder p = holder (sh_pc s t)" "writer p = writer (sh_pc s t)"
    and "\<exists>m. hd_lockState h = lock_word (writing s) m (card (holders s))"
    and "hd_lockState h = lockState s \<and> hd_writeOwner h = hd_writeOwner (sh_h s) \<or> holder (sh_pc s t)"
    and "pc_ok h t p" "sh_h s' = h" "sh_pc s' = (sh_pc s)(t := p)"
  shows "lock_inv T s'"
proof -
  have h: "holders s' = holders s" and w: "writing s' = writing s" using assms(2,3) by (auto simp: holders_def writing_def assms(8))
  have "pc_ok h t' (sh_pc s t')" if "t' \<noteq> t" for t'
  proof (cases "writer (sh_pc s t')")
    case True
    then have "\<not> holder (sh_pc s t)" using lock_invD(3)[OF assms(1), of t' t] that by blast
    then show ?thesis using assms(5) pc_ok_cong[of h "sh_h s"] lock_invD(4)[OF assms(1)] by metis
  next
    case False
    then show ?thesis using pc_ok_reader lock_invD(4)[OF assms(1)] by blast
  qed
  then have "\<forall>t'. pc_ok (sh_h s') t' (sh_pc s' t')" using assms(6) by (simp add: assms(7,8))
  moreover have "\<forall>t1 t2. writer (sh_pc s' t1) \<longrightarrow> holder (sh_pc s' t2) \<longrightarrow> t2 = t1"
    using lock_invD(3)[OF assms(1)] assms(2,3) by (simp add: assms(8)) metis
  ultimately show ?thesis using lock_invD(1)[OF assms(1)] assms(4) unfolding lock_inv_def h w by (simp add: assms(7))
qed

text \<open>A thread becomes a holder; nobody writes, and nobody else holds if it writes.\<close>

lemma lock_inv_enter:
  assumes "lock_inv T s" "finite T" "t \<in> T" "\<not> holder (sh_pc s t)" "holder p" "\<not> writing s" "writer p \<Longrightarrow> holders s = {}"
    and "\<exists>m. hd_lockState h = lock_word (writer p) m (card (holders s) + 1)"
    and "pc_ok h t p" "sh_h s' = h" "sh_pc s' = (sh_pc s)(t := p)"
  shows "lock_inv T s'"
proof -
  have h: "holders s' = insert t (holders s)" using assms(5) by (auto simp: holders_def assms(11))
  have w: "writing s' = writer p" using assms(6) by (auto simp: writing_def assms(11))
  have "finite (holders s)" "t \<notin> holders s" using finite_subset[OF lock_invD(1)[OF assms(1)] assms(2)] assms(4) by (simp_all add: holders_def)
  then have c: "card (holders s') = card (holders s) + 1" unfolding h by simp
  have nw: "\<not> writer (sh_pc s t')" for t' using assms(6) by (auto simp: writing_def)
  have "\<forall>t'. pc_ok (sh_h s') t' (sh_pc s' t')"
    using assms(9) pc_ok_reader[OF nw] lock_invD(4)[OF assms(1)] by (simp add: assms(10,11)) blast
  moreover have "\<forall>t1 t2. writer (sh_pc s' t1) \<longrightarrow> holder (sh_pc s' t2) \<longrightarrow> t2 = t1"
    using nw assms(7) by (auto simp: assms(11) holders_def split: if_splits)
  ultimately show ?thesis using lock_invD(1)[OF assms(1)] assms(3,8) unfolding lock_inv_def w c by (simp add: h assms(10))
qed

text \<open>A thread stops being a holder; if it was the writer, nobody else held.\<close>

lemma lock_inv_leave:
  assumes "lock_inv T s" "finite T" "holder (sh_pc s t)" "\<not> holder p" "pc_ok h t p"
    and "\<exists>m. hd_lockState h = lock_word False m (card (holders s) - 1)" "sh_h s' = h" "sh_pc s' = (sh_pc s)(t := p)"
  shows "lock_inv T s'"
proof -
  have h: "holders s' = holders s - {t}" using assms(4) by (auto simp: holders_def assms(8))
  have nw: "\<not> writer (sh_pc s t')" if "t' \<noteq> t" for t' using lock_invD(3)[OF assms(1), of t' t] assms(3) that by blast
  then have w: "\<not> writing s'" using assms(4) writer_holder[of p] by (auto simp: writing_def assms(8))
  have "finite (holders s)" "t \<in> holders s" using finite_subset[OF lock_invD(1)[OF assms(1)] assms(2)] assms(3) by (simp_all add: holders_def)
  then have c: "card (holders s') = card (holders s) - 1" unfolding h by simp
  have "\<forall>t'. pc_ok (sh_h s') t' (sh_pc s' t')"
    using assms(5) pc_ok_reader[OF nw] lock_invD(4)[OF assms(1)] by (simp add: assms(7,8)) blast
  moreover have "\<forall>t1 t2. writer (sh_pc s' t1) \<longrightarrow> holder (sh_pc s' t2) \<longrightarrow> t2 = t1" using w by (auto simp: writing_def)
  ultimately show ?thesis using lock_invD(1)[OF assms(1)] assms(6) w unfolding lock_inv_def c by (auto simp: h assms(7))
qed

lemma holders_bound:
  assumes "lock_inv T s" "finite T" "card T < 2 ^ 30"
  shows "card (holders s) < 2 ^ 30" "t \<in> T \<Longrightarrow> \<not> holder (sh_pc s t) \<Longrightarrow> card (holders s) + 1 < 2 ^ 30"
    "holder (sh_pc s t) \<Longrightarrow> 0 < card (holders s)" "writer (sh_pc s t) \<Longrightarrow> card (holders s) = 1"
proof -
  have sub: "holders s \<subseteq> T" and fin: "finite (holders s)" using lock_invD(1)[OF assms(1)] assms(2) finite_subset by blast+
  show "card (holders s) < 2 ^ 30" using card_mono[OF assms(2) sub] assms(3) by simp
  show "card (holders s) + 1 < 2 ^ 30" if "t \<in> T" "\<not> holder (sh_pc s t)"
  proof -
    have "holders s \<subset> T" using sub that by (auto simp: holders_def)
    then have "card (holders s) < card T" by (rule psubset_card_mono[OF assms(2)])
    then show ?thesis using assms(3) by linarith
  qed
  show "0 < card (holders s)" if "holder (sh_pc s t)" using that fin by (auto simp: card_gt_0_iff holders_def)
  show "card (holders s) = 1" if "writer (sh_pc s t)"
  proof -
    have "holders s = {t}" unfolding holders_def using lock_invD(3)[OF assms(1) that] writer_holder[OF that] by blast
    then show ?thesis by simp
  qed
qed

text \<open>The two exchanges of the lock word.\<close>

lemma lock_cas_inv:
  assumes "lock_inv T s" "finite T" "card T < 2 ^ 30" "t \<in> T" "sh_pc s t = LCas usage cur" "lockState s = cur" "lock_value usage cur = Some new"
  shows "lock_inv T (goes t (LOwner usage cur) (set_lockState new s))"
proof -
  obtain m where m: "lockState s = lock_word (writing s) m (card (holders s))" using lock_invD(2)[OF assms(1)] by blast
  have n: "card (holders s) + 1 < 2 ^ 30" using holders_bound(2)[OF assms(1-4)] assms(5) by simp
  have v: "\<not> writing s" "\<not> (0 < card (holders s) \<and> for_write usage)" "new = lock_word (for_write usage) m (card (holders s) + 1)"
    using assms(6,7) m lock_value_word[OF n, of usage "writing s" m] by (auto split: if_splits)
  have "finite (holders s)" using lock_invD(1)[OF assms(1)] assms(2) finite_subset by blast
  then have e: "for_write usage \<Longrightarrow> holders s = {}" using v(2) by auto
  show ?thesis
    by (rule lock_inv_enter[OF assms(1,2,4), where p = "LOwner usage cur"])
      (use assms(5-7) v e m n in \<open>auto simp: lock_value_word\<close>)
qed

lemma unlock_cas_inv:
  assumes "lock_inv T s" "finite T" "card T < 2 ^ 30" "sh_pc s t = UCas w cur new" "lockState s = cur"
  shows "lock_inv T (goes t Out (set_lockState new s))"
proof -
  obtain m where m: "lockState s = lock_word (writing s) m (card (holders s))" using lock_invD(2)[OF assms(1)] by blast
  obtain m' n where c: "0 < n" "n < 2 ^ 30" "cur = lock_word w m' n" "new = lock_word False m' (n - 1)"
    using lock_invD(4)[OF assms(1), of t] assms(4) by auto
  have "n = card (holders s)"
    using lock_word_inj[OF c(2) holders_bound(1)[OF assms(1-3)], of w m' "writing s" m] c(3) m assms(5) by simp
  then show ?thesis
    by (intro lock_inv_leave[OF assms(1,2), where t = t and p = Out]) (use assms(4) c in auto)
qed

lemma unlock_own_inv:
  assumes "lock_inv T s" "finite T" "card T < 2 ^ 30" "sh_pc s t = UOwn w cur"
  obtains m n where "unlock_value t cur (hd_writeOwner (sh_h s)) = (if w then 0 else hd_writeOwner (sh_h s), Some (lock_word False m (n - 1)))"
    "lock_inv T (goes t (UCas w cur (lock_word False m (n - 1))) (set_owner (if w then 0 else hd_writeOwner (sh_h s)) s))"
proof -
  have "pc_ok (sh_h s) t (UOwn w cur)" using lock_invD(4)[OF assms(1), of t] assms(4) by simp
  then obtain m n where c0: "0 < n \<and> n < 2 ^ 30 \<and> cur = lock_word w m n \<and> (w \<longrightarrow> n = 1 \<and> lockState s = cur \<and> hd_writeOwner (sh_h s) = t)"
    unfolding pc_ok.simps by (elim exE)
  then have c: "0 < n" "n < 2 ^ 30" "cur = lock_word w m n" "w \<longrightarrow> n = 1 \<and> lockState s = cur \<and> hd_writeOwner (sh_h s) = t" by blast+
  show thesis
  proof (rule that)
    show "unlock_value t cur (hd_writeOwner (sh_h s)) = (if w then 0 else hd_writeOwner (sh_h s), Some (lock_word False m (n - 1)))"
      unfolding c(3) using unlock_value_word[OF c(1,2), of w "hd_writeOwner (sh_h s)" t m] c(4) by simp
    show "lock_inv T (goes t (UCas w cur (lock_word False m (n - 1))) (set_owner (if w then 0 else hd_writeOwner (sh_h s)) s))"
      by (rule lock_inv_same[OF assms(1), where t = t and p = "UCas w cur (lock_word False m (n - 1))"])
        (use assms(4) c lock_invD(2)[OF assms(1)] in auto)
  qed
qed

lemma gralloc_map_keeps: "gralloc_map r h = (err, h') \<Longrightarrow> hd_lockState h' = hd_lockState h \<and> hd_writeOwner h' = hd_writeOwner h"
  by (auto simp: gralloc_map_def split: if_splits sum.splits)

lemma step_inv:
  assumes "thread_step t s s'" "lock_inv T s" "finite T" "card T < 2 ^ 30" "t \<in> T"
  shows "lock_inv T s'"
proof -
  note inv = assms(2)
  have here: "pc_ok (sh_h s) t (sh_pc s t)" by (rule lock_invD(4)[OF inv])
  have word: "\<exists>m. lockState s = lock_word (writing s) m (card (holders s))" by (rule lock_invD(2)[OF inv])
  note bound = holders_bound(1)[OF assms(2-4)]
  from assms(1) show ?thesis
  proof cases
    case (lock_cas usage cur new)
    show ?thesis unfolding lock_cas(1) by (rule lock_cas_inv[OF assms(2-5) lock_cas(2-4)])
  next
    case (unlock_cas w cur new)
    show ?thesis unfolding unlock_cas(1) by (rule unlock_cas_inv[OF assms(2-4) unlock_cas(2,3)])
  next
    case (unlock_own w cur owner new)
    obtain m n where u: "unlock_value t cur (hd_writeOwner (sh_h s)) = (if w then 0 else hd_writeOwner (sh_h s), Some (lock_word False m (n - 1)))"
      "lock_inv T (goes t (UCas w cur (lock_word False m (n - 1))) (set_owner (if w then 0 else hd_writeOwner (sh_h s)) s))"
      by (rule unlock_own_inv[OF assms(2-4) unlock_own(2)])
    have "owner = (if w then 0 else hd_writeOwner (sh_h s))" "new = lock_word False m (n - 1)" using u(1) unlock_own(3) by simp_all
    then show ?thesis unfolding unlock_own(1) using u(2) by simp
  next
    case (unlock_refused w cur owner)
    obtain m n where "unlock_value t cur (hd_writeOwner (sh_h s)) = (if w then 0 else hd_writeOwner (sh_h s), Some (lock_word False m (n - 1)))"
      by (rule unlock_own_inv[OF assms(2-4) unlock_refused(2)])
    then show ?thesis using unlock_refused(3) by simp
  next
    case (unlock_read w)
    obtain m where m: "lockState s = lock_word (writing s) m (card (holders s))" using word by blast
    have h: "holder (sh_pc s t)" using unlock_read(2) by simp
    have w: "writing s \<longleftrightarrow> w"
      using unlock_read(2) lock_invD(3)[OF inv, of _ t] h unfolding writing_def by (metis writer.simps(11))
    show ?thesis unfolding unlock_read(1)
      by (rule lock_inv_same[OF inv, where t = t and p = "UOwn w (lockState s)"])
        (use unlock_read(2) here word m w bound holders_bound(3)[OF assms(2-4) h] holders_bound(4)[OF assms(2-4), of t] in auto)
  next
    case (map_or usage)
    obtain m where "lockState s = lock_word (writing s) m (card (holders s))" using word by blast
    then have o: "lockState s OR LOCK_STATE_MAPPED = lock_word (writing s) True (card (holders s))"
      using lock_word_or(2)[OF bound] by simp
    show ?thesis unfolding map_or(1)
      by (rule lock_inv_same[OF inv, where t = t and p = "LMapUnlock usage 0"]) (use map_or(2) here o in auto)
  next
    case (lock_owner usage cur new)
    show ?thesis unfolding lock_owner(1)
      by (rule lock_inv_same[OF inv, where t = t and p = "LFlush usage cur"]) (use lock_owner(2) here word in auto)
  next
    case (lock_no_owner usage cur new)
    obtain m n where c: "n + 1 < 2 ^ 30" "cur = lock_word False m n" using here lock_no_owner(2) by auto
    then have "new = lock_word (for_write usage) m (n + 1)"
      using lock_no_owner(3) lock_value_word[OF c(1), of usage False m] by (simp split: if_splits)
    then have "\<not> for_write usage" using lock_no_owner(4) lock_word_and(1)[OF c(1)] by simp
    then show ?thesis unfolding lock_no_owner(1)
      by (intro lock_inv_same[OF inv, where t = t and p = "LFlush usage cur"]) (use lock_no_owner(2) here word in auto)
  next
    case (map_fails usage mapped err h)
    show ?thesis unfolding map_fails(1)
      by (rule lock_inv_same[OF inv, where t = t and p = "LMapUnlock usage err"])
        (use map_fails(2) here word gralloc_map_keeps[OF map_fails(4)] in auto)
  next
    case (map_done usage mapped h)
    show ?thesis unfolding map_done(1)
      by (rule lock_inv_same[OF inv, where t = t and p = "LMapOr usage"])
        (use map_done(2) here word gralloc_map_keeps[OF map_done(4)] in auto)
  next
    case (unlock_retry w cur new)
    have "\<not> w" using here unlock_retry(2,3) by auto
    then show ?thesis unfolding unlock_retry(1)
      by (intro lock_inv_same[OF inv, where t = t and p = "URead w"]) (use unlock_retry(2) here word in auto)
  qed (rule lock_inv_same[OF inv, where t = t]; use here word in auto)+
qed

subsection \<open>The map lock\<close>

fun in_map_lock :: "pc \<Rightarrow> bool" where
  "in_map_lock (LCheck usage) = True"
| "in_map_lock (LMapOr usage) = True"
| "in_map_lock (LMapUnlock usage err) = True"
| "in_map_lock _ = False"

definition mapped :: "shared \<Rightarrow> bool" where
  "mapped s \<longleftrightarrow> bit (lockState s) 30"

definition map_inv :: "shared \<Rightarrow> bool" where
  "map_inv s \<longleftrightarrow> (\<forall>t. in_map_lock (sh_pc s t) \<longleftrightarrow> sh_map s = Some t) \<and> (\<forall>t usage. sh_pc s t = LMapOr usage \<longrightarrow> \<not> mapped s)"

lemma mapped_iff: "lockState s AND LOCK_STATE_MAPPED = 0 \<longleftrightarrow> \<not> mapped s"
  using and_exp_eq_0_iff_not_bit[of "lockState s" 30] by (simp add: mapped_def)

lemma step_mapped:
  assumes "thread_step t s s'" "lock_inv T s" "finite T" "card T < 2 ^ 30" "t \<in> T" "\<And>usage. sh_pc s t \<noteq> LMapOr usage"
  shows "mapped s' = mapped s"
proof -
  obtain m where m: "lockState s = lock_word (writing s) m (card (holders s))" using lock_invD(2)[OF assms(2)] by blast
  note bound = holders_bound(1)[OF assms(2-4)]
  from assms(1) show ?thesis
  proof cases
    case (lock_cas usage cur new)
    have n: "card (holders s) + 1 < 2 ^ 30" using holders_bound(2)[OF assms(2-5)] lock_cas(2) by simp
    have "new = lock_word (for_write usage) m (card (holders s) + 1)"
      using lock_cas(3,4) m lock_value_word[OF n, of usage "writing s" m] by (simp split: if_splits)
    then show ?thesis using m bit_lock_word(2)[OF bound] bit_lock_word(2)[OF n] lock_cas(1) by (simp add: mapped_def)
  next
    case (unlock_cas w cur new)
    have "pc_ok (sh_h s) t (UCas w cur new)" using lock_invD(4)[OF assms(2), of t] unlock_cas(2) by simp
    then obtain m' n where c: "n < 2 ^ 30" "cur = lock_word w m' n" "new = lock_word False m' (n - 1)" unfolding pc_ok.simps by metis
    then have "n - 1 < 2 ^ 30" by simp
    then show ?thesis using c unlock_cas(1,3) bit_lock_word(2)[OF c(1)] bit_lock_word(2)[of "n - 1"] by (simp add: mapped_def)
  next
    case (map_fails usage r err h)
    then show ?thesis using gralloc_map_keeps[OF map_fails(4)] by (simp add: mapped_def)
  next
    case (map_done usage r h)
    then show ?thesis using gralloc_map_keeps[OF map_done(4)] by (simp add: mapped_def)
  next
    case (map_or usage)
    then show ?thesis using assms(6) by simp
  qed (simp_all add: mapped_def)
qed

text \<open>Which steps move a thread in and out of the section that the map lock protects.\<close>

lemma step_map_lock:
  assumes "thread_step t s s'"
  shows "(\<forall>t'. t' \<noteq> t \<longrightarrow> sh_pc s' t' = sh_pc s t')
    \<and> (sh_map s' = sh_map s \<and> in_map_lock (sh_pc s' t) = in_map_lock (sh_pc s t)
       \<or> sh_map s = None \<and> sh_map s' = Some t \<and> in_map_lock (sh_pc s' t) \<and> \<not> in_map_lock (sh_pc s t)
       \<or> sh_map s' = None \<and> in_map_lock (sh_pc s t) \<and> \<not> in_map_lock (sh_pc s' t))
    \<and> (\<forall>usage. sh_pc s' t = LMapOr usage \<longrightarrow> \<not> mapped s \<and> in_map_lock (sh_pc s t) \<and> (\<forall>u. sh_pc s t \<noteq> LMapOr u))"
  using assms by cases (simp_all add: mapped_iff[symmetric])

lemma step_map_inv:
  assumes "thread_step t s s'" "lock_inv T s" "finite T" "card T < 2 ^ 30" "t \<in> T" "map_inv s"
  shows "map_inv s'"
proof -
  note st = step_map_lock[OF assms(1)]
  have own: "in_map_lock (sh_pc s t') \<longleftrightarrow> sh_map s = Some t'" for t' using assms(6) by (simp add: map_inv_def)
  have "in_map_lock (sh_pc s' t') \<longleftrightarrow> sh_map s' = Some t'" for t'
    using st own[of t'] own[of t] by (cases "t' = t") auto
  moreover have "\<not> mapped s'" if r: "sh_pc s' t' = LMapOr usage" for t' usage
  proof (cases "t' = t")
    case True
    then have "\<not> mapped s" "\<forall>u. sh_pc s t \<noteq> LMapOr u" using st r by auto
    then show ?thesis using step_mapped[OF assms(1-5)] by blast
  next
    case False
    then have p: "sh_pc s t' = LMapOr usage" using st r by simp
    then have "sh_map s = Some t'" using own[of t'] by simp
    then have "\<not> in_map_lock (sh_pc s t)" using own[of t] False by simp
    then have "\<And>u. sh_pc s t \<noteq> LMapOr u" by auto
    then show ?thesis using step_mapped[OF assms(1-5)] p assms(6) unfolding map_inv_def by blast
  qed
  ultimately show ?thesis by (simp add: map_inv_def)
qed

lemma step_valid:
  assumes "thread_step t s s'"
  shows "validate (Some (sh_h s')) = validate (Some (sh_h s))"
proof -
  have m: "gralloc_map r h = (err, h') \<Longrightarrow> validate (Some h') = validate (Some h)" for r h err h'
    by (auto simp: gralloc_map_def validate_def split: if_splits sum.splits)
  from assms show ?thesis
  proof cases
    case (map_fails usage r err h)
    then show ?thesis using m[OF map_fails(4)] by simp
  next
    case (map_done usage r h)
    then show ?thesis using m[OF map_done(4)] by simp
  qed (simp_all add: validate_def)
qed

text \<open>The start: nobody uses the buffer, mapped or not.\<close>

definition unused :: "shared \<Rightarrow> bool" where
  "unused s \<longleftrightarrow> (\<forall>t. sh_pc s t = Out) \<and> sh_map s = None \<and> (lockState s = 0 \<or> lockState s = LOCK_STATE_MAPPED)
     \<and> validate (Some (sh_h s)) = 0"

lemma unused_inv:
  assumes "unused s"
  shows "lock_inv T s" "map_inv s"
proof -
  have h: "holders s = {}" "\<not> writing s" using assms by (simp_all add: unused_def holders_def writing_def)
  have "lockState s = lock_word False (lockState s \<noteq> 0) 0" using assms by (auto simp: unused_def lock_word_def)
  then show "lock_inv T s" using assms h unfolding lock_inv_def by (auto simp: unused_def)
  show "map_inv s" using assms by (simp add: map_inv_def unused_def)
qed

lemma run_inv:
  assumes "run T s s'" "unused s" "finite T" "card T < 2 ^ 30"
  shows "lock_inv T s' \<and> map_inv s' \<and> validate (Some (sh_h s')) = 0"
  using assms(1)
proof induction
  case (run_none)
  then show ?case using unused_inv[OF assms(2)] assms(2) by (simp add: unused_def)
next
  case (run_step s' t s'')
  then show ?case using step_inv step_map_inv step_valid assms(3,4) by metis
qed

text \<open>
  C9: Whatever the threads of a process do, and however their accesses to the handle interleave, the lock
  of a graphics buffer is exclusive: while a thread holds it for writing no other thread holds it. The
  lock word counts exactly the holders and shows whether one of them writes; an unlock of a holder is
  never refused; and the buffer is mapped only while it is not mapped, by one thread at a time.
\<close>

theorem buffer_lock_exclusive:
  assumes "run T s s'" "unused s" "finite T" "card T < 2 ^ 30"
  shows "(\<forall>t t'. writer (sh_pc s' t) \<longrightarrow> holder (sh_pc s' t') \<longrightarrow> t' = t)
    \<and> (\<exists>m. lockState s' = lock_word (writing s') m (card (holders s')))
    \<and> (\<forall>t w. sh_pc s' t \<noteq> Refused w)
    \<and> (\<forall>t t'. in_map_lock (sh_pc s' t) \<longrightarrow> in_map_lock (sh_pc s' t') \<longrightarrow> t' = t)
    \<and> (\<forall>t usage. sh_pc s' t = LMapOr usage \<longrightarrow> lockState s' AND LOCK_STATE_MAPPED = 0)"
proof -
  note inv = run_inv[OF assms]
  have "sh_pc s' t \<noteq> Refused w" for t w using lock_invD(4)[of T s' t] inv by (metis pc_ok.simps(4))
  moreover have "\<forall>t t'. in_map_lock (sh_pc s' t) \<longrightarrow> in_map_lock (sh_pc s' t') \<longrightarrow> t' = t" using inv by (simp add: map_inv_def)
  moreover have "\<forall>t usage. sh_pc s' t = LMapOr usage \<longrightarrow> lockState s' AND LOCK_STATE_MAPPED = 0" using inv by (simp add: map_inv_def mapped_iff)
  ultimately show ?thesis using inv lock_invD(2,3)[of T s'] by blast
qed

subsection \<open>Release\<close>

text \<open>
  The steps of a thread from the call of \<open>gralloc_unlock\<close> to its return, and how many it has left when
  nobody interferes. The value it read is stale when the lock word has changed since.
\<close>

fun to_go :: "pc \<Rightarrow> nat" where
  "to_go (Held w) = 5"
| "to_go (UFlush w) = 4"
| "to_go (URead w) = 3"
| "to_go (UOwn w cur) = 2"
| "to_go (UCas w cur new) = 1"
| "to_go _ = 0"

fun stale :: "u32 \<Rightarrow> pc \<Rightarrow> bool" where
  "stale v (UOwn w cur) \<longleftrightarrow> v \<noteq> cur"
| "stale v (UCas w cur new) \<longleftrightarrow> v \<noteq> cur"
| "stale v _ \<longleftrightarrow> False"

text \<open>
  A run of the threads of \<open>T\<close> in any order during an unlock of thread \<open>t\<close>: the number of steps that \<open>t\<close> took
  in it and the number of times that another thread changed the lock word.
\<close>

inductive unlock_run :: "int set \<Rightarrow> int \<Rightarrow> shared \<Rightarrow> nat \<Rightarrow> nat \<Rightarrow> shared \<Rightarrow> bool" for T t s where
  start: "unlock_run T t s 0 0 s"
| own: "\<lbrakk>unlock_run T t s own changes s'; 0 < to_go (sh_pc s' t); thread_step t s' s''\<rbrakk>
    \<Longrightarrow> unlock_run T t s (own + 1) changes s''"
| other: "\<lbrakk>unlock_run T t s own changes s'; t' \<in> T; t' \<noteq> t; thread_step t' s' s''\<rbrakk>
    \<Longrightarrow> unlock_run T t s own (if lockState s'' = lockState s' then changes else changes + 1) s''"

lemma unlock_step_exists:
  assumes "lock_inv T s" "finite T" "card T < 2 ^ 30" "0 < to_go (sh_pc s t)" "validate (Some (sh_h s)) = 0"
  shows "\<exists>s'. thread_step t s s'"
proof (cases "sh_pc s t")
  case (UOwn w cur)
  obtain m n where "unlock_value t cur (hd_writeOwner (sh_h s)) =
      (if w then 0 else hd_writeOwner (sh_h s), Some (lock_word False m (n - 1)))"
    by (rule unlock_own_inv[OF assms(1-3) UOwn])
  then show ?thesis using unlock_own[OF UOwn] by blast
next
  case (UCas w cur new)
  then show ?thesis using unlock_cas[OF UCas] unlock_retry[OF UCas] by (cases "lockState s = cur") blast+
qed (use assms(4,5) call_unlock unlock_flush unlock_read in \<open>fastforce+\<close>)

lemma unlock_own_step:
  assumes "thread_step t s s'" "lock_inv T s" "finite T" "card T < 2 ^ 30" "0 < to_go (sh_pc s t)"
  shows "to_go (sh_pc s' t) + (if stale (lockState s') (sh_pc s' t) then 3 else 0) + 1
      = to_go (sh_pc s t) + (if stale (lockState s) (sh_pc s t) then 3 else 0)
    \<and> (to_go (sh_pc s' t) = 0 \<longrightarrow> sh_pc s' t = Out)"
  using assms(1)
proof cases
  case (unlock_refused w cur owner)
  then show ?thesis using unlock_own_inv[OF assms(2-4) unlock_refused(2)] by (metis option.distinct(1) prod.inject)
qed (use assms(5) in simp_all)

lemma unlock_bound:
  assumes "unlock_run T t s own changes s'" "lock_inv T s" "validate (Some (sh_h s)) = 0" "finite T" "card T < 2 ^ 30" "t \<in> T"
    and "sh_pc s t = Held w"
  shows "lock_inv T s' \<and> validate (Some (sh_h s')) = 0
    \<and> own + to_go (sh_pc s' t) + (if stale (lockState s') (sh_pc s' t) then 3 else 0) \<le> 5 + 3 * changes
    \<and> (to_go (sh_pc s' t) = 0 \<longrightarrow> sh_pc s' t = Out)"
  using assms(1)
proof induction
  case start
  then show ?case using assms(2,3,7) by simp
next
  case (own own changes s' s'')
  have "lock_inv T s''" using step_inv[OF own(3)] own.IH assms(4-6) by blast
  moreover have "validate (Some (sh_h s'')) = 0" using step_valid[OF own(3)] own.IH by simp
  ultimately show ?case using unlock_own_step[OF own(3) _ assms(4,5) own(2)] own.IH by force
next
  case (other own changes s' t' s'')
  have "lock_inv T s''" using step_inv[OF other(4)] other.IH assms(4-6) other(2) by blast
  moreover have "validate (Some (sh_h s'')) = 0" using step_valid[OF other(4)] other.IH by simp
  moreover have "sh_pc s'' t = sh_pc s' t" using step_map_lock[OF other(4)] other(3) by auto
  ultimately show ?case using other.IH by auto
qed

lemma free_word:
  assumes "lock_inv T s" "finite T" "card T < 2 ^ 30"
  shows "lockState s = 0 \<or> lockState s = LOCK_STATE_MAPPED \<longleftrightarrow> (\<forall>t. \<not> holder (sh_pc s t))"
proof -
  obtain m where m: "lockState s = lock_word (writing s) m (card (holders s))" using lock_invD(2)[OF assms(1)] by blast
  have sub: "holders s \<subseteq> T" by (rule lock_invD(1)[OF assms(1)])
  have fin: "finite (holders s)" "card (holders s) < 2 ^ 30"
    using finite_subset[OF sub assms(2)] card_mono[OF assms(2) sub] assms(3) by simp_all
  have e: "(0 :: u32) = lock_word False False 0" "LOCK_STATE_MAPPED = lock_word False True 0" by (simp_all add: lock_word_def)
  have "lockState s = 0 \<or> lockState s = LOCK_STATE_MAPPED \<longleftrightarrow> \<not> writing s \<and> card (holders s) = 0"
    unfolding m e using lock_word_inj[OF fin(2), of 0] by (cases m) auto
  also have "\<dots> \<longleftrightarrow> holders s = {}" using fin(1) writer_holder by (auto simp: writing_def holders_def)
  finally show ?thesis by (simp add: holders_def)
qed

text \<open>
  C10: A thread that holds the buffer gets rid of it: from the call of \<open>gralloc_unlock\<close> on it is never blocked
  and never refused, and in every schedule it returns after at most five steps of its own and three more for
  each time that another thread changed the lock word in between. The lock word is free exactly when no
  thread holds the buffer, where a lock that returned the error of the mapping holds it too.
\<close>

theorem buffer_lock_released:
  assumes "run T s s'" "unused s" "finite T" "card T < 2 ^ 30" "t \<in> T" "sh_pc s' t = Held w" "unlock_run T t s' own changes s''"
  shows "own \<le> 5 + 3 * changes \<and> (sh_pc s'' t = Out \<or> 0 < to_go (sh_pc s'' t) \<and> (\<exists>s3. thread_step t s'' s3))
    \<and> (lockState s'' = 0 \<or> lockState s'' = LOCK_STATE_MAPPED \<longleftrightarrow> (\<forall>t. \<not> holder (sh_pc s'' t)))"
proof -
  note inv = run_inv[OF assms(1-4)]
  have b: "lock_inv T s''" "validate (Some (sh_h s'')) = 0" "own \<le> 5 + 3 * changes"
    "to_go (sh_pc s'' t) = 0 \<longrightarrow> sh_pc s'' t = Out"
    using unlock_bound[OF assms(7) _ _ assms(3-6)] inv by auto
  then show ?thesis using unlock_step_exists[OF b(1) assms(3,4) _ b(2)] free_word[OF b(1) assms(3,4)] by blast
qed

text \<open>
  The lock belongs to its thread: an unlock by another thread than the one that locked for writing takes the
  count away but leaves the writer flag, after which nobody can lock the buffer.
\<close>

lemma foreign_unlock_sticks:
  assumes "owner \<noteq> t"
  shows "unlock_value t (lock_word True m 1) owner = (owner, Some (lock_word True m 0))" "lock_value usage (lock_word True m 0) = None"
  using assms lock_word_and[of 1 True m] lock_word_and[of 0 True m] lock_word_pred[of 1 True m]
  by (simp_all add: unlock_value_def lock_value_def)

subsection \<open>A run\<close>

definition demo_handle :: handle where
  "demo_handle = private_handle 100 5 4096 PRIV_FLAGS_USES_PMEM"

definition demo_start :: shared where
  "demo_start = \<lparr>sh_h = demo_handle, sh_map = None, sh_pc = (\<lambda>_. Out)\<rparr>"

lemma demo_unused: "unused demo_start"
  by (simp add: unused_def demo_start_def demo_handle_def private_handle_def validate_def)

lemma demo_run: "\<exists>s'. run {7} demo_start s' \<and> sh_pc s' 7 = Held True"
proof -
  let ?u = "GRALLOC_USAGE_HW_RENDER"
  let ?s1 = "goes 7 (LRead ?u) demo_start"
  let ?s2 = "goes 7 (LCas ?u (lockState ?s1)) ?s1"
  let ?s3 = "goes 7 (LOwner ?u 0) (set_lockState 0x80000001 ?s2)"
  let ?s4 = "goes 7 (LFlush ?u 0) (set_owner 7 ?s3)"
  let ?s5 = "goes 7 (LMap ?u 0) (set_flags (flush_flag ?u (hd_flags (sh_h ?s4))) ?s4)"
  have d: "lockState demo_start = 0" "sh_pc demo_start 7 = Out" by (simp_all add: demo_start_def demo_handle_def private_handle_def)
  have v: "lock_value ?u 0 = Some 0x80000001" by (simp add: lock_value_def for_write_def)
  have 1: "thread_step 7 demo_start ?s1" using demo_unused by (intro call_lock) (simp_all add: unused_def)
  have 2: "thread_step 7 ?s1 ?s2" by (rule lock_read) (use d v in simp_all)
  have 3: "thread_step 7 ?s2 ?s3" by (rule lock_cas[where usage = ?u]) (use d v in simp_all)
  have 4: "thread_step 7 ?s3 ?s4" by (rule lock_owner[where usage = ?u, OF _ v]) simp_all
  have 5: "thread_step 7 ?s4 ?s5" by (rule lock_flush) simp
  have 6: "thread_step 7 ?s5 (goes 7 (Held (for_write ?u)) ?s5)" by (rule lock_no_map) (simp_all add: for_software_def)
  have w: "for_write ?u" by (simp add: for_write_def)
  have "run {7} demo_start (goes 7 (Held (for_write ?u)) ?s5)"
    by (rule run_step[OF run_step[OF run_step[OF run_step[OF run_step[OF run_step[OF run_none _ 1] _ 2] _ 3] _ 4] _ 5] _ 6]) simp_all
  moreover have "sh_pc (goes 7 (Held (for_write ?u)) ?s5) 7 = Held True" using w by simp
  ultimately show ?thesis by blast
qed

theorem buffer_lock_exclusive_witness:
  "\<exists>s'. run {7} demo_start s' \<and> sh_pc s' 7 = Held True \<and> (\<forall>t. holder (sh_pc s' t) \<longrightarrow> t = 7)"
proof -
  obtain s' where r: "run {7} demo_start s'" "sh_pc s' 7 = Held True" using demo_run by blast
  then have "writer (sh_pc s' 7)" by simp
  then show ?thesis using buffer_lock_exclusive[OF r(1) demo_unused] r by auto
qed

text \<open>The first step of an unlock.\<close>

theorem buffer_lock_released_witness:
  "\<exists>s' s''. run {7} demo_start s' \<and> sh_pc s' 7 = Held True \<and> unlock_run {7} 7 s' 1 0 s'' \<and> sh_pc s'' 7 = UFlush True
     \<and> (\<exists>s3. thread_step 7 s'' s3) \<and> lockState s'' \<noteq> 0"
proof -
  obtain s' where r: "run {7} demo_start s'" "sh_pc s' 7 = Held True" using demo_run by blast
  have "validate (Some (sh_h s')) = 0" using run_inv[OF r(1) demo_unused] by simp
  then have st: "thread_step 7 s' (goes 7 (UFlush True) s')" by (intro call_unlock[OF r(2)])
  let ?s = "goes 7 (UFlush True) s'"
  have u: "unlock_run {7} 7 s' 1 0 ?s" using unlock_run.own[OF unlock_run.start _ st, of "{7}"] r(2) by simp
  from buffer_lock_released[OF r(1) demo_unused _ _ _ r(2) u] have
    "(\<exists>s3. thread_step 7 ?s s3) \<and> (lockState ?s = 0 \<or> lockState ?s = LOCK_STATE_MAPPED \<longleftrightarrow> (\<forall>t. \<not> holder (sh_pc ?s t)))" by simp
  moreover have "holder (sh_pc ?s 7)" by simp
  ultimately have "(\<exists>s3. thread_step 7 ?s s3) \<and> lockState ?s \<noteq> 0" by blast
  then show ?thesis using r u by (intro exI[of _ s'] exI[of _ ?s]) simp
qed

end
