(* ===== verification/Gralloc.thy ===== *)
theory Gralloc
  imports Pmem GrallocLock
begin

text \<open>
  The graphics allocation device (src/libgralloc/gpu.cpp) and the rest of the mapper (src/libgralloc/mapper.cpp):
  the sizes of buffers by pixel format, the choice of the memory a buffer comes from, the buffers of the
  frame buffer, and how each is given back. \<open>PmemAllocator\<close> and the calls of the system are records of
  functions over the state of the system. Whether the module is built with \<open>USE_ASHMEM\<close> is an argument.
\<close>

subsection \<open>Pixel formats and sizes\<close>

datatype pixel_format =
    RGBA_8888 | RGBX_8888 | BGRA_8888 | RGB_888 | RGB_565 | RGBA_5551 | RGBA_4444
  | YCrCb_420_SP_ADRENO | YCbCr_420_SP_TILED | YV12 | YCbCr_420_SP | YCrCb_420_SP | OtherFormat

definition roundUpToPageSize :: "u32 \<Rightarrow> u32" where
  "roundUpToPageSize x = (x + (4096 - 1)) AND NOT (4096 - 1)"

definition ALIGN :: "u32 \<Rightarrow> u32 \<Rightarrow> u32" where
  "ALIGN x align = (x + align - 1) AND NOT (align - 1)"

text \<open>Division of an \<open>int\<close> by 2, towards zero.\<close>

definition half :: "int \<Rightarrow> int" where
  "half x = (if x < 0 then - ((- x) div 2) else x div 2)"

text \<open>The stride and the size that \<open>alloc_impl\<close> computes, None for -EINVAL.\<close>

definition alloc_size :: "int \<Rightarrow> int \<Rightarrow> pixel_format \<Rightarrow> (u32 \<times> u32) option" where
  "alloc_size w h format =
     (let alignedw = ALIGN (word_of_int w) 32; alignedh = ALIGN (word_of_int h) 32
      in case format of
           RGBA_8888 \<Rightarrow> Some (alignedw, alignedw * alignedh * 4)
         | RGBX_8888 \<Rightarrow> Some (alignedw, alignedw * alignedh * 4)
         | BGRA_8888 \<Rightarrow> Some (alignedw, alignedw * alignedh * 4)
         | RGB_888 \<Rightarrow> Some (alignedw, alignedw * alignedh * 3)
         | RGB_565 \<Rightarrow> Some (alignedw, alignedw * alignedh * 2)
         | RGBA_5551 \<Rightarrow> Some (alignedw, alignedw * alignedh * 2)
         | RGBA_4444 \<Rightarrow> Some (alignedw, alignedw * alignedh * 2)
         | YCrCb_420_SP_ADRENO \<Rightarrow>
             Some (alignedw, ALIGN (alignedw * alignedh) 4096
               + ALIGN (2 * ALIGN (word_of_int (half w)) 32 * ALIGN (word_of_int (half h)) 32) 4096)
         | YCbCr_420_SP_TILED \<Rightarrow>
             let alignedw = ALIGN (word_of_int w) 128
             in Some (alignedw, ALIGN (alignedw * alignedh) 8192 + ALIGN (alignedw * ALIGN (word_of_int (half h)) 32) 4096)
         | YV12 \<Rightarrow>
             if odd w \<or> odd h then None
             else
               let alignedw = ALIGN (word_of_int w) 16; alignedh = word_of_int h
               in Some (alignedw, alignedw * alignedh + (ALIGN (alignedw div 2) 16 * (alignedh div 2)) * 2)
         | _ \<Rightarrow> None)"

text \<open>
  The size that the module reports for a buffer that is pushed to the composer. The arithmetic is that of
  \<open>int\<close>; its results are those of 32-bit words where it does not overflow.
\<close>

definition calculateBufferSize :: "int \<Rightarrow> int \<Rightarrow> pixel_format \<Rightarrow> u32" where
  "calculateBufferSize width height format =
     (if width = 0 \<or> height = 0 then 0
      else
        let up = (\<lambda>x n. (word_of_int (x + n) :: u32) AND NOT (word_of_int n));
            upw = (\<lambda>x n. (x + n) AND NOT n)
        in case format of
             YCbCr_420_SP_TILED \<Rightarrow>
               let aligned_height = up height 31; pitch = up width 127;
                   sz = pitch * aligned_height; sz = upw sz 8191;
                   aligned_height = up (height div 2) 31; sz = sz + pitch * aligned_height
               in upw sz 8191
           | YCrCb_420_SP_ADRENO \<Rightarrow>
               let aligned_height = up height 31; pitch = up width 31;
                   sz = pitch * aligned_height; sz = upw sz 4095;
                   pitch = 2 * up (width div 2) 31; aligned_height = up (height div 2) 31;
                   sz = sz + pitch * aligned_height
               in upw sz 4095
           | YCrCb_420_SP \<Rightarrow>
               let aligned_width = up width 15; aligned_chroma_width = up (half width) 15
               in aligned_width * word_of_int height + word_of_int (half (sint (aligned_chroma_width * word_of_int height)) * 2)
           | YCbCr_420_SP \<Rightarrow>
               let aligned_width = up width 15; aligned_chroma_width = up (half width) 15
               in aligned_width * word_of_int height + word_of_int (half (sint (aligned_chroma_width * word_of_int height)) * 2)
           | _ \<Rightarrow> 0)"

text \<open>How a pushed buffer is handled: the result, and the two answers (conversion needed, usable directly).\<close>

definition strncmp3 :: "string \<Rightarrow> string \<Rightarrow> bool" where
  "strncmp3 s t \<longleftrightarrow> take 3 s = t"

definition decideBufferHandlingMechanism :: "pixel_format \<Rightarrow> string option \<Rightarrow> bool \<Rightarrow> int \<times> bool \<times> bool" where
  "decideBufferHandlingMechanism format compositionUsed hasBlitEngine =
     (case compositionUsed of
        None \<Rightarrow> (-1, False, False)
      | Some c \<Rightarrow>
          if format = RGB_565 then (0, False, True)
          else if strncmp3 c ''cpu'' then (0, False, False)
          else if strncmp3 c ''gpu''
          then if format = YCbCr_420_SP_TILED \<or> format = YCrCb_420_SP_ADRENO then (0, False, True)
               else if hasBlitEngine then (0, True, False) else (0, False, False)
          else if strncmp3 c ''mdp'' \<or> strncmp3 c ''c2d''
          then if format = YCbCr_420_SP \<or> format = YCrCb_420_SP then (0, False, True)
               else if strncmp3 c ''c2d'' \<and> format = YCbCr_420_SP_TILED then (0, False, True)
               else if hasBlitEngine then (0, True, False) else (0, False, False)
          else (-1, False, False))"

subsection \<open>Sizes are sufficient\<close>

lemma ALIGN_pow2:
  assumes "k \<le> 31" "unat x + 2 ^ k \<le> 2 ^ 32"
  shows "unat (ALIGN x (2 ^ k)) = (unat x + 2 ^ k - 1) div 2 ^ k * 2 ^ k"
  unfolding ALIGN_def by (rule heap_round_up[OF assms])

lemma round_up_bounds:
  fixes x k :: nat
  shows "x \<le> (x + 2 ^ k - 1) div 2 ^ k * 2 ^ k" "(x + 2 ^ k - 1) div 2 ^ k * 2 ^ k < x + 2 ^ k"
proof -
  have p: "0 < (2 :: nat) ^ k" by simp
  let ?y = "x + 2 ^ k - 1"
  have "?y = ?y div 2 ^ k * 2 ^ k + ?y mod 2 ^ k" by (simp add: div_mult_mod_eq)
  moreover have "?y mod 2 ^ k < 2 ^ k" by simp
  ultimately show "x \<le> ?y div 2 ^ k * 2 ^ k" "?y div 2 ^ k * 2 ^ k < x + 2 ^ k" using p by linarith+
qed

lemma ALIGN_bounds:
  assumes "k \<le> 13" "unat x < 2 ^ 30"
  shows "unat x \<le> unat (ALIGN x (2 ^ k))" "unat (ALIGN x (2 ^ k)) < unat x + 2 ^ k"
proof -
  have "(2 :: nat) ^ k \<le> 2 ^ 13" using assms(1) by (intro power_increasing) simp_all
  then have a: "unat (ALIGN x (2 ^ k)) = (unat x + 2 ^ k - 1) div 2 ^ k * 2 ^ k" using assms by (intro ALIGN_pow2) simp_all
  show "unat x \<le> unat (ALIGN x (2 ^ k))" "unat (ALIGN x (2 ^ k)) < unat x + 2 ^ k"
    unfolding a by (rule round_up_bounds)+
qed

lemma unat_mult_small: "unat a * unat b < 2 ^ 32 \<Longrightarrow> unat (a * b :: u32) = unat a * unat b"
  by (simp add: unat_word_ariths(2))

lemma unat_word_of_int: "0 \<le> x \<Longrightarrow> x < 2 ^ 31 \<Longrightarrow> unat (word_of_int x :: u32) = nat x"
  by (simp add: unsigned_of_int take_bit_int_eq_self)

text \<open>
  What a buffer has to hold: the planes of a picture as bytes per row and number of rows. Two chroma
  samples belong to every two by two pixels, interleaved in one plane or in two planes.
\<close>

fun picture :: "pixel_format \<Rightarrow> nat \<Rightarrow> nat \<Rightarrow> (nat \<times> nat) list" where
  "picture RGBA_8888 w h = [(4 * w, h)]"
| "picture RGBX_8888 w h = [(4 * w, h)]"
| "picture BGRA_8888 w h = [(4 * w, h)]"
| "picture RGB_888 w h = [(3 * w, h)]"
| "picture RGB_565 w h = [(2 * w, h)]"
| "picture RGBA_5551 w h = [(2 * w, h)]"
| "picture RGBA_4444 w h = [(2 * w, h)]"
| "picture YCrCb_420_SP_ADRENO w h = [(w, h), (2 * (w div 2), h div 2)]"
| "picture YCbCr_420_SP_TILED w h = [(w, h), (2 * (w div 2), h div 2)]"
| "picture YV12 w h = [(w, h), (w div 2, h div 2), (w div 2, h div 2)]"
| "picture _ w h = []"

text \<open>
  The layout of the planes in a buffer, with unbounded numbers: the offset, the bytes from one row to the
  next and the number of rows. Sides are rounded up to whole tiles, the chroma of the Adreno format starts
  at a multiple of 4096 and has a pitch of its own, that of the tiled format at a multiple of 8192 with the
  pitch of the luma plane; each chroma plane of YV12 has half the luma pitch, rounded up to 16.
\<close>

definition up :: "nat \<Rightarrow> nat \<Rightarrow> nat" where
  "up x a = (x + a - 1) div a * a"

fun planes :: "pixel_format \<Rightarrow> nat \<Rightarrow> nat \<Rightarrow> (nat \<times> nat \<times> nat) list" where
  "planes RGBA_8888 w h = [(0, 4 * up w 32, up h 32)]"
| "planes RGBX_8888 w h = [(0, 4 * up w 32, up h 32)]"
| "planes BGRA_8888 w h = [(0, 4 * up w 32, up h 32)]"
| "planes RGB_888 w h = [(0, 3 * up w 32, up h 32)]"
| "planes RGB_565 w h = [(0, 2 * up w 32, up h 32)]"
| "planes RGBA_5551 w h = [(0, 2 * up w 32, up h 32)]"
| "planes RGBA_4444 w h = [(0, 2 * up w 32, up h 32)]"
| "planes YCrCb_420_SP_ADRENO w h =
     [(0, up w 32, up h 32), (up (up w 32 * up h 32) 4096, 2 * up (w div 2) 32, up (h div 2) 32)]"
| "planes YCbCr_420_SP_TILED w h =
     [(0, up w 128, up h 32), (up (up w 128 * up h 32) 8192, up w 128, up (h div 2) 32)]"
| "planes YV12 w h =
     (let stride = up w 16; c = up (stride div 2) 16
      in [(0, stride, h), (stride * h, c, h div 2), (stride * h + c * (h div 2), c, h div 2)])"
| "planes _ w h = []"

text \<open>The planes of a picture lie in the buffer one after the other, each with room for its rows.\<close>

fun holds :: "(nat \<times> nat \<times> nat) list \<Rightarrow> (nat \<times> nat) list \<Rightarrow> nat \<Rightarrow> nat \<Rightarrow> bool" where
  "holds [] [] start sz \<longleftrightarrow> start \<le> sz"
| "holds ((offset, pitch, rows) # ps) ((bytes, n) # pics) start sz \<longleftrightarrow>
     start \<le> offset \<and> bytes \<le> pitch \<and> n \<le> rows \<and> holds ps pics (offset + pitch * rows) sz"
| "holds _ _ start sz \<longleftrightarrow> False"

definition pixel_bytes :: "pixel_format \<Rightarrow> nat" where
  "pixel_bytes f = (if f \<in> {RGBA_8888, RGBX_8888, BGRA_8888} then 4 else if f = RGB_888 then 3
     else if f \<in> {RGB_565, RGBA_5551, RGBA_4444} then 2 else 1)"

lemma le_up: "0 < a \<Longrightarrow> x \<le> up x a"
proof -
  assume a: "0 < a"
  have "x + a - 1 = (x + a - 1) div a * a + (x + a - 1) mod a" by (simp add: div_mult_mod_eq)
  moreover have "(x + a - 1) mod a < a" using a by simp
  ultimately show "x \<le> up x a" unfolding up_def using a by linarith
qed

lemma unat_ALIGN:
  assumes "k \<le> 13" "unat x < 2 ^ 30"
  shows "unat (ALIGN x (2 ^ k)) = up (unat x) (2 ^ k)"
proof -
  have "(2 :: nat) ^ k \<le> 2 ^ 13" using assms(1) by (intro power_increasing) simp_all
  then show ?thesis unfolding up_def using assms by (intro ALIGN_pow2) simp_all
qed

lemmas unat_ALIGNs = unat_ALIGN[of 4, simplified] unat_ALIGN[of 5, simplified] unat_ALIGN[of 7, simplified]
  unat_ALIGN[of 12, simplified] unat_ALIGN[of 13, simplified]

lemmas le_ups = le_up[of 16, simplified] le_up[of 32, simplified] le_up[of 128, simplified] le_up[of 4096, simplified] le_up[of 8192, simplified]

text \<open>A plane whose sides are rounded up, with a number of bytes per pixel.\<close>

lemma aligned_plane:
  assumes "j \<le> 13" "k \<le> 13" "unat w \<le> 2 ^ 13" "unat h \<le> 2 ^ 13"
  shows "unat (ALIGN w (2 ^ j) * ALIGN h (2 ^ k)) = unat (ALIGN w (2 ^ j)) * unat (ALIGN h (2 ^ k))"
    and "unat (ALIGN w (2 ^ j)) * unat (ALIGN h (2 ^ k)) \<le> 2 ^ 28"
proof -
  have "(2 :: nat) ^ j \<le> 2 ^ 13" "(2 :: nat) ^ k \<le> 2 ^ 13" using assms(1,2) by (intro power_increasing; simp)+
  then have "unat (ALIGN w (2 ^ j)) \<le> 2 ^ 14" "unat (ALIGN h (2 ^ k)) \<le> 2 ^ 14"
    using ALIGN_bounds(2)[OF assms(1), of w] ALIGN_bounds(2)[OF assms(2), of h] assms(3,4) by simp_all
  then have b: "unat (ALIGN w (2 ^ j)) * unat (ALIGN h (2 ^ k)) \<le> 2 ^ 14 * 2 ^ 14" by (rule mult_le_mono)
  then show "unat (ALIGN w (2 ^ j)) * unat (ALIGN h (2 ^ k)) \<le> 2 ^ 28" by simp
  then show "unat (ALIGN w (2 ^ j) * ALIGN h (2 ^ k)) = unat (ALIGN w (2 ^ j)) * unat (ALIGN h (2 ^ k))"
    by (intro unat_mult_small) simp
qed

lemma scaled_plane:
  assumes "unat w \<le> 2 ^ 13" "unat h \<le> 2 ^ 13" "0 < unat w" "0 < unat h" "0 < unat c" "unat c \<le> 4"
  shows "unat (ALIGN w 32 * ALIGN h 32 * c) = unat (ALIGN w 32) * unat (ALIGN h 32) * unat c"
    and "unat c * unat (ALIGN w 32) * unat h \<le> unat (ALIGN w 32 * ALIGN h 32 * c)"
    and "0 < sint (ALIGN w 32 * ALIGN h 32 * c)"
proof -
  note p = aligned_plane[of 5 5 w h, simplified]
  have l: "unat (ALIGN w 32) * unat (ALIGN h 32) \<le> 2 ^ 28" using p(2) assms(1,2) by simp
  have le: "unat (ALIGN w 32) * unat (ALIGN h 32) * unat c \<le> 2 ^ 28 * 4" by (rule mult_le_mono[OF l assms(6)])
  then show e: "unat (ALIGN w 32 * ALIGN h 32 * c) = unat (ALIGN w 32) * unat (ALIGN h 32) * unat c"
    using p(1) assms(1,2) by (subst unat_mult_small) simp_all
  have a: "unat w \<le> unat (ALIGN w 32)" "unat h \<le> unat (ALIGN h 32)"
    using ALIGN_bounds(1)[of 5 w] ALIGN_bounds(1)[of 5 h] assms(1,2) by simp_all
  then show "unat c * unat (ALIGN w 32) * unat h \<le> unat (ALIGN w 32 * ALIGN h 32 * c)"
    unfolding e by (simp add: mult.commute mult.left_commute)
  have "0 < unat (ALIGN w 32 * ALIGN h 32 * c)" unfolding e using a assms(3-5) by (intro mult_pos_pos) linarith+
  moreover have "sint (ALIGN w 32 * ALIGN h 32 * c) = int (unat (ALIGN w 32 * ALIGN h 32 * c))"
    using le e by (intro sint_small) simp
  ultimately show "0 < sint (ALIGN w 32 * ALIGN h 32 * c)" by linarith
qed

text \<open>A plane that is itself rounded up.\<close>

lemma rounded_plane:
  assumes "k \<le> 13" "unat p \<le> 2 ^ 29"
  shows "unat p \<le> unat (ALIGN p (2 ^ k))" "unat (ALIGN p (2 ^ k)) \<le> 2 ^ 29 + 2 ^ 13"
proof -
  have "(2 :: nat) ^ k \<le> 2 ^ 13" using assms(1) by (intro power_increasing) simp_all
  moreover have "unat p < 2 ^ 30" using assms(2) by simp
  ultimately show "unat p \<le> unat (ALIGN p (2 ^ k))" "unat (ALIGN p (2 ^ k)) \<le> 2 ^ 29 + 2 ^ 13"
    using ALIGN_bounds[OF assms(1), of p] assms(2) by simp_all
qed

lemma two_planes:
  assumes "unat (a :: u32) \<le> 2 ^ 29 + 2 ^ 13" "unat b \<le> 2 ^ 29 + 2 ^ 13" "0 < unat a"
  shows "unat (a + b) = unat a + unat b" "0 < sint (a + b)"
proof -
  show u: "unat (a + b) = unat a + unat b" using assms(1,2) by (intro unat_add_small) simp
  have "sint (a + b) = int (unat (a + b))" using u assms(1,2) by (intro sint_small) simp
  moreover have "0 < unat (a + b)" using u assms(3) by linarith
  ultimately show "0 < sint (a + b)" by linarith
qed

lemma unat_double:
  assumes "unat (p :: u32) = n" "n \<le> 2 ^ 28"
  shows "unat (2 * p) = 2 * n" "2 * n \<le> 2 ^ 29"
  using assms unat_mult_small[of 2 p] by simp_all

lemma adreno_planes:
  assumes "unat w \<le> 2 ^ 13" "unat h \<le> 2 ^ 13" "0 < unat w" "0 < unat h" "unat v = unat w div 2" "unat g = unat h div 2"
  shows "unat (ALIGN (ALIGN w 32 * ALIGN h 32) 4096 + ALIGN (2 * ALIGN v 32 * ALIGN g 32) 4096) =
      up (up (unat w) 32 * up (unat h) 32) 4096 + up (2 * up (unat w div 2) 32 * up (unat h div 2) 32) 4096"
    and "0 < sint (ALIGN (ALIGN w 32 * ALIGN h 32) 4096 + ALIGN (2 * ALIGN v 32 * ALIGN g 32) 4096)"
proof -
  have vg: "unat v \<le> 2 ^ 13" "unat g \<le> 2 ^ 13" using assms(1,2,5,6) by simp_all
  note p = aligned_plane[of 5 5 w h, simplified] and q = aligned_plane[of 5 5 v g, simplified]
  let ?a = "ALIGN w 32 * ALIGN h 32" and ?b = "2 * ALIGN v 32 * ALIGN g 32"
  have e: "unat (ALIGN w 32) = up (unat w) 32" "unat (ALIGN h 32) = up (unat h) 32"
    "unat (ALIGN v 32) = up (unat w div 2) 32" "unat (ALIGN g 32) = up (unat h div 2) 32"
    using unat_ALIGNs(2)[of w] unat_ALIGNs(2)[of h] unat_ALIGNs(2)[of v] unat_ALIGNs(2)[of g] assms vg by simp_all
  have a: "unat ?a = up (unat w) 32 * up (unat h) 32" "unat ?a \<le> 2 ^ 29" using p assms(1,2) e by simp_all
  have q': "unat (ALIGN v 32 * ALIGN g 32) = unat (ALIGN v 32) * unat (ALIGN g 32)" "unat (ALIGN v 32) * unat (ALIGN g 32) \<le> 2 ^ 28"
    using q vg by simp_all
  have b: "unat ?b = 2 * up (unat w div 2) 32 * up (unat h div 2) 32" "unat ?b \<le> 2 ^ 29"
    using unat_double[OF q'] e(3,4) by (simp_all only: mult.assoc)
  have r: "unat (ALIGN ?a 4096) = up (unat ?a) 4096" "unat (ALIGN ?b 4096) = up (unat ?b) 4096"
    using unat_ALIGNs(4)[of ?a] unat_ALIGNs(4)[of ?b] a(2) b(2) by simp_all
  note ra = rounded_plane[of 12, OF _ a(2), simplified] and rb = rounded_plane[of 12, OF _ b(2), simplified]
  have "0 < unat ?a" unfolding a(1) using le_ups(2)[of "unat w"] le_ups(2)[of "unat h"] assms(3,4) by simp
  then have pos: "0 < unat (ALIGN ?a 4096)" using ra by linarith
  note t = two_planes[of "ALIGN ?a 4096" "ALIGN ?b 4096", OF _ _ pos]
  show "unat (ALIGN ?a 4096 + ALIGN ?b 4096) = up (up (unat w) 32 * up (unat h) 32) 4096 + up (2 * up (unat w div 2) 32 * up (unat h div 2) 32) 4096"
    using t(1) ra rb r a(1) b(1) by simp
  show "0 < sint (ALIGN ?a 4096 + ALIGN ?b 4096)" using t(2) ra rb by simp
qed

lemma tiled_planes:
  assumes "unat w \<le> 2 ^ 13" "unat h \<le> 2 ^ 13" "0 < unat w" "0 < unat h" "unat g = unat h div 2"
  shows "unat (ALIGN (ALIGN w 128 * ALIGN h 32) 8192 + ALIGN (ALIGN w 128 * ALIGN g 32) 4096) =
      up (up (unat w) 128 * up (unat h) 32) 8192 + up (up (unat w) 128 * up (unat h div 2) 32) 4096"
    and "0 < sint (ALIGN (ALIGN w 128 * ALIGN h 32) 8192 + ALIGN (ALIGN w 128 * ALIGN g 32) 4096)"
proof -
  have g: "unat g \<le> 2 ^ 13" using assms(2,5) by simp
  note p = aligned_plane[of 7 5 w h, simplified] and q = aligned_plane[of 7 5 w g, simplified]
  let ?a = "ALIGN w 128 * ALIGN h 32" and ?b = "ALIGN w 128 * ALIGN g 32"
  have e: "unat (ALIGN w 128) = up (unat w) 128" "unat (ALIGN h 32) = up (unat h) 32" "unat (ALIGN g 32) = up (unat h div 2) 32"
    using unat_ALIGNs(3)[of w] unat_ALIGNs(2)[of h] unat_ALIGNs(2)[of g] assms g by simp_all
  have a: "unat ?a = up (unat w) 128 * up (unat h) 32" "unat ?a \<le> 2 ^ 29" using p assms(1,2) e by simp_all
  have b: "unat ?b = up (unat w) 128 * up (unat h div 2) 32" "unat ?b \<le> 2 ^ 29" using q assms(1) g e by simp_all
  have r: "unat (ALIGN ?a 8192) = up (unat ?a) 8192" "unat (ALIGN ?b 4096) = up (unat ?b) 4096"
    using unat_ALIGNs(5)[of ?a] unat_ALIGNs(4)[of ?b] a(2) b(2) by simp_all
  note ra = rounded_plane[of 13, OF _ a(2), simplified] and rb = rounded_plane[of 12, OF _ b(2), simplified]
  have "0 < unat ?a" unfolding a(1) using le_ups(3)[of "unat w"] le_ups(2)[of "unat h"] assms(3,4) by simp
  then have pos: "0 < unat (ALIGN ?a 8192)" using ra by linarith
  note t = two_planes[of "ALIGN ?a 8192" "ALIGN ?b 4096", OF _ _ pos]
  show "unat (ALIGN ?a 8192 + ALIGN ?b 4096) = up (up (unat w) 128 * up (unat h) 32) 8192 + up (up (unat w) 128 * up (unat h div 2) 32) 4096"
    using t(1) ra rb r a(1) b(1) by simp
  show "0 < sint (ALIGN ?a 8192 + ALIGN ?b 4096)" using t(2) ra rb by simp
qed

lemma yv12_planes:
  assumes "unat w \<le> 2 ^ 13" "unat h \<le> 2 ^ 13" "0 < unat w" "0 < unat h"
  shows "unat (ALIGN w 16 * h + (ALIGN (ALIGN w 16 div 2) 16 * (h div 2)) * 2)
      = up (unat w) 16 * unat h + 2 * (up (up (unat w) 16 div 2) 16 * (unat h div 2))"
    and "0 < sint (ALIGN w 16 * h + (ALIGN (ALIGN w 16 div 2) 16 * (h div 2)) * 2)"
proof -
  let ?s = "ALIGN w 16"
  have s: "unat w \<le> unat ?s" "unat ?s \<le> 2 ^ 13 + 16" using ALIGN_bounds[of 4 w] assms(1) by simp_all
  have es: "unat ?s = up (unat w) 16" using unat_ALIGNs(1)[of w] assms(1) by simp
  have d: "unat (?s div 2) = unat ?s div 2" "unat (h div 2) = unat h div 2" by (simp_all add: unat_div)
  let ?c = "ALIGN (?s div 2) 16"
  have sm: "unat (?s div 2) < 2 ^ 30" "unat ?s div 2 + 16 \<le> 2 ^ 13"
  proof -
    have "unat ?s div 2 + 16 \<le> 8192" using s(2) by simp
    then show "unat (?s div 2) < 2 ^ 30" "unat ?s div 2 + 16 \<le> 2 ^ 13" using d by simp_all
  qed
  have c: "unat ?c \<le> 2 ^ 13" "unat ?c = up (unat ?s div 2) 16"
    using ALIGN_bounds[of 4 "?s div 2"] unat_ALIGNs(1)[of "?s div 2"] d sm by simp_all
  have "unat ?s * unat h \<le> (2 ^ 13 + 16) * 2 ^ 13" by (rule mult_le_mono[OF s(2) assms(2)])
  then have a: "unat (?s * h) = unat ?s * unat h" "unat (?s * h) \<le> 2 ^ 29" by (simp_all add: unat_mult_small)
  have "unat ?c * (unat h div 2) \<le> 2 ^ 13 * 2 ^ 13" by (rule mult_le_mono[OF c(1)]) (use assms(2) in simp)
  then have le: "unat ?c * (unat h div 2) \<le> 2 ^ 26" by simp
  then have "unat (?c * (h div 2)) = unat ?c * unat (h div 2)" by (intro unat_mult_small) (simp add: d)
  then have b1: "unat (?c * (h div 2)) = unat ?c * (unat h div 2)" "unat ?c * (unat h div 2) \<le> 2 ^ 28"
    using le d(2) by simp_all
  have b: "unat (?c * (h div 2) * 2) = 2 * (unat ?c * (unat h div 2))" "unat (?c * (h div 2) * 2) \<le> 2 ^ 29"
    using unat_double[OF b1] by (simp_all only: mult.commute[of _ 2])
  have pos: "0 < unat (?s * h)" using s(1) assms(3,4) a by simp
  note t = two_planes[of "?s * h" "?c * (h div 2) * 2", OF _ _ pos]
  show "unat (?s * h + ?c * (h div 2) * 2) = up (unat w) 16 * unat h + 2 * (up (up (unat w) 16 div 2) 16 * (unat h div 2))"
    using t(1) a b c(2) es by simp
  show "0 < sint (?s * h + ?c * (h div 2) * 2)" using t(2) a b by simp
qed

text \<open>The size holds the planes of the picture.\<close>

lemma picture_fits:
  assumes "0 < w" "w \<le> 8192" "0 < h" "h \<le> 8192"
  shows "case alloc_size w h format of
      None \<Rightarrow> format \<in> {YCbCr_420_SP, YCrCb_420_SP, OtherFormat} \<or> format = YV12 \<and> (odd w \<or> odd h)
    | Some (stride, sz) \<Rightarrow> pixel_bytes format * unat stride = fst (snd (hd (planes format (nat w) (nat h))))
        \<and> holds (planes format (nat w) (nat h)) (picture format (nat w) (nat h)) 0 (unat sz) \<and> 0 < sint sz"
proof -
  let ?w = "word_of_int w :: u32" and ?h = "word_of_int h :: u32"
  let ?v = "word_of_int (half w) :: u32" and ?g = "word_of_int (half h) :: u32"
  have u: "unat ?w = nat w" "unat ?h = nat h" using assms by (simp_all add: unat_word_of_int)
  have hf: "half w = w div 2" "half h = h div 2" using assms by (simp_all add: half_def)
  have v: "unat ?v = nat w div 2" "unat ?g = nat h div 2"
    unfolding hf using assms by (subst unat_word_of_int; simp add: nat_div_distrib)+
  have b: "unat ?w \<le> 2 ^ 13" "unat ?h \<le> 2 ^ 13" "0 < unat ?w" "0 < unat ?h" using u assms by simp_all
  have e: "unat (ALIGN ?w 16) = up (nat w) 16" "unat (ALIGN ?w 32) = up (nat w) 32" "unat (ALIGN ?w 128) = up (nat w) 128"
    "unat (ALIGN ?h 32) = up (nat h) 32"
    using unat_ALIGNs(1-3)[of ?w] unat_ALIGNs(2)[of ?h] b u by simp_all
  note rgb = scaled_plane[OF b, of 4, simplified] scaled_plane[OF b, of 3, simplified] scaled_plane[OF b, of 2, simplified]
  have rgb_sz: "unat (ALIGN ?w 32 * ALIGN ?h 32 * 4) = 4 * up (nat w) 32 * up (nat h) 32"
    "unat (ALIGN ?w 32 * ALIGN ?h 32 * 3) = 3 * up (nat w) 32 * up (nat h) 32"
    "unat (ALIGN ?w 32 * ALIGN ?h 32 * 2) = 2 * up (nat w) 32 * up (nat h) 32"
    using rgb(1,4,7) e(2,4) by simp_all
  have up_le: "nat w \<le> up (nat w) 32" "nat h \<le> up (nat h) 32" by (rule le_ups(2))+
  note ad = adreno_planes[OF b v[folded u]] and ti = tiled_planes[OF b v(2)[folded u(2)]] and yv = yv12_planes[OF b]
  show ?thesis
  proof (cases format)
    case YCrCb_420_SP_ADRENO
    then show ?thesis using e ad u le_ups by (simp add: alloc_size_def Let_def pixel_bytes_def mult.commute)
  next
    case YCbCr_420_SP_TILED
    have "2 * (nat w div 2) \<le> up (nat w) 128" using le_ups(3)[of "nat w"] by linarith
    then show ?thesis using YCbCr_420_SP_TILED e ti u le_ups by (simp add: alloc_size_def Let_def pixel_bytes_def)
  next
    case YV12
    have "nat w div 2 \<le> up (up (nat w) 16 div 2) 16"
      using le_ups(1)[of "nat w"] le_ups(1)[of "up (nat w) 16 div 2"] div_le_mono[of "nat w" "up (nat w) 16" 2] by linarith
    then show ?thesis using YV12 e yv u le_ups by (simp add: alloc_size_def Let_def pixel_bytes_def)
  qed (simp_all add: alloc_size_def Let_def pixel_bytes_def e(2) rgb_sz rgb(3,6,9) up_le)
qed

lemma even_pitch: "even w \<Longrightarrow> up w 32 \<le> 2 * up (w div 2) 32"
proof -
  assume "even w"
  then obtain v where v: "w = 2 * v" by blast
  have "v \<le> (v + 31) div 32 * 32" by linarith
  then have "(2 * v + 31) div 32 \<le> 2 * ((v + 31) div 32)" by linarith
  then show ?thesis by (simp add: up_def v)
qed

text \<open>
  C16: For pictures of up to 8192 by 8192 pixels the size computed for a buffer does not overflow and holds
  the picture: the rows of all its planes lie in the buffer one plane after the other, each plane at its
  offset and with its own pitch, and the stride that is returned is the pitch of the first plane in
  pixels. (The chroma of an odd side is counted as the code counts it, rounded down.) Exactly the formats
  that the device does not know, and YV12 pictures with an odd side, are refused. The chroma plane of the
  Adreno format has room for the returned stride too when the width is even; when it is odd it may not:
  a picture of 1025 by 1024 pixels gets less than its two planes need at the stride 1056.
\<close>

theorem buffer_holds_picture:
  assumes "0 < w" "w \<le> 8192" "0 < h" "h \<le> 8192"
  shows "(case alloc_size w h format of
      None \<Rightarrow> format \<in> {YCbCr_420_SP, YCrCb_420_SP, OtherFormat} \<or> format = YV12 \<and> (odd w \<or> odd h)
    | Some (stride, sz) \<Rightarrow> pixel_bytes format * unat stride = fst (snd (hd (planes format (nat w) (nat h))))
        \<and> holds (planes format (nat w) (nat h)) (picture format (nat w) (nat h)) 0 (unat sz) \<and> 0 < sint sz
        \<and> (format = YCrCb_420_SP_ADRENO \<and> even w \<longrightarrow> unat stride \<le> fst (snd (planes format (nat w) (nat h) ! 1))))
    \<and> alloc_size 1025 1024 YCrCb_420_SP_ADRENO = Some (1056, 1605632) \<and> 1605632 < 1056 * 1024 + 1056 * (512 :: nat)"
proof -
  have "even w \<Longrightarrow> even (nat w)" using assms(1) by (metis even_nat_iff less_imp_le)
  then have "even w \<Longrightarrow> up (nat w) 32 \<le> 2 * up (nat w div 2) 32" by (intro even_pitch)
  moreover have "alloc_size 1025 1024 YCrCb_420_SP_ADRENO = Some (1056, 1605632)"
    by (simp add: alloc_size_def ALIGN_def half_def)
  ultimately show ?thesis
    using picture_fits [OF assms, of format] by (auto simp: pixel_bytes_def split: option.splits)
qed

theorem buffer_holds_picture_witness:
  "alloc_size 176 144 YCrCb_420_SP_ADRENO = Some (192, 53248)
   \<and> holds (planes YCrCb_420_SP_ADRENO 176 144) (picture YCrCb_420_SP_ADRENO 176 144) 0 53248"
proof -
  have "alloc_size 176 144 YCrCb_420_SP_ADRENO = Some (192, 53248)" by (simp add: alloc_size_def ALIGN_def half_def)
  then show ?thesis using buffer_holds_picture[of 176 144 YCrCb_420_SP_ADRENO] by simp
qed

text \<open>
  Without the bound the product wraps: a picture of 32768 by 32800 pixels is given 4 MiB, room for 32 of its
  rows, and the check of the sign does not notice. For a tiled picture the size the module
  reports may exceed the size of the buffer that it allocates.
\<close>

lemma size_overflow:
  "alloc_size 32768 32800 RGBA_8888 = Some (32768, 4194304)" "\<not> holds (planes RGBA_8888 32768 32800) (picture RGBA_8888 32768 32800) 0 4194304"
  by (simp_all add: alloc_size_def ALIGN_def up_def)

lemma tiled_size_differs:
  "alloc_size 128 32 YCbCr_420_SP_TILED = Some (128, 12288)" "calculateBufferSize 128 32 YCbCr_420_SP_TILED = 16384"
  by (simp_all add: alloc_size_def ALIGN_def calculateBufferSize_def half_def)

subsection \<open>The device\<close>

abbreviation GRALLOC_USAGE_HW_TEXTURE :: u32 where "GRALLOC_USAGE_HW_TEXTURE \<equiv> 0x100"
abbreviation GRALLOC_USAGE_HW_2D :: u32 where "GRALLOC_USAGE_HW_2D \<equiv> 0x400"
abbreviation GRALLOC_USAGE_HW_FB :: u32 where "GRALLOC_USAGE_HW_FB \<equiv> 0x1000"
abbreviation GRALLOC_USAGE_HW_MASK :: u32 where "GRALLOC_USAGE_HW_MASK \<equiv> 0x1F00"
abbreviation GRALLOC_USAGE_PRIVATE_PMEM_ADSP :: u32 where "GRALLOC_USAGE_PRIVATE_PMEM_ADSP \<equiv> 0x10000000"
abbreviation GRALLOC_USAGE_PRIVATE_PMEM :: u32 where "GRALLOC_USAGE_PRIVATE_PMEM \<equiv> 0x20000000"

text \<open>The frame buffer of the module: its base address and descriptor when it is mapped.\<close>

record fbmod =
  fb_handle :: "(u32 \<times> int) option"
  fb_numBuffers :: u32
  fb_bufferMask :: u32
  fb_line_length :: u32
  fb_yres :: u32

text \<open>The interface \<open>PmemAllocator\<close>; the results are the error, the base, the offset and the descriptor.\<close>

record 's pma =
  pa_alloc :: "u32 \<Rightarrow> u32 \<Rightarrow> 's \<Rightarrow> bf_err + (int \<times> nat \<times> int \<times> int) \<times> 's"
  pa_free :: "u32 \<Rightarrow> u32 \<Rightarrow> int \<Rightarrow> int \<Rightarrow> 's \<Rightarrow> bf_err + int \<times> 's"

record 's gpu_deps =
  gd_ashmem_create_region :: "u32 \<Rightarrow> 's \<Rightarrow> int \<times> 's"
  gd_ashmem_set_prot_region :: "int \<Rightarrow> 's \<Rightarrow> int \<times> 's"
  gd_mmap :: "u32 \<Rightarrow> int \<Rightarrow> 's \<Rightarrow> nat option \<times> 's"
  gd_munmap :: "u32 \<Rightarrow> u32 \<Rightarrow> 's \<Rightarrow> 's"
  gd_clear :: "nat \<Rightarrow> u32 \<Rightarrow> 's \<Rightarrow> 's"
  gd_close :: "int \<Rightarrow> 's \<Rightarrow> 's"
  gd_errno :: "'s \<Rightarrow> int"
  gd_dup :: "int \<Rightarrow> 's \<Rightarrow> int \<times> 's"
  gd_mapFrameBufferLocked :: "fbmod \<Rightarrow> 's \<Rightarrow> int \<times> fbmod \<times> 's"
  gd_getpid :: int

datatype gpu_err = Fatal bf_err | NullFramebuffer

definition alloc_ashmem_buffer :: "'s gpu_deps \<Rightarrow> u32 \<Rightarrow> 's \<Rightarrow> (int \<times> nat \<times> int \<times> int) \<times> 's" where
  "alloc_ashmem_buffer D sz s =
     (case gd_ashmem_create_region D sz s of
        (fd, s) \<Rightarrow>
          if fd < 0 then ((- gd_errno D s, 0, 0, -1), s)
          else case gd_ashmem_set_prot_region D fd s of
            (r, s) \<Rightarrow>
              if r < 0 then let s = gd_close D fd s in ((- gd_errno D s, 0, 0, -1), s)
              else case gd_mmap D sz fd s of
                (None, s) \<Rightarrow> let s = gd_close D fd s in ((- gd_errno D s, 0, 0, -1), s)
              | (Some base, s) \<Rightarrow> ((0, base, 0, fd), gd_clear D base sz s))"

definition buffer_flags :: "bool \<Rightarrow> u32 \<Rightarrow> u32" where
  "buffer_flags USE_ASHMEM usage =
     (let flags = 0;
          flags = (if \<not> USE_ASHMEM
                   then if usage AND GRALLOC_USAGE_HW_TEXTURE \<noteq> 0 \<or> usage AND GRALLOC_USAGE_HW_2D \<noteq> 0
                        then flags OR PRIV_FLAGS_USES_PMEM else flags
                   else if usage AND GRALLOC_USAGE_PRIVATE_PMEM \<noteq> 0 then flags OR PRIV_FLAGS_USES_PMEM else flags)
      in if usage AND GRALLOC_USAGE_PRIVATE_PMEM_ADSP \<noteq> 0
         then (flags OR PRIV_FLAGS_USES_PMEM_ADSP) AND NOT PRIV_FLAGS_USES_PMEM else flags)"

text \<open>The handle of a buffer that was allocated.\<close>

definition buffer_handle :: "'s gpu_deps \<Rightarrow> u32 \<Rightarrow> u32 \<Rightarrow> u32 \<Rightarrow> nat \<Rightarrow> int \<Rightarrow> int \<Rightarrow> handle" where
  "buffer_handle D sz flags lockst base offset fd =
     (private_handle (gd_getpid D) fd sz flags)
       \<lparr>hd_offset := word_of_int offset, hd_base := of_nat base + word_of_int offset, hd_lockState := lockst\<rparr>"

text \<open>The fallback to shared memory when a driver failed.\<close>

definition try_ashmem :: "'s gpu_deps \<Rightarrow> u32 \<Rightarrow> u32 \<Rightarrow> nat \<Rightarrow> int \<Rightarrow> 's \<Rightarrow> (int \<times> handle option) \<times> 's" where
  "try_ashmem D sz flags base offset s =
     (case gd_ashmem_create_region D sz s of
        (fd, s) \<Rightarrow> if fd < 0 then ((- gd_errno D s, None), s)
                  else ((0, Some (buffer_handle D sz flags LOCK_STATE_MAPPED base offset fd)), s))"

definition gralloc_alloc_buffer ::
  "bool \<Rightarrow> 's gpu_deps \<Rightarrow> 's pma \<Rightarrow> 's pma \<Rightarrow> u32 \<Rightarrow> u32 \<Rightarrow> 's \<Rightarrow> gpu_err + (int \<times> handle option) \<times> 's" where
  "gralloc_alloc_buffer USE_ASHMEM D pmem adsp sz usage s =
     (let sz = roundUpToPageSize sz; flags = buffer_flags USE_ASHMEM usage
      in if flags AND PRIV_FLAGS_USES_PMEM = 0 \<and> flags AND PRIV_FLAGS_USES_PMEM_ADSP = 0
         then case alloc_ashmem_buffer D sz s of
           ((err, base, offset, fd), s) \<Rightarrow>
             Inr ((err, if err = 0 then Some (buffer_handle D sz (flags OR PRIV_FLAGS_USES_ASHMEM) LOCK_STATE_MAPPED base offset fd) else None), s)
         else
           let usesPmem = flags AND PRIV_FLAGS_USES_PMEM \<noteq> 0;
               flags = (if usesPmem then flags AND NOT PRIV_FLAGS_USES_PMEM_ADSP else flags);
               a = (if usesPmem then pmem else adsp)
           in case pa_alloc a sz usage s of
                Inl e \<Rightarrow> Inl (Fatal e)
              | Inr ((err, base, offset, fd), s) \<Rightarrow>
                  if err < 0
                  then if usage AND GRALLOC_USAGE_HW_MASK = 0 \<and> usage AND GRALLOC_USAGE_PRIVATE_PMEM_ADSP = 0
                       then Inr (try_ashmem D sz (flags AND NOT PRIV_FLAGS_USES_PMEM) base offset s)
                       else Inr ((err, None), s)
                  else Inr ((err, if err = 0 then Some (buffer_handle D sz flags LOCK_STATE_MAPPED base offset fd) else None), s))"

text \<open>The search for a free slot of the frame buffer: the mask and the address it ends with.\<close>

fun free_slot :: "nat \<Rightarrow> nat \<Rightarrow> u32 \<Rightarrow> u32 \<Rightarrow> u32 \<Rightarrow> u32 \<times> u32" where
  "free_slot 0 i bufferMask bufferSize vaddr = (bufferMask, vaddr)"
| "free_slot (Suc k) i bufferMask bufferSize vaddr =
     (if bufferMask AND push_bit i 1 = 0 then (bufferMask OR push_bit i 1, vaddr)
      else free_slot k (i + 1) bufferMask bufferSize (vaddr + bufferSize))"

definition gralloc_alloc_framebuffer_locked ::
  "bool \<Rightarrow> 's gpu_deps \<Rightarrow> 's pma \<Rightarrow> 's pma \<Rightarrow> u32 \<Rightarrow> fbmod \<Rightarrow> 's \<Rightarrow> gpu_err + (int \<times> handle option) \<times> fbmod \<times> 's" where
  "gralloc_alloc_framebuffer_locked USE_ASHMEM D pmem adsp usage m s =
     (if usage AND GRALLOC_USAGE_PRIVATE_PMEM_ADSP \<noteq> 0 then Inr ((- EINVAL, None), m, s)
      else case (if fb_handle m = None then gd_mapFrameBufferLocked D m s else (0, m, s)) of
        (err, m, s) \<Rightarrow>
          if err < 0 then Inr ((err, None), m, s)
          else
            let bufferSize = fb_line_length m * fb_yres m; numBuffers = unat (fb_numBuffers m)
            in if numBuffers = 1
               then (case gralloc_alloc_buffer USE_ASHMEM D pmem adsp bufferSize ((usage AND NOT GRALLOC_USAGE_HW_FB) OR GRALLOC_USAGE_HW_2D) s of
                       Inl e \<Rightarrow> Inl e | Inr (r, s) \<Rightarrow> Inr (r, m, s))
               else if push_bit numBuffers 1 - 1 \<le> fb_bufferMask m then Inr ((- ENOMEM, None), m, s)
               else case fb_handle m of
                 None \<Rightarrow> Inl NullFramebuffer
               | Some (fb_base, fb_fd) \<Rightarrow>
                   (case gd_dup D fb_fd s of
                      (fd, s) \<Rightarrow>
                        case free_slot numBuffers 0 (fb_bufferMask m) bufferSize fb_base of
                          (bufferMask, vaddr) \<Rightarrow>
                            Inr ((0, Some ((private_handle (gd_getpid D) fd bufferSize (PRIV_FLAGS_USES_PMEM OR PRIV_FLAGS_FRAMEBUFFER))
                                              \<lparr>hd_base := vaddr, hd_offset := vaddr - fb_base\<rparr>)),
                                 m\<lparr>fb_bufferMask := bufferMask\<rparr>, s)))"

definition alloc_impl ::
  "bool \<Rightarrow> 's gpu_deps \<Rightarrow> 's pma \<Rightarrow> 's pma \<Rightarrow> int \<Rightarrow> int \<Rightarrow> pixel_format \<Rightarrow> u32 \<Rightarrow> fbmod \<Rightarrow> 's
    \<Rightarrow> gpu_err + (int \<times> (handle \<times> u32) option) \<times> fbmod \<times> 's" where
  "alloc_impl USE_ASHMEM D pmem adsp w h format usage m s =
     (case alloc_size w h format of
        None \<Rightarrow> Inr ((- EINVAL, None), m, s)
      | Some (alignedw, sz) \<Rightarrow>
          if sint sz \<le> 0 then Inr ((- EINVAL, None), m, s)
          else
            case (if usage AND GRALLOC_USAGE_HW_FB \<noteq> 0 then gralloc_alloc_framebuffer_locked USE_ASHMEM D pmem adsp usage m s
                  else case gralloc_alloc_buffer USE_ASHMEM D pmem adsp sz usage s of Inl e \<Rightarrow> Inl e | Inr (r, s) \<Rightarrow> Inr (r, m, s)) of
              Inl e \<Rightarrow> Inl e
            | Inr ((err, hnd), m, s) \<Rightarrow>
                if err < 0 then Inr ((err, None), m, s) else Inr ((0, map_option (\<lambda>h. (h, alignedw)) hnd), m, s))"

definition gralloc_unmap :: "'s gpu_deps \<Rightarrow> handle \<Rightarrow> 's \<Rightarrow> handle \<times> 's" where
  "gralloc_unmap D h s =
     (h\<lparr>hd_base := 0\<rparr>,
      if hd_flags h AND PRIV_FLAGS_FRAMEBUFFER = 0
      then gd_munmap D (hd_base h - hd_offset h) (hd_size h + hd_offset h) s else s)"

definition gralloc_register_buffer :: "int \<Rightarrow> handle \<Rightarrow> int \<times> handle" where
  "gralloc_register_buffer pid h =
     (if validate (Some h) < 0 then (- EINVAL, h)
      else (0, if hd_pid h \<noteq> pid then h\<lparr>hd_base := 0, hd_lockState := 0, hd_writeOwner := 0\<rparr> else h))"

definition gralloc_unregister_buffer :: "'s gpu_deps \<Rightarrow> handle \<Rightarrow> 's \<Rightarrow> int \<times> handle \<times> 's" where
  "gralloc_unregister_buffer D h s =
     (if validate (Some h) < 0 then (- EINVAL, h, s)
      else if hd_pid h \<noteq> gd_getpid D
      then
        let (h, s) = (if hd_lockState h AND LOCK_STATE_MAPPED \<noteq> 0 then gralloc_unmap D h s else (h, s))
        in (0, h\<lparr>hd_base := 0, hd_lockState := 0, hd_writeOwner := 0\<rparr>, s)
      else (0, h, s))"

definition terminateBuffer :: "'s gpu_deps \<Rightarrow> handle \<Rightarrow> 's \<Rightarrow> handle \<times> 's" where
  "terminateBuffer D h s =
     (if hd_lockState h AND LOCK_STATE_MAPPED \<noteq> 0
      then if hd_flags h AND PRIV_FLAGS_USES_PMEM \<noteq> 0 \<or> hd_flags h AND PRIV_FLAGS_USES_ASHMEM \<noteq> 0
           then if hd_pid h \<noteq> gd_getpid D then gralloc_unmap D h s else (h, s)
           else gralloc_unmap D h s
      else (h, s))"

text \<open>The memory of a buffer that is not in the frame buffer goes back to where it came from.\<close>

definition release_memory :: "'s gpu_deps \<Rightarrow> 's pma \<Rightarrow> 's pma \<Rightarrow> handle \<Rightarrow> 's \<Rightarrow> gpu_err + 's" where
  "release_memory D pmem adsp h s =
     (let give_back = (\<lambda>a. case pa_free a (hd_size h) (hd_base h) (sint (hd_offset h)) (hd_fd h) s of
                            Inl e \<Rightarrow> Inl (Fatal e) | Inr (_, s) \<Rightarrow> Inr s)
      in if hd_flags h AND PRIV_FLAGS_USES_PMEM \<noteq> 0 then give_back pmem
         else if hd_flags h AND PRIV_FLAGS_USES_PMEM_ADSP \<noteq> 0 then give_back adsp
         else if hd_flags h AND PRIV_FLAGS_USES_ASHMEM \<noteq> 0
         then Inr (if 0 \<le> hd_fd h \<and> hd_base h \<noteq> 0 then gd_munmap D (hd_base h) (hd_size h) s else s)
         else Inr s)"

definition free_impl :: "'s gpu_deps \<Rightarrow> 's pma \<Rightarrow> 's pma \<Rightarrow> handle \<Rightarrow> fbmod \<Rightarrow> 's \<Rightarrow> gpu_err + int \<times> fbmod \<times> 's" where
  "free_impl D pmem adsp h m s =
     (if hd_flags h AND PRIV_FLAGS_FRAMEBUFFER \<noteq> 0
      then case fb_handle m of
        None \<Rightarrow> Inl NullFramebuffer
      | Some (fb_base, _) \<Rightarrow>
          let bufferSize = fb_line_length m * fb_yres m; index = (hd_base h - fb_base) div bufferSize
          in Inr (0, m\<lparr>fb_bufferMask := fb_bufferMask m AND NOT (push_bit (unat index) 1)\<rparr>, gd_close D (hd_fd h) s)
      else case release_memory D pmem adsp h s of
        Inl e \<Rightarrow> Inl e
      | Inr s \<Rightarrow> Inr (0, m, gd_close D (hd_fd h) (snd (terminateBuffer D h s))))"

definition gralloc_free :: "'s gpu_deps \<Rightarrow> 's pma \<Rightarrow> 's pma \<Rightarrow> handle \<Rightarrow> fbmod \<Rightarrow> 's \<Rightarrow> gpu_err + int \<times> fbmod \<times> 's" where
  "gralloc_free D pmem adsp h m s =
     (if validate (Some h) < 0 then Inr (- EINVAL, m, s) else free_impl D pmem adsp h m s)"

subsection \<open>The slots of the frame buffer\<close>

lemma free_slot_first:
  assumes "i \<le> j" "j < i + k" "\<not> bit v j" "\<forall>l. i \<le> l \<longrightarrow> l < j \<longrightarrow> bit v l"
  shows "free_slot k i v sz a = (v OR push_bit j 1, a + of_nat (j - i) * sz)"
  using assms
proof (induction k arbitrary: i a)
  case (Suc k)
  show ?case
  proof (cases "i = j")
    case True
    then show ?thesis using Suc.prems(3) by (simp add: and_exp_eq_0_iff_not_bit)
  next
    case False
    then have l: "i + 1 \<le> j" "bit v i" using Suc.prems by simp_all
    have e: "j - i = Suc (j - (i + 1))" using l by simp
    have "of_nat (j - i) = (of_nat (j - (i + 1)) + 1 :: u32)" unfolding e by simp
    then show ?thesis using Suc.IH[of "i + 1"] Suc.prems l by (simp add: and_exp_eq_0_iff_not_bit algebra_simps)
  qed
qed simp

lemma some_slot_free:
  assumes "unat (v :: u32) < 2 ^ n - 1" "n \<le> 31"
  obtains j where "j < n" "\<not> bit v j" "\<forall>l < j. bit v l"
proof -
  have "\<exists>j. j < n \<and> \<not> bit v j"
  proof (rule ccontr)
    assume "\<not> (\<exists>j. j < n \<and> \<not> bit v j)"
    then have "take_bit n v = mask n" by (intro bit_word_eqI) (auto simp: bit_take_bit_iff bit_mask_iff)
    then have "unat (take_bit n v) = unat (mask n :: u32)" by simp
    moreover have "unat (mask n :: u32) = 2 ^ n - 1" using unat_exp_minus_1[OF assms(2)] by (simp add: mask_eq_exp_minus_1)
    moreover have "unat (take_bit n v) = take_bit n (unat v)" by (rule unsigned_take_bit_eq)
    ultimately show False using take_bit_nat_less_eq_self[of n "unat v"] assms(1) by simp
  qed
  then obtain j where "j < n \<and> \<not> bit v j" "\<forall>l < j. \<not> (l < n \<and> \<not> bit v l)" using exists_least_iff[of "\<lambda>j. j < n \<and> \<not> bit v j"] by blast
  then show thesis using that[of j] by fastforce
qed

lemma slot_index:
  assumes "0 < unat sz" "unat base + n * unat sz \<le> 2 ^ 32" "j < n" "n \<le> 31"
  shows "unat (base + of_nat j * sz :: u32) = unat base + j * unat sz" "unat ((of_nat j * sz) div sz :: u32) = j"
proof -
  have "(j + 1) * unat sz \<le> n * unat sz" using assms(3) by (intro mult_le_mono1) simp
  then have le: "unat base + j * unat sz < 2 ^ 32" using assms(1,2) by simp
  have "j < 2 ^ 32" using assms(3,4) by simp
  then have j: "unat (of_nat j :: u32) = j" by (simp add: unat_of_nat take_bit_nat_eq_self)
  then have m: "unat (of_nat j * sz) = j * unat sz" using le by (subst unat_mult_small) simp_all
  then show "unat (base + of_nat j * sz) = unat base + j * unat sz" using le by (subst unat_add_small) simp_all
  show "unat ((of_nat j * sz) div sz) = j" using m assms(1) by (simp add: unat_div)
qed

lemma clear_slot: "\<not> bit v j \<Longrightarrow> (v OR push_bit j 1) AND NOT (push_bit j 1) = v" for v :: u32
  using or_and_not_exp[of v j] by (simp add: push_bit_eq_mult)

text \<open>
  The buffers of the frame buffer: when several are configured and not all are in use, an allocation
  takes the first slot that is free, marks it and no other, and the buffer covers exactly that slot;
  freeing the buffer makes the slot free again and leaves the module as it was. When all are in use the
  result is -ENOMEM and nothing changes.
\<close>

theorem framebuffer_slot_roundtrip:
  assumes "fb_handle m = Some (base, fd0)" "usage AND GRALLOC_USAGE_PRIVATE_PMEM_ADSP = 0"
    and "n = unat (fb_numBuffers m)" "1 < n" "n \<le> 31" "sz = fb_line_length m * fb_yres m" "0 < unat sz" "unat base + n * unat sz \<le> 2 ^ 32"
  shows "if unat (fb_bufferMask m) < 2 ^ n - 1
    then \<exists>j h s'. gralloc_alloc_framebuffer_locked USE_ASHMEM D pmem adsp usage m s =
           Inr ((0, Some h), m\<lparr>fb_bufferMask := fb_bufferMask m OR push_bit j 1\<rparr>, s')
         \<and> j < n \<and> \<not> bit (fb_bufferMask m) j \<and> (\<forall>i < j. bit (fb_bufferMask m) i)
         \<and> unat (hd_base h) = unat base + j * unat sz \<and> hd_size h = sz
         \<and> gralloc_free D pmem adsp h (m\<lparr>fb_bufferMask := fb_bufferMask m OR push_bit j 1\<rparr>) s'' = Inr (0, m, gd_close D (hd_fd h) s'')
    else gralloc_alloc_framebuffer_locked USE_ASHMEM D pmem adsp usage m s = Inr ((- ENOMEM, None), m, s)"
proof -
  let ?v = "fb_bufferMask m"
  have p: "unat (push_bit n 1 - 1 :: u32) = 2 ^ n - 1" using unat_exp_minus_1[OF assms(5)] by simp
  have full: "push_bit n 1 - 1 \<le> ?v \<longleftrightarrow> \<not> unat ?v < 2 ^ n - 1" unfolding word_le_nat_alt p by linarith
  show ?thesis
  proof (cases "unat ?v < 2 ^ n - 1")
    case False
    then have "gralloc_alloc_framebuffer_locked USE_ASHMEM D pmem adsp usage m s = Inr ((- ENOMEM, None), m, s)"
      using assms(1-4) full by (simp add: gralloc_alloc_framebuffer_locked_def)
    then show ?thesis using False by simp
  next
    case True
    obtain j where j: "j < n" "\<not> bit ?v j" "\<forall>l < j. bit ?v l" using some_slot_free[OF True assms(5)] .
    obtain fd s' where d: "gd_dup D fd0 s = (fd, s')" by (cases "gd_dup D fd0 s")
    let ?h = "(private_handle (gd_getpid D) fd sz (PRIV_FLAGS_USES_PMEM OR PRIV_FLAGS_FRAMEBUFFER))
      \<lparr>hd_base := base + of_nat j * sz, hd_offset := of_nat j * sz\<rparr>"
    let ?m = "m\<lparr>fb_bufferMask := ?v OR push_bit j 1\<rparr>"
    have sl: "free_slot n 0 ?v sz base = (?v OR push_bit j 1, base + of_nat j * sz)"
      using free_slot_first[of 0 j n ?v sz base] j by simp
    have "gralloc_alloc_framebuffer_locked USE_ASHMEM D pmem adsp usage m s = Inr ((0, Some ?h), ?m, s')"
      using assms(1-4,6) True full d sl by (simp add: gralloc_alloc_framebuffer_locked_def Let_def)
    moreover have "gralloc_free D pmem adsp ?h ?m s'' = Inr (0, m, gd_close D (hd_fd ?h) s'')"
      using assms(1,6) slot_index(2)[OF assms(7,8) j(1) assms(5)] clear_slot[OF j(2)]
      by (simp add: gralloc_free_def free_impl_def validate_def private_handle_def)
    ultimately show ?thesis using True j slot_index(1)[OF assms(7,8) j(1) assms(5)]
      by (auto simp: private_handle_def intro!: exI[of _ j] exI[of _ ?h] exI[of _ s'])
  qed
qed

definition demo_gpu :: "unit gpu_deps" where
  "demo_gpu = \<lparr>gd_ashmem_create_region = (\<lambda>sz s. (9, s)), gd_ashmem_set_prot_region = (\<lambda>fd s. (0, s)), gd_mmap = (\<lambda>sz fd s. (Some 0x50000000, s)),
     gd_munmap = (\<lambda>a n s. s), gd_clear = (\<lambda>a n s. s), gd_close = (\<lambda>fd s. s), gd_errno = (\<lambda>s. 12), gd_dup = (\<lambda>fd s. (fd + 1, s)),
     gd_mapFrameBufferLocked = (\<lambda>m s. (0, m, s)), gd_getpid = 100\<rparr>"

definition demo_fb :: fbmod where
  "demo_fb = \<lparr>fb_handle = Some (0x60000000, 4), fb_numBuffers = 2, fb_bufferMask = 1, fb_line_length = 960, fb_yres = 800\<rparr>"

theorem framebuffer_slot_roundtrip_witness:
  "\<exists>j h s'. gralloc_alloc_framebuffer_locked False demo_gpu \<lparr>pa_alloc = \<lambda>_ _ s. Inr ((-12, 0, 0, -1), s), pa_free = \<lambda>_ _ _ _ s. Inr (0, s)\<rparr>
        \<lparr>pa_alloc = \<lambda>_ _ s. Inr ((-12, 0, 0, -1), s), pa_free = \<lambda>_ _ _ _ s. Inr (0, s)\<rparr> GRALLOC_USAGE_HW_FB demo_fb ()
      = Inr ((0, Some h), demo_fb\<lparr>fb_bufferMask := 1 OR push_bit j 1\<rparr>, s') \<and> j < 2 \<and> hd_size h = 768000"
proof -
  let ?a = "\<lparr>pa_alloc = \<lambda>_ _ s. Inr ((-12, 0, 0, -1), s), pa_free = \<lambda>_ _ _ _ s. Inr (0, s)\<rparr> :: unit pma"
  have d: "fb_handle demo_fb = Some (0x60000000, 4)" "fb_bufferMask demo_fb = 1" "2 = unat (fb_numBuffers demo_fb)"
    "768000 = fb_line_length demo_fb * fb_yres demo_fb" by (simp_all add: demo_fb_def)
  show ?thesis
    using framebuffer_slot_roundtrip[OF d(1) _ d(3) _ _ d(4), of GRALLOC_USAGE_HW_FB False demo_gpu ?a ?a "()" "()"] d(2) by auto
qed

subsection \<open>Buffers from the suballocating driver\<close>

text \<open>The driver behind the interface \<open>PmemAllocator\<close>.\<close>

definition user_pma :: "'a suballoc \<Rightarrow> 'k pmem_deps \<Rightarrow> string \<Rightarrow> ('a, 'k) pmem pma" where
  "user_pma A K dev =
     \<lparr>pa_alloc = (\<lambda>sz usage p. case alloc_pmem_buffer A K dev sz usage p of
                   Inl e \<Rightarrow> Inl e
                 | Inr ((err, None), p) \<Rightarrow> Inr ((err, 0, 0, -1), p)
                 | Inr ((err, Some (base, off, fd)), p) \<Rightarrow> Inr ((err, base, off, fd), p)),
      pa_free = (\<lambda>sz base off fd p. free_pmem_buffer A K sz off fd p)\<rparr>"

lemma round_page:
  assumes "0 < unat sz" "unat sz + 4096 \<le> 2 ^ 31"
  shows "unat sz \<le> unat (roundUpToPageSize sz)" "0 < unat (roundUpToPageSize sz)" "unat (roundUpToPageSize sz) + 31 < 2 ^ 32"
    and "unat (roundUpToPageSize sz) < unat sz + 4096" "4096 dvd unat (roundUpToPageSize sz)"
proof -
  have r: "roundUpToPageSize sz = ALIGN sz (2 ^ 12)" by (simp add: roundUpToPageSize_def ALIGN_def algebra_simps)
  have e: "unat (roundUpToPageSize sz) = (unat sz + 2 ^ 12 - 1) div 2 ^ 12 * 2 ^ 12"
    unfolding r using assms(2) by (intro ALIGN_pow2) simp_all
  then show "unat sz \<le> unat (roundUpToPageSize sz)" "0 < unat (roundUpToPageSize sz)" "unat (roundUpToPageSize sz) + 31 < 2 ^ 32"
    "unat (roundUpToPageSize sz) < unat sz + 4096"
    using round_up_bounds[of "unat sz" 12] assms by simp_all
  show "4096 dvd unat (roundUpToPageSize sz)" unfolding e by simp
qed

text \<open>
  A buffer for the graphics hardware, from \<open>gralloc_alloc_buffer\<close> to \<open>gralloc_free\<close>.
\<close>

lemma gralloc_pmem_alloc:
  assumes "pm_ok SimpleBestFitAllocator bf_sized p" "deps_ok K" "0 < unat sz" "unat sz + 4096 \<le> 2 ^ 31"
    and "usage AND GRALLOC_USAGE_HW_TEXTURE \<noteq> 0 \<or> usage AND GRALLOC_USAGE_HW_2D \<noteq> 0" "usage AND GRALLOC_USAGE_PRIVATE_PMEM_ADSP = 0" "usage AND GRALLOC_USAGE_HW_MASK \<noteq> 0"
  obtains (failed) err p' where
      "gralloc_alloc_buffer False G (user_pma (best_fit_allocator debug) K dev) adsp sz usage p = Inr ((err, None), p')"
      "err < 0" "pm_ok SimpleBestFitAllocator bf_sized p'" "heap_blocks (pm_al p') = heap_blocks (pm_al p)" "pm_mem p' = pm_mem p"
  | (granted) h off fd l p' where
      "gralloc_alloc_buffer False G (user_pma (best_fit_allocator debug) K dev) adsp sz usage p = Inr ((0, Some h), p')"
      "h = buffer_handle G (roundUpToPageSize sz) PRIV_FLAGS_USES_PMEM LOCK_STATE_MAPPED (pm_base p') off fd"
      "pm_ok SimpleBestFitAllocator bf_sized p'" "0 \<le> pm_fd p'" "0 \<le> off" "0 \<le> fd" "4096 dvd off"
      "nat off + unat (roundUpToPageSize sz) \<le> 2 ^ 23" "unat (roundUpToPageSize sz) \<le> l"
      "heap_blocks (pm_al p') = insert (nat off, l) (heap_blocks (pm_al p))"
      "\<forall>(s, k) \<in> heap_blocks (pm_al p). s + k \<le> nat off \<or> nat off + l \<le> s"
proof -
  note r = round_page[OF assms(3,4)]
  have f: "buffer_flags False usage = PRIV_FLAGS_USES_PMEM" using assms(5,6) by (simp add: buffer_flags_def)
  show thesis
  proof (rule bf.alloc_buffer[OF assms(1,2) r(2,3), of debug dev usage])
    fix err p'
    assume a: "alloc_pmem_buffer (best_fit_allocator debug) K dev (roundUpToPageSize sz) usage p = Inr ((err, None), p')" "err < 0"
      "pm_ok SimpleBestFitAllocator bf_sized p'" "heap_blocks (pm_al p') = heap_blocks (pm_al p)" "pm_mem p' = pm_mem p"
    then show thesis
      by (intro failed[of err p']) (use assms(7) f in \<open>simp_all add: gralloc_alloc_buffer_def user_pma_def Let_def\<close>)
  next
    fix off fd l p'
    assume a: "alloc_pmem_buffer (best_fit_allocator debug) K dev (roundUpToPageSize sz) usage p = Inr ((0, Some (pm_base p', off, fd)), p')"
      "pm_ok SimpleBestFitAllocator bf_sized p'" "0 \<le> pm_fd p'" "0 \<le> off" "0 \<le> fd" "4096 dvd off"
      "nat off + unat (roundUpToPageSize sz) \<le> 2 ^ 23" "unat (roundUpToPageSize sz) \<le> l"
      "heap_blocks (pm_al p') = insert (nat off, l) (heap_blocks (pm_al p))"
      "\<forall>(s, k) \<in> heap_blocks (pm_al p). s + k \<le> nat off \<or> nat off + l \<le> s"
    have "gralloc_alloc_buffer False G (user_pma (best_fit_allocator debug) K dev) adsp sz usage p =
      Inr ((0, Some (buffer_handle G (roundUpToPageSize sz) PRIV_FLAGS_USES_PMEM LOCK_STATE_MAPPED (pm_base p') off fd)), p')"
      using a(1) f by (simp add: gralloc_alloc_buffer_def user_pma_def Let_def)
    then show thesis by (rule granted[OF _ refl a(2-10)])
  qed
qed

text \<open>In the build without \<open>USE_ASHMEM\<close> a driver is used only for usages of the hardware, so that the fallback is never taken.\<close>

lemma hw_usage:
  "usage AND GRALLOC_USAGE_HW_TEXTURE \<noteq> 0 \<Longrightarrow> usage AND GRALLOC_USAGE_HW_MASK \<noteq> 0"
  "usage AND GRALLOC_USAGE_HW_2D \<noteq> 0 \<Longrightarrow> usage AND GRALLOC_USAGE_HW_MASK \<noteq> 0" for usage :: u32
proof -
  have "usage AND GRALLOC_USAGE_HW_TEXTURE = (usage AND GRALLOC_USAGE_HW_MASK) AND GRALLOC_USAGE_HW_TEXTURE"
    "usage AND GRALLOC_USAGE_HW_2D = (usage AND GRALLOC_USAGE_HW_MASK) AND GRALLOC_USAGE_HW_2D"
    by (simp_all add: and.assoc)
  then show "usage AND GRALLOC_USAGE_HW_TEXTURE \<noteq> 0 \<Longrightarrow> usage AND GRALLOC_USAGE_HW_MASK \<noteq> 0"
    "usage AND GRALLOC_USAGE_HW_2D \<noteq> 0 \<Longrightarrow> usage AND GRALLOC_USAGE_HW_MASK \<noteq> 0" by auto
qed

lemma usage_hw:
  "usage AND GRALLOC_USAGE_HW_TEXTURE \<noteq> 0 \<or> usage AND GRALLOC_USAGE_HW_2D \<noteq> 0 \<Longrightarrow> usage AND GRALLOC_USAGE_HW_MASK \<noteq> 0" for usage :: u32
  using hw_usage by blast

lemma fallback_never_taken:
  assumes "buffer_flags False usage \<noteq> 0"
  shows "\<not> (usage AND GRALLOC_USAGE_HW_MASK = 0 \<and> usage AND GRALLOC_USAGE_PRIVATE_PMEM_ADSP = 0)"
  using assms hw_usage[of usage] by (auto simp: buffer_flags_def split: if_splits)

lemma gralloc_pmem_free:
  assumes "h = buffer_handle G sz PRIV_FLAGS_USES_PMEM LOCK_STATE_MAPPED base off fd" "0 \<le> off" "nat off < 2 ^ 31"
    and "free_pmem_buffer A K sz off fd p = Inr (r, p')"
  shows "gralloc_free G (user_pma A K dev) adsp h m p = Inr (0, m, gd_close G fd p')"
proof -
  have "unat (word_of_int off :: u32) = nat off" using assms(2,3) by (intro unat_word_of_int) simp_all
  then have "sint (word_of_int off :: u32) = off" using assms(2,3) sint_small[of "word_of_int off"] by simp
  then show ?thesis using assms(1,4)
    by (simp add: gralloc_free_def free_impl_def release_memory_def terminateBuffer_def buffer_handle_def private_handle_def validate_def user_pma_def)
qed

text \<open>
  C11: A buffer of the user space driver (for the hardware's textures or 2D engine, in the build without
  shared memory), through all the layers: \<open>gralloc_alloc_buffer\<close> either fails with an error and leaves the
  blocks in use as they were, or gives a handle to a block of the device whose size is the requested one
  rounded up to whole pages and which overlaps no block in use; \<open>gralloc_free\<close> of that handle gives exactly
  that block back if the driver can unmap it, and otherwise leaves it in use.
\<close>

theorem gralloc_buffer_roundtrip:
  assumes "pm_ok SimpleBestFitAllocator bf_sized p" "deps_ok K" "0 < unat sz" "unat sz + 4096 \<le> 2 ^ 31"
    and "usage AND GRALLOC_USAGE_HW_TEXTURE \<noteq> 0 \<or> usage AND GRALLOC_USAGE_HW_2D \<noteq> 0" "usage AND GRALLOC_USAGE_PRIVATE_PMEM_ADSP = 0"
    and "\<forall>fd q. pm_al (gd_close G fd q) = pm_al q"
  shows "\<exists>err out p'. gralloc_alloc_buffer False G (user_pma (best_fit_allocator debug) K dev) adsp sz usage p = Inr ((err, out), p')
    \<and> (case out of
         None \<Rightarrow> err < 0 \<and> heap_blocks (pm_al p') = heap_blocks (pm_al p)
       | Some h \<Rightarrow> err = 0 \<and> unat sz \<le> unat (hd_size h) \<and> unat (hd_size h) < unat sz + 4096 \<and> 4096 dvd unat (hd_size h)
           \<and> 4096 dvd unat (hd_offset h) \<and> unat (hd_offset h) + unat (hd_size h) \<le> 2 ^ 23
           \<and> hd_base h = of_nat (get_base_address p') + hd_offset h
           \<and> (\<exists>l \<ge> unat (hd_size h). heap_blocks (pm_al p') = insert (unat (hd_offset h), l) (heap_blocks (pm_al p))
                \<and> (\<forall>(s, k) \<in> heap_blocks (pm_al p). s + k \<le> unat (hd_offset h) \<or> unat (hd_offset h) + l \<le> s))
           \<and> (\<exists>p''. gralloc_free G (user_pma (best_fit_allocator debug) K dev) adsp h m p' = Inr (0, m, p'')
                \<and> heap_blocks (pm_al p'') =
                  (if fst (d_unmapPmem K (hd_fd h) (uint (hd_offset h)) (hd_size h) (pm_sys p')) = 0
                   then heap_blocks (pm_al p) else heap_blocks (pm_al p'))))"
  using assms(1-6) usage_hw[OF assms(5)]
proof (cases rule: gralloc_pmem_alloc[where G = G and debug = debug and dev = dev and adsp = adsp])
  case (failed err p')
  then show ?thesis by auto
next
  case (granted h off fd l p')
  have lt: "nat off < 2 ^ 31" using granted(8) by simp
  have w: "unat (word_of_int off :: u32) = nat off" using granted(5) lt by (intro unat_word_of_int) simp_all
  have h: "hd_size h = roundUpToPageSize sz" "unat (hd_offset h) = nat off" "hd_base h = of_nat (pm_base p') + hd_offset h"
    "hd_fd h = fd"
    using granted(2) w by (simp_all add: buffer_handle_def private_handle_def)
  have uo: "uint (hd_offset h) = off" using h(2) granted(5) by (metis int_nat_eq uint_nat)
  have fresh: "(nat off, l) \<notin> heap_blocks (pm_al p)"
    using granted(9,11) round_page(2)[OF assms(3,4)] by fastforce
  obtain r k where u: "d_unmapPmem K fd off (roundUpToPageSize sz) (pm_sys p') = (r, k)"
    by (cases "d_unmapPmem K fd off (roundUpToPageSize sz) (pm_sys p')")
  have m: "(nat off, l) \<in> heap_blocks (pm_al p')" using granted(10) by simp
  obtain q where q: "free_pmem_buffer (best_fit_allocator debug) K (roundUpToPageSize sz) off fd p' = Inr (0, q)"
    "heap_blocks (pm_al q) = (if r = 0 then heap_blocks (pm_al p') - {(nat off, l)} else heap_blocks (pm_al p'))"
    by (rule bf.free_buffer[OF granted(3,4) m granted(5,6) u])
  have "heap_blocks (pm_al (gd_close G fd q)) = (if r = 0 then heap_blocks (pm_al p) else heap_blocks (pm_al p'))"
    using assms(7) q(2) granted(10) fresh by auto
  moreover have "fst (d_unmapPmem K (hd_fd h) (uint (hd_offset h)) (hd_size h) (pm_sys p')) = r" using u h uo by simp
  ultimately have fr: "\<exists>p''. gralloc_free G (user_pma (best_fit_allocator debug) K dev) adsp h m' p' = Inr (0, m', p'')
      \<and> heap_blocks (pm_al p'') = (if fst (d_unmapPmem K (hd_fd h) (uint (hd_offset h)) (hd_size h) (pm_sys p')) = 0
                   then heap_blocks (pm_al p) else heap_blocks (pm_al p'))" for m'
    using gralloc_pmem_free[OF granted(2,5) lt q(1)] by auto
  have "4096 dvd nat off" using granted(5,7) by (auto elim!: dvdE simp: nat_mult_distrib)
  moreover have "\<exists>l \<ge> unat (hd_size h). heap_blocks (pm_al p') = insert (unat (hd_offset h), l) (heap_blocks (pm_al p))
      \<and> (\<forall>(s, k) \<in> heap_blocks (pm_al p). s + k \<le> unat (hd_offset h) \<or> unat (hd_offset h) + l \<le> s)"
    unfolding h(1,2) using granted(9,10,11) by blast
  ultimately show ?thesis using granted(1,8) fr[of m] h(1,2,3) round_page(1,4,5)[OF assms(3,4)]
    by (intro exI[of _ 0] exI[of _ "Some h"] exI[of _ p']) (simp add: get_base_address_def)
qed

text \<open>
  A buffer of the kernel driver is unmapped twice when it is freed: by the driver, and again by
  \<open>terminateBuffer\<close>, which leaves only the other two kinds alone.
\<close>

lemma adsp_buffer_unmapped_twice:
  assumes "h = buffer_handle G sz PRIV_FLAGS_USES_PMEM_ADSP LOCK_STATE_MAPPED base 0 fd"
    and "pa_free adsp sz (of_nat base) 0 fd s = Inr (r, s')"
  shows "gralloc_free G pmem adsp h m s = Inr (0, m, gd_close G fd (gd_munmap G (of_nat base) sz s'))"
  using assms
  by (simp add: gralloc_free_def free_impl_def release_memory_def terminateBuffer_def gralloc_unmap_def buffer_handle_def private_handle_def validate_def)

definition demo_pgpu :: "(bfa, unit) pmem gpu_deps" where
  "demo_pgpu = \<lparr>gd_ashmem_create_region = (\<lambda>sz s. (9, s)), gd_ashmem_set_prot_region = (\<lambda>fd s. (0, s)), gd_mmap = (\<lambda>sz fd s. (Some 0x50000000, s)),
     gd_munmap = (\<lambda>a n s. s), gd_clear = (\<lambda>a n s. s), gd_close = (\<lambda>fd s. s), gd_errno = (\<lambda>s. 12), gd_dup = (\<lambda>fd s. (fd + 1, s)),
     gd_mapFrameBufferLocked = (\<lambda>m s. (0, m, s)), gd_getpid = 100\<rparr>"

lemma demo_gralloc:
  "\<exists>p'. gralloc_alloc_buffer False demo_pgpu (user_pma (best_fit_allocator True) demo_deps ''/dev/pmem'')
     (user_pma (best_fit_allocator True) demo_deps ''/dev/pmem_adsp'') 768001 GRALLOC_USAGE_HW_TEXTURE demo_used
   = Inr ((0, Some (buffer_handle demo_pgpu 770048 PRIV_FLAGS_USES_PMEM LOCK_STATE_MAPPED 0x40000000 8192 3)), p')"
  by (simp add: gralloc_alloc_buffer_def roundUpToPageSize_def buffer_flags_def user_pma_def alloc_pmem_buffer_def init_pmem_area_def
      demo_used_def best_fit_allocator_def allocate_def bf_alloc_def page_extra_def better_def
      split_chunk_def new_chunk_def Let_def sub_heap_def demo_deps_def)

theorem gralloc_buffer_roundtrip_witness:
  "\<exists>h p' p''. gralloc_alloc_buffer False demo_pgpu (user_pma (best_fit_allocator True) demo_deps ''/dev/pmem'')
       (user_pma (best_fit_allocator True) demo_deps ''/dev/pmem_adsp'') 768001 GRALLOC_USAGE_HW_TEXTURE demo_used = Inr ((0, Some h), p')
     \<and> 768001 \<le> unat (hd_size h) \<and> 4096 dvd unat (hd_size h)
     \<and> gralloc_free demo_pgpu (user_pma (best_fit_allocator True) demo_deps ''/dev/pmem'')
          (user_pma (best_fit_allocator True) demo_deps ''/dev/pmem_adsp'') h demo_fb p' = Inr (0, demo_fb, p'')
     \<and> heap_blocks (pm_al p'') = {(0, 5024)}"
proof -
  let ?a = "gralloc_alloc_buffer False demo_pgpu (user_pma (best_fit_allocator True) demo_deps ''/dev/pmem'')
       (user_pma (best_fit_allocator True) demo_deps ''/dev/pmem_adsp'') 768001 GRALLOC_USAGE_HW_TEXTURE demo_used"
  obtain h p' where a: "?a = Inr ((0, Some h), p')" using demo_gralloc by blast
  have d: "\<forall>fd q. pm_al (gd_close demo_pgpu fd q) = pm_al q" "fst (d_unmapPmem demo_deps fd off n k) = 0" for fd off n k
    by (simp_all add: demo_pgpu_def demo_deps_def)
  have s: "0 < unat (768001 :: u32)" "unat (768001 :: u32) + 4096 \<le> 2 ^ 31"
    "GRALLOC_USAGE_HW_TEXTURE AND GRALLOC_USAGE_HW_TEXTURE \<noteq> 0 \<or> GRALLOC_USAGE_HW_TEXTURE AND GRALLOC_USAGE_HW_2D \<noteq> 0"
    "GRALLOC_USAGE_HW_TEXTURE AND GRALLOC_USAGE_PRIVATE_PMEM_ADSP = 0" by simp_all
  from gralloc_buffer_roundtrip[OF demo_used_ok(1) demo_deps_ok s d(1), of True "''/dev/pmem''"
      "user_pma (best_fit_allocator True) demo_deps ''/dev/pmem_adsp''" demo_fb]
  show ?thesis unfolding a d(2) demo_used_ok(2) by auto
qed

subsection \<open>Requests to the module\<close>

text \<open>
  \<open>gralloc_perform\<close>: making a handle for a buffer of the caller's, from the result of the size request and
  what \<open>native_handle_create\<close> allocated, and the question how a pushed buffer is handled.
\<close>

datatype perform_op =
    CreateHandleFromBuffer int u32 u32 u32
  | DecidePushBufferHandling pixel_format int int "string option" bool
  | OtherOperation

datatype perform_out = NoOutput | NewHandle handle | Handling bool bool u32

definition gralloc_perform :: "int \<Rightarrow> handle \<Rightarrow> perform_op \<Rightarrow> int \<times> perform_out" where
  "gralloc_perform get_size created operation =
     (case operation of
        CreateHandleFromBuffer fd sz offset base \<Rightarrow>
          if get_size < 0 then (- EINVAL, NoOutput)
          else (0, NewHandle (created\<lparr>hd_magic := sMagic, hd_fd := fd, hd_flags := PRIV_FLAGS_USES_PMEM, hd_size := sz, hd_offset := offset,
                                      hd_base := base + offset, hd_lockState := LOCK_STATE_MAPPED, hd_gpuaddr := 0\<rparr>))
      | DecidePushBufferHandling format width height compositionUsed hasBlitEngine \<Rightarrow>
          (case decideBufferHandlingMechanism format compositionUsed hasBlitEngine of
             (res, needConversion, useBufferDirectly) \<Rightarrow> (res, Handling needConversion useBufferDirectly (calculateBufferSize width height format)))
      | OtherOperation \<Rightarrow> (- EINVAL, NoOutput))"

text \<open>The new handle is valid, but it keeps the process number that happened to be in its memory.\<close>

lemma created_handle:
  assumes "0 \<le> get_size" "hd_version created = sizeof_native_handle" "hd_numInts created = sNumInts" "hd_numFds created = sNumFds"
  obtains h where "gralloc_perform get_size created (CreateHandleFromBuffer fd sz offset base) = (0, NewHandle h)"
    "validate (Some h) = 0" "hd_pid h = hd_pid created" "hd_writeOwner h = hd_writeOwner created"
  using assms by (simp add: gralloc_perform_def validate_def)

text \<open>A pushed buffer is never both converted and used directly, and a conversion takes the blit engine.\<close>

lemma handling_consistent:
  assumes "decideBufferHandlingMechanism format c blit = (r, conv, direct)"
  shows "\<not> (conv \<and> direct)" "conv \<Longrightarrow> blit" "r \<noteq> 0 \<Longrightarrow> \<not> conv \<and> \<not> direct"
  using assms by (auto simp: decideBufferHandlingMechanism_def split: option.splits if_splits)

end
