(* ===== verification/RilEvent.thy ===== *)
theory RilEvent
  imports Dlink
begin

text \<open>
  The event loop of the radio daemon (src/libril/ril_event.cpp and ril_event.h): timers in a list sorted by
  their time, descriptors in a table of eight, and a list of pending events that is fired at the end of
  every round. The two lists are rings of Dlink in one store of pointers; null is address 0, the heads of
  the lists are the addresses 1 and 2. The time and the result of \<open>select\<close> are arguments, callbacks are
  functions on the state. The loops over the lists are partial functions, shown to end.
\<close>

subsection \<open>Time\<close>

record timeval =
  tv_sec :: int
  tv_usec :: int

definition timeradd :: "timeval \<Rightarrow> timeval \<Rightarrow> timeval" where
  "timeradd a b =
     (let s = tv_sec a + tv_sec b; u = tv_usec a + tv_usec b
      in if 1000000 \<le> u then \<lparr>tv_sec = s + 1, tv_usec = u - 1000000\<rparr> else \<lparr>tv_sec = s, tv_usec = u\<rparr>)"

definition timer_less :: "timeval \<Rightarrow> timeval \<Rightarrow> bool" where
  "timer_less a b \<longleftrightarrow> (if tv_sec a = tv_sec b then tv_usec a < tv_usec b else tv_sec a < tv_sec b)"

definition timersub :: "timeval \<Rightarrow> timeval \<Rightarrow> timeval" where
  "timersub a b =
     (let s = tv_sec a - tv_sec b; u = tv_usec a - tv_usec b
      in if u < 0 then \<lparr>tv_sec = s - 1, tv_usec = u + 1000000\<rparr> else \<lparr>tv_sec = s, tv_usec = u\<rparr>)"

subsection \<open>Events and lists\<close>

abbreviation MAX_FD_EVENTS :: nat where "MAX_FD_EVENTS \<equiv> 8"

definition timer_list :: nat where "timer_list = 1"

definition pending_list :: nat where "pending_list = 2"

record ril =
  r_links :: links
  r_fd :: "nat \<Rightarrow> int"
  r_index :: "nat \<Rightarrow> int"
  r_persist :: "nat \<Rightarrow> bool"
  r_timeout :: "nat \<Rightarrow> timeval"
  r_watch :: "nat list"
  r_readFds :: "int set"
  r_nfds :: int

definition init_list :: "nat \<Rightarrow> ril \<Rightarrow> ril" where
  "init_list l r =
     r\<lparr>r_links := ring_init l (r_links r), r_fd := (r_fd r)(l := -1), r_index := (r_index r)(l := 0),
       r_persist := (r_persist r)(l := False), r_timeout := (r_timeout r)(l := \<lparr>tv_sec = 0, tv_usec = 0\<rparr>)\<rparr>"

definition addToList :: "nat \<Rightarrow> nat \<Rightarrow> ril \<Rightarrow> ril" where
  "addToList ev l r =
     (let L = r_links r;
          L = L\<lparr>nx := (nx L)(ev := l)\<rparr>;
          L = L\<lparr>pv := (pv L)(ev := pv L l)\<rparr>;
          L = L\<lparr>nx := (nx L)(pv L ev := ev)\<rparr>;
          L = L\<lparr>pv := (pv L)(l := ev)\<rparr>
      in r\<lparr>r_links := L\<rparr>)"

definition removeFromList :: "nat \<Rightarrow> ril \<Rightarrow> bool \<times> ril" where
  "removeFromList ev r =
     (let L = r_links r
      in if pv L ev = 0 \<or> nx L ev = 0 then (False, r)
         else
           let L = L\<lparr>pv := (pv L)(nx L ev := pv L ev)\<rparr>;
               L = L\<lparr>nx := (nx L)(pv L ev := nx L ev)\<rparr>;
               L = L\<lparr>nx := (nx L)(ev := 0)\<rparr>;
               L = L\<lparr>pv := (pv L)(ev := 0)\<rparr>
           in (True, r\<lparr>r_links := L\<rparr>))"

text \<open>The largest descriptor of the table, and 0.\<close>

definition max_fd :: "ril \<Rightarrow> int" where
  "max_fd r = fold (\<lambda>e n. if e \<noteq> 0 \<and> n < r_fd r e then r_fd r e else n) (r_watch r) 0"

definition removeWatch :: "nat \<Rightarrow> nat \<Rightarrow> ril \<Rightarrow> ril" where
  "removeWatch ev index r =
     (let r = r\<lparr>r_watch := (r_watch r)[index := 0], r_index := (r_index r)(ev := -1), r_readFds := r_readFds r - {r_fd r ev}\<rparr>
      in if r_fd r ev + 1 = r_nfds r then r\<lparr>r_nfds := max_fd r + 1\<rparr> else r)"

definition ril_event_init :: "ril \<Rightarrow> ril" where
  "ril_event_init r = (init_list pending_list (init_list timer_list (r\<lparr>r_readFds := {}\<rparr>)))\<lparr>r_watch := replicate MAX_FD_EVENTS 0\<rparr>"

definition ril_event_set :: "nat \<Rightarrow> int \<Rightarrow> bool \<Rightarrow> ril \<Rightarrow> ril" where
  "ril_event_set ev fd persist r =
     r\<lparr>r_links := (r_links r)\<lparr>nx := (nx (r_links r))(ev := 0), pv := (pv (r_links r))(ev := 0)\<rparr>,
       r_fd := (r_fd r)(ev := fd), r_index := (r_index r)(ev := -1), r_persist := (r_persist r)(ev := persist),
       r_timeout := (r_timeout r)(ev := \<lparr>tv_sec = 0, tv_usec = 0\<rparr>)\<rparr>"

text \<open>The first free entry of the table; when there is none, the event is not added.\<close>

fun free_entry :: "nat list \<Rightarrow> nat \<Rightarrow> nat option" where
  "free_entry [] i = None"
| "free_entry (e # es) i = (if e = 0 then Some i else free_entry es (i + 1))"

definition ril_event_add :: "nat \<Rightarrow> ril \<Rightarrow> ril" where
  "ril_event_add ev r =
     (case free_entry (r_watch r) 0 of
        None \<Rightarrow> r
      | Some i \<Rightarrow>
          let r = r\<lparr>r_watch := (r_watch r)[i := ev], r_index := (r_index r)(ev := int i), r_readFds := insert (r_fd r ev) (r_readFds r)\<rparr>
          in if r_nfds r \<le> r_fd r ev then r\<lparr>r_nfds := r_fd r ev + 1\<rparr> else r)"

text \<open>The search for the place of a timer, from \<open>l\<close> on.\<close>

partial_function (option) find_place :: "ril \<Rightarrow> nat \<Rightarrow> nat \<Rightarrow> nat option" where
  "find_place r ev l =
     (if timer_less (r_timeout r l) (r_timeout r ev) \<and> l \<noteq> timer_list then find_place r ev (nx (r_links r) l) else Some l)"

definition ril_timer_add :: "timeval \<Rightarrow> nat \<Rightarrow> timeval option \<Rightarrow> ril \<Rightarrow> ril option" where
  "ril_timer_add now ev tv r =
     (case tv of
        None \<Rightarrow> Some r
      | Some tv \<Rightarrow>
          let l = nx (r_links r) timer_list;
              r = r\<lparr>r_fd := (r_fd r)(ev := -1), r_timeout := (r_timeout r)(ev := timeradd now tv)\<rparr>
          in case find_place r ev l of None \<Rightarrow> None | Some l \<Rightarrow> Some (addToList ev l r))"

definition ril_timer_delete :: "nat \<Rightarrow> ril \<Rightarrow> bool \<times> ril" where
  "ril_timer_delete tev r = removeFromList tev r"

definition ril_event_del :: "nat \<Rightarrow> ril \<Rightarrow> ril" where
  "ril_event_del ev r = (if r_index r ev < 0 \<or> int MAX_FD_EVENTS \<le> r_index r ev then r else removeWatch ev (nat (r_index r ev)) r)"

subsection \<open>The loop\<close>

partial_function (option) timeouts_loop :: "timeval \<Rightarrow> nat \<Rightarrow> ril \<Rightarrow> ril option" where
  "timeouts_loop now tev r =
     (if tev \<noteq> timer_list \<and> timer_less (r_timeout r tev) now
      then timeouts_loop now (nx (r_links r) tev) (addToList tev pending_list (snd (removeFromList tev r)))
      else Some r)"

definition processTimeouts :: "timeval \<Rightarrow> ril \<Rightarrow> ril option" where
  "processTimeouts now r = timeouts_loop now (nx (r_links r) timer_list) r"

fun readies_loop :: "int set \<Rightarrow> nat list \<Rightarrow> nat \<Rightarrow> int \<Rightarrow> ril \<Rightarrow> ril" where
  "readies_loop rfds [] i n r = r"
| "readies_loop rfds (e # es) i n r =
     (if n \<le> 0 then r
      else if e \<noteq> 0 \<and> r_fd r e \<in> rfds
      then
        let r = addToList e pending_list r; r = (if \<not> r_persist r e then removeWatch e i r else r)
        in readies_loop rfds es (i + 1) (n - 1) r
      else readies_loop rfds es (i + 1) n r)"

text \<open>\<open>removeWatch\<close> only clears the entry that was just read, so the entries to come are those of the start.\<close>

definition processReadReadies :: "int set \<Rightarrow> int \<Rightarrow> ril \<Rightarrow> ril" where
  "processReadReadies rfds n r = readies_loop rfds (r_watch r) 0 n r"

text \<open>
  Firing: None if the loop does not end, and the events that were fired; reading the links of a null event
  is a fault, with the events fired before it.
\<close>

datatype ril_fault = NullEvent "nat list"

partial_function (option) fire_loop :: "(nat \<Rightarrow> ril \<Rightarrow> ril) \<Rightarrow> nat \<Rightarrow> ril \<Rightarrow> nat list \<Rightarrow> (ril_fault + ril \<times> nat list) option" where
  "fire_loop call ev r fired =
     (if ev = pending_list then Some (Inr (r, fired))
      else if ev = 0 then Some (Inl (NullEvent fired))
      else fire_loop call (nx (r_links r) ev) (call ev (snd (removeFromList ev r))) (fired @ [ev]))"

definition firePending :: "(nat \<Rightarrow> ril \<Rightarrow> ril) \<Rightarrow> ril \<Rightarrow> (ril_fault + ril \<times> nat list) option" where
  "firePending call r = fire_loop call (nx (r_links r) pending_list) r []"

definition calcNextTimeout :: "timeval \<Rightarrow> ril \<Rightarrow> timeval option" where
  "calcNextTimeout now r =
     (let tev = nx (r_links r) timer_list
      in if tev = timer_list then None
         else if timer_less now (r_timeout r tev) then Some (timersub (r_timeout r tev) now)
         else Some \<lparr>tv_sec = 0, tv_usec = 0\<rparr>)"

text \<open>
  A round: the time \<open>calcNextTimeout\<close> reads, the answer of \<open>select\<close> to the number of descriptors, the set
  and the wait it is given, whether \<open>errno\<close> is \<open>EINTR\<close> after a failure, and the time \<open>processTimeouts\<close> reads.
\<close>

record round =
  w_before :: timeval
  w_select :: "int \<Rightarrow> int set \<Rightarrow> timeval option \<Rightarrow> int \<times> int set"
  w_eintr :: bool
  w_after :: timeval

text \<open>The loop for as many rounds as the list has; the events fired are accumulated.\<close>

fun ril_event_loop :: "(nat \<Rightarrow> ril \<Rightarrow> ril) \<Rightarrow> round list \<Rightarrow> ril \<Rightarrow> nat list \<Rightarrow> (ril_fault + ril \<times> nat list) option" where
  "ril_event_loop call [] r fired = Some (Inr (r, fired))"
| "ril_event_loop call (w # ws) r fired =
     (case w_select w (r_nfds r) (r_readFds r) (calcNextTimeout (w_before w) r) of (n, rfds) \<Rightarrow>
        if n < 0 then if w_eintr w then ril_event_loop call ws r fired else Some (Inr (r, fired))
        else
          case processTimeouts (w_after w) r of
            None \<Rightarrow> None
          | Some r \<Rightarrow>
              (case firePending call (processReadReadies rfds n r) of
                 None \<Rightarrow> None
               | Some (Inl f) \<Rightarrow> Some (Inl f)
               | Some (Inr (r, fs)) \<Rightarrow> ril_event_loop call ws r (fired @ fs)))"

subsection \<open>Rings\<close>

lemma ring_rotate: "ring h (xs @ y # ys) L \<Longrightarrow> ring y (ys @ h # xs) L"
  by (auto simp: ring_def)

lemma ring_insert_before:
  assumes "ring h (xs @ ys) L" "s \<notin> set (h # xs @ ys)"
  shows "ring h (xs @ s # ys) (ring_insert (hd (ys @ [h])) s L)"
proof (cases ys)
  case Nil
  then show ?thesis using ring_insert_refines[of h xs L s] assms by simp
next
  case (Cons y zs)
  have "ring y (zs @ h # xs) L" using ring_rotate[of h xs y zs L] assms(1) Cons by simp
  then have "ring y ((zs @ h # xs) @ [s]) (ring_insert y s L)" using assms(2) Cons by (intro ring_insert_refines) auto
  then have "ring y (zs @ h # (xs @ [s])) (ring_insert y s L)" by simp
  then show ?thesis using ring_rotate[of y zs h "xs @ [s]"] Cons by simp
qed

lemma ring_frame:
  assumes "ring h xs L" "\<And>k. k \<in> set (h # xs) \<Longrightarrow> nx L' k = nx L k" "\<And>k. k \<in> set (h # xs) \<Longrightarrow> pv L' k = pv L k"
  shows "ring h xs L'"
  using assms path_cong[of L h xs h L'] by (auto simp: ring_def)

lemma ring_members:
  assumes "ring h xs L"
  shows "k \<in> set (h # xs) \<Longrightarrow> nx L k \<in> set (h # xs)" "k \<in> set (h # xs) \<Longrightarrow> pv L k \<in> set (h # xs)"
proof -
  have p: "path L a xs b \<Longrightarrow> (\<forall>k \<in> set (a # xs). nx L k \<in> set (b # xs)) \<and> (\<forall>k \<in> set (b # xs). pv L k \<in> set (a # xs))" for a b xs
    by (induction xs arbitrary: a) auto
  show "k \<in> set (h # xs) \<Longrightarrow> nx L k \<in> set (h # xs)" "k \<in> set (h # xs) \<Longrightarrow> pv L k \<in> set (h # xs)"
    using p[of h xs h] assms unfolding ring_def by blast+
qed

text \<open>Inserting into a ring leaves a disjoint ring alone.\<close>

lemma ring_insert_other:
  assumes "ring h xs L" "ring g zs L" "y \<in> set (h # xs)" "s \<notin> set (h # xs)" "set (h # xs) \<inter> set (g # zs) = {}" "s \<notin> set (g # zs)"
  shows "ring g zs (ring_insert y s L)"
proof -
  have m: "pv L y \<in> set (h # xs)" by (rule ring_members(2)[OF assms(1,3)])
  then have n: "pv L y \<noteq> s" "y \<noteq> s" using assms(3,4) by auto
  show ?thesis
    by (rule ring_frame[OF assms(2)]) (use n m assms in \<open>auto simp: ring_insert_nx_pv\<close>)
qed

definition unlinked :: "nat \<Rightarrow> links \<Rightarrow> links" where
  "unlinked s L = (let M = ring_unlink s L in M\<lparr>nx := (nx M)(s := 0), pv := (pv M)(s := 0)\<rparr>)"

lemma removeFromList_ring:
  assumes "ring h (xs @ s # ys) (r_links r)" "0 \<notin> set (h # xs @ s # ys)"
  shows "removeFromList s r = (True, r\<lparr>r_links := unlinked s (r_links r)\<rparr>)" "ring h (xs @ ys) (unlinked s (r_links r))"
    and "nx (unlinked s (r_links r)) s = 0" "pv (unlinked s (r_links r)) s = 0"
    and "\<And>g zs. ring g zs (r_links r) \<Longrightarrow> set (h # xs @ s # ys) \<inter> set (g # zs) = {} \<Longrightarrow> ring g zs (unlinked s (r_links r))"
proof -
  let ?L = "r_links r"
  have m: "nx ?L s \<in> set (h # xs @ s # ys)" "pv ?L s \<in> set (h # xs @ s # ys)" using ring_members[OF assms(1)] by auto
  have z: "nx ?L s \<noteq> 0" "pv ?L s \<noteq> 0" using m assms(2) by metis+
  have d: "distinct (h # xs @ s # ys)" and px: "path ?L h xs s" and py: "path ?L s ys h" using assms(1) by (auto simp: ring_def)
  have ne: "nx ?L s \<noteq> s" "pv ?L s \<noteq> s" using d px py by (cases ys; cases xs rule: rev_cases; auto)+
  show "removeFromList s r = (True, r\<lparr>r_links := unlinked s ?L\<rparr>)"
    using z ne by (simp add: removeFromList_def unlinked_def ring_unlink_def Let_def fun_upd_twist)
  have "ring h (xs @ ys) (ring_unlink s ?L)" by (rule ring_unlink_refines[OF assms(1)])
  then show "ring h (xs @ ys) (unlinked s ?L)" by (rule ring_frame) (use d in \<open>auto simp: unlinked_def Let_def\<close>)
  show "nx (unlinked s ?L) s = 0" "pv (unlinked s ?L) s = 0" by (simp_all add: unlinked_def Let_def)
  show "ring g zs (unlinked s ?L)" if "ring g zs ?L" "set (h # xs @ s # ys) \<inter> set (g # zs) = {}" for g zs
    by (rule ring_frame[OF that(1)]) (use that(2) m in \<open>auto simp: unlinked_def Let_def ring_unlink_def\<close>)
qed

subsection \<open>The order of timers\<close>

lemma timer_less_trans: "timer_less a b \<Longrightarrow> timer_less b c \<Longrightarrow> timer_less a c"
  by (auto simp: timer_less_def split: if_splits)

lemma timer_less_neg_trans: "\<not> timer_less a b \<Longrightarrow> \<not> timer_less b c \<Longrightarrow> \<not> timer_less a c"
  by (auto simp: timer_less_def split: if_splits)

lemma timer_less_asym: "timer_less a b \<Longrightarrow> \<not> timer_less b a"
  by (auto simp: timer_less_def split: if_splits)

definition in_order :: "(nat \<Rightarrow> timeval) \<Rightarrow> nat list \<Rightarrow> bool" where
  "in_order t xs \<longleftrightarrow> sorted_wrt (\<lambda>a b. \<not> timer_less (t b) (t a)) xs"

lemma sorted_prefix:
  assumes "sorted_wrt Q xs" "\<And>x y. Q x y \<Longrightarrow> \<not> P x \<Longrightarrow> \<not> P y"
  shows "takeWhile P xs = filter P xs \<and> (\<forall>e \<in> set (dropWhile P xs). \<not> P e)"
  using assms(1)
proof (induction xs)
  case (Cons x xs)
  show ?case
  proof (cases "P x")
    case False
    then have n: "\<forall>e \<in> set xs. \<not> P e" using Cons.prems assms(2) by auto
    then have "filter P xs = []" by (simp add: filter_empty_conv)
    then show ?thesis using False n by simp
  next
    case True
    have "takeWhile P xs = filter P xs \<and> (\<forall>e \<in> set (dropWhile P xs). \<not> P e)" using Cons.prems by (intro Cons.IH) simp
    then show ?thesis unfolding takeWhile.simps filter.simps dropWhile.simps if_P[OF True] by metis
  qed
qed simp

lemma in_order_due:
  assumes "in_order t xs"
  shows "takeWhile (\<lambda>e. timer_less (t e) now) xs = filter (\<lambda>e. timer_less (t e) now) xs"
    and "\<And>e. e \<in> set (dropWhile (\<lambda>e. timer_less (t e) now) xs) \<Longrightarrow> \<not> timer_less (t e) now"
proof -
  define P where "P = (\<lambda>e. timer_less (t e) now)"
  have "takeWhile P xs = filter P xs \<and> (\<forall>e \<in> set (dropWhile P xs). \<not> P e)"
    by (rule sorted_prefix[OF assms[unfolded in_order_def]]) (simp only: P_def, erule (1) timer_less_neg_trans)
  then show "takeWhile (\<lambda>e. timer_less (t e) now) xs = filter (\<lambda>e. timer_less (t e) now) xs"
    "\<And>e. e \<in> set (dropWhile (\<lambda>e. timer_less (t e) now) xs) \<Longrightarrow> \<not> timer_less (t e) now"
    unfolding P_def by metis+
qed

lemma sorted_wrt_insert:
  assumes "sorted_wrt Q xs" "\<And>e. P e \<Longrightarrow> Q e s" "\<And>e. e \<in> set (dropWhile P xs) \<Longrightarrow> Q s e"
  shows "sorted_wrt Q (takeWhile P xs @ s # dropWhile P xs)"
proof -
  have "sorted_wrt Q (takeWhile P xs @ dropWhile P xs)" using assms(1) by simp
  then show ?thesis using assms(2,3) set_takeWhileD[of _ P xs] unfolding sorted_wrt_append by auto
qed

lemma in_order_insert:
  assumes "in_order t xs"
  shows "in_order t (takeWhile (\<lambda>e. timer_less (t e) (t s)) xs @ s # dropWhile (\<lambda>e. timer_less (t e) (t s)) xs)"
  unfolding in_order_def
  by (rule sorted_wrt_insert[OF assms[unfolded in_order_def]]) (use timer_less_asym in_order_due(2)[OF assms] in blast)+

subsection \<open>The two lists and the table\<close>

lemma heads [simp]: "timer_list \<noteq> pending_list" "pending_list \<noteq> timer_list" "timer_list \<noteq> 0" "pending_list \<noteq> 0"
  by (simp_all add: timer_list_def pending_list_def)

definition lists_ok :: "links \<Rightarrow> nat list \<Rightarrow> nat list \<Rightarrow> bool" where
  "lists_ok L ts ps \<longleftrightarrow> ring timer_list ts L \<and> ring pending_list ps L \<and> distinct (0 # timer_list # pending_list # ts @ ps)"

definition table_ok :: "nat list \<Rightarrow> nat list \<Rightarrow> bool" where
  "table_ok tab ts \<longleftrightarrow> length tab = MAX_FD_EVENTS \<and> distinct (filter (\<lambda>e. e \<noteq> 0) tab) \<and> set tab \<inter> set (timer_list # pending_list # ts) = {}"

definition loop_ok :: "ril \<Rightarrow> nat list \<Rightarrow> nat list \<Rightarrow> bool" where
  "loop_ok r ts ps \<longleftrightarrow> lists_ok (r_links r) ts ps \<and> in_order (r_timeout r) ts \<and> table_ok (r_watch r) ts"

abbreviation unlisted :: "nat \<Rightarrow> nat list \<Rightarrow> nat list \<Rightarrow> bool" where
  "unlisted e ts ps \<equiv> e \<notin> set (0 # timer_list # pending_list # ts @ ps)"

lemma addToList_ring: "addToList ev l r = r\<lparr>r_links := ring_insert l ev (r_links r)\<rparr>"
proof (cases "ev \<noteq> l \<and> pv (r_links r) l \<noteq> ev")
  case True
  then show ?thesis by (simp add: addToList_def ring_insert_nx_pv Let_def)
next
  case False
  then have "ev = l \<or> pv (r_links r) l = ev" by blast
  then show ?thesis by (elim disjE) (simp_all add: addToList_def ring_insert_def Let_def fun_upd_idem)
qed

lemma nx_ring: "path L a xs h \<Longrightarrow> nx L a = hd (xs @ [h])"
  by (cases xs) auto

lemma pending_add:
  assumes "lists_ok L ts ps" "unlisted e ts ps"
  shows "lists_ok (ring_insert pending_list e L) ts (ps @ [e])"
proof -
  have "ring pending_list (ps @ [e]) (ring_insert pending_list e L)" using assms by (intro ring_insert_refines) (auto simp: lists_ok_def)
  moreover have "ring timer_list ts (ring_insert pending_list e L)"
    by (rule ring_insert_other[of pending_list ps]) (use assms in \<open>auto simp: lists_ok_def\<close>)
  ultimately show ?thesis using assms by (auto simp: lists_ok_def)
qed

lemma timer_place:
  assumes "lists_ok L (xs @ ys) ps" "unlisted e (xs @ ys) ps"
  shows "lists_ok (ring_insert (hd (ys @ [timer_list])) e L) (xs @ e # ys) ps"
proof -
  have r: "ring timer_list (xs @ ys) L" "ring pending_list ps L" "distinct (0 # timer_list # pending_list # (xs @ ys) @ ps)"
    using assms(1) by (simp_all add: lists_ok_def)
  have "ring timer_list (xs @ e # ys) (ring_insert (hd (ys @ [timer_list])) e L)"
    by (rule ring_insert_before[OF r(1)]) (use assms(2) in auto)
  moreover have "ring pending_list ps (ring_insert (hd (ys @ [timer_list])) e L)"
    by (rule ring_insert_other[OF r(1,2)]) (use r(3) assms(2) in \<open>cases ys; auto\<close>)+
  ultimately show ?thesis using r(3) assms(2) by (auto simp: lists_ok_def)
qed

lemma timer_remove:
  assumes "lists_ok (r_links r) (xs @ e # ys) ps"
  shows "removeFromList e r = (True, r\<lparr>r_links := unlinked e (r_links r)\<rparr>)" "lists_ok (unlinked e (r_links r)) (xs @ ys) ps"
proof -
  have r: "ring timer_list (xs @ e # ys) (r_links r)" "0 \<notin> set (timer_list # xs @ e # ys)" "ring pending_list ps (r_links r)"
    "set (timer_list # xs @ e # ys) \<inter> set (pending_list # ps) = {}"
    using assms by (auto simp: lists_ok_def)
  show "removeFromList e r = (True, r\<lparr>r_links := unlinked e (r_links r)\<rparr>)" by (rule removeFromList_ring(1)[OF r(1,2)])
  show "lists_ok (unlinked e (r_links r)) (xs @ ys) ps"
    using removeFromList_ring(2)[OF r(1,2)] removeFromList_ring(5)[OF r(1,2,3,4)] assms by (auto simp: lists_ok_def)
qed

lemma pending_remove:
  assumes "lists_ok (r_links r) ts (xs @ e # ys)"
  shows "removeFromList e r = (True, r\<lparr>r_links := unlinked e (r_links r)\<rparr>)" "lists_ok (unlinked e (r_links r)) ts (xs @ ys)"
    and "nx (unlinked e (r_links r)) e = 0" "pv (unlinked e (r_links r)) e = 0"
proof -
  have r: "ring pending_list (xs @ e # ys) (r_links r)" "0 \<notin> set (pending_list # xs @ e # ys)" "ring timer_list ts (r_links r)"
    "set (pending_list # xs @ e # ys) \<inter> set (timer_list # ts) = {}"
    using assms by (auto simp: lists_ok_def)
  show "removeFromList e r = (True, r\<lparr>r_links := unlinked e (r_links r)\<rparr>)" by (rule removeFromList_ring(1)[OF r(1,2)])
  show "lists_ok (unlinked e (r_links r)) ts (xs @ ys)"
    using removeFromList_ring(2)[OF r(1,2)] removeFromList_ring(5)[OF r(1,2,3,4)] assms by (auto simp: lists_ok_def)
  show "nx (unlinked e (r_links r)) e = 0" "pv (unlinked e (r_links r)) e = 0" by (rule removeFromList_ring(3,4)[OF r(1,2)])+
qed

subsection \<open>Timers\<close>

lemma find_place_path:
  "path (r_links r) a ts timer_list \<Longrightarrow> timer_list \<notin> set ts \<Longrightarrow>
   find_place r ev (hd (ts @ [timer_list])) = Some (hd (dropWhile (\<lambda>e. timer_less (r_timeout r e) (r_timeout r ev)) ts @ [timer_list]))"
proof (induction ts arbitrary: a)
  case Nil
  show ?case by (subst find_place.simps) simp
next
  case (Cons x xs)
  then have "nx (r_links r) x = hd (xs @ [timer_list])" by (auto dest: nx_ring)
  then show ?case using Cons by (subst find_place.simps) auto
qed

lemma timeouts_loop_moves:
  assumes "lists_ok (r_links r) ts ps" "P = (\<lambda>e. timer_less (r_timeout r e) now)"
  shows "\<exists>L. timeouts_loop now (hd (ts @ [timer_list])) r = Some (r\<lparr>r_links := L\<rparr>) \<and> lists_ok L (dropWhile P ts) (ps @ takeWhile P ts)"
  using assms
proof (induction ts arbitrary: r ps)
  case Nil
  then show ?case by (subst timeouts_loop.simps) (auto intro: exI[of _ "r_links r"])
next
  case (Cons x xs)
  have n: "nx (r_links r) x = hd (xs @ [timer_list])" and x: "x \<noteq> timer_list" "unlisted x xs ps"
    using Cons.prems(1) by (auto simp: lists_ok_def ring_def dest: nx_ring)
  show ?case
  proof (cases "P x")
    case False
    then show ?thesis using Cons.prems by (subst timeouts_loop.simps) (auto intro: exI[of _ "r_links r"])
  next
    case True
    let ?r = "addToList x pending_list (snd (removeFromList x r))"
    have rm: "removeFromList x r = (True, r\<lparr>r_links := unlinked x (r_links r)\<rparr>)" "lists_ok (unlinked x (r_links r)) xs ps"
      using timer_remove[of r "[]" x xs ps] Cons.prems(1) by simp_all
    define M where "M = ring_insert pending_list x (unlinked x (r_links r))"
    have e: "?r = r\<lparr>r_links := M\<rparr>" by (simp add: addToList_ring rm(1) M_def)
    have "lists_ok M xs (ps @ [x])" unfolding M_def by (rule pending_add[OF rm(2) x(2)])
    then obtain L where "timeouts_loop now (hd (xs @ [timer_list])) (r\<lparr>r_links := M\<rparr>) = Some (r\<lparr>r_links := L\<rparr>)"
      "lists_ok L (dropWhile P xs) ((ps @ [x]) @ takeWhile P xs)"
      using Cons.IH[of "r\<lparr>r_links := M\<rparr>" "ps @ [x]"] Cons.prems(2) by auto
    moreover have "timer_less (r_timeout r x) now" using True Cons.prems(2) by simp
    then have "timeouts_loop now x r = timeouts_loop now (hd (xs @ [timer_list])) (r\<lparr>r_links := M\<rparr>)"
      using x(1) by (subst timeouts_loop.simps) (simp only: e n simp_thms if_True)
    ultimately show ?thesis using True by auto
  qed
qed

lemma timer_add_ok:
  assumes "loop_ok r ts ps" "unlisted ev ts ps" "ev \<notin> set (r_watch r)"
    and before_def: "before = (\<lambda>e. timer_less (r_timeout r e) (timeradd now tv))"
  shows "\<exists>r'. ril_timer_add now ev (Some tv) r = Some r' \<and> loop_ok r' (takeWhile before ts @ ev # dropWhile before ts) ps
    \<and> r_timeout r' = (r_timeout r)(ev := timeradd now tv) \<and> r_watch r' = r_watch r"
proof -
  let ?t = "(r_timeout r)(ev := timeradd now tv)" and ?r = "r\<lparr>r_fd := (r_fd r)(ev := -1), r_timeout := (r_timeout r)(ev := timeradd now tv)\<rparr>"
  let ?p = "\<lambda>e. timer_less (?t e) (?t ev)"
  have l: "lists_ok (r_links r) ts ps" and o: "in_order (r_timeout r) ts" and tab: "table_ok (r_watch r) ts"
    using assms(1) by (simp_all add: loop_ok_def)
  have ev: "ev \<notin> set ts" using assms(2) by simp
  have w: "takeWhile ?p ts = takeWhile before ts" "dropWhile ?p ts = dropWhile before ts"
    using ev unfolding before_def by (auto intro!: takeWhile_cong dropWhile_cong)
  have "path (r_links ?r) timer_list ts timer_list" "timer_list \<notin> set ts" using l by (auto simp: lists_ok_def ring_def)
  from find_place_path[OF this, of ev]
  have f: "find_place ?r ev (nx (r_links r) timer_list) = Some (hd (dropWhile before ts @ [timer_list]))"
    using nx_ring[of "r_links r" timer_list ts timer_list] l w(2) by (simp add: lists_ok_def ring_def)
  have "lists_ok (r_links r) (takeWhile before ts @ dropWhile before ts) ps" using l by simp
  then have "lists_ok (ring_insert (hd (dropWhile before ts @ [timer_list])) ev (r_links r)) (takeWhile before ts @ ev # dropWhile before ts) ps"
    by (rule timer_place) (use assms(2) in simp)
  moreover have "in_order ?t ts" using o ev unfolding in_order_def by (elim sorted_wrt_mono_rel[rotated]) auto
  then have "in_order ?t (takeWhile ?p ts @ ev # dropWhile ?p ts)" by (rule in_order_insert)
  then have "in_order ?t (takeWhile before ts @ ev # dropWhile before ts)" by (simp only: w)
  moreover have "set (takeWhile before ts @ ev # dropWhile before ts) = insert ev (set ts)"
    by (metis Un_insert_right list.simps(15) set_append takeWhile_dropWhile_id)
  then have "table_ok (r_watch r) (takeWhile before ts @ ev # dropWhile before ts)"
    using tab assms(3) unfolding table_ok_def by auto
  ultimately show ?thesis using f by (simp add: ril_timer_add_def Let_def addToList_ring loop_ok_def)
qed

text \<open>
  C18: Adding a timer ends, keeps the timers in the order of their times and puts the new one, with the time
  now plus its delay, behind the timers that expire before it and in front of the others; the pending
  events and the table of descriptors stay as they are.
\<close>

theorem timer_add_sorted:
  assumes "loop_ok r ts ps" "unlisted ev ts ps" "ev \<notin> set (r_watch r)"
    and before_def: "before = (\<lambda>e. timer_less (r_timeout r e) (timeradd now tv))"
  shows "\<exists>r'. ril_timer_add now ev (Some tv) r = Some r' \<and> loop_ok r' (takeWhile before ts @ ev # dropWhile before ts) ps
    \<and> r_timeout r' = (r_timeout r)(ev := timeradd now tv) \<and> r_watch r' = r_watch r"
  by (rule timer_add_ok[OF assms])

lemma processTimeouts_moves:
  assumes "lists_ok (r_links r) ts ps" "in_order (r_timeout r) ts" "P = (\<lambda>e. timer_less (r_timeout r e) now)"
  shows "\<exists>L. processTimeouts now r = Some (r\<lparr>r_links := L\<rparr>) \<and> lists_ok L (dropWhile P ts) (ps @ filter P ts)"
proof -
  have "nx (r_links r) timer_list = hd (ts @ [timer_list])" using assms(1) by (intro nx_ring) (simp add: lists_ok_def ring_def)
  moreover have "takeWhile P ts = filter P ts" unfolding assms(3) by (rule in_order_due(1)[OF assms(2)])
  ultimately show ?thesis using timeouts_loop_moves[OF assms(1,3)] by (simp add: processTimeouts_def)
qed

subsection \<open>Descriptors\<close>

lemma filter_zeroed:
  "distinct (filter (\<lambda>e. e \<noteq> 0) xs) \<Longrightarrow> distinct (filter (\<lambda>e. e \<noteq> 0) (xs[i := 0 :: nat])) \<and> set (xs[i := 0]) \<subseteq> insert 0 (set xs)"
proof (induction xs arbitrary: i)
  case (Cons x xs)
  then show ?case
  proof (cases i)
    case (Suc k)
    have "set (xs[k := 0]) \<subseteq> insert 0 (set xs)" by (rule set_update_subset_insert)
    then show ?thesis using Cons Suc by (auto split: if_splits)
  qed (auto split: if_splits)
qed simp

lemma removeWatch_keeps [simp]:
  "r_links (removeWatch e i r) = r_links r" "r_fd (removeWatch e i r) = r_fd r" "r_timeout (removeWatch e i r) = r_timeout r"
  "r_persist (removeWatch e i r) = r_persist r" "r_watch (removeWatch e i r) = (r_watch r)[i := 0]"
  by (simp_all add: removeWatch_def Let_def)

lemma table_zeroed: "table_ok tab ts \<Longrightarrow> 0 \<notin> set ts \<Longrightarrow> table_ok (tab[i := 0]) ts"
  using filter_zeroed[of tab i] by (auto simp: table_ok_def)

text \<open>Deleting an event from the table leaves the lists alone, whatever its index.\<close>

lemma event_del_ok: "loop_ok r ts ps \<Longrightarrow> loop_ok (ril_event_del e r) ts ps"
  by (auto simp: ril_event_del_def loop_ok_def lists_ok_def intro: table_zeroed)

lemma readies_loop_adds:
  assumes "lists_ok (r_links r) ts ps" "table_ok (r_watch r) ts" "distinct (filter (\<lambda>e. e \<noteq> 0) es)"
    and "set es \<inter> set (timer_list # pending_list # ts @ ps) = {}"
  shows "lists_ok (r_links (readies_loop rfds es i n r)) ts (ps @ take (nat n) (filter (\<lambda>e. e \<noteq> 0 \<and> r_fd r e \<in> rfds) es))
    \<and> table_ok (r_watch (readies_loop rfds es i n r)) ts \<and> r_timeout (readies_loop rfds es i n r) = r_timeout r"
  using assms
proof (induction es arbitrary: i n r ps)
  case (Cons e es)
  show ?case
  proof (cases "0 < n \<and> e \<noteq> 0 \<and> r_fd r e \<in> rfds")
    case False
    then consider "n \<le> 0" | "0 < n" "\<not> (e \<noteq> 0 \<and> r_fd r e \<in> rfds)" by linarith
    then show ?thesis
    proof cases
      case 1
      then show ?thesis using Cons.prems by simp
    next
      case 2
      have "distinct (filter (\<lambda>e. e \<noteq> 0) es)" "set es \<inter> set (timer_list # pending_list # ts @ ps) = {}"
        using Cons.prems(3,4) by (auto split: if_splits)
      note IH = Cons.IH[OF Cons.prems(1,2) this, of "i + 1" n]
      have s: "readies_loop rfds (e # es) i n r = readies_loop rfds es (i + 1) n r" using 2 by (subst readies_loop.simps) auto
      have "filter (\<lambda>e. e \<noteq> 0 \<and> r_fd r e \<in> rfds) (e # es) = filter (\<lambda>e. e \<noteq> 0 \<and> r_fd r e \<in> rfds) es" using 2(2) by simp
      then show ?thesis using IH unfolding s by simp
    qed
  next
    case True
    define q where "q = (let r = addToList e pending_list r in if \<not> r_persist r e then removeWatch e i r else r)"
    have s: "readies_loop rfds (e # es) i n r = readies_loop rfds es (i + 1) (n - 1) q"
      using True by (simp add: q_def Let_def)
    have fe: "r_fd q = r_fd r" "r_timeout q = r_timeout r" "r_links q = ring_insert pending_list e (r_links r)"
      by (simp_all add: q_def Let_def addToList_ring)
    have l: "lists_ok (r_links q) ts (ps @ [e])" unfolding fe(3) using True Cons.prems(1,4) by (intro pending_add) auto
    have "0 \<notin> set ts" using Cons.prems(1) by (simp add: lists_ok_def)
    then have t: "table_ok (r_watch q) ts" using Cons.prems(2) by (simp add: q_def Let_def addToList_ring table_zeroed)
    have "distinct (filter (\<lambda>e. e \<noteq> 0) es)" "set es \<inter> set (timer_list # pending_list # ts @ (ps @ [e])) = {}"
      using True Cons.prems(3,4) by auto
    from Cons.IH[OF l t this, of "i + 1" "n - 1"] show ?thesis
      using True unfolding s fe(1,2) by (simp add: take_Cons' nat_diff_distrib)
  qed
qed simp

subsection \<open>Firing\<close>

text \<open>
  What the loop relies on from the callbacks: a callback of an event that is in no list may add and remove
  timers and table entries, and leaves the pending events alone.
\<close>

locale callbacks =
  fixes call :: "nat \<Rightarrow> ril \<Rightarrow> ril"
  assumes keep: "loop_ok r ts ps \<Longrightarrow> unlisted e ts ps \<Longrightarrow> \<exists>ts'. loop_ok (call e r) ts' ps"
begin

lemma fire_loop_fires:
  "loop_ok r ts ps \<Longrightarrow> \<exists>r' ts'. fire_loop call (hd (ps @ [pending_list])) r fired = Some (Inr (r', fired @ ps)) \<and> loop_ok r' ts' []"
proof (induction ps arbitrary: r ts fired)
  case Nil
  then show ?case by (subst fire_loop.simps) auto
next
  case (Cons e ps)
  let ?q = "r\<lparr>r_links := unlinked e (r_links r)\<rparr>"
  have l: "lists_ok (r_links r) ts ([] @ e # ps)" using Cons.prems by (simp add: loop_ok_def)
  have e: "unlisted e ts ps" using l by (auto simp: lists_ok_def)
  have "loop_ok ?q ts ps" using pending_remove(2)[OF l] Cons.prems by (simp add: loop_ok_def)
  from keep[OF this e] obtain ts' where ok: "loop_ok (call e ?q) ts' ps" by blast
  have n: "nx (r_links r) e = hd (ps @ [pending_list])" using l by (auto simp: lists_ok_def ring_def dest: nx_ring)
  have "fire_loop call (hd ((e # ps) @ [pending_list])) r fired = fire_loop call (hd (ps @ [pending_list])) (call e ?q) (fired @ [e])"
    using e by (subst fire_loop.simps) (simp add: pending_remove(1)[OF l] n)
  then show ?case using Cons.IH[OF ok, of "fired @ [e]"] by simp
qed

lemma firePending_fires:
  assumes "loop_ok r ts ps"
  shows "\<exists>r' ts'. firePending call r = Some (Inr (r', ps)) \<and> loop_ok r' ts' []"
proof -
  have "nx (r_links r) pending_list = hd (ps @ [pending_list])"
    using assms by (intro nx_ring) (simp add: loop_ok_def lists_ok_def ring_def)
  then show ?thesis using fire_loop_fires[OF assms, of "[]"] by (simp add: firePending_def)
qed

end

subsection \<open>The rounds\<close>

lemma dispatch_ok:
  assumes "loop_ok r ts []" "P = (\<lambda>e. timer_less (r_timeout r e) now)"
  shows "\<exists>q. processTimeouts now r = Some q
    \<and> loop_ok (processReadReadies rfds n q) (dropWhile P ts) (filter P ts @ take (nat n) (filter (\<lambda>e. e \<noteq> 0 \<and> r_fd r e \<in> rfds) (r_watch r)))"
proof -
  have l: "lists_ok (r_links r) ts []" and o: "in_order (r_timeout r) ts" and tab: "table_ok (r_watch r) ts"
    using assms(1) by (simp_all add: loop_ok_def)
  obtain L where L: "processTimeouts now r = Some (r\<lparr>r_links := L\<rparr>)" "lists_ok L (dropWhile P ts) (filter P ts)"
    using processTimeouts_moves[OF l o assms(2)] by auto
  have sub: "set (dropWhile P ts) \<subseteq> set ts" "set (filter P ts) \<subseteq> set ts" by (auto dest: set_dropWhileD)
  have t: "table_ok (r_watch (r\<lparr>r_links := L\<rparr>)) (dropWhile P ts)" using tab sub unfolding table_ok_def by auto
  have "in_order (r_timeout r) (takeWhile P ts @ dropWhile P ts)" using o by simp
  then have "in_order (r_timeout r) (dropWhile P ts)" by (simp only: in_order_def sorted_wrt_append)
  moreover have "lists_ok (r_links (r\<lparr>r_links := L\<rparr>)) (dropWhile P ts) (filter P ts)" using L(2) by simp
  note readies_loop_adds[OF this t, of "r_watch r" rfds 0 n]
  moreover have "distinct (filter (\<lambda>e. e \<noteq> 0) (r_watch r))" "set (r_watch r) \<inter> set (timer_list # pending_list # dropWhile P ts @ filter P ts) = {}"
    using tab sub unfolding table_ok_def by auto
  ultimately show ?thesis using L(1) by (simp add: processReadReadies_def loop_ok_def)
qed

lemma round_ok:
  assumes "callbacks call" "loop_ok r ts []" "w_select w (r_nfds r) (r_readFds r) (calcNextTimeout (w_before w) r) = (n, rfds)" "0 \<le> n"
    and "due = filter (\<lambda>e. timer_less (r_timeout r e) (w_after w)) ts" "ready = filter (\<lambda>e. e \<noteq> 0 \<and> r_fd r e \<in> rfds) (r_watch r)"
  shows "\<exists>r' ts'. ril_event_loop call (w # ws) r fired = ril_event_loop call ws r' (fired @ due @ take (nat n) ready) \<and> loop_ok r' ts' []"
proof -
  obtain q ts' where q: "processTimeouts (w_after w) r = Some q" "loop_ok (processReadReadies rfds n q) ts' (due @ take (nat n) ready)"
    using dispatch_ok[OF assms(2) refl, of "w_after w" rfds n] assms(5,6) by blast
  from callbacks.firePending_fires[OF assms(1) q(2)] show ?thesis using assms(3,4) q(1) by auto
qed

text \<open>However \<open>select\<close> answers and however many rounds there are, the loop neither hangs nor meets a null event.\<close>

theorem loop_never_faults:
  "callbacks call \<Longrightarrow> loop_ok r ts [] \<Longrightarrow> \<exists>r' ts' fs. ril_event_loop call ws r fired = Some (Inr (r', fs)) \<and> loop_ok r' ts' []"
proof (induction ws arbitrary: r ts fired)
  case (Cons w ws)
  obtain n rfds where s: "w_select w (r_nfds r) (r_readFds r) (calcNextTimeout (w_before w) r) = (n, rfds)" by fastforce
  show ?case
  proof (cases "0 \<le> n")
    case True
    from round_ok[OF Cons.prems s True refl refl, of ws fired] show ?thesis using Cons.IH[OF Cons.prems(1)] by metis
  next
    case False
    then show ?thesis using Cons s by auto
  qed
qed auto

lemma init_ok: "loop_ok (ril_event_init r) [] []"
proof -
  let ?L = "ring_init pending_list (ring_init timer_list (r_links r))"
  have "ring timer_list [] ?L" by (simp add: ring_def ring_init_def)
  moreover have "ring pending_list [] ?L" by (rule ring_init_empty)
  ultimately show ?thesis
    by (simp add: loop_ok_def lists_ok_def table_ok_def in_order_def ril_event_init_def init_list_def)
qed

text \<open>
  A timer whose time is now is not due yet, but the wait that is computed for it is already 0: the loop
  runs through \<open>select\<close> until the clock moves on.
\<close>

lemma equal_time_not_due:
  assumes "lists_ok (r_links r) (e # ts) ps" "r_timeout r e = now"
  shows "calcNextTimeout now r = Some \<lparr>tv_sec = 0, tv_usec = 0\<rparr>" "processTimeouts now r = Some r"
proof -
  have "nx (r_links r) timer_list = e" "e \<noteq> timer_list" using assms(1) by (auto simp: lists_ok_def ring_def)
  moreover have "\<not> timer_less now now" by (simp add: timer_less_def)
  ultimately show "calcNextTimeout now r = Some \<lparr>tv_sec = 0, tv_usec = 0\<rparr>" "processTimeouts now r = Some r"
    using assms(2) timeouts_loop.simps[of now e r] by (simp_all add: calcNextTimeout_def processTimeouts_def)
qed

text \<open>A wait that is not 0 ends exactly at the time of the first timer.\<close>

lemma wait_until_first:
  assumes "timer_less now t" "0 \<le> tv_usec now" "tv_usec now < 1000000" "0 \<le> tv_usec t" "tv_usec t < 1000000"
  shows "timeradd now (timersub t now) = t"
  using assms by (cases t; cases now) (auto simp: timeradd_def timersub_def Let_def)

subsection \<open>The table\<close>

lemma free_entry_some: "free_entry es i = Some k \<Longrightarrow> \<exists>j. k = i + j \<and> j < length es \<and> es ! j = 0"
  by (induction es arbitrary: i) (force simp: nth_Cons' split: if_splits)+

lemma free_entry_none: "free_entry es i = None \<longleftrightarrow> 0 \<notin> set es"
  by (induction es arbitrary: i) auto

text \<open>Every event of the table has its descriptor in the set and below the bound that \<open>select\<close> is given.\<close>

definition watched :: "ril \<Rightarrow> bool" where
  "watched r \<longleftrightarrow> (\<forall>e \<in> set (r_watch r). e \<noteq> 0 \<longrightarrow> r_fd r e \<in> r_readFds r \<and> r_fd r e < r_nfds r)"

lemma max_fd_bound: "e \<in> set (r_watch r) \<Longrightarrow> e \<noteq> 0 \<Longrightarrow> r_fd r e \<le> max_fd r"
proof -
  define step where "step = (\<lambda>e n. if e \<noteq> 0 \<and> n < r_fd r e then r_fd r e else n)"
  have up: "n \<le> fold step es n" for es n
    by (induction es arbitrary: n) (auto simp: step_def intro: order_trans[rotated] dest: order.strict_implies_order)
  have "e \<in> set es \<Longrightarrow> e \<noteq> 0 \<Longrightarrow> r_fd r e \<le> fold step es n" for es n
  proof (induction es arbitrary: n)
    case (Cons x es)
    have "r_fd r x \<le> step x n" if "x \<noteq> 0" using that by (auto simp: step_def)
    then show ?case using Cons up[of "step x n" es] by force
  qed simp
  then show "e \<in> set (r_watch r) \<Longrightarrow> e \<noteq> 0 \<Longrightarrow> r_fd r e \<le> max_fd r" by (simp add: max_fd_def step_def)
qed

lemma event_add_watched:
  assumes "watched r" shows "watched (ril_event_add ev r)"
proof (cases "free_entry (r_watch r) 0")
  case (Some i)
  have "set ((r_watch r)[i := ev]) \<subseteq> insert ev (set (r_watch r))" by (rule set_update_subset_insert)
  then have "r_fd r e \<in> insert (r_fd r ev) (r_readFds r) \<and> (r_fd r e < r_nfds r \<or> r_fd r e \<le> r_fd r ev)"
    if "e \<in> set ((r_watch r)[i := ev])" "e \<noteq> 0" for e
    using that assms unfolding watched_def by blast
  then show ?thesis using Some by (fastforce simp: watched_def ril_event_add_def Let_def)
qed (use assms in \<open>simp add: ril_event_add_def\<close>)

lemma removeWatch_watched:
  assumes "watched r" "i < length (r_watch r)" "r_watch r ! i = ev" "ev \<noteq> 0"
    and "\<And>j. j < length (r_watch r) \<Longrightarrow> j \<noteq> i \<Longrightarrow> r_watch r ! j \<noteq> 0 \<Longrightarrow> r_fd r (r_watch r ! j) \<noteq> r_fd r ev"
  shows "watched (removeWatch ev i r)"
proof -
  have old: "e \<in> set (r_watch r) \<and> r_fd r e \<noteq> r_fd r ev" if e: "e \<in> set ((r_watch r)[i := 0])" "e \<noteq> 0" for e
  proof -
    obtain j where j: "j < length (r_watch r)" "e = (r_watch r)[i := 0] ! j" using e(1) by (auto simp: in_set_conv_nth)
    then have "j \<noteq> i" using e(2) by auto
    then show ?thesis using j assms(5)[of j] e(2) by simp
  qed
  let ?q = "r\<lparr>r_watch := (r_watch r)[i := 0], r_index := (r_index r)(ev := -1), r_readFds := r_readFds r - {r_fd r ev}\<rparr>"
  define q where "q = ?q"
  have f: "r_fd q = r_fd r" "r_watch q = (r_watch r)[i := 0]" "r_readFds q = r_readFds r - {r_fd r ev}" "r_nfds q = r_nfds r"
    by (simp_all add: q_def)
  have b: "r_fd r e \<in> r_readFds q \<and> r_fd r e < r_nfds r \<and> r_fd r e \<le> max_fd q" if "e \<in> set (r_watch q)" "e \<noteq> 0" for e
    using max_fd_bound[OF that] old[of e] that assms(1) unfolding watched_def f by blast
  have "watched q" "watched (q\<lparr>r_nfds := max_fd q + 1\<rparr>)" using b by (auto simp: watched_def f)
  moreover have "removeWatch ev i r = (if r_fd r ev + 1 = r_nfds r then q\<lparr>r_nfds := max_fd q + 1\<rparr> else q)"
    by (simp add: removeWatch_def Let_def q_def)
  ultimately show ?thesis by simp
qed

text \<open>A ninth event is not added, and its caller is not told.\<close>

lemma ninth_event_dropped: "0 \<notin> set (r_watch r) \<Longrightarrow> ril_event_add ev r = r"
  by (simp add: ril_event_add_def free_entry_none[of _ 0, THEN iffD2])

lemma distinct_filled:
  "distinct (filter (\<lambda>e. e \<noteq> 0) xs) \<Longrightarrow> ev \<notin> set xs \<Longrightarrow> distinct (filter (\<lambda>e. e \<noteq> 0) (xs[i := ev :: nat]))"
proof (induction xs arbitrary: i)
  case (Cons x xs)
  then show ?case
  proof (cases i)
    case (Suc k)
    have "set (xs[k := ev]) \<subseteq> insert ev (set xs)" by (rule set_update_subset_insert)
    then show ?thesis using Cons Suc by (auto split: if_splits)
  qed (auto split: if_splits)
qed simp

lemma event_add_ok:
  assumes "loop_ok r ts ps" "ev \<notin> set (r_watch r)" "ev \<notin> set (timer_list # pending_list # ts)"
  shows "loop_ok (ril_event_add ev r) ts ps"
proof (cases "free_entry (r_watch r) 0")
  case (Some i)
  have "set ((r_watch r)[i := ev]) \<subseteq> insert ev (set (r_watch r))" by (rule set_update_subset_insert)
  then have "table_ok ((r_watch r)[i := ev]) ts" using assms distinct_filled[of "r_watch r" ev i] by (auto simp: loop_ok_def table_ok_def)
  then show ?thesis using assms(1) Some by (simp add: ril_event_add_def loop_ok_def Let_def)
qed (use assms in \<open>simp add: ril_event_add_def\<close>)

subsection \<open>Callbacks\<close>

text \<open>A timer that adds itself again, and a connection that takes itself out of the table.\<close>

definition rearm :: "timeval \<Rightarrow> timeval \<Rightarrow> nat \<Rightarrow> ril \<Rightarrow> ril" where
  "rearm now tv e r = (if e \<in> set (r_watch r) then r else case ril_timer_add now e (Some tv) r of None \<Rightarrow> r | Some r \<Rightarrow> r)"

interpretation again: callbacks "rearm now tv" for now tv
proof unfold_locales
  fix r ts ps e
  assume "loop_ok r ts ps" "unlisted e ts ps"
  then show "\<exists>ts'. loop_ok (rearm now tv e r) ts' ps"
    using timer_add_ok[of r ts ps e _ now tv, OF _ _ _ refl] by (cases "e \<in> set (r_watch r)") (auto simp: rearm_def)
qed

interpretation hangup: callbacks ril_event_del
  by unfold_locales (blast intro: event_del_ok)

text \<open>
  \<open>ril_timer_delete\<close> is not safe inside a callback: when two events are pending and the callback of the
  first deletes the second, the deletion reports success, yet the callback of the second runs all the
  same, and then the loop follows its null link.
\<close>

lemma deleted_timer_fires:
  assumes "lists_ok (r_links r) ts (a # b # ps)" "call a = (\<lambda>q. snd (ril_timer_delete b q))"
  shows "firePending call r = Some (Inl (NullEvent [a, b]))
    \<and> fst (ril_timer_delete b (snd (removeFromList a r)))"
proof -
  let ?q = "r\<lparr>r_links := unlinked a (r_links r)\<rparr>"
  let ?s = "?q\<lparr>r_links := unlinked b (r_links ?q)\<rparr>"
  have la: "lists_ok (r_links r) ts ([] @ a # (b # ps))" using assms(1) by simp
  have lb: "lists_ok (r_links ?q) ts ([] @ b # ps)" using pending_remove(2)[OF la] by simp
  have ne: "a \<noteq> pending_list" "b \<noteq> pending_list" "a \<noteq> 0" "b \<noteq> 0" using assms(1) by (auto simp: lists_ok_def)
  have n: "nx (r_links r) pending_list = a" "nx (r_links r) a = b" using assms(1) by (simp_all add: lists_ok_def ring_def)
  have ra: "removeFromList a r = (True, ?q)" by (rule pending_remove(1)[OF la])
  have ca: "call a ?q = ?s" "fst (ril_timer_delete b ?q)"
    using pending_remove(1)[OF lb] assms(2) by (simp_all add: ril_timer_delete_def)
  have s: "nx (r_links ?s) b = 0" "removeFromList b ?s = (False, ?s)"
    using pending_remove(3)[OF lb] by (simp_all add: removeFromList_def Let_def)
  have "firePending call r = fire_loop call b ?s [a]"
    unfolding firePending_def n(1) using ne by (subst fire_loop.simps) (simp only: n ra snd_conv ca(1) if_False append.simps)
  also have "\<dots> = fire_loop call 0 (call b ?s) [a, b]"
    using ne by (subst fire_loop.simps) (simp only: s snd_conv if_False append.simps)
  also have "\<dots> = Some (Inl (NullEvent [a, b]))" by (subst fire_loop.simps) simp
  finally show ?thesis using ca(2) by (simp only: ra snd_conv simp_thms)
qed

text \<open>
  C17: One round of the event loop, with callbacks that keep the lists in order and leave the events that
  are still pending alone: when \<open>select\<close> reports \<open>n\<close> descriptors, the round ends, runs the callbacks of
  the timers whose time is strictly past, in the order of their times, then those of the first \<open>n\<close> events
  of the table whose descriptor is ready, each once; no pending event is left, the timers are in order
  again and the loop goes on with the next round. A timer whose time is now is not fired, although the
  comment in the code says so. The condition on the callbacks is needed: one that deletes the event that
  is pending next, as \<open>RIL_removeTimedCallback\<close> may, has it fired all the same, and the loop then follows
  a null link.
\<close>

theorem round_fires:
  assumes "loop_ok r ts []" "w_select w (r_nfds r) (r_readFds r) (calcNextTimeout (w_before w) r) = (n, rfds)" "0 \<le> n"
    and "due = filter (\<lambda>e. timer_less (r_timeout r e) (w_after w)) ts" "ready = filter (\<lambda>e. e \<noteq> 0 \<and> r_fd r e \<in> rfds) (r_watch r)"
  shows "(callbacks call \<longrightarrow> (\<exists>r' ts'. ril_event_loop call (w # ws) r fired
        = ril_event_loop call ws r' (fired @ due @ take (nat n) ready) \<and> loop_ok r' ts' []))
    \<and> (\<forall>q a b ps. lists_ok (r_links q) ts (a # b # ps) \<and> call a = (\<lambda>q. snd (ril_timer_delete b q)) \<longrightarrow>
         firePending call q = Some (Inl (NullEvent [a, b])))"
  using round_ok[OF _ assms] deleted_timer_fires by blast

subsection \<open>Examples\<close>

text \<open>One timer, at address 3, for ten seconds after the start, and one event for descriptor 7, at address 5.\<close>

definition sample :: ril where
  "sample = \<lparr>r_links = \<lparr>nx = (\<lambda>_. 0)(1 := 3, 3 := 1, 2 := 2), pv = (\<lambda>_. 0)(1 := 3, 3 := 1, 2 := 2)\<rparr>,
     r_fd = (\<lambda>_. -1)(5 := 7), r_index = (\<lambda>_. -1)(5 := 0), r_persist = (\<lambda>_. True),
     r_timeout = (\<lambda>_. \<lparr>tv_sec = 0, tv_usec = 0\<rparr>)(3 := \<lparr>tv_sec = 10, tv_usec = 0\<rparr>),
     r_watch = [5, 0, 0, 0, 0, 0, 0, 0], r_readFds = {7}, r_nfds = 8\<rparr>"

lemma sample_ok: "loop_ok sample [3] []"
  by (simp add: loop_ok_def lists_ok_def table_ok_def in_order_def ring_def sample_def timer_list_def pending_list_def)

theorem timer_add_sorted_witness:
  "\<exists>r'. ril_timer_add \<lparr>tv_sec = 5, tv_usec = 0\<rparr> 4 (Some \<lparr>tv_sec = 2, tv_usec = 0\<rparr>) sample = Some r' \<and> loop_ok r' [4, 3] []"
proof -
  have "unlisted 4 [3] []" "4 \<notin> set (r_watch sample)" by (simp_all add: sample_def timer_list_def pending_list_def)
  from timer_add_sorted[OF sample_ok this refl, where now = "\<lparr>tv_sec = 5, tv_usec = 0\<rparr>" and tv = "\<lparr>tv_sec = 2, tv_usec = 0\<rparr>"]
  show ?thesis by (auto simp: sample_def timeradd_def timer_less_def Let_def)
qed

theorem round_fires_witness:
  "\<exists>r' ts'. ril_event_loop (rearm \<lparr>tv_sec = 11, tv_usec = 0\<rparr> \<lparr>tv_sec = 10, tv_usec = 0\<rparr>)
      [\<lparr>w_before = \<lparr>tv_sec = 5, tv_usec = 0\<rparr>, w_select = \<lambda>nfds fds tv. (1, fds), w_eintr = False, w_after = \<lparr>tv_sec = 11, tv_usec = 0\<rparr>\<rparr>]
      sample [] = Some (Inr (r', [3, 5])) \<and> loop_ok r' ts' []"
proof -
  let ?w = "\<lparr>w_before = \<lparr>tv_sec = 5, tv_usec = 0\<rparr>, w_select = \<lambda>nfds fds tv. (1, fds), w_eintr = False, w_after = \<lparr>tv_sec = 11, tv_usec = 0\<rparr>\<rparr>"
  have s: "w_select ?w (r_nfds sample) (r_readFds sample) (calcNextTimeout (w_before ?w) sample) = (1, {7})" by (simp add: sample_def)
  have d: "filter (\<lambda>e. timer_less (r_timeout sample e) (w_after ?w)) [3] = [3]" "filter (\<lambda>e. e \<noteq> 0 \<and> r_fd sample e \<in> {7}) (r_watch sample) = [5]"
    by (simp_all add: sample_def timer_less_def)
  from round_fires[OF sample_ok s _ refl refl, where ws = "[]" and fired = "[]"] again.callbacks_axioms
  show ?thesis unfolding d by fastforce
qed

text \<open>Two events pending, at the addresses 3 and 4.\<close>

lemma deleted_timer_fires_sample:
  "firePending (\<lambda>e q. if e = 3 then snd (ril_timer_delete 4 q) else q)
     (sample\<lparr>r_links := \<lparr>nx = (\<lambda>_. 0)(1 := 1, 2 := 3, 3 := 4, 4 := 2), pv = (\<lambda>_. 0)(1 := 1, 2 := 4, 4 := 3, 3 := 2)\<rparr>\<rparr>)
   = Some (Inl (NullEvent [3, 4]))"
proof -
  let ?r = "sample\<lparr>r_links := \<lparr>nx = (\<lambda>_. 0)(1 := 1, 2 := 3, 3 := 4, 4 := 2), pv = (\<lambda>_. 0)(1 := 1, 2 := 4, 4 := 3, 3 := 2)\<rparr>\<rparr>"
  have "lists_ok (r_links ?r) [] [3, 4]" by (simp add: lists_ok_def ring_def timer_list_def pending_list_def)
  from deleted_timer_fires[OF this, of "\<lambda>e q. if e = 3 then snd (ril_timer_delete 4 q) else q"] show ?thesis by simp
qed

end
