(* ===== verification/Spec2Isabelle.thy ===== *)
theory Spec2Isabelle
  imports Rsa FbMain AdbProto WinFd SyncDir Fdevent Gralloc RilEvent
begin

text \<open>
  Verification of the host tools, the graphics memory and the radio event loop of the device configuration in
  src/.

  \<^bold>\<open>The programs.\<close> src/tools holds three programs. The first, mkbootimg, builds a boot image from a kernel, a
  ramdisk and a second stage and puts a SHA-1 hash in its header; mincrypt, which comes with it, also
  verifies RSA signatures. The second, fastboot, reads its command line into a queue of actions (checks of variables,
  downloads, flash commands), then runs the queue over USB with a protocol of short commands and four kinds
  of answers; it has a boot image builder of its own. The third, adb, is a server between clients, devices and
  emulators: threads pump packets between a transport and the server, the main thread runs an event loop,
  and everything a client or a device says arrives at a socket, which hands it to its peer. On top of its
  streams run services, of which the file transfer is the largest. src/libgralloc is the library that
  gives graphics buffers to the processes of the device: a best fit allocator, two drivers of the memory
  device, the allocation device with the slots of the frame buffer, and the locks of buffers. The radio
  daemon of src/libril runs on an event loop of its own, with timers and a table of descriptors.

  \<^bold>\<open>The theories\<close>, each with the sources it models; a definition has the name of the C function, or a
  name that says which part of it it is.

  \<^item> Prelude, Clib, Cio: bytes, words and lists; the string functions, number parsing and \<open>printf\<close>
    conversions of the C library; file descriptors as scripts of partial reads and writes, with \<open>readx\<close> and
    \<open>writex\<close> (transport.c).
  \<^item> Sha, Rsa, Bootimg: mkbootimg/sha.c, rsa.c, mkbootimg.c, bootimg.h and fastboot/bootimg.c. Hashing in
    pieces computes the digest of the standard; \<open>RSA_verify\<close> accepts exactly the signatures whose cube is the
    padded digest, and its Montgomery arithmetic does not overflow; the image has its sections at page
    boundaries, and an output file is left only when it is complete or cannot be removed.
  \<^item> FbProtocol, FbEngine, FbMain: fastboot/protocol.c, engine.c, fastboot.c. What a successful download
    means, the order of the queue and where it stops, and that an update writes nothing before its
    requirements are met.
  \<^item> AdbPacket, Dlink, AdbTransport: adb.h, transport.c, transport_local.c, transport_usb.c. Packets
    survive any cutting of a stream, and what is accepted is well formed; the pointer rings are lists; the
    registry of transports, with its reference counts and kicks; the emulator table; the two pump threads.
  \<^item> AdbSocket, AdbStream, AdbHost, AdbProto: sockets.c, adb.c, services.c. Sockets live in a store, so that
    the use of a freed socket is a fault; closing, the queues of local sockets, the host requests, the smart
    socket and \<open>handle_packet\<close>, which is shown to be free of faults on every packet (with a terminated
    banner). A packet that a transport cannot take ends the server, as in the code; the results say when.
  \<^item> Bip, WinFd: sysdeps_win32.c. The circular buffers of a socket pair, shown to be bounded queues, and the
    table of descriptors, over any interleaving of calls.
  \<^item> Files, SyncService, SyncClient, SyncPull, SyncDir: file_sync_service.c and file_sync_client.c on a model of
    the file system. Pushing and pulling a file moves its contents, whatever the service was sent before; the
    buffers of the service are not overrun, with one exception that is stated; the lists of files that a
    push of a directory makes are complete when no link leads nowhere.
  \<^item> Fdevent: fdevent.c. The event loop with arbitrary callbacks: no round fails; with callbacks that leave the
    pending objects alone each round delivers the events that \<open>select\<close> reported.
  \<^item> BestFit, Pmem, GrallocLock, Gralloc: libgralloc's allocator.cpp, pmemalloc.cpp, mapper.cpp, gpu.cpp and their
    headers. The allocator hands out the best fitting chunk and merges what it gets back; buffers are zeroed,
    disjoint and reused only after they were unmapped; the lock of a buffer is exclusive for a writer in every
    interleaving of the threads' accesses, and an unlock returns in every one; sizes are sufficient; from \<open>gralloc_alloc_buffer\<close> to \<open>gralloc_free\<close> a
    buffer goes through all the layers and comes back.
  \<^item> RilEvent: libril's ril_event.cpp and ril_event.h, on the rings of Dlink. Adding a timer keeps the list
    sorted; a round fires the timers that are due and the descriptors that are ready, each once and in
    order; a callback that deletes a pending timer leads the loop to a null pointer.

  \<^bold>\<open>Interfaces.\<close> A component that relies on another states what it needs as a locale, which is interpreted
  where the other is modelled: the byte sources from which packets are read (AdbPacket, for TCP and USB), the
  channels between threads (AdbTransport, for packets and for registration messages), the bounded queues of
  the Windows build (Bip and WinFd), the handlers of the event loop (Fdevent), the
  callbacks of the radio loop (RilEvent), and \<open>suballocator\<close> of Pmem, the
  contract of the driver with its allocator, which the best fit allocator satisfies.

  \<^bold>\<open>State and errors.\<close> State is a record that operations return updated. What the operating system answers is
  part of the state as a script, or an argument; theorems hold for every script unless they say otherwise.
  Errors of the code are its return values; undefined behaviour that the code could run into (a null or
  freed pointer, a buffer overrun, a second lock, an abort) is a value of a fault type, so that a theorem
  that no fault occurs is a statement about the code and not about the model. Integers are 32-bit or
  64-bit words where their width matters, mathematical integers where the code's bounds are shown or plain.

  \<^bold>\<open>Fuel and bounds.\<close> Most loops recurse on their data. Fuel is used where closing a socket recurses through
  its peer (5 levels, shown to be enough), for closing the sockets of a transport (the number of live
  sockets and one more; every round closes one), where enqueueing calls the peer (2 levels, a peer of a
  local socket does not call back), for links in paths (40, the limit of the kernel), and for the pending
  list of the event loop (one more than the 1024 descriptors it can hold). The walk over a directory ends
  because every level lengthens the path and paths of 4096 bytes are refused; the service ends because
  every request consumes input. The walks over the lists of the radio loop are partial functions, shown to end
  when the lists are rings; the loop itself runs for a list of rounds of any length.

  \<^bold>\<open>Not modelled\<close>, because it is input and output, drivers of operating systems or proprietary code: the
  command line and terminals of adb (commandline.c, console.c, adb_client.c), the services that only the
  device runs (jdwp_service.c, framebuffer_service.c, log_service.c, remount_service.c), USB access
  (usb_*.c), the event hooks of the Windows build (which wait for operating system objects), the display
  driver (framebuffer.cpp) and the tables of the hardware module (gralloc.cpp), and the audio, camera,
  copybit and sensor libraries and the marshalling of radio commands (ril.cpp), which are layers over ioctls and binary libraries that are not in the
  repository. Time stamps and texts that are only printed are left out. Memory allocation succeeds unless
  the theory says otherwise (the table of Fdevent and the buffer of SyncService may fail to be allocated). The
  device has a \<open>long\<close> of 32 bits, which matters for \<open>strtoul\<close> in SyncService; the tools of the host are
  taken to be built with 64 bits. A new file gets the permissions that the creation mask leaves. Locks that make the operations of a component run one after another are
  modelled by exactly that; where the order of accesses matters (GrallocLock, Bip, AdbTransport) the steps
  interleave.
\<close>

end
